(* ===== verification/SC_Prelude.thy ===== *)
theory SC_Prelude
  imports Main "HOL-Library.Word" "HOL-Library.Monad_Syntax"
begin

text \<open>
  The vocabulary every other theory shares: names for the machine integers of the C++ code,
  the reading of an \<open>option\<close> result, big-endian words as bytes, and the few generic
  lemmas on options, lists and words that the component proofs use.

  Machine integers. \<open>int32\<close> and \<open>uint32\<close> are both \<open>32 word\<close>: the same 32 bits, read by
  \<open>sint\<close> where the C++ type is signed and by \<open>unat\<close> where it is unsigned. Arithmetic on
  them wraps, shifts to the right are \<open>signed_drop_bit\<close> on a signed and \<open>drop_bit\<close> on an
  unsigned operand. A \<open>float\<close> is its 32 bits (IEEE 754 binary32), a \<open>double\<close> its 64 bits.

  Results. A definition that models code which can run into undefined behaviour (a null or
  dangling pointer, an access outside an array) or which can fail to return has an \<open>option\<close>
  result: \<open>None\<close> is that outcome, \<open>Some r\<close> is a normal return of \<open>r\<close>. Error codes of the
  code are ordinary values. Bytes are those of a little-endian host.
\<close>

unbundle bit_operations_syntax

type_synonym u8 = "8 word"
type_synonym i32 = "32 word"
type_synonym u32 = "32 word"
type_synonym u64 = "64 word"
type_synonym f32 = "32 word"
type_synonym f64 = "64 word"
type_synonym ptr = nat

named_theorems bit_views \<open>bits of the shift and mask expressions of the code\<close>
named_theorems wp_simps \<open>evaluation of a step under its precondition\<close>

section \<open>Reading an option\<close>

lemma bind_Some_iff: "(m \<bind> f = Some y) \<longleftrightarrow> (\<exists>x. m = Some x \<and> f x = Some y)"
  by (cases m) auto

lemma bind_SomeE:
  assumes "m \<bind> f = Some y"
  obtains x where "m = Some x" and "f x = Some y"
  using assms by (cases m) auto

text \<open>Reading an array cell: undefined outside of the array.\<close>

definition aread :: "'a list \<Rightarrow> nat \<Rightarrow> 'a option" where
  "aread xs i = (if i < length xs then Some (xs ! i) else None)"

definition awrite :: "'a list \<Rightarrow> nat \<Rightarrow> 'a \<Rightarrow> 'a list option" where
  "awrite xs i v = (if i < length xs then Some (xs[i := v]) else None)"

lemma aread_Some [simp]: "i < length xs \<Longrightarrow> aread xs i = Some (xs ! i)"
  by (simp add: aread_def)

lemma aread_eq_Some: "aread xs i = Some v \<longleftrightarrow> i < length xs \<and> v = xs ! i"
  by (auto simp: aread_def)

lemma awrite_Some [simp]: "i < length xs \<Longrightarrow> awrite xs i v = Some (xs[i := v])"
  by (simp add: awrite_def)

lemma awrite_eq_Some: "awrite xs i v = Some ys \<longleftrightarrow> i < length xs \<and> ys = xs[i := v]"
  by (auto simp: awrite_def)

section \<open>Words and their bits\<close>

lemma word_xor_cancel:
  fixes x y z :: "'a::len word"
  assumes "x XOR z = y XOR z"
  shows "x = y"
proof -
  have "x = (x XOR z) XOR z" by (simp add: xor.assoc)
  also have "\<dots> = (y XOR z) XOR z" using assms by simp
  also have "\<dots> = y" by (simp add: xor.assoc)
  finally show ?thesis .
qed

text \<open>A word is determined by \<open>x XOR (x >> k)\<close> when \<open>k\<close> is positive.\<close>

lemma xorshift_right_bits:
  fixes x y :: "'a::len word"
  assumes eq: "x XOR drop_bit k x = y XOR drop_bit k y" and "0 < k"
  shows "n < LENGTH('a) \<Longrightarrow> bit x n = bit y n"
proof (induction "LENGTH('a) - n" arbitrary: n rule: less_induct)
  case less
  have "bit (x XOR drop_bit k x) n = bit (y XOR drop_bit k y) n"
    using eq by simp
  then have step: "(bit x n \<noteq> bit x (n + k)) = (bit y n \<noteq> bit y (n + k))"
    by (simp add: bit_simps ac_simps)
  have "bit x (n + k) = bit y (n + k)"
  proof (cases "n + k < LENGTH('a)")
    case True
    then show ?thesis using less \<open>0 < k\<close> by simp
  next
    case False
    then show ?thesis by (simp add: bit_word.rep_eq)
  qed
  with step show ?case by blast
qed

lemma xorshift_right_inj:
  fixes x y :: "'a::len word"
  assumes "x XOR drop_bit k x = y XOR drop_bit k y" and "0 < k"
  shows "x = y"
  by (rule bit_word_eqI) (use xorshift_right_bits [OF assms] in simp)

text \<open>Multiplication by a unit loses nothing.\<close>

lemma mult_unit_inj:
  fixes x y c d :: "'a::len word"
  assumes "x * c = y * c" and "c * d = 1"
  shows "x = y"
proof -
  have "x = x * c * d" using assms(2) by (simp add: mult.assoc)
  also have "\<dots> = y * c * d" using assms(1) by simp
  also have "\<dots> = y" using assms(2) by (simp add: mult.assoc)
  finally show ?thesis .
qed

lemma push_bit_mult: "push_bit k (x :: 'a::len word) = x * 2 ^ k"
  by (simp add: push_bit_eq_mult)

lemma not_eq_minus: "NOT (x :: 'a::len word) = - x - 1"
  by (simp add: not_eq_complement)

lemma and_mask_nat:
  fixes x :: "'a::len word"
  assumes "n \<le> LENGTH('a)"
  shows "unat (x AND (2 ^ n - 1)) = unat x mod 2 ^ n"
proof -
  have "x AND (2 ^ n - 1) = take_bit n x"
    by (simp add: take_bit_eq_mask mask_eq_exp_minus_1)
  then show ?thesis
    by (simp only: unsigned_take_bit_eq) (simp only: take_bit_eq_mod)
qed

section \<open>Big-endian words as bytes\<close>

definition be32_bytes :: "u32 \<Rightarrow> u8 list" where
  "be32_bytes w = [ucast (drop_bit 24 w), ucast (drop_bit 16 w), ucast (drop_bit 8 w), ucast w]"

definition be32 :: "u8 \<Rightarrow> u8 \<Rightarrow> u8 \<Rightarrow> u8 \<Rightarrow> u32" where
  "be32 a b c d = push_bit 24 (ucast a) OR push_bit 16 (ucast b) OR push_bit 8 (ucast c) OR ucast d"

lemma length_be32_bytes [simp]: "length (be32_bytes w) = 4"
  by (simp add: be32_bytes_def)

lemma be32_be32_bytes:
  "be32 (ucast (drop_bit 24 w)) (ucast (drop_bit 16 w)) (ucast (drop_bit 8 w)) (ucast w) = (w :: u32)"
proof (rule bit_word_eqI)
  fix n assume "n < LENGTH(32)"
  then consider "n < 8" | "8 \<le> n" "n < 16" | "16 \<le> n" "n < 24" | "24 \<le> n" "n < 32"
    by fastforce
  then show "bit (be32 (ucast (drop_bit 24 w)) (ucast (drop_bit 16 w))
      (ucast (drop_bit 8 w)) (ucast w)) n = bit w n"
    by cases (auto simp add: be32_def bit_simps less_diff_conv2)
qed

lemma be32_bytes_be32 [simp]: "be32_bytes (be32 a b c d) = [a, b, c, d]"
proof -
  have "ucast (drop_bit 24 (be32 a b c d)) = a"
    by (rule bit_word_eqI) (auto simp: be32_def bit_simps dest: bit_imp_le_length)
  moreover have "ucast (drop_bit 16 (be32 a b c d)) = b"
    by (rule bit_word_eqI) (auto simp: be32_def bit_simps dest: bit_imp_le_length)
  moreover have "ucast (drop_bit 8 (be32 a b c d)) = c"
    by (rule bit_word_eqI) (auto simp: be32_def bit_simps dest: bit_imp_le_length)
  moreover have "ucast (be32 a b c d) = d"
    by (rule bit_word_eqI) (auto simp: be32_def bit_simps dest: bit_imp_le_length)
  ultimately show ?thesis by (simp add: be32_bytes_def)
qed

lemma be32_eq_iff [simp]:
  "be32 a b c d = be32 a' b' c' d' \<longleftrightarrow> a = a' \<and> b = b' \<and> c = c' \<and> d = d'"
proof
  assume "be32 a b c d = be32 a' b' c' d'"
  then have "be32_bytes (be32 a b c d) = be32_bytes (be32 a' b' c' d')" by (rule arg_cong)
  then show "a = a' \<and> b = b' \<and> c = c' \<and> d = d'" by (simp only: be32_bytes_be32 list.inject)
qed auto

text \<open>Reading four bytes of memory at a byte offset, as \<open>ntohl\<close> of the word there.\<close>

definition read_be32 :: "u8 list \<Rightarrow> nat \<Rightarrow> u32 option" where
  "read_be32 mem i =
     (if i + 4 \<le> length mem
      then Some (be32 (mem ! i) (mem ! (i + 1)) (mem ! (i + 2)) (mem ! (i + 3))) else None)"

text \<open>A 32-bit word as four bytes of a little-endian host, and back.\<close>

definition le32 :: "u8 list \<Rightarrow> nat \<Rightarrow> u32 option" where
  "le32 mem i =
     (if i + 4 \<le> length mem
      then Some (be32 (mem ! (i + 3)) (mem ! (i + 2)) (mem ! (i + 1)) (mem ! i)) else None)"

definition le32_bytes :: "u32 \<Rightarrow> u8 list" where
  "le32_bytes w = rev (be32_bytes w)"

text \<open>Overwriting a run of bytes; undefined when it does not fit.\<close>

definition blit :: "u8 list \<Rightarrow> nat \<Rightarrow> u8 list \<Rightarrow> u8 list option" where
  "blit mem i bs =
     (if i + length bs \<le> length mem
      then Some (take i mem @ bs @ drop (i + length bs) mem) else None)"

lemma length_blit: "blit mem i bs = Some mem' \<Longrightarrow> length mem' = length mem"
  by (auto simp: blit_def split: if_splits)

lemma blit_nth:
  assumes "blit mem i bs = Some mem'" and "j < length mem"
  shows "mem' ! j = (if i \<le> j \<and> j < i + length bs then bs ! (j - i) else mem ! j)"
  using assms by (auto simp: blit_def nth_append split: if_splits)

lemma read_be32_append:
  "read_be32 (pre @ be32_bytes w @ post) (length pre) = Some w"
  by (simp add: read_be32_def be32_bytes_def nth_append be32_be32_bytes)

end
