(* ===== verification/SC_Float.thy ===== *)
theory SC_Float
  imports SC_Prelude
begin

text \<open>
  The conversions between \<open>int\<close>, \<open>float\<close> and \<open>double\<close> that reading an OSC argument performs. A
  \<open>float\<close> is its IEEE 754 binary32 bits, a \<open>double\<close> its binary64 bits; a conversion that is not
  exact rounds to the nearest value, ties to even. A NaN stays a NaN (made quiet, its sign and the
  upper bits of its payload kept). Converting a value outside the range of \<open>int\<close> to \<open>int\<close> is
  undefined: \<open>None\<close>.
\<close>

section \<open>Encoding and decoding\<close>

fun bitlen :: "nat \<Rightarrow> nat" where
  "bitlen n = (if n = 0 then 0 else Suc (bitlen (n div 2)))"

declare bitlen.simps [simp del]

text \<open>\<open>m / 2 ^ k\<close> rounded to nearest, ties to even.\<close>

definition round_shift :: "nat \<Rightarrow> nat \<Rightarrow> nat" where
  "round_shift m k =
     (let q = m div 2 ^ k; r = m mod 2 ^ k
      in if 2 * r > 2 ^ k \<or> (2 * r = 2 ^ k \<and> odd q) then q + 1 else q)"

text \<open>
  The magnitude bits of \<open>m * 2 ^ e\<close> in a format with \<open>p\<close> fraction bits and least exponent \<open>lo\<close>
  (that of the last bit of a subnormal): the exponent field and the fraction, as one number; \<open>infb\<close>
  is the number that stands for infinity.
\<close>

definition encode_mag :: "nat \<Rightarrow> int \<Rightarrow> nat \<Rightarrow> nat \<Rightarrow> int \<Rightarrow> nat" where
  "encode_mag p lo infb m e =
     (if m = 0 then 0
      else let l = max (int (bitlen m) + e - int (p + 1)) lo;
               s = l - e;
               sig = (if 0 \<le> s then round_shift m (nat s) else m * 2 ^ nat (- s))
           in min (nat (l - lo) * 2 ^ p + sig) infb)"

datatype fval = NaN_of nat | Inf | Fin nat int

text \<open>The magnitude a bit pattern without its sign bit stands for: \<open>Fin m e\<close> is \<open>m * 2 ^ e\<close>.\<close>

definition decode_mag :: "nat \<Rightarrow> int \<Rightarrow> nat \<Rightarrow> nat \<Rightarrow> fval" where
  "decode_mag p lo infb b =
     (if b > infb then NaN_of (b - infb) else if b = infb then Inf
      else let x = b div 2 ^ p; fr = b mod 2 ^ p
           in if x = 0 then Fin fr lo else Fin (fr + 2 ^ p) (lo + int x - 1))"

definition f32_sign :: "f32 \<Rightarrow> bool" where "f32_sign f = bit f 31"
definition f32_mag :: "f32 \<Rightarrow> fval" where
  "f32_mag f = decode_mag 23 (-149) (255 * 2 ^ 23) (unat f mod 2 ^ 31)"
definition f32_make :: "bool \<Rightarrow> nat \<Rightarrow> f32" where
  "f32_make s b = of_nat ((if s then 2 ^ 31 else 0) + b)"
definition f32_encode :: "nat \<Rightarrow> int \<Rightarrow> nat" where
  "f32_encode m e = encode_mag 23 (-149) (255 * 2 ^ 23) m e"

definition f64_sign :: "f64 \<Rightarrow> bool" where "f64_sign f = bit f 63"
definition f64_mag :: "f64 \<Rightarrow> fval" where
  "f64_mag f = decode_mag 52 (-1074) (2047 * 2 ^ 52) (unat f mod 2 ^ 63)"
definition f64_make :: "bool \<Rightarrow> nat \<Rightarrow> f64" where
  "f64_make s b = of_nat ((if s then 2 ^ 63 else 0) + b)"
definition f64_encode :: "nat \<Rightarrow> int \<Rightarrow> nat" where
  "f64_encode m e = encode_mag 52 (-1074) (2047 * 2 ^ 52) m e"

section \<open>The conversions\<close>

definition f32_of_int :: "i32 \<Rightarrow> f32" where
  "f32_of_int i = f32_make (sint i < 0) (f32_encode (nat \<bar>sint i\<bar>) 0)"

definition f64_of_int :: "i32 \<Rightarrow> f64" where
  "f64_of_int i = f64_make (sint i < 0) (f64_encode (nat \<bar>sint i\<bar>) 0)"

definition f32_of_f64 :: "f64 \<Rightarrow> f32" where
  "f32_of_f64 d = f32_make (f64_sign d)
     (case f64_mag d of
        NaN_of p \<Rightarrow> 255 * 2 ^ 23 + 2 ^ 22 + p mod 2 ^ 51 div 2 ^ 29
      | Inf \<Rightarrow> 255 * 2 ^ 23
      | Fin m e \<Rightarrow> f32_encode m e)"

definition f64_of_f32 :: "f32 \<Rightarrow> f64" where
  "f64_of_f32 f = f64_make (f32_sign f)
     (case f32_mag f of
        NaN_of p \<Rightarrow> 2047 * 2 ^ 52 + 2 ^ 51 + p mod 2 ^ 22 * 2 ^ 29
      | Inf \<Rightarrow> 2047 * 2 ^ 52
      | Fin m e \<Rightarrow> f64_encode m e)"

text \<open>Truncation towards zero.\<close>

definition int_of_f32 :: "f32 \<Rightarrow> i32 option" where
  "int_of_f32 f =
     (case f32_mag f of
        Fin m e \<Rightarrow>
          (let n = (if 0 \<le> e then m * 2 ^ nat e else m div 2 ^ nat (- e));
               i = (if f32_sign f then - int n else int n)
           in if - (2 ^ 31) \<le> i \<and> i < 2 ^ 31 then Some (word_of_int i) else None)
      | _ \<Rightarrow> None)"

end
