(* ===== verification/SC_Hash.thy ===== *)
theory SC_Hash
  imports SC_Prelude
begin

text \<open>
  \<open>include/plugin_interface/Hash.h\<close>: the hash functions for characters, integers and
  4-byte-padded strings; \<open>include/server/SC_Str4.h\<close> and \<open>server/scsynth/SC_Str4.cpp\<close>: the
  padded strings (an array of \<open>int32\<close> whose last word has a zero last byte).

  A C string is the memory from its first character on, as a list of bytes; running off the
  end of that memory before the terminating zero is \<open>None\<close>. An \<open>int32*\<close> string is the
  memory from its first word on, as a list of words.
\<close>

section \<open>One-at-a-time hashing of characters\<close>

text \<open>The body of the loops, and the final mixing. \<open>char\<close> is signed, so it is sign-extended.\<close>

definition hash_char_step :: "i32 \<Rightarrow> u8 \<Rightarrow> i32" where
  "hash_char_step hash c =
     (let hash = hash + scast c;
          hash = hash + push_bit 10 hash;
          hash = hash XOR signed_drop_bit 6 hash
      in hash)"

definition hash_char_final :: "i32 \<Rightarrow> i32" where
  "hash_char_final hash =
     (let hash = hash + push_bit 3 hash;
          hash = hash XOR signed_drop_bit 11 hash;
          hash = hash + push_bit 15 hash
      in hash)"

fun hash_cstr_loop :: "i32 \<Rightarrow> u8 list \<Rightarrow> i32 option" where
  "hash_cstr_loop hash [] = None"
| "hash_cstr_loop hash (c # cs) =
     (if c = 0 then Some hash else hash_cstr_loop (hash_char_step hash c) cs)"

definition Hash_cstr :: "u8 list \<Rightarrow> i32 option" where
  "Hash_cstr inKey = do { hash \<leftarrow> hash_cstr_loop 0 inKey; Some (hash_char_final hash) }"

fun hash_cstr_len_loop :: "i32 \<Rightarrow> nat \<Rightarrow> u8 list \<Rightarrow> (i32 \<times> nat) option" where
  "hash_cstr_len_loop hash pos [] = None"
| "hash_cstr_len_loop hash pos (c # cs) =
     (if c = 0 then Some (hash, pos)
      else hash_cstr_len_loop (hash_char_step hash c) (Suc pos) cs)"

definition Hash_cstr_len :: "u8 list \<Rightarrow> (i32 \<times> nat) option" where
  "Hash_cstr_len inKey = do {
     (hash, outLength) \<leftarrow> hash_cstr_len_loop 0 0 inKey;
     Some (hash_char_final hash, outLength) }"

fun hash_chars_loop :: "nat \<Rightarrow> i32 \<Rightarrow> u8 list \<Rightarrow> i32 option" where
  "hash_chars_loop 0 hash cs = Some hash"
| "hash_chars_loop (Suc n) hash [] = None"
| "hash_chars_loop (Suc n) hash (c # cs) = hash_chars_loop n (hash_char_step hash c) cs"

definition Hash_chars :: "u8 list \<Rightarrow> nat \<Rightarrow> i32 option" where
  "Hash_chars inKey inLength = do {
     hash \<leftarrow> hash_chars_loop inLength 0 inKey; Some (hash_char_final hash) }"

section \<open>Integer hashing\<close>

definition Hash_int :: "i32 \<Rightarrow> i32" where
  "Hash_int inKey =
     (let hash = inKey;
          hash = hash + NOT (push_bit 15 hash);
          hash = hash XOR drop_bit 10 hash;
          hash = hash + push_bit 3 hash;
          hash = hash XOR drop_bit 6 hash;
          hash = hash + NOT (push_bit 11 hash);
          hash = hash XOR drop_bit 16 hash
      in hash)"

definition Hash64 :: "u64 \<Rightarrow> u64" where
  "Hash64 inKey =
     (let hash = inKey;
          hash = hash + NOT (push_bit 32 hash);
          hash = hash XOR drop_bit 22 hash;
          hash = hash + NOT (push_bit 13 hash);
          hash = hash XOR drop_bit 8 hash;
          hash = hash + push_bit 3 hash;
          hash = hash XOR drop_bit 15 hash;
          hash = hash + NOT (push_bit 27 hash);
          hash = hash XOR drop_bit 31 hash
      in hash)"

fun hash_words_loop :: "nat \<Rightarrow> i32 \<Rightarrow> i32 list \<Rightarrow> i32 option" where
  "hash_words_loop 0 hash ws = Some hash"
| "hash_words_loop (Suc n) hash [] = None"
| "hash_words_loop (Suc n) hash (w # ws) = hash_words_loop n (Hash_int (hash + w)) ws"

definition Hash_words :: "i32 list \<Rightarrow> nat \<Rightarrow> i32 option" where
  "Hash_words inKey inLength = hash_words_loop inLength 0 inKey"

definition kLASTCHAR :: i32 where
  "kLASTCHAR = 0xFF000000"

fun hash_str4_loop :: "i32 \<Rightarrow> i32 list \<Rightarrow> i32 option" where
  "hash_str4_loop hash [] = None"
| "hash_str4_loop hash (c # cs) =
     (let hash = Hash_int (hash + c)
      in if c AND kLASTCHAR \<noteq> 0 then hash_str4_loop hash cs else Some hash)"

definition Hash_str4 :: "i32 list \<Rightarrow> i32 option" where
  "Hash_str4 inKey = hash_str4_loop 0 inKey"

section \<open>Padded strings\<close>

definition str4padbytes :: "nat \<Rightarrow> nat" where
  "str4padbytes charlen = 4 - charlen mod 4"

definition str4len_chars :: "nat \<Rightarrow> nat" where
  "str4len_chars charlen = (charlen + 4) div 4"

fun cstrlen :: "u8 list \<Rightarrow> nat option" where
  "cstrlen [] = None"
| "cstrlen (c # cs) = (if c = 0 then Some 0 else map_option Suc (cstrlen cs))"

definition str4len_cstr :: "u8 list \<Rightarrow> nat option" where
  "str4len_cstr src = do { n \<leftarrow> cstrlen src; Some (str4len_chars n) }"

fun str4len :: "i32 list \<Rightarrow> nat option" where
  "str4len [] = None"
| "str4len (c # cs) = (if c AND kLASTCHAR \<noteq> 0 then map_option Suc (str4len cs) else Some 1)"

fun str4eq :: "i32 list \<Rightarrow> i32 list \<Rightarrow> bool option" where
  "str4eq (x # xs) (y # ys) =
     (if x \<noteq> y then Some False
      else if x AND kLASTCHAR = 0 then Some True
      else str4eq xs ys)"
| "str4eq _ _ = None"

text \<open>\<open>str4cpy\<close> returns the words it stored at the destination.\<close>

fun str4cpy :: "i32 list \<Rightarrow> i32 list option" where
  "str4cpy [] = None"
| "str4cpy (c # cs) =
     (if c AND kLASTCHAR \<noteq> 0 then map_option ((#) c) (str4cpy cs) else Some [c])"

text \<open>The bytes \<open>str4cpy(int32*, const char*)\<close> stores: the characters, then the padding.\<close>

fun cstr_chars :: "u8 list \<Rightarrow> u8 list option" where
  "cstr_chars [] = None"
| "cstr_chars (c # cs) = (if c = 0 then Some [] else map_option ((#) c) (cstr_chars cs))"

definition str4cpy_bytes :: "u8 list \<Rightarrow> u8 list option" where
  "str4cpy_bytes src = do {
     cs \<leftarrow> cstr_chars src;
     let charlen = length cs;
     let pad = 4 - charlen mod 4;
     Some (cs @ replicate pad 0) }"

text \<open>The words of a run of bytes, as the little-endian host reads them.\<close>

fun le_words :: "u8 list \<Rightarrow> i32 list" where
  "le_words (a # b # c # d # bs) = be32 d c b a # le_words bs"
| "le_words _ = []"

text \<open>\<open>sc_atoi\<close>: leading decimal digits; the empty string is -1. The subtraction is unsigned.\<close>

fun sc_atoi_loop :: "i32 \<Rightarrow> u8 list \<Rightarrow> i32 option" where
  "sc_atoi_loop value [] = None"
| "sc_atoi_loop value (ch # cs) =
     (let c = (scast ch :: u32) - 48
      in if c \<le> 9 then sc_atoi_loop (value * 10 + c) cs else Some value)"

definition sc_atoi :: "u8 list \<Rightarrow> i32 option" where
  "sc_atoi string = (case string of
     [] \<Rightarrow> None
   | c # _ \<Rightarrow> if c = 0 then Some (- 1) else sc_atoi_loop 0 string)"

section \<open>Properties\<close>

subsection \<open>The integer hashes lose no information\<close>

lemma mult_add_shift:
  fixes h :: "'a::len word"
  shows "h + push_bit k h = h * (1 + 2 ^ k)" and "h + NOT (push_bit k h) = h * (1 - 2 ^ k) - 1"
  by (simp_all add: push_bit_mult not_eq_minus algebra_simps)

lemma inj_xorshift: "0 < k \<Longrightarrow> inj (\<lambda>h :: 'a::len word. h XOR drop_bit k h)"
  by (rule injI) (rule xorshift_right_inj)

lemma inj_add_shift:
  assumes "(1 + 2 ^ k) * d = (1 :: 'a::len word)"
  shows "inj (\<lambda>h :: 'a word. h + push_bit k h)"
  by (rule injI) (simp add: mult_add_shift mult_unit_inj [OF _ assms])

lemma inj_add_not_shift:
  assumes "(1 - 2 ^ k) * d = (1 :: 'a::len word)"
  shows "inj (\<lambda>h :: 'a word. h + NOT (push_bit k h))"
  by (rule injI) (simp add: mult_add_shift mult_unit_inj [OF _ assms])

lemma inj_Hash_int: "inj Hash_int"
proof -
  have eq: "Hash_int = (\<lambda>h. h XOR drop_bit 16 h) \<circ> (\<lambda>h. h + NOT (push_bit 11 h))
      \<circ> (\<lambda>h. h XOR drop_bit 6 h) \<circ> (\<lambda>h. h + push_bit 3 h)
      \<circ> (\<lambda>h. h XOR drop_bit 10 h) \<circ> (\<lambda>h. h + NOT (push_bit 15 h))"
    by (simp only: fun_eq_iff Hash_int_def Let_def comp_apply simp_thms)
  have f1: "inj (\<lambda>h :: 32 word. h + NOT (push_bit 11 h))"
    by (rule inj_add_not_shift [of _ 4196353]) simp
  have f2: "inj (\<lambda>h :: 32 word. h + NOT (push_bit 15 h))"
    by (rule inj_add_not_shift [of _ 1073774593]) simp
  have f3: "inj (\<lambda>h :: 32 word. h + push_bit 3 h)"
    by (rule inj_add_shift [of _ 954437177]) simp
  show ?thesis
    unfolding eq by (intro inj_compose inj_xorshift f1 f2 f3) simp_all
qed

lemma inj_Hash64: "inj Hash64"
proof -
  have eq: "Hash64 = (\<lambda>h. h XOR drop_bit 31 h) \<circ> (\<lambda>h. h + NOT (push_bit 27 h))
      \<circ> (\<lambda>h. h XOR drop_bit 15 h) \<circ> (\<lambda>h. h + push_bit 3 h)
      \<circ> (\<lambda>h. h XOR drop_bit 8 h) \<circ> (\<lambda>h. h + NOT (push_bit 13 h))
      \<circ> (\<lambda>h. h XOR drop_bit 22 h) \<circ> (\<lambda>h. h + NOT (push_bit 32 h))"
    by (simp only: fun_eq_iff Hash64_def Let_def comp_apply simp_thms)
  have f1: "inj (\<lambda>h :: 64 word. h + NOT (push_bit 27 h))"
    by (rule inj_add_not_shift [of _ 18014398643699713]) simp
  have f2: "inj (\<lambda>h :: 64 word. h + NOT (push_bit 13 h))"
    by (rule inj_add_not_shift [of _ 4504149450301441]) simp
  have f3: "inj (\<lambda>h :: 64 word. h + NOT (push_bit 32 h))"
    by (rule inj_add_not_shift [of _ 4294967297]) simp
  have f4: "inj (\<lambda>h :: 64 word. h + push_bit 3 h)"
    by (rule inj_add_shift [of _ 10248191152060862009]) simp
  show ?thesis
    unfolding eq by (intro inj_compose inj_xorshift f1 f2 f3 f4) simp_all
qed

lemma Hash_int_inject [simp]: "Hash_int x = Hash_int y \<longleftrightarrow> x = y"
  using inj_Hash_int by (auto dest: injD)

subsection \<open>C strings\<close>

lemma hash_cstr_loop_terminated:
  "0 \<notin> set cs \<Longrightarrow> hash_cstr_loop h (cs @ 0 # rest) = Some (foldl hash_char_step h cs)"
  by (induction cs arbitrary: h) auto

lemma hash_cstr_len_loop_terminated:
  "0 \<notin> set cs \<Longrightarrow>
   hash_cstr_len_loop h n (cs @ 0 # rest) = Some (foldl hash_char_step h cs, n + length cs)"
  by (induction cs arbitrary: h n) auto

lemma hash_chars_loop_prefix:
  "hash_chars_loop (length cs) h (cs @ rest) = Some (foldl hash_char_step h cs)"
  by (induction cs arbitrary: h) auto

lemma cstrlen_terminated: "0 \<notin> set cs \<Longrightarrow> cstrlen (cs @ 0 # rest) = Some (length cs)"
  by (induction cs) auto

lemma cstr_chars_terminated: "0 \<notin> set cs \<Longrightarrow> cstr_chars (cs @ 0 # rest) = Some cs"
  by (induction cs) auto

lemma cstr_chars_SomeD:
  "cstr_chars bs = Some cs \<Longrightarrow> 0 \<notin> set cs \<and> (\<exists>rest. bs = cs @ 0 # rest)"
proof (induction bs arbitrary: cs)
  case (Cons b bs)
  show ?case
  proof (cases "b = 0")
    case True
    with Cons.prems show ?thesis by simp
  next
    case False
    with Cons.prems obtain ds where "cstr_chars bs = Some ds" and "cs = b # ds" by auto
    with Cons.IH [of ds] False show ?thesis by auto
  qed
qed simp

lemma digit_byte:
  assumes "d < 10"
  shows "(scast (of_nat (48 + d) :: u8) :: u32) - 48 = of_nat d" and "(of_nat d :: u32) \<le> 9"
proof -
  have "\<forall>d \<in> {0, 1, 2, 3, 4, 5, 6, 7, 8, 9 :: nat}.
      (scast (of_nat (48 + d) :: u8) :: u32) - 48 = of_nat d \<and> (of_nat d :: u32) \<le> 9"
    by simp
  moreover have "d \<in> {0, 1, 2, 3, 4, 5, 6, 7, 8, 9}" using assms by auto
  ultimately show "(scast (of_nat (48 + d) :: u8) :: u32) - 48 = of_nat d" and "(of_nat d :: u32) \<le> 9"
    by blast+
qed

lemma sc_atoi_loop_digits:
  assumes "\<forall>d \<in> set ds. d < 10" and "\<not> (scast ch :: u32) - 48 \<le> 9"
  shows "sc_atoi_loop v (map (\<lambda>d. of_nat (48 + d)) ds @ ch # rest) =
    Some (foldl (\<lambda>v d. v * 10 + of_nat d) v ds)"
  using assms
proof (induction ds arbitrary: v)
  case Nil
  then show ?case by (simp add: Let_def)
next
  case (Cons d ds)
  then have "d < 10" by simp
  note digit_byte [OF this]
  with Cons show ?case by (simp add: Let_def del: of_nat_add)
qed

lemma foldl_digits_of_nat:
  "foldl (\<lambda>v d. v * 10 + of_nat d) (of_nat n) ds =
   (of_nat (foldl (\<lambda>v d. v * 10 + d) n ds) :: 'a::len word)"
proof (induction ds arbitrary: n)
  case (Cons d ds)
  have "of_nat n * 10 + of_nat d = (of_nat (n * 10 + d) :: 'a word)" by simp
  then show ?case using Cons.IH [of "n * 10 + d"] by (simp only: foldl.simps)
qed simp

subsection \<open>Padded strings\<close>

lemma kLASTCHAR_mask: "kLASTCHAR = push_bit 24 (mask 8)"
  by (simp add: kLASTCHAR_def mask_eq_exp_minus_1 push_bit_eq_mult)

lemma bit_kLASTCHAR: "bit kLASTCHAR n \<longleftrightarrow> 24 \<le> n \<and> n < 32"
  unfolding kLASTCHAR_mask
  by (simp only: bit_push_bit_iff bit_mask_iff possible_bit_word) auto

lemma be32_and_kLASTCHAR: "be32 a b c d AND kLASTCHAR = be32 a 0 0 0"
proof (rule bit_word_eqI)
  fix n assume "n < LENGTH(32)"
  then consider "n < 24" | "24 \<le> n" "n < 32" by fastforce
  then show "bit (be32 a b c d AND kLASTCHAR) n = bit (be32 a 0 0 0) n"
    by cases (auto simp: be32_def bit_kLASTCHAR bit_simps less_diff_conv2 dest: bit_imp_le_length)
qed

lemma be32_zero: "be32 0 0 0 0 = 0"
  by (simp add: be32_def)

lemma be32_last_zero [simp]: "(be32 a b c d AND kLASTCHAR = 0) \<longleftrightarrow> a = 0"
  by (simp add: be32_and_kLASTCHAR flip: be32_zero)

fun pad_words :: "u8 list \<Rightarrow> i32 list" where
  "pad_words (a # b # c # d # bs) = be32 d c b a # pad_words bs"
| "pad_words [a, b, c] = [be32 0 c b a]"
| "pad_words [a, b] = [be32 0 0 b a]"
| "pad_words [a] = [be32 0 0 0 a]"
| "pad_words [] = [be32 0 0 0 0]"

lemma replicate_small:
  "replicate 4 x = [x, x, x, x]" "replicate 3 x = [x, x, x]" "replicate 2 x = [x, x]"
  by (simp_all add: numeral_nat)

lemma mod4_Suc: "Suc (Suc (Suc (Suc n))) mod 4 = n mod 4"
  by presburger

lemma le_words_padded:
  "le_words (cs @ replicate (4 - length cs mod 4) 0) = pad_words cs"
  by (induction cs rule: pad_words.induct) (simp_all add: replicate_small mod4_Suc)

lemma str4cpy_bytes_eq_Some:
  "str4cpy_bytes src = Some bs \<longleftrightarrow>
   (\<exists>cs. cstr_chars src = Some cs \<and> bs = cs @ replicate (4 - length cs mod 4) 0)"
  by (auto simp: str4cpy_bytes_def Let_def bind_Some_iff)

lemma str4eq_pad_words:
  "0 \<notin> set xs \<Longrightarrow> 0 \<notin> set ys \<Longrightarrow> str4eq (pad_words xs) (pad_words ys) = Some (xs = ys)"
proof (induction xs arbitrary: ys rule: pad_words.induct)
  case (1 a b c d bs)
  then show ?case by (cases ys rule: pad_words.cases) auto
next
  case (2 a b c)
  then show ?case by (cases ys rule: pad_words.cases) auto
next
  case (3 a b)
  then show ?case by (cases ys rule: pad_words.cases) auto
next
  case (4 a)
  then show ?case by (cases ys rule: pad_words.cases) auto
next
  case 5
  then show ?case by (cases ys rule: pad_words.cases) auto
qed

lemma str4cpy_pad_words: "0 \<notin> set xs \<Longrightarrow> str4cpy (pad_words xs @ ws) = Some (pad_words xs)"
  by (induction xs rule: pad_words.induct) auto

lemma str4len_pad_words: "0 \<notin> set xs \<Longrightarrow> str4len (pad_words xs @ ws) = Some (str4len_chars (length xs))"
  by (induction xs rule: pad_words.induct) (auto simp: str4len_chars_def)

text \<open>
  Comparing two C strings after packing both into 4-byte-padded form compares the strings
  themselves, and packing then copying word by word keeps the packed form, whose length in words
  is the one \<open>str4len(int)\<close> computes from the length in characters.
\<close>

theorem str4_packing_faithful:
  assumes "str4cpy_bytes a = Some pa" and "str4cpy_bytes b = Some pb"
  shows "str4eq (le_words pa) (le_words pb) = Some (cstr_chars a = cstr_chars b)
    \<and> str4cpy (le_words pa) = Some (le_words pa)
    \<and> str4len (le_words pa) = str4len_cstr a \<and> length pa = 4 * length (le_words pa)"
proof -
  obtain ca cb where c: "cstr_chars a = Some ca" "cstr_chars b = Some cb"
    and pa: "le_words pa = pad_words ca" and pb: "le_words pb = pad_words cb"
    and la: "pa = ca @ replicate (4 - length ca mod 4) 0"
    using assms by (auto simp: str4cpy_bytes_eq_Some le_words_padded)
  have nz: "0 \<notin> set ca" "0 \<notin> set cb"
    using cstr_chars_SomeD [OF c(1)] cstr_chars_SomeD [OF c(2)] by auto
  obtain rest where "a = ca @ 0 # rest" using cstr_chars_SomeD [OF c(1)] by auto
  then have "cstrlen a = Some (length ca)" using nz cstrlen_terminated by blast
  then have "str4len (pad_words ca) = str4len_cstr a"
    using str4len_pad_words [OF nz(1), of "[]"] by (simp add: str4len_cstr_def)
  moreover have "str4cpy (pad_words ca) = Some (pad_words ca)"
    using str4cpy_pad_words [OF nz(1), of "[]"] by simp
  moreover have "length pa = 4 * length (pad_words ca)"
    unfolding la by (induction ca rule: pad_words.induct) auto
  ultimately show ?thesis
    using c nz by (simp add: pa pb str4eq_pad_words)
qed

theorem str4_packing_faithful_witness:
  "str4cpy_bytes [102, 114, 101, 113, 0] = Some [102, 114, 101, 113, 0, 0, 0, 0]
   \<and> str4eq (le_words [102, 114, 101, 113, 0, 0, 0, 0]) (le_words [102, 114, 101, 113, 0, 0, 0, 0])
     = Some True"
proof -
  have h: "str4cpy_bytes [102, 114, 101, 113, 0] = Some [102, 114, 101, 113, 0, 0, 0, 0]"
    by (simp add: str4cpy_bytes_def mod4_Suc replicate_small)
  show ?thesis
    using h str4_packing_faithful [OF h h] by simp
qed

text \<open>
  The integer hashes are injective: two node IDs never share a hash.
\<close>

theorem integer_hashes_injective: "inj Hash_int \<and> inj Hash64"
  using inj_Hash_int inj_Hash64 by blast

text \<open>
  The three character hashes agree on the characters before the terminating zero, and the
  second one returns their number.
\<close>

theorem character_hashes_agree:
  assumes "0 \<notin> set cs"
  shows "Hash_cstr (cs @ 0 # rest) = Hash_chars (cs @ rest') (length cs)
    \<and> Hash_cstr_len (cs @ 0 # rest) = map_option (\<lambda>h. (h, length cs)) (Hash_chars cs (length cs))"
  using hash_chars_loop_prefix [of cs 0 "[]"] hash_chars_loop_prefix [of cs 0 rest']
    hash_cstr_loop_terminated [OF assms, of 0 rest]
    hash_cstr_len_loop_terminated [OF assms, of 0 0 rest]
  unfolding Hash_cstr_def Hash_cstr_len_def Hash_chars_def append_Nil2
  by (simp only: bind.bind_lunit option.map prod.case add_0)

theorem character_hashes_agree_witness:
  "Hash_cstr ([97] @ 0 # [1]) = Hash_chars ([97] @ [2]) (length [97])"
  using character_hashes_agree [of "[97]" "[1]" "[2]"] by simp

text \<open>
  \<open>sc_atoi\<close> on a non-empty run of decimal digits that a non-digit ends is the number they
  spell (modulo the width of \<open>int\<close>).
\<close>

theorem sc_atoi_correct:
  assumes "\<forall>d \<in> set ds. d < 10" and "ds \<noteq> []" and "\<not> (scast ch :: u32) - 48 \<le> 9"
  shows "sc_atoi (map (\<lambda>d. of_nat (48 + d)) ds @ ch # rest) =
    Some (of_nat (foldl (\<lambda>v d. v * 10 + d) 0 ds))"
proof -
  obtain e es where ds: "ds = e # es" using assms(2) by (cases ds) auto
  with assms(1) have e: "e < 10" by simp
  have "(of_nat (48 + e) :: u8) \<noteq> 0"
  proof
    assume "(of_nat (48 + e) :: u8) = 0"
    then have "unat (of_nat (48 + e) :: u8) = 0" by (simp only: unat_0)
    then show False using e by (simp add: unat_of_nat del: of_nat_add)
  qed
  then show ?thesis
    using sc_atoi_loop_digits [OF assms(1,3), of 0 rest] foldl_digits_of_nat [of 0 ds, where 'a = 32]
    by (simp add: sc_atoi_def ds del: of_nat_add sc_atoi_loop.simps)
qed

theorem sc_atoi_correct_witness:
  "sc_atoi ([49, 55] @ 0 # []) = Some 17"
  using sc_atoi_correct [of "[1, 7]" 0 "[]"] by simp

end
