(* ===== verification/SC_MsgIter.thy ===== *)
theory SC_MsgIter
  imports SC_Float SC_Hash
begin

text \<open>
  \<open>include/plugin_interface/sc_msg_iter.h\<close>: reading the arguments of an OSC message.

  The iterator's pointers are offsets into \<open>mdata\<close>, the memory from the start of the arguments to the
  end of the allocation that holds the packet; the message itself is its first \<open>msize\<close> bytes. A read
  outside of the allocation is \<open>None\<close>. \<open>OSCfloat\<close> swaps the four bytes in place before it reads
  them, so reading a float changes \<open>mdata\<close>.
\<close>

section \<open>Reading primitive values\<close>

function OSCstrskip_from :: "u8 list \<Rightarrow> nat \<Rightarrow> nat option" where
  "OSCstrskip_from mem str =
     (if str + 4 \<le> length mem
      then (if mem ! (str + 3) \<noteq> 0 then OSCstrskip_from mem (str + 4) else Some (str + 4))
      else None)"
  by pat_completeness auto
termination by (relation "measure (\<lambda>(mem, str). length mem - str)") auto

declare OSCstrskip_from.simps [simp del]

definition OSCstrskip :: "u8 list \<Rightarrow> nat \<Rightarrow> nat option" where
  "OSCstrskip mem str = OSCstrskip_from mem str"

definition OSCstrlen :: "u8 list \<Rightarrow> nat \<Rightarrow> nat option" where
  "OSCstrlen mem strin = do { p \<leftarrow> OSCstrskip mem strin; Some (p - strin) }"

definition OSCint :: "u8 list \<Rightarrow> nat \<Rightarrow> i32 option" where
  "OSCint mem inData = read_be32 mem inData"

text \<open>\<open>elem->u = ntohl(elem->u)\<close>: the value read is the word in the host's order afterwards.\<close>

definition OSCfloat :: "u8 list \<Rightarrow> nat \<Rightarrow> (f32 \<times> u8 list) option" where
  "OSCfloat mem inData = do {
     u \<leftarrow> read_be32 mem inData;
     mem \<leftarrow> blit mem inData (le32_bytes u);
     Some (u, mem) }"

definition OSCtime :: "u8 list \<Rightarrow> nat \<Rightarrow> 64 word option" where
  "OSCtime mem inData = do {
     hi \<leftarrow> read_be32 mem inData;
     lo \<leftarrow> read_be32 mem (inData + 4);
     Some (push_bit 32 (ucast hi) + ucast lo) }"

definition OSCdouble :: "u8 list \<Rightarrow> nat \<Rightarrow> f64 option" where
  "OSCdouble mem inData = do {
     hi \<leftarrow> read_be32 mem inData;
     lo \<leftarrow> read_be32 mem (inData + 4);
     Some (push_bit 32 (ucast hi) + ucast lo) }"

section \<open>The iterator\<close>

record sc_msg_iter =
  mdata :: "u8 list"
  rdpos :: nat
  msize :: nat
  tags :: "nat option"
  tcount :: nat

definition msg_init :: "nat \<Rightarrow> u8 list \<Rightarrow> sc_msg_iter option" where
  "msg_init inSize inData = do {
     c \<leftarrow> aread inData 0;
     if c = 44 then do {
       p \<leftarrow> OSCstrskip inData 0;
       Some \<lparr>mdata = inData, rdpos = p, msize = inSize, tags = Some 1, tcount = 0\<rparr> }
     else Some \<lparr>mdata = inData, rdpos = 0, msize = inSize, tags = None, tcount = 0\<rparr> }"

definition remain :: "sc_msg_iter \<Rightarrow> int" where
  "remain m = int (msize m) - int (rdpos m)"

definition tag_here :: "sc_msg_iter \<Rightarrow> nat \<Rightarrow> u8 option" where
  "tag_here m t = aread (mdata m) (t + tcount m)"

definition nextTag :: "u8 \<Rightarrow> sc_msg_iter \<Rightarrow> u8 option" where
  "nextTag defaultTag m = (case tags m of Some t \<Rightarrow> tag_here m t | None \<Rightarrow> Some defaultTag)"

text \<open>The tag characters.\<close>

abbreviation tag_i :: u8 where "tag_i \<equiv> 105"
abbreviation tag_f :: u8 where "tag_f \<equiv> 102"
abbreviation tag_d :: u8 where "tag_d \<equiv> 100"
abbreviation tag_s :: u8 where "tag_s \<equiv> 115"
abbreviation tag_b :: u8 where "tag_b \<equiv> 98"

text \<open>
  A blob's length is an \<open>int\<close> converted to \<open>size_t\<close>: a negative one is larger than every size, and
  moving the read position by it is undefined.
\<close>

definition blob_len4 :: "nat \<Rightarrow> nat" where
  "blob_len4 len = (len + 3) div 4 * 4"

definition skipb :: "sc_msg_iter \<Rightarrow> sc_msg_iter option" where
  "skipb m = do {
     len \<leftarrow> OSCint (mdata m) (rdpos m);
     if sint len < 0 then None
     else Some (m\<lparr>rdpos := rdpos m + 4 + blob_len4 (unat len), tcount := tcount m + 1\<rparr>) }"

definition getbsize :: "sc_msg_iter \<Rightarrow> u64 option" where
  "getbsize m =
     (if remain m \<le> 0 then Some 0
      else do {
        isb \<leftarrow> (case tags m of None \<Rightarrow> Some True | Some t \<Rightarrow> do { c \<leftarrow> tag_here m t; Some (c = tag_b) });
        if \<not> isb then Some 0
        else do { n \<leftarrow> OSCint (mdata m) (rdpos m); Some (scast n) } })"

text \<open>The bytes \<open>getb\<close> copies out: \<open>None\<close> inside the pair when it returns without copying.\<close>

definition getb :: "nat \<Rightarrow> sc_msg_iter \<Rightarrow> (u8 list option \<times> sc_msg_iter) option" where
  "getb inSize m = do {
     len \<leftarrow> OSCint (mdata m) (rdpos m);
     if sint len < 0 \<or> inSize < unat len then Some (None, m)
     else if rdpos m + 4 + inSize \<le> length (mdata m)
     then Some (Some (take inSize (drop (rdpos m + 4) (mdata m))),
                m\<lparr>rdpos := rdpos m + 4 + blob_len4 (unat len), tcount := tcount m + 1\<rparr>)
     else None }"

definition skip_str :: "sc_msg_iter \<Rightarrow> sc_msg_iter option" where
  "skip_str m = do { p \<leftarrow> OSCstrskip (mdata m) (rdpos m); Some (m\<lparr>rdpos := p\<rparr>) }"

definition read_int :: "sc_msg_iter \<Rightarrow> (i32 \<times> sc_msg_iter) option" where
  "read_int m = do { v \<leftarrow> OSCint (mdata m) (rdpos m); Some (v, m\<lparr>rdpos := rdpos m + 4\<rparr>) }"

definition read_float :: "sc_msg_iter \<Rightarrow> (f32 \<times> sc_msg_iter) option" where
  "read_float m = do {
     (v, mem) \<leftarrow> OSCfloat (mdata m) (rdpos m);
     Some (v, m\<lparr>mdata := mem, rdpos := rdpos m + 4\<rparr>) }"

definition read_double :: "sc_msg_iter \<Rightarrow> (f64 \<times> sc_msg_iter) option" where
  "read_double m = do { v \<leftarrow> OSCdouble (mdata m) (rdpos m); Some (v, m\<lparr>rdpos := rdpos m + 8\<rparr>) }"

abbreviation count_up :: "'a \<times> sc_msg_iter \<Rightarrow> ('a \<times> sc_msg_iter) option" where
  "count_up vm \<equiv> Some (fst vm, (snd vm)\<lparr>tcount := tcount (snd vm) + 1\<rparr>)"

definition geti :: "i32 \<Rightarrow> sc_msg_iter \<Rightarrow> (i32 \<times> sc_msg_iter) option" where
  "geti defaultValue m =
     (if remain m \<le> 0 then Some (defaultValue, m)
      else do {
        vm \<leftarrow> (case tags m of
          Some t \<Rightarrow> do {
            c \<leftarrow> tag_here m t;
            if c = tag_i then read_int m
            else if c = tag_f then do { (f, m) \<leftarrow> read_float m; v \<leftarrow> int_of_f32 f; Some (v, m) }
            else if c = tag_s then do { m \<leftarrow> skip_str m; Some (defaultValue, m) }
            else if c = tag_b then do { m \<leftarrow> skipb m; Some (defaultValue, m) }
            else Some (defaultValue, m) }
        | None \<Rightarrow> read_int m);
        count_up vm })"

definition getf :: "f32 \<Rightarrow> sc_msg_iter \<Rightarrow> (f32 \<times> sc_msg_iter) option" where
  "getf defaultValue m =
     (if remain m \<le> 0 then Some (defaultValue, m)
      else do {
        vm \<leftarrow> (case tags m of
          Some t \<Rightarrow> do {
            c \<leftarrow> tag_here m t;
            if c = tag_f then read_float m
            else if c = tag_d then do { (d, m) \<leftarrow> read_double m; Some (f32_of_f64 d, m) }
            else if c = tag_i then do { (i, m) \<leftarrow> read_int m; Some (f32_of_int i, m) }
            else if c = tag_s then do { m \<leftarrow> skip_str m; Some (defaultValue, m) }
            else if c = tag_b then do { m \<leftarrow> skipb m; Some (defaultValue, m) }
            else Some (defaultValue, m) }
        | None \<Rightarrow> read_float m);
        count_up vm })"

definition getd :: "f64 \<Rightarrow> sc_msg_iter \<Rightarrow> (f64 \<times> sc_msg_iter) option" where
  "getd defaultValue m =
     (if remain m \<le> 0 then Some (defaultValue, m)
      else do {
        vm \<leftarrow> (case tags m of
          Some t \<Rightarrow> do {
            c \<leftarrow> tag_here m t;
            if c = tag_f then do { (f, m) \<leftarrow> read_float m; Some (f64_of_f32 f, m) }
            else if c = tag_d then read_double m
            else if c = tag_i then do { (i, m) \<leftarrow> read_int m; Some (f64_of_int i, m) }
            else if c = tag_s then do { m \<leftarrow> skip_str m; Some (defaultValue, m) }
            else if c = tag_b then do { m \<leftarrow> skipb m; Some (defaultValue, m) }
            else Some (defaultValue, m) }
        | None \<Rightarrow> read_double m);
        count_up vm })"

text \<open>
  A string argument is the offset of its first character; \<open>None\<close> is the null pointer, which the end
  of the message gives whatever the default.
\<close>

definition gets :: "nat option \<Rightarrow> sc_msg_iter \<Rightarrow> (nat option \<times> sc_msg_iter) option" where
  "gets defaultValue m =
     (if remain m \<le> 0 then Some (None, m)
      else do {
        vm \<leftarrow> (case tags m of
          Some t \<Rightarrow> do {
            c \<leftarrow> tag_here m t;
            if c = tag_s then do { m' \<leftarrow> skip_str m; Some (Some (rdpos m), m') }
            else Some (defaultValue, m) }
        | None \<Rightarrow> do { m' \<leftarrow> skip_str m; Some (Some (rdpos m), m') });
        count_up vm })"

definition gets4 :: "nat option \<Rightarrow> sc_msg_iter \<Rightarrow> (nat option \<times> sc_msg_iter) option" where
  "gets4 defaultValue m =
     (if remain m \<le> 0 then Some (None, m)
      else do {
        vm \<leftarrow> (case tags m of
          Some t \<Rightarrow> do {
            c \<leftarrow> tag_here m t;
            if c = tag_s then do { m' \<leftarrow> skip_str m; Some (Some (rdpos m), m') }
            else Some (defaultValue, m) }
        | None \<Rightarrow> do { m' \<leftarrow> skip_str m; Some (Some (rdpos m), m') });
        count_up vm })"

text \<open>The words a \<open>gets4\<close> pointer leads to, in the host's order.\<close>

definition words_at :: "u8 list \<Rightarrow> nat \<Rightarrow> i32 list" where
  "words_at mem pos = le_words (drop pos mem)"

end
