(* ===== verification/SC_Packet.thy ===== *)
theory SC_Packet
  imports SC_MsgIter
begin

text \<open>
  \<open>include/common/scsynthsend.h\<close>: building an OSC packet in a fixed buffer. \<open>buf\<close> is the buffer as
  bytes (\<open>4 * kBufSize\<close> of them), \<open>wrpos\<close> and \<open>msgsizepos\<close> are word indices into it, \<open>tagwrpos\<close> is a
  byte index. Storing outside of the buffer is \<open>None\<close>; the guards that \<open>BUFFEROVERFLOW\<close> turns into a
  silent return are branches that leave the packet unchanged.
\<close>

section \<open>The packet\<close>

record scpacket =
  wrpos :: nat
  msgsizepos :: nat
  tagwrpos :: nat
  inbundle :: nat
  buf :: "u8 list"

definition kBufSize :: "scpacket \<Rightarrow> nat" where
  "kBufSize p = length (buf p) div 4"

definition reset :: "scpacket \<Rightarrow> scpacket" where
  "reset p = p\<lparr>wrpos := 0, inbundle := 0\<rparr>"

text \<open>Storing one word, in network order.\<close>

definition put_word :: "nat \<Rightarrow> u32 \<Rightarrow> scpacket \<Rightarrow> scpacket option" where
  "put_word i w p = do { b \<leftarrow> blit (buf p) (4 * i) (be32_bytes w); Some (p\<lparr>buf := b\<rparr>) }"

definition put_bytes :: "nat \<Rightarrow> u8 list \<Rightarrow> scpacket \<Rightarrow> scpacket option" where
  "put_bytes i bs p = do { b \<leftarrow> blit (buf p) i bs; Some (p\<lparr>buf := b\<rparr>) }"

text \<open>\<open>*wrpos++ = htonl(w)\<close>\<close>

definition push_word :: "u32 \<Rightarrow> scpacket \<Rightarrow> scpacket option" where
  "push_word w p = do { p \<leftarrow> put_word (wrpos p) w p; Some (p\<lparr>wrpos := wrpos p + 1\<rparr>) }"

definition addi :: "i32 \<Rightarrow> scpacket \<Rightarrow> scpacket option" where
  "addi i p = (if kBufSize p \<le> wrpos p then Some p else push_word i p)"

definition addii :: "64 word \<Rightarrow> scpacket \<Rightarrow> scpacket option" where
  "addii ii p = do { p \<leftarrow> addi (ucast (drop_bit 32 ii)) p; addi (ucast ii) p }"

definition addf :: "f32 \<Rightarrow> scpacket \<Rightarrow> scpacket option" where
  "addf f p = (if kBufSize p \<le> wrpos p then Some p else push_word f p)"

text \<open>One word is checked for, two are stored.\<close>

definition addd :: "f64 \<Rightarrow> scpacket \<Rightarrow> scpacket option" where
  "addd f p =
     (if kBufSize p \<le> wrpos p then Some p
      else do { p \<leftarrow> push_word (ucast (drop_bit 32 f)) p; push_word (ucast f) p })"

text \<open>The index \<open>wrpos[k - 1]\<close> lies before the buffer when \<open>wrpos\<close> and \<open>k\<close> are both 0.\<close>

definition clear_word :: "nat \<Rightarrow> scpacket \<Rightarrow> scpacket option" where
  "clear_word k p = (if wrpos p + k = 0 then None else put_word (wrpos p + k - 1) 0 p)"

definition adds_len :: "u8 list \<Rightarrow> nat \<Rightarrow> scpacket \<Rightarrow> scpacket option" where
  "adds_len src len p =
     (let len4 = (len + 4) div 4
      in if kBufSize p < wrpos p + len4 then Some p
         else if length src < len then None
         else do {
           p \<leftarrow> clear_word len4 p;
           p \<leftarrow> put_bytes (4 * wrpos p) (take len src) p;
           Some (p\<lparr>wrpos := wrpos p + len4\<rparr>) })"

definition adds :: "u8 list \<Rightarrow> scpacket \<Rightarrow> scpacket option" where
  "adds src p = do {
     len \<leftarrow> cstrlen src;
     (let len4 = (len + 4) div 4
      in if kBufSize p < wrpos p + len4 then Some p
         else do {
           p \<leftarrow> clear_word len4 p;
           p \<leftarrow> put_bytes (4 * wrpos p) (take len src) p;
           Some (p\<lparr>wrpos := wrpos p + len4\<rparr>) }) }"

definition adds_slpre :: "u8 list \<Rightarrow> scpacket \<Rightarrow> scpacket option" where
  "adds_slpre src p = do {
     len \<leftarrow> cstrlen src;
     (let len4 = (len + 5) div 4
      in if kBufSize p < wrpos p + len4 then Some p
         else do {
           p \<leftarrow> clear_word len4 p;
           p \<leftarrow> put_bytes (4 * wrpos p) [47] p;
           p \<leftarrow> put_bytes (4 * wrpos p + 1) (take len src) p;
           Some (p\<lparr>wrpos := wrpos p + len4\<rparr>) }) }"

text \<open>
  The word that is cleared for the padding is counted from \<open>wrpos\<close> before the length word is
  stored: it is the last but one of the blob, and for an empty blob the word before it.
\<close>

definition addb :: "u8 list \<Rightarrow> nat \<Rightarrow> scpacket \<Rightarrow> scpacket option" where
  "addb src len p =
     (let len4 = (len + 3) div 4
      in if kBufSize p < wrpos p + (len4 + 1) then Some p
         else if length src < len then None
         else do {
           p \<leftarrow> clear_word len4 p;
           p \<leftarrow> push_word (of_nat len) p;
           p \<leftarrow> put_bytes (4 * wrpos p) (take len src) p;
           Some (p\<lparr>wrpos := wrpos p + len4\<rparr>) })"

definition addtag :: "u8 \<Rightarrow> scpacket \<Rightarrow> scpacket option" where
  "addtag c p = do { p \<leftarrow> put_bytes (tagwrpos p) [c] p; Some (p\<lparr>tagwrpos := tagwrpos p + 1\<rparr>) }"

definition skip :: "nat \<Rightarrow> scpacket \<Rightarrow> scpacket" where
  "skip n p = (if kBufSize p < wrpos p + n then p else p\<lparr>wrpos := wrpos p + n\<rparr>)"

definition maketags :: "nat \<Rightarrow> scpacket \<Rightarrow> scpacket option" where
  "maketags n p =
     (let size4 = (n + 4) div 4;
          p = skip size4 (p\<lparr>tagwrpos := 4 * wrpos p\<rparr>)
      in clear_word 0 p)"

definition packet_size :: "scpacket \<Rightarrow> nat" where
  "packet_size p = 4 * wrpos p"

definition packet_data :: "scpacket \<Rightarrow> u8 list" where
  "packet_data p = take (packet_size p) (buf p)"

text \<open>The bytes of the string \<open>#bundle\<close> with its terminating zero.\<close>

definition bundle_chars :: "u8 list" where
  "bundle_chars = [35, 98, 117, 110, 100, 108, 101, 0]"

definition OpenBundle :: "64 word \<Rightarrow> scpacket \<Rightarrow> scpacket option" where
  "OpenBundle time p = do { p \<leftarrow> adds bundle_chars (p\<lparr>inbundle := inbundle p + 1\<rparr>); addii time p }"

definition CloseBundle :: "scpacket \<Rightarrow> scpacket" where
  "CloseBundle p = (if inbundle p \<noteq> 0 then p\<lparr>inbundle := inbundle p - 1\<rparr> else p)"

definition BeginMsg :: "scpacket \<Rightarrow> scpacket option" where
  "BeginMsg p = (if inbundle p \<noteq> 0 then addi 0 (p\<lparr>msgsizepos := wrpos p\<rparr>) else Some p)"

definition EndMsg :: "scpacket \<Rightarrow> scpacket option" where
  "EndMsg p =
     (if inbundle p \<noteq> 0
      then put_word (msgsizepos p) ((of_nat (wrpos p) - of_nat (msgsizepos p) - 1) * 4) p
      else Some p)"

section \<open>A message and its reading\<close>

text \<open>
  How the code that sends a message uses a packet, and how a handler reads it: the tags are reserved
  first, then every argument adds its tag and its value; the reader takes the arguments in order.
\<close>

datatype osc_arg = Arg_i i32 | Arg_f f32 | Arg_d f64 | Arg_s "u8 list"

fun arg_tag :: "osc_arg \<Rightarrow> u8" where
  "arg_tag (Arg_i i) = tag_i"
| "arg_tag (Arg_f f) = tag_f"
| "arg_tag (Arg_d d) = tag_d"
| "arg_tag (Arg_s s) = tag_s"

fun add_value :: "osc_arg \<Rightarrow> scpacket \<Rightarrow> scpacket option" where
  "add_value (Arg_i i) p = addi i p"
| "add_value (Arg_f f) p = addf f p"
| "add_value (Arg_d d) p = addd d p"
| "add_value (Arg_s s) p = adds (s @ [0]) p"

fun add_args :: "osc_arg list \<Rightarrow> scpacket \<Rightarrow> scpacket option" where
  "add_args [] p = Some p"
| "add_args (a # as) p = do { p \<leftarrow> addtag (arg_tag a) p; p \<leftarrow> add_value a p; add_args as p }"

definition build_msg :: "osc_arg list \<Rightarrow> scpacket \<Rightarrow> scpacket option" where
  "build_msg as p = do { p \<leftarrow> maketags (length as + 1) p; p \<leftarrow> addtag 44 p; add_args as p }"

fun read_arg :: "u8 \<Rightarrow> sc_msg_iter \<Rightarrow> (osc_arg \<times> sc_msg_iter) option" where
  "read_arg c m =
     (if c = tag_i then do { (i, m) \<leftarrow> geti 0 m; Some (Arg_i i, m) }
      else if c = tag_f then do { (f, m) \<leftarrow> getf 0 m; Some (Arg_f f, m) }
      else if c = tag_d then do { (d, m) \<leftarrow> getd 0 m; Some (Arg_d d, m) }
      else do { (s, m') \<leftarrow> gets None m; p \<leftarrow> s; cs \<leftarrow> cstr_chars (drop p (mdata m)); Some (Arg_s cs, m') })"

fun read_args :: "u8 list \<Rightarrow> sc_msg_iter \<Rightarrow> (osc_arg list \<times> sc_msg_iter) option" where
  "read_args [] m = Some ([], m)"
| "read_args (c # cs) m = do { (a, m) \<leftarrow> read_arg c m; (as, m) \<leftarrow> read_args cs m; Some (a # as, m) }"

text \<open>The bytes of a value.\<close>

definition pad_str :: "u8 list \<Rightarrow> u8 list" where
  "pad_str s = s @ replicate (4 - length s mod 4) 0"

fun enc_value :: "osc_arg \<Rightarrow> u8 list" where
  "enc_value (Arg_i i) = be32_bytes i"
| "enc_value (Arg_f f) = be32_bytes f"
| "enc_value (Arg_d d) = be32_bytes (ucast (drop_bit 32 d)) @ be32_bytes (ucast d)"
| "enc_value (Arg_s s) = pad_str s"

fun arg_ok :: "osc_arg \<Rightarrow> bool" where
  "arg_ok (Arg_s s) = (0 \<notin> set s)"
| "arg_ok a = True"

lemma length_pad_str: "length (pad_str s) = 4 * ((length s + 4) div 4)"
  unfolding pad_str_def by (simp, presburger)

lemma length_enc_value: "4 dvd length (enc_value a)" "0 < length (enc_value a)"
  by (cases a; simp add: length_pad_str)+

lemma blit_append:
  "length old = length new \<Longrightarrow> i = length pre \<Longrightarrow> blit (pre @ old @ post) i new = Some (pre @ new @ post)"
  by (simp add: blit_def)

lemma put_bytes_at:
  assumes "buf p = pre @ old @ post" "length old = length new" "i = length pre"
  shows "put_bytes i new p = Some (p\<lparr>buf := pre @ new @ post\<rparr>)"
  using assms by (simp add: put_bytes_def blit_append)

lemma put_word_at:
  assumes "buf p = pre @ old @ post" "length old = 4" "4 * i = length pre"
  shows "put_word i w p = Some (p\<lparr>buf := pre @ be32_bytes w @ post\<rparr>)"
  using assms by (simp add: put_word_def blit_append)

lemma push_word_at:
  assumes "buf p = pre @ old @ post" "length old = 4" "4 * wrpos p = length pre"
  shows "push_word w p = Some (p\<lparr>buf := pre @ be32_bytes w @ post, wrpos := wrpos p + 1\<rparr>)"
  using assms by (simp add: push_word_def put_word_at)

lemma add_value_at:
  assumes ok: "arg_ok a" and b: "buf p = pre @ old @ post" "4 * wrpos p = length pre"
    "length old = length (enc_value a)" and al: "4 dvd length (buf p)"
  shows "add_value a p = Some (p\<lparr>buf := pre @ enc_value a @ post,
    wrpos := wrpos p + length (enc_value a) div 4\<rparr>)"
proof -
  have room: "wrpos p + length (enc_value a) div 4 \<le> kBufSize p"
  proof -
    obtain k q where "length (enc_value a) = 4 * k" "length (buf p) = 4 * q"
      using length_enc_value(1) [of a] al by (auto elim!: dvdE)
    moreover have "4 * wrpos p + length (enc_value a) \<le> length (buf p)" using b by simp
    ultimately show ?thesis unfolding kBufSize_def by simp
  qed
  show ?thesis
  proof (cases a)
    case (Arg_i i)
    then show ?thesis using b room by (simp add: addi_def push_word_at)
  next
    case (Arg_f i)
    then show ?thesis using b room by (simp add: addf_def push_word_at)
  next
    case (Arg_d d)
    then obtain o1 o2 where o: "old = o1 @ o2" "length o1 = 4" "length o2 = 4"
      using b(3) by (metis append_take_drop_id enc_value.simps(3) length_append length_be32_bytes length_drop
        length_take min.absorb2 diff_add_inverse le_add1)
    have "push_word (ucast (drop_bit 32 d)) p = Some (p\<lparr>buf := pre @ be32_bytes (ucast (drop_bit 32 d)) @ o2 @ post,
      wrpos := wrpos p + 1\<rparr>)"
      by (rule push_word_at [where old = o1]) (use b o in auto)
    moreover have "push_word (ucast d) (p\<lparr>buf := pre @ be32_bytes (ucast (drop_bit 32 d)) @ o2 @ post,
      wrpos := wrpos p + 1\<rparr>) = Some (p\<lparr>buf := (pre @ be32_bytes (ucast (drop_bit 32 d))) @ be32_bytes (ucast d) @ post,
      wrpos := wrpos p + 1 + 1\<rparr>)"
      by (subst push_word_at [where old = o2 and pre = "pre @ be32_bytes (ucast (drop_bit 32 d))" and post = post]) (use b o in auto)
    ultimately show ?thesis using Arg_d room by (simp add: addd_def)
  next
    case (Arg_s s)
    then have z: "0 \<notin> set s" using ok by simp
    define n where "n = (length s + 4) div 4"
    have n: "0 < n" "length old = 4 * n" using b(3) Arg_s by (simp_all add: n_def length_pad_str)
    have rm: "wrpos p + n \<le> kBufSize p" using room n b(3) Arg_s by simp
    obtain o1 o2 where o: "old = o1 @ o2" "length o1 = 4 * (n - 1)" "length o2 = 4"
    proof
      show "old = take (4 * (n - 1)) old @ drop (4 * (n - 1)) old" by simp
    qed (use n in auto)
    let ?p1 = "p\<lparr>buf := (pre @ o1) @ be32_bytes 0 @ post\<rparr>"
    have c: "clear_word n p = Some ?p1"
      using put_word_at [of p "pre @ o1" o2 post "wrpos p + n - 1" 0] b o n by (simp add: clear_word_def)
    have z4: "be32_bytes 0 = replicate 4 0" by (simp add: be32_bytes_def numeral_nat)
    have l: "4 * (n - 1) \<le> length s" "length s < 4 * n" unfolding n_def by simp presburger
    define T where "T = take (length s) (o1 @ be32_bytes 0)"
    have lT: "length T = length s" using l n o by (simp add: T_def)
    have e: "o1 @ be32_bytes 0 = T @ replicate (4 * n - length s) 0"
    proof -
      have "length s - 4 * (n - 1) + (4 * n - length s) = 4" using l n(1) by linarith
      then have "be32_bytes 0 = replicate (length s - 4 * (n - 1)) 0 @ replicate (4 * n - length s) 0"
        unfolding z4 by (simp add: replicate_add [symmetric])
      then show ?thesis unfolding T_def using l o(2) by simp
    qed
    have "buf ?p1 = pre @ T @ replicate (4 * n - length s) 0 @ post"
      using arg_cong [OF e, of "\<lambda>x. pre @ x @ post"] by simp
    then have "put_bytes (4 * wrpos p) s ?p1 =
      Some (?p1\<lparr>buf := pre @ s @ replicate (4 * n - length s) 0 @ post\<rparr>)"
      by (rule put_bytes_at) (use b lT in simp_all)
    moreover have "4 * n - length s = 4 - length s mod 4" unfolding n_def by presburger
    ultimately have pb: "put_bytes (4 * wrpos p) s ?p1 = Some (p\<lparr>buf := pre @ pad_str s @ post\<rparr>)"
      by (simp add: pad_str_def)
    have "cstrlen (s @ [0]) = Some (length s)" using cstrlen_terminated [OF z, of "[]"] by simp
    then show ?thesis
      using Arg_s c pb rm n b(3) by (simp add: adds_def Let_def flip: n_def)
  qed
qed

abbreviation enc_values :: "osc_arg list \<Rightarrow> u8 list" where
  "enc_values as \<equiv> concat (map enc_value as)"

lemma addtag_at:
  assumes "buf p = pre @ x # post" "tagwrpos p = length pre"
  shows "addtag c p = Some (p\<lparr>buf := pre @ c # post, tagwrpos := tagwrpos p + 1\<rparr>)"
  using put_bytes_at [of p pre "[x]" post "[c]" "tagwrpos p"] assms by (simp add: addtag_def)

section \<open>Tags and values in any order\<close>

text \<open>
  A message is written as a mixture of tags and values; the packet keeps them in two areas, so only
  their order among themselves matters.
\<close>

datatype packet_op = Tag u8 | Val osc_arg

fun write_op :: "packet_op \<Rightarrow> scpacket \<Rightarrow> scpacket option" where
  "write_op (Tag c) p = addtag c p" | "write_op (Val a) p = add_value a p"

fun write_ops :: "packet_op list \<Rightarrow> scpacket \<Rightarrow> scpacket option" where
  "write_ops [] p = Some p" | "write_ops (x # xs) p = do { p \<leftarrow> write_op x p; write_ops xs p }"

fun op_tags :: "packet_op list \<Rightarrow> u8 list" where
  "op_tags [] = []" | "op_tags (Tag c # xs) = c # op_tags xs" | "op_tags (Val a # xs) = op_tags xs"

fun op_vals :: "packet_op list \<Rightarrow> osc_arg list" where
  "op_vals [] = []" | "op_vals (Tag c # xs) = op_vals xs" | "op_vals (Val a # xs) = a # op_vals xs"

lemma write_ops_Nil [simp]: "write_ops [] = Some"
  by (simp add: fun_eq_iff)

lemma write_ops_fun: "write_ops (x # xs) = (\<lambda>p. write_op x p \<bind> write_ops xs)"
  "write_op (Tag c) = addtag c" "write_op (Val a) = add_value a" "add_value (Arg_i i) = addi i" "add_value (Arg_f f) = addf f"
  by (simp_all add: fun_eq_iff)

lemma write_ops_append: "write_ops (xs @ ys) p = write_ops xs p \<bind> write_ops ys"
  by (induction xs arbitrary: p) (auto split: bind_split)

lemma op_append [simp]: "op_tags (xs @ ys) = op_tags xs @ op_tags ys" "op_vals (xs @ ys) = op_vals xs @ op_vals ys"
  by (induction xs rule: op_tags.induct) simp_all

lemma op_concat: "op_tags (concat xss) = concat (List.map op_tags xss)" "op_vals (concat xss) = concat (List.map op_vals xss)"
  by (induction xss) simp_all

lemma write_ops_at:
  "\<forall>a \<in> set (op_vals xs). arg_ok a \<Longrightarrow> buf p = A @ ts @ tz @ D @ R \<Longrightarrow> tagwrpos p = length A + length ts \<Longrightarrow>
   4 * wrpos p = length A + length ts + length tz + length D \<Longrightarrow> length (op_tags xs) \<le> length tz \<Longrightarrow>
   length (enc_values (op_vals xs)) \<le> length R \<Longrightarrow> 4 dvd length (buf p) \<Longrightarrow>
   write_ops xs p = Some (p\<lparr>buf := A @ ts @ op_tags xs @ drop (length (op_tags xs)) tz @ D @ enc_values (op_vals xs)
       @ drop (length (enc_values (op_vals xs))) R,
     tagwrpos := tagwrpos p + length (op_tags xs), wrpos := wrpos p + length (enc_values (op_vals xs)) div 4\<rparr>)"
proof (induction xs arbitrary: p ts tz D R)
  case Nil
  then show ?case by (cases p) simp
next
  case (Cons x xs)
  note b = Cons.prems(2)
  show ?case
  proof (cases x)
    case (Tag c)
    obtain y tz' where tz: "tz = y # tz'" using Cons.prems(5) Tag by (cases tz) auto
    let ?p1 = "p\<lparr>buf := (A @ ts) @ c # (tz' @ D @ R), tagwrpos := tagwrpos p + 1\<rparr>"
    have t: "addtag c p = Some ?p1"
      by (rule addtag_at [where x = y]) (use b tz Cons.prems(3) in simp_all)
    have "write_ops xs ?p1 = Some (?p1\<lparr>buf := A @ (ts @ [c]) @ op_tags xs @ drop (length (op_tags xs)) tz' @ D @ enc_values (op_vals xs)
       @ drop (length (enc_values (op_vals xs))) R,
     tagwrpos := tagwrpos ?p1 + length (op_tags xs), wrpos := wrpos ?p1 + length (enc_values (op_vals xs)) div 4\<rparr>)"
      by (rule Cons.IH) (use Cons.prems b tz Tag in auto)
    then show ?thesis using t tz Tag by simp
  next
    case (Val a)
    define L where "L = length (enc_value a)"
    obtain q where q: "L = 4 * q" using length_enc_value(1) [of a] by (auto simp: L_def elim!: dvdE)
    have LR: "L \<le> length R" using Cons.prems(6) Val by (simp add: L_def)
    define R' where "R' = drop L R"
    have R: "R = take L R @ R'" "length (take L R) = L" using LR by (simp_all add: R'_def)
    let ?p1 = "p\<lparr>buf := (A @ ts @ tz @ D) @ enc_value a @ R', wrpos := wrpos p + L div 4\<rparr>"
    have "buf p = (A @ ts @ tz @ D) @ take L R @ R'" using b R(1) by simp
    then have v: "add_value a p = Some ?p1" unfolding L_def
      by (rule add_value_at [rotated]) (use Cons.prems(1,4,7) R(2) Val in \<open>auto simp: L_def\<close>)
    have "write_ops xs ?p1 = Some (?p1\<lparr>buf := A @ ts @ op_tags xs @ drop (length (op_tags xs)) tz @ (D @ enc_value a) @ enc_values (op_vals xs)
       @ drop (length (enc_values (op_vals xs))) R',
     tagwrpos := tagwrpos ?p1 + length (op_tags xs), wrpos := wrpos ?p1 + length (enc_values (op_vals xs)) div 4\<rparr>)"
      by (rule Cons.IH) (use Cons.prems b R q Val in \<open>auto simp: L_def R'_def\<close>)
    then show ?thesis using v q Val by (simp add: R'_def L_def add.commute)
  qed
qed

lemma add_args_ops: "add_args as p = write_ops (concat (List.map (\<lambda>a. [Tag (arg_tag a), Val a]) as)) p"
  by (induction as arbitrary: p) (auto split: bind_split)

lemma nonzero_arg_tag: "arg_tag a \<noteq> 0"
  by (cases a) simp_all

lemma maketags_room:
  "k = (m + 4) div 4 \<Longrightarrow> wrpos p + k \<le> kBufSize p \<Longrightarrow>
   maketags m p = clear_word 0 (p\<lparr>tagwrpos := 4 * wrpos p, wrpos := wrpos p + k\<rparr>)"
  by (simp add: maketags_def Let_def SC_Packet.skip_def kBufSize_def)

lemma build_ops_at:
  assumes ok: "\<forall>a \<in> set as. arg_ok a" and xs: "op_tags xs = map arg_tag as" "op_vals xs = as" and al: "4 dvd length (buf p)"
    and room: "4 * wrpos p + length (pad_str (44 # map arg_tag as)) + length (enc_values as) \<le> length (buf p)"
  obtains p' where "do { p \<leftarrow> maketags (length as + 1) p; p \<leftarrow> addtag 44 p; write_ops xs p } = Some p'"
    and "take (4 * wrpos p) (buf p') = take (4 * wrpos p) (buf p)"
    and "length (buf p') = length (buf p)" and "inbundle p' = inbundle p" and "msgsizepos p' = msgsizepos p"
    and "4 * wrpos p' = 4 * wrpos p + length (pad_str (44 # map arg_tag as)) + length (enc_values as)"
    and "take (4 * wrpos p') (buf p') =
      take (4 * wrpos p) (buf p) @ pad_str (44 # map arg_tag as) @ enc_values as"
proof -
  define n where "n = (length as + 1 + 4) div 4"
  define A where "A = take (4 * wrpos p) (buf p)"
  define B where "B = drop (4 * wrpos p) (buf p)"
  define R where "R = drop 4 (drop (4 * n - 4) B)"
  have ps: "length (pad_str (44 # map arg_tag as)) = 4 * n" by (simp add: length_pad_str n_def)
  have fit: "4 * wrpos p + 4 * n + length (enc_values as) \<le> length (buf p)" using room ps by simp
  have lA: "length A = 4 * wrpos p" using fit by (simp add: A_def)
  have n: "0 < n" by (simp add: n_def)
  obtain k where k: "length (buf p) = 4 * k" using al by (auto elim!: dvdE)
  have kb: "wrpos p + n \<le> kBufSize p" using fit k by (simp add: kBufSize_def)
  define T where "T = take (4 * n - 4) B"
  define U where "U = take 4 (drop (4 * n - 4) B)"
  have "B = T @ U @ R" unfolding T_def U_def R_def by (simp only: append_take_drop_id)
  then have split: "buf p = (A @ T) @ U @ R" using append_take_drop_id [of "4 * wrpos p" "buf p"]
    by (simp add: A_def B_def)
  have lB: "length B = length (buf p) - 4 * wrpos p" by (simp add: B_def)
  have lT: "length T = 4 * n - 4" "length U = 4" using fit n lB by (simp_all add: T_def U_def)
  have lR: "length R = length (buf p) - 4 * wrpos p - 4 * n" using lB n by (simp add: R_def)
  let ?p1 = "p\<lparr>tagwrpos := 4 * wrpos p, wrpos := wrpos p + n, buf := (A @ T) @ be32_bytes 0 @ R\<rparr>"
  have mk: "maketags (length as + 1) p = Some ?p1"
  proof -
    have "put_word (wrpos p + n - 1) 0 (p\<lparr>tagwrpos := 4 * wrpos p, wrpos := wrpos p + n\<rparr>) = Some ?p1"
      by (subst put_word_at [where pre = "A @ T" and old = U and post = R]) (use split lT lA n in auto)
    then show ?thesis using maketags_room [OF n_def kb] n by (simp add: clear_word_def)
  qed
  define tz where "tz = tl (T @ be32_bytes 0)"
  obtain x where x: "T @ be32_bytes 0 = x # tz"
    using that [of "hd (T @ be32_bytes 0)"] by (simp add: tz_def be32_bytes_def)
  have ltz: "length tz = 4 * n - 1" using lT n by (simp add: tz_def)
  let ?p2 = "?p1\<lparr>buf := A @ 44 # (tz @ R), tagwrpos := 4 * wrpos p + 1\<rparr>"
  have b1: "buf ?p1 = A @ x # (tz @ R)"
    using arg_cong [OF x, of "\<lambda>y. A @ y @ R"] by simp
  have t: "addtag 44 ?p1 = Some ?p2"
    using addtag_at [OF b1, of 44] lA by simp
  have l4: "4 * n - 4 \<le> length as + 1" "length as + 2 \<le> 4 * n" unfolding n_def by simp presburger+
  have enc4: "4 dvd length (enc_values as)" by (induction as) (auto simp: length_enc_value)
  have lb: "length (buf ?p2) = length (buf p)" using split lT x ltz n by simp
  let ?p3 = "?p2\<lparr>buf := A @ [44] @ map arg_tag as @ drop (length as) tz @ [] @ enc_values as
       @ drop (length (enc_values as)) R,
     tagwrpos := tagwrpos ?p2 + length as, wrpos := wrpos ?p2 + length (enc_values as) div 4\<rparr>"
  have "write_ops xs ?p2 = Some ?p3"
    using write_ops_at [of xs ?p2 A "[44]" tz "[]" R] ok xs lA ltz n l4 fit al lb lR by simp
  then have b: "do { p \<leftarrow> maketags (length as + 1) p; p \<leftarrow> addtag 44 p; write_ops xs p } = Some ?p3" using mk t by simp
  have "drop (length as) tz = drop (length as + 1) (T @ be32_bytes 0)"
    unfolding tz_def Suc_eq_plus1 [symmetric] by (rule drop_Suc [symmetric])
  also have "\<dots> = replicate (4 * n - (length as + 1)) 0"
  proof -
    have "be32_bytes 0 = replicate 4 0" by (simp add: be32_bytes_def numeral_nat)
    moreover have "4 - (length as + 1 - (4 * n - 4)) = 4 * n - (length as + 1)" using l4 n by linarith
    ultimately show ?thesis using l4(1) lT by simp
  qed
  also have "4 * n - (length as + 1) = 4 - (length as + 1) mod 4" unfolding n_def by presburger
  finally have pad: "[44] @ map arg_tag as @ drop (length as) tz = pad_str (44 # map arg_tag as)"
    by (simp add: pad_str_def)
  have b3: "buf ?p3 = A @ pad_str (44 # map arg_tag as) @ enc_values as @ drop (length (enc_values as)) R"
    using arg_cong [OF pad, of "\<lambda>x. A @ x @ enc_values as @ drop (length (enc_values as)) R"] by simp
  have w3: "4 * wrpos ?p3 = 4 * wrpos p + length (pad_str (44 # map arg_tag as)) + length (enc_values as)"
    using enc4 ps by (auto elim!: dvdE)
  show ?thesis
  proof (rule that [OF b])
    show "take (4 * wrpos p) (buf ?p3) = take (4 * wrpos p) (buf p)"
      unfolding b3 by (simp add: lA flip: A_def)
    show "length (buf ?p3) = length (buf p)" unfolding b3 using ps fit lA lR by simp
    show "take (4 * wrpos ?p3) (buf ?p3) =
      take (4 * wrpos p) (buf p) @ pad_str (44 # map arg_tag as) @ enc_values as"
      unfolding b3 w3 by (simp add: lA flip: A_def)
  qed (use w3 in simp_all)
qed

lemma OSCstrskip_padded:
  "0 \<notin> set s \<Longrightarrow> mem = pre @ pad_str s @ post \<Longrightarrow>
   OSCstrskip_from mem (length pre) = Some (length pre + length (pad_str s))"
proof (induction s arbitrary: pre rule: pad_words.induct)
  case (1 a b c d bs)
  have p: "pad_str (a # b # c # d # bs) = [a, b, c, d] @ pad_str bs" by (simp add: pad_str_def mod4_Suc)
  have "OSCstrskip_from mem (length (pre @ [a, b, c, d])) = Some (length (pre @ [a, b, c, d]) + length (pad_str bs))"
    by (rule "1.IH") (use 1 p in auto)
  moreover have "Suc (Suc (Suc (Suc (length pre)))) = length pre + 4" by simp
  ultimately show ?case using 1 p by (subst OSCstrskip_from.simps) (simp add: nth_append)
qed (subst OSCstrskip_from.simps, simp add: pad_str_def nth_append replicate_small)+

lemma cstr_chars_padded: "0 \<notin> set s \<Longrightarrow> cstr_chars (pad_str s @ post) = Some s"
proof -
  assume "0 \<notin> set s"
  moreover have "pad_str s = s @ 0 # replicate (3 - length s mod 4) 0"
    unfolding pad_str_def by (simp add: Suc_diff_le flip: replicate_Suc)
  ultimately show ?thesis using cstr_chars_terminated [of s] by simp
qed

lemma read_be32_at:
  "mem = pre @ be32_bytes w @ post \<Longrightarrow> i = length pre \<Longrightarrow> read_be32 mem i = Some w"
  using read_be32_append by simp

lemma double_halves: "push_bit 32 (ucast (ucast (drop_bit 32 d) :: u32)) + ucast (ucast d :: u32) = (d :: u64)"
proof -
  have "push_bit 32 (ucast (ucast (drop_bit 32 d) :: u32)) + ucast (ucast d :: u32)
    = push_bit 32 (ucast (ucast (drop_bit 32 d) :: u32)) OR (ucast (ucast d :: u32) :: u64)"
    by (rule disjunctive_add) (auto simp: bit_simps)
  also have "\<dots> = d"
    by (rule bit_word_eqI) (auto simp: bit_simps)
  finally show ?thesis .
qed

text \<open>One argument: the iterator stands in front of it, and its tag is the one counted.\<close>

lemma read_arg_at:
  assumes ok: "arg_ok a" and d: "mdata m = pre @ enc_value a @ post" and r: "rdpos m = length pre"
    and sz: "length pre + length (enc_value a) \<le> msize m"
    and tg: "tags m = Some t" "t + tcount m < length pre" "pre ! (t + tcount m) = arg_tag a"
  obtains new where "read_arg (arg_tag a) m = Some (a, m\<lparr>mdata := pre @ new @ post,
      rdpos := rdpos m + length (enc_value a), tcount := tcount m + 1\<rparr>)"
    and "length new = length (enc_value a)"
proof -
  have rem: "\<not> remain m \<le> 0" using sz r length_enc_value(2) [of a] unfolding remain_def by linarith
  have tag: "tag_here m t = Some (arg_tag a)"
    using tg d by (simp add: tag_here_def nth_append)
  have same: "m\<lparr>mdata := pre @ enc_value a @ post\<rparr> = m" using d [symmetric] by simp
  show ?thesis
  proof (cases a)
    case (Arg_i i)
    have "read_be32 (mdata m) (rdpos m) = Some i" by (rule read_be32_at) (use d r Arg_i in auto)
    then have "read_arg (arg_tag a) m = Some (a, m\<lparr>rdpos := rdpos m + 4, tcount := tcount m + 1\<rparr>)"
      using Arg_i rem tg(1) tag by (simp add: geti_def read_int_def OSCint_def)
    then show ?thesis using that [of "enc_value a"] Arg_i d by (metis (no_types, lifting) same sc_msg_iter.surjective sc_msg_iter.update_convs length_be32_bytes enc_value.simps(1))
  next
    case (Arg_f f)
    have rd: "read_be32 (mdata m) (rdpos m) = Some f" by (rule read_be32_at) (use d r Arg_f in auto)
    have bl: "blit (mdata m) (rdpos m) (le32_bytes f) = Some (pre @ le32_bytes f @ post)"
      unfolding d by (rule blit_append) (use r Arg_f in \<open>simp_all add: le32_bytes_def\<close>)
    have "read_arg (arg_tag a) m = Some (a, m\<lparr>mdata := pre @ le32_bytes f @ post, rdpos := rdpos m + 4, tcount := tcount m + 1\<rparr>)"
      using Arg_f rem tg(1) tag rd bl by (simp add: getf_def read_float_def OSCfloat_def)
    then show ?thesis using that [of "le32_bytes f"] Arg_f by (simp add: le32_bytes_def)
  next
    case (Arg_d x)
    have "read_be32 (mdata m) (rdpos m) = Some (ucast (drop_bit 32 x))" by (rule read_be32_at) (use d r Arg_d in auto)
    moreover have "read_be32 (mdata m) (rdpos m + 4) = Some (ucast x)"
      by (rule read_be32_at [where pre = "pre @ be32_bytes (ucast (drop_bit 32 x))"]) (use d r Arg_d in auto)
    ultimately have "OSCdouble (mdata m) (rdpos m) = Some x"
      using double_halves [of x] by (simp add: OSCdouble_def)
    then have "read_arg (arg_tag a) m = Some (a, m\<lparr>rdpos := rdpos m + 8, tcount := tcount m + 1\<rparr>)"
      using Arg_d rem tg(1) tag by (simp add: getd_def read_double_def)
    then show ?thesis using that [of "enc_value a"] Arg_d d by (cases m) simp
  next
    case (Arg_s s)
    then have z: "0 \<notin> set s" using ok by simp
    have "OSCstrskip (mdata m) (rdpos m) = Some (rdpos m + length (pad_str s))"
      unfolding OSCstrskip_def r by (rule OSCstrskip_padded [OF z]) (use d Arg_s in simp)
    moreover have "cstr_chars (drop (rdpos m) (mdata m)) = Some s"
      using cstr_chars_padded [OF z] d r Arg_s by simp
    ultimately have "read_arg (arg_tag a) m = Some (a, m\<lparr>rdpos := rdpos m + length (pad_str s), tcount := tcount m + 1\<rparr>)"
      using Arg_s rem tg(1) tag by (simp add: gets_def skip_str_def)
    then show ?thesis using that [of "enc_value a"] Arg_s d by (cases m) simp
  qed
qed

lemma read_args_at:
  "\<forall>a \<in> set as. arg_ok a \<Longrightarrow> mdata m = T @ C @ enc_values as @ R \<Longrightarrow> rdpos m = length T + length C \<Longrightarrow>
   length T + length C + length (enc_values as) \<le> msize m \<Longrightarrow> tags m = Some 1 \<Longrightarrow>
   T = X @ map arg_tag as @ Y \<Longrightarrow> length X = 1 + tcount m \<Longrightarrow>
   \<exists>m'. read_args (map arg_tag as) m = Some (as, m')"
proof (induction as arbitrary: m C X)
  case (Cons a as)
  obtain new where rd: "read_arg (arg_tag a) m = Some (a, m\<lparr>mdata := (T @ C) @ new @ (enc_values as @ R),
      rdpos := rdpos m + length (enc_value a), tcount := tcount m + 1\<rparr>)"
    and new: "length new = length (enc_value a)"
    by (rule read_arg_at [of a m "T @ C" "enc_values as @ R" 1])
      (use Cons.prems in \<open>auto simp: nth_append\<close>)
  let ?m = "m\<lparr>mdata := (T @ C) @ new @ (enc_values as @ R),
      rdpos := rdpos m + length (enc_value a), tcount := tcount m + 1\<rparr>"
  have "\<exists>m'. read_args (map arg_tag as) ?m = Some (as, m')"
    by (rule Cons.IH [where C = "C @ new" and X = "X @ [arg_tag a]"]) (use Cons.prems new in auto)
  then show ?case using rd by (auto simp del: read_arg.simps)
qed simp

lemma ops_read_back:
  assumes ok: "\<forall>a \<in> set as. arg_ok a" and xs: "op_tags xs = map arg_tag as" "op_vals xs = as" and al: "4 dvd length (buf p)"
    and room: "4 * wrpos p + length (pad_str (44 # map arg_tag as)) + length (enc_values as) \<le> length (buf p)"
  shows "\<exists>p' m m'. do { p \<leftarrow> maketags (length as + 1) p; p \<leftarrow> addtag 44 p; write_ops xs p } = Some p' \<and> take (4 * wrpos p) (buf p') = take (4 * wrpos p) (buf p)
    \<and> msg_init (4 * (wrpos p' - wrpos p)) (drop (4 * wrpos p) (buf p')) = Some m
    \<and> read_args (map arg_tag as) m = Some (as, m')"
proof -
  obtain p' where b: "do { p \<leftarrow> maketags (length as + 1) p; p \<leftarrow> addtag 44 p; write_ops xs p } = Some p'" and keep: "take (4 * wrpos p) (buf p') = take (4 * wrpos p) (buf p)"
    and w: "4 * wrpos p' = 4 * wrpos p + length (pad_str (44 # map arg_tag as)) + length (enc_values as)"
    and t: "take (4 * wrpos p') (buf p') = take (4 * wrpos p) (buf p) @ pad_str (44 # map arg_tag as) @ enc_values as"
    by (rule build_ops_at [OF assms])
  let ?T = "pad_str (44 # map arg_tag as)" and ?M = "drop (4 * wrpos p) (buf p')"
  define R where "R = drop (4 * wrpos p') (buf p')"
  have "buf p' = take (4 * wrpos p) (buf p) @ ?T @ enc_values as @ R"
    using append_take_drop_id [of "4 * wrpos p'" "buf p'"] t by (simp add: R_def)
  then have M: "?M = ?T @ enc_values as @ R" using room by simp
  have nz: "0 \<notin> set (44 # map arg_tag as)" using nonzero_arg_tag by (auto simp: image_iff dest!: sym)
  have sk: "OSCstrskip ?M 0 = Some (length ?T)"
    using OSCstrskip_padded [OF nz, of ?M "[]" "enc_values as @ R"] M by (simp add: OSCstrskip_def)
  let ?m = "\<lparr>mdata = ?M, rdpos = length ?T, msize = 4 * (wrpos p' - wrpos p), tags = Some 1, tcount = 0\<rparr>"
  have "?M ! 0 = 44" "?M \<noteq> []" unfolding M by (simp_all add: pad_str_def)
  then have i: "msg_init (4 * (wrpos p' - wrpos p)) ?M = Some ?m"
    using sk by (simp add: msg_init_def)
  have "\<exists>m'. read_args (map arg_tag as) ?m = Some (as, m')"
    by (rule read_args_at [OF ok, where T = ?T and C = "[]" and R = R and X = "[44]"
          and Y = "replicate (4 - length (44 # map arg_tag as) mod 4) 0"])
      (use M w in \<open>simp_all add: pad_str_def\<close>)
  then show ?thesis using b keep i by blast
qed

section \<open>Properties\<close>

text \<open>
  C16: a message built into a packet with enough room (the type tags reserved, then for every
  argument its tag and its value) is read back argument by argument by \<open>sc_msg_iter\<close> exactly as it
  was written, in place and with nothing before it disturbed.
\<close>

theorem packet_iter_roundtrip:
  assumes ok: "\<forall>a \<in> set as. arg_ok a" and al: "4 dvd length (buf p)"
    and room: "4 * wrpos p + length (pad_str (44 # map arg_tag as)) + length (enc_values as) \<le> length (buf p)"
  shows "\<exists>p' m m'. build_msg as p = Some p' \<and> take (4 * wrpos p) (buf p') = take (4 * wrpos p) (buf p)
    \<and> msg_init (4 * (wrpos p' - wrpos p)) (drop (4 * wrpos p) (buf p')) = Some m
    \<and> read_args (map arg_tag as) m = Some (as, m')"
proof -
  let ?xs = "concat (List.map (\<lambda>a. [Tag (arg_tag a), Val a]) as)"
  have "op_tags ?xs = map arg_tag as" "op_vals ?xs = as" by (induction as) simp_all
  then show ?thesis using ops_read_back [OF ok _ _ al room, of ?xs] by (simp add: build_msg_def add_args_ops)
qed

theorem packet_iter_roundtrip_witness:
  "\<exists>p' m m'. build_msg [Arg_i 1000, Arg_s [102, 111], Arg_f 0x3f800000, Arg_d 7]
      \<lparr>wrpos = 1, msgsizepos = 0, tagwrpos = 0, inbundle = 0, buf = replicate 64 1\<rparr> = Some p'
    \<and> msg_init (4 * (wrpos p' - 1)) (drop 4 (buf p')) = Some m
    \<and> read_args [tag_i, tag_s, tag_f, tag_d] m = Some ([Arg_i 1000, Arg_s [102, 111], Arg_f 0x3f800000, Arg_d 7], m')"
  using packet_iter_roundtrip [of "[Arg_i 1000, Arg_s [102, 111], Arg_f 0x3f800000, Arg_d 7]"
      "\<lparr>wrpos = 1, msgsizepos = 0, tagwrpos = 0, inbundle = 0, buf = replicate 64 1\<rparr>"]
  by (simp add: length_pad_str del: read_args.simps) blast

text \<open>
  \<open>addb\<close> of an empty blob destroys what was written before it: the word that ends the packet so
  far is set to zero.
\<close>

theorem addb_empty_clobbers:
  assumes "4 * wrpos p = length pre + 4" and "length old = 4" and "length new = 4"
    and "buf p = pre @ old @ new @ post"
  shows "addb src 0 p = Some (p\<lparr>buf := pre @ be32_bytes 0 @ be32_bytes 0 @ post, wrpos := wrpos p + 1\<rparr>)"
proof -
  have w: "4 * (wrpos p - 1) = length pre" "0 < wrpos p" using assms(1) by auto
  have "wrpos p + 1 \<le> kBufSize p" using assms by (simp add: kBufSize_def)
  moreover have "clear_word 0 p = Some (p\<lparr>buf := pre @ be32_bytes 0 @ new @ post\<rparr>)"
    using put_word_at [of p pre old "new @ post" "wrpos p - 1" 0] assms w by (simp add: clear_word_def)
  moreover have "push_word 0 (p\<lparr>buf := pre @ be32_bytes 0 @ new @ post\<rparr>) =
      Some (p\<lparr>buf := (pre @ be32_bytes 0) @ be32_bytes 0 @ post, wrpos := wrpos p + 1\<rparr>)"
    using push_word_at [of "p\<lparr>buf := pre @ be32_bytes 0 @ new @ post\<rparr>" "pre @ be32_bytes 0" new post 0] assms
    by simp
  moreover have "put_bytes (4 * (wrpos p + 1)) []
      (p\<lparr>buf := pre @ be32_bytes 0 @ be32_bytes 0 @ post, wrpos := wrpos p + 1\<rparr>) =
      Some (p\<lparr>buf := pre @ be32_bytes 0 @ be32_bytes 0 @ post, wrpos := wrpos p + 1\<rparr>)"
    using assms by (simp add: put_bytes_def blit_def)
  ultimately show ?thesis by (simp add: addb_def Let_def)
qed

theorem addb_empty_clobbers_witness:
  "addb [] 0 \<lparr>wrpos = 1, msgsizepos = 0, tagwrpos = 0, inbundle = 0, buf = be32_bytes 5 @ be32_bytes 6\<rparr>
   = Some \<lparr>wrpos = 2, msgsizepos = 0, tagwrpos = 0, inbundle = 0, buf = be32_bytes 0 @ be32_bytes 0\<rparr>"
  using addb_empty_clobbers [of "\<lparr>wrpos = 1, msgsizepos = 0, tagwrpos = 0, inbundle = 0, buf = be32_bytes 5 @ be32_bytes 6\<rparr>"
      "[]" "be32_bytes 5" "be32_bytes 6" "[]" "[]"] by simp

text \<open>
  Reading a float argument leaves the message with the four bytes of that argument reversed, so
  that reading the same argument again gives the number with its bytes in the opposite order.
\<close>

theorem float_read_twice:
  assumes "mdata m = pre @ be32_bytes (be32 a b c d) @ post" and "rdpos m = length pre"
    and "tags m = None" and "length pre < msize m"
  shows "\<exists>m'. getf x m = Some (be32 a b c d, m') \<and> rdpos m' = rdpos m + 4
    \<and> map_option fst (getf x (m'\<lparr>rdpos := rdpos m\<rparr>)) = Some (be32 d c b a)"
proof -
  have r1: "read_be32 (mdata m) (rdpos m) = Some (be32 a b c d)"
    by (rule read_be32_at) (use assms in auto)
  have l: "le32_bytes (be32 a b c d) = be32_bytes (be32 d c b a)" by (simp add: le32_bytes_def)
  have bl: "blit (mdata m) (rdpos m) (le32_bytes (be32 a b c d)) = Some (pre @ be32_bytes (be32 d c b a) @ post)"
    unfolding assms(1) l by (rule blit_append) (use assms(2) in simp_all)
  have r2: "read_be32 (pre @ be32_bytes (be32 d c b a) @ post) (length pre) = Some (be32 d c b a)"
    by (rule read_be32_append)
  have bl2: "\<exists>x. blit (pre @ be32_bytes (be32 d c b a) @ post) (length pre) (le32_bytes (be32 d c b a)) = Some x"
    by (simp add: blit_def le32_bytes_def)
  have rem: "\<not> remain m \<le> 0" using assms by (simp add: remain_def)
  show ?thesis
    using r1 bl r2 bl2 rem assms by (auto simp: getf_def read_float_def OSCfloat_def remain_def)
qed

theorem float_read_twice_witness:
  "\<exists>m'. getf 0 \<lparr>mdata = be32_bytes (be32 0x3f 0x80 0 1), rdpos = 0, msize = 4, tags = None, tcount = 0\<rparr>
      = Some (be32 0x3f 0x80 0 1, m') \<and> map_option fst (getf 0 (m'\<lparr>rdpos := 0\<rparr>)) = Some (be32 1 0 0x80 0x3f)"
  using float_read_twice [of "\<lparr>mdata = be32_bytes (be32 0x3f 0x80 0 1), rdpos = 0, msize = 4, tags = None, tcount = 0\<rparr>"
      "[]" "0x3f" "0x80" 0 1 "[]" 0] by auto

end
