(* ===== verification/SC_Bits.thy ===== *)
theory SC_Bits
  imports SC_Hash
begin

text \<open>
  \<open>include/common/clz.h\<close>: the bit-counting helpers the tables, the allocator and the buffers size
  themselves with; and the integer part of \<open>include/plugin_interface/SC_RGen.h\<close>, the combined
  Tausworthe generator every synth draws from.

  Counts are natural numbers. \<open>1L << n\<close> is a 64-bit shift whose result is narrowed to \<open>int32\<close>; a
  shift by a negative or full width is undefined behaviour, hence \<open>None\<close>.
\<close>

section \<open>Counting bits\<close>

text \<open>\<open>__builtin_clz\<close>: the zeros above the highest set bit among the lowest \<open>n\<close> bits.\<close>

fun clz_below :: "nat \<Rightarrow> i32 \<Rightarrow> nat" where
  "clz_below 0 x = 32"
| "clz_below (Suc n) x = (if bit x n then 31 - n else clz_below n x)"

definition CLZ :: "i32 \<Rightarrow> nat" where
  "CLZ arg = (if arg \<noteq> 0 then clz_below 32 arg else 32)"

definition CTZ :: "i32 \<Rightarrow> nat" where
  "CTZ x = 32 - CLZ (NOT x AND (x - 1))"

definition CLO :: "i32 \<Rightarrow> nat" where
  "CLO x = CLZ (NOT x)"

definition CTO :: "i32 \<Rightarrow> nat" where
  "CTO x = 32 - CLZ (x AND (NOT x - 1))"

definition NUMBITS :: "i32 \<Rightarrow> nat" where
  "NUMBITS x = 32 - CLZ x"

definition LOG2CEIL :: "i32 \<Rightarrow> nat" where
  "LOG2CEIL x = 32 - CLZ (x - 1)"

definition ISPOWEROFTWO :: "i32 \<Rightarrow> bool" where
  "ISPOWEROFTWO x = (x AND (x - 1) = 0)"

text \<open>\<open>(int32)(1L << n)\<close>.\<close>

definition long_one_shl :: "nat \<Rightarrow> i32" where
  "long_one_shl n = ucast (push_bit n (1 :: u64))"

definition NEXTPOWEROFTWO :: "i32 \<Rightarrow> i32" where
  "NEXTPOWEROFTWO x = long_one_shl (LOG2CEIL x)"

definition PREVIOUSPOWEROFTWO :: "i32 \<Rightarrow> i32" where
  "PREVIOUSPOWEROFTWO x = (if ISPOWEROFTWO x then x else long_one_shl (LOG2CEIL x - 1))"

definition GRAYCODE :: "i32 \<Rightarrow> i32" where
  "GRAYCODE x = x XOR signed_drop_bit 1 x"

definition LSBit :: "i32 \<Rightarrow> i32" where
  "LSBit x = x AND (- x)"

definition LSBitPos :: "i32 \<Rightarrow> nat" where
  "LSBitPos x = CTZ (x AND (- x))"

definition MSBitPos :: "i32 \<Rightarrow> int" where
  "MSBitPos x = 31 - int (CLZ x)"

definition MSBit :: "i32 \<Rightarrow> i32 option" where
  "MSBit x = (if MSBitPos x < 0 then None else Some (long_one_shl (nat (MSBitPos x))))"

definition ONES :: "u32 \<Rightarrow> u32" where
  "ONES x =
     (let x = x - (drop_bit 1 x AND 0x55555555);
          t = drop_bit 2 x AND 0x33333333;
          x = (x AND 0x33333333) + t;
          x = (x + drop_bit 4 x) AND 0x0F0F0F0F;
          x = x + push_bit 8 x;
          x = x + push_bit 16 x
      in drop_bit 24 x)"

definition ZEROES :: "u32 \<Rightarrow> u32" where
  "ZEROES x = ONES (NOT x)"

definition BitReverse :: "u32 \<Rightarrow> u32" where
  "BitReverse x =
     (let x = drop_bit 1 (x AND 0xAAAAAAAA) OR push_bit 1 (x AND 0x55555555);
          x = drop_bit 2 (x AND 0xCCCCCCCC) OR push_bit 2 (x AND 0x33333333);
          x = drop_bit 4 (x AND 0xF0F0F0F0) OR push_bit 4 (x AND 0x0F0F0F0F);
          x = drop_bit 8 (x AND 0xFF00FF00) OR push_bit 8 (x AND 0x00FF00FF)
      in drop_bit 16 x OR push_bit 16 x)"

definition RotateRight :: "u32 \<Rightarrow> u32 \<Rightarrow> u32 option" where
  "RotateRight x s =
     (let s = s AND 31; n = unat s
      in if n = 0 then None else Some (push_bit (32 - n) x OR drop_bit n x))"

definition RotateLeft :: "u32 \<Rightarrow> u32 \<Rightarrow> u32 option" where
  "RotateLeft x s =
     (let s = s AND 31; n = unat s
      in if n = 0 then None else Some (drop_bit (32 - n) x OR push_bit n x))"

section \<open>The random generator\<close>

record RGen =
  s1 :: u32
  s2 :: u32
  s3 :: u32

definition RGen_init :: "u32 \<Rightarrow> RGen" where
  "RGen_init seed =
     (let seed = Hash_int seed;
          a = 1243598713 XOR seed; a = (if a < 2 then 1243598713 else a);
          b = 3093459404 XOR seed; b = (if b < 8 then 3093459404 else b);
          c = 1821928721 XOR seed; c = (if c < 16 then 1821928721 else c)
      in \<lparr>s1 = a, s2 = b, s3 = c\<rparr>)"

definition trand :: "RGen \<Rightarrow> u32 \<times> RGen" where
  "trand r =
     (let a = push_bit 12 (s1 r AND (- 2)) XOR drop_bit 19 (push_bit 13 (s1 r) XOR s1 r);
          b = push_bit 4 (s2 r AND (- 8)) XOR drop_bit 25 (push_bit 2 (s2 r) XOR s2 r);
          c = push_bit 17 (s3 r AND (- 16)) XOR drop_bit 11 (push_bit 3 (s3 r) XOR s3 r)
      in (a XOR b XOR c, \<lparr>s1 = a, s2 = b, s3 = c\<rparr>))"

section \<open>Properties\<close>

subsection \<open>Counting leading zeros\<close>

lemma unat_less_exp:
  assumes "\<forall>i \<ge> n. \<not> bit (x :: i32) i"
  shows "unat x < 2 ^ n"
proof -
  have "take_bit n x = x"
    using assms by (auto intro!: bit_word_eqI simp: bit_simps not_le)
  then have "unat x = take_bit n (unat x)" by (metis unsigned_take_bit_eq)
  then show ?thesis by (metis take_bit_nat_less_exp)
qed

lemma bit_exp_le:
  assumes "bit (x :: i32) n"
  shows "2 ^ n \<le> unat x"
proof (rule ccontr)
  assume "\<not> 2 ^ n \<le> unat x"
  then have "\<not> bit (unat x) n" by (simp add: bit_iff_odd)
  then show False using assms by (simp add: bit_unsigned_iff)
qed

lemma clz_below_bounds:
  assumes "n \<le> 32" and "\<forall>i \<ge> n. \<not> bit x i"
  shows "clz_below n x \<le> 32 \<and> unat x < 2 ^ (32 - clz_below n x)
    \<and> (x \<noteq> 0 \<longrightarrow> clz_below n x < 32 \<and> 2 ^ (31 - clz_below n x) \<le> unat x)"
  using assms
proof (induction n)
  case 0
  then have "x = 0" by (auto intro: bit_word_eqI)
  then show ?case by simp
next
  case (Suc n)
  show ?case
  proof (cases "bit x n")
    case True
    with Suc.prems(1) have "32 - (31 - n) = Suc n" "31 - (31 - n) = n" by auto
    with True unat_less_exp [OF Suc.prems(2)] bit_exp_le [OF True] Suc.prems(1)
    show ?thesis by (simp, arith)
  next
    case False
    with Suc.prems(2) have "\<forall>i \<ge> n. \<not> bit x i" by (metis Suc_leI le_neq_implies_less)
    with Suc.IH Suc.prems(1) False show ?thesis by simp
  qed
qed

lemma CLZ_bounds:
  "CLZ x \<le> 32" "unat x < 2 ^ (32 - CLZ x)"
  "x \<noteq> 0 \<Longrightarrow> CLZ x < 32" "x \<noteq> 0 \<Longrightarrow> 2 ^ (31 - CLZ x) \<le> unat x"
proof -
  have "\<forall>i \<ge> 32. \<not> bit x i" by (auto dest: bit_imp_le_length)
  note clz_below_bounds [OF order.refl this]
  then show "CLZ x \<le> 32" "unat x < 2 ^ (32 - CLZ x)"
    "x \<noteq> 0 \<Longrightarrow> CLZ x < 32" "x \<noteq> 0 \<Longrightarrow> 2 ^ (31 - CLZ x) \<le> unat x"
    by (auto simp: CLZ_def)
qed

lemma unat_long_one_shl: "n < 32 \<Longrightarrow> unat (long_one_shl n) = 2 ^ n"
proof -
  assume n: "n < 32"
  have "long_one_shl n = push_bit n 1"
    by (rule bit_word_eqI) (use n in \<open>auto simp: long_one_shl_def bit_simps\<close>)
  also have "\<dots> = of_nat (2 ^ n)" by simp
  finally have "unat (long_one_shl n) = 2 ^ n mod 2 ^ 32" by (simp only: unat_of_nat len_num1 len_bit0) simp
  moreover have "(2::nat) ^ n < 2 ^ 32" using n by (intro power_strict_increasing) auto
  ultimately show ?thesis by simp
qed

text \<open>
  On every request from 1 to 2^30, \<open>NEXTPOWEROFTWO\<close> is the least power of two that is not
  smaller, so the hash tables sized with it have a power-of-two number of slots.
\<close>

theorem NEXTPOWEROFTWO_correct:
  assumes "1 \<le> unat x" and "unat x \<le> 2 ^ 30"
  shows "\<exists>k \<le> 30. unat (NEXTPOWEROFTWO x) = 2 ^ k \<and> unat x \<le> 2 ^ k \<and> 2 ^ k < 2 * unat x"
proof -
  have u: "unat (x - 1) = unat x - 1"
    using assms(1) by (metis One_nat_def unat_1 unat_sub word_le_nat_alt)
  let ?k = "LOG2CEIL x"
  have lt: "unat x - 1 < 2 ^ ?k"
    using CLZ_bounds(2) [of "x - 1"] by (simp add: LOG2CEIL_def u)
  have le: "?k \<le> 30 \<and> 2 ^ ?k < 2 * unat x"
  proof (cases "x - 1 = 0")
    case True
    then have "?k = 0" by (simp add: LOG2CEIL_def CLZ_def)
    with assms(1) show ?thesis by simp
  next
    case False
    then have c: "CLZ (x - 1) < 32" and p: "2 ^ (31 - CLZ (x - 1)) \<le> unat x - 1"
      using CLZ_bounds(3,4) [OF False] u by auto
    have "31 - CLZ (x - 1) < 30"
    proof (rule ccontr)
      assume "\<not> 31 - CLZ (x - 1) < 30"
      then have "(2::nat) ^ 30 \<le> 2 ^ (31 - CLZ (x - 1))" by (intro power_increasing) auto
      with p assms show False by simp
    qed
    moreover have "?k = Suc (31 - CLZ (x - 1))" using c by (simp add: LOG2CEIL_def)
    ultimately show ?thesis using p assms(1) by auto
  qed
  show ?thesis
    using le lt assms(1) unat_long_one_shl [of ?k]
    by (intro exI [of _ ?k]) (auto simp: NEXTPOWEROFTWO_def)
qed

theorem NEXTPOWEROFTWO_correct_witness:
  "\<exists>k \<le> 30. unat (NEXTPOWEROFTWO 1000) = 2 ^ k \<and> 1000 \<le> (2::nat) ^ k \<and> (2::nat) ^ k < 2000"
  using NEXTPOWEROFTWO_correct [of 1000] by simp


subsection \<open>Reversing bits, and the generator's bounds\<close>

lemma less32_cases:
  "n < (32::nat) \<longleftrightarrow> n \<in> {0,1,2,3,4,5,6,7,8,9,10,11,12,13,14,15,16,17,18,19,20,21,22,23,24,25,26,27,28,29,30,31}"
  by (simp, arith)

lemma bit_BitReverse:
  assumes "n < 32"
  shows "bit (BitReverse x) n = bit x (31 - n)"
proof -
  have "\<forall>n \<in> {0,1,2,3,4,5,6,7,8,9,10,11,12,13,14,15,16,17,18,19,20,21,22,23,24,25,26,27,28,29,30,31}.
     bit (BitReverse x) n = bit x (31 - n)"
    by (simp add: BitReverse_def Let_def bit_simps bit_double_iff mult.commute [of _ "2 :: 32 word"])
      (simp add: numeral_2_eq_2)
  with assms show ?thesis unfolding less32_cases by blast
qed

lemma bit_masks: "bit ((- 2) :: u32) n \<longleftrightarrow> 1 \<le> n \<and> n < 32"
  "bit ((- 8) :: u32) n \<longleftrightarrow> 3 \<le> n \<and> n < 32"
  "bit ((- 16) :: u32) n \<longleftrightarrow> 4 \<le> n \<and> n < 32"
proof -
  have "(- 2 :: u32) = NOT (mask 1)" "(- 8 :: u32) = NOT (mask 3)" "(- 16 :: u32) = NOT (mask 4)"
    by (simp_all add: mask_eq_exp_minus_1)
  then show "bit ((- 2) :: u32) n \<longleftrightarrow> 1 \<le> n \<and> n < 32" 
  "bit ((- 8) :: u32) n \<longleftrightarrow> 3 \<le> n \<and> n < 32"
  "bit ((- 16) :: u32) n \<longleftrightarrow> 4 \<le> n \<and> n < 32" 
   by (simp_all only: bit_not_iff bit_mask_iff possible_bit_word) auto
qed

lemma ge_iff_high_bit:
  "2 ^ k \<le> unat (x :: u32) \<longleftrightarrow> (\<exists>i \<ge> k. bit x i)"
proof
  assume "2 ^ k \<le> unat x"
  then show "\<exists>i \<ge> k. bit x i" using unat_less_exp [of k x] by auto
next
  assume "\<exists>i \<ge> k. bit x i"
  then obtain i where "k \<le> i" "bit x i" by blast
  then have "(2::nat) ^ k \<le> 2 ^ i" "2 ^ i \<le> unat x" by (auto intro: bit_exp_le)
  then show "2 ^ k \<le> unat x" by linarith
qed

definition RGen_ok :: "RGen \<Rightarrow> bool" where
  "RGen_ok r \<longleftrightarrow> 2 \<le> s1 r \<and> 8 \<le> s2 r \<and> 16 \<le> s3 r"

lemma le_iff: "(2::u32) \<le> x \<longleftrightarrow> (\<exists>i \<ge> 1. bit x i)" "(8::u32) \<le> x \<longleftrightarrow> (\<exists>i \<ge> 3. bit x i)"
  "(16::u32) \<le> x \<longleftrightarrow> (\<exists>i \<ge> 4. bit x i)"
  using ge_iff_high_bit [of 1 x] ge_iff_high_bit [of 3 x] ge_iff_high_bit [of 4 x]
  by (simp_all add: word_le_nat_alt)

lemma bit_taus:
  "bit (push_bit p (x AND m) XOR drop_bit d (push_bit q x XOR x)) i \<longleftrightarrow>
   (p \<le> i \<and> i < 32 \<and> bit (x :: u32) (i - p) \<and> bit m (i - p)) \<noteq>
   ((q \<le> d + i \<and> d + i < 32 \<and> bit x (d + i - q)) \<noteq> bit x (d + i))"
  by (simp only: bit_xor_iff bit_and_iff bit_push_bit_iff bit_drop_bit_eq comp_apply possible_bit_word) auto

lemma taus_nonzero:
  fixes x :: u32
  assumes x: "\<exists>i \<ge> k. bit x i" and m: "\<And>i. bit m i \<longleftrightarrow> k \<le> i \<and> i < 32"
    and pars: "d + k + p = 32" "q < d" "0 < q"
  shows "\<exists>i \<ge> k. bit (push_bit p (x AND m) XOR drop_bit d (push_bit q x XOR x)) i"
proof (rule ccontr)
  assume "\<not> ?thesis"
  then have a: "k \<le> i \<Longrightarrow> (p \<le> i \<and> i < 32 \<and> bit x (i - p) \<and> bit m (i - p)) =
   ((q \<le> d + i \<and> d + i < 32 \<and> bit x (d + i - q)) \<noteq> bit x (d + i))" for i
    unfolding bit_taus by blast
  have z: "k \<le> i \<Longrightarrow> \<not> bit x i" for i
  proof (induction i rule: less_induct)
    case (less i)
    show ?case
    proof (cases "i < 32 - p")
      case True
      have "\<not> bit x (d + (i + p))" using less.prems pars by (auto dest: bit_imp_le_length)
      then show ?thesis using True a [of "i + p"] less.prems pars m [of i] by auto
    next
      case False
      show ?thesis
      proof (cases "i < 32")
        case True
        have "\<not> bit x (i - q)" using less False pars by auto
        moreover have "\<not> (bit x (i - d - p) \<and> bit m (i - d - p))"
          using less.IH [of "i - d - p"] m pars False by auto
        moreover have "(p \<le> i - d \<and> i - d < 32 \<and> bit x (i - d - p) \<and> bit m (i - d - p)) =
            (bit x (i - q) \<noteq> bit x i)"
          using a [of "i - d"] False True pars by auto
        ultimately show ?thesis by blast
      qed (auto dest: bit_imp_le_length)
    qed
  qed
  with x show False by blast
qed


lemma taus_lower_bounds:
  "2 \<le> x \<Longrightarrow> 2 \<le> push_bit 12 (x AND (- 2)) XOR drop_bit 19 (push_bit 13 x XOR (x::u32))"
  "8 \<le> x \<Longrightarrow> 8 \<le> push_bit 4 (x AND (- 8)) XOR drop_bit 25 (push_bit 2 x XOR (x::u32))"
  "16 \<le> x \<Longrightarrow> 16 \<le> push_bit 17 (x AND (- 16)) XOR drop_bit 11 (push_bit 3 x XOR (x::u32))"
  unfolding le_iff by (rule taus_nonzero; simp only: bit_masks; simp)+

text \<open>
  Seeding establishes, and every draw keeps, the lower bounds on the three state words that the
  generator's full period needs: it can never fall into its degenerate zero cycle.
\<close>

theorem RGen_never_degenerate:
  "RGen_ok (((\<lambda>r. snd (trand r)) ^^ n) (RGen_init seed))"
proof (induction n)
  case 0
  show ?case by (auto simp: RGen_ok_def RGen_init_def Let_def not_less)
next
  case (Suc n)
  then show ?case
    by (simp only: funpow.simps comp_apply)
      (simp only: RGen_ok_def trand_def Let_def snd_conv RGen.select_convs taus_lower_bounds)
qed

text \<open>
  Reversing the bits of a word moves bit \<open>n\<close> to bit \<open>31 - n\<close>, and doing it twice is the identity.
\<close>

theorem BitReverse_correct:
  "(\<forall>n \<in> {..<32}. bit (BitReverse x) n = bit x (31 - n)) \<and> BitReverse (BitReverse x) = x"
  using bit_BitReverse by (auto intro!: bit_word_eqI)

theorem BitReverse_correct_witness: "bit (BitReverse 1) 31"
  using bspec [OF BitReverse_correct [THEN conjunct1], of 31 1] by simp

end
