(* ===== verification/SC_HashTable.thy ===== *)
theory SC_HashTable
  imports SC_Bits "HOL-Library.Multiset"
begin

text \<open>
  \<open>include/server/HashTable.h\<close>: the open-addressing tables of the server, \<open>HashTable\<close> (keys are
  padded strings) and \<open>IntHashTable\<close> (keys are integers). The node table, the SynthDef table, the
  control-name tables and the command library are instances.

  An item is a pointer, so its hash and key are read through it: \<open>kv item\<close> is the pair
  \<open>(GetHash(item), GetKey(item))\<close>, \<open>None\<close> when the pointer dangles. \<open>eqk\<close> compares two keys
  (\<open>str4eq\<close>, or equality of integers). The two class templates have the same text but for
  \<open>Resize\<close>, \<open>MakeEmpty\<close> and \<open>Dump\<close>; the \<open>IntHashTable\<close> definitions are the generic ones at integer
  equality. \<open>mPool\<close> is left out: \<open>AllocTable\<close> is taken to succeed, and freeing the old table has
  no effect on the new one.
\<close>

section \<open>The table and its operations\<close>

record 'a HashTable =
  mNumItems :: nat
  mMaxItems :: nat
  mTableSize :: nat
  mHashMask :: i32
  mItems :: "'a option list"
  mCanResize :: bool

type_synonym ('a, 'k) reader = "'a \<Rightarrow> (i32 \<times> 'k) option"
type_synonym 'k comparer = "'k \<Rightarrow> 'k \<Rightarrow> bool option"

definition AllocTable :: "nat \<Rightarrow> 'a option list" where
  "AllocTable inTableSize = replicate inTableSize None"

definition HashTable_new :: "nat \<Rightarrow> bool \<Rightarrow> 'a HashTable" where
  "HashTable_new inMaxItems inCanResize =
     \<lparr>mNumItems = 0, mMaxItems = inMaxItems, mTableSize = 2 * inMaxItems,
      mHashMask = of_nat (2 * inMaxItems) - 1, mItems = AllocTable (2 * inMaxItems),
      mCanResize = inCanResize\<rparr>"

definition MakeEmpty :: "'a HashTable \<Rightarrow> 'a HashTable" where
  "MakeEmpty t = t\<lparr>mItems := replicate (mTableSize t) None, mNumItems := 0\<rparr>"

text \<open>
  The probe loop. After \<open>mTableSize\<close> probes without an empty slot or a match the index has
  cycled and the loop never ends: that is the \<open>None\<close> at zero fuel.
\<close>

fun index_loop :: "('a, 'k) reader \<Rightarrow> 'k comparer \<Rightarrow> 'a HashTable \<Rightarrow> i32 \<Rightarrow> 'k \<Rightarrow> nat \<Rightarrow> i32 \<Rightarrow> nat option" where
  "index_loop kv eqk t inHashID inKey 0 index = None"
| "index_loop kv eqk t inHashID inKey (Suc n) index = do {
     item \<leftarrow> aread (mItems t) (unat index);
     (case item of
        None \<Rightarrow> Some (unat index)
      | Some it \<Rightarrow> do {
          (h, k) \<leftarrow> kv it;
          same \<leftarrow> (if h = inHashID then eqk inKey k else Some False);
          if same then Some (unat index)
          else index_loop kv eqk t inHashID inKey n ((index + 1) AND mHashMask t) }) }"

definition IndexFor :: "('a, 'k) reader \<Rightarrow> 'k comparer \<Rightarrow> 'a HashTable \<Rightarrow> i32 \<Rightarrow> 'k \<Rightarrow> nat option" where
  "IndexFor kv eqk t inHashID inKey =
     index_loop kv eqk t inHashID inKey (mTableSize t) (inHashID AND mHashMask t)"

definition Get_hash :: "('a, 'k) reader \<Rightarrow> 'k comparer \<Rightarrow> 'a HashTable \<Rightarrow> i32 \<Rightarrow> 'k \<Rightarrow> 'a option option" where
  "Get_hash kv eqk t inHashID inKey = do {
     index \<leftarrow> IndexFor kv eqk t inHashID inKey;
     aread (mItems t) index }"

definition Includes :: "('a, 'k) reader \<Rightarrow> 'k comparer \<Rightarrow> 'a HashTable \<Rightarrow> 'a \<Rightarrow> bool option" where
  "Includes kv eqk t inItem = do {
     (h, k) \<leftarrow> kv inItem;
     item \<leftarrow> Get_hash kv eqk t h k;
     Some (item = Some inItem) }"

definition AtIndex :: "'a HashTable \<Rightarrow> nat \<Rightarrow> 'a option option" where
  "AtIndex t inIndex = aread (mItems t) inIndex"

text \<open>
  The re-insertion of the cluster behind a removed item. It stops at an empty slot; scanning all
  \<open>mTableSize\<close> slots without one would never end.
\<close>

fun fix_loop :: "('a, 'k) reader \<Rightarrow> 'k comparer \<Rightarrow> nat \<Rightarrow> nat \<Rightarrow> 'a HashTable \<Rightarrow> 'a HashTable option" where
  "fix_loop kv eqk 0 oldIndex t = None"
| "fix_loop kv eqk (Suc n) oldIndex t =
     (let oldIndex = unat ((of_nat oldIndex + 1) AND mHashMask t)
      in do {
        item \<leftarrow> aread (mItems t) oldIndex;
        (case item of
           None \<Rightarrow> Some t
         | Some oldItem \<Rightarrow> do {
             (h, k) \<leftarrow> kv oldItem;
             newIndex \<leftarrow> IndexFor kv eqk t h k;
             if oldIndex \<noteq> newIndex then do {
               there \<leftarrow> aread (mItems t) newIndex;
               fix_loop kv eqk n oldIndex
                 (t\<lparr>mItems := (mItems t)[oldIndex := there, newIndex := Some oldItem]\<rparr>) }
             else fix_loop kv eqk n oldIndex t }) })"

definition FixCollisionsFrom :: "('a, 'k) reader \<Rightarrow> 'k comparer \<Rightarrow> 'a HashTable \<Rightarrow> nat \<Rightarrow> 'a HashTable option" where
  "FixCollisionsFrom kv eqk t inIndex = fix_loop kv eqk (mTableSize t) inIndex t"

definition Remove :: "('a, 'k) reader \<Rightarrow> 'k comparer \<Rightarrow> 'a HashTable \<Rightarrow> 'a \<Rightarrow> (bool \<times> 'a HashTable) option" where
  "Remove kv eqk t inItem = do {
     (h, k) \<leftarrow> kv inItem;
     index \<leftarrow> IndexFor kv eqk t h k;
     item \<leftarrow> aread (mItems t) index;
     if item \<noteq> Some inItem then Some (False, t)
     else do {
       t \<leftarrow> FixCollisionsFrom kv eqk (t\<lparr>mItems := (mItems t)[index := None]\<rparr>) index;
       Some (True, t\<lparr>mNumItems := mNumItems t - 1\<rparr>) } }"

definition RemoveKey :: "('a, 'k) reader \<Rightarrow> 'k comparer \<Rightarrow> ('k \<Rightarrow> i32 option) \<Rightarrow> 'a HashTable \<Rightarrow> 'k \<Rightarrow> (bool \<times> 'a HashTable) option" where
  "RemoveKey kv eqk hashf t inKey = do {
     h \<leftarrow> hashf inKey;
     item \<leftarrow> Get_hash kv eqk t h inKey;
     (case item of None \<Rightarrow> Some (False, t) | Some it \<Rightarrow> Remove kv eqk t it) }"

text \<open>The second half of \<open>Add\<close>, once there is room.\<close>

definition Add_here :: "('a, 'k) reader \<Rightarrow> 'k comparer \<Rightarrow> 'a HashTable \<Rightarrow> 'a \<Rightarrow> (bool \<times> 'a HashTable) option" where
  "Add_here kv eqk t inItem = do {
     (h, k) \<leftarrow> kv inItem;
     index \<leftarrow> IndexFor kv eqk t h k;
     item \<leftarrow> aread (mItems t) index;
     (case item of
        Some it \<Rightarrow> Some (it = inItem, t)
      | None \<Rightarrow> Some (True, t\<lparr>mItems := (mItems t)[index := Some inItem],
                              mNumItems := mNumItems t + 1\<rparr>)) }"

text \<open>
  \<open>Add\<close> and \<open>Resize\<close> call each other; \<open>depth\<close> bounds how deep, and running out of it is \<open>None\<close>.
  For \<open>HashTable\<close> depth 2 suffices (\<open>Resize\<close> makes room for every old item before it adds one).
\<close>

fun add_all :: "('a HashTable \<Rightarrow> 'a \<Rightarrow> (bool \<times> 'a HashTable) option) \<Rightarrow> 'a option list \<Rightarrow> 'a HashTable \<Rightarrow> 'a HashTable option" where
  "add_all add [] t = Some t"
| "add_all add (None # items) t = add_all add items t"
| "add_all add (Some item # items) t = do { (_, t) \<leftarrow> add t item; add_all add items t }"

definition Resize :: "('a HashTable \<Rightarrow> 'a \<Rightarrow> (bool \<times> 'a HashTable) option) \<Rightarrow> 'a HashTable \<Rightarrow> 'a HashTable option" where
  "Resize add t =
     (let newSize = max (2 * mTableSize t) 32;
          oldSize = mTableSize t;
          oldItems = mItems t;
          t = t\<lparr>mItems := AllocTable newSize, mTableSize := newSize, mMaxItems := newSize div 2,
                mHashMask := of_nat newSize - 1, mNumItems := 0\<rparr>
      in add_all add (take oldSize oldItems) t)"

fun Add_depth :: "('a, 'k) reader \<Rightarrow> 'k comparer \<Rightarrow> nat \<Rightarrow> 'a HashTable \<Rightarrow> 'a \<Rightarrow> (bool \<times> 'a HashTable) option" where
  "Add_depth kv eqk 0 t inItem = None"
| "Add_depth kv eqk (Suc depth) t inItem =
     (if mNumItems t \<ge> mMaxItems t
      then (if \<not> mCanResize t then Some (False, t)
            else do { t \<leftarrow> Resize (Add_depth kv eqk depth) t; Add_here kv eqk t inItem })
      else Add_here kv eqk t inItem)"

definition Add :: "('a, 'k) reader \<Rightarrow> 'k comparer \<Rightarrow> 'a HashTable \<Rightarrow> 'a \<Rightarrow> (bool \<times> 'a HashTable) option" where
  "Add kv eqk t inItem = Add_depth kv eqk 2 t inItem"

section \<open>The two classes\<close>

definition HashTable_Get :: "('a, i32 list) reader \<Rightarrow> 'a HashTable \<Rightarrow> i32 list \<Rightarrow> 'a option option" where
  "HashTable_Get kv t inKey = do { h \<leftarrow> Hash_str4 inKey; Get_hash kv str4eq t h inKey }"

definition int_eqk :: "i32 comparer" where
  "int_eqk a b = Some (a = b)"

definition IntHashTable_IndexFor :: "('a, i32) reader \<Rightarrow> 'a HashTable \<Rightarrow> i32 \<Rightarrow> i32 \<Rightarrow> nat option" where
  "IntHashTable_IndexFor kv t inHashID inKey = IndexFor kv int_eqk t inHashID inKey"

definition IntHashTable_Get :: "('a, i32) reader \<Rightarrow> 'a HashTable \<Rightarrow> i32 \<Rightarrow> 'a option option" where
  "IntHashTable_Get kv t inKey = Get_hash kv int_eqk t (Hash_int inKey) inKey"

definition IntHashTable_Remove :: "('a, i32) reader \<Rightarrow> 'a HashTable \<Rightarrow> 'a \<Rightarrow> (bool \<times> 'a HashTable) option" where
  "IntHashTable_Remove kv t inItem = Remove kv int_eqk t inItem"

text \<open>
  \<open>IntHashTable::Resize\<close> re-adds the items before it updates the size, the limit and the mask: the
  loop's bound \<open>mTableSize\<close> is read again after every nested \<open>Add\<close>. Reading the old array past its
  end is \<open>None\<close>.
\<close>

fun int_resize_loop :: "('a HashTable \<Rightarrow> 'a \<Rightarrow> (bool \<times> 'a HashTable) option) \<Rightarrow> 'a option list \<Rightarrow> nat \<Rightarrow> nat \<Rightarrow> 'a HashTable \<Rightarrow> 'a HashTable option" where
  "int_resize_loop add oldItems 0 i t = None"
| "int_resize_loop add oldItems (Suc fuel) i t =
     (if i < mTableSize t then do {
        item \<leftarrow> aread oldItems i;
        t \<leftarrow> (case item of None \<Rightarrow> Some t | Some it \<Rightarrow> do { (_, t) \<leftarrow> add t it; Some t });
        int_resize_loop add oldItems fuel (Suc i) t }
      else Some t)"

definition IntHashTable_Resize :: "('a HashTable \<Rightarrow> 'a \<Rightarrow> (bool \<times> 'a HashTable) option) \<Rightarrow> 'a HashTable \<Rightarrow> 'a HashTable option" where
  "IntHashTable_Resize add t =
     (let newSize = max (2 * mTableSize t) 32;
          oldItems = mItems t
      in do {
        t \<leftarrow> int_resize_loop add oldItems (Suc (length oldItems)) 0 (t\<lparr>mItems := AllocTable newSize\<rparr>);
        Some (t\<lparr>mTableSize := newSize, mMaxItems := newSize div 2, mHashMask := of_nat newSize - 1\<rparr>) })"

fun IntHashTable_Add_depth :: "('a, i32) reader \<Rightarrow> nat \<Rightarrow> 'a HashTable \<Rightarrow> 'a \<Rightarrow> (bool \<times> 'a HashTable) option" where
  "IntHashTable_Add_depth kv 0 t inItem = None"
| "IntHashTable_Add_depth kv (Suc depth) t inItem =
     (if mNumItems t \<ge> mMaxItems t
      then (if \<not> mCanResize t then Some (False, t)
            else do { t \<leftarrow> IntHashTable_Resize (IntHashTable_Add_depth kv depth) t;
                      Add_here kv int_eqk t inItem })
      else Add_here kv int_eqk t inItem)"

definition IntHashTable_Add :: "('a, i32) reader \<Rightarrow> 'a HashTable \<Rightarrow> 'a \<Rightarrow> (bool \<times> 'a HashTable) option" where
  "IntHashTable_Add kv t inItem = IntHashTable_Add_depth kv 3 t inItem"

section \<open>Cyclic distance\<close>

text \<open>
  \<open>dist N h i\<close> is the number of probes from slot \<open>h\<close> to slot \<open>i\<close>; slot \<open>s\<close> is on the probe path
  from \<open>h\<close> to \<open>i\<close> when it comes strictly before \<open>i\<close>.
\<close>

definition dist :: "nat \<Rightarrow> nat \<Rightarrow> nat \<Rightarrow> nat" where
  "dist N h i = (if h \<le> i then i - h else i + N - h)"

abbreviation on_path :: "nat \<Rightarrow> nat \<Rightarrow> nat \<Rightarrow> nat \<Rightarrow> bool" where
  "on_path N h i s \<equiv> dist N h s < dist N h i"

abbreviation cyc_next :: "nat \<Rightarrow> nat \<Rightarrow> nat" where
  "cyc_next N i \<equiv> Suc i mod N"

lemma cyc_next_cases: "i < N \<Longrightarrow> cyc_next N i = (if Suc i = N then 0 else Suc i)"
  by auto

lemma dist_self [simp]: "dist N i i = 0"
  by (simp add: dist_def)

lemma dist_less: "h < N \<Longrightarrow> i < N \<Longrightarrow> dist N h i < N"
  by (auto simp: dist_def)

lemma dist_inj: "h < N \<Longrightarrow> i < N \<Longrightarrow> j < N \<Longrightarrow> dist N h i = dist N h j \<Longrightarrow> i = j"
  by (auto simp: dist_def split: if_splits)

lemma dist_next:
  "h < N \<Longrightarrow> i < N \<Longrightarrow> cyc_next N i \<noteq> h \<Longrightarrow> dist N h (cyc_next N i) = Suc (dist N h i)"
  by (auto simp: dist_def cyc_next_cases split: if_splits)

lemma dist_from_next:
  "h < N \<Longrightarrow> i < N \<Longrightarrow> i \<noteq> h \<Longrightarrow> dist N (cyc_next N h) i = dist N h i - 1"
  by (auto simp: dist_def cyc_next_cases split: if_splits)

lemma dist_zero_iff: "h < N \<Longrightarrow> i < N \<Longrightarrow> dist N h i = 0 \<longleftrightarrow> h = i"
  by (auto simp: dist_def)

text \<open>A path through \<open>j\<close> that avoids \<open>z\<close> ends in the run of slots between \<open>j\<close> and \<open>z\<close>.\<close>

lemma path_through:
  assumes "h < N" "i < N" "j < N" "z < N"
    and "on_path N h i j" and "\<not> on_path N h i z" and "i \<noteq> z"
  shows "dist N j i < dist N j z"
  using assms by (auto simp: dist_def split: if_splits)

section \<open>Probing\<close>

definition home :: "nat \<Rightarrow> i32 \<Rightarrow> nat" where
  "home n h = unat h mod 2 ^ n"

text \<open>The shape of a table with \<open>2 ^ n\<close> slots.\<close>

definition shape :: "nat \<Rightarrow> 'a HashTable \<Rightarrow> bool" where
  "shape n t \<longleftrightarrow> n < 31 \<and> mTableSize t = 2 ^ n \<and> mHashMask t = 2 ^ n - 1
     \<and> length (mItems t) = 2 ^ n"

lemma mask_index: "shape n t \<Longrightarrow> unat (h AND mHashMask t) = home n h"
  by (simp add: shape_def home_def and_mask_nat)

lemma mask_next:
  assumes "shape n t" and "i < 2 ^ n"
  shows "unat ((of_nat i + 1) AND mHashMask t) = cyc_next (2 ^ n) i"
proof -
  have "(2::nat) ^ n < 2 ^ 31" using assms(1) by (intro power_strict_increasing) (auto simp: shape_def)
  with assms(2) have i: "Suc i < 2 ^ 32" by simp
  have "of_nat i + 1 = (of_nat (Suc i) :: 32 word)" by (simp add: add.commute)
  moreover have "unat (of_nat (Suc i) :: 32 word) = Suc i"
    using i by (simp add: unat_of_nat del: of_nat_Suc)
  ultimately show ?thesis using mask_index [OF assms(1), of "of_nat i + 1"] by (simp add: home_def del: of_nat_Suc)
qed

lemma home_less [simp]: "home n h < 2 ^ n"
  by (simp add: home_def)

text \<open>What the probe sees in a slot.\<close>

definition occupant :: "'a HashTable \<Rightarrow> nat \<Rightarrow> 'a option" where
  "occupant t i = mItems t ! i"

definition matches :: "('a, 'k) reader \<Rightarrow> 'a HashTable \<Rightarrow> i32 \<Rightarrow> 'k \<Rightarrow> nat \<Rightarrow> bool" where
  "matches kv t h k i \<longleftrightarrow> (\<exists>p. occupant t i = Some p \<and> kv p = Some (h, k))"

text \<open>Every occupant can be read, and the comparer decides equality with the key searched for.\<close>

definition readable :: "('a, 'k) reader \<Rightarrow> 'k comparer \<Rightarrow> nat \<Rightarrow> 'a HashTable \<Rightarrow> 'k \<Rightarrow> bool" where
  "readable kv eqk n t key \<longleftrightarrow>
     (\<forall>i < 2 ^ n. \<forall>p. occupant t i = Some p \<longrightarrow>
        (\<exists>h k. kv p = Some (h, k) \<and> eqk key k = Some (key = k)))"

lemma index_loop_finds:
  assumes sh: "shape n t" and rd: "readable kv eqk n t key"
    and j: "j < 2 ^ n" and stop: "occupant t j = None \<or> matches kv t h key j"
    and path: "\<forall>s < 2 ^ n. on_path (2 ^ n) start j s \<longrightarrow>
       occupant t s \<noteq> None \<and> \<not> matches kv t h key s"
    and start: "start < 2 ^ n"
  shows "i < 2 ^ n \<Longrightarrow> dist (2 ^ n) start i \<le> dist (2 ^ n) start j \<Longrightarrow>
    dist (2 ^ n) start j - dist (2 ^ n) start i < fuel \<Longrightarrow> unat idx = i \<Longrightarrow>
    index_loop kv eqk t h key fuel idx = Some j"
proof (induction fuel arbitrary: i idx)
  case 0
  then show ?case by simp
next
  case (Suc fuel)
  have len: "i < length (mItems t)" using sh Suc.prems(1) by (simp add: shape_def)
  show ?case
  proof (cases "i = j")
    case True
    then show ?thesis using stop rd j Suc.prems(4) len
      by (auto simp: occupant_def matches_def readable_def split: option.splits)
  next
    case False
    have lt: "on_path (2 ^ n) start j i"
      using Suc.prems dist_inj [of start "2 ^ n" i j] start j False by (auto simp: le_less)
    then obtain p where p: "occupant t i = Some p" and nm: "\<not> matches kv t h key i"
      using path Suc.prems(1) by auto
    obtain h' k' where kv: "kv p = Some (h', k')" and eq: "eqk key k' = Some (key = k')"
      using rd p Suc.prems(1) unfolding readable_def by blast
    have ne: "\<not> (h' = h \<and> key = k')" using nm p kv by (auto simp: matches_def)
    have nx: "unat ((idx + 1) AND mHashMask t) = cyc_next (2 ^ n) i"
      using mask_next [OF sh Suc.prems(1)] by (simp only: Suc.prems(4) [symmetric] of_nat_unat ucast_id)
    have "cyc_next (2 ^ n) i \<noteq> start"
    proof
      assume a: "cyc_next (2 ^ n) i = start"
      then have "Suc (dist (2 ^ n) start i) = 2 ^ n"
        using Suc.prems(1) start by (auto simp: dist_def cyc_next_cases split: if_splits)
      with lt dist_less [OF start j] show False by simp
    qed
    then have dn: "dist (2 ^ n) start (cyc_next (2 ^ n) i) = Suc (dist (2 ^ n) start i)"
      using dist_next start Suc.prems(1) by blast
    have "index_loop kv eqk t h key fuel ((idx + 1) AND mHashMask t) = Some j"
      by (rule Suc.IH [OF _ _ _ nx]) (use Suc.prems lt dn in auto)
    then show ?thesis using p kv eq ne len Suc.prems(4) by (auto simp: occupant_def)
  qed
qed

lemma IndexFor_finds:
  assumes "shape n t" and "readable kv eqk n t key" and "j < 2 ^ n"
    and "occupant t j = None \<or> matches kv t h key j"
    and "\<forall>s < 2 ^ n. on_path (2 ^ n) (home n h) j s \<longrightarrow> occupant t s \<noteq> None \<and> \<not> matches kv t h key s"
  shows "IndexFor kv eqk t h key = Some j"
proof -
  have size: "mTableSize t = 2 ^ n" using assms(1) by (simp add: shape_def)
  show ?thesis
    unfolding IndexFor_def size
    by (rule index_loop_finds [OF assms home_less, where i = "home n h"])
      (use dist_less [OF home_less assms(3)] in \<open>simp_all add: mask_index [OF assms(1)]\<close>)
qed

section \<open>The table invariant\<close>

text \<open>
  The interface of a table's keys: on the keys that a table may hold, the comparer returns, and
  decides equality.
\<close>

locale key_comparer =
  fixes eqk :: "'k comparer" and valid :: "'k \<Rightarrow> bool"
  assumes eqk_eq: "valid a \<Longrightarrow> valid b \<Longrightarrow> eqk a b = Some (a = b)"

definition key_at :: "('a, 'k) reader \<Rightarrow> 'a HashTable \<Rightarrow> nat \<Rightarrow> (i32 \<times> 'k) option" where
  "key_at kv t i = occupant t i \<bind> kv"

text \<open>Every item is readable, with a key of its own.\<close>

definition slots_ok :: "('a, 'k) reader \<Rightarrow> ('k \<Rightarrow> bool) \<Rightarrow> nat \<Rightarrow> 'a HashTable \<Rightarrow> bool" where
  "slots_ok kv valid n t \<longleftrightarrow>
     (\<forall>i < 2 ^ n. occupant t i \<noteq> None \<longrightarrow> (\<exists>h k. key_at kv t i = Some (h, k) \<and> valid k)) \<and>
     (\<forall>i < 2 ^ n. \<forall>j < 2 ^ n. key_at kv t i \<noteq> None \<longrightarrow> key_at kv t i = key_at kv t j \<longrightarrow> i = j)"

text \<open>No empty slot, \<open>hole\<close> apart, is on the probe path of the item in slot \<open>i\<close>.\<close>

definition reach_but :: "('a, 'k) reader \<Rightarrow> nat \<Rightarrow> 'a HashTable \<Rightarrow> nat set \<Rightarrow> nat \<Rightarrow> bool" where
  "reach_but kv n t hole i \<longleftrightarrow>
     (\<forall>h k. key_at kv t i = Some (h, k) \<longrightarrow>
        (\<forall>s < 2 ^ n. on_path (2 ^ n) (home n h) i s \<longrightarrow> s \<notin> hole \<longrightarrow> occupant t s \<noteq> None))"

definition used :: "'a HashTable \<Rightarrow> nat" where
  "used t = size (filter_mset (\<lambda>x. x \<noteq> None) (mset (mItems t)))"

definition items :: "'a HashTable \<Rightarrow> 'a set" where
  "items t = {p. Some p \<in> set (mItems t)}"

definition table_inv :: "('a, 'k) reader \<Rightarrow> ('k \<Rightarrow> bool) \<Rightarrow> nat \<Rightarrow> 'a HashTable \<Rightarrow> bool" where
  "table_inv kv valid n t \<longleftrightarrow>
     shape n t \<and> 1 \<le> n \<and> mMaxItems t = 2 ^ (n - 1) \<and> mNumItems t = used t \<and> used t \<le> mMaxItems t
     \<and> slots_ok kv valid n t \<and> (\<forall>i < 2 ^ n. reach_but kv n t {} i)"

lemma matches_key_at: "matches kv t h k i \<longleftrightarrow> key_at kv t i = Some (h, k)"
  by (auto simp: matches_def key_at_def bind_Some_iff)

lemma key_at_None: "occupant t i = None \<Longrightarrow> key_at kv t i = None"
  by (simp add: key_at_def)

lemma items_occupant: "length (mItems t) = N \<Longrightarrow> p \<in> items t \<longleftrightarrow> (\<exists>i < N. occupant t i = Some p)"
  by (auto simp: items_def in_set_conv_nth occupant_def)

lemma used_length: "used t = length (filter (\<lambda>x. x \<noteq> None) (mItems t))"
  by (simp add: used_def flip: mset_filter)

lemma empty_slot:
  assumes "used t < length (mItems t)"
  obtains i where "i < length (mItems t)" and "occupant t i = None"
proof -
  have "\<exists>x \<in> set (mItems t). x = None"
  proof (rule ccontr)
    assume "\<not> ?thesis"
    then have "filter_mset (\<lambda>x. x \<noteq> None) (mset (mItems t)) = mset (mItems t)"
      by (auto simp: filter_mset_eq_conv) (metis option.exhaust)
    then show False using assms by (simp add: used_def)
  qed
  then show ?thesis using that by (auto simp: in_set_conv_nth occupant_def)
qed

text \<open>The first slot with a property on the cyclic walk from \<open>a\<close>.\<close>

lemma first_slot:
  assumes "P i" and "i < (N :: nat)"
  obtains j where "P j" and "j < N" and "\<forall>s < N. dist N a s < dist N a j \<longrightarrow> \<not> P s"
proof -
  obtain j where "P j \<and> j < N" and "\<forall>y. P y \<and> y < N \<longrightarrow> dist N a j \<le> dist N a y"
    using ex_has_least_nat [of "\<lambda>j. P j \<and> j < N" i "dist N a"] assms by blast
  then show ?thesis using that by (meson not_le)
qed

context key_comparer
begin

lemma slots_readable:
  assumes "slots_ok kv valid n t" and "valid key"
  shows "readable kv eqk n t key"
  unfolding readable_def
proof (intro allI impI)
  fix i p assume "i < 2 ^ n" and p: "occupant t i = Some p"
  then obtain h k where "key_at kv t i = Some (h, k)" "valid k"
    using assms(1) unfolding slots_ok_def by blast
  then show "\<exists>h k. kv p = Some (h, k) \<and> eqk key k = Some (key = k)"
    using p eqk_eq [OF assms(2)] by (auto simp: key_at_def)
qed

text \<open>The probe finds a key that is stored.\<close>

lemma IndexFor_present:
  assumes sh: "shape n t" and ok: "slots_ok kv valid n t" and i: "i < 2 ^ n"
    and k: "key_at kv t i = Some (h, k)" "valid k" and re: "reach_but kv n t {} i"
  shows "IndexFor kv eqk t h k = Some i"
proof (rule IndexFor_finds [OF sh slots_readable [OF ok k(2)] i])
  show "occupant t i = None \<or> matches kv t h k i" using k by (simp add: matches_key_at)
  show "\<forall>s < 2 ^ n. on_path (2 ^ n) (home n h) i s \<longrightarrow> occupant t s \<noteq> None \<and> \<not> matches kv t h k s"
  proof (intro allI impI conjI)
    fix s assume s: "s < 2 ^ n" "on_path (2 ^ n) (home n h) i s"
    then show "occupant t s \<noteq> None" using re k unfolding reach_but_def by blast
    have "s \<noteq> i" using s by auto
    then show "\<not> matches kv t h k s" using ok s(1) i k(1) unfolding slots_ok_def matches_key_at
      by (metis option.distinct(1))
  qed
qed

text \<open>On the walk from its home, the first empty slot is where a key that was not met goes.\<close>

lemma IndexFor_hole:
  assumes sh: "shape n t" and ok: "slots_ok kv valid n t" and v: "valid k" and i: "i < 2 ^ n"
    and e: "occupant t i = None"
    and path: "\<forall>s < 2 ^ n. on_path (2 ^ n) (home n h) i s \<longrightarrow>
      occupant t s \<noteq> None \<and> key_at kv t s \<noteq> Some (h, k)"
  shows "IndexFor kv eqk t h k = Some i"
  by (rule IndexFor_finds [OF sh slots_readable [OF ok v] i])
    (use e path in \<open>auto simp: matches_key_at\<close>)

lemma IndexFor_absent:
  assumes sh: "shape n t" and ok: "slots_ok kv valid n t" and v: "valid k"
    and room: "used t < 2 ^ n" and abs: "\<forall>i < 2 ^ n. key_at kv t i \<noteq> Some (h, k)"
  obtains i where "IndexFor kv eqk t h k = Some i" and "i < 2 ^ n" and "occupant t i = None"
    and "\<forall>s < 2 ^ n. on_path (2 ^ n) (home n h) i s \<longrightarrow> occupant t s \<noteq> None"
proof -
  have len: "length (mItems t) = 2 ^ n" using sh by (simp add: shape_def)
  obtain e where "e < 2 ^ n" "occupant t e = None" using empty_slot [of t] room len by metis
  then obtain i where i: "occupant t i = None" "i < 2 ^ n"
    and first: "\<forall>s < 2 ^ n. on_path (2 ^ n) (home n h) i s \<longrightarrow> occupant t s \<noteq> None"
    using first_slot [of "\<lambda>i. occupant t i = None" e "2 ^ n" "home n h"] by metis
  have "IndexFor kv eqk t h k = Some i"
    by (rule IndexFor_hole [OF sh ok v i(2) i(1)]) (use first abs in blast)
  then show ?thesis using that i first by blast
qed

end

text \<open>
  The re-insertion loop behind a removed item. \<open>o\<close> is the slot processed last, \<open>e\<close> the hole, \<open>z\<close>
  the next empty slot, where the loop ends. The items from \<open>o\<close> to \<open>z\<close> are still to be
  processed: only they may have the hole on their probe path.
\<close>

lemma cyc_step:
  assumes "e < N" "d < N" "z < N" "dist N e d < dist N e z"
  shows "cyc_next N d < N" and "cyc_next N d \<noteq> e"
    and "dist N e (cyc_next N d) = Suc (dist N e d)"
    and "Suc (dist N (cyc_next N d) z) = dist N d z"
    and "dist N d (cyc_next N d) = 1"
    and "dist N e (cyc_next N d) = dist N e z \<longleftrightarrow> cyc_next N d = z"
  using assms by (auto simp: dist_def cyc_next_cases split: if_splits)

lemma dist_trans:
  assumes "a < N" "b < N" "c < N" "s < N" "dist N a b \<le> dist N a c" "dist N b s < dist N b c"
  shows "dist N a s = dist N a b + dist N b s" and "dist N a s < dist N a c"
  using assms by (auto simp: dist_def split: if_splits)

lemma dist_shift:
  assumes "d < N" "i < N" "z < N" "d \<noteq> z" "i \<noteq> d" "cyc_next N d \<noteq> d"
  shows "dist N d i = Suc (dist N (cyc_next N d) i)"
  using assms by (auto simp: dist_def cyc_next_cases split: if_splits)

abbreviation pending :: "nat \<Rightarrow> nat \<Rightarrow> nat \<Rightarrow> nat \<Rightarrow> bool" where
  "pending N d z i \<equiv> 0 < dist N d i \<and> dist N d i < dist N d z"

lemma pending_next:
  assumes "d < N" "i < N" "z < N" "d \<noteq> z" "cyc_next N d \<noteq> z"
  shows "pending N (cyc_next N d) z i \<longleftrightarrow> pending N d z i \<and> i \<noteq> cyc_next N d"
    and "pending N d z (cyc_next N d)"
  using assms by (auto simp: dist_def cyc_next_cases split: if_splits)

definition fix_state :: "('a, 'k) reader \<Rightarrow> nat \<Rightarrow> nat \<Rightarrow> nat \<Rightarrow> nat \<Rightarrow> 'a HashTable \<Rightarrow> bool" where
  "fix_state kv n e d z t \<longleftrightarrow>
     e < 2 ^ n \<and> d < 2 ^ n \<and> z < 2 ^ n \<and> occupant t e = None \<and> occupant t z = None
     \<and> dist (2 ^ n) e d < dist (2 ^ n) e z
     \<and> (\<forall>s < 2 ^ n. pending (2 ^ n) e z s \<longrightarrow> occupant t s \<noteq> None)
     \<and> (\<forall>i < 2 ^ n. pending (2 ^ n) d z i \<longrightarrow> reach_but kv n t {e} i)
     \<and> (\<forall>i < 2 ^ n. \<not> pending (2 ^ n) d z i \<longrightarrow> reach_but kv n t {} i)"

definition swap_slots :: "'a HashTable \<Rightarrow> nat \<Rightarrow> nat \<Rightarrow> 'a \<Rightarrow> 'a HashTable" where
  "swap_slots t d e it = t\<lparr>mItems := (mItems t)[d := mItems t ! e, e := Some it]\<rparr>"

lemma occupant_swap_slots:
  assumes "d < length (mItems t)" "e < length (mItems t)" "occupant t e = None" "d \<noteq> e"
  shows "occupant (swap_slots t d e it) i =
    (if i = e then Some it else if i = d then None else occupant t i)"
  using assms by (auto simp: swap_slots_def occupant_def nth_list_update)

lemma mset_swap_slots:
  assumes "d < length (mItems t)" "e < length (mItems t)" "occupant t d = Some it"
  shows "mset (mItems (swap_slots t d e it)) = mset (mItems t)"
proof -
  have "Some it = mItems t ! d" using assms(3) by (simp add: occupant_def)
  then show ?thesis using mset_swap [OF assms(2,1)]
    by (simp add: swap_slots_def)
qed

lemma slots_ok_swap:
  assumes ok: "slots_ok kv valid n t" and len: "length (mItems t) = 2 ^ n"
    and d: "d < 2 ^ n" and e: "e < 2 ^ n" and oc: "occupant t e = None" "occupant t d = Some it"
  shows "slots_ok kv valid n (swap_slots t d e it)"
proof -
  have ne: "d \<noteq> e" using oc by auto
  define r where "r i = (if i = e then d else if i = d then e else i)" for i
  have occ: "occupant (swap_slots t d e it) i = occupant t (r i)" for i
    using occupant_swap_slots [of d t e it i] len d e oc ne by (auto simp: r_def)
  then have key: "key_at kv (swap_slots t d e it) i = key_at kv t (r i)" for i
    by (simp add: key_at_def)
  have r: "r i < 2 ^ n" if "i < 2 ^ n" for i using that d e by (auto simp: r_def)
  have inj: "i = j" if "r i = r j" for i j using that ne by (auto simp: r_def split: if_splits)
  show ?thesis
    unfolding slots_ok_def
  proof (intro conjI allI impI)
    fix i assume "i < 2 ^ n" "occupant (swap_slots t d e it) i \<noteq> None"
    then show "\<exists>h k. key_at kv (swap_slots t d e it) i = Some (h, k) \<and> valid k"
      using ok r [of i] unfolding slots_ok_def occ key by blast
  next
    fix i j assume "i < 2 ^ n" "j < 2 ^ n" "key_at kv (swap_slots t d e it) i \<noteq> None"
      "key_at kv (swap_slots t d e it) i = key_at kv (swap_slots t d e it) j"
    then have "r i = r j" using ok r [of i] r [of j] unfolding slots_ok_def key by blast
    then show "i = j" by (rule inj)
  qed
qed

lemma fix_state_stay:
  assumes fs: "fix_state kv n e d z t" and dz: "cyc_next (2 ^ n) d \<noteq> z"
    and k: "key_at kv t (cyc_next (2 ^ n) d) = Some (h, k)"
    and off: "\<not> on_path (2 ^ n) (home n h) (cyc_next (2 ^ n) d) e"
  shows "fix_state kv n e (cyc_next (2 ^ n) d) z t"
proof -
  let ?N = "2 ^ n :: nat" and ?d = "cyc_next (2 ^ n) d"
  note f = fs [unfolded fix_state_def]
  have b: "e < ?N" "d < ?N" "z < ?N" "dist ?N e d < dist ?N e z" using f by blast+
  note c = cyc_step [OF b]
  have ndz: "d \<noteq> z" using b(4) by auto
  have "reach_but kv n t {e} ?d" using f c(1) pending_next(2) [OF b(2) c(1) b(3) ndz dz] by blast
  then have d: "reach_but kv n t {} ?d" using k off unfolding reach_but_def by auto
  have "reach_but kv n t {e} i" if "i < ?N" "pending ?N ?d z i" for i
    using f that pending_next(1) [OF b(2) that(1) b(3) ndz dz] by blast
  moreover have "reach_but kv n t {} i" if "i < ?N" "\<not> pending ?N ?d z i" for i
    using f d that pending_next(1) [OF b(2) that(1) b(3) ndz dz] by blast
  moreover have "dist ?N e ?d < dist ?N e z" using c(3,6) b(4) dz by simp
  ultimately show ?thesis using f c(1) unfolding fix_state_def by blast
qed

lemma fix_state_swap:
  assumes fs: "fix_state kv n e d z t" and dz: "cyc_next (2 ^ n) d \<noteq> z"
    and it: "occupant t (cyc_next (2 ^ n) d) = Some it" and k: "kv it = Some (h, k)"
    and on: "on_path (2 ^ n) (home n h) (cyc_next (2 ^ n) d) e" and len: "length (mItems t) = 2 ^ n"
  shows "fix_state kv n (cyc_next (2 ^ n) d) (cyc_next (2 ^ n) d) z (swap_slots t (cyc_next (2 ^ n) d) e it)"
proof -
  let ?N = "2 ^ n :: nat" and ?d = "cyc_next (2 ^ n) d"
  let ?t = "swap_slots t ?d e it"
  note f = fs [unfolded fix_state_def]
  have b: "e < ?N" "d < ?N" "z < ?N" "dist ?N e d < dist ?N e z" using f by blast+
  note c = cyc_step [OF b]
  have ndz: "d \<noteq> z" using b(4) by auto
  have e0: "occupant t e = None" and z0: "occupant t z = None" using f by blast+
  have ze: "z \<noteq> e" using b(4) by auto
  have occ: "occupant ?t i = (if i = e then Some it else if i = ?d then None else occupant t i)" for i
    by (rule occupant_swap_slots) (use len b(1) c(1,2) e0 in auto)
  have key: "i \<noteq> e \<Longrightarrow> i \<noteq> ?d \<Longrightarrow> key_at kv ?t i = key_at kv t i" for i
    by (simp add: key_at_def occ)
  have kd: "key_at kv ?t ?d = None" and ke: "key_at kv ?t e = Some (h, k)"
    using c(2) k by (simp_all add: key_at_def occ)
  have kd0: "key_at kv t ?d = Some (h, k)" using it k by (simp add: key_at_def)
  have rd: "reach_but kv n t {e} ?d" using f c(1) pending_next(2) [OF b(2) c(1) b(3) ndz dz] by blast
  have le: "dist ?N e ?d \<le> dist ?N e z" using c(3) b(4) by simp
  have through: "pending ?N e z s" if "s < ?N" "pending ?N ?d z s" for s
    using dist_trans [OF b(1) c(1) b(3) that(1) le] that(2) by simp
  have run: "occupant ?t s \<noteq> None" if "s < ?N" "pending ?N ?d z s" for s
  proof -
    have "s \<noteq> ?d" using that by auto
    moreover have "pending ?N e z s" using through [OF that] .
    ultimately show ?thesis using f that(1) by (auto simp: occ)
  qed
  have pend: "reach_but kv n ?t {?d} i" if i: "i < ?N" "pending ?N ?d z i" for i
  proof -
    have p: "pending ?N d z i" "i \<noteq> ?d" using i pending_next(1) [OF b(2) i(1) b(3) ndz dz] by blast+
    have "i \<noteq> e" using through [OF i] by auto
    then show ?thesis using f i(1) p key unfolding reach_but_def by (auto simp: occ)
  qed
  have settled: "reach_but kv n ?t {} i" if i: "i < ?N" "\<not> pending ?N ?d z i" for i
  proof (cases "i = e \<or> i = ?d")
    case True
    have "occupant ?t s \<noteq> None" if "s < ?N" "on_path ?N (home n h) e s" for s
    proof -
      have "on_path ?N (home n h) ?d s" "s \<noteq> ?d" "s \<noteq> e" using that on by auto
      then show ?thesis using rd kd0 that(1) unfolding reach_but_def by (auto simp: occ)
    qed
    then show ?thesis using True kd ke unfolding reach_but_def by auto
  next
    case False
    then have np: "\<not> pending ?N d z i" using i pending_next(1) [OF b(2) i(1) b(3) ndz dz] by blast
    then have r: "reach_but kv n t {} i" using f i(1) by blast
    have "occupant ?t s \<noteq> None" if ki: "key_at kv t i = Some (h', k')" and s: "s < ?N"
      "on_path ?N (home n h') i s" for h' k' s
    proof -
      have iz: "i \<noteq> z" using ki z0 by (auto simp: key_at_None)
      have "\<not> on_path ?N (home n h') i z" using r ki z0 b(3) unfolding reach_but_def by blast
      then have "s \<noteq> ?d" using path_through [OF home_less i(1) c(1) b(3) _ _ iz] s i(2) False dist_zero_iff [OF c(1) i(1)]
        by auto
      then show ?thesis using r ki s unfolding reach_but_def by (auto simp: occ)
    qed
    then show ?thesis using False key unfolding reach_but_def by auto
  qed
  have "dist ?N ?d ?d < dist ?N ?d z" using dz dist_zero_iff [OF c(1) b(3)] by simp
  then show ?thesis using c(1) b(3) z0 ze dz run pend settled unfolding fix_state_def
    by (auto simp: occ c(2))
qed

lemma used_mset_cong: "mset (mItems t) = mset (mItems t') \<Longrightarrow> used t = used t'"
  by (simp add: used_def)

lemma items_mset_cong: "mset (mItems t) = mset (mItems t') \<Longrightarrow> items t = items t'"
  unfolding items_def by (metis set_mset_mset)

lemma shape_swap [simp]: "shape n (swap_slots t d e it) = shape n t"
  by (simp add: shape_def swap_slots_def)

context key_comparer
begin

lemma fix_loop_repairs:
  assumes "shape n t" and "slots_ok kv valid n t" and "fix_state kv n e d z t"
    and "dist (2 ^ n) d z \<le> fuel"
  shows "\<exists>xs. fix_loop kv eqk fuel d t = Some (t\<lparr>mItems := xs\<rparr>) \<and> mset xs = mset (mItems t)
    \<and> length xs = 2 ^ n \<and> slots_ok kv valid n (t\<lparr>mItems := xs\<rparr>)
    \<and> (\<forall>i < 2 ^ n. reach_but kv n (t\<lparr>mItems := xs\<rparr>) {} i)"
  using assms
proof (induction fuel arbitrary: d e t)
  case 0
  then show ?case using dist_zero_iff [of d "2 ^ n" z] by (auto simp: fix_state_def)
next
  case (Suc fuel)
  note sh = Suc.prems(1) and ok = Suc.prems(2) and fs = Suc.prems(3)
  let ?N = "2 ^ n :: nat" and ?d = "cyc_next (2 ^ n) d"
  note f = fs [unfolded fix_state_def]
  have b: "e < ?N" "d < ?N" "z < ?N" "dist ?N e d < dist ?N e z" using f by blast+
  note c = cyc_step [OF b]
  have len: "length (mItems t) = ?N" and size: "mTableSize t = ?N" using sh by (simp_all add: shape_def)
  have nx: "unat ((of_nat d + 1) AND mHashMask t) = ?d" by (rule mask_next [OF sh b(2)])
  have ndz: "d \<noteq> z" using b(4) by auto
  show ?case
  proof (cases "?d = z")
    case True
    have "fix_loop kv eqk (Suc fuel) d t = Some t"
      using nx True f len b(3) by (simp add: occupant_def)
    moreover have "reach_but kv n t {} i" if "i < ?N" for i
    proof -
      have "dist ?N d z = 1" using c(4) True by simp
      then have "\<not> pending ?N d z i" by auto
      then show ?thesis using f that by blast
    qed
    ultimately show ?thesis using ok len by (intro exI [of _ "mItems t"]) simp
  next
    case False
    have "pending ?N e z ?d" using c(1,3,6) b(4) False by auto
    then obtain it where it: "occupant t ?d = Some it" using f c(1) by blast
    obtain h k where k: "key_at kv t ?d = Some (h, k)" "valid k"
      using ok c(1) it unfolding slots_ok_def by blast
    then have kv: "kv it = Some (h, k)" using it by (simp add: key_at_def)
    have e0: "occupant t e = None" using f by blast
    have rd: "reach_but kv n t {e} ?d" using f c(1) pending_next(2) [OF b(2) c(1) b(3) ndz False] by blast
    have fuel: "dist ?N ?d z \<le> fuel" using c(4) Suc.prems(4) by simp
    show ?thesis
    proof (cases "on_path ?N (home n h) ?d e")
      case on: True
      have ix: "IndexFor kv eqk t h k = Some e"
      proof (rule IndexFor_hole [OF sh ok k(2) b(1) e0], intro allI impI)
        fix s assume s: "s < ?N" "on_path ?N (home n h) e s"
        then have "on_path ?N (home n h) ?d s" "s \<noteq> ?d" "s \<noteq> e" using on by auto
        then show "occupant t s \<noteq> None \<and> key_at kv t s \<noteq> Some (h, k)"
          using rd k s(1) c(1) ok unfolding reach_but_def slots_ok_def
          by (metis empty_iff insert_iff option.distinct(1))
      qed
      let ?t = "swap_slots t ?d e it"
      have step: "fix_loop kv eqk (Suc fuel) d t = fix_loop kv eqk fuel ?d ?t"
        using nx it kv ix c(1,2) b(1) len by (simp add: occupant_def swap_slots_def Let_def)
      have ms: "mset (mItems ?t) = mset (mItems t)"
        by (rule mset_swap_slots) (use len c(1) b(1) it in auto)
      have ex: "\<exists>xs. fix_loop kv eqk fuel ?d ?t = Some (?t\<lparr>mItems := xs\<rparr>) \<and> mset xs = mset (mItems ?t)
        \<and> length xs = 2 ^ n \<and> slots_ok kv valid n (?t\<lparr>mItems := xs\<rparr>)
        \<and> (\<forall>i < 2 ^ n. reach_but kv n (?t\<lparr>mItems := xs\<rparr>) {} i)"
      proof (rule Suc.IH)
        show "shape n ?t" using sh by simp
        show "slots_ok kv valid n ?t" by (rule slots_ok_swap [OF ok len c(1) b(1) e0 it])
        show "fix_state kv n ?d ?d z ?t" by (rule fix_state_swap [OF fs False it kv on len])
      qed (rule fuel)
      have "?t\<lparr>mItems := xs\<rparr> = t\<lparr>mItems := xs\<rparr>" for xs by (simp add: swap_slots_def)
      then show ?thesis using ex unfolding step ms by simp
    next
      case off: False
      have "reach_but kv n t {} ?d" using rd k off unfolding reach_but_def by auto
      then have ix: "IndexFor kv eqk t h k = Some ?d" by (rule IndexFor_present [OF sh ok c(1) k])
      have step: "fix_loop kv eqk (Suc fuel) d t = fix_loop kv eqk fuel ?d t"
        using nx it kv ix c(1) len by (simp add: occupant_def)
      show ?thesis unfolding step
        by (rule Suc.IH [OF sh ok fix_state_stay [OF fs False k(1) off] fuel])
    qed
  qed
qed

lemma invD:
  assumes "table_inv kv valid n t"
  shows "shape n t" "slots_ok kv valid n t" "used t < 2 ^ n" "length (mItems t) = 2 ^ n"
    "i < 2 ^ n \<Longrightarrow> reach_but kv n t {} i"
proof -
  have "used t \<le> 2 ^ (n - 1)" "1 \<le> n" using assms by (simp_all add: table_inv_def)
  moreover have "(2::nat) ^ (n - 1) < 2 ^ n" using \<open>1 \<le> n\<close> by (intro power_strict_increasing) auto
  ultimately show "used t < 2 ^ n" by (meson le_less_trans)
qed (use assms in \<open>auto simp: table_inv_def shape_def\<close>)

lemma item_slot:
  assumes "table_inv kv valid n t" and "p \<in> items t"
  obtains i h k where "i < 2 ^ n" "occupant t i = Some p" "kv p = Some (h, k)" "valid k"
    "key_at kv t i = Some (h, k)"
proof -
  obtain i where i: "i < 2 ^ n" "occupant t i = Some p"
    using assms(2) invD(4) [OF assms(1)] by (auto simp: items_def in_set_conv_nth occupant_def)
  then obtain h k where "key_at kv t i = Some (h, k)" "valid k"
    using invD(2) [OF assms(1)] unfolding slots_ok_def by blast
  then show ?thesis using that i by (simp add: key_at_def)
qed

lemma slot_item: "table_inv kv valid n t \<Longrightarrow> i < 2 ^ n \<Longrightarrow> occupant t i = Some p \<Longrightarrow> p \<in> items t"
  using invD(4) by (fastforce simp: items_def in_set_conv_nth occupant_def)

lemma IndexFor_item:
  assumes inv: "table_inv kv valid n t" and p: "p \<in> items t" "kv p = Some (h, k)"
  obtains i where "IndexFor kv eqk t h k = Some i" "i < 2 ^ n" "occupant t i = Some p"
proof -
  obtain i h' k' where i: "i < 2 ^ n" "occupant t i = Some p" "kv p = Some (h', k')" "valid k'"
    "key_at kv t i = Some (h', k')" by (rule item_slot [OF inv p(1)])
  have "IndexFor kv eqk t h k = Some i"
    by (rule IndexFor_present [OF invD(1,2) [OF inv] i(1) _ _ invD(5) [OF inv i(1)]])
      (use i p in auto)
  then show ?thesis using that i by blast
qed

lemma no_key_at:
  assumes "table_inv kv valid n t" and "\<forall>q \<in> items t. kv q \<noteq> Some (h, k)" and "i < 2 ^ n"
  shows "key_at kv t i \<noteq> Some (h, k)"
  using assms slot_item [OF assms(1,3)] by (auto simp: key_at_def bind_Some_iff)

lemma IndexFor_new:
  assumes inv: "table_inv kv valid n t" and v: "valid k"
    and new: "\<forall>q \<in> items t. kv q \<noteq> Some (h, k)"
  obtains i where "IndexFor kv eqk t h k = Some i" "i < 2 ^ n" "occupant t i = None"
    "\<forall>s < 2 ^ n. on_path (2 ^ n) (home n h) i s \<longrightarrow> occupant t s \<noteq> None"
  by (rule IndexFor_absent [OF invD(1,2) [OF inv] v invD(3) [OF inv]])
    (use no_key_at [OF inv new] that in blast)+

text \<open>Items are determined by their keys.\<close>

lemma items_unique:
  assumes inv: "table_inv kv valid n t" and "p \<in> items t" "q \<in> items t" "kv p = kv q"
  shows "p = q"
proof -
  obtain i h k where i: "i < 2 ^ n" "occupant t i = Some p" "kv p = Some (h, k)"
    "key_at kv t i = Some (h, k)" by (rule item_slot [OF inv assms(2)])
  obtain j where j: "j < 2 ^ n" "occupant t j = Some q" "key_at kv t j = Some (h, k)"
    by (rule item_slot [OF inv assms(3)]) (use i(3) assms(4) in auto)
  have "i = j" using invD(2) [OF inv] i(1,4) j(1,3) unfolding slots_ok_def by force
  then show ?thesis using i j by simp
qed

lemma Get_hash_law:
  assumes inv: "table_inv kv valid n t" and v: "valid k"
  shows "\<exists>r. Get_hash kv eqk t h k = Some r \<and> (\<forall>p. r = Some p \<longleftrightarrow> p \<in> items t \<and> kv p = Some (h, k))"
proof (cases "\<exists>p \<in> items t. kv p = Some (h, k)")
  case True
  then obtain p where p: "p \<in> items t" "kv p = Some (h, k)" by blast
  obtain i where i: "IndexFor kv eqk t h k = Some i" "i < 2 ^ n" "occupant t i = Some p"
    by (rule IndexFor_item [OF inv p])
  then have "Get_hash kv eqk t h k = Some (Some p)"
    using invD(4) [OF inv] by (simp add: Get_hash_def occupant_def)
  then show ?thesis using p items_unique [OF inv] by (intro exI [of _ "Some p"]) auto
next
  case False
  obtain i where i: "IndexFor kv eqk t h k = Some i" "i < 2 ^ n" "occupant t i = None"
    by (rule IndexFor_new [OF inv v, of h]) (use False in auto)
  then have "Get_hash kv eqk t h k = Some None"
    using invD(4) [OF inv] by (simp add: Get_hash_def occupant_def)
  then show ?thesis using False by (intro exI [of _ None]) auto
qed

lemma Add_here_old:
  assumes inv: "table_inv kv valid n t" and q: "q \<in> items t" "kv q = Some (h, k)" "kv p = Some (h, k)"
  shows "Add_here kv eqk t p = Some (q = p, t)"
proof -
  obtain i where i: "IndexFor kv eqk t h k = Some i" "i < 2 ^ n" "occupant t i = Some q"
    by (rule IndexFor_item [OF inv q(1,2)])
  then show ?thesis using invD(4) [OF inv] q by (simp add: Add_here_def occupant_def)
qed

lemma Add_here_new:
  assumes inv: "table_inv kv valid n t" and room: "mNumItems t < mMaxItems t"
    and p: "kv p = Some (h, k)" "valid k" and new: "\<forall>q \<in> items t. kv q \<noteq> Some (h, k)"
  obtains t' where "Add_here kv eqk t p = Some (True, t')" and "table_inv kv valid n t'"
    and "items t' = insert p (items t)" and "mNumItems t' = mNumItems t + 1"
    and "mCanResize t' = mCanResize t"
proof -
  note len = invD(4) [OF inv] and ok = invD(2) [OF inv]
  obtain i where ix: "IndexFor kv eqk t h k = Some i" and i: "i < 2 ^ n" and e: "occupant t i = None"
    and path: "\<forall>s < 2 ^ n. on_path (2 ^ n) (home n h) i s \<longrightarrow> occupant t s \<noteq> None"
    by (rule IndexFor_new [OF inv p(2) new])
  let ?t = "t\<lparr>mItems := (mItems t)[i := Some p], mNumItems := mNumItems t + 1\<rparr>"
  have add: "Add_here kv eqk t p = Some (True, ?t)"
    using p ix e i len by (simp add: Add_here_def occupant_def)
  have ms: "mset (mItems ?t) = add_mset (Some p) (mset (mItems t) - {#None#})"
    and mem: "None \<in># mset (mItems t)"
    using i e len by (auto simp: mset_update occupant_def nth_mem simp flip: e)
  have used: "used ?t = used t + 1"
    unfolding used_def ms using mem by simp
  have occ: "occupant ?t j = (if j = i then Some p else occupant t j)" for j
    using i len by (simp add: occupant_def nth_list_update)
  have key: "key_at kv ?t j = (if j = i then Some (h, k) else key_at kv t j)" for j
    unfolding key_at_def occ using p by simp
  have nk: "key_at kv t j \<noteq> Some (h, k)" if "j < 2 ^ n" for j
    by (rule no_key_at [OF inv new that])
  have "slots_ok kv valid n ?t"
    using ok p(2) nk nk [symmetric] i unfolding slots_ok_def occ key by (auto split: if_splits)
  moreover have "reach_but kv n ?t {} j" if "j < 2 ^ n" for j
    using invD(5) [OF inv that] path unfolding reach_but_def occ key by (auto split: if_splits)
  ultimately have "table_inv kv valid n ?t"
    using inv used room by (auto simp: table_inv_def shape_def)
  moreover have "items ?t = insert p (items t)"
  proof (rule set_eqI)
    fix q
    have "length (mItems ?t) = 2 ^ n" using len by simp
    then have "q \<in> items ?t \<longleftrightarrow> (\<exists>j < 2 ^ n. occupant ?t j = Some q)" by (rule items_occupant)
    also have "\<dots> \<longleftrightarrow> q \<in> insert p (items t)"
      unfolding occ using items_occupant [OF len, of q] i e
      by (metis (no_types, lifting) insert_iff option.distinct(1) option.inject)
    finally show "q \<in> items ?t \<longleftrightarrow> q \<in> insert p (items t)" .
  qed
  ultimately show ?thesis using that [OF add] by simp
qed

lemma Remove_law:
  assumes inv: "table_inv kv valid n t" and p: "p \<in> items t"
  obtains t' where "Remove kv eqk t p = Some (True, t')" and "table_inv kv valid n t'"
    and "items t' = items t - {p}" and "mNumItems t' = mNumItems t - 1"
    and "mCanResize t' = mCanResize t"
proof -
  note len = invD(4) [OF inv] and ok = invD(2) [OF inv] and sh = invD(1) [OF inv]
  obtain i h k where i: "i < 2 ^ n" "occupant t i = Some p" "kv p = Some (h, k)" "valid k"
    "key_at kv t i = Some (h, k)" by (rule item_slot [OF inv p])
  have ix: "IndexFor kv eqk t h k = Some i"
    by (rule IndexFor_present [OF sh ok i(1,5,4) invD(5) [OF inv i(1)]])
  let ?t = "t\<lparr>mItems := (mItems t)[i := None]\<rparr>"
  have occ: "occupant ?t j = (if j = i then None else occupant t j)" for j
    using i len by (simp add: occupant_def nth_list_update)
  have key: "key_at kv ?t j = (if j = i then None else key_at kv t j)" for j
    by (simp add: key_at_def occ)
  obtain e where "e < 2 ^ n" "occupant t e = None"
    using empty_slot [of t] invD(3,4) [OF inv] by metis
  then have "occupant ?t e = None \<and> e \<noteq> i" using i(2) occ by auto
  then obtain z where z: "z < 2 ^ n" "occupant ?t z = None" "z \<noteq> i"
    and first: "\<forall>s < 2 ^ n. dist (2 ^ n) i s < dist (2 ^ n) i z \<longrightarrow> \<not> (occupant ?t s = None \<and> s \<noteq> i)"
    using first_slot [of "\<lambda>j. occupant ?t j = None \<and> j \<noteq> i" e "2 ^ n" i] \<open>e < 2 ^ n\<close> by metis
  have ok': "slots_ok kv valid n ?t" using ok unfolding slots_ok_def occ key by auto
  have re: "reach_but kv n ?t {i} j" if "j < 2 ^ n" for j
    using invD(5) [OF inv that] unfolding reach_but_def occ key by (auto split: if_splits)
  have re0: "reach_but kv n ?t {} j" if j: "j < 2 ^ n" "\<not> pending (2 ^ n) i z j" for j
    unfolding reach_but_def
  proof (intro allI impI)
    fix h' k' s assume k': "key_at kv ?t j = Some (h', k')" and s: "s < 2 ^ n"
      "on_path (2 ^ n) (home n h') j s"
    then have ji: "j \<noteq> i" and kj: "key_at kv t j = Some (h', k')" by (auto simp: key split: if_splits)
    have jz: "j \<noteq> z" using k' z(2) by (auto simp: key_at_None)
    have r: "\<forall>s < 2 ^ n. on_path (2 ^ n) (home n h') j s \<longrightarrow> occupant t s \<noteq> None"
      using invD(5) [OF inv j(1)] kj unfolding reach_but_def by blast
    have "occupant t z = None" using z by (simp add: occ)
    then have "\<not> on_path (2 ^ n) (home n h') j z" using r z(1) by blast
    then have "\<not> on_path (2 ^ n) (home n h') j i"
      using path_through [OF home_less j(1) i(1) z(1) _ _ jz] j(2) ji dist_zero_iff [OF i(1) j(1)] by auto
    then show "occupant ?t s \<noteq> None" using r s occ by auto
  qed
  have "fix_state kv n i i z ?t"
    unfolding fix_state_def
    using i(1) z z(3) [symmetric] occ first re re0 dist_zero_iff [OF i(1) z(1)] by auto
  then obtain xs where xs: "fix_loop kv eqk (2 ^ n) i ?t = Some (?t\<lparr>mItems := xs\<rparr>)"
    and ms: "mset xs = mset (mItems ?t)" and fin: "length xs = 2 ^ n"
      "slots_ok kv valid n (?t\<lparr>mItems := xs\<rparr>)" "\<forall>i < 2 ^ n. reach_but kv n (?t\<lparr>mItems := xs\<rparr>) {} i"
    using fix_loop_repairs [of n ?t kv i i z "2 ^ n"] sh ok' dist_less [OF i(1) z(1)]
    by (auto simp: shape_def)
  let ?u = "t\<lparr>mItems := xs, mNumItems := mNumItems t - 1\<rparr>"
  have rem: "Remove kv eqk t p = Some (True, ?u)"
    using i ix len xs sh by (simp add: Remove_def FixCollisionsFrom_def occupant_def shape_def)
  have oi: "mItems t ! i = Some p" using i by (simp add: occupant_def)
  have mem: "Some p \<in># mset (mItems t)" using i(1) len nth_mem [of i "mItems t"] oi by simp
  have mu: "mset xs = add_mset None (mset (mItems t) - {#Some p#})"
    using ms i(1) len oi by (simp add: mset_update)
  have used: "used ?u = used t - 1" unfolding used_def using mu mem by (simp add: size_Diff_singleton)
  have only: "j = i" if "j < 2 ^ n" "occupant t j = Some p" for j
  proof -
    have "key_at kv t j = key_at kv t i" "key_at kv t j \<noteq> None" using that i by (simp_all add: key_at_def)
    then show ?thesis using ok that(1) i(1) unfolding slots_ok_def by blast
  qed
  have "items ?u = items ?t" using arg_cong [OF ms, of set_mset] by (simp add: items_def)
  moreover have "q \<in> items ?t \<longleftrightarrow> q \<in> items t - {p}" for q
  proof -
    have "length (mItems ?t) = 2 ^ n" using len by simp
    then have "q \<in> items ?t \<longleftrightarrow> (\<exists>j < 2 ^ n. occupant ?t j = Some q)" by (rule items_occupant)
    also have "\<dots> \<longleftrightarrow> (\<exists>j < 2 ^ n. occupant t j = Some q \<and> j \<noteq> i)" by (auto simp: occ)
    also have "\<dots> \<longleftrightarrow> (\<exists>j < 2 ^ n. occupant t j = Some q) \<and> q \<noteq> p" using only i(2) by auto
    finally show ?thesis using items_occupant [OF len] by blast
  qed
  ultimately have its: "items ?u = items t - {p}" by blast
  have "table_inv kv valid n ?u"
    using inv used fin by (auto simp: table_inv_def shape_def slots_ok_def reach_but_def key_at_def occupant_def)
  then show ?thesis using that [OF rem] its by simp
qed

end

definition keys_apart :: "('a, 'k) reader \<Rightarrow> 'a option list \<Rightarrow> bool" where
  "keys_apart kv xs \<longleftrightarrow> (\<forall>i < length xs. \<forall>j < length xs. \<forall>p q.
     xs ! i = Some p \<longrightarrow> xs ! j = Some q \<longrightarrow> kv p = kv q \<longrightarrow> i = j)"

lemma keys_apart_Cons:
  assumes "keys_apart kv (x # xs)"
  shows "keys_apart kv xs" and "x = Some p \<Longrightarrow> Some q \<in> set xs \<Longrightarrow> kv p \<noteq> kv q"
proof -
  show "keys_apart kv xs"
    using assms unfolding keys_apart_def by (metis Suc_less_eq length_Cons nat.inject nth_Cons_Suc)
  show "kv p \<noteq> kv q" if x: "x = Some p" and y: "Some q \<in> set xs"
  proof
    assume eq: "kv p = kv q"
    obtain j where j: "j < length xs" "xs ! j = Some q" using y by (auto simp: in_set_conv_nth)
    show False using assms x j eq unfolding keys_apart_def
      by (metis Suc_less_eq length_Cons nat.distinct(1) nth_Cons_0 nth_Cons_Suc zero_less_Suc)
  qed
qed

lemma table_inv_new:
  assumes "1 \<le> n" "n < 31" "mTableSize t = 2 ^ n" "mItems t = AllocTable (2 ^ n)"
    "mHashMask t = of_nat (2 ^ n) - 1" "mMaxItems t = 2 ^ (n - 1)" "mNumItems t = 0"
  shows "table_inv kv valid n t" and "items t = {}"
  using assms by (auto simp: table_inv_def shape_def used_length AllocTable_def slots_ok_def
      reach_but_def key_at_def occupant_def items_def)

lemma HashTable_new_inv:
  assumes "1 \<le> n" "n < 31"
  shows "table_inv kv valid n (HashTable_new (2 ^ (n - 1)) r)" "items (HashTable_new (2 ^ (n - 1)) r) = {}"
proof -
  have "2 * 2 ^ (n - 1) = (2::nat) ^ n" using assms(1) by (cases n) auto
  then show "table_inv kv valid n (HashTable_new (2 ^ (n - 1)) r)" "items (HashTable_new (2 ^ (n - 1)) r) = {}"
    using table_inv_new [of n "HashTable_new (2 ^ (n - 1)) r"] assms by (auto simp: HashTable_new_def)
qed

context key_comparer
begin

lemma add_all_law:
  assumes "table_inv kv valid n t" and "keys_apart kv xs"
    and "\<forall>p. Some p \<in> set xs \<longrightarrow> (\<exists>h k. kv p = Some (h, k) \<and> valid k)"
    and "\<forall>p q. Some p \<in> set xs \<longrightarrow> q \<in> items t \<longrightarrow> kv q \<noteq> kv p"
    and "mNumItems t + length (filter (\<lambda>x. x \<noteq> None) xs) \<le> mMaxItems t"
  shows "\<exists>t'. add_all (Add_depth kv eqk (Suc d)) xs t = Some t' \<and> table_inv kv valid n t'
    \<and> items t' = items t \<union> {p. Some p \<in> set xs}
    \<and> mNumItems t' = mNumItems t + length (filter (\<lambda>x. x \<noteq> None) xs) \<and> mCanResize t' = mCanResize t"
  using assms
proof (induction xs arbitrary: t)
  case Nil
  then show ?case by simp
next
  case (Cons x xs)
  note ap = keys_apart_Cons [OF Cons.prems(2)]
  show ?case
  proof (cases x)
    case None
    then show ?thesis using Cons.IH [OF Cons.prems(1) ap(1)] Cons.prems(3-5) by auto
  next
    case (Some p)
    obtain h k where k: "kv p = Some (h, k)" "valid k" using Cons.prems(3) Some by auto
    have room: "mNumItems t < mMaxItems t" using Cons.prems(5) Some by simp
    have new: "\<forall>q \<in> items t. kv q \<noteq> Some (h, k)" using Cons.prems(4) Some k by auto
    obtain u where u: "Add_here kv eqk t p = Some (True, u)" "table_inv kv valid n u"
      "items u = insert p (items t)" "mNumItems u = mNumItems t + 1" "mCanResize u = mCanResize t"
      by (rule Add_here_new [OF Cons.prems(1) room k new])
    have mx: "mMaxItems u = mMaxItems t" using u(2) Cons.prems(1) by (simp add: table_inv_def)
    have "\<exists>t'. add_all (Add_depth kv eqk (Suc d)) xs u = Some t' \<and> table_inv kv valid n t'
      \<and> items t' = items u \<union> {p. Some p \<in> set xs}
      \<and> mNumItems t' = mNumItems u + length (filter (\<lambda>x. x \<noteq> None) xs) \<and> mCanResize t' = mCanResize u"
    proof (rule Cons.IH [OF u(2) ap(1)])
      show "\<forall>p. Some p \<in> set xs \<longrightarrow> (\<exists>h k. kv p = Some (h, k) \<and> valid k)" using Cons.prems(3) by auto
      show "\<forall>p q. Some p \<in> set xs \<longrightarrow> q \<in> items u \<longrightarrow> kv q \<noteq> kv p"
        using Cons.prems(4) ap(2) Some u(3) by auto
      show "mNumItems u + length (filter (\<lambda>x. x \<noteq> None) xs) \<le> mMaxItems u"
        using Cons.prems(5) Some u(4) mx by simp
    qed
    moreover have "Add_depth kv eqk (Suc d) t p = Some (True, u)" using room u(1) by simp
    moreover have "{q. Some q \<in> set (x # xs)} = insert p {q. Some q \<in> set xs}" using Some by auto
    ultimately show ?thesis using Some u by (auto simp del: Add_depth.simps)
  qed
qed

lemma Resize_law:
  assumes inv: "table_inv kv valid n t" and n: "n < 30" "n' = max (Suc n) 5"
  shows "\<exists>t'. Resize (Add_depth kv eqk (Suc d)) t = Some t' \<and> table_inv kv valid n' t'
    \<and> items t' = items t \<and> mNumItems t' = mNumItems t \<and> mCanResize t' = mCanResize t"
proof -
  note sh = invD(1) [OF inv] and ok = invD(2) [OF inv] and len = invD(4) [OF inv]
  have size: "max (2 * mTableSize t) 32 = 2 ^ n'"
  proof -
    have two: "2 * mTableSize t = 2 ^ Suc n" using sh by (simp add: shape_def)
    show ?thesis
    proof (cases "Suc n \<le> 5")
      case True
      then have "(2::nat) ^ Suc n \<le> 2 ^ 5" by (intro power_increasing) auto
      then show ?thesis using two True n(2) by (simp add: max_def)
    next
      case False
      then have "(2::nat) ^ 5 \<le> 2 ^ Suc n" by (intro power_increasing) auto
      then show ?thesis using two False n(2) by (simp add: max_def)
    qed
  qed
  have half: "(2 ^ n') div 2 = (2::nat) ^ (n' - 1)" using n(2) by (cases n') auto
  define u where "u = t\<lparr>mItems := AllocTable (2 ^ n'), mTableSize := 2 ^ n', mMaxItems := 2 ^ (n' - 1),
    mHashMask := of_nat (2 ^ n') - 1, mNumItems := 0\<rparr>"
  have u: "table_inv kv valid n' u" "items u = {}"
    using table_inv_new [of n' u] n by (simp_all add: u_def)
  have resize: "Resize (Add_depth kv eqk (Suc d)) t = add_all (Add_depth kv eqk (Suc d)) (mItems t) u"
    using size half sh by (simp add: Resize_def u_def shape_def Let_def)
  have "keys_apart kv (mItems t)"
    unfolding keys_apart_def len
  proof (intro allI impI)
    fix i j p q assume i: "i < 2 ^ n" "mItems t ! i = Some p" and j: "j < 2 ^ n" "mItems t ! j = Some q"
      and eq: "kv p = kv q"
    have "occupant t i \<noteq> None" using i by (simp add: occupant_def)
    then have "key_at kv t i \<noteq> None" using ok i(1) unfolding slots_ok_def by blast
    moreover have "key_at kv t i = key_at kv t j" using i j eq by (simp add: key_at_def occupant_def)
    ultimately show "i = j" using ok i j unfolding slots_ok_def by blast
  qed
  moreover have "\<exists>h k. kv p = Some (h, k) \<and> valid k" if "Some p \<in> set (mItems t)" for p
  proof -
    have "p \<in> items t" using that by (simp add: items_def)
    then show ?thesis by (rule item_slot [OF inv]) blast
  qed
  moreover have cnt: "length (filter (\<lambda>x. x \<noteq> None) (mItems t)) = mNumItems t"
    using inv by (simp add: table_inv_def used_length)
  moreover have "mNumItems u + mNumItems t \<le> mMaxItems u"
  proof -
    have "mNumItems t \<le> 2 ^ (n - 1)" using inv by (simp add: table_inv_def)
    also have "\<dots> \<le> 2 ^ (n' - 1)" using n by (intro power_increasing) auto
    finally show ?thesis by (simp add: u_def)
  qed
  ultimately have "\<exists>t'. add_all (Add_depth kv eqk (Suc d)) (mItems t) u = Some t' \<and> table_inv kv valid n' t'
    \<and> items t' = items u \<union> {p. Some p \<in> set (mItems t)}
    \<and> mNumItems t' = mNumItems u + length (filter (\<lambda>x. x \<noteq> None) (mItems t)) \<and> mCanResize t' = mCanResize u"
    by (intro add_all_law [OF u(1)]) (simp_all add: u(2))
  then show ?thesis unfolding resize using u(2) cnt by (auto simp: u_def items_def)
qed

text \<open>\<open>Add\<close> on every branch.\<close>

lemma Add_room: "mNumItems t < mMaxItems t \<Longrightarrow> Add kv eqk t p = Add_here kv eqk t p"
  by (simp add: Add_def numeral_2_eq_2)

lemma Add_full: "mMaxItems t \<le> mNumItems t \<Longrightarrow> \<not> mCanResize t \<Longrightarrow> Add kv eqk t p = Some (False, t)"
  by (simp add: Add_def numeral_2_eq_2)

lemma Add_new:
  assumes inv: "table_inv kv valid n t" and p: "kv p = Some (h, k)" "valid k"
    and new: "\<forall>q \<in> items t. kv q \<noteq> Some (h, k)"
    and room: "mNumItems t < mMaxItems t \<or> (mCanResize t \<and> n < 30)"
  obtains n' t' where "Add kv eqk t p = Some (True, t')" and "table_inv kv valid n' t'"
    and "items t' = insert p (items t)" and "mNumItems t' = mNumItems t + 1"
    and "mCanResize t' = mCanResize t" and "n' = n \<or> (mMaxItems t \<le> mNumItems t \<and> n' = max (Suc n) 5)"
proof (cases "mNumItems t < mMaxItems t")
  case True
  show ?thesis
    by (rule Add_here_new [OF inv True p new]) (use that Add_room [OF True] in auto)
next
  case False
  define n' where "n' = max (Suc n) 5"
  have n: "n < 30" using room False by simp
  obtain u where u: "Resize (Add_depth kv eqk (Suc 0)) t = Some u" "table_inv kv valid n' u"
    "items u = items t" "mNumItems u = mNumItems t" "mCanResize u = mCanResize t"
    using Resize_law [OF inv n n'_def, of 0] by blast
  have "mNumItems u < mMaxItems u"
  proof -
    have "mNumItems u \<le> 2 ^ (n - 1)" using u(4) inv by (simp add: table_inv_def)
    also have "(2::nat) ^ (n - 1) < 2 ^ (n' - 1)" by (intro power_strict_increasing) (auto simp: n'_def)
    finally show ?thesis using u(2) by (simp add: table_inv_def)
  qed
  then obtain t' where t': "Add_here kv eqk u p = Some (True, t')" "table_inv kv valid n' t'"
    "items t' = insert p (items u)" "mNumItems t' = mNumItems u + 1" "mCanResize t' = mCanResize u"
    using Add_here_new [OF u(2) _ p] new u(3) by metis
  have "Add kv eqk t p = Add_here kv eqk u p"
    using False room u(1) by (simp add: Add_def numeral_2_eq_2)
  then show ?thesis using that t' u False by (auto simp: n'_def)
qed

lemma Remove_absent:
  assumes inv: "table_inv kv valid n t" and p: "kv p = Some (h, k)" "valid k" and new: "p \<notin> items t"
  shows "Remove kv eqk t p = Some (False, t)"
proof -
  note len = invD(4) [OF inv]
  obtain i where "IndexFor kv eqk t h k = Some i" "i < 2 ^ n" "occupant t i \<noteq> Some p"
  proof (cases "\<exists>q \<in> items t. kv q = Some (h, k)")
    case True
    then obtain q where "q \<in> items t" "kv q = Some (h, k)" by blast
    then show ?thesis using that new by (metis IndexFor_item [OF inv] option.inject)
  next
    case False
    then show ?thesis using that IndexFor_new [OF inv p(2), of h] by (metis option.distinct(1))
  qed
  then show ?thesis using p len by (simp add: Remove_def occupant_def)
qed

end

end
