(* ===== verification/SC_Tables.thy ===== *)
theory SC_Tables
  imports SC_HashTable
begin

text \<open>
  What the tables of \<open>SC_HashTable\<close> are for: the interface of a finite map (locale
  \<open>keyed_store\<close>, and \<open>bounded_store\<close> for a table of fixed capacity), its interpretation on
  \<open>IntHashTable\<close> and \<open>HashTable\<close>, and the properties of the two classes.
\<close>

section \<open>Tables as finite maps\<close>

text \<open>
  What the server relies on: a table is a finite map from keys to items. \<open>view\<close> is the map a table
  stands for, \<open>room\<close> says that another key fits.
\<close>

locale keyed_store =
  fixes invar :: "'t \<Rightarrow> bool" and view :: "'t \<Rightarrow> 'k \<Rightarrow> 'a option" and room :: "'t \<Rightarrow> bool"
    and get :: "'t \<Rightarrow> 'k \<Rightarrow> 'a option option"
    and add :: "'t \<Rightarrow> 'a \<Rightarrow> (bool \<times> 't) option" and remove :: "'t \<Rightarrow> 'a \<Rightarrow> (bool \<times> 't) option"
    and key :: "'a \<Rightarrow> 'k option" and okay :: "'k \<Rightarrow> bool"
  assumes get_view: "invar t \<Longrightarrow> okay k \<Longrightarrow> get t k = Some (view t k)"
    and add_fresh: "invar t \<Longrightarrow> key p = Some k \<Longrightarrow> okay k \<Longrightarrow> room t \<Longrightarrow> view t k = None \<Longrightarrow>
      \<exists>t'. add t p = Some (True, t') \<and> invar t' \<and> view t' = (view t)(k \<mapsto> p)"
    and remove_stored: "invar t \<Longrightarrow> key p = Some k \<Longrightarrow> okay k \<Longrightarrow> view t k = Some p \<Longrightarrow>
      \<exists>t'. remove t p = Some (True, t') \<and> invar t' \<and> view t' = (view t)(k := None)"
    and remove_other: "invar t \<Longrightarrow> key p = Some k \<Longrightarrow> okay k \<Longrightarrow> view t k \<noteq> Some p \<Longrightarrow>
      remove t p = Some (False, t)"

text \<open>A table of fixed capacity: a full one refuses every item.\<close>

locale bounded_store = keyed_store +
  fixes capacity :: nat
  assumes room_capacity: "invar t \<Longrightarrow> room t \<longleftrightarrow> card (dom (view t)) < capacity"
    and add_stored: "invar t \<Longrightarrow> key p = Some k \<Longrightarrow> okay k \<Longrightarrow> room t \<Longrightarrow> view t k = Some q \<Longrightarrow>
      add t p = Some (q = p, t)"
    and add_full: "invar t \<Longrightarrow> \<not> room t \<Longrightarrow> add t p = Some (False, t)"

datatype ('a, 'k) table_op = Op_Get 'k | Op_Add 'a | Op_Remove 'a

datatype 'a table_answer = Found "'a option" | Done bool

fun run_ops :: "('t \<Rightarrow> 'k \<Rightarrow> 'a option option) \<Rightarrow> ('t \<Rightarrow> 'a \<Rightarrow> (bool \<times> 't) option) \<Rightarrow> ('t \<Rightarrow> 'a \<Rightarrow> (bool \<times> 't) option)
    \<Rightarrow> ('a, 'k) table_op list \<Rightarrow> 't \<Rightarrow> 'a table_answer list option" where
  "run_ops get add remove [] t = Some []"
| "run_ops get add remove (Op_Get k # ops) t =
     do { r \<leftarrow> get t k; rs \<leftarrow> run_ops get add remove ops t; Some (Found r # rs) }"
| "run_ops get add remove (Op_Add p # ops) t =
     do { (b, t) \<leftarrow> add t p; rs \<leftarrow> run_ops get add remove ops t; Some (Done b # rs) }"
| "run_ops get add remove (Op_Remove p # ops) t =
     do { (b, t) \<leftarrow> remove t p; rs \<leftarrow> run_ops get add remove ops t; Some (Done b # rs) }"

text \<open>The same operations on a finite map of at most \<open>cap\<close> keys.\<close>

fun map_ops :: "('a \<Rightarrow> 'k option) \<Rightarrow> nat \<Rightarrow> ('a, 'k) table_op list \<Rightarrow> ('k \<Rightarrow> 'a option) \<Rightarrow> 'a table_answer list" where
  "map_ops key cap [] m = []"
| "map_ops key cap (Op_Get k # ops) m = Found (m k) # map_ops key cap ops m"
| "map_ops key cap (Op_Add p # ops) m =
     (let k = the (key p)
      in if cap \<le> card (dom m) then Done False # map_ops key cap ops m
         else case m k of
             None \<Rightarrow> Done True # map_ops key cap ops (m(k \<mapsto> p))
           | Some q \<Rightarrow> Done (q = p) # map_ops key cap ops m)"
| "map_ops key cap (Op_Remove p # ops) m =
     (let k = the (key p)
      in if m k = Some p then Done True # map_ops key cap ops (m(k := None))
         else Done False # map_ops key cap ops m)"

fun op_okay :: "('a \<Rightarrow> 'k option) \<Rightarrow> ('k \<Rightarrow> bool) \<Rightarrow> ('a, 'k) table_op \<Rightarrow> bool" where
  "op_okay key okay (Op_Get k) = okay k"
| "op_okay key okay (Op_Add p) = (case key p of None \<Rightarrow> False | Some k \<Rightarrow> okay k)"
| "op_okay key okay (Op_Remove p) = (case key p of None \<Rightarrow> False | Some k \<Rightarrow> okay k)"

context bounded_store
begin

lemma ops_refine_map:
  "invar t \<Longrightarrow> \<forall>c \<in> set ops. op_okay key okay c \<Longrightarrow>
    run_ops get add remove ops t = Some (map_ops key capacity ops (view t))"
proof (induction ops arbitrary: t)
  case (Cons c ops)
  show ?case
  proof (cases c)
    case (Op_Get k)
    then show ?thesis using Cons get_view by simp
  next
    case (Op_Add p)
    then obtain k where k: "key p = Some k" "okay k" using Cons.prems by (auto split: option.splits)
    show ?thesis
    proof (cases "room t")
      case full: False
      then show ?thesis using Cons Op_Add k add_full [OF Cons.prems(1) full] room_capacity
        by (simp add: not_less)
    next
      case room: True
      then have "\<not> capacity \<le> card (dom (view t))" using room_capacity Cons.prems(1) by simp
      moreover note Op_Add k Cons.prems Cons.IH
      ultimately show ?thesis
        using add_fresh [OF Cons.prems(1) k room] add_stored [OF Cons.prems(1) k room]
        by (cases "view t k") auto
    qed
  next
    case (Op_Remove p)
    then obtain k where k: "key p = Some k" "okay k" using Cons.prems by (auto split: option.splits)
    show ?thesis
    proof (cases "view t k = Some p")
      case True
      then show ?thesis using remove_stored [OF Cons.prems(1) k True] Op_Remove k Cons by auto
    next
      case False
      then show ?thesis using remove_other [OF Cons.prems(1) k False] Op_Remove k Cons by auto
    qed
  qed
qed simp

end

section \<open>The server's tables\<close>

text \<open>
  A table whose items carry the hash of their own key (\<open>hashf\<close>), and the map it stands for.
\<close>

definition store_key :: "('a, 'k) reader \<Rightarrow> ('k \<Rightarrow> i32) \<Rightarrow> 'a \<Rightarrow> 'k option" where
  "store_key kv hashf p = (case kv p of Some (h, k) \<Rightarrow> if h = hashf k then Some k else None | None \<Rightarrow> None)"

definition store_inv :: "('a, 'k) reader \<Rightarrow> ('k \<Rightarrow> bool) \<Rightarrow> ('k \<Rightarrow> i32) \<Rightarrow> nat \<Rightarrow> 'a HashTable \<Rightarrow> bool" where
  "store_inv kv valid hashf n t \<longleftrightarrow> table_inv kv valid n t \<and> (\<forall>p \<in> items t. store_key kv hashf p \<noteq> None)"

definition store_view :: "('a, 'k) reader \<Rightarrow> ('k \<Rightarrow> i32) \<Rightarrow> 'a HashTable \<Rightarrow> 'k \<Rightarrow> 'a option" where
  "store_view kv hashf t k =
     List.find (\<lambda>p. kv p = Some (hashf k, k)) (List.map_filter (\<lambda>x. x) (mItems t))"

lemma option_eq_by_Some: "(\<And>q. x = Some q \<longleftrightarrow> y = Some q) \<Longrightarrow> x = y"
  by (cases x; cases y) auto

lemma store_key_Some: "store_key kv hashf p = Some k \<longleftrightarrow> kv p = Some (hashf k, k)"
  by (auto simp: store_key_def split: option.splits)

context key_comparer
begin

lemma store_view_Some:
  assumes "table_inv kv valid n t"
  shows "store_view kv hashf t k = Some p \<longleftrightarrow> p \<in> items t \<and> kv p = Some (hashf k, k)"
proof -
  let ?ps = "List.map_filter (\<lambda>x. x) (mItems t)"
  have set: "set ?ps = items t"
    by (force simp: items_def map_filter_def)
  show ?thesis
  proof
    assume "store_view kv hashf t k = Some p"
    then show "p \<in> items t \<and> kv p = Some (hashf k, k)"
      using set by (auto simp: store_view_def find_Some_iff)
  next
    assume p: "p \<in> items t \<and> kv p = Some (hashf k, k)"
    then obtain q where "store_view kv hashf t k = Some q"
      using set unfolding store_view_def by (metis (mono_tags, lifting) find_None_iff not_None_eq)
    moreover from this have "q \<in> items t" "kv q = Some (hashf k, k)"
      using set by (auto simp: store_view_def find_Some_iff)
    ultimately show "store_view kv hashf t k = Some p"
      using items_unique [OF assms, of p q] p by simp
  qed
qed

lemma store_view_None:
  assumes "table_inv kv valid n t"
  shows "store_view kv hashf t k = None \<longleftrightarrow> (\<forall>p \<in> items t. kv p \<noteq> Some (hashf k, k))"
  using store_view_Some [OF assms] by (metis option.exhaust option.distinct(1))

lemma card_view:
  assumes inv: "store_inv kv valid hashf n t"
  shows "card (dom (store_view kv hashf t)) = mNumItems t"
proof -
  have tinv: "table_inv kv valid n t" using inv by (simp add: store_inv_def)
  note len = invD(4) [OF tinv] and ok = invD(2) [OF tinv]
  let ?S = "{i. i < 2 ^ n \<and> occupant t i \<noteq> None}"
  let ?f = "\<lambda>i. the (store_key kv hashf (the (occupant t i)))"
  have at: "store_key kv hashf p = Some k \<Longrightarrow> occupant t i = Some p \<Longrightarrow> key_at kv t i = Some (hashf k, k)" for p k i
    by (simp add: store_key_Some key_at_def)
  have sk: "\<exists>p k. occupant t i = Some p \<and> store_key kv hashf p = Some k" if "i \<in> ?S" for i
    using that inv slot_item [OF tinv, of i] unfolding store_inv_def by auto
  have inj: "inj_on ?f ?S"
  proof (rule inj_onI)
    fix i j assume i: "i \<in> ?S" and j: "j \<in> ?S" and eq: "?f i = ?f j"
    obtain p k q l where p: "occupant t i = Some p" "store_key kv hashf p = Some k"
      and q: "occupant t j = Some q" "store_key kv hashf q = Some l" using sk [OF i] sk [OF j] by blast
    have "key_at kv t i \<noteq> None" "key_at kv t i = key_at kv t j"
      using at [OF p(2,1)] at [OF q(2,1)] p q eq by auto
    then show "i = j" using ok i j unfolding slots_ok_def by blast
  qed
  have img: "?f ` ?S = dom (store_view kv hashf t)"
  proof (intro set_eqI iffI)
    fix k assume "k \<in> ?f ` ?S"
    then obtain i where i: "i \<in> ?S" "k = ?f i" by blast
    then obtain p where p: "occupant t i = Some p" "store_key kv hashf p = Some k" using sk by fastforce
    then have "store_view kv hashf t k = Some p"
      using store_view_Some [OF tinv] slot_item [OF tinv _ p(1)] i(1) by (simp add: store_key_Some)
    then show "k \<in> dom (store_view kv hashf t)" by blast
  next
    fix k assume "k \<in> dom (store_view kv hashf t)"
    then obtain p where p: "p \<in> items t" "kv p = Some (hashf k, k)"
      using store_view_Some [OF tinv] by blast
    then obtain i where i: "i < 2 ^ n" "occupant t i = Some p" using items_occupant [OF len] by blast
    then have "k = ?f i" using p(2) by (simp add: store_key_def)
    then show "k \<in> ?f ` ?S" using i by blast
  qed
  have "card (dom (store_view kv hashf t)) = card ?S"
    using card_image [OF inj] unfolding img .
  also have "card ?S = used t"
    unfolding used_length length_filter_conv_card len occupant_def by (rule refl)
  also have "\<dots> = mNumItems t" using tinv by (simp add: table_inv_def)
  finally show ?thesis .
qed

end

definition packed :: "i32 list \<Rightarrow> bool" where
  "packed k \<longleftrightarrow> str4len k = Some (length k)"

lemma packed_simps [simp]:
  "\<not> packed []"
  "packed (c # cs) \<longleftrightarrow> (if c AND kLASTCHAR = 0 then cs = [] else packed cs)"
  by (auto simp: packed_def split: if_splits)

lemma str4eq_packed: "packed a \<Longrightarrow> packed b \<Longrightarrow> str4eq a b = Some (a = b)"
  by (induction a b rule: str4eq.induct) (auto split: if_splits)

lemma Hash_str4_packed: "packed k \<Longrightarrow> \<exists>h. Hash_str4 k = Some h"
proof -
  have "packed k \<Longrightarrow> \<exists>r. hash_str4_loop h k = Some r" for h
    by (induction k arbitrary: h) (auto simp: Let_def split: if_splits)
  then show "packed k \<Longrightarrow> \<exists>h. Hash_str4 k = Some h" by (simp add: Hash_str4_def)
qed

interpretation int_keys: key_comparer int_eqk "\<lambda>_. True"
  by unfold_locales (simp add: int_eqk_def)

interpretation str4_keys: key_comparer str4eq packed
  by unfold_locales (rule str4eq_packed)

text \<open>The table of nodes: integer keys, a fixed number of slots.\<close>

definition int_inv :: "('a, i32) reader \<Rightarrow> nat \<Rightarrow> 'a HashTable \<Rightarrow> bool" where
  "int_inv kv n t \<longleftrightarrow> store_inv kv (\<lambda>_. True) Hash_int n t \<and> \<not> mCanResize t"

context key_comparer
begin

lemma Get_hash_view:
  assumes ti: "table_inv kv valid n t" and v: "valid k"
  shows "Get_hash kv eqk t (hashf k) k = Some (store_view kv hashf t k)"
proof -
  obtain r where r: "Get_hash kv eqk t (hashf k) k = Some r"
    "\<forall>p. r = Some p \<longleftrightarrow> p \<in> items t \<and> kv p = Some (hashf k, k)"
    using Get_hash_law [OF ti v] by blast
  have "r = store_view kv hashf t k"
    by (rule option_eq_by_Some) (use r(2) store_view_Some [OF ti] in simp)
  then show ?thesis using r(1) by simp
qed

lemma add_keeps:
  assumes inv: "store_inv kv valid hashf n t" and k: "store_key kv hashf p = Some k" "valid k"
    and room: "mNumItems t < mMaxItems t \<or> (mCanResize t \<and> n < 30)"
    and fresh: "store_view kv hashf t k = None"
  obtains n' t' where "Add kv eqk t p = Some (True, t')" and "store_inv kv valid hashf n' t'"
    and "store_view kv hashf t' = (store_view kv hashf t)(k \<mapsto> p)"
    and "mNumItems t' = mNumItems t + 1"
    and "mCanResize t' = mCanResize t" and "n' = n \<or> (mMaxItems t \<le> mNumItems t \<and> n' = max (Suc n) 5)"
proof -
  have tinv: "table_inv kv valid n t" using inv by (simp add: store_inv_def)
  have kv: "kv p = Some (hashf k, k)" using k by (simp add: store_key_Some)
  have new: "\<forall>q \<in> items t. kv q \<noteq> Some (hashf k, k)" using fresh store_view_None [OF tinv] by blast
  obtain n' t' where t': "Add kv eqk t p = Some (True, t')" "table_inv kv valid n' t'"
    "items t' = insert p (items t)" "mNumItems t' = mNumItems t + 1" "mCanResize t' = mCanResize t"
    "n' = n \<or> (mMaxItems t \<le> mNumItems t \<and> n' = max (Suc n) 5)"
    by (rule Add_new [OF tinv kv k(2) new room])
  have v: "store_view kv hashf t' = (store_view kv hashf t)(k \<mapsto> p)"
  proof (intro ext option_eq_by_Some)
    fix l q
    have "store_view kv hashf t' l = Some q \<longleftrightarrow> (q = p \<or> q \<in> items t) \<and> kv q = Some (hashf l, l)"
      using store_view_Some [OF t'(2)] t'(3) by auto
    also have "\<dots> \<longleftrightarrow> ((store_view kv hashf t)(k \<mapsto> p)) l = Some q"
      using store_view_Some [OF tinv] kv new by auto
    finally show "store_view kv hashf t' l = Some q \<longleftrightarrow> ((store_view kv hashf t)(k \<mapsto> p)) l = Some q" .
  qed
  have "store_inv kv valid hashf n' t'" using t'(2,3) inv k by (simp add: store_inv_def)
  then show ?thesis by (rule that [OF t'(1) _ v t'(4,5,6)])
qed

lemma remove_keeps:
  assumes inv: "store_inv kv valid hashf n t" and k: "store_key kv hashf p = Some k"
    and stored: "store_view kv hashf t k = Some p"
  obtains t' where "Remove kv eqk t p = Some (True, t')" and "store_inv kv valid hashf n t'"
    and "store_view kv hashf t' = (store_view kv hashf t)(k := None)"
    and "mCanResize t' = mCanResize t"
proof -
  have tinv: "table_inv kv valid n t" using inv by (simp add: store_inv_def)
  have kv: "kv p = Some (hashf k, k)" using k by (simp add: store_key_Some)
  have p: "p \<in> items t" using stored store_view_Some [OF tinv] by blast
  obtain t' where t': "Remove kv eqk t p = Some (True, t')" "table_inv kv valid n t'"
    "items t' = items t - {p}" "mCanResize t' = mCanResize t"
    by (rule Remove_law [OF tinv p])
  have v: "store_view kv hashf t' = (store_view kv hashf t)(k := None)"
  proof (intro ext option_eq_by_Some)
    fix l q
    have "store_view kv hashf t' l = Some q \<longleftrightarrow> (q \<noteq> p \<and> q \<in> items t) \<and> kv q = Some (hashf l, l)"
      using store_view_Some [OF t'(2)] t'(3) by auto
    also have "\<dots> \<longleftrightarrow> l \<noteq> k \<and> store_view kv hashf t l = Some q"
      using store_view_Some [OF tinv] kv items_unique [OF tinv p, of q] by (metis option.inject prod.inject)
    also have "\<dots> \<longleftrightarrow> ((store_view kv hashf t)(k := None)) l = Some q" by simp
    finally show "store_view kv hashf t' l = Some q \<longleftrightarrow> ((store_view kv hashf t)(k := None)) l = Some q" .
  qed
  have "store_inv kv valid hashf n t'" using t'(2,3) inv by (simp add: store_inv_def)
  then show ?thesis by (rule that [OF t'(1) _ v t'(4)])
qed

end

lemma store_inv_new:
  assumes "1 \<le> n" "n < 31"
  shows "store_inv kv valid hashf n (HashTable_new (2 ^ (n - 1)) r)"
    and "store_view kv hashf (HashTable_new (2 ^ (n - 1)) r) = Map.empty"
proof -
  show "store_inv kv valid hashf n (HashTable_new (2 ^ (n - 1)) r)"
    unfolding store_inv_def HashTable_new_inv(2) [OF assms] using HashTable_new_inv(1) [OF assms] by simp
  show "store_view kv hashf (HashTable_new (2 ^ (n - 1)) r) = Map.empty"
    by (simp add: store_view_def HashTable_new_def AllocTable_def map_filter_def fun_eq_iff)
qed

lemma IntHashTable_Add_fixed:
  assumes "\<not> mCanResize t"
  shows "IntHashTable_Add kv t p = Add kv int_eqk t p"
  using assms by (simp add: IntHashTable_Add_def Add_def numeral_3_eq_3 numeral_2_eq_2)

interpretation int_table: bounded_store "int_inv kv n" "store_view kv Hash_int"
  "\<lambda>t. mNumItems t < mMaxItems t" "IntHashTable_Get kv" "IntHashTable_Add kv" "IntHashTable_Remove kv"
  "store_key kv Hash_int" "\<lambda>_. True" "2 ^ (n - 1)"
  for kv n
proof
  fix t k p q
  assume inv: "int_inv kv n t"
  then have s: "store_inv kv (\<lambda>_. True) Hash_int n t" and r: "\<not> mCanResize t" and
    ti: "table_inv kv (\<lambda>_. True) n t" by (auto simp: int_inv_def store_inv_def)
  show "IntHashTable_Get kv t k = Some (store_view kv Hash_int t k)"
    using int_keys.Get_hash_view [OF ti TrueI, of Hash_int k] by (simp add: IntHashTable_Get_def)
  show "(mNumItems t < mMaxItems t) = (card (dom (store_view kv Hash_int t)) < 2 ^ (n - 1))"
    using int_keys.card_view [OF s] ti by (simp add: table_inv_def)
  show "IntHashTable_Add kv t p = Some (False, t)" if "\<not> mNumItems t < mMaxItems t"
    using that r IntHashTable_Add_fixed [OF r] int_keys.Add_full [of t kv p] by simp
  assume k: "store_key kv Hash_int p = Some k"
  then have kv: "kv p = Some (Hash_int k, k)" by (simp add: store_key_Some)
  show "\<exists>t'. IntHashTable_Add kv t p = Some (True, t') \<and> int_inv kv n t' \<and>
      store_view kv Hash_int t' = (store_view kv Hash_int t)(k \<mapsto> p)"
    if room: "mNumItems t < mMaxItems t" and f: "store_view kv Hash_int t k = None"
    by (rule int_keys.add_keeps [OF s k TrueI _ f])
      (use room r IntHashTable_Add_fixed [OF r] in \<open>auto simp: int_inv_def\<close>)
  show "IntHashTable_Add kv t p = Some (q = p, t)"
    if "mNumItems t < mMaxItems t" and "store_view kv Hash_int t k = Some q"
    using that int_keys.store_view_Some [OF ti, of Hash_int k q] int_keys.Add_here_old [OF ti _ _ kv, of q]
      int_keys.Add_room [OF that(1), of kv p] IntHashTable_Add_fixed [OF r] by simp
  show "\<exists>t'. IntHashTable_Remove kv t p = Some (True, t') \<and> int_inv kv n t' \<and>
      store_view kv Hash_int t' = (store_view kv Hash_int t)(k := None)"
    if st: "store_view kv Hash_int t k = Some p"
    by (rule int_keys.remove_keeps [OF s k st]) (use r in \<open>auto simp: int_inv_def IntHashTable_Remove_def\<close>)
  show "IntHashTable_Remove kv t p = Some (False, t)" if "store_view kv Hash_int t k \<noteq> Some p"
    using that int_keys.Remove_absent [OF ti kv TrueI] int_keys.store_view_Some [OF ti, of Hash_int k p] kv
    by (auto simp: IntHashTable_Remove_def)
qed

text \<open>The tables of named things: string keys, growing as needed.\<close>

definition hash4 :: "i32 list \<Rightarrow> i32" where
  "hash4 k = (case Hash_str4 k of Some h \<Rightarrow> h | None \<Rightarrow> 0)"

definition str_inv :: "('a, i32 list) reader \<Rightarrow> 'a HashTable \<Rightarrow> bool" where
  "str_inv kv t \<longleftrightarrow> mCanResize t \<and> (\<exists>n \<le> 30. store_inv kv packed hash4 n t)"

interpretation str_table: keyed_store "str_inv kv" "store_view kv hash4"
  "\<lambda>t. mNumItems t < 2 ^ 28" "HashTable_Get kv" "Add kv str4eq" "Remove kv str4eq"
  "store_key kv hash4" packed
  for kv
proof
  fix t k p
  assume inv: "str_inv kv t" and v: "packed k"
  then obtain n where n: "n \<le> 30" and s: "store_inv kv packed hash4 n t" and r: "mCanResize t"
    and ti: "table_inv kv packed n t" by (auto simp: str_inv_def store_inv_def)
  show "HashTable_Get kv t k = Some (store_view kv hash4 t k)"
  proof -
    obtain h where h: "Hash_str4 k = Some h" using Hash_str4_packed [OF v] by blast
    then show ?thesis
      using str4_keys.Get_hash_view [OF ti v, of hash4] by (simp add: HashTable_Get_def hash4_def)
  qed
  assume k: "store_key kv hash4 p = Some k"
  then have kv: "kv p = Some (hash4 k, k)" by (simp add: store_key_Some)
  show "\<exists>t'. Add kv str4eq t p = Some (True, t') \<and> str_inv kv t' \<and>
      store_view kv hash4 t' = (store_view kv hash4 t)(k \<mapsto> p)"
    if room: "mNumItems t < 2 ^ 28" and f: "store_view kv hash4 t k = None"
  proof -
    have grow: "n < 29" if "mMaxItems t \<le> mNumItems t"
    proof (rule ccontr)
      assume "\<not> n < 29"
      then have "(2::nat) ^ 28 \<le> 2 ^ (n - 1)" by (intro power_increasing) auto
      then show False using that room ti by (simp add: table_inv_def)
    qed
    then have "mNumItems t < mMaxItems t \<or> (mCanResize t \<and> n < 30)" using r by fastforce
    then obtain n' t' where t': "Add kv str4eq t p = Some (True, t')" "store_inv kv packed hash4 n' t'"
      "store_view kv hash4 t' = (store_view kv hash4 t)(k \<mapsto> p)" "mCanResize t' = mCanResize t"
      "n' = n \<or> (mMaxItems t \<le> mNumItems t \<and> n' = max (Suc n) 5)"
      using str4_keys.add_keeps [OF s k v _ f] by metis
    have "n' \<le> 30" using t'(5) n grow by auto
    then show ?thesis using t' r by (auto simp: str_inv_def)
  qed
  show "\<exists>t'. Remove kv str4eq t p = Some (True, t') \<and> str_inv kv t' \<and>
      store_view kv hash4 t' = (store_view kv hash4 t)(k := None)"
    if st: "store_view kv hash4 t k = Some p"
    by (rule str4_keys.remove_keeps [OF s k st]) (use r n in \<open>auto simp: str_inv_def\<close>)
  show "Remove kv str4eq t p = Some (False, t)" if "store_view kv hash4 t k \<noteq> Some p"
    using that str4_keys.Remove_absent [OF ti kv v] str4_keys.store_view_Some [OF ti, of hash4 k p] kv
    by auto
qed

section \<open>Properties\<close>

text \<open>
  C13: a node table (\<open>IntHashTable\<close> of a fixed power-of-two size) answers any sequence of lookups,
  insertions and removals exactly as a finite map of bounded size does: probing finds what is
  stored, a duplicate or a full table is refused, and removal moves the collisions behind it so
  that nothing else is lost.
\<close>

theorem int_table_is_finite_map:
  assumes "1 \<le> n" and "n < 31" and "\<forall>c \<in> set ops. op_okay (store_key kv Hash_int) (\<lambda>_. True) c"
  shows "run_ops (IntHashTable_Get kv) (IntHashTable_Add kv) (IntHashTable_Remove kv) ops
      (HashTable_new (2 ^ (n - 1)) False) =
    Some (map_ops (store_key kv Hash_int) (2 ^ (n - 1)) ops Map.empty)"
proof -
  have "\<not> mCanResize (HashTable_new (2 ^ (n - 1)) False)" by (simp add: HashTable_new_def)
  then have i: "int_inv kv n (HashTable_new (2 ^ (n - 1)) False)"
    unfolding int_inv_def using store_inv_new(1) [OF assms(1,2)] by blast
  show ?thesis
    using int_table.ops_refine_map [OF i assms(3)] unfolding store_inv_new(2) [OF assms(1,2)] .
qed

theorem int_table_is_finite_map_witness:
  "run_ops (IntHashTable_Get (\<lambda>k. Some (Hash_int k, k))) (IntHashTable_Add (\<lambda>k. Some (Hash_int k, k)))
     (IntHashTable_Remove (\<lambda>k. Some (Hash_int k, k)))
     [Op_Add 1000, Op_Add 7, Op_Add 7, Op_Add 1, Op_Remove 1000, Op_Get 7, Op_Get 1000]
     (HashTable_new 2 False) =
   Some [Done True, Done True, Done False, Done False, Done True, Found (Some 7), Found None]"
proof -
  let ?kv = "\<lambda>k. Some (Hash_int k, k)"
  let ?ops = "[Op_Add 1000, Op_Add 7, Op_Add 7, Op_Add 1, Op_Remove 1000, Op_Get 7, Op_Get 1000]"
  have k: "store_key ?kv Hash_int p = Some p" for p by (simp add: store_key_def)
  have "map_ops (store_key ?kv Hash_int) (2 ^ (2 - 1)) ?ops Map.empty =
    [Done True, Done True, Done False, Done False, Done True, Found (Some 7), Found None]"
    by (simp add: k)
  then show ?thesis
    using int_table_is_finite_map [where n = 2 and kv = ?kv and ops = ?ops] by (simp add: k del: run_ops.simps)
qed

context keyed_store
begin

lemma get_after_add:
  assumes t: "invar t" and p: "key p = Some k" "okay k" and room: "room t" and free: "get t k = Some None"
  shows "\<exists>t'. add t p = Some (True, t') \<and> invar t' \<and>
    (\<forall>l. okay l \<longrightarrow> get t' l = (if l = k then Some (Some p) else get t l))"
proof -
  have "view t k = None" using free get_view [OF t p(2)] by simp
  then show ?thesis using add_fresh [OF t p room] get_view [OF t] get_view by fastforce
qed

lemma get_after_remove:
  assumes t: "invar t" and p: "key p = Some k" "okay k" and there: "get t k = Some (Some p)"
  shows "\<exists>t'. remove t p = Some (True, t') \<and> invar t' \<and>
    (\<forall>l. okay l \<longrightarrow> get t' l = (if l = k then Some None else get t l))"
proof -
  have "view t k = Some p" using there get_view [OF t p(2)] by simp
  then show ?thesis using remove_stored [OF t p] get_view [OF t] get_view by fastforce
qed

end

text \<open>
  In a table of named things (\<open>HashTable\<close>, resizable, keys are packed strings) inserting an
  item under a new name succeeds, with the table doubled when it was full, and changes the answer of
  \<open>Get\<close> for that name only.
\<close>

theorem str_table_add_get:
  assumes "str_inv kv t" and "kv p = Some (hash4 k, k)" and "packed k" and "mNumItems t < 2 ^ 28"
    and "HashTable_Get kv t k = Some None"
  shows "\<exists>t'. Add kv str4eq t p = Some (True, t') \<and> str_inv kv t' \<and>
    (\<forall>l. packed l \<longrightarrow> HashTable_Get kv t' l = (if l = k then Some (Some p) else HashTable_Get kv t l))"
  using assms str_table.get_after_add [of kv t p k] by (simp add: store_key_Some)

lemma str_inv_new: "str_inv kv (HashTable_new 1 True)"
proof -
  have "store_inv kv packed hash4 1 (HashTable_new 1 True)" using store_inv_new(1) [of 1 kv packed hash4 True] by simp
  then show ?thesis unfolding str_inv_def by (intro conjI exI [of _ 1]) (auto simp: HashTable_new_def)
qed

theorem str_table_add_get_witness:
  "\<exists>t'. Add (\<lambda>k. Some (hash4 k, k)) str4eq (HashTable_new 1 True) [0x64636261, 0] = Some (True, t')
    \<and> HashTable_Get (\<lambda>k. Some (hash4 k, k)) t' [0x64636261, 0] = Some (Some [0x64636261, 0])
    \<and> HashTable_Get (\<lambda>k. Some (hash4 k, k)) t' [0x64] = Some None"
proof -
  let ?kv = "\<lambda>k. Some (hash4 k, k)" and ?t = "HashTable_new 1 True :: i32 list HashTable"
  have p: "packed [0x64636261, 0]" "packed [0x64]" by (simp_all add: kLASTCHAR_def)
  have none: "HashTable_Get ?kv ?t l = Some None" if "packed l" for l
    using str_table.get_view [OF str_inv_new that, of ?kv] store_inv_new(2) [of 1 ?kv hash4 True] by simp
  have n: "mNumItems ?t < 2 ^ 28" by (simp add: HashTable_new_def)
  show ?thesis
    using str_table_add_get [OF str_inv_new refl p(1) n none [OF p(1)]] p none [OF p(2)] by auto
qed

lemma Add_here_fields:
  "Add_here kv eqk t p = Some (b, t') \<Longrightarrow> mTableSize t' = mTableSize t"
  by (auto simp: Add_here_def bind_Some_iff split: option.splits)

lemma int_resize_loop_bound:
  assumes grow: "\<And>u p b u'. add u p = Some (b, u') \<Longrightarrow> mTableSize u \<le> mTableSize u'"
  shows "int_resize_loop add old fuel i t = Some t' \<Longrightarrow> length old < mTableSize t \<Longrightarrow> i \<le> length old \<Longrightarrow> False"
proof (induction fuel arbitrary: i t)
  case (Suc fuel)
  have "i < mTableSize t" using Suc.prems by simp
  then obtain u where i: "i < length old" and u: "int_resize_loop add old fuel (Suc i) u = Some t'"
    "u = t \<or> (\<exists>p b. add t p = Some (b, u))"
    using Suc.prems(1) by (auto simp: bind_Some_iff aread_eq_Some split: option.splits)
  have "length old < mTableSize u" using u(2) Suc.prems(2) grow by (auto intro: less_le_trans)
  then show ?case using Suc.IH [OF u(1)] i by simp
qed simp

lemma int_resize_loop_size:
  assumes grow: "\<And>u p b u'. add u p = Some (b, u') \<Longrightarrow> mTableSize u \<le> mTableSize u'"
  shows "int_resize_loop add old fuel i t = Some t' \<Longrightarrow> mTableSize t \<le> mTableSize t'"
proof (induction fuel arbitrary: i t)
  case (Suc fuel)
  then show ?case
    by (auto simp: bind_Some_iff split: option.splits if_splits dest!: grow Suc.IH)
qed simp

lemma IntHashTable_Resize_size:
  "IntHashTable_Resize add t = Some t' \<Longrightarrow> mTableSize t' = max (2 * mTableSize t) 32"
  by (auto simp: IntHashTable_Resize_def Let_def bind_Some_iff)

lemma IntHashTable_Add_size:
  assumes "IntHashTable_Add_depth kv d t p = Some (b, t')"
  shows "mTableSize t \<le> mTableSize t'"
    and "mMaxItems t \<le> mNumItems t \<Longrightarrow> mCanResize t \<Longrightarrow> mTableSize t < mTableSize t'"
  using assms
  by (cases d; auto simp: bind_Some_iff split: if_splits dest!: IntHashTable_Resize_size Add_here_fields)+

lemma int_resize_loop_full:
  assumes "mMaxItems t \<le> mNumItems t" and "mCanResize t" and "length old = mTableSize t"
  shows "i \<le> j \<Longrightarrow> j < length old \<Longrightarrow> old ! j = Some p \<Longrightarrow>
    int_resize_loop (IntHashTable_Add_depth kv d) old fuel i t = None"
proof (induction fuel arbitrary: i)
  case (Suc fuel)
  have i: "i < mTableSize t" "i < length old" using Suc.prems assms(3) by auto
  show ?case
  proof (cases "old ! i")
    case None
    then have "Suc i \<le> j" using Suc.prems by (cases "i = j") auto
    then show ?thesis using Suc.IH [of "Suc i"] Suc.prems None i by simp
  next
    case (Some q)
    show ?thesis
    proof (cases "IntHashTable_Add_depth kv d t q")
      case None
      then show ?thesis using Some i by simp
    next
      case (Some r)
      obtain b u where r: "r = (b, u)" by (cases r)
      have u: "length old < mTableSize u"
        using IntHashTable_Add_size(2) [of kv d t q b u] Some r assms by simp
      have "int_resize_loop (IntHashTable_Add_depth kv d) old fuel (Suc i) u = None"
        using int_resize_loop_bound [where add = "IntHashTable_Add_depth kv d" and old = old and fuel = fuel
            and i = "Suc i" and t = u] IntHashTable_Add_size(1) u i(2)
        by (metis Suc_leI option.exhaust)
      then show ?thesis using \<open>old ! i = Some q\<close> i Some r by simp
    qed
  qed
qed simp



end
