(* ===== verification/SC_Fifo.thy ===== *)
theory SC_Fifo
  imports SC_HashTable
begin

text \<open>
  \<open>include/common/MsgFifo.h\<close> and \<open>include/common/SC_FIFO.h\<close>: the ring buffers between the real-time
  engine and the other threads. A slot is \<open>None\<close> until it is first written (the C++ array is
  uninitialised): reading it then is undefined. \<open>N\<close> is the number of slots.

  The operations are given twice: as the functions of the classes, and, for \<open>MsgFifo\<close>, as the atomic
  steps (load, store, publish) of a writer, a performer and a freer that interleave.
\<close>

section \<open>The classes\<close>

record 'a MsgFifo =
  mReadHead :: nat
  mWriteHead :: nat
  mFreeHead :: nat
  mFifoItems :: "'a option list"

definition NextPos :: "nat \<Rightarrow> nat \<Rightarrow> nat" where
  "NextPos N inPos = unat ((of_nat inPos + 1 :: i32) AND (of_nat N - 1))"

definition MsgFifo_new :: "nat \<Rightarrow> 'a MsgFifo" where
  "MsgFifo_new N = \<lparr>mReadHead = 0, mWriteHead = 0, mFreeHead = 0, mFifoItems = replicate N None\<rparr>"

definition MsgFifo_MakeEmpty :: "'a MsgFifo \<Rightarrow> 'a MsgFifo" where
  "MsgFifo_MakeEmpty q = q\<lparr>mFreeHead := mWriteHead q, mReadHead := mWriteHead q\<rparr>"

definition MsgFifo_IsEmpty :: "'a MsgFifo \<Rightarrow> bool" where
  "MsgFifo_IsEmpty q = (mReadHead q = mWriteHead q)"

definition MsgFifo_HasData :: "'a MsgFifo \<Rightarrow> bool" where
  "MsgFifo_HasData q = (mReadHead q \<noteq> mWriteHead q)"

definition MsgFifo_NeedsFree :: "'a MsgFifo \<Rightarrow> bool" where
  "MsgFifo_NeedsFree q = (mFreeHead q \<noteq> mReadHead q)"

definition MsgFifo_Write :: "nat \<Rightarrow> 'a \<Rightarrow> 'a MsgFifo \<Rightarrow> (bool \<times> 'a MsgFifo) option" where
  "MsgFifo_Write N data q =
     (let next = NextPos N (mWriteHead q)
      in if next = mFreeHead q then Some (False, q)
         else do {
           is \<leftarrow> awrite (mFifoItems q) next (Some data);
           Some (True, q\<lparr>mFifoItems := is, mWriteHead := next\<rparr>) })"

text \<open>
  \<open>Perform\<close> and \<open>Free\<close> return the messages on which \<open>Perform()\<close> and \<open>Free()\<close> are called, in order.
  Zero fuel is a loop that has gone round the whole buffer.
\<close>

fun MsgFifo_Perform_loop :: "nat \<Rightarrow> nat \<Rightarrow> 'a MsgFifo \<Rightarrow> ('a list \<times> 'a MsgFifo) option" where
  "MsgFifo_Perform_loop N 0 q = None"
| "MsgFifo_Perform_loop N (Suc fuel) q =
     (if MsgFifo_HasData q then do {
        (let next = NextPos N (mReadHead q)
         in do {
           slot \<leftarrow> aread (mFifoItems q) next;
           msg \<leftarrow> slot;
           (msgs, q) \<leftarrow> MsgFifo_Perform_loop N fuel (q\<lparr>mReadHead := next\<rparr>);
           Some (msg # msgs, q) }) }
      else Some ([], q))"

definition MsgFifo_Perform :: "nat \<Rightarrow> 'a MsgFifo \<Rightarrow> ('a list \<times> 'a MsgFifo) option" where
  "MsgFifo_Perform N q = MsgFifo_Perform_loop N (Suc N) q"

fun MsgFifo_Free_loop :: "nat \<Rightarrow> nat \<Rightarrow> 'a MsgFifo \<Rightarrow> ('a list \<times> 'a MsgFifo) option" where
  "MsgFifo_Free_loop N 0 q = None"
| "MsgFifo_Free_loop N (Suc fuel) q =
     (if MsgFifo_NeedsFree q then do {
        (let next = NextPos N (mFreeHead q)
         in do {
           slot \<leftarrow> aread (mFifoItems q) next;
           msg \<leftarrow> slot;
           (msgs, q) \<leftarrow> MsgFifo_Free_loop N fuel (q\<lparr>mFreeHead := next\<rparr>);
           Some (msg # msgs, q) }) }
      else Some ([], q))"

definition MsgFifo_Free :: "nat \<Rightarrow> 'a MsgFifo \<Rightarrow> ('a list \<times> 'a MsgFifo) option" where
  "MsgFifo_Free N q = MsgFifo_Free_loop N (Suc N) q"

record 'a MsgFifoNoFree =
  nReadHead :: nat
  nWriteHead :: nat
  nItems :: "'a option list"

definition MsgFifoNoFree_new :: "nat \<Rightarrow> 'a MsgFifoNoFree" where
  "MsgFifoNoFree_new N = \<lparr>nReadHead = 0, nWriteHead = 0, nItems = replicate N None\<rparr>"

definition MsgFifoNoFree_MakeEmpty :: "'a MsgFifoNoFree \<Rightarrow> 'a MsgFifoNoFree" where
  "MsgFifoNoFree_MakeEmpty q = q\<lparr>nReadHead := nWriteHead q\<rparr>"

definition MsgFifoNoFree_HasData :: "'a MsgFifoNoFree \<Rightarrow> bool" where
  "MsgFifoNoFree_HasData q = (nReadHead q \<noteq> nWriteHead q)"

definition MsgFifoNoFree_Write :: "nat \<Rightarrow> 'a \<Rightarrow> 'a MsgFifoNoFree \<Rightarrow> (bool \<times> 'a MsgFifoNoFree) option" where
  "MsgFifoNoFree_Write N data q =
     (let next = NextPos N (nWriteHead q)
      in if next = nReadHead q then Some (False, q)
         else do {
           is \<leftarrow> awrite (nItems q) next (Some data);
           Some (True, q\<lparr>nItems := is, nWriteHead := next\<rparr>) })"

fun MsgFifoNoFree_Perform_loop :: "nat \<Rightarrow> nat \<Rightarrow> 'a MsgFifoNoFree \<Rightarrow> ('a list \<times> 'a MsgFifoNoFree) option" where
  "MsgFifoNoFree_Perform_loop N 0 q = None"
| "MsgFifoNoFree_Perform_loop N (Suc fuel) q =
     (if MsgFifoNoFree_HasData q then do {
        (let next = NextPos N (nReadHead q)
         in do {
           slot \<leftarrow> aread (nItems q) next;
           msg \<leftarrow> slot;
           (msgs, q) \<leftarrow> MsgFifoNoFree_Perform_loop N fuel (q\<lparr>nReadHead := next\<rparr>);
           Some (msg # msgs, q) }) }
      else Some ([], q))"

definition MsgFifoNoFree_Perform :: "nat \<Rightarrow> 'a MsgFifoNoFree \<Rightarrow> ('a list \<times> 'a MsgFifoNoFree) option" where
  "MsgFifoNoFree_Perform N q = MsgFifoNoFree_Perform_loop N (Suc N) q"

text \<open>\<open>SC_FIFO\<close> has the state of \<open>MsgFifoNoFree\<close>, and takes items one at a time.\<close>

definition SC_FIFO_Put :: "nat \<Rightarrow> 'a \<Rightarrow> 'a MsgFifoNoFree \<Rightarrow> (bool \<times> 'a MsgFifoNoFree) option" where
  "SC_FIFO_Put N data q =
     (let next = NextPos N (nWriteHead q)
      in if next = nReadHead q then Some (False, q)
         else do {
           is \<leftarrow> awrite (nItems q) next (Some data);
           Some (True, q\<lparr>nItems := is, nWriteHead := next\<rparr>) })"

definition SC_FIFO_Get :: "nat \<Rightarrow> 'a MsgFifoNoFree \<Rightarrow> ('a \<times> 'a MsgFifoNoFree) option" where
  "SC_FIFO_Get N q =
     (let next = NextPos N (nReadHead q)
      in do {
        slot \<leftarrow> aread (nItems q) next;
        out \<leftarrow> slot;
        Some (out, q\<lparr>nReadHead := next\<rparr>) })"

section \<open>The steps of three threads\<close>

datatype 'a writer = W_idle | W_store 'a nat | W_publish 'a nat
datatype visitor = R_idle | R_visit nat | R_advance nat

record 'a fifo_sys =
  fs_q :: "'a MsgFifo"
  fs_writer :: "'a writer"
  fs_performer :: visitor
  fs_freer :: visitor
  fs_written :: "'a list"
  fs_performed :: "'a list"
  fs_freed :: "'a list"

text \<open>
  One step of a thread. The histories record the message a \<open>Write\<close> returned true for, and the
  messages on which \<open>Perform()\<close> and \<open>Free()\<close> were called. Visiting a slot that was never written has
  no successor: it is excluded by a property below, not by the relation.
\<close>

inductive fifo_step :: "nat \<Rightarrow> 'a fifo_sys \<Rightarrow> 'a fifo_sys \<Rightarrow> bool" for N where
  write_full: "fs_writer s = W_idle \<Longrightarrow> NextPos N (mWriteHead (fs_q s)) = mFreeHead (fs_q s) \<Longrightarrow> fifo_step N s s"
| write_begin: "fs_writer s = W_idle \<Longrightarrow> next = NextPos N (mWriteHead (fs_q s)) \<Longrightarrow> next \<noteq> mFreeHead (fs_q s) \<Longrightarrow>
    fifo_step N s (s\<lparr>fs_writer := W_store data next\<rparr>)"
| write_store: "fs_writer s = W_store data next \<Longrightarrow> awrite (mFifoItems (fs_q s)) next (Some data) = Some is \<Longrightarrow>
    fifo_step N s (s\<lparr>fs_writer := W_publish data next, fs_q := (fs_q s)\<lparr>mFifoItems := is\<rparr>\<rparr>)"
| write_publish: "fs_writer s = W_publish data next \<Longrightarrow>
    fifo_step N s (s\<lparr>fs_writer := W_idle, fs_q := (fs_q s)\<lparr>mWriteHead := next\<rparr>,
      fs_written := fs_written s @ [data]\<rparr>)"
| perform_begin: "fs_performer s = R_idle \<Longrightarrow> MsgFifo_HasData (fs_q s) \<Longrightarrow> next = NextPos N (mReadHead (fs_q s)) \<Longrightarrow>
    fifo_step N s (s\<lparr>fs_performer := R_visit next\<rparr>)"
| perform_visit: "fs_performer s = R_visit next \<Longrightarrow> aread (mFifoItems (fs_q s)) next = Some (Some msg) \<Longrightarrow>
    fifo_step N s (s\<lparr>fs_performer := R_advance next, fs_performed := fs_performed s @ [msg]\<rparr>)"
| perform_advance: "fs_performer s = R_advance next \<Longrightarrow>
    fifo_step N s (s\<lparr>fs_performer := R_idle, fs_q := (fs_q s)\<lparr>mReadHead := next\<rparr>\<rparr>)"
| free_begin: "fs_freer s = R_idle \<Longrightarrow> MsgFifo_NeedsFree (fs_q s) \<Longrightarrow> next = NextPos N (mFreeHead (fs_q s)) \<Longrightarrow>
    fifo_step N s (s\<lparr>fs_freer := R_visit next\<rparr>)"
| free_visit: "fs_freer s = R_visit next \<Longrightarrow> aread (mFifoItems (fs_q s)) next = Some (Some msg) \<Longrightarrow>
    fifo_step N s (s\<lparr>fs_freer := R_advance next, fs_freed := fs_freed s @ [msg]\<rparr>)"
| free_advance: "fs_freer s = R_advance next \<Longrightarrow>
    fifo_step N s (s\<lparr>fs_freer := R_idle, fs_q := (fs_q s)\<lparr>mFreeHead := next\<rparr>\<rparr>)"

definition fifo_start :: "nat \<Rightarrow> 'a fifo_sys" where
  "fifo_start N = \<lparr>fs_q = MsgFifo_new N, fs_writer = W_idle, fs_performer = R_idle, fs_freer = R_idle,
     fs_written = [], fs_performed = [], fs_freed = []\<rparr>"

section \<open>The invariant of the steps\<close>

lemma NextPos_mod:
  assumes "N = 2 ^ k" and "k < 31" and "i < N"
  shows "NextPos N i = Suc i mod N"
proof -
  have "shape k \<lparr>mNumItems = 0, mMaxItems = 0, mTableSize = N, mHashMask = 2 ^ k - 1, mItems = replicate N None, mCanResize = False\<rparr>"
    using assms by (simp add: shape_def)
  from mask_next [OF this, of i] show ?thesis using assms by (simp add: NextPos_def)
qed

lemma mod_apart: "(a :: nat) < b \<Longrightarrow> b < a + N \<Longrightarrow> a mod N \<noteq> b mod N"
proof
  assume "a < b" "b < a + N" "a mod N = b mod N"
  then have "N dvd b - a" by (metis less_imp_le mod_eq_dvd_iff_nat)
  then show False using \<open>a < b\<close> \<open>b < a + N\<close> by (auto dest: dvd_imp_le)
qed

text \<open>
  The message number \<open>k\<close> (from 0) lives in slot \<open>(k + 1) mod N\<close>. \<open>nF\<close>, \<open>nR\<close> and the number of published
  messages are the three heads, not reduced modulo \<open>N\<close>.
\<close>

definition visitor_ok :: "nat \<Rightarrow> nat \<Rightarrow> nat \<Rightarrow> 'a list \<Rightarrow> visitor \<Rightarrow> 'a list \<Rightarrow> bool" where
  "visitor_ok N n limit written v seen \<longleftrightarrow>
     (case v of R_idle \<Rightarrow> seen = take n written
      | R_visit next \<Rightarrow> next = Suc n mod N \<and> n < limit \<and> seen = take n written
      | R_advance next \<Rightarrow> next = Suc n mod N \<and> n < limit \<and> seen = take (Suc n) written)"

definition writer_ok :: "nat \<Rightarrow> nat \<Rightarrow> 'a option list \<Rightarrow> nat \<Rightarrow> 'a writer \<Rightarrow> bool" where
  "writer_ok N nF xs nW w \<longleftrightarrow>
     (case w of W_idle \<Rightarrow> True
      | W_store d next \<Rightarrow> next = Suc nW mod N \<and> Suc nW < nF + N
      | W_publish d next \<Rightarrow> next = Suc nW mod N \<and> Suc nW < nF + N \<and> xs ! next = Some d)"

definition stored :: "nat \<Rightarrow> nat \<Rightarrow> 'a option list \<Rightarrow> 'a list \<Rightarrow> bool" where
  "stored N nF xs written \<longleftrightarrow> length xs = N \<and>
     (\<forall>k < length written. nF \<le> k \<longrightarrow> xs ! (Suc k mod N) = Some (written ! k))"

definition fifo_inv :: "nat \<Rightarrow> nat \<Rightarrow> nat \<Rightarrow> 'a fifo_sys \<Rightarrow> bool" where
  "fifo_inv N nF nR s \<longleftrightarrow>
     nF \<le> nR \<and> nR \<le> length (fs_written s) \<and> length (fs_written s) < nF + N
     \<and> mWriteHead (fs_q s) = length (fs_written s) mod N \<and> mReadHead (fs_q s) = nR mod N \<and> mFreeHead (fs_q s) = nF mod N
     \<and> stored N nF (mFifoItems (fs_q s)) (fs_written s)
     \<and> writer_ok N nF (mFifoItems (fs_q s)) (length (fs_written s)) (fs_writer s)
     \<and> visitor_ok N nR (length (fs_written s)) (fs_written s) (fs_performer s) (fs_performed s)
     \<and> visitor_ok N nF nR (fs_written s) (fs_freer s) (fs_freed s)"

lemma stored_store:
  assumes "stored N nF xs w" and "0 < N" and "Suc (length w) < nF + N" and "ys = xs[Suc (length w) mod N := x]"
  shows "stored N nF ys w"
  unfolding stored_def
proof (intro conjI allI impI)
  show "length ys = N" using assms by (simp add: stored_def)
  fix k assume k: "k < length w" "nF \<le> k"
  have "Suc k mod N \<noteq> Suc (length w) mod N" by (rule mod_apart) (use k assms(3) in auto)
  then show "ys ! (Suc k mod N) = Some (w ! k)" using assms(1,4) k by (simp add: stored_def)
qed

lemma stored_publish:
  assumes "stored N nF xs w" and "xs ! (Suc (length w) mod N) = Some d"
  shows "stored N nF xs (w @ [d])"
  using assms by (auto simp: stored_def nth_append less_Suc_eq)

lemma stored_mono: "stored N nF xs w \<Longrightarrow> nF \<le> nF' \<Longrightarrow> stored N nF' xs w"
  by (auto simp: stored_def)

lemma visitor_ok_append: "visitor_ok N n l w v seen \<Longrightarrow> l \<le> length w \<Longrightarrow> n \<le> l \<Longrightarrow> visitor_ok N n l (w @ x) v seen"
  by (auto simp: visitor_ok_def split: visitor.splits)

lemma visitor_ok_limit: "visitor_ok N n l w v seen \<Longrightarrow> l \<le> l' \<Longrightarrow> visitor_ok N n l' w v seen"
  by (auto simp: visitor_ok_def split: visitor.splits)

lemma fifo_step_inv:
  assumes "fifo_step N s s'" and N: "N = 2 ^ k" "k < 31" and inv: "fifo_inv N nF nR s"
  shows "\<exists>nF' nR'. fifo_inv N nF' nR' s'"
proof -
  have N0: "0 < N" using N by simp
  have nx: "NextPos N (n mod N) = Suc n mod N" for n
    using NextPos_mod [OF N, of "n mod N"] N0 by (simp add: mod_Suc_eq)
  note i = inv [unfolded fifo_inv_def]
  show ?thesis using assms(1)
  proof cases
    case write_full
    then show ?thesis using inv by blast
  next
    case (write_begin "next" data)
    have "Suc (length (fs_written s)) \<noteq> nF + N" using write_begin i nx by auto
    then have "fifo_inv N nF nR s'" using i write_begin nx by (simp add: fifo_inv_def writer_ok_def)
    then show ?thesis by blast
  next
    case (write_store data "next" "xs")
    have w: "next = Suc (length (fs_written s)) mod N" "Suc (length (fs_written s)) < nF + N"
      using i write_store(2) by (simp_all add: writer_ok_def)
    have xs: "xs = (mFifoItems (fs_q s))[next := Some data]" "next < length (mFifoItems (fs_q s))"
      using write_store(3) by (simp_all add: awrite_eq_Some)
    have "stored N nF xs (fs_written s)" by (rule stored_store [OF _ N0 w(2)]) (use i xs w in auto)
    then have "fifo_inv N nF nR s'" using i write_store w xs by (simp add: fifo_inv_def writer_ok_def)
    then show ?thesis by blast
  next
    case (write_publish data "next")
    have w: "next = Suc (length (fs_written s)) mod N" "Suc (length (fs_written s)) < nF + N"
      "mFifoItems (fs_q s) ! next = Some data"
      using i unfolding writer_ok_def write_publish(2) writer.case by blast+
    have "stored N nF (mFifoItems (fs_q s)) (fs_written s @ [data])"
      by (rule stored_publish) (use i in blast, rule w(3) [unfolded w(1)])
    moreover have "visitor_ok N nR (Suc (length (fs_written s))) (fs_written s @ [data]) (fs_performer s) (fs_performed s)"
      by (rule visitor_ok_limit [OF visitor_ok_append]) (use i in auto)
    moreover have "visitor_ok N nF nR (fs_written s @ [data]) (fs_freer s) (fs_freed s)"
      by (rule visitor_ok_append) (use i in auto)
    ultimately have "fifo_inv N nF nR s'" using i write_publish w by (auto simp: fifo_inv_def writer_ok_def)
    then show ?thesis by blast
  next
    case (perform_begin "next")
    have "nR < length (fs_written s)" using perform_begin i by (auto simp: MsgFifo_HasData_def le_less)
    then have "fifo_inv N nF nR s'" using i perform_begin nx by (simp add: fifo_inv_def visitor_ok_def)
    then show ?thesis by blast
  next
    case (perform_visit "next" msg)
    have r: "next = Suc nR mod N" "nR < length (fs_written s)" "fs_performed s = take nR (fs_written s)"
      using i perform_visit(2) by (simp_all add: visitor_ok_def)
    have "Some msg = mFifoItems (fs_q s) ! next" using perform_visit(3) by (auto simp: aread_eq_Some)
    then have "msg = fs_written s ! nR" using i r by (simp add: stored_def)
    then have "fifo_inv N nF nR s'" using i perform_visit r by (simp add: fifo_inv_def visitor_ok_def take_Suc_conv_app_nth)
    then show ?thesis by blast
  next
    case (perform_advance "next")
    have r: "next = Suc nR mod N" "nR < length (fs_written s)" "fs_performed s = take (Suc nR) (fs_written s)"
      using i perform_advance(2) by (simp_all add: visitor_ok_def)
    have "visitor_ok N nF (Suc nR) (fs_written s) (fs_freer s) (fs_freed s)"
      by (rule visitor_ok_limit) (use i in auto)
    then have "fifo_inv N nF (Suc nR) s'" using i perform_advance r by (simp add: fifo_inv_def visitor_ok_def)
    then show ?thesis by blast
  next
    case (free_begin "next")
    have "nF < nR" using free_begin i by (auto simp: MsgFifo_NeedsFree_def le_less)
    then have "fifo_inv N nF nR s'" using i free_begin nx by (simp add: fifo_inv_def visitor_ok_def)
    then show ?thesis by blast
  next
    case (free_visit "next" msg)
    have r: "next = Suc nF mod N" "nF < nR" "fs_freed s = take nF (fs_written s)"
      using i free_visit(2) by (simp_all add: visitor_ok_def)
    have "Some msg = mFifoItems (fs_q s) ! next" using free_visit(3) by (auto simp: aread_eq_Some)
    then have "msg = fs_written s ! nF" using i r by (simp add: stored_def)
    then have "fifo_inv N nF nR s'" using i free_visit r by (simp add: fifo_inv_def visitor_ok_def take_Suc_conv_app_nth)
    then show ?thesis by blast
  next
    case (free_advance "next")
    have r: "next = Suc nF mod N" "nF < nR" "fs_freed s = take (Suc nF) (fs_written s)"
      using i free_advance(2) by (simp_all add: visitor_ok_def)
    have "stored N (Suc nF) (mFifoItems (fs_q s)) (fs_written s)" by (rule stored_mono) (use i in auto)
    moreover have "writer_ok N (Suc nF) (mFifoItems (fs_q s)) (length (fs_written s)) (fs_writer s)"
      using i by (auto simp: writer_ok_def split: writer.splits)
    ultimately have "fifo_inv N (Suc nF) nR s'" using i free_advance r by (simp add: fifo_inv_def visitor_ok_def)
    then show ?thesis by blast
  qed
qed

lemma fifo_start_inv: "0 < N \<Longrightarrow> fifo_inv N 0 0 (fifo_start N)"
  by (simp add: fifo_inv_def fifo_start_def MsgFifo_new_def stored_def writer_ok_def visitor_ok_def)

lemma fifo_reachable_inv:
  assumes "(fifo_step N)\<^sup>*\<^sup>* (fifo_start N) s" and N: "N = 2 ^ k" "k < 31"
  shows "\<exists>nF nR. fifo_inv N nF nR s"
  using assms(1)
proof (induction rule: rtranclp_induct)
  case base
  have "0 < N" using N(1) by simp
  from fifo_start_inv [OF this] show ?case by blast
next
  case (step s s')
  then show ?case using fifo_step_inv [OF step.hyps(2) N] by blast
qed

lemma visitor_ok_prefix:
  "visitor_ok N n l w v seen \<Longrightarrow> \<exists>m. seen = take m w \<and> n \<le> m \<and> (m = n \<or> m \<le> l)"
  by (auto simp: visitor_ok_def split: visitor.splits)

text \<open>
  C17: however the atomic steps of one writing, one performing and one freeing thread interleave on a
  \<open>MsgFifo\<close>, messages are performed in the order they were written, each at most once and none that
  was not written; they are freed in that order, only after they were performed; fewer than \<open>N\<close> are
  unfreed at any time; and neither thread ever visits a slot that was not written.
\<close>

theorem msg_fifo_interleaved:
  assumes "(fifo_step N)\<^sup>*\<^sup>* (fifo_start N) s" and "N = 2 ^ k" and "k < 31"
  shows "(\<exists>m. fs_performed s = take m (fs_written s)) \<and> (\<exists>m. fs_freed s = take m (fs_performed s))
    \<and> length (fs_written s) < length (fs_freed s) + N
    \<and> (case fs_performer s of R_visit i \<Rightarrow> \<exists>msg. aread (mFifoItems (fs_q s)) i = Some (Some msg) | _ \<Rightarrow> True)
    \<and> (case fs_freer s of R_visit i \<Rightarrow> \<exists>msg. aread (mFifoItems (fs_q s)) i = Some (Some msg) | _ \<Rightarrow> True)"
proof -
  obtain nF nR where inv: "fifo_inv N nF nR s" using fifo_reachable_inv [OF assms] by blast
  note i = inv [unfolded fifo_inv_def]
  obtain m where m: "fs_performed s = take m (fs_written s)" "nR \<le> m"
    using i visitor_ok_prefix [of N nR] by blast
  obtain l where l: "fs_freed s = take l (fs_written s)" "nF \<le> l" "l = nF \<or> l \<le> nR"
    using i visitor_ok_prefix [of N nF] by blast
  have "l \<le> m" using l m i by auto
  then have "fs_freed s = take l (fs_performed s)" using l m by (simp add: min_absorb2 min_absorb1)
  moreover have "length (fs_written s) < length (fs_freed s) + N" using i l by auto
  moreover have "\<exists>msg. aread (mFifoItems (fs_q s)) j = Some (Some msg)"
    if "visitor_ok N n lim (fs_written s) (R_visit j) seen" "nF \<le> n" "lim \<le> length (fs_written s)" for n lim seen j
  proof -
    have "j = Suc n mod N" "n < length (fs_written s)" using that by (auto simp: visitor_ok_def)
    moreover have "j < N" using calculation assms(2) by simp
    ultimately show ?thesis using i that(2) by (simp add: stored_def aread_def)
  qed
  then have "case fs_performer s of R_visit i \<Rightarrow> \<exists>msg. aread (mFifoItems (fs_q s)) i = Some (Some msg) | _ \<Rightarrow> True"
    and "case fs_freer s of R_visit i \<Rightarrow> \<exists>msg. aread (mFifoItems (fs_q s)) i = Some (Some msg) | _ \<Rightarrow> True"
    using i by (fastforce split: visitor.splits)+
  ultimately show ?thesis using m by blast
qed

section \<open>The sequential operations as a bounded queue\<close>

locale bounded_queue =
  fixes invar :: "'t \<Rightarrow> bool" and queued :: "'t \<Rightarrow> 'a list" and room :: nat
    and put :: "'a \<Rightarrow> 't \<Rightarrow> (bool \<times> 't) option"
  assumes queued_room: "invar q \<Longrightarrow> length (queued q) \<le> room"
    and put_room: "invar q \<Longrightarrow> length (queued q) < room \<Longrightarrow>
      \<exists>q'. put x q = Some (True, q') \<and> invar q' \<and> queued q' = queued q @ [x]"
    and put_full: "invar q \<Longrightarrow> length (queued q) = room \<Longrightarrow> put x q = Some (False, q)"

fun put_all :: "('a \<Rightarrow> 't \<Rightarrow> (bool \<times> 't) option) \<Rightarrow> 'a list \<Rightarrow> 't \<Rightarrow> (bool list \<times> 't) option" where
  "put_all put [] q = Some ([], q)"
| "put_all put (x # xs) q = do { (b, q) \<leftarrow> put x q; (bs, q) \<leftarrow> put_all put xs q; Some (b # bs, q) }"

context bounded_queue
begin

lemma put_all_takes:
  "invar q \<Longrightarrow> \<exists>q' bs. put_all put xs q = Some (bs, q') \<and> invar q' \<and>
     queued q' = queued q @ take (room - length (queued q)) xs \<and>
     bs = replicate (min (length xs) (room - length (queued q))) True @
          replicate (length xs - (room - length (queued q))) False"
proof (induction xs arbitrary: q)
  case (Cons x xs)
  show ?case
  proof (cases "length (queued q) < room")
    case True
    then obtain q1 where q1: "put x q = Some (True, q1)" "invar q1" "queued q1 = queued q @ [x]"
      using put_room Cons.prems by blast
    have r: "room - length (queued q) = Suc (room - length (queued q1))" using True q1(3) by simp
    show ?thesis using Cons.IH [OF q1(2)] q1(1,3) unfolding r by auto
  next
    case False
    then have f: "put x q = Some (False, q)" and z: "room - length (queued q) = 0"
      using put_full queued_room Cons.prems by (auto simp: not_less dest: le_antisym)
    show ?thesis using Cons.IH [OF Cons.prems] f unfolding z by auto
  qed
qed simp

end

text \<open>The messages in the slots after \<open>rd\<close> up to and including \<open>wr\<close>.\<close>

definition ring_list :: "nat \<Rightarrow> 'a option list \<Rightarrow> nat \<Rightarrow> nat \<Rightarrow> 'a list" where
  "ring_list N xs rd wr = map (\<lambda>i. the (xs ! (Suc (rd + i) mod N))) [0..<dist N rd wr]"

definition ring_ok :: "nat \<Rightarrow> 'a option list \<Rightarrow> nat \<Rightarrow> nat \<Rightarrow> bool" where
  "ring_ok N xs rd wr \<longleftrightarrow> length xs = N \<and> rd < N \<and> wr < N \<and>
     (\<forall>i < dist N rd wr. xs ! (Suc (rd + i) mod N) \<noteq> None)"

lemma slot_at_dist:
  "rd < N \<Longrightarrow> j < N \<Longrightarrow> (rd + dist N rd j) mod N = j"
  by (auto simp: dist_def)

lemma length_ring_list [simp]: "length (ring_list N xs rd wr) = dist N rd wr"
  by (simp add: ring_list_def)

lemma dist_next_full:
  assumes "rd < N" "wr < N"
  shows "cyc_next N wr = rd \<longleftrightarrow> dist N rd wr = N - 1"
  using assms by (auto simp: dist_def cyc_next_cases)

lemma ring_put:
  assumes ok: "ring_ok N xs rd wr" and nf: "cyc_next N wr \<noteq> rd"
  shows "ring_ok N (xs[cyc_next N wr := Some x]) rd (cyc_next N wr)"
    and "ring_list N (xs[cyc_next N wr := Some x]) rd (cyc_next N wr) = ring_list N xs rd wr @ [x]"
proof -
  have b: "rd < N" "wr < N" "length xs = N" "cyc_next N wr < N" using ok by (auto simp: ring_ok_def)
  have d: "dist N rd (cyc_next N wr) = Suc (dist N rd wr)" by (rule dist_next [OF b(1,2) nf])
  have last: "Suc (rd + dist N rd wr) mod N = cyc_next N wr"
    using slot_at_dist [OF b(1,2)] by (metis mod_Suc_eq)
  have ne: "Suc (rd + i) mod N \<noteq> cyc_next N wr" if "i < dist N rd wr" for i
    unfolding last [symmetric] by (rule mod_apart) (use that dist_less [OF b(1,2)] in auto)
  show "ring_ok N (xs[cyc_next N wr := Some x]) rd (cyc_next N wr)"
    using ok b ne last by (auto simp: ring_ok_def d less_Suc_eq nth_list_update)
  show "ring_list N (xs[cyc_next N wr := Some x]) rd (cyc_next N wr) = ring_list N xs rd wr @ [x]"
    using b ne ne [symmetric] last by (simp add: ring_list_def d nth_list_update)
qed

lemma ring_get:
  assumes ok: "ring_ok N xs rd wr" and ne: "rd \<noteq> wr"
  shows "\<exists>x. xs ! (cyc_next N rd) = Some x \<and> ring_list N xs rd wr = x # ring_list N xs (cyc_next N rd) wr
    \<and> ring_ok N xs (cyc_next N rd) wr \<and> dist N rd wr = Suc (dist N (cyc_next N rd) wr)"
proof -
  have b: "rd < N" "wr < N" "length xs = N" "cyc_next N rd < N" using ok by (auto simp: ring_ok_def)
  have d: "dist N rd wr = Suc (dist N (cyc_next N rd) wr)"
    using b ne by (auto simp: dist_def cyc_next_cases split: if_splits)
  have sh: "Suc (cyc_next N rd + i) mod N = Suc (rd + Suc i) mod N" for i
    by (metis add_Suc add_Suc_right mod_Suc_eq mod_add_left_eq)
  obtain x where "xs ! (cyc_next N rd) = Some x" using ok d unfolding ring_ok_def by fastforce
  moreover have "ring_list N xs rd wr = the (xs ! (cyc_next N rd)) # ring_list N xs (cyc_next N rd) wr"
    unfolding ring_list_def d upt_conv_Cons [OF zero_less_Suc] map_Suc_upt [symmetric] by (simp add: sh)
  moreover have "ring_ok N xs (cyc_next N rd) wr" using ok b d by (auto simp: ring_ok_def sh)
  ultimately show ?thesis using d by simp
qed

definition size_ok :: "nat \<Rightarrow> bool" where
  "size_ok N \<longleftrightarrow> (\<exists>k < 31. N = 2 ^ k)"

definition nofree_ok :: "nat \<Rightarrow> 'a MsgFifoNoFree \<Rightarrow> bool" where
  "nofree_ok N q \<longleftrightarrow> size_ok N \<and> ring_ok N (nItems q) (nReadHead q) (nWriteHead q)"

definition nofree_queued :: "nat \<Rightarrow> 'a MsgFifoNoFree \<Rightarrow> 'a list" where
  "nofree_queued N q = ring_list N (nItems q) (nReadHead q) (nWriteHead q)"

definition fifo_ok :: "nat \<Rightarrow> 'a MsgFifo \<Rightarrow> bool" where
  "fifo_ok N q \<longleftrightarrow> size_ok N \<and> ring_ok N (mFifoItems q) (mFreeHead q) (mWriteHead q)"

definition fifo_unfreed :: "nat \<Rightarrow> 'a MsgFifo \<Rightarrow> 'a list" where
  "fifo_unfreed N q = ring_list N (mFifoItems q) (mFreeHead q) (mWriteHead q)"

lemma size_ok_next: "size_ok N \<Longrightarrow> i < N \<Longrightarrow> NextPos N i = cyc_next N i"
  using NextPos_mod by (auto simp: size_ok_def)

interpretation nofree: bounded_queue "nofree_ok N" "nofree_queued N" "N - 1" "MsgFifoNoFree_Write N" for N
proof
  fix q :: "'a MsgFifoNoFree" and x
  assume ok: "nofree_ok N q"
  then have b: "nReadHead q < N" "nWriteHead q < N" "length (nItems q) = N"
    and r: "ring_ok N (nItems q) (nReadHead q) (nWriteHead q)" and s: "size_ok N"
    by (auto simp: nofree_ok_def ring_ok_def)
  note nx = size_ok_next [OF s b(2)]
  show "length (nofree_queued N q) \<le> N - 1"
    using dist_less [OF b(1,2)] by (simp add: nofree_queued_def)
  show "MsgFifoNoFree_Write N x q = Some (False, q)" if "length (nofree_queued N q) = N - 1"
    using that dist_next_full [OF b(1,2)] nx by (simp add: MsgFifoNoFree_Write_def nofree_queued_def)
  show "\<exists>q'. MsgFifoNoFree_Write N x q = Some (True, q') \<and> nofree_ok N q' \<and> nofree_queued N q' = nofree_queued N q @ [x]"
    if "length (nofree_queued N q) < N - 1"
  proof -
    have nf: "cyc_next N (nWriteHead q) \<noteq> nReadHead q"
      using that dist_next_full [OF b(1,2)] by (auto simp: nofree_queued_def)
    have "cyc_next N (nWriteHead q) < N" using b by simp
    then show ?thesis using nf ring_put [OF r nf] nx b(3) s
      by (simp add: MsgFifoNoFree_Write_def nofree_ok_def nofree_queued_def Let_def)
  qed
qed

interpretation msg_fifo: bounded_queue "fifo_ok N" "fifo_unfreed N" "N - 1" "MsgFifo_Write N" for N
proof
  fix q :: "'a MsgFifo" and x
  assume ok: "fifo_ok N q"
  then have b: "mFreeHead q < N" "mWriteHead q < N" "length (mFifoItems q) = N"
    and r: "ring_ok N (mFifoItems q) (mFreeHead q) (mWriteHead q)" and s: "size_ok N"
    by (auto simp: fifo_ok_def ring_ok_def)
  note nx = size_ok_next [OF s b(2)]
  show "length (fifo_unfreed N q) \<le> N - 1"
    using dist_less [OF b(1,2)] by (simp add: fifo_unfreed_def)
  show "MsgFifo_Write N x q = Some (False, q)" if "length (fifo_unfreed N q) = N - 1"
    using that dist_next_full [OF b(1,2)] nx by (simp add: MsgFifo_Write_def fifo_unfreed_def)
  show "\<exists>q'. MsgFifo_Write N x q = Some (True, q') \<and> fifo_ok N q' \<and> fifo_unfreed N q' = fifo_unfreed N q @ [x]"
    if "length (fifo_unfreed N q) < N - 1"
  proof -
    have nf: "cyc_next N (mWriteHead q) \<noteq> mFreeHead q"
      using that dist_next_full [OF b(1,2)] by (auto simp: fifo_unfreed_def)
    have "cyc_next N (mWriteHead q) < N" using b by simp
    then show ?thesis using nf ring_put [OF r nf] nx b(3) s
      by (simp add: MsgFifo_Write_def fifo_ok_def fifo_unfreed_def Let_def)
  qed
qed

lemma Perform_loop_all:
  "nofree_ok N q \<Longrightarrow> dist N (nReadHead q) (nWriteHead q) < fuel \<Longrightarrow>
   MsgFifoNoFree_Perform_loop N fuel q = Some (nofree_queued N q, q\<lparr>nReadHead := nWriteHead q\<rparr>)"
proof (induction fuel arbitrary: q)
  case (Suc fuel)
  then have b: "nReadHead q < N" "nWriteHead q < N" "length (nItems q) = N"
    and r: "ring_ok N (nItems q) (nReadHead q) (nWriteHead q)" and s: "size_ok N"
    by (auto simp: nofree_ok_def ring_ok_def)
  show ?case
  proof (cases "nReadHead q = nWriteHead q")
    case True
    then show ?thesis by (simp add: MsgFifoNoFree_HasData_def nofree_queued_def ring_list_def)
  next
    case False
    obtain x where x: "nItems q ! cyc_next N (nReadHead q) = Some x"
      "ring_list N (nItems q) (nReadHead q) (nWriteHead q) = x # ring_list N (nItems q) (cyc_next N (nReadHead q)) (nWriteHead q)"
      "ring_ok N (nItems q) (cyc_next N (nReadHead q)) (nWriteHead q)"
      "dist N (nReadHead q) (nWriteHead q) = Suc (dist N (cyc_next N (nReadHead q)) (nWriteHead q))"
      using ring_get [OF r False] by blast
    have "MsgFifoNoFree_Perform_loop N fuel (q\<lparr>nReadHead := cyc_next N (nReadHead q)\<rparr>) =
      Some (nofree_queued N (q\<lparr>nReadHead := cyc_next N (nReadHead q)\<rparr>), q\<lparr>nReadHead := nWriteHead q\<rparr>)"
      using Suc.IH [of "q\<lparr>nReadHead := cyc_next N (nReadHead q)\<rparr>"] Suc.prems(2) x s
      by (simp add: nofree_ok_def)
    then show ?thesis using False x b size_ok_next [OF s b(1)]
      by (simp add: MsgFifoNoFree_HasData_def nofree_queued_def Let_def)
  qed
qed simp

text \<open>
  Writing any messages to a \<open>MsgFifoNoFree\<close> of \<open>N\<close> slots and then performing it performs what was
  queued before, then the new messages in order up to a total of \<open>N - 1\<close>; the writes beyond that return
  false and their messages are dropped.
\<close>

theorem nofree_write_perform:
  assumes "nofree_ok N q"
  shows "\<exists>q' bs. put_all (MsgFifoNoFree_Write N) xs q = Some (bs, q')
    \<and> length (filter (\<lambda>b. b) bs) = min (length xs) (N - 1 - length (nofree_queued N q))
    \<and> MsgFifoNoFree_Perform N q' = Some (nofree_queued N q @ take (N - 1 - length (nofree_queued N q)) xs,
        MsgFifoNoFree_MakeEmpty q')"
proof -
  obtain q' bs where w: "put_all (MsgFifoNoFree_Write N) xs q = Some (bs, q')" "nofree_ok N q'"
    "nofree_queued N q' = nofree_queued N q @ take (N - 1 - length (nofree_queued N q)) xs"
    "bs = replicate (min (length xs) (N - 1 - length (nofree_queued N q))) True @
          replicate (length xs - (N - 1 - length (nofree_queued N q))) False"
    using nofree.put_all_takes [OF assms, of xs] by blast
  have "dist N (nReadHead q') (nWriteHead q') < Suc N"
    using w(2) dist_less by (fastforce simp: nofree_ok_def ring_ok_def)
  then have "MsgFifoNoFree_Perform N q' = Some (nofree_queued N q', MsgFifoNoFree_MakeEmpty q')"
    using Perform_loop_all [OF w(2)] by (simp add: MsgFifoNoFree_Perform_def MsgFifoNoFree_MakeEmpty_def
        del: MsgFifoNoFree_Perform_loop.simps)
  then show ?thesis using w by simp
qed

theorem nofree_write_perform_witness:
  "\<exists>q' bs. put_all (MsgFifoNoFree_Write 4) [10, 11, 12, 13 :: nat] (MsgFifoNoFree_new 4) = Some (bs, q')
    \<and> MsgFifoNoFree_Perform 4 q' = Some ([10, 11, 12], MsgFifoNoFree_MakeEmpty q')"
proof -
  have "size_ok 4" unfolding size_ok_def by (intro exI [of _ 2]) simp
  then have ok: "nofree_ok 4 (MsgFifoNoFree_new 4 :: nat MsgFifoNoFree)"
    by (simp add: nofree_ok_def ring_ok_def MsgFifoNoFree_new_def)
  have "nofree_queued 4 (MsgFifoNoFree_new 4 :: nat MsgFifoNoFree) = []"
    by (simp add: nofree_queued_def ring_list_def MsgFifoNoFree_new_def)
  then show ?thesis using nofree_write_perform [OF ok, of "[10, 11, 12, 13]"] by auto
qed

text \<open>A run of the steps: one message is written and is being performed.\<close>

definition demo_fifo :: "nat fifo_sys" where
  "demo_fifo = \<lparr>fs_q = \<lparr>mReadHead = 0, mWriteHead = 1, mFreeHead = 0, mFifoItems = [None, Some 7]\<rparr>,
     fs_writer = W_idle, fs_performer = R_visit 1, fs_freer = R_idle,
     fs_written = [7], fs_performed = [], fs_freed = []\<rparr>"

lemma demo_fifo_reachable: "(fifo_step 2)\<^sup>*\<^sup>* (fifo_start 2) demo_fifo"
proof -
  have n: "NextPos 2 0 = 1" using NextPos_mod [of 2 1 0] by simp
  define s1 where "s1 = (fifo_start 2 :: nat fifo_sys)\<lparr>fs_writer := W_store 7 1\<rparr>"
  define s2 where "s2 = s1\<lparr>fs_writer := W_publish 7 1, fs_q := (fs_q s1)\<lparr>mFifoItems := [None, Some 7]\<rparr>\<rparr>"
  define s3 where "s3 = s2\<lparr>fs_writer := W_idle, fs_q := (fs_q s2)\<lparr>mWriteHead := 1\<rparr>, fs_written := fs_written s2 @ [7]\<rparr>"
  have e1: "fifo_step 2 (fifo_start 2) s1" unfolding s1_def
    by (rule write_begin) (simp_all add: fifo_start_def MsgFifo_new_def n)
  have e2: "fifo_step 2 s1 s2" unfolding s2_def
    by (rule write_store) (simp_all add: s1_def fifo_start_def MsgFifo_new_def awrite_def numeral_2_eq_2)
  have e3: "fifo_step 2 s2 s3" unfolding s3_def
    by (rule write_publish) (simp add: s2_def)
  have "fifo_step 2 s3 (s3\<lparr>fs_performer := R_visit 1\<rparr>)"
    by (rule perform_begin) (simp_all add: s3_def s2_def s1_def fifo_start_def MsgFifo_new_def MsgFifo_HasData_def n)
  moreover have "s3\<lparr>fs_performer := R_visit 1\<rparr> = demo_fifo"
    by (simp add: demo_fifo_def s3_def s2_def s1_def fifo_start_def MsgFifo_new_def)
  ultimately have e4: "fifo_step 2 s3 demo_fifo" by simp
  show ?thesis using e1 e2 e3 e4 by (meson converse_rtranclp_into_rtranclp r_into_rtranclp)
qed

theorem msg_fifo_interleaved_witness:
  "(\<exists>m. fs_performed demo_fifo = take m [7]) \<and>
   (\<exists>msg. aread (mFifoItems (fs_q demo_fifo)) 1 = Some (Some msg))"
  using msg_fifo_interleaved [OF demo_fifo_reachable, of 1] by (simp add: demo_fifo_def)

section \<open>Messages waiting in a queue\<close>

text \<open>A queue with the messages \<open>ys\<close> performed but not freed and \<open>zs\<close> not performed.\<close>

definition fifo_state :: "nat \<Rightarrow> 'a list \<Rightarrow> 'a list \<Rightarrow> 'a MsgFifo \<Rightarrow> bool" where
  "fifo_state N ys zs q \<longleftrightarrow> size_ok N
     \<and> ring_ok N (mFifoItems q) (mFreeHead q) (mReadHead q) \<and> ring_list N (mFifoItems q) (mFreeHead q) (mReadHead q) = ys
     \<and> ring_ok N (mFifoItems q) (mReadHead q) (mWriteHead q) \<and> ring_list N (mFifoItems q) (mReadHead q) (mWriteHead q) = zs
     \<and> dist N (mFreeHead q) (mWriteHead q) = length ys + length zs"

lemma ring_join:
  assumes a: "ring_ok N xs i j" and b: "ring_ok N xs j k" and d: "dist N i k = dist N i j + dist N j k"
  shows "ring_ok N xs i k" and "ring_list N xs i k = ring_list N xs i j @ ring_list N xs j k"
proof -
  have "(i + dist N i j) mod N = j" using slot_at_dist [of i N j] a b by (simp add: ring_ok_def)
  then have at: "Suc (i + (dist N i j + m)) mod N = Suc (j + m) mod N" for m
    by (metis add.assoc add_Suc mod_add_left_eq mod_Suc_eq)
  have "xs ! (Suc (i + m) mod N) \<noteq> None" if "m < dist N i k" for m
  proof (cases "m < dist N i j")
    case False
    then have m: "m = dist N i j + (m - dist N i j)" "m - dist N i j < dist N j k" using that d by auto
    then show ?thesis using b at [of "m - dist N i j"] by (auto simp: ring_ok_def)
  qed (use a in \<open>simp add: ring_ok_def\<close>)
  then show "ring_ok N xs i k" using a b by (simp add: ring_ok_def)
  have "[0..<dist N i k] = [0..<dist N i j] @ List.map (\<lambda>m. dist N i j + m) [0..<dist N j k]"
    by (rule nth_equalityI) (auto simp: d nth_append)
  then show "ring_list N xs i k = ring_list N xs i j @ ring_list N xs j k"
    by (simp add: ring_list_def at o_def)
qed

lemma MsgFifo_Perform_loop_all:
  "size_ok N \<Longrightarrow> ring_ok N (mFifoItems q) (mReadHead q) (mWriteHead q) \<Longrightarrow> dist N (mReadHead q) (mWriteHead q) < fuel \<Longrightarrow>
   MsgFifo_Perform_loop N fuel q = Some (ring_list N (mFifoItems q) (mReadHead q) (mWriteHead q), q\<lparr>mReadHead := mWriteHead q\<rparr>)"
proof (induction fuel arbitrary: q)
  case (Suc fuel)
  then have b: "mReadHead q < N" "length (mFifoItems q) = N" by (auto simp: ring_ok_def)
  show ?case
  proof (cases "mReadHead q = mWriteHead q")
    case True
    then show ?thesis by (simp add: MsgFifo_HasData_def ring_list_def)
  next
    case False
    let ?q = "q\<lparr>mReadHead := cyc_next N (mReadHead q)\<rparr>"
    obtain x where x: "mFifoItems q ! cyc_next N (mReadHead q) = Some x"
      "ring_list N (mFifoItems q) (mReadHead q) (mWriteHead q) = x # ring_list N (mFifoItems q) (cyc_next N (mReadHead q)) (mWriteHead q)"
      "ring_ok N (mFifoItems q) (cyc_next N (mReadHead q)) (mWriteHead q)"
      "dist N (mReadHead q) (mWriteHead q) = Suc (dist N (cyc_next N (mReadHead q)) (mWriteHead q))"
      using ring_get [OF Suc.prems(2) False] by blast
    then show ?thesis using False b size_ok_next [OF Suc.prems(1) b(1)] Suc.IH [of ?q] Suc.prems(1,3)
      by (simp add: MsgFifo_HasData_def Let_def)
  qed
qed simp

lemma MsgFifo_Free_loop_all:
  "size_ok N \<Longrightarrow> ring_ok N (mFifoItems q) (mFreeHead q) (mReadHead q) \<Longrightarrow> dist N (mFreeHead q) (mReadHead q) < fuel \<Longrightarrow>
   MsgFifo_Free_loop N fuel q = Some (ring_list N (mFifoItems q) (mFreeHead q) (mReadHead q), q\<lparr>mFreeHead := mReadHead q\<rparr>)"
proof (induction fuel arbitrary: q)
  case (Suc fuel)
  then have b: "mFreeHead q < N" "length (mFifoItems q) = N" by (auto simp: ring_ok_def)
  show ?case
  proof (cases "mFreeHead q = mReadHead q")
    case True
    then show ?thesis by (simp add: MsgFifo_NeedsFree_def ring_list_def)
  next
    case False
    let ?q = "q\<lparr>mFreeHead := cyc_next N (mFreeHead q)\<rparr>"
    obtain x where x: "mFifoItems q ! cyc_next N (mFreeHead q) = Some x"
      "ring_list N (mFifoItems q) (mFreeHead q) (mReadHead q) = x # ring_list N (mFifoItems q) (cyc_next N (mFreeHead q)) (mReadHead q)"
      "ring_ok N (mFifoItems q) (cyc_next N (mFreeHead q)) (mReadHead q)"
      "dist N (mFreeHead q) (mReadHead q) = Suc (dist N (cyc_next N (mFreeHead q)) (mReadHead q))"
      using ring_get [OF Suc.prems(2) False] by blast
    then show ?thesis using False b size_ok_next [OF Suc.prems(1) b(1)] Suc.IH [of ?q] Suc.prems(1,3)
      by (simp add: MsgFifo_NeedsFree_def Let_def)
  qed
qed simp

lemma ring_self: "ring_ok N xs i j \<Longrightarrow> ring_ok N xs j j \<and> ring_list N xs j j = [] \<and> ring_ok N xs i i \<and> ring_list N xs i i = []"
  by (auto simp: ring_ok_def ring_list_def dist_def)

lemma fifo_state_perform:
  assumes "fifo_state N ys zs q"
  shows "\<exists>q'. MsgFifo_Perform N q = Some (zs, q') \<and> fifo_state N (ys @ zs) [] q'"
proof -
  note a = assms [unfolded fifo_state_def]
  have "dist N (mReadHead q) (mWriteHead q) < Suc N" using a dist_less [of "mReadHead q" N "mWriteHead q"] by (auto simp: ring_ok_def)
  then have "MsgFifo_Perform N q = Some (zs, q\<lparr>mReadHead := mWriteHead q\<rparr>)"
    using MsgFifo_Perform_loop_all [of N q "Suc N"] a by (simp add: MsgFifo_Perform_def)
  moreover have "dist N (mFreeHead q) (mWriteHead q) = dist N (mFreeHead q) (mReadHead q) + dist N (mReadHead q) (mWriteHead q)"
    using a by (metis length_ring_list)
  then have "fifo_state N (ys @ zs) [] (q\<lparr>mReadHead := mWriteHead q\<rparr>)"
    using a ring_join [of N "mFifoItems q" "mFreeHead q" "mReadHead q" "mWriteHead q"]
      ring_self [of N "mFifoItems q" "mReadHead q" "mWriteHead q"] by (simp add: fifo_state_def)
  ultimately show ?thesis by blast
qed

lemma fifo_state_free:
  assumes "fifo_state N ys zs q"
  shows "\<exists>q'. MsgFifo_Free N q = Some (ys, q') \<and> fifo_state N [] zs q'"
proof -
  note a = assms [unfolded fifo_state_def]
  have "dist N (mFreeHead q) (mReadHead q) < Suc N" using a dist_less [of "mFreeHead q" N "mReadHead q"] by (auto simp: ring_ok_def)
  then have "MsgFifo_Free N q = Some (ys, q\<lparr>mFreeHead := mReadHead q\<rparr>)"
    using MsgFifo_Free_loop_all [of N q "Suc N"] a by (simp add: MsgFifo_Free_def)
  moreover have "fifo_state N [] zs (q\<lparr>mFreeHead := mReadHead q\<rparr>)"
    using a ring_self [of N "mFifoItems q" "mReadHead q" "mWriteHead q"] length_ring_list [of N "mFifoItems q" "mReadHead q" "mWriteHead q"] by (simp add: fifo_state_def)
  ultimately show ?thesis by blast
qed

lemma fifo_state_write:
  assumes "fifo_state N ys zs q" and "length ys + length zs < N - 1"
  shows "\<exists>q'. MsgFifo_Write N x q = Some (True, q') \<and> fifo_state N ys (zs @ [x]) q'"
proof -
  note a = assms(1) [unfolded fifo_state_def]
  let ?f = "mFreeHead q" and ?r = "mReadHead q" and ?w = "mWriteHead q" and ?xs = "mFifoItems q"
  let ?n = "cyc_next N ?w" and ?xs' = "?xs[cyc_next N ?w := Some x]"
  have b: "?f < N" "?r < N" "?w < N" "length ?xs = N" using a by (auto simp: ring_ok_def)
  have ds: "dist N ?f ?r = length ys" "dist N ?r ?w = length zs" using a by (metis length_ring_list)+
  have nf: "?n \<noteq> ?f" "?n \<noteq> ?r" using dist_next_full [OF b(1,3)] dist_next_full [OF b(2,3)] a ds assms(2) by auto
  have d: "dist N ?f ?n = Suc (length ys + length zs)" using dist_next [OF b(1,3) nf(1)] a by simp
  have nn: "?n < N" using b by simp
  have ne: "Suc (?f + i) mod N \<noteq> ?n" if "i < length ys" for i
  proof -
    have "Suc (?f + (length ys + length zs)) mod N = ?n"
      using slot_at_dist [OF b(1) b(3)] a by (metis mod_Suc_eq)
    moreover have "Suc (?f + i) mod N \<noteq> Suc (?f + (length ys + length zs)) mod N"
      by (rule mod_apart) (use that assms(2) in linarith)+
    ultimately show ?thesis by simp
  qed
  have slot: "?xs' ! (Suc (?f + i) mod N) = ?xs ! (Suc (?f + i) mod N)" if "i < length ys" for i
    using ne [OF that] by simp
  have "ring_ok N ?xs' ?f ?r" using a slot ds by (simp add: ring_ok_def)
  moreover have "ring_list N ?xs' ?f ?r = ring_list N ?xs ?f ?r"
    unfolding ring_list_def ds by (rule map_cong) (simp_all add: slot)
  ultimately show ?thesis
    using a nf nn b d ring_put [of N ?xs ?r ?w x] size_ok_next [of N ?w]
    by (simp add: fifo_state_def MsgFifo_Write_def Let_def)
qed

end
