(* ===== verification/SC_World.thy ===== *)
theory SC_World
  imports SC_Tables SC_Fifo SC_Packet
begin

text \<open>
  The state of the synthesis engine: \<open>include/plugin_interface/SC_Node.h\<close>, \<open>SC_Graph.h\<close>, \<open>SC_World.h\<close>,
  \<open>include/server/SC_Group.h\<close>, \<open>SC_GraphDef.h\<close>, \<open>SC_HiddenWorld.h\<close>, and the accessors of
  \<open>server/scsynth/SC_World.cpp\<close>.

  \<open>World\<close> and \<open>HiddenWorld\<close> are one record. Nodes live in a heap from addresses to \<open>Node\<close> records; a
  \<open>Group\<close> or a \<open>Graph\<close> is the record of its \<open>Node\<close> with its own fields. Dereferencing an address that
  is not allocated (null, or freed) is \<open>None\<close>. Addresses are never reused, so that a dangling pointer
  stays one. \<open>allocs\<close> says which of the coming allocations fail; past its end they succeed.

  \<open>mWorld\<close> of a node always is the one world and is left out. Calls of a unit's constructor,
  destructor and calculation function, which plug-ins implement, are recorded in \<open>unit_log\<close>.
  \<open>mReplies\<close> records the packets sent to clients, \<open>mSchedCleared\<close> and \<open>mQuitProgram\<close> count the
  calls of the driver's \<open>ClearSched\<close> and of the semaphore's \<open>Release\<close>; \<open>mOpenFiles\<close> are the sound
  files that are open, \<open>mFileWrites\<close> the samples written to them, \<open>mFreedPackets\<close> the OSC packets freed.
\<close>

section \<open>Nodes\<close>

datatype SCErr = kSCErr_None | kSCErr_Failed | kSCErr_NodeNotFound | kSCErr_TargetNodeNotFound
  | kSCErr_GroupNotFound | kSCErr_SynthDefNotFound | kSCErr_NoSuchCommand | kSCErr_WrongArgType
  | kSCErr_IndexOutOfRange | kSCErr_AccessDenied | kSCErr_NoReplyPort | kSCErr_InvalidControlIndex
  | kSCErr_AlreadyLoggedIn | kSCErr_NotLoggedIn | kSCErr_TooManyUsers | kSCErr_TooManyNodes
  | kSCErr_DuplicateNodeID | kSCErr_ReservedNodeID | kSCErr_OutOfRealTimeMemory
  | kSCErr_UnsupportedHeaderFormat | kSCErr_UnsupportedSampleFormat | kSCErr_BufGenNotFound

datatype NodeCalcFunc = Cf_uninit | Cf_Node_NullCalc | Cf_Node_Delete
  | Cf_Group_Calc | Cf_Group_CalcTrace | Cf_Group_CalcDumpTree | Cf_Group_CalcDumpTreeAndControls
  | Cf_Graph_Calc | Cf_Graph_FirstCalc | Cf_Graph_NullFirstCalc | Cf_Graph_CalcTrace

datatype NodeState = kNode_Go | kNode_End | kNode_On | kNode_Off | kNode_Move | kNode_Info

datatype def_ref = GroupNodeDef | Def ptr

datatype calc_rate = calc_ScalarRate | calc_BufRate | calc_FullRate | calc_DemandRate

text \<open>A control reads its own value, or a sample of a control or audio bus.\<close>

datatype control_ptr = OwnControl nat | ControlBus nat | AudioBus nat

text \<open>A wire's buffer is its own scalar value or a place in the wire buffer space.\<close>

datatype wire_buf = WireScalar nat | WireBufSpace nat

record Wire =
  wFromUnit :: "nat option"
  wCalcRate :: calc_rate
  wBuffer :: wire_buf
  wScalarValue :: f32

record Unit =
  uCalcRate :: calc_rate
  uInput :: "nat list"
  uInBuf :: "wire_buf option list"
  uOutput :: "nat list"
  uOutBuf :: "wire_buf list"

record Node =
  mID :: i32
  mHash :: i32
  mDef :: def_ref
  mCalcFunc :: NodeCalcFunc
  mPrev :: "ptr option"
  mNext :: "ptr option"
  mParent :: "ptr option"
  mIsGroup :: bool
  mHead :: "ptr option"
  mTail :: "ptr option"
  gNumControls :: nat
  gControls :: "f32 list"
  gMapControls :: "control_ptr list"
  gControlRates :: "nat list"
  gNumUnits :: nat
  gUnits :: "Unit list"
  gWire :: "Wire option list"
  gNumCalcUnits :: nat
  gCalcUnits :: "nat list"
  gSampleOffset :: i32
  gSubsampleOffset :: f32
  localBufNum :: i32
  localMaxBufNum :: i32

section \<open>Synth definitions\<close>

record ParamSpec =
  psName :: "i32 list"
  psIndex :: nat
  psHash :: i32

record UnitSpec =
  usCalcRate :: calc_rate
  usInputSpec :: "nat list"
  usOutputSpec :: "nat list"

record GraphDef =
  dName :: "i32 list"
  dHash :: i32
  dNumControls :: nat
  dInitialControlValues :: "f32 list"
  dNumWires :: nat
  dConstants :: "f32 list"
  dUnitSpecs :: "UnitSpec list"
  dNumCalcUnits :: nat
  dParamSpecs :: "ParamSpec list"
  dParamSpecTable :: "nat HashTable"
  dRefCount :: int
  dOriginal :: ptr
  dVariants :: "ptr list"

section \<open>The world\<close>

record NodeEndMsg =
  meNodeID :: i32
  meGroupID :: i32
  mePrevNodeID :: i32
  meNextNodeID :: i32
  meIsGroup :: i32
  meHeadID :: i32
  meTailID :: i32
  meState :: NodeState

record TriggerMsg =
  mtNodeID :: i32
  mtTriggerID :: i32
  mtValue :: f32

record NodeReplyMsg =
  mrNodeID :: i32
  mrID :: i32
  mrValues :: "f32 list"
  mrCmdName :: "u8 list"

text \<open>
  A buffer's samples are in a store of their own; \<open>sbSndfile\<close> names an open file. \<open>sampledur\<close> is
  \<open>1 / samplerate\<close> and left out.
\<close>

record SndBuf =
  sbSamplerate :: f64
  sbData :: "ptr option"
  sbChannels :: i32
  sbSamples :: i32
  sbFrames :: i32
  sbMask :: i32
  sbMask1 :: i32
  sbCoord :: i32
  sbSndfile :: "nat option"

text \<open>
  The sequenced commands: one record for the fields of all the classes of
  \<open>include/server/SC_SequencedCommand.h\<close>, with the class in \<open>scClass\<close>; a null \<open>mMsgData\<close> is
  \<open>None\<close>. A command in a queue is the record itself.
\<close>

datatype seq_class = SyncCmd | BufAllocCmd | BufFreeCmd | BufCloseCmd | BufAllocReadCmd | BufReadCmd
  | BufAllocReadChannelCmd | BufReadChannelCmd | BufWriteCmd | BufZeroCmd | BufGenCmd
  | LoadSynthDefCmd | RecvSynthDefCmd | LoadSynthDefDirCmd | SendReplyCmd | SendFailureCmd
  | AudioStatusCmd | AudioQuitCmd | NotifyCmd | AsyncPlugInCmd

record SC_SequencedCommand =
  scClass :: seq_class
  mNextStage :: nat
  mReplyAddress :: nat
  mMsgData :: "u8 list option"
  mCmdID :: i32
  mBufIndex :: i32
  mNumFrames :: i32
  mNumChannels :: i32
  mFileOffset :: i32
  mBufOffset :: i32
  mLeaveFileOpen :: bool
  mFilename :: "u8 list"
  mChannels :: "i32 list"
  mCmdSampleRate :: f64
  mFreeData :: "ptr option"
  mSndBuf :: "SndBuf option"
  mBuffer :: "u8 list"
  mMsg :: "sc_msg_iter option"
  mFormat :: i32
  mDefs :: "ptr list"
  mCmdName :: "u8 list"
  mErrString :: "u8 list"

text \<open>What goes through the queues between the real-time and the non-real-time side.\<close>

datatype fifo_msg = DoSequencedCommand SC_SequencedCommand | FreeSequencedCommand SC_SequencedCommand
  | NodeReplyMsg_RTFree | FreeOSCPacket nat

datatype unit_event = Unit_Ctor ptr nat | Unit_Calc ptr nat | Unit_Dtor ptr nat

record World =
  heap :: "ptr \<Rightarrow> Node option"
  fresh :: ptr
  allocs :: "bool list"
  mNodeLib :: "ptr HashTable"
  mTopGroup :: ptr
  mHiddenID :: i32
  mRecentID :: i32
  mNumUnits :: u32
  mNumGraphs :: u32
  mNumGroups :: u32
  mRealTime :: bool
  mNodeEnds :: "NodeEndMsg MsgFifoNoFree"
  mTriggers :: "TriggerMsg MsgFifoNoFree"
  mNodeMsgs :: "NodeReplyMsg MsgFifoNoFree"
  mDeleteGraphDefs :: "ptr MsgFifoNoFree"
  defs :: "ptr \<Rightarrow> GraphDef option"
  mGraphDefLib :: "ptr HashTable"
  mNumControlBusChannels :: u32
  mNumAudioBusChannels :: u32
  mBufLength :: nat
  mBufCounter :: i32
  mControlBus :: "f32 list"
  mControlBusTouched :: "i32 list"
  mSndBufs :: "SndBuf list"
  mSndBufsNonRealTimeMirror :: "SndBuf list"
  mSndBufUpdates :: "nat list"
  bufmem :: "ptr \<Rightarrow> f32 list option"
  bufFresh :: ptr
  zallocs :: "bool list"
  mFullSampleRate :: f64
  mFromEngine :: "fifo_msg MsgFifo"
  mToEngine :: "fifo_msg MsgFifo"
  mReplies :: "(nat \<times> u8 list) list"
  mUsers :: "nat list"
  mMaxUsers :: nat
  mRestrictedPath :: "u8 list option"
  mSampleOffset :: i32
  mSubsampleOffset :: f32
  mDumpOSC :: i32
  mErrorNotification :: i32
  mLocalErrorNotification :: i32
  mSchedCleared :: nat
  mQuitProgram :: nat
  mOpenFiles :: "nat list"
  mFileFresh :: nat
  mFileWrites :: "(nat \<times> f32 list) list"
  mFreedPackets :: "nat list"
  unit_log :: "unit_event list"

section \<open>Memory\<close>

definition deref :: "World \<Rightarrow> ptr \<Rightarrow> Node option" where
  "deref w p = heap w p"

definition upd :: "ptr \<Rightarrow> (Node \<Rightarrow> Node) \<Rightarrow> World \<Rightarrow> World option" where
  "upd p f w = (case heap w p of None \<Rightarrow> None | Some n \<Rightarrow> Some (w\<lparr>heap := (heap w)(p \<mapsto> f n)\<rparr>))"

text \<open>The new block holds no node yet; \<open>None\<close> in the pair is a null pointer.\<close>

definition World_Alloc :: "World \<Rightarrow> ptr option \<times> World" where
  "World_Alloc w =
     (case allocs w of
        False # as \<Rightarrow> (None, w\<lparr>allocs := as\<rparr>)
      | as \<Rightarrow> (Some (fresh w), w\<lparr>allocs := tl as, fresh := Suc (fresh w)\<rparr>))"

definition World_Free :: "ptr \<Rightarrow> World \<Rightarrow> World option" where
  "World_Free p w = (case heap w p of None \<Rightarrow> None | Some n \<Rightarrow> Some (w\<lparr>heap := (heap w)(p := None)\<rparr>))"

section \<open>The node table\<close>

definition node_kv :: "(ptr \<Rightarrow> Node option) \<Rightarrow> (ptr, i32) reader" where
  "node_kv h p = (case h p of None \<Rightarrow> None | Some n \<Rightarrow> Some (mHash n, mID n))"

definition World_AddNode :: "ptr \<Rightarrow> World \<Rightarrow> (bool \<times> World) option" where
  "World_AddNode inNode w = do {
     (b, t) \<leftarrow> IntHashTable_Add (node_kv (heap w)) (mNodeLib w) inNode;
     Some (b, w\<lparr>mNodeLib := t\<rparr>) }"

definition World_RemoveNode :: "ptr \<Rightarrow> World \<Rightarrow> (bool \<times> World) option" where
  "World_RemoveNode inNode w = do {
     (b, t) \<leftarrow> IntHashTable_Remove (node_kv (heap w)) (mNodeLib w) inNode;
     Some (b, w\<lparr>mNodeLib := t\<rparr>) }"

definition World_GetNode :: "i32 \<Rightarrow> World \<Rightarrow> ptr option option" where
  "World_GetNode inID w =
     (let inID = (if inID = -1 then mRecentID w else inID)
      in IntHashTable_Get (node_kv (heap w)) (mNodeLib w) inID)"

definition World_GetGraph :: "i32 \<Rightarrow> World \<Rightarrow> ptr option option" where
  "World_GetGraph inID w =
     (let inID = (if inID = -1 then mRecentID w else inID)
      in do {
        r \<leftarrow> World_GetNode inID w;
        (case r of None \<Rightarrow> Some None
         | Some p \<Rightarrow> do { n \<leftarrow> deref w p; Some (if mIsGroup n then None else Some p) }) })"

definition World_GetGroup :: "i32 \<Rightarrow> World \<Rightarrow> ptr option option" where
  "World_GetGroup inID w = do {
     r \<leftarrow> World_GetNode inID w;
     (case r of None \<Rightarrow> Some None
      | Some p \<Rightarrow> do { n \<leftarrow> deref w p; Some (if mIsGroup n then Some p else None) }) }"

text \<open>The comparison lets the index one past the last buffer through.\<close>

definition World_GetBuf :: "u32 \<Rightarrow> World \<Rightarrow> nat" where
  "World_GetBuf index w = (if of_nat (length (mSndBufs w)) < index then 0 else unat index)"

definition World_GetNRTBuf :: "u32 \<Rightarrow> World \<Rightarrow> nat" where
  "World_GetNRTBuf index w = (if of_nat (length (mSndBufs w)) < index then 0 else unat index)"

section \<open>Messages to the clients\<close>

definition id_of :: "World \<Rightarrow> ptr option \<Rightarrow> i32 option" where
  "id_of w p = (case p of None \<Rightarrow> Some (-1) | Some q \<Rightarrow> do { n \<leftarrow> deref w q; Some (mID n) })"

definition post_node_end :: "NodeEndMsg \<Rightarrow> World \<Rightarrow> World option" where
  "post_node_end msg w = do {
     (_, q) \<leftarrow> MsgFifoNoFree_Write 1024 msg (mNodeEnds w);
     Some (w\<lparr>mNodeEnds := q\<rparr>) }"

definition Node_StateMsg :: "ptr \<Rightarrow> NodeState \<Rightarrow> World \<Rightarrow> World option" where
  "Node_StateMsg inNode inState w = do {
     n \<leftarrow> deref w inNode;
     if sint (mID n) < 0 \<and> inState \<noteq> kNode_Info then Some w
     else if \<not> mRealTime w then Some w
     else do {
       grp \<leftarrow> id_of w (mParent n);
       prev \<leftarrow> id_of w (mPrev n);
       nxt \<leftarrow> id_of w (mNext n);
       head \<leftarrow> (if mIsGroup n then id_of w (mHead n) else Some (-1));
       tail \<leftarrow> (if mIsGroup n then id_of w (mTail n) else Some (-1));
       post_node_end \<lparr>meNodeID = mID n, meGroupID = grp, mePrevNodeID = prev, meNextNodeID = nxt,
         meIsGroup = (if mIsGroup n then 1 else 0), meHeadID = head, meTailID = tail, meState = inState\<rparr> w } }"

definition Node_SendTrigger :: "ptr \<Rightarrow> i32 \<Rightarrow> f32 \<Rightarrow> World \<Rightarrow> World option" where
  "Node_SendTrigger inNode triggerID value w = do {
     n \<leftarrow> deref w inNode;
     if \<not> mRealTime w then Some w
     else do {
       (_, q) \<leftarrow> MsgFifoNoFree_Write 1024 \<lparr>mtNodeID = mID n, mtTriggerID = triggerID, mtValue = value\<rparr> (mTriggers w);
       Some (w\<lparr>mTriggers := q\<rparr>) } }"

text \<open>The memory for the values and the name is one block.\<close>

definition Node_SendReply :: "ptr \<Rightarrow> i32 \<Rightarrow> u8 list \<Rightarrow> f32 list \<Rightarrow> World \<Rightarrow> World option" where
  "Node_SendReply inNode replyID cmdName values w = do {
     n \<leftarrow> deref w inNode;
     if \<not> mRealTime w then Some w
     else do {
       len \<leftarrow> cstrlen cmdName;
       (case World_Alloc w of
          (None, w) \<Rightarrow> Some w
        | (Some _, w) \<Rightarrow> do {
            (_, q) \<leftarrow> MsgFifoNoFree_Write 1024 \<lparr>mrNodeID = mID n, mrID = replyID, mrValues = values, mrCmdName = take len cmdName\<rparr> (mNodeMsgs w);
            Some (w\<lparr>mNodeMsgs := q\<rparr>) }) } }"

section \<open>New nodes\<close>

definition next_hidden :: "i32 \<Rightarrow> i32" where
  "next_hidden h = (h - 8) OR 0x80000000"

definition blank_node :: "def_ref \<Rightarrow> i32 \<Rightarrow> Node" where
  "blank_node def inID = \<lparr>mID = inID, mHash = Hash_int inID, mDef = def, mCalcFunc = Cf_uninit,
     mPrev = None, mNext = None, mParent = None, mIsGroup = False, mHead = None, mTail = None,
     gNumControls = 0, gControls = [], gMapControls = [], gControlRates = [], gNumUnits = 0, gUnits = [],
     gWire = [], gNumCalcUnits = 0, gCalcUnits = [], gSampleOffset = 0, gSubsampleOffset = 0, localBufNum = 0, localMaxBufNum = 0\<rparr>"

text \<open>
  The result is an error, or \<open>kSCErr_None\<close> with the new node. A failed allocation is written to
  without a check: undefined.
\<close>

definition Node_New :: "def_ref \<Rightarrow> i32 \<Rightarrow> World \<Rightarrow> (SCErr \<times> ptr option \<times> World) option" where
  "Node_New def inID w =
     (if sint inID < 0 \<and> inID \<noteq> -1 then Some (kSCErr_ReservedNodeID, None, w)
      else let w = (if inID = -1 then w\<lparr>mHiddenID := next_hidden (mHiddenID w)\<rparr> else w);
               inID = (if inID = -1 then mHiddenID w else inID)
           in do {
             there \<leftarrow> World_GetNode inID w;
             if there \<noteq> None then Some (kSCErr_DuplicateNodeID, None, w)
             else (case World_Alloc w of
                 (None, w) \<Rightarrow> None
               | (Some node, w) \<Rightarrow> do {
                   (added, w) \<leftarrow> World_AddNode node (w\<lparr>heap := (heap w)(node \<mapsto> blank_node def inID)\<rparr>);
                   if \<not> added then do { w \<leftarrow> World_Free node w; Some (kSCErr_TooManyNodes, None, w) }
                   else Some (kSCErr_None, Some node, w\<lparr>mRecentID := inID\<rparr>) }) })"

definition Group_New :: "i32 \<Rightarrow> World \<Rightarrow> (SCErr \<times> ptr option \<times> World) option" where
  "Group_New inID w = do {
     (err, r, w) \<leftarrow> Node_New GroupNodeDef inID w;
     (case r of None \<Rightarrow> Some (err, None, w)
      | Some g \<Rightarrow> do {
          w \<leftarrow> upd g (\<lambda>n. n\<lparr>mCalcFunc := Cf_Group_Calc, mIsGroup := True, mHead := None, mTail := None\<rparr>) w;
          Some (kSCErr_None, Some g, w\<lparr>mNumGroups := mNumGroups w + 1\<rparr>) }) }"

section \<open>Definitions\<close>

definition def_kv :: "(ptr \<Rightarrow> GraphDef option) \<Rightarrow> (ptr, i32 list) reader" where
  "def_kv d p = (case d p of None \<Rightarrow> None | Some g \<Rightarrow> Some (dHash g, dName g))"

definition World_GetGraphDef :: "i32 list \<Rightarrow> World \<Rightarrow> ptr option option" where
  "World_GetGraphDef inKey w = HashTable_Get (def_kv (defs w)) (mGraphDefLib w) inKey"

fun add_defs :: "ptr list \<Rightarrow> World \<Rightarrow> World option" where
  "add_defs [] w = Some w"
| "add_defs (v # vs) w = do {
     (_, t) \<leftarrow> Add (def_kv (defs w)) str4eq (mGraphDefLib w) v;
     add_defs vs (w\<lparr>mGraphDefLib := t\<rparr>) }"

definition World_AddGraphDef :: "ptr \<Rightarrow> World \<Rightarrow> World option" where
  "World_AddGraphDef inGraphDef w = do {
     d \<leftarrow> defs w inGraphDef;
     add_defs (inGraphDef # dVariants d) w }"

fun remove_defs :: "ptr list \<Rightarrow> World \<Rightarrow> World option" where
  "remove_defs [] w = Some w"
| "remove_defs (v # vs) w = do {
     (_, t) \<leftarrow> Remove (def_kv (defs w)) str4eq (mGraphDefLib w) v;
     remove_defs vs (w\<lparr>mGraphDefLib := t\<rparr>) }"

definition World_RemoveGraphDef :: "ptr \<Rightarrow> World \<Rightarrow> World option" where
  "World_RemoveGraphDef inGraphDef w = do {
     d \<leftarrow> defs w inGraphDef;
     remove_defs (dVariants d @ [inGraphDef]) w }"

definition GraphDef_DeleteMsg :: "ptr \<Rightarrow> World \<Rightarrow> World option" where
  "GraphDef_DeleteMsg inDef w = do {
     (_, q) \<leftarrow> MsgFifoNoFree_Write 512 inDef (mDeleteGraphDefs w);
     Some (w\<lparr>mDeleteGraphDefs := q\<rparr>) }"

text \<open>A variant is freed only with the definition it belongs to.\<close>

definition GraphDef_Free :: "ptr \<Rightarrow> World \<Rightarrow> World option" where
  "GraphDef_Free inGraphDef w = do {
     d \<leftarrow> defs w inGraphDef;
     if inGraphDef \<noteq> dOriginal d then Some w
     else Some (w\<lparr>defs := (\<lambda>p. if p = inGraphDef \<or> p \<in> set (dVariants d) then None else defs w p)\<rparr>) }"

section \<open>The table of nodes as a map\<close>

definition node_map :: "World \<Rightarrow> i32 \<Rightarrow> ptr option" where
  "node_map w = store_view (node_kv (heap w)) Hash_int (mNodeLib w)"

text \<open>
  The engine's invariant on nodes: the table is well formed, every allocated node is in it under its
  own identifier, and addresses from \<open>fresh\<close> on were never used.
\<close>

definition lib_ok :: "nat \<Rightarrow> World \<Rightarrow> bool" where
  "lib_ok n w \<longleftrightarrow> int_inv (node_kv (heap w)) n (mNodeLib w)
     \<and> (\<forall>p nd. heap w p = Some nd \<longrightarrow> node_map w (mID nd) = Some p)
     \<and> (\<forall>p. fresh w \<le> p \<longrightarrow> heap w p = None)"

lemma slots_ok_cong:
  assumes "\<forall>p \<in> items t. kv p = kv' p" and "length (mItems t) = 2 ^ n"
  shows "i < 2 ^ n \<Longrightarrow> key_at kv t i = key_at kv' t i"
proof -
  assume "i < 2 ^ n"
  then have "\<forall>p. occupant t i = Some p \<longrightarrow> kv p = kv' p" using items_occupant [OF assms(2)] assms(1) by blast
  then show ?thesis by (cases "occupant t i") (simp_all add: key_at_def)
qed

lemma int_inv_cong:
  assumes eq: "\<forall>p \<in> items t. kv p = kv' p" and inv: "int_inv kv n t"
  shows "int_inv kv' n t"
proof -
  have ti: "table_inv kv (\<lambda>_. True) n t" using inv by (simp add: int_inv_def store_inv_def)
  have len: "length (mItems t) = 2 ^ n" using ti by (simp add: table_inv_def shape_def)
  note key = slots_ok_cong [OF eq len]
  have "slots_ok kv' (\<lambda>_. True) n t"
    using ti key unfolding table_inv_def slots_ok_def by metis
  moreover have "\<forall>i < 2 ^ n. reach_but kv' n t {} i"
    using ti key unfolding table_inv_def reach_but_def by metis
  ultimately have "table_inv kv' (\<lambda>_. True) n t" using ti unfolding table_inv_def by blast
  then show ?thesis using inv eq unfolding int_inv_def store_inv_def store_key_def by auto
qed

lemma node_kv_Some: "node_kv h p = Some (a, b) \<longleftrightarrow> (\<exists>nd. h p = Some nd \<and> mHash nd = a \<and> mID nd = b)"
  by (auto simp: node_kv_def split: option.splits)

lemma lib_ok_table: "lib_ok n w \<Longrightarrow> table_inv (node_kv (heap w)) (\<lambda>_. True) n (mNodeLib w)"
  by (simp add: lib_ok_def int_inv_def store_inv_def)

lemma node_map_Some:
  assumes "lib_ok n w"
  shows "node_map w ident = Some p \<longleftrightarrow> (\<exists>nd. heap w p = Some nd \<and> mID nd = ident)"
proof
  assume "node_map w ident = Some p"
  then show "\<exists>nd. heap w p = Some nd \<and> mID nd = ident"
    using int_keys.store_view_Some [OF lib_ok_table [OF assms]] by (auto simp: node_map_def node_kv_Some)
qed (use assms in \<open>auto simp: lib_ok_def\<close>)

lemma lib_ok_hash: "lib_ok n w \<Longrightarrow> heap w p = Some nd \<Longrightarrow> mHash nd = Hash_int (mID nd)"
  using int_keys.store_view_Some [OF lib_ok_table] unfolding lib_ok_def node_map_def
  by (fastforce simp: node_kv_Some)

lemma lib_items:
  assumes "lib_ok n w"
  shows "p \<in> items (mNodeLib w) \<longleftrightarrow> heap w p \<noteq> None"
proof
  assume "p \<in> items (mNodeLib w)"
  then obtain h k where "node_kv (heap w) p = Some (h, k)"
    using int_keys.item_slot [OF lib_ok_table [OF assms], of p] by metis
  then show "heap w p \<noteq> None" by (auto simp: node_kv_Some)
next
  assume "heap w p \<noteq> None"
  then obtain nd where "heap w p = Some nd" by blast
  then have "node_map w (mID nd) = Some p" using assms by (simp add: lib_ok_def)
  then show "p \<in> items (mNodeLib w)"
    using int_keys.store_view_Some [OF lib_ok_table [OF assms]] by (simp add: node_map_def)
qed

lemma World_GetNode_eq:
  "lib_ok n w \<Longrightarrow> World_GetNode inID w = Some (node_map w (if inID = -1 then mRecentID w else inID))"
  using int_table.get_view [of "node_kv (heap w)" n] by (simp add: World_GetNode_def node_map_def lib_ok_def)

text \<open>Changing nodes but not their identifiers keeps the table.\<close>

lemma lib_ok_same_ids:
  assumes ok: "lib_ok n w" and lib: "mNodeLib w' = mNodeLib w" and f: "fresh w \<le> fresh w'"
    and same: "\<And>p. node_kv (heap w') p = node_kv (heap w) p"
  shows "lib_ok n w'" and "node_map w' = node_map w"
proof -
  have kv: "node_kv (heap w') = node_kv (heap w)" using same by blast
  show m: "node_map w' = node_map w" unfolding node_map_def kv lib ..
  have dom: "heap w' p = None \<longleftrightarrow> heap w p = None" for p
    using same [of p] by (auto simp: node_kv_def split: option.splits)
  have "mID nd = mID nd'" if "heap w' p = Some nd" "heap w p = Some nd'" for p nd nd'
    using same [of p] that by (simp add: node_kv_def)
  then show "lib_ok n w'"
    using ok m dom f unfolding lib_ok_def kv lib by (metis le_trans not_None_eq)
qed

lemma lib_ok_upd:
  assumes "lib_ok n w" and "upd p f w = Some w'" and "\<And>nd. mID (f nd) = mID nd" "\<And>nd. mHash (f nd) = mHash nd"
  shows "lib_ok n w'" and "node_map w' = node_map w"
proof -
  have *: "mNodeLib w' = mNodeLib w" "fresh w \<le> fresh w'" "\<And>q. node_kv (heap w') q = node_kv (heap w) q"
    using assms(2-4) by (auto simp: upd_def node_kv_def split: option.splits if_splits)
  show "lib_ok n w'" "node_map w' = node_map w"
    using lib_ok_same_ids [OF assms(1) *] by blast+
qed

lemma lib_room_iff: "lib_ok n w \<Longrightarrow> mNumItems (mNodeLib w) < mMaxItems (mNodeLib w) \<longleftrightarrow> card (dom (heap w)) < 2 ^ (n - 1)"
proof -
  assume ok: "lib_ok n w"
  have "bij_betw (\<lambda>p. mID (the (heap w p))) (dom (heap w)) (dom (node_map w))"
  proof (rule bij_betwI')
    fix p q assume "p \<in> dom (heap w)" "q \<in> dom (heap w)"
    then obtain a b where "heap w p = Some a" "heap w q = Some b" by blast
    then show "(mID (the (heap w p)) = mID (the (heap w q))) = (p = q)"
      using ok by (auto simp: lib_ok_def) (metis option.inject)
  next
    fix p assume "p \<in> dom (heap w)"
    then show "mID (the (heap w p)) \<in> dom (node_map w)" using ok by (auto simp: lib_ok_def)
  next
    fix ident assume "ident \<in> dom (node_map w)"
    then obtain p where "node_map w ident = Some p" by blast
    then show "\<exists>p \<in> dom (heap w). ident = mID (the (heap w p))" using node_map_Some [OF ok] by force
  qed
  then have "card (dom (heap w)) = card (dom (node_map w))" by (rule bij_betw_same_card)
  then show ?thesis using int_table.room_capacity [of "node_kv (heap w)" n "mNodeLib w"] ok
    by (simp add: lib_ok_def node_map_def)
qed

lemma lib_ok_add:
  assumes ok: "lib_ok n w" and al: "allocs w = []" and new: "node_map w inID = None"
    and nd: "mID nd = inID" "mHash nd = Hash_int inID"
    and w1: "w1 = (snd (World_Alloc w))\<lparr>heap := (heap w)(fresh w \<mapsto> nd)\<rparr>"
  shows "fst (World_Alloc w) = Some (fresh w)"
    and "card (dom (heap w)) < 2 ^ (n - 1) \<Longrightarrow> \<exists>t. World_AddNode (fresh w) w1 = Some (True, w1\<lparr>mNodeLib := t\<rparr>)
      \<and> lib_ok n (w1\<lparr>mNodeLib := t\<rparr>) \<and> node_map (w1\<lparr>mNodeLib := t\<rparr>) = (node_map w)(inID \<mapsto> fresh w)"
    and "\<not> card (dom (heap w)) < 2 ^ (n - 1) \<Longrightarrow> World_AddNode (fresh w) w1 = Some (False, w1)"
proof -
  show "fst (World_Alloc w) = Some (fresh w)" using al by (simp add: World_Alloc_def)
  have h1: "heap w1 = (heap w)(fresh w \<mapsto> nd)" and l1: "mNodeLib w1 = mNodeLib w" and f1: "fresh w1 = Suc (fresh w)"
    using al by (simp_all add: w1 World_Alloc_def)
  have fr: "heap w (fresh w) = None" using ok by (simp add: lib_ok_def)
  let ?kv = "node_kv (heap w)" and ?kv1 = "node_kv (heap w1)" and ?t = "mNodeLib w"
  have "\<forall>p \<in> items ?t. ?kv p = ?kv1 p" using lib_items [OF ok] fr by (auto simp: h1 node_kv_def)
  then have i1: "int_inv ?kv1 n ?t" using int_inv_cong ok unfolding lib_ok_def by blast
  then have t1: "table_inv ?kv1 (\<lambda>_. True) n ?t" by (simp add: int_inv_def store_inv_def)
  have view: "store_view ?kv1 Hash_int ?t k = node_map w k" for k
  proof (rule option_eq_by_Some)
    fix q
    have "store_view ?kv1 Hash_int ?t k = Some q \<longleftrightarrow> q \<in> items ?t \<and> ?kv1 q = Some (Hash_int k, k)"
      by (rule int_keys.store_view_Some [OF t1])
    also have "\<dots> \<longleftrightarrow> q \<in> items ?t \<and> ?kv q = Some (Hash_int k, k)"
      using lib_items [OF ok] fr by (auto simp: h1 node_kv_def)
    also have "\<dots> \<longleftrightarrow> node_map w k = Some q"
      using int_keys.store_view_Some [OF lib_ok_table [OF ok]] by (simp add: node_map_def)
    finally show "store_view ?kv1 Hash_int ?t k = Some q \<longleftrightarrow> node_map w k = Some q" .
  qed
  have key: "store_key ?kv1 Hash_int (fresh w) = Some inID" using nd by (simp add: store_key_def node_kv_def h1)
  have room: "mNumItems ?t < mMaxItems ?t \<longleftrightarrow> card (dom (heap w)) < 2 ^ (n - 1)" by (rule lib_room_iff [OF ok])
  show "World_AddNode (fresh w) w1 = Some (False, w1)" if "\<not> card (dom (heap w)) < 2 ^ (n - 1)"
    using int_table.add_full [OF i1] that room l1 by (simp add: World_AddNode_def)
  show "\<exists>t. World_AddNode (fresh w) w1 = Some (True, w1\<lparr>mNodeLib := t\<rparr>)
      \<and> lib_ok n (w1\<lparr>mNodeLib := t\<rparr>) \<and> node_map (w1\<lparr>mNodeLib := t\<rparr>) = (node_map w)(inID \<mapsto> fresh w)"
    if r: "card (dom (heap w)) < 2 ^ (n - 1)"
  proof -
    obtain t where t: "IntHashTable_Add ?kv1 ?t (fresh w) = Some (True, t)" "int_inv ?kv1 n t"
      "store_view ?kv1 Hash_int t = (store_view ?kv1 Hash_int ?t)(inID \<mapsto> fresh w)"
      using int_table.add_fresh [OF i1 key TrueI] r room view new by auto
    have m: "node_map (w1\<lparr>mNodeLib := t\<rparr>) = (node_map w)(inID \<mapsto> fresh w)"
      using t(3) view by (simp add: node_map_def fun_eq_iff)
    have "lib_ok n (w1\<lparr>mNodeLib := t\<rparr>)"
      unfolding lib_ok_def m using t(2) ok nd new
      by (auto simp: h1 f1 lib_ok_def split: if_splits) (metis option.distinct(1))
    then show ?thesis using t(1) m l1 by (intro exI [of _ t]) (simp add: World_AddNode_def)
  qed
qed

lemma lib_ok_hidden [simp]: "lib_ok n (w\<lparr>mHiddenID := h\<rparr>) = lib_ok n w"
  "node_map (w\<lparr>mHiddenID := h\<rparr>) = node_map w"
  "lib_ok n (w\<lparr>mRecentID := h\<rparr>) = lib_ok n w" "node_map (w\<lparr>mRecentID := h\<rparr>) = node_map w"
  by (simp_all add: lib_ok_def node_map_def)

lemma Node_New_fresh:
  assumes ok: "lib_ok n w" and al: "allocs w = []" and i: "0 \<le> sint inID" and new: "node_map w inID = None"
  shows "card (dom (heap w)) < 2 ^ (n - 1) \<Longrightarrow> \<exists>w'. Node_New def inID w = Some (kSCErr_None, Some (fresh w), w')
      \<and> lib_ok n w' \<and> node_map w' = (node_map w)(inID \<mapsto> fresh w)
      \<and> heap w' = (heap w)(fresh w \<mapsto> blank_node def inID) \<and> mRecentID w' = inID"
    and "\<not> card (dom (heap w)) < 2 ^ (n - 1) \<Longrightarrow> \<exists>w'. Node_New def inID w = Some (kSCErr_TooManyNodes, None, w')
      \<and> lib_ok n w' \<and> node_map w' = node_map w \<and> heap w' = heap w"
proof -
  have ne: "inID \<noteq> -1" using i by auto
  have get: "World_GetNode inID w = Some None" using World_GetNode_eq [OF ok] new ne by simp
  define w1 where "w1 = (snd (World_Alloc w))\<lparr>heap := (heap w)(fresh w \<mapsto> blank_node def inID)\<rparr>"
  have heapA: "heap (snd (World_Alloc w)) = heap w" using al by (simp add: World_Alloc_def)
  have b: "mID (blank_node def inID) = inID" "mHash (blank_node def inID) = Hash_int inID"
    by (simp_all add: blank_node_def)
  note add = lib_ok_add [OF ok al new b w1_def]
  have new_eq: "Node_New def inID w = World_AddNode (fresh w) w1 \<bind> (\<lambda>(added, w).
       if \<not> added then do { w \<leftarrow> World_Free (fresh w0) w; Some (kSCErr_TooManyNodes, None, w) }
       else Some (kSCErr_None, Some (fresh w0), w\<lparr>mRecentID := inID\<rparr>))" if "w0 = w" for w0
    using i ne get add(1) heapA that by (cases "World_Alloc w") (auto simp: Node_New_def w1_def)
  have h1: "heap w1 = (heap w)(fresh w \<mapsto> blank_node def inID)" by (simp add: w1_def)
  show "\<exists>w'. Node_New def inID w = Some (kSCErr_None, Some (fresh w), w')
      \<and> lib_ok n w' \<and> node_map w' = (node_map w)(inID \<mapsto> fresh w)
      \<and> heap w' = (heap w)(fresh w \<mapsto> blank_node def inID) \<and> mRecentID w' = inID"
    if "card (dom (heap w)) < 2 ^ (n - 1)"
    using add(2) [OF that] new_eq [OF refl] h1 by auto
  show "\<exists>w'. Node_New def inID w = Some (kSCErr_TooManyNodes, None, w')
      \<and> lib_ok n w' \<and> node_map w' = node_map w \<and> heap w' = heap w"
    if full: "\<not> card (dom (heap w)) < 2 ^ (n - 1)"
  proof -
    have fr: "heap w (fresh w) = None" using ok by (simp add: lib_ok_def)
    let ?w = "w1\<lparr>heap := (heap w1)(fresh w := None)\<rparr>"
    have hw: "heap ?w = heap w" using fr by (auto simp: h1)
    have *: "mNodeLib ?w = mNodeLib w" "fresh w \<le> fresh ?w" "\<And>p. node_kv (heap ?w) p = node_kv (heap w) p"
      using al hw by (simp_all add: w1_def World_Alloc_def)
    have "Node_New def inID w = Some (kSCErr_TooManyNodes, None, ?w)"
      using add(3) [OF full] new_eq [OF refl] h1 by (simp add: World_Free_def)
    then show ?thesis using lib_ok_same_ids [OF ok *] hw by blast
  qed
qed

lemma node_new_cases:
  assumes ok: "lib_ok n w" and al: "allocs w = []"
  shows "sint inID < -1 \<longrightarrow> Node_New def inID w = Some (kSCErr_ReservedNodeID, None, w)"
    and "0 \<le> sint inID \<longrightarrow> node_map w inID \<noteq> None \<longrightarrow> Node_New def inID w = Some (kSCErr_DuplicateNodeID, None, w)"
    and "0 \<le> sint inID \<longrightarrow> node_map w inID = None \<longrightarrow> \<not> card (dom (heap w)) < 2 ^ (n - 1) \<longrightarrow>
      (\<exists>w'. Node_New def inID w = Some (kSCErr_TooManyNodes, None, w') \<and> lib_ok n w' \<and> heap w' = heap w \<and> node_map w' = node_map w)"
    and "0 \<le> sint inID \<longrightarrow> node_map w inID = None \<longrightarrow> card (dom (heap w)) < 2 ^ (n - 1) \<longrightarrow>
      (\<exists>w'. Node_New def inID w = Some (kSCErr_None, Some (fresh w), w') \<and> lib_ok n w'
        \<and> World_GetNode inID w' = Some (Some (fresh w)) \<and> World_GetNode (-1) w' = Some (Some (fresh w))
        \<and> (\<forall>j. j \<noteq> inID \<longrightarrow> j \<noteq> -1 \<longrightarrow> World_GetNode j w' = World_GetNode j w))"
proof -
  show "sint inID < -1 \<longrightarrow> Node_New def inID w = Some (kSCErr_ReservedNodeID, None, w)"
    by (auto simp: Node_New_def)
  have ne: "0 \<le> sint inID \<Longrightarrow> inID \<noteq> -1" by auto
  show "0 \<le> sint inID \<longrightarrow> node_map w inID \<noteq> None \<longrightarrow> Node_New def inID w = Some (kSCErr_DuplicateNodeID, None, w)"
    using World_GetNode_eq [OF ok, of inID] ne by (auto simp: Node_New_def)
  show "0 \<le> sint inID \<longrightarrow> node_map w inID = None \<longrightarrow> \<not> card (dom (heap w)) < 2 ^ (n - 1) \<longrightarrow>
      (\<exists>w'. Node_New def inID w = Some (kSCErr_TooManyNodes, None, w') \<and> lib_ok n w' \<and> heap w' = heap w \<and> node_map w' = node_map w)"
    using Node_New_fresh(2) [OF ok al] by blast
  show "0 \<le> sint inID \<longrightarrow> node_map w inID = None \<longrightarrow> card (dom (heap w)) < 2 ^ (n - 1) \<longrightarrow>
      (\<exists>w'. Node_New def inID w = Some (kSCErr_None, Some (fresh w), w') \<and> lib_ok n w'
        \<and> World_GetNode inID w' = Some (Some (fresh w)) \<and> World_GetNode (-1) w' = Some (Some (fresh w))
        \<and> (\<forall>j. j \<noteq> inID \<longrightarrow> j \<noteq> -1 \<longrightarrow> World_GetNode j w' = World_GetNode j w))"
  proof (intro impI)
    assume i: "0 \<le> sint inID" "node_map w inID = None" "card (dom (heap w)) < 2 ^ (n - 1)"
    obtain w' where w': "Node_New def inID w = Some (kSCErr_None, Some (fresh w), w')" "lib_ok n w'"
      "node_map w' = (node_map w)(inID \<mapsto> fresh w)" "mRecentID w' = inID"
      using Node_New_fresh(1) [OF ok al i] by blast
    show "\<exists>w'. Node_New def inID w = Some (kSCErr_None, Some (fresh w), w') \<and> lib_ok n w'
        \<and> World_GetNode inID w' = Some (Some (fresh w)) \<and> World_GetNode (-1) w' = Some (Some (fresh w))
        \<and> (\<forall>j. j \<noteq> inID \<longrightarrow> j \<noteq> -1 \<longrightarrow> World_GetNode j w' = World_GetNode j w)"
      using w' World_GetNode_eq [OF w'(2)] World_GetNode_eq [OF ok] by (intro exI [of _ w']) simp
  qed
qed

text \<open>
  C14: creating a node: an identifier below -1 is refused as reserved and one in use as a duplicate,
  both with nothing changed; with the table full the node is freed again and the heap and the table
  are as before; otherwise the new node is in the heap, is what its identifier (and -1, the last
  node created) now leads to, and no other identifier's node changes.
\<close>

theorem node_new_outcomes:
  assumes ok: "lib_ok n w" and al: "allocs w = []"
  shows "(sint inID < -1 \<longrightarrow> Node_New def inID w = Some (kSCErr_ReservedNodeID, None, w))
    \<and> (0 \<le> sint inID \<longrightarrow> node_map w inID \<noteq> None \<longrightarrow> Node_New def inID w = Some (kSCErr_DuplicateNodeID, None, w))
    \<and> (0 \<le> sint inID \<longrightarrow> node_map w inID = None \<longrightarrow> \<not> card (dom (heap w)) < 2 ^ (n - 1) \<longrightarrow>
      (\<exists>w'. Node_New def inID w = Some (kSCErr_TooManyNodes, None, w') \<and> lib_ok n w' \<and> heap w' = heap w \<and> node_map w' = node_map w))
    \<and> (0 \<le> sint inID \<longrightarrow> node_map w inID = None \<longrightarrow> card (dom (heap w)) < 2 ^ (n - 1) \<longrightarrow>
      (\<exists>w'. Node_New def inID w = Some (kSCErr_None, Some (fresh w), w') \<and> lib_ok n w'
        \<and> World_GetNode inID w' = Some (Some (fresh w)) \<and> World_GetNode (-1) w' = Some (Some (fresh w))
        \<and> (\<forall>j. j \<noteq> inID \<longrightarrow> j \<noteq> -1 \<longrightarrow> World_GetNode j w' = World_GetNode j w)))"
  by (intro conjI node_new_cases [OF assms])

text \<open>A world with nothing in it: a table of two slots.\<close>

definition empty_world :: "nat \<Rightarrow> World" where
  "empty_world slots = \<lparr>heap = Map.empty, fresh = 1, allocs = [], mNodeLib = HashTable_new slots False,
     mTopGroup = 0, mHiddenID = -8, mRecentID = -8, mNumUnits = 0, mNumGraphs = 0, mNumGroups = 0,
     mRealTime = True, mNodeEnds = MsgFifoNoFree_new 1024, mTriggers = MsgFifoNoFree_new 1024, mNodeMsgs = MsgFifoNoFree_new 1024,
     mDeleteGraphDefs = MsgFifoNoFree_new 512, defs = Map.empty, mGraphDefLib = HashTable_new 1 True,
     mNumControlBusChannels = 0, mNumAudioBusChannels = 0, mBufLength = 64, mBufCounter = 0,
     mControlBus = [], mControlBusTouched = [], mSndBufs = [], mSndBufsNonRealTimeMirror = [], mSndBufUpdates = [],
     bufmem = Map.empty, bufFresh = 1, zallocs = [], mFullSampleRate = 0, mFromEngine = MsgFifo_new 1024, mToEngine = MsgFifo_new 1024,
     mReplies = [], mUsers = [], mMaxUsers = 64, mRestrictedPath = None, mSampleOffset = 0, mSubsampleOffset = 0,
     mDumpOSC = 0, mErrorNotification = 1, mLocalErrorNotification = 0, mSchedCleared = 0, mQuitProgram = 0, mOpenFiles = [], mFileFresh = 0, mFileWrites = [], mFreedPackets = [], unit_log = []\<rparr>"

lemma empty_world_ok: "1 \<le> n \<Longrightarrow> n < 31 \<Longrightarrow> lib_ok n (empty_world (2 ^ (n - 1)))"
  using store_inv_new(1) [of n] by (simp add: lib_ok_def empty_world_def int_inv_def) (simp add: HashTable_new_def)

theorem node_new_outcomes_witness:
  "Node_New GroupNodeDef (-5) (empty_world 2) = Some (kSCErr_ReservedNodeID, None, empty_world 2)
   \<and> (\<exists>w'. Node_New GroupNodeDef 1 (empty_world 2) = Some (kSCErr_None, Some 1, w')
       \<and> World_GetNode 1 w' = Some (Some 1) \<and> World_GetNode (-1) w' = Some (Some 1))"
proof -
  have ok: "lib_ok 2 (empty_world 2)" using empty_world_ok [of 2] by simp
  have "allocs (empty_world 2) = []" "heap (empty_world 2) = Map.empty" "fresh (empty_world 2) = 1"
    by (simp_all add: empty_world_def)
  moreover from this(2) have "node_map (empty_world 2) j = None" for j
    using node_map_Some [OF ok, of j] by (cases "node_map (empty_world 2) j") auto
  ultimately show ?thesis
    using node_new_outcomes [OF ok, of "-5" GroupNodeDef] node_new_outcomes [OF ok, of 1 GroupNodeDef] by auto
qed

end
