(* ===== verification/SC_Tree.thy ===== *)
theory SC_Tree
  imports SC_World
begin

text \<open>
  The node tree: the doubly linked lists of children that \<open>SC_Node.cpp\<close> (\<open>Node_Remove\<close>,
  \<open>Node_AddAfter\<close>, \<open>Node_AddBefore\<close>, the linking part of \<open>Node_Replace\<close>) and \<open>SC_Group.cpp\<close>
  (\<open>Group_AddHead\<close>, \<open>Group_AddTail\<close>, \<open>Group_Insert\<close>) maintain. Every assignment through a pointer is
  an \<open>upd\<close>, in the order of the code, and fields are read again where the code reads them again.

  The abstraction of the lists is a function from groups to the list of their children; each
  operation refines a list operation.
\<close>

section \<open>The operations\<close>

definition set_next :: "ptr \<Rightarrow> ptr option \<Rightarrow> World \<Rightarrow> World option" where
  "set_next p v w = upd p (\<lambda>n. n\<lparr>mNext := v\<rparr>) w"
definition set_prev :: "ptr \<Rightarrow> ptr option \<Rightarrow> World \<Rightarrow> World option" where
  "set_prev p v w = upd p (\<lambda>n. n\<lparr>mPrev := v\<rparr>) w"
definition set_parent :: "ptr \<Rightarrow> ptr option \<Rightarrow> World \<Rightarrow> World option" where
  "set_parent p v w = upd p (\<lambda>n. n\<lparr>mParent := v\<rparr>) w"
definition set_head :: "ptr \<Rightarrow> ptr option \<Rightarrow> World \<Rightarrow> World option" where
  "set_head p v w = upd p (\<lambda>n. n\<lparr>mHead := v\<rparr>) w"
definition set_tail :: "ptr \<Rightarrow> ptr option \<Rightarrow> World \<Rightarrow> World option" where
  "set_tail p v w = upd p (\<lambda>n. n\<lparr>mTail := v\<rparr>) w"

definition unlink :: "ptr \<Rightarrow> World \<Rightarrow> World option" where
  "unlink s w = do {
     w \<leftarrow> set_prev s None w;
     w \<leftarrow> set_next s None w;
     set_parent s None w }"

definition Node_Remove :: "ptr \<Rightarrow> World \<Rightarrow> World option" where
  "Node_Remove s w = do {
     n \<leftarrow> deref w s;
     w \<leftarrow> (case (mPrev n, mParent n) of
        (Some p, _) \<Rightarrow> set_next p (mNext n) w
      | (None, Some g) \<Rightarrow> set_head g (mNext n) w
      | (None, None) \<Rightarrow> Some w);
     m \<leftarrow> deref w s;
     w \<leftarrow> (case (mNext m, mParent n) of
        (Some q, _) \<Rightarrow> set_prev q (mPrev m) w
      | (None, Some g) \<Rightarrow> set_tail g (mPrev m) w
      | (None, None) \<Rightarrow> Some w);
     unlink s w }"

definition Node_AddAfter :: "ptr \<Rightarrow> ptr \<Rightarrow> World \<Rightarrow> World option" where
  "Node_AddAfter s afterThisOne w = do {
     a \<leftarrow> deref w afterThisOne;
     failed \<leftarrow> (if mParent a = None then Some True else do { n \<leftarrow> deref w s; Some (mID n = 0) });
     if failed then Some w
     else do {
       w \<leftarrow> set_parent s (mParent a) w;
       w \<leftarrow> set_prev s (Some afterThisOne) w;
       a \<leftarrow> deref w afterThisOne;
       w \<leftarrow> set_next s (mNext a) w;
       a \<leftarrow> deref w afterThisOne;
       w \<leftarrow> (case mNext a of
          Some q \<Rightarrow> set_prev q (Some s) w
        | None \<Rightarrow> do { n \<leftarrow> deref w s; g \<leftarrow> mParent n; set_tail g (Some s) w });
       set_next afterThisOne (Some s) w } }"

definition Node_AddBefore :: "ptr \<Rightarrow> ptr \<Rightarrow> World \<Rightarrow> World option" where
  "Node_AddBefore s beforeThisOne w = do {
     b \<leftarrow> deref w beforeThisOne;
     failed \<leftarrow> (if mParent b = None then Some True else do { n \<leftarrow> deref w s; Some (mID n = 0) });
     if failed then Some w
     else do {
       w \<leftarrow> set_parent s (mParent b) w;
       b \<leftarrow> deref w beforeThisOne;
       w \<leftarrow> set_prev s (mPrev b) w;
       w \<leftarrow> set_next s (Some beforeThisOne) w;
       b \<leftarrow> deref w beforeThisOne;
       w \<leftarrow> (case mPrev b of
          Some q \<Rightarrow> set_next q (Some s) w
        | None \<Rightarrow> do { n \<leftarrow> deref w s; g \<leftarrow> mParent n; set_head g (Some s) w });
       set_prev beforeThisOne (Some s) w } }"

text \<open>
  The linking part of \<open>Node_Replace\<close>: the flag says that it went on to the deletion of the replaced
  node.
\<close>

definition Node_Replace_link :: "ptr \<Rightarrow> ptr \<Rightarrow> World \<Rightarrow> (bool \<times> World) option" where
  "Node_Replace_link s replaceThisOne w = do {
     r \<leftarrow> deref w replaceThisOne;
     (case mParent r of
        None \<Rightarrow> Some (False, w)
      | Some g \<Rightarrow> do {
          n \<leftarrow> deref w s;
          if mID n = 0 then Some (False, w)
          else do {
            w \<leftarrow> set_parent s (Some g) w;
            r \<leftarrow> deref w replaceThisOne;
            w \<leftarrow> set_prev s (mPrev r) w;
            r \<leftarrow> deref w replaceThisOne;
            w \<leftarrow> set_next s (mNext r) w;
            n \<leftarrow> deref w s;
            w \<leftarrow> (case mPrev n of Some p \<Rightarrow> set_next p (Some s) w | None \<Rightarrow> set_head g (Some s) w);
            n \<leftarrow> deref w s;
            w \<leftarrow> (case mNext n of Some q \<Rightarrow> set_prev q (Some s) w | None \<Rightarrow> set_tail g (Some s) w);
            w \<leftarrow> unlink replaceThisOne w;
            Some (True, w) } }) }"

definition Group_AddHead :: "ptr \<Rightarrow> ptr \<Rightarrow> World \<Rightarrow> World option" where
  "Group_AddHead s child w = do {
     c \<leftarrow> deref w child;
     if mID c = 0 then Some w
     else do {
       w \<leftarrow> set_prev child None w;
       g \<leftarrow> deref w s;
       w \<leftarrow> set_next child (mHead g) w;
       g \<leftarrow> deref w s;
       w \<leftarrow> (case mHead g of
          Some h \<Rightarrow> do { w \<leftarrow> set_prev h (Some child) w; set_head s (Some child) w }
        | None \<Rightarrow> do { w \<leftarrow> set_tail s (Some child) w; set_head s (Some child) w });
       set_parent child (Some s) w } }"

definition Group_AddTail :: "ptr \<Rightarrow> ptr \<Rightarrow> World \<Rightarrow> World option" where
  "Group_AddTail s child w = do {
     c \<leftarrow> deref w child;
     if mID c = 0 then Some w
     else do {
       g \<leftarrow> deref w s;
       w \<leftarrow> set_prev child (mTail g) w;
       w \<leftarrow> set_next child None w;
       g \<leftarrow> deref w s;
       w \<leftarrow> (case mTail g of
          Some t \<Rightarrow> do { w \<leftarrow> set_next t (Some child) w; set_tail s (Some child) w }
        | None \<Rightarrow> do { w \<leftarrow> set_tail s (Some child) w; set_head s (Some child) w });
       set_parent child (Some s) w } }"

text \<open>
  The walk to position \<open>index\<close>: \<open>Inl ()\<close> when the list ended on the way. The first step reads through
  \<open>mHead\<close> without a check.
\<close>

fun insert_walk :: "nat \<Rightarrow> ptr option \<Rightarrow> World \<Rightarrow> (unit + ptr) option" where
  "insert_walk 0 before w = do { b \<leftarrow> before; Some (Inr b) }"
| "insert_walk (Suc i) before w = do {
     b \<leftarrow> before;
     n \<leftarrow> deref w b;
     (case mNext n of None \<Rightarrow> Some (Inl ()) | Some q \<Rightarrow> insert_walk i (Some q) w) }"

definition Group_Insert :: "ptr \<Rightarrow> ptr \<Rightarrow> int \<Rightarrow> World \<Rightarrow> World option" where
  "Group_Insert s child index w = do {
     c \<leftarrow> deref w child;
     if mID c = 0 then Some w
     else if index \<le> 0 then Group_AddHead s child w
     else do {
       g \<leftarrow> deref w s;
       r \<leftarrow> insert_walk (nat index) (mHead g) w;
       (case r of Inl _ \<Rightarrow> Group_AddTail s child w | Inr before \<Rightarrow> Node_AddBefore child before w) } }"

section \<open>Lists of children\<close>

text \<open>Neighbours in a list without repetitions.\<close>

fun next_of :: "'a list \<Rightarrow> 'a \<Rightarrow> 'a option" where
  "next_of [] x = None"
| "next_of (y # ys) x = (if x = y then (case ys of [] \<Rightarrow> None | z # _ \<Rightarrow> Some z) else next_of ys x)"

definition prev_of :: "'a list \<Rightarrow> 'a \<Rightarrow> 'a option" where
  "prev_of xs x = next_of (rev xs) x"

definition first_of :: "'a list \<Rightarrow> 'a option" where
  "first_of xs = (case xs of [] \<Rightarrow> None | x # _ \<Rightarrow> Some x)"

definition last_of :: "'a list \<Rightarrow> 'a option" where
  "last_of xs = first_of (rev xs)"

lemma first_of_simps [simp]: "first_of [] = None" "first_of (x # xs) = Some x"
  by (simp_all add: first_of_def)

lemma first_of_append: "first_of (xs @ ys) = (if xs = [] then first_of ys else first_of xs)"
  by (cases xs) simp_all

lemma last_of_simps [simp]: "last_of [] = None" "last_of (xs @ [x]) = Some x"
  by (simp_all add: last_of_def)

lemma last_of_append: "last_of (xs @ ys) = (if ys = [] then last_of xs else last_of ys)"
  by (simp add: last_of_def first_of_append)

lemma last_of_Cons: "last_of (x # xs) = (if xs = [] then Some x else last_of xs)"
  using last_of_append [of "[x]" xs] by (simp add: last_of_def)

lemma first_of_None [simp]: "first_of xs = None \<longleftrightarrow> xs = []"
  by (cases xs) simp_all

lemma last_of_None [simp]: "last_of xs = None \<longleftrightarrow> xs = []"
  by (simp add: last_of_def)

lemma next_of_notin [simp]: "x \<notin> set xs \<Longrightarrow> next_of xs x = None"
  by (induction xs) auto

lemma next_of_middle:
  "distinct (xs @ ys) \<Longrightarrow> next_of (xs @ ys) x =
     (if x \<in> set xs then (if last_of xs = Some x then first_of ys else next_of xs x) else next_of ys x)"
proof (induction xs)
  case (Cons a xs)
  show ?case
  proof (cases "xs = []")
    case True
    then show ?thesis using Cons by (simp add: first_of_def last_of_def split: list.splits)
  next
    case False
    then have "last_of xs \<noteq> Some a" using Cons.prems
      by (auto simp: last_of_def first_of_def dest: arg_cong [of _ _ set] split: list.splits)
    then show ?thesis using Cons False by (auto simp: last_of_Cons split: list.splits)
  qed
qed simp

lemma prev_of_middle:
  "distinct (xs @ ys) \<Longrightarrow> prev_of (xs @ ys) x =
     (if x \<in> set ys then (if first_of ys = Some x then last_of xs else prev_of ys x) else prev_of xs x)"
  using next_of_middle [of "rev ys" "rev xs" x] by (simp add: prev_of_def last_of_def inf_commute)

lemma prev_of_notin [simp]: "x \<notin> set xs \<Longrightarrow> prev_of xs x = None"
  by (simp add: prev_of_def)

lemma last_of_in: "last_of xs = Some x \<Longrightarrow> x \<in> set xs"
  by (auto simp: last_of_def first_of_def dest: arg_cong [of _ _ set] split: list.splits)

lemma first_of_in: "first_of xs = Some x \<Longrightarrow> x \<in> set xs"
  by (auto simp: first_of_def split: list.splits)

lemma next_of_last: "last_of xs = Some x \<Longrightarrow> distinct xs \<Longrightarrow> next_of xs x = None"
proof -
  assume l: "last_of xs = Some x" and d: "distinct xs"
  then obtain zs where "xs = zs @ [x]" by (cases xs rule: rev_cases) auto
  then show ?thesis using next_of_middle [of zs "[x]" x] d by simp
qed

lemma prev_of_first: "first_of xs = Some x \<Longrightarrow> distinct xs \<Longrightarrow> prev_of xs x = None"
  using next_of_last [of "rev xs" x] by (simp add: prev_of_def last_of_def)

text \<open>Inserting, removing and replacing one element.\<close>

lemma next_of_insert:
  assumes "distinct (as @ s # bs)"
  shows "next_of (as @ s # bs) x =
    (if x = s then first_of bs else if last_of as = Some x then Some s else next_of (as @ bs) x)"
  using assms next_of_middle [of as "s # bs" x] next_of_middle [of as bs x] last_of_in [of as x]
  by (auto split: list.splits)

lemma prev_of_insert:
  assumes "distinct (as @ s # bs)"
  shows "prev_of (as @ s # bs) x =
    (if x = s then last_of as else if first_of bs = Some x then Some s else prev_of (as @ bs) x)"
  using next_of_insert [of "rev bs" s "rev as" x] assms by (auto simp: prev_of_def last_of_def Int_commute)

lemma next_of_delete:
  assumes "distinct (as @ s # bs)" and "x \<noteq> s"
  shows "next_of (as @ bs) x = (if last_of as = Some x then first_of bs else next_of (as @ s # bs) x)"
  using assms next_of_middle [of as "s # bs" x] next_of_middle [of as bs x] last_of_in [of as x]
  by (auto split: list.splits)

lemma prev_of_delete:
  assumes "distinct (as @ s # bs)" and "x \<noteq> s"
  shows "prev_of (as @ bs) x = (if first_of bs = Some x then last_of as else prev_of (as @ s # bs) x)"
  using next_of_delete [of "rev bs" s "rev as" x] assms by (auto simp: prev_of_def last_of_def Int_commute)

section \<open>The abstraction\<close>

text \<open>\<open>tree_ok h K\<close>: in the heap \<open>h\<close> every group \<open>g\<close> has the children \<open>K g\<close>, in order.\<close>

definition links_ok :: "(ptr \<Rightarrow> ptr list) \<Rightarrow> ptr \<Rightarrow> Node \<Rightarrow> bool" where
  "links_ok K p n \<longleftrightarrow>
     (case mParent n of
        None \<Rightarrow> mPrev n = None \<and> mNext n = None
      | Some g \<Rightarrow> p \<in> set (K g) \<and> mPrev n = prev_of (K g) p \<and> mNext n = next_of (K g) p)"

definition kids_ok :: "(ptr \<Rightarrow> ptr list) \<Rightarrow> ptr \<Rightarrow> Node \<Rightarrow> bool" where
  "kids_ok K p n \<longleftrightarrow> (if mIsGroup n then mHead n = first_of (K p) \<and> mTail n = last_of (K p) else K p = [])"

definition tree_ok :: "(ptr \<Rightarrow> Node option) \<Rightarrow> (ptr \<Rightarrow> ptr list) \<Rightarrow> bool" where
  "tree_ok h K \<longleftrightarrow>
     (\<forall>p n. h p = Some n \<longrightarrow> links_ok K p n \<and> kids_ok K p n) \<and> (\<forall>p. h p = None \<longrightarrow> K p = [])
     \<and> (\<forall>g. distinct (K g)) \<and> (\<forall>g c. c \<in> set (K g) \<longrightarrow> (\<exists>n. h c = Some n \<and> mParent n = Some g))"

lemma tree_ok_D:
  assumes "tree_ok h K"
  shows "h p = Some n \<Longrightarrow> links_ok K p n" and "h p = Some n \<Longrightarrow> kids_ok K p n" and "h p = None \<Longrightarrow> K p = []"
    and "distinct (K g)" and "c \<in> set (K g) \<Longrightarrow> \<exists>n. h c = Some n \<and> mParent n = Some g"
  using assms unfolding tree_ok_def by blast+

lemma links_ok_child:
  "mParent n = Some g \<Longrightarrow> links_ok K p n \<longleftrightarrow> p \<in> set (K g) \<and> mPrev n = prev_of (K g) p \<and> mNext n = next_of (K g) p"
  "mParent n = None \<Longrightarrow> links_ok K p n \<longleftrightarrow> mPrev n = None \<and> mNext n = None"
  by (simp_all add: links_ok_def)

lemma links_ok_same:
  "links_ok K p n \<Longrightarrow> mParent m = mParent n \<Longrightarrow> mPrev m = mPrev n \<Longrightarrow> mNext m = mNext n
     \<Longrightarrow> (\<And>g. mParent n = Some g \<Longrightarrow> K' g = K g) \<Longrightarrow> links_ok K' p m"
  by (cases "mParent n") (simp_all add: links_ok_def)

text \<open>What one operation does to each node.\<close>

definition link_node :: "ptr \<Rightarrow> ptr \<Rightarrow> ptr option \<Rightarrow> ptr option \<Rightarrow> ptr \<Rightarrow> Node \<Rightarrow> Node" where
  "link_node g s a b x n = n\<lparr>
     mParent := (if x = s then Some g else mParent n),
     mPrev := (if x = s then a else if b = Some x then Some s else mPrev n),
     mNext := (if x = s then b else if a = Some x then Some s else mNext n),
     mHead := (if x = g \<and> a = None then Some s else mHead n),
     mTail := (if x = g \<and> b = None then Some s else mTail n)\<rparr>"

definition unlink_node :: "ptr option \<Rightarrow> ptr \<Rightarrow> ptr option \<Rightarrow> ptr option \<Rightarrow> ptr \<Rightarrow> Node \<Rightarrow> Node" where
  "unlink_node g s a b x n = n\<lparr>
     mParent := (if x = s then None else mParent n),
     mPrev := (if x = s then None else if b = Some x then a else mPrev n),
     mNext := (if x = s then None else if a = Some x then b else mNext n),
     mHead := (if g = Some x \<and> a = None then b else mHead n),
     mTail := (if g = Some x \<and> b = None then a else mTail n)\<rparr>"

definition map_heap :: "(ptr \<Rightarrow> Node \<Rightarrow> Node) \<Rightarrow> World \<Rightarrow> World" where
  "map_heap f w = w\<lparr>heap := (\<lambda>x. map_option (f x) (heap w x))\<rparr>"

lemma tree_ok_not_child:
  "tree_ok h K \<Longrightarrow> h p = Some m \<Longrightarrow> mParent m \<noteq> Some g \<Longrightarrow> p \<notin> set (K g)"
  using tree_ok_D(5) by force

lemma neighbours_in: "p \<notin> set (as @ bs) \<Longrightarrow> last_of as \<noteq> Some p \<and> first_of bs \<noteq> Some p"
  using last_of_in first_of_in by fastforce

lemma tree_ok_link:
  assumes ok: "tree_ok h K" and s: "h s = Some n" "mParent n = None" and g: "h g = Some gn" "mIsGroup gn"
    and K: "K g = as @ bs"
  shows "tree_ok (\<lambda>x. map_option (link_node g s (last_of as) (first_of bs) x) (h x)) (K(g := as @ s # bs))"
proof -
  have fresh: "s \<notin> set (K g')" for g' using tree_ok_not_child [OF ok s(1)] s(2) by simp
  then have "s \<notin> set (as @ bs)" using K [symmetric] by simp
  moreover have "distinct (as @ bs)" using tree_ok_D(4) [OF ok, of g] K by simp
  ultimately have d: "distinct (as @ s # bs)" by simp
  let ?L = "link_node g s (last_of as) (first_of bs)" and ?K = "K(g := as @ s # bs)"
  have links: "links_ok ?K p (?L p m)" if m: "h p = Some m" for p m
  proof (cases "p = s")
    case True
    then show ?thesis using d next_of_insert [OF d, of s] prev_of_insert [OF d, of s]
      by (simp add: links_ok_def link_node_def)
  next
    case False
    show ?thesis
    proof (cases "mParent m = Some g")
      case True
      then have "p \<in> set (as @ bs)" "mPrev m = prev_of (as @ bs) p" "mNext m = next_of (as @ bs) p"
        using tree_ok_D(1) [OF ok m] K by (simp_all add: links_ok_def)
      then show ?thesis using False True next_of_insert [OF d, of p] prev_of_insert [OF d, of p]
        by (simp add: links_ok_def link_node_def)
    next
      case gg: False
      then have "p \<notin> set (as @ bs)" using tree_ok_not_child [OF ok m gg] K by simp
      then have "last_of as \<noteq> Some p" "first_of bs \<noteq> Some p" using neighbours_in [of p as bs] by blast+
      then show ?thesis using tree_ok_D(1) [OF ok m] False gg
        by (elim links_ok_same) (simp_all add: link_node_def)
    qed
  qed
  have kids: "kids_ok ?K p (?L p m)" if m: "h p = Some m" for p m
    using tree_ok_D(2) [OF ok m] g m K
    by (cases "p = g") (simp_all add: kids_ok_def link_node_def first_of_append last_of_append last_of_Cons)
  have par: "\<exists>m. map_option (?L c) (h c) = Some m \<and> mParent m = Some g'" if "c \<in> set (?K g')" for g' c
  proof (cases "c = s")
    case True
    then have "g' = g" using that fresh by (auto split: if_splits)
    then show ?thesis using True s by (simp add: link_node_def)
  next
    case False
    then have "c \<in> set (K g')" using that K by (auto split: if_splits)
    then obtain m where "h c = Some m" "mParent m = Some g'" using tree_ok_D(5) [OF ok] by blast
    then show ?thesis using False by (simp add: link_node_def)
  qed
  have "distinct (?K g')" for g' using ok d by (auto simp: tree_ok_def)
  moreover have "?K p = []" if "h p = None" for p using tree_ok_D(3) [OF ok that] that g by auto
  ultimately show ?thesis using links kids par unfolding tree_ok_def by auto
qed

lemma tree_ok_unlink:
  assumes ok: "tree_ok h K" and s: "h s = Some n" "mParent n = Some g" and K: "K g = as @ s # bs"
  shows "tree_ok (\<lambda>x. map_option (unlink_node (Some g) s (last_of as) (first_of bs) x) (h x)) (K(g := as @ bs))"
proof -
  have d: "distinct (as @ s # bs)" using tree_ok_D(4) [OF ok, of g] K by simp
  let ?L = "unlink_node (Some g) s (last_of as) (first_of bs)" and ?K = "K(g := as @ bs)"
  have links: "links_ok ?K p (?L p m)" if m: "h p = Some m" for p m
  proof (cases "p = s")
    case True
    then show ?thesis by (simp add: links_ok_def unlink_node_def)
  next
    case False
    show ?thesis
    proof (cases "mParent m = Some g")
      case True
      then have "p \<in> set (as @ bs)" "mPrev m = prev_of (as @ s # bs) p" "mNext m = next_of (as @ s # bs) p"
        using tree_ok_D(1) [OF ok m] K False by (simp_all add: links_ok_def)
      then show ?thesis using False True next_of_delete [OF d False] prev_of_delete [OF d False]
        by (simp add: links_ok_def unlink_node_def)
    next
      case gg: False
      then have "p \<notin> set (as @ bs)" using tree_ok_not_child [OF ok m gg] K by simp
      then have "last_of as \<noteq> Some p" "first_of bs \<noteq> Some p"
        using neighbours_in [of p as bs] by blast+
      then show ?thesis using tree_ok_D(1) [OF ok m] False gg
        by (elim links_ok_same) (simp_all add: unlink_node_def)
    qed
  qed
  have kids: "kids_ok ?K p (?L p m)" if m: "h p = Some m" for p m
    using tree_ok_D(2) [OF ok m] K
    by (cases "p = g") (simp_all add: kids_ok_def unlink_node_def first_of_append last_of_append last_of_Cons split: if_split_asm)
  have par: "\<exists>m. map_option (?L c) (h c) = Some m \<and> mParent m = Some g'" if c: "c \<in> set (?K g')" for g' c
  proof -
    have "c \<in> set (K g')" using c K by (auto split: if_splits)
    then obtain m where m: "h c = Some m" "mParent m = Some g'" using tree_ok_D(5) [OF ok] by blast
    have "c \<noteq> s" using c s m d by (auto split: if_splits)
    then show ?thesis using m by (simp add: unlink_node_def)
  qed
  have "distinct (?K g')" for g' using ok d by (auto simp: tree_ok_def)
  moreover have "?K p = []" if "h p = None" for p using tree_ok_D(3) [OF ok that] K by auto
  ultimately show ?thesis using links kids par unfolding tree_ok_def by auto
qed


section \<open>The operations on the heap\<close>

lemma heap_update_eq: "w\<lparr>heap := h\<rparr> = w\<lparr>heap := h'\<rparr> \<longleftrightarrow> h = h'"
  by (metis World.select_convs(1) World.surjective World.update_convs(1))

lemmas set_defs = set_next_def set_prev_def set_parent_def set_head_def set_tail_def

lemmas tree_step = set_defs upd_def deref_def map_heap_def heap_update_eq fun_eq_iff

lemma link_node_other:
  "x \<noteq> s \<Longrightarrow> x \<noteq> g \<or> a \<noteq> None \<and> b \<noteq> None \<Longrightarrow> a \<noteq> Some x \<Longrightarrow> b \<noteq> Some x \<Longrightarrow> map_option (link_node g s a b x) v = v"
  by (cases v) (auto simp: link_node_def)

lemma unlink_node_other:
  "x \<noteq> s \<Longrightarrow> g \<noteq> Some x \<or> a \<noteq> None \<and> b \<noteq> None \<Longrightarrow> a \<noteq> Some x \<Longrightarrow> b \<noteq> Some x \<Longrightarrow> map_option (unlink_node g s a b x) v = v"
  by (cases v) (auto simp: unlink_node_def)

lemma Group_AddTail_heap:
  assumes s: "heap w s = Some g" and c: "heap w child = Some c" "mID c \<noteq> 0"
    and t: "\<And>t. mTail g = Some t \<Longrightarrow> t \<noteq> child \<and> heap w t \<noteq> None"
  shows "Group_AddTail s child w = Some (map_heap (link_node s child (mTail g) None) w)"
proof (cases "mTail g")
  case None
  then show ?thesis using s c by (auto simp: Group_AddTail_def tree_step link_node_def link_node_other)
next
  case (Some t)
  then obtain tn where "heap w t = Some tn" "t \<noteq> child" using assms(4) by blast
  then show ?thesis using s c Some by (auto simp: Group_AddTail_def tree_step link_node_def link_node_other)
qed

lemma Group_AddHead_heap:
  assumes s: "heap w s = Some g" and c: "heap w child = Some c" "mID c \<noteq> 0"
    and t: "\<And>t. mHead g = Some t \<Longrightarrow> t \<noteq> child \<and> heap w t \<noteq> None"
  shows "Group_AddHead s child w = Some (map_heap (link_node s child None (mHead g)) w)"
proof (cases "mHead g")
  case None
  then show ?thesis using s c by (auto simp: Group_AddHead_def tree_step link_node_def link_node_other)
next
  case (Some t)
  then obtain tn where "heap w t = Some tn" "t \<noteq> child" using assms(4) by blast
  then show ?thesis using s c Some by (auto simp: Group_AddHead_def tree_step link_node_def link_node_other)
qed

lemma Node_AddAfter_heap:
  assumes s: "heap w s = Some n" "mID n \<noteq> 0" and a: "heap w after = Some an" "mParent an = Some g" "s \<noteq> after"
    and t: "\<And>t. mNext an = Some t \<Longrightarrow> t \<noteq> s \<and> heap w t \<noteq> None" and g: "heap w g = Some gn"
  shows "Node_AddAfter s after w = Some (map_heap (link_node g s (Some after) (mNext an)) w)"
proof (cases "mNext an")
  case None
  then show ?thesis using s a g by (auto simp: Node_AddAfter_def tree_step link_node_def link_node_other)
next
  case (Some t)
  then obtain tn where "heap w t = Some tn" "t \<noteq> s" using t by blast
  then show ?thesis using s a Some by (auto simp: Node_AddAfter_def tree_step link_node_def link_node_other)
qed

lemma Node_AddBefore_heap:
  assumes s: "heap w s = Some n" "mID n \<noteq> 0" and a: "heap w before = Some an" "mParent an = Some g" "s \<noteq> before"
    and t: "\<And>t. mPrev an = Some t \<Longrightarrow> t \<noteq> s \<and> heap w t \<noteq> None" and g: "heap w g = Some gn"
  shows "Node_AddBefore s before w = Some (map_heap (link_node g s (mPrev an) (Some before)) w)"
proof (cases "mPrev an")
  case None
  then show ?thesis using s a g by (auto simp: Node_AddBefore_def tree_step link_node_def link_node_other)
next
  case (Some t)
  then obtain tn where "heap w t = Some tn" "t \<noteq> s" using t by blast
  then show ?thesis using s a Some by (auto simp: Node_AddBefore_def tree_step link_node_def link_node_other)
qed

lemma Node_Remove_heap:
  assumes s: "heap w s = Some n" and g: "\<And>g. mParent n = Some g \<Longrightarrow> heap w g \<noteq> None"
    and p: "\<And>p. mPrev n = Some p \<Longrightarrow> p \<noteq> s \<and> heap w p \<noteq> None"
    and q: "\<And>q. mNext n = Some q \<Longrightarrow> q \<noteq> s \<and> heap w q \<noteq> None"
  shows "Node_Remove s w = Some (map_heap (unlink_node (mParent n) s (mPrev n) (mNext n)) w)"
proof -
  show ?thesis
    apply (cases "mPrev n"; cases "mNext n"; cases "mParent n")
    using assms by (auto simp: Node_Remove_def unlink_def tree_step unlink_node_def unlink_node_other)
qed

section \<open>Refinement of list operations\<close>

text \<open>
  A world represents the tree \<open>K\<close>. The operations below refine insertion into and removal from the
  lists of \<open>K\<close>, and change nothing that the table of nodes depends on.
\<close>

definition tree_rep :: "nat \<Rightarrow> World \<Rightarrow> (ptr \<Rightarrow> ptr list) \<Rightarrow> bool" where
  "tree_rep n w K \<longleftrightarrow> lib_ok n w \<and> tree_ok (heap w) K"

definition unlinked :: "World \<Rightarrow> ptr \<Rightarrow> bool" where
  "unlinked w s \<longleftrightarrow> (\<exists>n. heap w s = Some n \<and> mParent n = None \<and> mID n \<noteq> 0)"

lemma map_heap_simps [simp]:
  "heap (map_heap f w) = (\<lambda>x. map_option (f x) (heap w x))" "mNodeLib (map_heap f w) = mNodeLib w"
  "fresh (map_heap f w) = fresh w"
  by (simp_all add: map_heap_def)

lemma lib_ok_map_heap:
  assumes "lib_ok n w" and "\<And>x nd. mID (f x nd) = mID nd" and "\<And>x nd. mHash (f x nd) = mHash nd"
  shows "lib_ok n (map_heap f w)" and "node_map (map_heap f w) = node_map w"
proof -
  have "node_kv (heap (map_heap f w)) q = node_kv (heap w) q" for q
    using assms(2,3) by (simp add: node_kv_def split: option.splits)
  then show "lib_ok n (map_heap f w)" "node_map (map_heap f w) = node_map w"
    using lib_ok_same_ids [OF assms(1), of "map_heap f w"] by auto
qed

lemma link_node_ids [simp]: "mID (link_node g s a b x nd) = mID nd" "mHash (link_node g s a b x nd) = mHash nd"
  by (simp_all add: link_node_def)

lemma unlink_node_ids [simp]: "mID (unlink_node g s a b x nd) = mID nd" "mHash (unlink_node g s a b x nd) = mHash nd"
  by (simp_all add: unlink_node_def)

lemma tree_rep_link:
  assumes "tree_rep n w K" and "unlinked w s" and "heap w g = Some gn" "mIsGroup gn" and "K g = as @ bs"
  shows "tree_rep n (map_heap (link_node g s (last_of as) (first_of bs)) w) (K(g := as @ s # bs))"
  using assms lib_ok_map_heap(1) [of n w "link_node g s (last_of as) (first_of bs)"]
  by (auto simp: tree_rep_def unlinked_def intro: tree_ok_link)

lemma child_of:
  assumes "tree_rep n w K" and "c \<in> set (K g)"
  shows "\<exists>cn gn. heap w c = Some cn \<and> mParent cn = Some g \<and> mPrev cn = prev_of (K g) c \<and> mNext cn = next_of (K g) c
    \<and> heap w g = Some gn \<and> mIsGroup gn \<and> mHead gn = first_of (K g) \<and> mTail gn = last_of (K g)"
proof -
  have ok: "tree_ok (heap w) K" using assms(1) by (simp add: tree_rep_def)
  obtain cn where c: "heap w c = Some cn" "mParent cn = Some g" using tree_ok_D(5) [OF ok assms(2)] by blast
  have "K g \<noteq> []" using assms(2) by auto
  then obtain gn where g: "heap w g = Some gn" using tree_ok_D(3) [OF ok, of g] by blast
  show ?thesis using c g tree_ok_D(1) [OF ok c(1)] tree_ok_D(2) [OF ok g] assms(2)
    by (auto simp: links_ok_def kids_ok_def split: if_split_asm)
qed

lemma unlinked_not_child: "tree_rep n w K \<Longrightarrow> unlinked w s \<Longrightarrow> s \<notin> set (K g)"
  using tree_ok_not_child [of "heap w" K s] by (auto simp: tree_rep_def unlinked_def)

lemma group_ends:
  "tree_rep n w K \<Longrightarrow> heap w g = Some gn \<Longrightarrow> mIsGroup gn \<Longrightarrow> mHead gn = first_of (K g) \<and> mTail gn = last_of (K g)"
  using tree_ok_D(2) [of "heap w" K g gn] by (simp add: tree_rep_def kids_ok_def)

lemma Group_AddTail_rep:
  assumes rep: "tree_rep n w K" and s: "unlinked w s" and g: "heap w g = Some gn" "mIsGroup gn"
  shows "\<exists>w'. Group_AddTail g s w = Some w' \<and> tree_rep n w' (K(g := K g @ [s]))"
proof -
  obtain nd where nd: "heap w s = Some nd" "mID nd \<noteq> 0" using s by (auto simp: unlinked_def)
  have t: "mTail gn = last_of (K g)" using group_ends [OF rep g] by blast
  have "t \<noteq> s \<and> heap w t \<noteq> None" if "mTail gn = Some t" for t
    using that t last_of_in [of "K g" t] child_of [OF rep, of t g] unlinked_not_child [OF rep s, of g] by auto
  then show ?thesis using Group_AddTail_heap [OF g(1) nd] tree_rep_link [OF rep s g, of "K g" "[]"] t by auto
qed

lemma Group_AddHead_rep:
  assumes rep: "tree_rep n w K" and s: "unlinked w s" and g: "heap w g = Some gn" "mIsGroup gn"
  shows "\<exists>w'. Group_AddHead g s w = Some w' \<and> tree_rep n w' (K(g := s # K g))"
proof -
  obtain nd where nd: "heap w s = Some nd" "mID nd \<noteq> 0" using s by (auto simp: unlinked_def)
  have t: "mHead gn = first_of (K g)" using group_ends [OF rep g] by blast
  have "t \<noteq> s \<and> heap w t \<noteq> None" if "mHead gn = Some t" for t
    using that t first_of_in [of "K g" t] child_of [OF rep, of t g] unlinked_not_child [OF rep s, of g] by auto
  then show ?thesis using Group_AddHead_heap [OF g(1) nd] tree_rep_link [OF rep s g, of "[]" "K g"] t by auto
qed

lemma Node_AddAfter_rep:
  assumes rep: "tree_rep n w K" and s: "unlinked w s" and K: "K g = as @ a # bs"
  shows "\<exists>w'. Node_AddAfter s a w = Some w' \<and> tree_rep n w' (K(g := as @ a # s # bs))"
proof -
  obtain nd where nd: "heap w s = Some nd" "mID nd \<noteq> 0" using s by (auto simp: unlinked_def)
  obtain an gn where a: "heap w a = Some an" "mParent an = Some g" "mNext an = next_of (K g) a"
    and g: "heap w g = Some gn" "mIsGroup gn" using child_of [OF rep, of a g] K by auto
  have d: "distinct (as @ a # bs)" using rep K tree_ok_D(4) [of "heap w" K g] by (simp add: tree_rep_def)
  have nx: "mNext an = first_of bs" using a(3) K next_of_insert [OF d, of a] by simp
  have sa: "s \<noteq> a" using unlinked_not_child [OF rep s, of g] K by auto
  have "t \<noteq> s \<and> heap w t \<noteq> None" if "mNext an = Some t" for t
    using that nx first_of_in [of bs t] K child_of [OF rep, of t g] unlinked_not_child [OF rep s, of g] by auto
  then show ?thesis using Node_AddAfter_heap [OF nd a(1,2) sa _ g(1)] nx
      tree_rep_link [OF rep s g, of "as @ [a]" bs] K by auto
qed

lemma Node_AddBefore_rep:
  assumes rep: "tree_rep n w K" and s: "unlinked w s" and K: "K g = as @ a # bs"
  shows "\<exists>w'. Node_AddBefore s a w = Some w' \<and> tree_rep n w' (K(g := as @ s # a # bs))"
proof -
  obtain nd where nd: "heap w s = Some nd" "mID nd \<noteq> 0" using s by (auto simp: unlinked_def)
  obtain an gn where a: "heap w a = Some an" "mParent an = Some g" "mPrev an = prev_of (K g) a"
    and g: "heap w g = Some gn" "mIsGroup gn" using child_of [OF rep, of a g] K by auto
  have d: "distinct (as @ a # bs)" using rep K tree_ok_D(4) [of "heap w" K g] by (simp add: tree_rep_def)
  have nx: "mPrev an = last_of as" using a(3) K prev_of_insert [OF d, of a] by simp
  have sa: "s \<noteq> a" using unlinked_not_child [OF rep s, of g] K by auto
  have "t \<noteq> s \<and> heap w t \<noteq> None" if "mPrev an = Some t" for t
    using that nx last_of_in [of as t] K child_of [OF rep, of t g] unlinked_not_child [OF rep s, of g] by auto
  then show ?thesis using Node_AddBefore_heap [OF nd a(1,2) sa _ g(1)] nx
      tree_rep_link [OF rep s g, of as "a # bs"] K by auto
qed

lemma Node_Remove_rep:
  assumes rep: "tree_rep n w K" and K: "K g = as @ s # bs"
  shows "\<exists>w'. Node_Remove s w = Some w' \<and> tree_rep n w' (K(g := as @ bs))
    \<and> w' = map_heap (unlink_node (Some g) s (last_of as) (first_of bs)) w"
proof -
  obtain sn gn where s: "heap w s = Some sn" "mParent sn = Some g" "mPrev sn = prev_of (K g) s" "mNext sn = next_of (K g) s"
    and g: "heap w g = Some gn" "mIsGroup gn" using child_of [OF rep, of s g] K by auto
  have ok: "tree_ok (heap w) K" "lib_ok n w" using rep by (simp_all add: tree_rep_def)
  have d: "distinct (as @ s # bs)" using K tree_ok_D(4) [OF ok(1), of g] by simp
  have nx: "mPrev sn = last_of as" "mNext sn = first_of bs"
    using s(3,4) K prev_of_insert [OF d, of s] next_of_insert [OF d, of s] by simp_all
  have p: "t \<noteq> s \<and> heap w t \<noteq> None" if "mPrev sn = Some t" for t
    using that nx last_of_in [of as t] K child_of [OF rep, of t g] d by auto
  have q: "t \<noteq> s \<and> heap w t \<noteq> None" if "mNext sn = Some t" for t
    using that nx first_of_in [of bs t] K child_of [OF rep, of t g] d by auto
  have "Node_Remove s w = Some (map_heap (unlink_node (Some g) s (last_of as) (first_of bs)) w)"
    using Node_Remove_heap [OF s(1) _ p q] s(2) g(1) nx by auto
  then show ?thesis
    using lib_ok_map_heap(1) [OF ok(2), of "unlink_node (Some g) s (last_of as) (first_of bs)"]
      tree_ok_unlink [OF ok(1) s(1,2) K] by (simp add: tree_rep_def)
qed

lemma Node_Replace_heap:
  assumes s: "heap w s = Some nd" "mID nd \<noteq> 0" and r: "heap w r = Some rn" "mParent rn = Some g" and sr: "s \<noteq> r"
    and p: "\<And>p. mPrev rn = Some p \<Longrightarrow> p \<noteq> s \<and> p \<noteq> r \<and> heap w p \<noteq> None"
    and q: "\<And>q. mNext rn = Some q \<Longrightarrow> q \<noteq> s \<and> q \<noteq> r \<and> heap w q \<noteq> None"
    and g: "heap w g = Some gn"
  shows "Node_Replace_link s r w = Some (True, map_heap (link_node g s (mPrev rn) (mNext rn))
    (map_heap (unlink_node (Some g) r (mPrev rn) (mNext rn)) w))"
proof (cases "mPrev rn")
  case None
  show ?thesis
  proof (cases "mNext rn")
    case None
    then show ?thesis using assms(1-5) g \<open>mPrev rn = None\<close>
      by (auto simp: Node_Replace_link_def unlink_def tree_step link_node_def unlink_node_def link_node_other unlink_node_other)
  next
    case (Some b)
    then obtain bn where "heap w b = Some bn" "b \<noteq> s" "b \<noteq> r" using q by blast
    then show ?thesis using assms(1-5) g \<open>mPrev rn = None\<close> Some
      by (auto simp: Node_Replace_link_def unlink_def tree_step link_node_def unlink_node_def link_node_other unlink_node_other)
  qed
next
  case (Some a)
  then obtain an where a: "heap w a = Some an" "a \<noteq> s" "a \<noteq> r" using p by blast
  show ?thesis
  proof (cases "mNext rn")
    case None
    then show ?thesis using assms(1-5) g Some a
      by (auto simp: Node_Replace_link_def unlink_def tree_step link_node_def unlink_node_def link_node_other unlink_node_other)
  next
    case (Some b)
    then obtain bn where "heap w b = Some bn" "b \<noteq> s" "b \<noteq> r" using q by blast
    then show ?thesis using assms(1-5) g \<open>mPrev rn = Some a\<close> a Some
      by (auto simp: Node_Replace_link_def unlink_def tree_step link_node_def unlink_node_def link_node_other unlink_node_other)
  qed
qed

lemma unlink_node_parent [simp]: "x \<noteq> s \<Longrightarrow> mParent (unlink_node g s a b x nd) = mParent nd"
  by (simp add: unlink_node_def)

lemma unlinked_unlink:
  "unlinked w s \<Longrightarrow> s \<noteq> r \<Longrightarrow> unlinked (map_heap (unlink_node g r a b) w) s"
  by (auto simp: unlinked_def)

lemma Node_Replace_rep:
  assumes rep: "tree_rep n w K" and s: "unlinked w s" and K: "K g = as @ r # bs"
  shows "\<exists>w'. Node_Replace_link s r w = Some (True, w') \<and> tree_rep n w' (K(g := as @ s # bs))
    \<and> w' = map_heap (link_node g s (last_of as) (first_of bs)) (map_heap (unlink_node (Some g) r (last_of as) (first_of bs)) w)"
proof -
  obtain nd where nd: "heap w s = Some nd" "mID nd \<noteq> 0" using s by (auto simp: unlinked_def)
  obtain rn gn where r: "heap w r = Some rn" "mParent rn = Some g" "mPrev rn = prev_of (K g) r" "mNext rn = next_of (K g) r"
    and g: "heap w g = Some gn" "mIsGroup gn" using child_of [OF rep, of r g] K by auto
  have d: "distinct (as @ r # bs)" using rep K tree_ok_D(4) [of "heap w" K g] by (simp add: tree_rep_def)
  have nx: "mPrev rn = last_of as" "mNext rn = first_of bs"
    using r(3,4) K prev_of_insert [OF d, of r] next_of_insert [OF d, of r] by simp_all
  have sr: "s \<noteq> r" using unlinked_not_child [OF rep s, of g] K by auto
  have p: "t \<noteq> s \<and> t \<noteq> r \<and> heap w t \<noteq> None" if "mPrev rn = Some t" for t
    using that nx last_of_in [of as t] K child_of [OF rep, of t g] unlinked_not_child [OF rep s, of g] d by auto
  have q: "t \<noteq> s \<and> t \<noteq> r \<and> heap w t \<noteq> None" if "mNext rn = Some t" for t
    using that nx first_of_in [of bs t] K child_of [OF rep, of t g] unlinked_not_child [OF rep s, of g] d by auto
  let ?w = "map_heap (unlink_node (Some g) r (last_of as) (first_of bs)) w"
  have rep1: "tree_rep n ?w (K(g := as @ bs))" using Node_Remove_rep [OF rep K] by auto
  have g1: "heap ?w g = Some (unlink_node (Some g) r (last_of as) (first_of bs) g gn)"
    "mIsGroup (unlink_node (Some g) r (last_of as) (first_of bs) g gn)"
    using g by (simp_all add: unlink_node_def)
  have "tree_rep n (map_heap (link_node g s (last_of as) (first_of bs)) ?w) (K(g := as @ s # bs))"
    using tree_rep_link [OF rep1 unlinked_unlink [OF s sr] g1, of as bs] by simp
  then show ?thesis using Node_Replace_heap [OF nd r(1,2) sr p q g(1)] nx by simp
qed

lemma insert_walk_skip:
  assumes rep: "tree_rep n w K"
  shows "ys \<noteq> [] \<Longrightarrow> K g = xs @ ys \<Longrightarrow>
    insert_walk i (first_of ys) w = Some (if i < length ys then Inr (ys ! i) else Inl ())"
proof (induction i arbitrary: xs ys)
  case 0
  then show ?case by (cases ys) simp_all
next
  case (Suc i)
  then obtain y zs where ys: "ys = y # zs" by (cases ys) simp_all
  have d: "distinct (xs @ y # zs)" using rep Suc.prems ys tree_ok_D(4) [of "heap w" K g] by (simp add: tree_rep_def)
  obtain yn where y: "heap w y = Some yn" "mNext yn = first_of zs"
    using child_of [OF rep, of y g] Suc.prems ys next_of_insert [OF d, of y] by auto
  show ?case
  proof (cases zs)
    case Nil
    then show ?thesis using y ys by (simp add: deref_def)
  next
    case (Cons z zs')
    then show ?thesis using y ys Suc.IH [of zs "xs @ [y]"] Suc.prems by (simp add: deref_def)
  qed
qed

lemma Group_Insert_rep:
  assumes rep: "tree_rep n w K" and s: "unlinked w s" and g: "heap w g = Some gn" "mIsGroup gn" and ne: "K g \<noteq> []"
  shows "\<exists>w'. Group_Insert g s i w = Some w' \<and> tree_rep n w' (K(g := take (nat i) (K g) @ s # drop (nat i) (K g)))"
proof -
  obtain nd where nd: "heap w s = Some nd" "mID nd \<noteq> 0" using s by (auto simp: unlinked_def)
  have h: "mHead gn = first_of (K g)" using group_ends [OF rep g] by blast
  consider "i \<le> 0" | "0 < i" "length (K g) \<le> nat i" | "0 < i" "nat i < length (K g)" by linarith
  then show ?thesis
  proof cases
    case 1
    then show ?thesis using Group_AddHead_rep [OF rep s g] nd by (simp add: Group_Insert_def deref_def)
  next
    case 2
    then show ?thesis using Group_AddTail_rep [OF rep s g] nd g h insert_walk_skip [OF rep ne, of g "[]" "nat i"]
      by (simp add: Group_Insert_def deref_def)
  next
    case 3
    have K: "K g = take (nat i) (K g) @ K g ! nat i # drop (Suc (nat i)) (K g)" using 3 by (simp add: id_take_nth_drop)
    have "take (nat i) (K g) @ s # drop (nat i) (K g) = take (nat i) (K g) @ s # K g ! nat i # drop (Suc (nat i)) (K g)"
      using 3 by (simp add: Cons_nth_drop_Suc)
    moreover have "Group_Insert g s i w = Node_AddBefore s (K g ! nat i) w"
      using 3 nd g h insert_walk_skip [OF rep ne, of g "[]" "nat i"] by (simp add: Group_Insert_def deref_def)
    ultimately show ?thesis using Node_AddBefore_rep [OF rep s K] by simp
  qed
qed

section \<open>New nodes in the tree\<close>

lemma tree_ok_fresh:
  assumes ok: "tree_ok h K" and h: "h p = None"
    and nd: "mParent nd = None" "mPrev nd = None" "mNext nd = None" "mHead nd = None" "mTail nd = None"
  shows "tree_ok (h(p \<mapsto> nd)) K"
proof -
  have "K p = []" using tree_ok_D(3) [OF ok h] .
  then have "links_ok K p nd" "kids_ok K p nd" using nd by (auto simp: links_ok_def kids_ok_def)
  moreover have "c \<noteq> p" if "c \<in> set (K g)" for c g using tree_ok_D(5) [OF ok that] h by auto
  ultimately show ?thesis using ok unfolding tree_ok_def by auto
qed

lemma Node_New_rep:
  assumes rep: "tree_rep n w K" and al: "allocs w = []" and i: "0 < sint inID" and new: "node_map w inID = None"
    and room: "card (dom (heap w)) < 2 ^ (n - 1)"
  shows "\<exists>w'. Node_New def inID w = Some (kSCErr_None, Some (fresh w), w') \<and> tree_rep n w' K \<and> unlinked w' (fresh w)
    \<and> heap w' = (heap w)(fresh w \<mapsto> blank_node def inID) \<and> node_map w' = (node_map w)(inID \<mapsto> fresh w)"
proof -
  have ok: "lib_ok n w" "tree_ok (heap w) K" using rep by (simp_all add: tree_rep_def)
  obtain w' where w': "Node_New def inID w = Some (kSCErr_None, Some (fresh w), w')" "lib_ok n w'"
    "heap w' = (heap w)(fresh w \<mapsto> blank_node def inID)" "node_map w' = (node_map w)(inID \<mapsto> fresh w)"
    using Node_New_fresh(1) [OF ok(1) al _ new room, of def] i by auto
  have "heap w (fresh w) = None" using ok(1) by (simp add: lib_ok_def)
  then have "tree_ok (heap w') K"
    using tree_ok_fresh [OF ok(2), of "fresh w" "blank_node def inID"] w'(3) by (simp add: blank_node_def)
  moreover have "unlinked w' (fresh w)" using i w'(3) by (auto simp: unlinked_def blank_node_def)
  ultimately show ?thesis using w' by (auto simp: tree_rep_def)
qed

definition blank_group :: "i32 \<Rightarrow> Node" where
  "blank_group inID = (blank_node GroupNodeDef inID)\<lparr>mCalcFunc := Cf_Group_Calc, mIsGroup := True\<rparr>"

lemma Group_New_rep:
  assumes rep: "tree_rep n w K" and al: "allocs w = []" and i: "0 < sint inID" and new: "node_map w inID = None"
    and room: "card (dom (heap w)) < 2 ^ (n - 1)"
  shows "\<exists>w'. Group_New inID w = Some (kSCErr_None, Some (fresh w), w') \<and> tree_rep n w' K \<and> unlinked w' (fresh w)
    \<and> heap w' = (heap w)(fresh w \<mapsto> blank_group inID) \<and> node_map w' = (node_map w)(inID \<mapsto> fresh w)"
proof -
  obtain w1 where w1: "Node_New GroupNodeDef inID w = Some (kSCErr_None, Some (fresh w), w1)" "tree_rep n w1 K"
    "heap w1 = (heap w)(fresh w \<mapsto> blank_node GroupNodeDef inID)" "node_map w1 = (node_map w)(inID \<mapsto> fresh w)"
    using Node_New_rep [OF assms, of GroupNodeDef] by blast
  let ?f = "\<lambda>n. n\<lparr>mCalcFunc := Cf_Group_Calc, mIsGroup := True, mHead := None, mTail := None\<rparr>"
  have f: "?f (blank_node GroupNodeDef inID) = blank_group inID" by (simp add: blank_group_def blank_node_def)
  let ?w2 = "w1\<lparr>heap := (heap w)(fresh w \<mapsto> blank_group inID)\<rparr>"
  let ?w' = "?w2\<lparr>mNumGroups := mNumGroups w1 + 1\<rparr>"
  have u: "upd (fresh w) ?f w1 = Some ?w2"
    using w1(3) f by (simp add: upd_def)
  have l1: "lib_ok n w1" using w1(2) by (simp add: tree_rep_def)
  have lib: "lib_ok n ?w2" "node_map ?w2 = node_map w1"
    using lib_ok_upd [OF l1 u] by simp_all
  have fr: "heap w (fresh w) = None" using rep by (simp add: tree_rep_def lib_ok_def)
  have "tree_ok (heap ?w') K"
    using tree_ok_fresh [of "heap w" K "fresh w" "blank_group inID"] rep fr
    by (simp add: tree_rep_def blank_group_def blank_node_def)
  moreover have "lib_ok n ?w'" "node_map ?w' = node_map ?w2"
    using lib_ok_same_ids [OF lib(1), of ?w'] by simp_all
  moreover have "unlinked ?w' (fresh w)" using i by (auto simp: unlinked_def blank_group_def blank_node_def)
  moreover have "Group_New inID w = Some (kSCErr_None, Some (fresh w), ?w')" using w1(1) u by (simp add: Group_New_def)
  ultimately show ?thesis using lib(2) w1(4) by (intro exI [of _ ?w']) (simp add: tree_rep_def)
qed

lemma empty_world_rep: "1 \<le> n \<Longrightarrow> n < 31 \<Longrightarrow> tree_rep n (empty_world (2 ^ (n - 1))) (\<lambda>_. [])"
  using empty_world_ok by (simp add: tree_rep_def tree_ok_def) (simp add: empty_world_def)

text \<open>The rest of the state is not touched by the creation of a node.\<close>

definition same_queues :: "World \<Rightarrow> World \<Rightarrow> bool" where
  "same_queues w w' \<longleftrightarrow> (allocs w = [] \<longrightarrow> allocs w' = []) \<and> mRealTime w' = mRealTime w \<and> mNodeEnds w' = mNodeEnds w
     \<and> mDeleteGraphDefs w' = mDeleteGraphDefs w \<and> defs w' = defs w"

lemma World_Alloc_frame: "World_Alloc w = (r, w') \<Longrightarrow> same_queues w w'"
  by (auto simp: World_Alloc_def same_queues_def split: list.splits bool.splits)

lemma Node_New_frame: "Node_New def inID w = Some (e, r, w') \<Longrightarrow> same_queues w w'"
  by (auto simp: same_queues_def Node_New_def Let_def World_AddNode_def World_Free_def bind_eq_Some_conv
    dest!: World_Alloc_frame split: if_splits option.splits prod.splits)

lemma Group_New_frame: "Group_New inID w = Some (e, r, w') \<Longrightarrow> same_queues w w'"
  by (cases "Node_New GroupNodeDef inID w")
    (auto simp: same_queues_def Group_New_def upd_def bind_eq_Some_conv dest!: Node_New_frame split: option.split_asm)

text \<open>A small tree: a group with one child, and a node not linked yet.\<close>

lemma small_tree:
  "\<exists>w g c s gn. tree_rep 3 w ((\<lambda>_. [])(g := [c])) \<and> unlinked w s \<and> heap w g = Some gn \<and> mIsGroup gn \<and> s \<noteq> g \<and> c \<noteq> g
    \<and> same_queues (empty_world 4) w \<and> (\<forall>p nd. heap w p = Some nd \<longrightarrow> mIsGroup nd \<and> 0 < sint (mID nd))"
proof -
  let ?w0 = "empty_world 4"
  have r0: "tree_rep 3 ?w0 (\<lambda>_. [])" using empty_world_rep [of 3] by simp
  have a0: "allocs ?w0 = []" and h0: "heap ?w0 = Map.empty" by (simp_all add: empty_world_def)
  have "node_map ?w0 j = None" for j
    using node_map_Some [of 3 ?w0 j] r0 h0 by (cases "node_map ?w0 j") (auto simp: tree_rep_def)
  then have m0: "node_map ?w0 = Map.empty" by blast
  obtain w1 where w1: "Group_New 1 ?w0 = Some (kSCErr_None, Some (fresh ?w0), w1)" "tree_rep 3 w1 (\<lambda>_. [])"
    "heap w1 = [fresh ?w0 \<mapsto> blank_group 1]" "node_map w1 = [1 \<mapsto> fresh ?w0]"
    using Group_New_rep [OF r0 a0, of 1] m0 h0 by auto
  define g where "g = fresh ?w0"
  have f1: "same_queues ?w0 w1" by (rule Group_New_frame [OF w1(1)])
  then have a1: "allocs w1 = []" using a0 by (simp add: same_queues_def)
  obtain w2 where w2: "Group_New 2 w1 = Some (kSCErr_None, Some (fresh w1), w2)" "tree_rep 3 w2 (\<lambda>_. [])"
    "unlinked w2 (fresh w1)" "heap w2 = (heap w1)(fresh w1 \<mapsto> blank_group 2)"
    "node_map w2 = (node_map w1)(2 \<mapsto> fresh w1)"
    using Group_New_rep [OF w1(2) a1, of 2] w1(3,4) by auto
  have gc: "fresh w1 \<noteq> g" using w1(2,3) by (force simp: tree_rep_def lib_ok_def g_def)
  have h2: "heap w2 g = Some (blank_group 1)" "mIsGroup (blank_group i)" "mID (blank_group i) = i" for i
    using gc w1(3) w2(4) by (simp_all add: g_def blank_group_def blank_node_def)
  obtain w3 where w3: "Group_AddTail g (fresh w1) w2 = Some w3" "tree_rep 3 w3 ((\<lambda>_. [])(g := [fresh w1]))"
    using Group_AddTail_rep [OF w2(2,3) h2(1,2)] by auto
  have "mTail (blank_group 1) = None" by (simp add: blank_group_def blank_node_def)
  then have eq: "w3 = map_heap (link_node g (fresh w1) None None) w2"
    using Group_AddTail_heap [OF h2(1), of "fresh w1" "blank_group 2"] w2(4) w3(1) h2(3) by simp
  have f2: "same_queues w1 w2" by (rule Group_New_frame [OF w2(1)])
  have f3: "same_queues w2 w3" using eq by (simp add: map_heap_def same_queues_def)
  have a3: "allocs w3 = []" using f2 f3 a1 by (simp add: same_queues_def)
  have m3: "node_map w3 3 = None" using eq w2(5) w1(4) lib_ok_map_heap(2) [of 3 w2 "link_node g (fresh w1) None None"] w2(2)
    by (simp add: tree_rep_def)
  have "card (dom (heap w3)) = 2" using eq w2(4) w1(3) gc
    by (simp add: dom_map_option g_def del: fun_upd_apply)
  then obtain w4 where w4: "Group_New 3 w3 = Some (kSCErr_None, Some (fresh w3), w4)" "tree_rep 3 w4 ((\<lambda>_. [])(g := [fresh w1]))"
    "unlinked w4 (fresh w3)" "heap w4 = (heap w3)(fresh w3 \<mapsto> blank_group 3)"
    using Group_New_rep [OF w3(2) a3, of 3] m3 by auto
  have "heap w3 g \<noteq> None" using eq h2 by simp
  then have ne: "fresh w3 \<noteq> g" using w3(2) by (auto simp: tree_rep_def lib_ok_def)
  then have h4: "heap w4 g = Some (link_node g (fresh w1) None None g (blank_group 1))" using w4(4) eq h2 by simp
  have all: "mIsGroup nd \<and> 0 < sint (mID nd)" if "heap w4 p = Some nd" for p nd
    using that w4(4) eq w2(4) w1(3) h2(2,3) by (auto simp: link_node_def split: if_splits)
  have f4: "same_queues ?w0 w4" using f1 f2 f3 Group_New_frame [OF w4(1)] by (simp add: same_queues_def)
  show ?thesis using w4(2,3) h4 all [OF h4] all f4 ne gc by blast
qed

text \<open>
  C3: on a world whose links represent the tree \<open>K\<close>, adding an unlinked node at the head or the
  tail of a group, or after, before or in place of a linked node, and removing a linked node, never
  follow a bad pointer, and the links they leave represent the tree with the corresponding list
  operation done: in particular the head, tail, previous, next and parent fields of every node are
  again consistent, and the table of nodes is untouched.
\<close>

theorem tree_ops_refine_lists:
  assumes rep: "tree_rep n w K" and s: "unlinked w s" and g: "heap w g = Some gn" "mIsGroup gn"
    and K: "K p = as @ a # bs"
  shows "(\<exists>w'. Group_AddHead g s w = Some w' \<and> tree_rep n w' (K(g := s # K g)))
    \<and> (\<exists>w'. Group_AddTail g s w = Some w' \<and> tree_rep n w' (K(g := K g @ [s])))
    \<and> (\<exists>w'. Node_AddAfter s a w = Some w' \<and> tree_rep n w' (K(p := as @ a # s # bs)))
    \<and> (\<exists>w'. Node_AddBefore s a w = Some w' \<and> tree_rep n w' (K(p := as @ s # a # bs)))
    \<and> (\<exists>w'. Node_Replace_link s a w = Some (True, w') \<and> tree_rep n w' (K(p := as @ s # bs)))
    \<and> (\<exists>w'. Node_Remove a w = Some w' \<and> tree_rep n w' (K(p := as @ bs)))"
  using Group_AddHead_rep [OF rep s g] Group_AddTail_rep [OF rep s g] Node_AddAfter_rep [OF rep s K]
    Node_AddBefore_rep [OF rep s K] Node_Replace_rep [OF rep s K] Node_Remove_rep [OF rep K] by blast

theorem tree_ops_refine_lists_witness:
  "\<exists>w w' g c s. tree_rep 3 w ((\<lambda>_. [])(g := [c])) \<and> Node_AddAfter s c w = Some w' \<and> tree_rep 3 w' ((\<lambda>_. [])(g := [c, s]))"
proof -
  obtain w g c s gn where t: "tree_rep 3 w ((\<lambda>_. [])(g := [c]))" "unlinked w s" "heap w g = Some gn" "mIsGroup gn"
    using small_tree by blast
  have "\<exists>w'. Node_AddAfter s c w = Some w' \<and> tree_rep 3 w' ((\<lambda>_. [])(g := [c, s]))"
    using tree_ops_refine_lists [OF t, of g "[]" c "[]"] by simp
  then show ?thesis using t(1) by blast
qed

text \<open>
  Inserting at a position: for a group with children the node ends up at that position, at the
  head for a negative one and at the tail for one beyond the end; for a group without children a
  positive position dereferences the null head.
\<close>

theorem group_insert_position:
  assumes rep: "tree_rep n w K" and s: "unlinked w s" and g: "heap w g = Some gn" "mIsGroup gn"
  shows "(K g \<noteq> [] \<or> i \<le> 0 \<longrightarrow>
      (\<exists>w'. Group_Insert g s i w = Some w' \<and> tree_rep n w' (K(g := take (nat i) (K g) @ s # drop (nat i) (K g)))))
    \<and> (K g = [] \<and> 0 < i \<longrightarrow> Group_Insert g s i w = None)"
proof -
  obtain nd where nd: "heap w s = Some nd" "mID nd \<noteq> 0" using s by (auto simp: unlinked_def)
  have h: "mHead gn = first_of (K g)" using group_ends [OF rep g] by blast
  have "insert_walk i' None w = None" for i' by (cases i') simp_all
  then have "K g = [] \<and> 0 < i \<longrightarrow> Group_Insert g s i w = None" using nd g h by (simp add: Group_Insert_def deref_def)
  moreover have "\<exists>w'. Group_Insert g s i w = Some w' \<and> tree_rep n w' (K(g := s # K g))" if "i \<le> 0"
    using Group_AddHead_rep [OF rep s g] nd that by (simp add: Group_Insert_def deref_def)
  ultimately show ?thesis using Group_Insert_rep [OF rep s g] by auto
qed

theorem group_insert_position_witness:
  "\<exists>w w' g c s. tree_rep 3 w ((\<lambda>_. [])(g := [c])) \<and> Group_Insert g s 5 w = Some w' \<and> tree_rep 3 w' ((\<lambda>_. [])(g := [c, s]))"
proof -
  obtain w g c s gn where t: "tree_rep 3 w ((\<lambda>_. [])(g := [c]))" "unlinked w s" "heap w g = Some gn" "mIsGroup gn"
    using small_tree by blast
  have "\<exists>w'. Group_Insert g s 5 w = Some w' \<and> tree_rep 3 w' ((\<lambda>_. [])(g := [c, s]))"
    using group_insert_position [OF t, of 5] by simp
  then show ?thesis using t(1) by blast
qed

lemma sibling_of_root_ignored:
  assumes "heap w a = Some an" and "mParent an = None"
  shows "Node_AddAfter s a w = Some w" and "Node_AddBefore s a w = Some w" and "Node_Replace_link s a w = Some (False, w)"
  using assms by (auto simp: Node_AddAfter_def Node_AddBefore_def Node_Replace_link_def deref_def)

end
