(* ===== verification/SC_Node.thy ===== *)
theory SC_Node
  imports SC_Tree
begin

text \<open>
  The life of a node after its creation: destruction and deletion (\<open>Node_Dtor\<close>, \<open>Node_Delete\<close>,
  \<open>Node_Replace\<close> of \<open>SC_Node.cpp\<close>, \<open>Group_Dtor\<close>, \<open>Group_DeleteAll\<close>, \<open>Group_DeepFreeGraphs\<close> of
  \<open>SC_Group.cpp\<close>, \<open>Graph_Dtor\<close> of \<open>SC_Graph.cpp\<close>), running and ending (\<open>Node_SetRun\<close>, \<open>Node_End\<close>,
  \<open>Unit_DoneAction\<close>).

  \<open>Node_Delete\<close>, \<open>Group_Dtor\<close> and \<open>Group_DeleteAll\<close> call each other; the models take fuel, and four
  units of it for every node of the subtree are enough (\<open>node_delete_subtree\<close>).
\<close>

section \<open>Deletion\<close>

definition Node_Dtor :: "ptr \<Rightarrow> World \<Rightarrow> World option" where
  "Node_Dtor inNode w = do {
     w \<leftarrow> Node_StateMsg inNode kNode_End w;
     w \<leftarrow> Node_Remove inNode w;
     (_, w) \<leftarrow> World_RemoveNode inNode w;
     World_Free inNode w }"

text \<open>
  The destructors are not called while the node still waits for its first calculation. The event
  \<open>Unit_Dtor\<close> stands for the call of the unit's destructor, if it has one.
\<close>

definition call_dtors :: "ptr \<Rightarrow> Node \<Rightarrow> World \<Rightarrow> World" where
  "call_dtors p n w =
     (if mCalcFunc n \<noteq> Cf_Graph_FirstCalc
      then w\<lparr>unit_log := unit_log w @ List.map (Unit_Dtor p) [0..<gNumUnits n]\<rparr> else w)"

definition release_def :: "ptr \<Rightarrow> World \<Rightarrow> World option" where
  "release_def d w = do {
     g \<leftarrow> defs w d;
     let w = w\<lparr>defs := (defs w)(d \<mapsto> g\<lparr>dRefCount := dRefCount g - 1\<rparr>)\<rparr>;
     if dRefCount g - 1 \<le> 0 then (if mRealTime w then GraphDef_DeleteMsg d w else GraphDef_Free d w)
     else Some w }"

definition Graph_Dtor :: "ptr \<Rightarrow> World \<Rightarrow> World option" where
  "Graph_Dtor inGraph w = do {
     n \<leftarrow> deref w inGraph;
     let w = call_dtors inGraph n w;
     let w = w\<lparr>mNumUnits := mNumUnits w - of_nat (gNumUnits n), mNumGraphs := mNumGraphs w - 1\<rparr>;
     w \<leftarrow> (case mDef n of Def d \<Rightarrow> release_def d w | GroupNodeDef \<Rightarrow> None);
     Node_Dtor inGraph w }"

text \<open>The loop of \<open>Group_DeleteAll\<close> cuts each child off before it deletes it.\<close>

fun Node_Delete :: "nat \<Rightarrow> ptr \<Rightarrow> World \<Rightarrow> World option"
  and Group_Dtor :: "nat \<Rightarrow> ptr \<Rightarrow> World \<Rightarrow> World option"
  and Group_DeleteAll :: "nat \<Rightarrow> ptr \<Rightarrow> World \<Rightarrow> World option"
  and delete_children :: "nat \<Rightarrow> ptr option \<Rightarrow> World \<Rightarrow> World option" where
  "Node_Delete 0 inNode w = None"
| "Node_Delete (Suc k) inNode w = do {
     n \<leftarrow> deref w inNode;
     if mID n = 0 then Some w
     else if mIsGroup n then Group_Dtor k inNode w else Graph_Dtor inNode w }"
| "Group_Dtor 0 inGroup w = None"
| "Group_Dtor (Suc k) inGroup w = do {
     w \<leftarrow> Group_DeleteAll k inGroup w;
     Node_Dtor inGroup (w\<lparr>mNumGroups := mNumGroups w - 1\<rparr>) }"
| "Group_DeleteAll 0 inGroup w = None"
| "Group_DeleteAll (Suc k) inGroup w = do {
     g \<leftarrow> deref w inGroup;
     w \<leftarrow> delete_children k (mHead g) w;
     w \<leftarrow> set_tail inGroup None w;
     set_head inGroup None w }"
| "delete_children 0 child w = None"
| "delete_children (Suc k) None w = Some w"
| "delete_children (Suc k) (Some child) w = do {
     c \<leftarrow> deref w child;
     w \<leftarrow> unlink child w;
     w \<leftarrow> Node_Delete k child w;
     delete_children k (mNext c) w }"

definition Node_Replace :: "nat \<Rightarrow> ptr \<Rightarrow> ptr \<Rightarrow> World \<Rightarrow> World option" where
  "Node_Replace k s replaceThisOne w = do {
     (linked, w) \<leftarrow> Node_Replace_link s replaceThisOne w;
     if linked then Node_Delete k replaceThisOne w else Some w }"

fun Group_DeepFreeGraphs :: "nat \<Rightarrow> ptr \<Rightarrow> World \<Rightarrow> World option"
  and deep_free_children :: "nat \<Rightarrow> ptr option \<Rightarrow> World \<Rightarrow> World option" where
  "Group_DeepFreeGraphs 0 inGroup w = None"
| "Group_DeepFreeGraphs (Suc k) inGroup w = do { g \<leftarrow> deref w inGroup; deep_free_children k (mHead g) w }"
| "deep_free_children 0 child w = None"
| "deep_free_children (Suc k) None w = Some w"
| "deep_free_children (Suc k) (Some child) w = do {
     c \<leftarrow> deref w child;
     w \<leftarrow> (if mIsGroup c then Group_DeepFreeGraphs k child w
          else do { w \<leftarrow> Node_Remove child w; Node_Delete k child w });
     deep_free_children k (mNext c) w }"

section \<open>Running and ending\<close>

definition set_calc :: "ptr \<Rightarrow> NodeCalcFunc \<Rightarrow> World \<Rightarrow> World option" where
  "set_calc p f w = upd p (\<lambda>n. n\<lparr>mCalcFunc := f\<rparr>) w"

definition Node_SetRun :: "ptr \<Rightarrow> i32 \<Rightarrow> World \<Rightarrow> World option" where
  "Node_SetRun inNode inRun w = do {
     n \<leftarrow> deref w inNode;
     if inRun \<noteq> 0 then
       (if mCalcFunc n = Cf_Node_NullCalc then do {
          w \<leftarrow> set_calc inNode (if mIsGroup n then Cf_Group_Calc else Cf_Graph_Calc) w;
          Node_StateMsg inNode kNode_On w }
        else Some w)
     else
       (if mCalcFunc n \<noteq> Cf_Node_NullCalc then do {
          w \<leftarrow> set_calc inNode (if \<not> mIsGroup n \<and> mCalcFunc n = Cf_Graph_FirstCalc
               then Cf_Graph_NullFirstCalc else Cf_Node_NullCalc) w;
          Node_StateMsg inNode kNode_Off w }
        else Some w) }"

definition Node_End :: "ptr \<Rightarrow> World \<Rightarrow> World option" where
  "Node_End inNode w = set_calc inNode Cf_Node_Delete w"

definition on_sibling :: "ptr option \<Rightarrow> (ptr \<Rightarrow> World \<Rightarrow> World option) \<Rightarrow> World \<Rightarrow> World option" where
  "on_sibling p f w = (case p of None \<Rightarrow> Some w | Some q \<Rightarrow> f q w)"

fun end_backwards :: "nat \<Rightarrow> ptr option \<Rightarrow> World \<Rightarrow> World option" where
  "end_backwards 0 node w = None"
| "end_backwards (Suc k) None w = Some w"
| "end_backwards (Suc k) (Some p) w = do { n \<leftarrow> deref w p; w \<leftarrow> Node_End p w; end_backwards k (mPrev n) w }"

fun end_forwards :: "nat \<Rightarrow> ptr option \<Rightarrow> World \<Rightarrow> World option" where
  "end_forwards 0 node w = None"
| "end_forwards (Suc k) None w = Some w"
| "end_forwards (Suc k) (Some p) w = do { n \<leftarrow> deref w p; w \<leftarrow> Node_End p w; end_forwards k (mNext n) w }"

definition end_or :: "(ptr \<Rightarrow> World \<Rightarrow> World option) \<Rightarrow> ptr \<Rightarrow> World \<Rightarrow> World option" where
  "end_or f p w = do { n \<leftarrow> deref w p; if mIsGroup n then f p w else Node_End p w }"

text \<open>\<open>p\<close> is the node of the graph the unit belongs to.\<close>

definition Unit_DoneAction :: "nat \<Rightarrow> int \<Rightarrow> ptr \<Rightarrow> World \<Rightarrow> World option" where
  "Unit_DoneAction k doneAction p w =
     (if doneAction = 1 then Node_SetRun p 0 w
      else if doneAction = 2 then Node_End p w
      else if doneAction = 3 then do { w \<leftarrow> Node_End p w; n \<leftarrow> deref w p; on_sibling (mPrev n) Node_End w }
      else if doneAction = 4 then do { w \<leftarrow> Node_End p w; n \<leftarrow> deref w p; on_sibling (mNext n) Node_End w }
      else if doneAction = 5 then do {
        w \<leftarrow> Node_End p w; n \<leftarrow> deref w p; on_sibling (mPrev n) (end_or (Group_DeleteAll k)) w }
      else if doneAction = 6 then do {
        w \<leftarrow> Node_End p w; n \<leftarrow> deref w p; on_sibling (mNext n) (end_or (Group_DeleteAll k)) w }
      else if doneAction = 7 then end_backwards k (Some p) w
      else if doneAction = 8 then end_forwards k (Some p) w
      else if doneAction = 9 then do {
        w \<leftarrow> Node_End p w; n \<leftarrow> deref w p; on_sibling (mPrev n) (\<lambda>q. Node_SetRun q 0) w }
      else if doneAction = 10 then do {
        w \<leftarrow> Node_End p w; n \<leftarrow> deref w p; on_sibling (mNext n) (\<lambda>q. Node_SetRun q 0) w }
      else if doneAction = 11 then do {
        w \<leftarrow> Node_End p w; n \<leftarrow> deref w p; on_sibling (mPrev n) (end_or (Group_DeepFreeGraphs k)) w }
      else if doneAction = 12 then do {
        w \<leftarrow> Node_End p w; n \<leftarrow> deref w p; on_sibling (mNext n) (end_or (Group_DeepFreeGraphs k)) w }
      else if doneAction = 13 then do {
        n \<leftarrow> deref w p; g \<leftarrow> mParent n; gn \<leftarrow> deref w g; end_forwards k (mHead gn) w }
      else if doneAction = 14 then do { n \<leftarrow> deref w p; g \<leftarrow> mParent n; Node_End g w }
      else Some w)"

section \<open>The engine's invariant\<close>

text \<open>
  In real-time operation: the table of nodes is right, the message queues are well formed, and the
  definition of every synth exists.
\<close>

definition world_ok :: "nat \<Rightarrow> World \<Rightarrow> bool" where
  "world_ok n w \<longleftrightarrow> lib_ok n w \<and> mRealTime w \<and> nofree_ok 1024 (mNodeEnds w) \<and> nofree_ok 512 (mDeleteGraphDefs w)
     \<and> (\<forall>p nd. heap w p = Some nd \<longrightarrow> \<not> mIsGroup nd \<longrightarrow> (\<exists>d. mDef nd = Def d \<and> defs w d \<noteq> None))"

lemma world_ok_def_of: "world_ok n w \<Longrightarrow> heap w p = Some nd \<Longrightarrow> \<not> mIsGroup nd \<Longrightarrow> \<exists>d. mDef nd = Def d \<and> defs w d \<noteq> None"
  unfolding world_ok_def by blast

lemma nofree_write:
  assumes "nofree_ok N q"
  shows "\<exists>b q'. MsgFifoNoFree_Write N x q = Some (b, q') \<and> nofree_ok N q'"
  using nofree.queued_room [OF assms] nofree.put_room [OF assms, of x] nofree.put_full [OF assms, of x] assms
  by (cases "length (nofree_queued N q) = N - 1") fastforce+

lemma world_ok_msgs:
  assumes "world_ok n w" and "nofree_ok 1024 q" and "nofree_ok 512 q'"
  shows "world_ok n (w\<lparr>mNodeEnds := q, mDeleteGraphDefs := q'\<rparr>)"
proof -
  have "lib_ok n (w\<lparr>mNodeEnds := q, mDeleteGraphDefs := q'\<rparr>)"
    using lib_ok_same_ids(1) [of n w "w\<lparr>mNodeEnds := q, mDeleteGraphDefs := q'\<rparr>"] assms by (simp add: world_ok_def)
  then show ?thesis using assms by (simp add: world_ok_def)
qed

lemma Node_StateMsg_ok:
  assumes ok: "world_ok n w" and p: "heap w p = Some nd"
    and nb: "\<And>q. mParent nd = Some q \<or> mPrev nd = Some q \<or> mNext nd = Some q \<or> mIsGroup nd \<and> (mHead nd = Some q \<or> mTail nd = Some q)
      \<Longrightarrow> heap w q \<noteq> None"
  shows "\<exists>q. Node_StateMsg p st w = Some (w\<lparr>mNodeEnds := q\<rparr>) \<and> world_ok n (w\<lparr>mNodeEnds := q\<rparr>)"
proof -
  have self: "w\<lparr>mNodeEnds := mNodeEnds w\<rparr> = w" by simp
  have idk: "\<exists>i. id_of w x = Some i" if "\<And>q. x = Some q \<Longrightarrow> heap w q \<noteq> None" for x
    using that by (cases x) (auto simp: id_of_def deref_def)
  obtain a b c where abc: "id_of w (mParent nd) = Some a" "id_of w (mPrev nd) = Some b" "id_of w (mNext nd) = Some c"
    using idk [of "mParent nd"] idk [of "mPrev nd"] idk [of "mNext nd"] nb by blast
  obtain d where d: "(if mIsGroup nd then id_of w (mHead nd) else Some (-1)) = Some d"
    using idk [of "mHead nd"] nb by (cases "mIsGroup nd") auto
  obtain e where e: "(if mIsGroup nd then id_of w (mTail nd) else Some (-1)) = Some e"
    using idk [of "mTail nd"] nb by (cases "mIsGroup nd") auto
  have w1: "\<exists>q. post_node_end m w = Some (w\<lparr>mNodeEnds := q\<rparr>) \<and> nofree_ok 1024 q" for m
    using nofree_write [of 1024 "mNodeEnds w" m] ok by (auto simp: post_node_end_def world_ok_def)
  have w2: "\<exists>q. post_node_end m w = Some (w\<lparr>mNodeEnds := q\<rparr>) \<and> world_ok n (w\<lparr>mNodeEnds := q\<rparr>)" for m
    using w1 [of m] world_ok_msgs [OF ok _, of _ "mDeleteGraphDefs w"] ok by (fastforce simp: world_ok_def)
  show ?thesis
  proof (cases "sint (mID nd) < 0 \<and> st \<noteq> kNode_Info")
    case True
    then have "Node_StateMsg p st w = Some (w\<lparr>mNodeEnds := mNodeEnds w\<rparr>)"
      using p by (simp add: Node_StateMsg_def deref_def)
    then show ?thesis using ok self by metis
  next
    case False
    then have "Node_StateMsg p st w = post_node_end \<lparr>meNodeID = mID nd, meGroupID = a, mePrevNodeID = b, meNextNodeID = c,
         meIsGroup = (if mIsGroup nd then 1 else 0), meHeadID = d, meTailID = e, meState = st\<rparr> w"
      using p ok abc d e by (simp only: Node_StateMsg_def deref_def world_ok_def) (simp only: Option.bind.simps if_False if_True not_not simp_thms)
    then show ?thesis using w2 by metis
  qed
qed


lemma lib_ok_remove:
  assumes ok: "lib_ok n w" and p: "heap w p = Some nd"
  shows "\<exists>w1 w2. World_RemoveNode p w = Some (True, w1) \<and> World_Free p w1 = Some w2 \<and> lib_ok n w2
    \<and> (\<exists>t. w2 = w\<lparr>heap := (heap w)(p := None), mNodeLib := t\<rparr>)"
proof -
  let ?kv = "node_kv (heap w)" and ?h = "(heap w)(p := None)"
  have inv: "int_inv ?kv n (mNodeLib w)" using ok by (simp add: lib_ok_def)
  have key: "store_key ?kv Hash_int p = Some (mID nd)"
    using p lib_ok_hash [OF ok p] by (simp add: store_key_def node_kv_def)
  have "store_view ?kv Hash_int (mNodeLib w) (mID nd) = Some p" using ok p by (simp add: lib_ok_def node_map_def)
  then obtain t where t: "IntHashTable_Remove ?kv (mNodeLib w) p = Some (True, t)" "int_inv ?kv n t"
    "store_view ?kv Hash_int t = (store_view ?kv Hash_int (mNodeLib w))(mID nd := None)"
    using int_table.remove_stored [OF inv key TrueI] by blast
  let ?w1 = "w\<lparr>mNodeLib := t\<rparr>" and ?w2 = "w\<lparr>heap := ?h, mNodeLib := t\<rparr>"
  have tt: "table_inv ?kv (\<lambda>_. True) n t" using t(2) by (simp add: int_inv_def store_inv_def)
  have view: "store_view ?kv Hash_int t k = Some q \<longleftrightarrow> k \<noteq> mID nd \<and> node_map w k = Some q" for k q
    using t(3) by (simp add: node_map_def)
  have items: "q \<in> items t \<Longrightarrow> q \<noteq> p" for q
  proof
    assume q: "q \<in> items t" "q = p"
    have "store_view ?kv Hash_int t (mID nd) = Some p"
      using int_keys.store_view_Some [OF tt, of Hash_int "mID nd" p] q key by (simp add: store_key_Some)
    then show False using view by simp
  qed
  then have inv': "int_inv (node_kv ?h) n t" using int_inv_cong [of t ?kv "node_kv ?h" n] t(2) by (simp add: node_kv_def)
  have map: "node_map ?w2 k = Some q \<longleftrightarrow> k \<noteq> mID nd \<and> node_map w k = Some q" for k q
  proof -
    have tt': "table_inv (node_kv ?h) (\<lambda>_. True) n t" using inv' by (simp add: int_inv_def store_inv_def)
    have "node_map ?w2 k = Some q \<longleftrightarrow> q \<in> items t \<and> node_kv ?h q = Some (Hash_int k, k)"
      using int_keys.store_view_Some [OF tt', of Hash_int k q] by (simp add: node_map_def)
    also have "\<dots> \<longleftrightarrow> q \<in> items t \<and> ?kv q = Some (Hash_int k, k)" using items [of q] by (auto simp: node_kv_def)
    also have "\<dots> \<longleftrightarrow> store_view ?kv Hash_int t k = Some q"
      using int_keys.store_view_Some [OF tt, of Hash_int k q] by simp
    finally show ?thesis using view by simp
  qed
  have "mID nd' \<noteq> mID nd" if "heap w q = Some nd'" "q \<noteq> p" for q nd'
  proof
    assume "mID nd' = mID nd"
    moreover have "node_map w (mID nd') = Some q" "node_map w (mID nd) = Some p" using ok that(1) p by (simp_all add: lib_ok_def)
    ultimately show False using that(2) by simp
  qed
  then have "\<forall>q nd'. ?h q = Some nd' \<longrightarrow> node_map ?w2 (mID nd') = Some q"
    using map ok by (auto simp: lib_ok_def)
  then have "lib_ok n ?w2" using inv' ok by (simp add: lib_ok_def)
  moreover have "World_RemoveNode p w = Some (True, ?w1)" using t(1) by (simp add: World_RemoveNode_def)
  moreover have "World_Free p ?w1 = Some ?w2" using p by (simp add: World_Free_def)
  ultimately show ?thesis by blast
qed

definition dead_heap :: "ptr \<Rightarrow> Node \<Rightarrow> World \<Rightarrow> ptr \<Rightarrow> Node option" where
  "dead_heap p nd w = (\<lambda>x. if x = p then None
     else map_option (unlink_node (mParent nd) p (mPrev nd) (mNext nd) x) (heap w x))"

lemma Node_Dtor_ok:
  assumes ok: "world_ok n w" and p: "heap w p = Some nd"
    and nb: "\<And>q. mParent nd = Some q \<or> mIsGroup nd \<and> (mHead nd = Some q \<or> mTail nd = Some q) \<Longrightarrow> heap w q \<noteq> None"
    and sib: "\<And>q. mPrev nd = Some q \<or> mNext nd = Some q \<Longrightarrow> q \<noteq> p \<and> heap w q \<noteq> None"
  shows "\<exists>w'. Node_Dtor p w = Some w' \<and> world_ok n w' \<and> heap w' = dead_heap p nd w"
proof -
  obtain q where q: "Node_StateMsg p kNode_End w = Some (w\<lparr>mNodeEnds := q\<rparr>)" "world_ok n (w\<lparr>mNodeEnds := q\<rparr>)"
    using Node_StateMsg_ok [OF ok p, of kNode_End] nb sib by blast
  let ?w1 = "w\<lparr>mNodeEnds := q\<rparr>" and ?f = "unlink_node (mParent nd) p (mPrev nd) (mNext nd)"
  let ?w2 = "map_heap ?f ?w1"
  have r: "Node_Remove p ?w1 = Some ?w2" using Node_Remove_heap [of ?w1 p nd] p nb sib by simp
  have "lib_ok n ?w1" using q(2) by (simp add: world_ok_def)
  then have l2: "lib_ok n ?w2" using lib_ok_map_heap(1) [of n ?w1 ?f] by simp
  have p2: "heap ?w2 p = Some (?f p nd)" using p by simp
  obtain w3 w4 t where w: "World_RemoveNode p ?w2 = Some (True, w3)" "World_Free p w3 = Some w4" "lib_ok n w4"
    "w4 = ?w2\<lparr>heap := (heap ?w2)(p := None), mNodeLib := t\<rparr>" using lib_ok_remove [OF l2 p2] by blast
  have D: "Node_Dtor p w = Some w4" using q(1) r w(1,2) by (simp add: Node_Dtor_def)
  have H: "heap w4 = dead_heap p nd w" using w(4) by (simp add: dead_heap_def fun_eq_iff)
  have "\<exists>d. mDef m = Def d \<and> defs w4 d \<noteq> None" if m: "heap w4 x = Some m" "\<not> mIsGroup m" for x m
  proof -
    obtain m0 where m0: "heap w x = Some m0" "m = ?f x m0" using m(1) unfolding H by (auto simp: dead_heap_def split: if_splits)
    then have "mDef m = mDef m0" "mIsGroup m = mIsGroup m0" by (simp_all add: unlink_node_def)
    moreover have "defs w4 = defs w" using w(4) by (simp add: map_heap_def)
    ultimately show ?thesis using ok m0(1) m(2) by (auto simp: world_ok_def)
  qed
  moreover have "mRealTime w4" "nofree_ok 1024 (mNodeEnds w4)" "nofree_ok 512 (mDeleteGraphDefs w4)"
    using w(4) q(2) by (simp_all add: map_heap_def world_ok_def)
  ultimately have "world_ok n w4" using w(3) by (simp add: world_ok_def)
  then show ?thesis using D H by blast
qed

lemma release_def_ok:
  assumes ok: "world_ok n w" and d: "defs w d \<noteq> None"
  shows "\<exists>w'. release_def d w = Some w' \<and> world_ok n w' \<and> heap w' = heap w"
proof -
  obtain g where g: "defs w d = Some g" using d by blast
  let ?w = "w\<lparr>defs := (defs w)(d \<mapsto> g\<lparr>dRefCount := dRefCount g - 1\<rparr>)\<rparr>"
  have lib: "lib_ok n ?w" using lib_ok_same_ids(1) [of n w ?w] ok by (simp add: world_ok_def)
  have w1: "world_ok n ?w"
    unfolding world_ok_def
  proof (intro conjI allI impI)
    fix p nd assume "heap ?w p = Some nd" "\<not> mIsGroup nd"
    then obtain d' where "mDef nd = Def d'" "defs w d' \<noteq> None" using world_ok_def_of [OF ok, of p nd] by auto
    then show "\<exists>d'. mDef nd = Def d' \<and> defs ?w d' \<noteq> None" by (intro exI [of _ d']) simp
  qed (use lib ok in \<open>simp_all add: world_ok_def\<close>)
  show ?thesis
  proof (cases "dRefCount g - 1 \<le> 0")
    case True
    obtain b q where q: "MsgFifoNoFree_Write 512 d (mDeleteGraphDefs w) = Some (b, q)" "nofree_ok 512 q"
      using nofree_write [of 512 "mDeleteGraphDefs w" d] ok by (auto simp: world_ok_def)
    have "world_ok n (?w\<lparr>mNodeEnds := mNodeEnds ?w, mDeleteGraphDefs := q\<rparr>)"
      using world_ok_msgs [OF w1, of "mNodeEnds ?w" q] q w1 by (simp add: world_ok_def)
    then show ?thesis using True g q ok by (simp add: release_def_def GraphDef_DeleteMsg_def Let_def world_ok_def)
  next
    case False
    then show ?thesis using g w1 by (simp add: release_def_def Let_def)
  qed
qed

lemma Graph_Dtor_ok:
  assumes ok: "world_ok n w" and p: "heap w p = Some nd" and g: "\<not> mIsGroup nd"
    and nb: "\<And>q. mParent nd = Some q \<Longrightarrow> heap w q \<noteq> None"
    and sib: "\<And>q. mPrev nd = Some q \<or> mNext nd = Some q \<Longrightarrow> q \<noteq> p \<and> heap w q \<noteq> None"
  shows "\<exists>w'. Graph_Dtor p w = Some w' \<and> world_ok n w' \<and> heap w' = dead_heap p nd w"
proof -
  obtain d where d: "mDef nd = Def d" "defs w d \<noteq> None" using world_ok_def_of [OF ok p g] by blast
  have "w = w\<lparr>unit_log := unit_log w\<rparr>" by simp
  then obtain l where l: "call_dtors p nd w = w\<lparr>unit_log := l\<rparr>" unfolding call_dtors_def by metis
  let ?w = "w\<lparr>unit_log := l, mNumUnits := mNumUnits w - of_nat (gNumUnits nd), mNumGraphs := mNumGraphs w - 1\<rparr>"
  have "lib_ok n ?w" using lib_ok_same_ids(1) [of n w ?w] ok by (simp add: world_ok_def)
  then have "world_ok n ?w" using ok by (simp add: world_ok_def)
  then obtain w2 where w2: "release_def d ?w = Some w2" "world_ok n w2" "heap w2 = heap w"
    using release_def_ok [of n ?w d] d by auto
  have "\<exists>w'. Node_Dtor p w2 = Some w' \<and> world_ok n w' \<and> heap w' = dead_heap p nd w2"
    by (rule Node_Dtor_ok [OF w2(2)]) (use p g nb sib w2(3) in auto)
  moreover have "Graph_Dtor p w = Node_Dtor p w2" using p d l w2(1) by (simp add: Graph_Dtor_def deref_def Let_def)
  moreover have "dead_heap p nd w2 = dead_heap p nd w" unfolding dead_heap_def w2(3) ..
  ultimately show ?thesis by simp
qed


section \<open>Subtrees\<close>

datatype ntree = NT (nroot: ptr) (nkids: "ntree list")

primrec nodes :: "ntree \<Rightarrow> ptr list" where
  "nodes (NT p ts) = p # concat (List.map nodes ts)"

fun spans :: "(ptr \<Rightarrow> ptr list) \<Rightarrow> ntree \<Rightarrow> bool" where
  "spans K (NT p ts) \<longleftrightarrow> K p = List.map nroot ts \<and> (\<forall>t \<in> set ts. spans K t)"

text \<open>\<open>subtree K t\<close>: the tree \<open>t\<close> lists what is below its root.\<close>

definition subtree :: "(ptr \<Rightarrow> ptr list) \<Rightarrow> ntree \<Rightarrow> bool" where
  "subtree K t \<longleftrightarrow> spans K t \<and> distinct (nodes t)"

text \<open>What deletion needs to know of the heap below a node.\<close>

fun sub_ok :: "(ptr \<Rightarrow> Node option) \<Rightarrow> ntree \<Rightarrow> bool"
  and chain_ok :: "(ptr \<Rightarrow> Node option) \<Rightarrow> ntree list \<Rightarrow> bool" where
  "sub_ok h (NT p ts) \<longleftrightarrow> (\<exists>nd. h p = Some nd \<and> mID nd \<noteq> 0
     \<and> (if mIsGroup nd then mHead nd = first_of (List.map nroot ts) else ts = [])) \<and> chain_ok h ts"
| "chain_ok h [] \<longleftrightarrow> True"
| "chain_ok h (t # ts) \<longleftrightarrow> (\<exists>nd. h (nroot t) = Some nd \<and> mNext nd = first_of (List.map nroot ts))
     \<and> sub_ok h t \<and> chain_ok h ts"

lemma nroot_in_nodes [simp]: "nroot t \<in> set (nodes t)"
  by (cases t) simp

lemma sub_ok_cong:
  "sub_ok h t \<Longrightarrow> (\<forall>x \<in> set (nodes t). h' x = h x) \<Longrightarrow> sub_ok h' t"
  "chain_ok h ts \<Longrightarrow> (\<forall>x \<in> set (concat (List.map nodes ts)). h' x = h x) \<Longrightarrow> chain_ok h' ts"
proof (induction h t and h ts rule: sub_ok_chain_ok.induct)
  case (3 h t ts)
  then have "h' (nroot t) = h (nroot t)" by simp
  then show ?case using 3 by simp
qed auto

lemma sub_ok_root:
  "sub_ok h (NT p ts) \<Longrightarrow> distinct (nodes (NT p ts)) \<Longrightarrow> h p = Some nd \<Longrightarrow> mID nd' = mID nd \<Longrightarrow> mIsGroup nd' = mIsGroup nd
     \<Longrightarrow> mHead nd' = mHead nd \<Longrightarrow> sub_ok (h(p \<mapsto> nd')) (NT p ts)"
  using sub_ok_cong(2) [of h ts "h(p \<mapsto> nd')"] by auto

lemma kids_mNext:
  assumes rep: "tree_ok h K" and K: "K g = as @ p # bs"
  shows "\<exists>nd. h p = Some nd \<and> mParent nd = Some g \<and> mNext nd = first_of bs \<and> mPrev nd = last_of as"
proof -
  have d: "distinct (as @ p # bs)" using tree_ok_D(4) [OF rep, of g] K by simp
  obtain nd where nd: "h p = Some nd" "mParent nd = Some g" using tree_ok_D(5) [OF rep, of p g] K by auto
  then show ?thesis using tree_ok_D(1) [OF rep nd(1)] K next_of_insert [OF d, of p] prev_of_insert [OF d, of p]
    by (simp add: links_ok_def)
qed

definition positive_ids :: "(ptr \<Rightarrow> Node option) \<Rightarrow> ntree \<Rightarrow> bool" where
  "positive_ids h t \<longleftrightarrow> (\<forall>x \<in> set (nodes t). \<exists>nd. h x = Some nd \<and> mID nd \<noteq> 0)"

lemma chain_from_tree:
  assumes rep: "tree_ok h K" and sub: "\<And>t. t \<in> set ts \<Longrightarrow> sub_ok h t"
  shows "K g = as @ List.map nroot ts \<Longrightarrow> chain_ok h ts"
  using sub
proof (induction ts arbitrary: as)
  case (Cons t ts)
  have "K g = (as @ [nroot t]) @ List.map nroot ts" using Cons.prems by simp
  then have "chain_ok h ts" using Cons.IH [of "as @ [nroot t]"] Cons.prems(2) by simp
  then show ?case using kids_mNext [OF rep, of g as "nroot t"] Cons.prems by auto
qed simp

lemma sub_ok_from_tree:
  assumes rep: "tree_ok h K"
  shows "spans K t \<Longrightarrow> positive_ids h t \<Longrightarrow> sub_ok h t"
proof (induction t)
  case (NT p ts)
  obtain nd where nd: "h p = Some nd" "mID nd \<noteq> 0" using NT.prems(2) by (auto simp: positive_ids_def)
  have K: "K p = List.map nroot ts" using NT.prems(1) by simp
  have "sub_ok h t" if "t \<in> set ts" for t
    using NT.IH [OF that] NT.prems that by (auto simp: positive_ids_def)
  then have "chain_ok h ts" using chain_from_tree [OF rep _, of ts p "[]"] K by simp
  then show ?case using nd K tree_ok_D(2) [OF rep nd(1)] by (cases "mIsGroup nd") (simp_all add: kids_ok_def)
qed

primrec fuel_of :: "ntree \<Rightarrow> nat" where
  "fuel_of (NT p ts) = 4 + sum_list (List.map fuel_of ts)"

lemma fuel_of_nodes: "fuel_of t = 4 * length (nodes t)"
proof (induction t)
  case (NT p ts)
  then have "sum_list (List.map fuel_of ts) = 4 * sum_list (List.map (length \<circ> nodes) ts)"
    by (induction ts) auto
  then show ?case by (simp add: length_concat comp_def)
qed


text \<open>Deleting a node that is already cut off takes exactly its subtree out of the heap.\<close>

definition detached :: "(ptr \<Rightarrow> Node option) \<Rightarrow> ptr \<Rightarrow> bool" where
  "detached h p \<longleftrightarrow> (\<exists>nd. h p = Some nd \<and> mParent nd = None \<and> mPrev nd = None \<and> mNext nd = None)"

lemma dead_heap_detached:
  "heap w p = Some nd \<Longrightarrow> mParent nd = None \<Longrightarrow> mPrev nd = None \<Longrightarrow> mNext nd = None \<Longrightarrow> dead_heap p nd w = (heap w)(p := None)"
  by (auto simp: dead_heap_def fun_eq_iff unlink_node_other)

lemma world_ok_heap:
  assumes ok: "world_ok n w" and h: "\<And>p. node_kv h p = node_kv (heap w) p"
    and d: "\<And>p nd nd'. heap w p = Some nd \<Longrightarrow> h p = Some nd' \<Longrightarrow> mDef nd' = mDef nd \<and> mIsGroup nd' = mIsGroup nd"
  shows "world_ok n (w\<lparr>heap := h\<rparr>)"
proof -
  have "lib_ok n (w\<lparr>heap := h\<rparr>)" using lib_ok_same_ids(1) [of n w "w\<lparr>heap := h\<rparr>"] ok h by (simp add: world_ok_def)
  moreover have "\<exists>d'. mDef nd' = Def d' \<and> defs w d' \<noteq> None" if p: "h p = Some nd'" "\<not> mIsGroup nd'" for p nd'
  proof -
    obtain nd where nd: "heap w p = Some nd" using h [of p] p(1) by (auto simp: node_kv_def split: option.splits)
    then show ?thesis using d [OF nd p(1)] world_ok_def_of [OF ok nd] p(2) by simp
  qed
  ultimately show ?thesis using ok by (simp add: world_ok_def)
qed

lemma world_ok_groups [simp]: "world_ok n (w\<lparr>mNumGroups := g\<rparr>) = world_ok n w"
proof -
  have "lib_ok n (w\<lparr>mNumGroups := g\<rparr>) = lib_ok n w" by (simp add: lib_ok_def node_map_def)
  then show ?thesis by (simp add: world_ok_def)
qed

lemma upd_world_ok:
  assumes "world_ok n w" and "heap w p = Some nd" and "mID (f nd) = mID nd" "mHash (f nd) = mHash nd"
    "mDef (f nd) = mDef nd" "mIsGroup (f nd) = mIsGroup nd"
  shows "upd p f w = Some (w\<lparr>heap := (heap w)(p \<mapsto> f nd)\<rparr>)" and "world_ok n (w\<lparr>heap := (heap w)(p \<mapsto> f nd)\<rparr>)"
  using assms by (auto simp: upd_def node_kv_def split: if_splits intro!: world_ok_heap)

lemma unlink_ok:
  assumes ok: "world_ok n w" and p: "heap w p = Some nd"
  shows "\<exists>w'. unlink p w = Some w' \<and> world_ok n w' \<and>
    heap w' = (heap w)(p \<mapsto> nd\<lparr>mPrev := None, mNext := None, mParent := None\<rparr>)"
proof -
  let ?h = "(heap w)(p \<mapsto> nd\<lparr>mPrev := None, mNext := None, mParent := None\<rparr>)"
  have "unlink p w = Some (w\<lparr>heap := ?h\<rparr>)" using p by (simp add: unlink_def set_defs upd_def)
  moreover have "world_ok n (w\<lparr>heap := ?h\<rparr>)"
    by (rule world_ok_heap [OF ok]) (use p in \<open>auto simp: node_kv_def split: if_splits\<close>)
  ultimately show ?thesis by simp
qed

lemma group_ends_ok:
  assumes ok: "world_ok n w" and p: "heap w p = Some nd"
  shows "\<exists>w'. (set_tail p None w \<bind> set_head p None) = Some w' \<and> world_ok n w' \<and>
    heap w' = (heap w)(p \<mapsto> nd\<lparr>mTail := None, mHead := None\<rparr>)"
proof -
  let ?h = "(heap w)(p \<mapsto> nd\<lparr>mTail := None, mHead := None\<rparr>)"
  have "(set_tail p None w \<bind> set_head p None) = Some (w\<lparr>heap := ?h\<rparr>)" using p by (simp add: set_defs upd_def)
  moreover have "world_ok n (w\<lparr>heap := ?h\<rparr>)"
    by (rule world_ok_heap [OF ok]) (use p in \<open>auto simp: node_kv_def split: if_splits\<close>)
  ultimately show ?thesis by simp
qed

abbreviation forest_nodes :: "ntree list \<Rightarrow> ptr list" where
  "forest_nodes ts \<equiv> concat (List.map nodes ts)"

definition deletes :: "nat \<Rightarrow> (World \<Rightarrow> World option) \<Rightarrow> ptr list \<Rightarrow> World \<Rightarrow> bool" where
  "deletes n f ps w \<longleftrightarrow> (\<exists>w'. f w = Some w' \<and> world_ok n w' \<and> heap w' = (heap w) |` (- set ps))"

text \<open>The loop over the children, given that each subtree is deleted.\<close>

lemma delete_children_ok:
  assumes each: "\<And>t w k. t \<in> set ts \<Longrightarrow> world_ok n w \<Longrightarrow> sub_ok (heap w) t \<Longrightarrow> distinct (nodes t) \<Longrightarrow> detached (heap w) (nroot t)
      \<Longrightarrow> fuel_of t \<le> k \<Longrightarrow> deletes n (Node_Delete k (nroot t)) (nodes t) w"
  shows "world_ok n w \<Longrightarrow> chain_ok (heap w) ts \<Longrightarrow> distinct (forest_nodes ts) \<Longrightarrow> 1 + sum_list (List.map fuel_of ts) \<le> k
     \<Longrightarrow> deletes n (delete_children k (first_of (List.map nroot ts))) (forest_nodes ts) w"
  using each
proof (induction ts arbitrary: w k)
  case Nil
  then obtain k' where "k = Suc k'" by (cases k) auto
  then show ?case using Nil by (simp add: deletes_def restrict_map_def fun_eq_iff)
next
  case (Cons t ts)
  obtain k' where k: "k = Suc k'" using Cons.prems(4) by (cases k) auto
  obtain p ss where t: "t = NT p ss" by (cases t)
  obtain nd where nd: "heap w p = Some nd" "mNext nd = first_of (List.map nroot ts)"
    and sub: "sub_ok (heap w) t" and chain: "chain_ok (heap w) ts" using Cons.prems(2) t by auto
  have dist: "distinct (nodes t)" "distinct (forest_nodes ts)" "set (nodes t) \<inter> set (forest_nodes ts) = {}"
    using Cons.prems(3) by simp_all
  let ?nd = "nd\<lparr>mPrev := None, mNext := None, mParent := None\<rparr>"
  obtain w1 where w1: "unlink p w = Some w1" "world_ok n w1" "heap w1 = (heap w)(p \<mapsto> ?nd)"
    using unlink_ok [OF Cons.prems(1) nd(1)] by blast
  have "sub_ok (heap w1) t" using sub_ok_root [of "heap w" p ss nd ?nd] sub dist(1) nd(1) t w1(3) by simp
  moreover have "detached (heap w1) (nroot t)" using w1(3) t by (simp add: detached_def)
  moreover have ft: "fuel_of t \<le> k'" "1 + sum_list (List.map fuel_of ts) \<le> k'"
    using Cons.prems(4) k t by simp_all
  ultimately obtain w2 where w2: "Node_Delete k' p w1 = Some w2" "world_ok n w2" "heap w2 = (heap w1) |` (- set (nodes t))"
    using Cons.prems(5) [of t w1 k'] w1(2) dist(1) t by (auto simp: deletes_def)
  have p: "p \<in> set (nodes t)" using t by simp
  then have h2: "heap w2 = (heap w) |` (- set (nodes t))" using w2(3) w1(3) by (auto simp: restrict_map_def fun_eq_iff)
  have "x \<notin> set (nodes t)" if "x \<in> set (forest_nodes ts)" for x using that dist(3) by blast
  then have "chain_ok (heap w2) ts" using sub_ok_cong(2) [OF chain, of "heap w2"] h2 by (simp add: restrict_map_def)
  then have "deletes n (delete_children k' (first_of (List.map nroot ts))) (forest_nodes ts) w2"
    using Cons.IH [OF w2(2) _ dist(2) ft(2)] Cons.prems(5) by simp
  then obtain w3 where w3: "delete_children k' (first_of (List.map nroot ts)) w2 = Some w3" "world_ok n w3"
    "heap w3 = (heap w2) |` (- set (forest_nodes ts))" by (auto simp: deletes_def)
  have "heap w3 = (heap w) |` (- set (forest_nodes (t # ts)))"
    using w3(3) h2 by (auto simp: restrict_map_def fun_eq_iff)
  moreover have "delete_children k (first_of (List.map nroot (t # ts))) w = Some w3"
    using k t nd w1(1) w2(1) w3(1) by (simp add: deref_def)
  ultimately show ?case using w3(2) by (simp add: deletes_def)
qed

lemma Group_DeleteAll_ok:
  assumes each: "\<And>t w k. t \<in> set ts \<Longrightarrow> world_ok n w \<Longrightarrow> sub_ok (heap w) t \<Longrightarrow> distinct (nodes t) \<Longrightarrow> detached (heap w) (nroot t)
      \<Longrightarrow> fuel_of t \<le> k \<Longrightarrow> deletes n (Node_Delete k (nroot t)) (nodes t) w"
    and ok: "world_ok n w" and p: "heap w p = Some nd" "mHead nd = first_of (List.map nroot ts)"
    and c: "chain_ok (heap w) ts" and d: "distinct (p # forest_nodes ts)" and k: "2 + sum_list (List.map fuel_of ts) \<le> k"
  shows "\<exists>w'. Group_DeleteAll k p w = Some w' \<and> world_ok n w' \<and>
    heap w' = ((heap w) |` (- set (forest_nodes ts)))(p \<mapsto> nd\<lparr>mTail := None, mHead := None\<rparr>)"
proof -
  obtain k' where k': "k = Suc k'" using k by (cases k) auto
  obtain w1 where w1: "delete_children k' (mHead nd) w = Some w1" "world_ok n w1" "heap w1 = (heap w) |` (- set (forest_nodes ts))"
    using delete_children_ok [OF each ok c, of k'] d k k' p(2) by (auto simp: deletes_def)
  have "heap w1 p = Some nd" using w1(3) p(1) d by (simp add: restrict_map_def)
  then obtain w2 where w2: "(set_tail p None w1 \<bind> set_head p None) = Some w2" "world_ok n w2"
    "heap w2 = (heap w1)(p \<mapsto> nd\<lparr>mTail := None, mHead := None\<rparr>)" using group_ends_ok [OF w1(2)] by blast
  then show ?thesis using k' p(1) w1 w2 by (simp add: deref_def)
qed

lemma detached_delete:
  "world_ok n w \<Longrightarrow> sub_ok (heap w) t \<Longrightarrow> distinct (nodes t) \<Longrightarrow> detached (heap w) (nroot t) \<Longrightarrow> fuel_of t \<le> k
     \<Longrightarrow> deletes n (Node_Delete k (nroot t)) (nodes t) w"
proof (induction t arbitrary: w k)
  case (NT p ts)
  obtain k' where k: "k = Suc (Suc k')" using NT.prems(5) by (cases k rule: nat.exhaust; cases "k - 1") auto
  obtain nd where nd: "heap w p = Some nd" "mID nd \<noteq> 0" "if mIsGroup nd then mHead nd = first_of (List.map nroot ts) else ts = []"
    and c: "chain_ok (heap w) ts" and det: "mParent nd = None" "mPrev nd = None" "mNext nd = None"
    using NT.prems(2,4) by (auto simp: detached_def)
  show ?case
  proof (cases "mIsGroup nd")
    case False
    then obtain w' where "Graph_Dtor p w = Some w'" "world_ok n w'" "heap w' = (heap w)(p := None)"
      using Graph_Dtor_ok [OF NT.prems(1) nd(1) False] det dead_heap_detached [OF nd(1) det] by auto
    moreover have "(heap w)(p := None) = (heap w) |` (- set (nodes (NT p ts)))"
      using False nd(3) by (auto simp: restrict_map_def fun_eq_iff)
    ultimately show ?thesis using False nd k by (simp add: deletes_def deref_def)
  next
    case True
    have f: "2 + sum_list (List.map fuel_of ts) \<le> k'" using NT.prems(5) k by simp
    have d: "distinct (p # forest_nodes ts)" using NT.prems(3) by simp
    have h: "mHead nd = first_of (List.map nroot ts)" using True nd(3) by simp
    let ?nd = "nd\<lparr>mTail := None, mHead := None\<rparr>"
    obtain w1 where w1: "Group_DeleteAll k' p w = Some w1" "world_ok n w1"
      "heap w1 = ((heap w) |` (- set (forest_nodes ts)))(p \<mapsto> ?nd)"
      using Group_DeleteAll_ok [OF NT.IH NT.prems(1) nd(1) h c d f] by blast
    let ?w = "w1\<lparr>mNumGroups := mNumGroups w1 - 1\<rparr>"
    have "\<exists>w'. Node_Dtor p ?w = Some w' \<and> world_ok n w' \<and> heap w' = dead_heap p ?nd ?w"
      by (rule Node_Dtor_ok) (use w1(2,3) det in auto)
    moreover have "dead_heap p ?nd ?w = (heap ?w)(p := None)"
      by (rule dead_heap_detached) (use w1(3) det in auto)
    moreover have "(heap ?w)(p := None) = (heap w) |` (- set (nodes (NT p ts)))"
      using w1(3) by (auto simp: restrict_map_def fun_eq_iff)
    ultimately show ?thesis using True nd k w1(1) by (auto simp: deletes_def deref_def)
  qed
qed


section \<open>Deleting a linked subtree\<close>

lemma roots_in_forest: "c \<in> nroot ` set ts \<Longrightarrow> c \<in> set (forest_nodes ts)"
  by (auto intro: nroot_in_nodes)

lemma spans_closed: "spans K t \<Longrightarrow> x \<in> set (nodes t) \<Longrightarrow> c \<in> set (K x) \<Longrightarrow> c \<in> set (nodes t)"
proof (induction t)
  case (NT p ts)
  show ?case
  proof (cases "x = p")
    case True
    then have "c \<in> nroot ` set ts" using NT.prems by simp
    then show ?thesis using roots_in_forest by simp
  next
    case False
    then obtain t where t: "t \<in> set ts" "x \<in> set (nodes t)" using NT.prems(2) by auto
    then have "c \<in> set (nodes t)" using NT.IH [OF t(1)] NT.prems by auto
    then show ?thesis using t(1) by auto
  qed
qed

lemma spans_child_not_root:
  "spans K t \<Longrightarrow> distinct (nodes t) \<Longrightarrow> x \<in> set (nodes t) \<Longrightarrow> c \<in> set (K x) \<Longrightarrow> c \<noteq> nroot t"
proof (cases t)
  case (NT p ts)
  assume a: "spans K t" "distinct (nodes t)" "x \<in> set (nodes t)" "c \<in> set (K x)"
  have "c \<in> set (forest_nodes ts)"
  proof (cases "x = p")
    case True
    then have "c \<in> nroot ` set ts" using a NT by simp
    then show ?thesis by (rule roots_in_forest)
  next
    case False
    then obtain t' where t: "t' \<in> set ts" "x \<in> set (nodes t')" using a(3) NT by auto
    then have "c \<in> set (nodes t')" using spans_closed [of K t'] a NT by simp
    then show ?thesis using t(1) by auto
  qed
  then show ?thesis using a(2) NT by auto
qed

lemma spans_parent: "spans K t \<Longrightarrow> q \<in> set (nodes t) \<Longrightarrow> q \<noteq> nroot t \<Longrightarrow> \<exists>x \<in> set (nodes t). q \<in> set (K x)"
proof (induction t)
  case (NT p ts)
  then obtain t where t: "t \<in> set ts" "q \<in> set (nodes t)" by auto
  show ?case
  proof (cases "q = nroot t")
    case True
    then have "q \<in> set (K p)" using NT.prems(1) t(1) by simp
    then show ?thesis by auto
  next
    case False
    then have "\<exists>x \<in> set (nodes t). q \<in> set (K x)" using NT.IH [OF t(1)] NT.prems(1) t by simp
    then show ?thesis using t(1) by auto
  qed
qed

lemma tree_ok_prune:
  assumes ok: "tree_ok h K" and down: "\<And>x c. x \<in> S \<Longrightarrow> c \<in> set (K x) \<Longrightarrow> c \<in> S"
    and up: "\<And>x m g. x \<in> S \<Longrightarrow> h x = Some m \<Longrightarrow> mParent m = Some g \<Longrightarrow> g \<in> S"
  shows "tree_ok (\<lambda>x. if x \<in> S then None else h x) (\<lambda>x. if x \<in> S then [] else K x)"
proof -
  let ?K = "\<lambda>x. if x \<in> S then [] else K x"
  have "links_ok ?K p m" if m: "h p = Some m" "p \<notin> S" for p m
  proof (rule links_ok_same [OF tree_ok_D(1) [OF ok m(1)]])
    fix g assume g: "mParent m = Some g"
    then have "p \<in> set (K g)" using tree_ok_D(1) [OF ok m(1)] by (simp add: links_ok_def)
    then show "?K g = K g" using down m(2) by auto
  qed simp_all
  moreover have "kids_ok ?K p m" if m: "h p = Some m" "p \<notin> S" for p m
    using tree_ok_D(2) [OF ok m(1)] m(2) by (simp add: kids_ok_def)
  moreover have "\<exists>m. h c = Some m \<and> c \<notin> S \<and> mParent m = Some g" if c: "c \<in> set (?K g)" for g c
  proof -
    have c': "c \<in> set (K g)" "g \<notin> S" using c by (auto split: if_splits)
    then obtain m where "h c = Some m" "mParent m = Some g" using tree_ok_D(5) [OF ok] by blast
    then show ?thesis using up c'(2) by blast
  qed
  moreover have "distinct (?K g)" for g using tree_ok_D(4) [OF ok, of g] by simp
  moreover have "?K p = []" if "p \<notin> S \<longrightarrow> h p = None" for p using tree_ok_D(3) [OF ok, of p] that by auto
  ultimately show ?thesis unfolding tree_ok_def by (smt (verit) option.distinct(1))
qed

lemma linked_delete:
  assumes ok: "world_ok n w" and tree: "tree_ok (heap w) K" and t: "subtree K t" "positive_ids (heap w) t"
    and K: "K g = as @ nroot t # bs" and k: "4 * length (nodes t) \<le> k"
  shows "\<exists>w'. Node_Delete k (nroot t) w = Some w' \<and> world_ok n w'
    \<and> heap w' = (\<lambda>x. if x \<in> set (nodes t) then None
         else map_option (unlink_node (Some g) (nroot t) (last_of as) (first_of bs) x) (heap w x))"
proof -
  obtain p ts where T: "t = NT p ts" by (cases t)
  then have np: "nroot t = p" by simp
  have span: "spans K t" and dist: "distinct (nodes t)" using t(1) by (simp_all add: subtree_def)
  have sub: "sub_ok (heap w) t" by (rule sub_ok_from_tree [OF tree span t(2)])
  obtain nd where nd: "heap w p = Some nd" "mParent nd = Some g" "mNext nd = first_of bs" "mPrev nd = last_of as"
    using kids_mNext [OF tree K] T by auto
  have nd': "mID nd \<noteq> 0" "if mIsGroup nd then mHead nd = first_of (List.map nroot ts) else ts = []" "chain_ok (heap w) ts"
    using sub nd(1) T by auto
  have dK: "distinct (as @ p # bs)" using tree_ok_D(4) [OF tree, of g] K T by simp
  have gS: "g \<notin> set (nodes t)" using spans_child_not_root [OF span dist, of g "nroot t"] K by auto
  have below: "x \<in> set (nodes t) \<Longrightarrow> c \<in> set (K x) \<Longrightarrow> c \<in> set (nodes t)" for x c by (rule spans_closed [OF span])
  have nb: "heap w q \<noteq> None \<and> q \<noteq> p \<and> q \<notin> set (nodes t)" if q: "mPrev nd = Some q \<or> mNext nd = Some q" for q
  proof -
    have qK: "q \<in> set (as @ bs)" using q nd(3,4) last_of_in [of as q] first_of_in [of bs q] by auto
    then have "q \<in> set (K g)" "q \<noteq> p" using K T dK by auto
    moreover have "q \<notin> set (nodes t)"
    proof
      assume "q \<in> set (nodes t)"
      moreover have "q \<noteq> nroot t" using \<open>q \<noteq> p\<close> T by simp
      ultimately obtain x where "x \<in> set (nodes t)" "q \<in> set (K x)" using spans_parent [OF span] by blast
      then have "x = g" using tree_ok_D(5) [OF tree, of q x] tree_ok_D(5) [OF tree, of q g] \<open>q \<in> set (K g)\<close> by auto
      then show False using gS \<open>x \<in> set (nodes t)\<close> by simp
    qed
    ultimately show ?thesis using tree_ok_D(5) [OF tree, of q g] by auto
  qed
  have gw: "heap w g \<noteq> None" using tree_ok_D(3) [OF tree, of g] K by auto
  obtain k' where k': "k = Suc (Suc k')" using k T by (cases k rule: nat.exhaust; cases "k - 1") auto
  show ?thesis
  proof (cases "mIsGroup nd")
    case False
    then have "\<exists>w'. Graph_Dtor p w = Some w' \<and> world_ok n w' \<and> heap w' = dead_heap p nd w"
      using gw nd(2) nb by (intro Graph_Dtor_ok [OF ok nd(1)]) auto
    moreover have "dead_heap p nd w = (\<lambda>x. if x \<in> set (nodes t) then None
         else map_option (unlink_node (Some g) p (last_of as) (first_of bs) x) (heap w x))"
      unfolding dead_heap_def nd(2-4) using False nd'(2) T by simp
    ultimately show ?thesis using False nd(1) nd'(1) k' unfolding np by (simp add: deref_def)
  next
    case True
    have "fuel_of t = 4 + sum_list (List.map fuel_of ts)" "fuel_of t \<le> k" using T k fuel_of_nodes [of t] by simp_all
    then have f: "2 + sum_list (List.map fuel_of ts) \<le> k'" using k' by linarith
    have d: "distinct (p # forest_nodes ts)" using dist T by simp
    have h: "mHead nd = first_of (List.map nroot ts)" using True nd'(2) by simp
    let ?nd = "nd\<lparr>mTail := None, mHead := None\<rparr>"
    obtain w1 where w1: "Group_DeleteAll k' p w = Some w1" "world_ok n w1"
      "heap w1 = ((heap w) |` (- set (forest_nodes ts)))(p \<mapsto> ?nd)"
      using Group_DeleteAll_ok [OF detached_delete ok nd(1) h nd'(3) d f] by blast
    let ?w = "w1\<lparr>mNumGroups := mNumGroups w1 - 1\<rparr>"
    have rest: "heap ?w q = heap w q" if "q \<notin> set (nodes t)" for q using that w1(3) T by auto
    have "\<exists>w'. Node_Dtor p ?w = Some w' \<and> world_ok n w' \<and> heap w' = dead_heap p ?nd ?w"
    proof (rule Node_Dtor_ok)
      show "world_ok n ?w" "heap ?w p = Some ?nd" using w1(2,3) by simp_all
      show "heap ?w q \<noteq> None" if "mParent ?nd = Some q \<or> mIsGroup ?nd \<and> (mHead ?nd = Some q \<or> mTail ?nd = Some q)" for q
        using that nd(2) rest [OF gS] gw by simp
      show "q \<noteq> p \<and> heap ?w q \<noteq> None" if "mPrev ?nd = Some q \<or> mNext ?nd = Some q" for q
        using that nb [of q] rest [of q] by simp
    qed
    moreover have "dead_heap p ?nd ?w = (\<lambda>x. if x \<in> set (nodes t) then None
         else map_option (unlink_node (Some g) p (last_of as) (first_of bs) x) (heap w x))"
      using rest w1(3) T unfolding dead_heap_def by (auto simp: fun_eq_iff nd(2-4))
    ultimately show ?thesis using True nd(1) nd'(1) k' w1(1) unfolding np by (simp add: deref_def)
  qed
qed


text \<open>What deletion does to the tree and to the table of identifiers.\<close>

abbreviation pruned :: "ntree \<Rightarrow> (ptr \<Rightarrow> ptr list) \<Rightarrow> ptr \<Rightarrow> ptr list" where
  "pruned t K \<equiv> (\<lambda>x. if x \<in> set (nodes t) then [] else K x)"

abbreviation without :: "ntree \<Rightarrow> (i32 \<Rightarrow> ptr option) \<Rightarrow> i32 \<Rightarrow> ptr option" where
  "without t m \<equiv> (\<lambda>i. case m i of None \<Rightarrow> None | Some q \<Rightarrow> if q \<in> set (nodes t) then None else Some q)"

lemma node_map_without:
  assumes "lib_ok n w" and "lib_ok n w'"
    and same: "\<And>x nd. heap w' x = Some nd \<Longrightarrow> x \<notin> S \<and> (\<exists>nd0. heap w x = Some nd0 \<and> mID nd0 = mID nd)"
    and rest: "\<And>x. x \<notin> S \<Longrightarrow> heap w x \<noteq> None \<Longrightarrow> heap w' x \<noteq> None"
  shows "node_map w' i = (case node_map w i of None \<Rightarrow> None | Some q \<Rightarrow> if q \<in> S then None else Some q)"
proof (rule option_eq_by_Some)
  fix q
  have "node_map w' i = Some q \<longleftrightarrow> (\<exists>nd. heap w' q = Some nd \<and> mID nd = i)" by (rule node_map_Some [OF assms(2)])
  also have "\<dots> \<longleftrightarrow> q \<notin> S \<and> (\<exists>nd. heap w q = Some nd \<and> mID nd = i)"
  proof
    assume "q \<notin> S \<and> (\<exists>nd. heap w q = Some nd \<and> mID nd = i)"
    then obtain nd where nd: "q \<notin> S" "heap w q = Some nd" "mID nd = i" by blast
    then obtain nd' where "heap w' q = Some nd'" using rest [of q] by auto
    then show "\<exists>nd. heap w' q = Some nd \<and> mID nd = i" using same nd by force
  qed (use same in force)
  also have "\<dots> \<longleftrightarrow> q \<notin> S \<and> node_map w i = Some q" using node_map_Some [OF assms(1)] by blast
  finally show "node_map w' i = Some q \<longleftrightarrow>
      (case node_map w i of None \<Rightarrow> None | Some q \<Rightarrow> if q \<in> S then None else Some q) = Some q"
    by (auto split: option.splits)
qed

lemma subtree_up:
  assumes tree: "tree_ok h K" and t: "subtree K t" and x: "x \<in> set (nodes t)" "x \<noteq> nroot t"
    and m: "h x = Some m" "mParent m = Some g"
  shows "g \<in> set (nodes t)"
proof -
  obtain y where "y \<in> set (nodes t)" "x \<in> set (K y)" using spans_parent [of K t x] t x by (auto simp: subtree_def)
  then show ?thesis using tree_ok_D(5) [OF tree, of x y] m by auto
qed

text \<open>
  C15: deleting a linked node with enough fuel (four units for each node of its subtree) never
  follows a bad pointer; it frees exactly the nodes of its subtree and leaves every other one, the
  links represent the tree with the subtree taken out, every identifier of the subtree is gone from
  the table of nodes and all the others lead where they led, and the engine's invariant holds again.
\<close>

theorem node_delete_subtree:
  assumes ok: "world_ok n w" and tree: "tree_ok (heap w) K" and t: "subtree K t" "positive_ids (heap w) t"
    and K: "K g = as @ nroot t # bs" and k: "4 * length (nodes t) \<le> k"
  shows "\<exists>w'. Node_Delete k (nroot t) w = Some w' \<and> world_ok n w' \<and> tree_ok (heap w') (pruned t (K(g := as @ bs)))
    \<and> dom (heap w') = dom (heap w) - set (nodes t) \<and> node_map w' = without t (node_map w)"
proof -
  let ?f = "unlink_node (Some g) (nroot t) (last_of as) (first_of bs)" and ?K = "K(g := as @ bs)" and ?S = "set (nodes t)"
  obtain w' where w': "Node_Delete k (nroot t) w = Some w'" "world_ok n w'"
    "heap w' = (\<lambda>x. if x \<in> ?S then None else map_option (?f x) (heap w x))"
    using linked_delete [OF assms] by blast
  have span: "spans K t" and dist: "distinct (nodes t)" using t(1) by (simp_all add: subtree_def)
  have gS: "g \<notin> ?S" using spans_child_not_root [OF span dist, of g "nroot t"] K by auto
  obtain nd where nd: "heap w (nroot t) = Some nd" "mParent nd = Some g" using kids_mNext [OF tree K] by blast
  have tree1: "tree_ok (\<lambda>x. map_option (?f x) (heap w x)) ?K" by (rule tree_ok_unlink [OF tree nd K])
  have "tree_ok (heap w') (pruned t ?K)" unfolding w'(3)
  proof (rule tree_ok_prune [OF tree1])
    fix x c assume x: "x \<in> ?S" "c \<in> set (?K x)"
    then have "x \<noteq> g" using gS by auto
    then show "c \<in> ?S" using spans_closed [OF span x(1)] x(2) by simp
  next
    fix x m g' assume x: "x \<in> ?S" "map_option (?f x) (heap w x) = Some m" "mParent m = Some g'"
    then obtain m0 where m0: "heap w x = Some m0" "m = ?f x m0" by auto
    then have "x \<noteq> nroot t" using x(3) by (auto simp: unlink_node_def)
    then show "g' \<in> ?S" using subtree_up [OF tree t(1) x(1) _ m0(1)] x(3) m0(2) by simp
  qed
  moreover have "dom (heap w') = dom (heap w) - ?S" unfolding w'(3) by (auto split: if_splits)
  moreover have "node_map w' i = without t (node_map w) i" for i
  proof (rule node_map_without [of n])
    show "lib_ok n w" "lib_ok n w'" using ok w'(2) by (simp_all add: world_ok_def)
  qed (auto simp: w'(3) split: if_splits)
  ultimately show ?thesis using w'(1,2) by blast
qed


lemma nofree_new_ok: "k < 31 \<Longrightarrow> nofree_ok (2 ^ k) (MsgFifoNoFree_new (2 ^ k))"
  by (auto simp: nofree_ok_def size_ok_def ring_ok_def MsgFifoNoFree_new_def dist_def)

lemma small_world:
  "\<exists>w g c s gn. world_ok 3 w \<and> tree_ok (heap w) ((\<lambda>_. [])(g := [c])) \<and> unlinked w s \<and> heap w g = Some gn \<and> mIsGroup gn
    \<and> s \<noteq> g \<and> c \<noteq> g \<and> subtree ((\<lambda>_. [])(g := [c])) (NT c []) \<and> positive_ids (heap w) (NT c [])
    \<and> subtree ((\<lambda>_. [])(g := [c])) (NT g [NT c []]) \<and> positive_ids (heap w) (NT g [NT c []])"
proof -
  obtain w g c s gn where w: "tree_rep 3 w ((\<lambda>_. [])(g := [c]))" "unlinked w s" "heap w g = Some gn" "mIsGroup gn" "s \<noteq> g" "c \<noteq> g"
    "same_queues (empty_world 4) w" and all: "\<forall>p nd. heap w p = Some nd \<longrightarrow> mIsGroup nd \<and> 0 < sint (mID nd)"
    using small_tree by metis
  have q: "nofree_ok 1024 (mNodeEnds w)" "nofree_ok 512 (mDeleteGraphDefs w)" "mRealTime w"
    using w(7) nofree_new_ok [of 10, where 'a = NodeEndMsg] nofree_new_ok [of 9, where 'a = ptr]
    by (simp_all add: same_queues_def empty_world_def)
  have ok: "world_ok 3 w" using q all w(1) by (auto simp: world_ok_def tree_rep_def)
  have "heap w c \<noteq> None" using child_of [OF w(1), of c g] by auto
  moreover have "mID nd \<noteq> 0" if "heap w p = Some nd" for p nd using all that by fastforce
  ultimately have "positive_ids (heap w) (NT c [])" "positive_ids (heap w) (NT g [NT c []])"
    using w(3) by (auto simp: positive_ids_def)
  moreover have "tree_ok (heap w) ((\<lambda>_. [])(g := [c]))" using w(1) by (simp add: tree_rep_def)
  moreover have "subtree ((\<lambda>_. [])(g := [c])) (NT c [])" "subtree ((\<lambda>_. [])(g := [c])) (NT g [NT c []])"
    using w(6) by (simp_all add: subtree_def)
  ultimately show ?thesis using ok w(2-6) by blast
qed

theorem node_delete_subtree_witness:
  "\<exists>w w' g c. tree_ok (heap w) ((\<lambda>_. [])(g := [c])) \<and> Node_Delete 4 c w = Some w' \<and> heap w' c = None \<and> heap w' g \<noteq> None
     \<and> tree_ok (heap w') (\<lambda>_. [])"
proof -
  obtain w g c where w: "world_ok 3 w" "tree_ok (heap w) ((\<lambda>_. [])(g := [c]))" "heap w g \<noteq> None" "c \<noteq> g"
    "subtree ((\<lambda>_. [])(g := [c])) (NT c [])" "positive_ids (heap w) (NT c [])"
    using small_world by blast
  let ?K = "(\<lambda>_. [])(g := [c])"
  have K: "?K g = [] @ nroot (NT c []) # []" and k: "4 * length (nodes (NT c [])) \<le> 4" by simp_all
  have eq: "pruned (NT c []) (?K(g := [] @ [])) = (\<lambda>_. [])" by auto
  obtain w' where w': "Node_Delete 4 (nroot (NT c [])) w = Some w'" "tree_ok (heap w') (\<lambda>_. [])"
    "dom (heap w') = dom (heap w) - set (nodes (NT c []))"
    using node_delete_subtree [OF w(1,2,5,6) K k] unfolding eq by blast
  have "heap w' c = None" "heap w' g \<noteq> None" using w'(3) w(3,4) by (auto simp: dom_def set_eq_iff)
  moreover have "Node_Delete 4 c w = Some w'" using w'(1) unfolding ntree.sel .
  ultimately show ?thesis using w'(2) w(2) by blast
qed

section \<open>Replacing and freeing the contents of a group\<close>

lemma unlink_world_ok_map:
  assumes "world_ok n w" and "\<And>x nd. mID (f x nd) = mID nd \<and> mHash (f x nd) = mHash nd \<and> mDef (f x nd) = mDef nd \<and> mIsGroup (f x nd) = mIsGroup nd"
  shows "world_ok n (map_heap f w)"
  unfolding map_heap_def by (rule world_ok_heap [OF assms(1)]) (use assms(2) in \<open>auto simp: node_kv_def split: option.splits\<close>)

lemma link_fields [simp]:
  "mDef (link_node g s a b x nd) = mDef nd" "mIsGroup (link_node g s a b x nd) = mIsGroup nd"
  "mDef (unlink_node h s a b x nd) = mDef nd" "mIsGroup (unlink_node h s a b x nd) = mIsGroup nd"
  by (simp_all add: link_node_def unlink_node_def)

text \<open>
  C25: replacing a linked node by a new one puts the new node in its place and frees exactly the
  subtree of the replaced node; the links, the table of identifiers and the invariant are right again.
\<close>

theorem node_replace_subtree:
  assumes ok: "world_ok n w" and tree: "tree_ok (heap w) K" and t: "subtree K t" "positive_ids (heap w) t"
    and s: "unlinked w s" "s \<notin> set (nodes t)" and K: "K g = as @ nroot t # bs" and k: "4 * length (nodes t) \<le> k"
  shows "\<exists>w'. Node_Replace k s (nroot t) w = Some w' \<and> world_ok n w' \<and> tree_ok (heap w') (pruned t (K(g := as @ s # bs)))
    \<and> dom (heap w') = dom (heap w) - set (nodes t) \<and> node_map w' = without t (node_map w)"
proof -
  let ?r = "nroot t" and ?S = "set (nodes t)" and ?K = "K(g := as @ s # bs)"
  have rep: "tree_rep n w K" using ok tree by (simp add: tree_rep_def world_ok_def)
  have span: "spans K t" and dist: "distinct (nodes t)" using t(1) by (simp_all add: subtree_def)
  have gS: "g \<notin> ?S" using spans_child_not_root [OF span dist, of g ?r] K by auto
  obtain rn where r: "heap w ?r = Some rn" "mParent rn = Some g" "mNext rn = first_of bs" "mPrev rn = last_of as"
    using kids_mNext [OF tree K] by blast
  obtain w1 where w1: "Node_Replace_link s ?r w = Some (True, w1)" "tree_rep n w1 ?K"
    and h1: "w1 = map_heap (link_node g s (last_of as) (first_of bs)) (map_heap (unlink_node (Some g) ?r (last_of as) (first_of bs)) w)"
    using Node_Replace_rep [OF rep s(1) K] by blast
  have ok1: "world_ok n w1" unfolding h1 by (intro unlink_world_ok_map ok) simp_all
  have tree1: "tree_ok (heap w1) ?K" using w1(2) by (simp add: tree_rep_def)
  have "spans ?K t'" if "spans K t'" "set (nodes t') \<subseteq> ?S" for t'
    using that gS by (induction t') auto
  then have span1: "spans ?K t" using span by simp
  have heap1: "heap w1 x = map_option (\<lambda>m. link_node g s (last_of as) (first_of bs) x (unlink_node (Some g) ?r (last_of as) (first_of bs) x m)) (heap w x)" for x
    by (simp add: h1 option.map_comp comp_def)
  have pos: "positive_ids (heap w1) t" using t(2) by (auto simp: positive_ids_def heap1)
  have sub: "sub_ok (heap w1) t" by (rule sub_ok_from_tree [OF tree1 span1 pos])
  have "s \<noteq> ?r" using s(2) by auto
  moreover have "?r \<notin> set (as @ bs)" using tree_ok_D(4) [OF tree, of g] K by simp
  then have "last_of as \<noteq> Some ?r" "first_of bs \<noteq> Some ?r" using neighbours_in [of ?r as bs] by blast+
  ultimately have "detached (heap w1) ?r"
    using r by (simp add: detached_def heap1 link_node_def unlink_node_def)
  moreover have "fuel_of t \<le> k" using k by (simp add: fuel_of_nodes)
  ultimately obtain w' where w': "Node_Delete k ?r w1 = Some w'" "world_ok n w'" "heap w' = (heap w1) |` (- ?S)"
    using detached_delete [OF ok1 sub dist, of k] by (auto simp: deletes_def)
  have heq: "heap w' = (\<lambda>x. if x \<in> ?S then None else heap w1 x)" using w'(3) by (auto simp: restrict_map_def)
  have "tree_ok (heap w') (pruned t ?K)" unfolding heq
  proof (rule tree_ok_prune [OF tree1])
    fix x c assume "x \<in> ?S" "c \<in> set (?K x)"
    then show "c \<in> ?S" by (rule spans_closed [OF span1])
  next
    fix x m g' assume x: "x \<in> ?S" "heap w1 x = Some m" "mParent m = Some g'"
    have "x \<noteq> ?r" using x(2,3) \<open>detached (heap w1) ?r\<close> by (auto simp: detached_def)
    moreover have "subtree ?K t" using span1 dist by (simp add: subtree_def)
    ultimately show "g' \<in> ?S" using subtree_up [OF tree1 _ x(1) _ x(2,3)] by blast
  qed
  moreover have "dom (heap w') = dom (heap w) - ?S" unfolding heq by (auto simp: heap1 dom_def)
  moreover have "node_map w' i = without t (node_map w) i" for i
  proof (rule node_map_without [of n])
    show "lib_ok n w" "lib_ok n w'" using ok w'(2) by (simp_all add: world_ok_def)
  qed (auto simp: heq heap1 split: if_splits)
  moreover have "Node_Replace k s ?r w = Some w'" using w1(1) w'(1) by (simp add: Node_Replace_def)
  ultimately show ?thesis using w'(2) by blast
qed


theorem node_replace_subtree_witness:
  "\<exists>w w' g c s. tree_ok (heap w) ((\<lambda>_. [])(g := [c])) \<and> Node_Replace 4 s c w = Some w' \<and> heap w' c = None
     \<and> tree_ok (heap w') ((\<lambda>_. [])(g := [s]))"
proof -
  obtain w g c s where w: "world_ok 3 w" "tree_ok (heap w) ((\<lambda>_. [])(g := [c]))" "unlinked w s" "c \<noteq> g"
    "subtree ((\<lambda>_. [])(g := [c])) (NT c [])" "positive_ids (heap w) (NT c [])"
    using small_world by blast
  let ?K = "(\<lambda>_. [])(g := [c])"
  have K: "?K g = [] @ nroot (NT c []) # []" and k: "4 * length (nodes (NT c [])) \<le> 4" by simp_all
  have rep: "tree_rep 3 w ?K" using w(1,2) by (simp add: tree_rep_def world_ok_def)
  then have sc: "s \<notin> set (nodes (NT c []))" using unlinked_not_child [OF rep w(3), of g] by simp
  have eq: "pruned (NT c []) (?K(g := [] @ s # [])) = (\<lambda>_. [])(g := [s])" using w(4) by auto
  obtain w' where w': "Node_Replace 4 s (nroot (NT c [])) w = Some w'" "tree_ok (heap w') ((\<lambda>_. [])(g := [s]))"
    "dom (heap w') = dom (heap w) - set (nodes (NT c []))"
    using node_replace_subtree [OF w(1,2,5,6,3) sc K k] unfolding eq by blast
  have "heap w' c = None" using w'(3) by (auto simp: dom_def set_eq_iff)
  moreover have "Node_Replace 4 s c w = Some w'" using w'(1) unfolding ntree.sel .
  ultimately show ?thesis using w'(2) w(2) by blast
qed

text \<open>Emptying a group: \<open>Group_DeleteAll\<close> on a linked group.\<close>

lemma tree_ok_empty_group:
  assumes ok: "tree_ok h K" and p: "h p = Some nd" "p \<notin> S" and kids: "set (K p) \<subseteq> S"
    and down: "\<And>x c. x \<in> S \<Longrightarrow> c \<in> set (K x) \<Longrightarrow> c \<in> S"
    and up: "\<And>x m g. x \<in> S \<Longrightarrow> h x = Some m \<Longrightarrow> mParent m = Some g \<Longrightarrow> g \<in> S \<or> g = p"
  shows "tree_ok ((\<lambda>x. if x \<in> S then None else h x)(p \<mapsto> nd\<lparr>mTail := None, mHead := None\<rparr>))
    (\<lambda>x. if x \<in> insert p S then [] else K x)"
    (is "tree_ok ?h ?K")
proof -
  have node: "\<exists>m0. h x = Some m0 \<and> x \<notin> S \<and> mParent m = mParent m0 \<and> mPrev m = mPrev m0 \<and> mNext m = mNext m0
      \<and> mIsGroup m = mIsGroup m0 \<and> (if x = p then mHead m = None \<and> mTail m = None else m = m0)" if "?h x = Some m" for x m
    using that p by (auto split: if_splits)
  have "links_ok ?K x m \<and> kids_ok ?K x m" if x: "?h x = Some m" for x m
  proof -
    obtain m0 where m0: "h x = Some m0" "x \<notin> S" "mParent m = mParent m0" "mPrev m = mPrev m0" "mNext m = mNext m0"
      "mIsGroup m = mIsGroup m0" "if x = p then mHead m = None \<and> mTail m = None else m = m0" using node [OF x] by blast
    have "links_ok ?K x m"
    proof (rule links_ok_same [OF tree_ok_D(1) [OF ok m0(1)] m0(3-5)])
      fix g assume "mParent m0 = Some g"
      then have "x \<in> set (K g)" using tree_ok_D(1) [OF ok m0(1)] by (simp add: links_ok_def)
      then show "?K g = K g" using down kids m0(2) by auto
    qed
    moreover have "kids_ok ?K x m" using m0 tree_ok_D(2) [OF ok m0(1)] by (cases "x = p") (auto simp: kids_ok_def)
    ultimately show ?thesis by blast
  qed
  moreover have "\<exists>m. ?h c = Some m \<and> mParent m = Some g" if c: "c \<in> set (?K g)" for g c
  proof -
    have c': "c \<in> set (K g)" "g \<notin> S" "g \<noteq> p" using c by (auto split: if_splits)
    then obtain m where m: "h c = Some m" "mParent m = Some g" using tree_ok_D(5) [OF ok] by blast
    then have "c \<notin> S" using up c'(2,3) by blast
    then show ?thesis using m p by auto
  qed
  moreover have "?K x = []" if "?h x = None" for x
    using that tree_ok_D(3) [OF ok, of x] by (auto split: if_splits)
  moreover have "distinct (?K g)" for g using tree_ok_D(4) [OF ok, of g] by simp
  ultimately show ?thesis unfolding tree_ok_def by blast
qed


text \<open>
  C26: emptying a group (also the root group, which itself cannot be deleted) frees exactly the nodes
  below it: the group stays linked where it is, with no children, and every other node, link and
  identifier is untouched.
\<close>

theorem group_delete_all_empties:
  assumes ok: "world_ok n w" and tree: "tree_ok (heap w) K" and t: "subtree K (NT p ts)"
    and ids: "\<forall>t \<in> set ts. positive_ids (heap w) t" and p: "heap w p = Some nd" "mIsGroup nd"
    and k: "4 * length (nodes (NT p ts)) \<le> k"
  shows "\<exists>w'. Group_DeleteAll k p w = Some w' \<and> world_ok n w' \<and> tree_ok (heap w') (pruned (NT p ts) K)
    \<and> dom (heap w') = dom (heap w) - set (forest_nodes ts)
    \<and> node_map w' = (\<lambda>i. case node_map w i of None \<Rightarrow> None | Some q \<Rightarrow> if q \<in> set (forest_nodes ts) then None else Some q)"
proof -
  let ?S = "set (forest_nodes ts)" and ?nd = "nd\<lparr>mTail := None, mHead := None\<rparr>"
  have K: "K p = List.map nroot ts" and span: "t \<in> set ts \<Longrightarrow> spans K t" for t using t by (simp_all add: subtree_def)
  have d: "distinct (p # forest_nodes ts)" using t by (simp add: subtree_def)
  then have pS: "p \<notin> ?S" by simp
  have sub: "sub_ok (heap w) t" if "t \<in> set ts" for t using sub_ok_from_tree [OF tree span [OF that]] ids that by blast
  have c: "chain_ok (heap w) ts" using chain_from_tree [OF tree sub, of ts p "[]"] K by simp
  have h: "mHead nd = first_of (List.map nroot ts)" using tree_ok_D(2) [OF tree p(1)] p(2) K by (simp add: kids_ok_def)
  have "fuel_of (NT p ts) \<le> k" using k fuel_of_nodes [of "NT p ts"] by simp
  then have f: "2 + sum_list (List.map fuel_of ts) \<le> k" by simp
  obtain w' where w': "Group_DeleteAll k p w = Some w'" "world_ok n w'"
    "heap w' = ((heap w) |` (- ?S))(p \<mapsto> ?nd)"
    using Group_DeleteAll_ok [OF detached_delete ok p(1) h c d f] by blast
  have heq: "heap w' = (\<lambda>x. if x \<in> ?S then None else heap w x)(p \<mapsto> ?nd)"
    unfolding w'(3) by (auto simp: restrict_map_def fun_eq_iff)
  have "tree_ok (heap w') (\<lambda>x. if x \<in> insert p ?S then [] else K x)" unfolding heq
  proof (rule tree_ok_empty_group [OF tree p(1) pS])
    have "set (K p) \<subseteq> nroot ` set ts" using K by simp
    then show "set (K p) \<subseteq> ?S" using roots_in_forest by blast
  next
    fix x c assume x: "x \<in> ?S" "c \<in> set (K x)"
    then obtain t where "t \<in> set ts" "x \<in> set (nodes t)" by auto
    then have "c \<in> set (nodes t)" using spans_closed [OF span] x(2) by blast
    then show "c \<in> ?S" using \<open>t \<in> set ts\<close> by auto
  next
    fix x m g assume x: "x \<in> ?S" "heap w x = Some m" "mParent m = Some g"
    have "x \<noteq> p" using x(1) pS by blast
    then have "g \<in> set (nodes (NT p ts))" using subtree_up [OF tree t _ _ x(2,3)] x(1) by simp
    then show "g \<in> ?S \<or> g = p" by auto
  qed
  moreover have "set (nodes (NT p ts)) = insert p ?S" by simp
  moreover have "dom (heap w') = dom (heap w) - ?S" unfolding heq using p(1) pS by (auto simp: dom_def)
  moreover have "node_map w' i = (case node_map w i of None \<Rightarrow> None | Some q \<Rightarrow> if q \<in> ?S then None else Some q)" for i
  proof (rule node_map_without [of n])
    show "lib_ok n w" "lib_ok n w'" using ok w'(2) by (simp_all add: world_ok_def)
    show "x \<notin> ?S \<and> (\<exists>nd0. heap w x = Some nd0 \<and> mID nd0 = mID m)" if "heap w' x = Some m" for x m
      using that pS p(1) unfolding heq by (cases "x = p") (auto split: if_splits)
    show "heap w' x \<noteq> None" if "x \<notin> ?S" "heap w x \<noteq> None" for x
      using that unfolding heq by (cases "x = p") simp_all
  qed
  ultimately show ?thesis using w'(1,2) by auto
qed

theorem group_delete_all_empties_witness:
  "\<exists>w w' g c. tree_ok (heap w) ((\<lambda>_. [])(g := [c])) \<and> Group_DeleteAll 8 g w = Some w' \<and> heap w' c = None
     \<and> tree_ok (heap w') (\<lambda>_. [])"
proof -
  obtain w g c gn where w: "world_ok 3 w" "tree_ok (heap w) ((\<lambda>_. [])(g := [c]))" "heap w g = Some gn" "mIsGroup gn" "c \<noteq> g"
    "subtree ((\<lambda>_. [])(g := [c])) (NT g [NT c []])" "positive_ids (heap w) (NT c [])"
    using small_world by blast
  have ids: "\<forall>t \<in> set [NT c []]. positive_ids (heap w) t" using w(7) by simp
  have eq: "pruned (NT g [NT c []]) ((\<lambda>_. [])(g := [c])) = (\<lambda>_. [])" by auto
  obtain w' where w': "Group_DeleteAll 8 g w = Some w'" "tree_ok (heap w') (\<lambda>_. [])"
    "dom (heap w') = dom (heap w) - set (forest_nodes [NT c []])"
    using group_delete_all_empties [OF w(1,2,6) ids w(3,4), of 8] unfolding eq by auto
  have "heap w' c = None" using w'(3) by (auto simp: dom_def set_eq_iff)
  then show ?thesis using w'(1,2) w(2) by blast
qed

end
