(* ===== verification/SC_Graph.thy ===== *)
theory SC_Graph
  imports SC_Node
begin

text \<open>
  Synths: \<open>server/scsynth/SC_Graph.cpp\<close> (creation, hooking up of the units, controls, hiding of the
  identifier), and the control operations of \<open>SC_Node.cpp\<close> and \<open>SC_Group.cpp\<close>, which a group passes on
  to every synth below it.

  A pointer of \<open>mMapControls\<close> is a \<open>control_ptr\<close>, a pointer to a wire's buffer a \<open>wire_buf\<close>, a pointer to
  a wire or a unit its index. The memory layout behind the one allocation is not modelled.
\<close>

section \<open>Controls\<close>

definition GRAPHDEF :: "World \<Rightarrow> Node \<Rightarrow> GraphDef option" where
  "GRAPHDEF w n = (case mDef n of Def d \<Rightarrow> defs w d | GroupNodeDef \<Rightarrow> None)"

definition param_kv :: "GraphDef \<Rightarrow> (nat, i32 list) reader" where
  "param_kv d i = (if i < length (dParamSpecs d) then Some (psHash (dParamSpecs d ! i), psName (dParamSpecs d ! i)) else None)"

definition find_param :: "GraphDef \<Rightarrow> i32 \<Rightarrow> i32 list \<Rightarrow> ParamSpec option option" where
  "find_param d inHash inName = do {
     r \<leftarrow> Get_hash (param_kv d) str4eq (dParamSpecTable d) inHash inName;
     Some (map_option (\<lambda>i. dParamSpecs d ! i) r) }"

definition Graph_GetControl :: "ptr \<Rightarrow> u32 \<Rightarrow> World \<Rightarrow> (SCErr \<times> f32 option) option" where
  "Graph_GetControl inGraph inIndex w = do {
     n \<leftarrow> deref w inGraph;
     d \<leftarrow> GRAPHDEF w n;
     if of_nat (dNumControls d) \<le> inIndex then Some (kSCErr_IndexOutOfRange, None)
     else do { v \<leftarrow> aread (gControls n) (unat inIndex); Some (kSCErr_None, Some v) } }"

definition Graph_SetControl :: "ptr \<Rightarrow> u32 \<Rightarrow> f32 \<Rightarrow> World \<Rightarrow> World option" where
  "Graph_SetControl inGraph inIndex inValue w = do {
     n \<leftarrow> deref w inGraph;
     d \<leftarrow> GRAPHDEF w n;
     if of_nat (dNumControls d) \<le> inIndex then Some w
     else do {
       rates \<leftarrow> awrite (gControlRates n) (unat inIndex) 0;
       maps \<leftarrow> awrite (gMapControls n) (unat inIndex) (OwnControl (unat inIndex));
       cs \<leftarrow> awrite (gControls n) (unat inIndex) inValue;
       upd inGraph (\<lambda>n. n\<lparr>gControlRates := rates, gMapControls := maps, gControls := cs\<rparr>) w } }"

text \<open>Setting \<open>mControlRates\<close> and \<open>mMapControls\<close> of one control.\<close>

definition set_mapping :: "ptr \<Rightarrow> u32 \<Rightarrow> nat \<Rightarrow> control_ptr \<Rightarrow> World \<Rightarrow> World option" where
  "set_mapping p i rate c w = do {
     n \<leftarrow> deref w p;
     rates \<leftarrow> awrite (gControlRates n) (unat i) rate;
     maps \<leftarrow> awrite (gMapControls n) (unat i) c;
     upd p (\<lambda>n. n\<lparr>gControlRates := rates, gMapControls := maps\<rparr>) w }"

definition Graph_MapControl :: "ptr \<Rightarrow> u32 \<Rightarrow> u32 \<Rightarrow> World \<Rightarrow> World option" where
  "Graph_MapControl inGraph inIndex inBus w = do {
     n \<leftarrow> deref w inGraph;
     d \<leftarrow> GRAPHDEF w n;
     if of_nat (dNumControls d) \<le> inIndex then Some w
     else if 0x80000000 \<le> inBus then set_mapping inGraph inIndex 0 (OwnControl (unat inIndex)) w
     else if inBus < mNumControlBusChannels w then set_mapping inGraph inIndex 1 (ControlBus (unat inBus)) w
     else Some w }"

definition Graph_MapAudioControl :: "ptr \<Rightarrow> u32 \<Rightarrow> u32 \<Rightarrow> World \<Rightarrow> World option" where
  "Graph_MapAudioControl inGraph inIndex inBus w = do {
     n \<leftarrow> deref w inGraph;
     d \<leftarrow> GRAPHDEF w n;
     if of_nat (dNumControls d) \<le> inIndex then Some w
     else if 0x80000000 \<le> inBus then set_mapping inGraph inIndex 0 (OwnControl (unat inIndex)) w
     else if inBus < mNumAudioBusChannels w
     then set_mapping inGraph inIndex 2 (AudioBus (unat (inBus * of_nat (mBufLength w)))) w
     else Some w }"

text \<open>By name: nothing happens when the definition has no parameter of that name.\<close>

definition with_param :: "ptr \<Rightarrow> i32 \<Rightarrow> i32 list \<Rightarrow> (ParamSpec \<Rightarrow> World \<Rightarrow> World option) \<Rightarrow> World \<Rightarrow> World option" where
  "with_param p inHash inName f w = do {
     n \<leftarrow> deref w p;
     d \<leftarrow> GRAPHDEF w n;
     spec \<leftarrow> find_param d inHash inName;
     (case spec of None \<Rightarrow> Some w | Some sp \<Rightarrow> f sp w) }"

definition Graph_GetControl_named :: "ptr \<Rightarrow> i32 \<Rightarrow> i32 list \<Rightarrow> u32 \<Rightarrow> World \<Rightarrow> (SCErr \<times> f32 option) option" where
  "Graph_GetControl_named inGraph inHash inName inIndex w = do {
     n \<leftarrow> deref w inGraph;
     d \<leftarrow> GRAPHDEF w n;
     spec \<leftarrow> find_param d inHash inName;
     (case spec of
        None \<Rightarrow> Some (kSCErr_IndexOutOfRange, None)
      | Some sp \<Rightarrow> Graph_GetControl inGraph (of_nat (psIndex sp) + inIndex) w) }"

definition Graph_SetControl_named :: "ptr \<Rightarrow> i32 \<Rightarrow> i32 list \<Rightarrow> u32 \<Rightarrow> f32 \<Rightarrow> World \<Rightarrow> World option" where
  "Graph_SetControl_named inGraph inHash inName inIndex inValue w =
     with_param inGraph inHash inName (\<lambda>sp. Graph_SetControl inGraph (of_nat (psIndex sp) + inIndex) inValue) w"

definition Graph_MapControl_named :: "ptr \<Rightarrow> i32 \<Rightarrow> i32 list \<Rightarrow> u32 \<Rightarrow> u32 \<Rightarrow> World \<Rightarrow> World option" where
  "Graph_MapControl_named inGraph inHash inName inIndex inBus w =
     with_param inGraph inHash inName (\<lambda>sp. Graph_MapControl inGraph (of_nat (psIndex sp) + inIndex) inBus) w"

definition Graph_MapAudioControl_named :: "ptr \<Rightarrow> i32 \<Rightarrow> i32 list \<Rightarrow> u32 \<Rightarrow> u32 \<Rightarrow> World \<Rightarrow> World option" where
  "Graph_MapAudioControl_named inGraph inHash inName inIndex inBus w =
     with_param inGraph inHash inName (\<lambda>sp. Graph_MapAudioControl inGraph (of_nat (psIndex sp) + inIndex) inBus) w"

section \<open>Passing on to the synths of a group\<close>

text \<open>
  The functions of a group all have this shape: apply the node's function to each child, which
  applies the graph's function to a synth and the group's to a group.
\<close>

fun Node_each :: "nat \<Rightarrow> (ptr \<Rightarrow> World \<Rightarrow> World option) \<Rightarrow> ptr \<Rightarrow> World \<Rightarrow> World option"
  and Group_each :: "nat \<Rightarrow> (ptr \<Rightarrow> World \<Rightarrow> World option) \<Rightarrow> ptr \<Rightarrow> World \<Rightarrow> World option"
  and children_each :: "nat \<Rightarrow> (ptr \<Rightarrow> World \<Rightarrow> World option) \<Rightarrow> ptr option \<Rightarrow> World \<Rightarrow> World option" where
  "Node_each 0 f inNode w = None"
| "Node_each (Suc k) f inNode w = do {
     n \<leftarrow> deref w inNode;
     if mIsGroup n then Group_each k f inNode w else f inNode w }"
| "Group_each 0 f inGroup w = None"
| "Group_each (Suc k) f inGroup w = do { g \<leftarrow> deref w inGroup; children_each k f (mHead g) w }"
| "children_each 0 f child w = None"
| "children_each (Suc k) f None w = Some w"
| "children_each (Suc k) f (Some child) w = do {
     c \<leftarrow> deref w child;
     w \<leftarrow> Node_each k f child w;
     children_each k f (mNext c) w }"

definition Group_MapControl :: "nat \<Rightarrow> ptr \<Rightarrow> u32 \<Rightarrow> u32 \<Rightarrow> World \<Rightarrow> World option" where
  "Group_MapControl k inGroup inIndex inBus w = Group_each k (\<lambda>g. Graph_MapControl g inIndex inBus) inGroup w"
definition Group_MapControl_named :: "nat \<Rightarrow> ptr \<Rightarrow> i32 \<Rightarrow> i32 list \<Rightarrow> u32 \<Rightarrow> u32 \<Rightarrow> World \<Rightarrow> World option" where
  "Group_MapControl_named k inGroup inHash inName inIndex inBus w =
     Group_each k (\<lambda>g. Graph_MapControl_named g inHash inName inIndex inBus) inGroup w"
definition Group_MapAudioControl :: "nat \<Rightarrow> ptr \<Rightarrow> u32 \<Rightarrow> u32 \<Rightarrow> World \<Rightarrow> World option" where
  "Group_MapAudioControl k inGroup inIndex inBus w = Group_each k (\<lambda>g. Graph_MapAudioControl g inIndex inBus) inGroup w"
definition Group_MapAudioControl_named :: "nat \<Rightarrow> ptr \<Rightarrow> i32 \<Rightarrow> i32 list \<Rightarrow> u32 \<Rightarrow> u32 \<Rightarrow> World \<Rightarrow> World option" where
  "Group_MapAudioControl_named k inGroup inHash inName inIndex inBus w =
     Group_each k (\<lambda>g. Graph_MapAudioControl_named g inHash inName inIndex inBus) inGroup w"
definition Group_SetControl :: "nat \<Rightarrow> ptr \<Rightarrow> u32 \<Rightarrow> f32 \<Rightarrow> World \<Rightarrow> World option" where
  "Group_SetControl k inGroup inIndex inValue w = Group_each k (\<lambda>g. Graph_SetControl g inIndex inValue) inGroup w"
definition Group_SetControl_named :: "nat \<Rightarrow> ptr \<Rightarrow> i32 \<Rightarrow> i32 list \<Rightarrow> u32 \<Rightarrow> f32 \<Rightarrow> World \<Rightarrow> World option" where
  "Group_SetControl_named k inGroup inHash inName inIndex inValue w =
     Group_each k (\<lambda>g. Graph_SetControl_named g inHash inName inIndex inValue) inGroup w"

definition Node_MapControl :: "nat \<Rightarrow> ptr \<Rightarrow> u32 \<Rightarrow> u32 \<Rightarrow> World \<Rightarrow> World option" where
  "Node_MapControl k inNode inIndex inBus w = do {
     n \<leftarrow> deref w inNode;
     if mIsGroup n then Group_MapControl k inNode inIndex inBus w else Graph_MapControl inNode inIndex inBus w }"
definition Node_MapControl_named :: "nat \<Rightarrow> ptr \<Rightarrow> i32 \<Rightarrow> i32 list \<Rightarrow> u32 \<Rightarrow> u32 \<Rightarrow> World \<Rightarrow> World option" where
  "Node_MapControl_named k inNode inHash inName inIndex inBus w = do {
     n \<leftarrow> deref w inNode;
     if mIsGroup n then Group_MapControl_named k inNode inHash inName inIndex inBus w
     else Graph_MapControl_named inNode inHash inName inIndex inBus w }"
definition Node_MapAudioControl :: "nat \<Rightarrow> ptr \<Rightarrow> u32 \<Rightarrow> u32 \<Rightarrow> World \<Rightarrow> World option" where
  "Node_MapAudioControl k inNode inIndex inBus w = do {
     n \<leftarrow> deref w inNode;
     if mIsGroup n then Group_MapAudioControl k inNode inIndex inBus w else Graph_MapAudioControl inNode inIndex inBus w }"
definition Node_MapAudioControl_named :: "nat \<Rightarrow> ptr \<Rightarrow> i32 \<Rightarrow> i32 list \<Rightarrow> u32 \<Rightarrow> u32 \<Rightarrow> World \<Rightarrow> World option" where
  "Node_MapAudioControl_named k inNode inHash inName inIndex inBus w = do {
     n \<leftarrow> deref w inNode;
     if mIsGroup n then Group_MapAudioControl_named k inNode inHash inName inIndex inBus w
     else Graph_MapAudioControl_named inNode inHash inName inIndex inBus w }"
definition Node_SetControl :: "nat \<Rightarrow> ptr \<Rightarrow> u32 \<Rightarrow> f32 \<Rightarrow> World \<Rightarrow> World option" where
  "Node_SetControl k inNode inIndex inValue w = do {
     n \<leftarrow> deref w inNode;
     if mIsGroup n then Group_SetControl k inNode inIndex inValue w else Graph_SetControl inNode inIndex inValue w }"
definition Node_SetControl_named :: "nat \<Rightarrow> ptr \<Rightarrow> i32 \<Rightarrow> i32 list \<Rightarrow> u32 \<Rightarrow> f32 \<Rightarrow> World \<Rightarrow> World option" where
  "Node_SetControl_named k inNode inHash inName inIndex inValue w = do {
     n \<leftarrow> deref w inNode;
     if mIsGroup n then Group_SetControl_named k inNode inHash inName inIndex inValue w
     else Graph_SetControl_named inNode inHash inName inIndex inValue w }"


section \<open>Arguments of a new synth\<close>

text \<open>A control is addressed by its index or by a name and an offset.\<close>

datatype control_address = By_index i32 | By_name i32 "i32 list"

definition set_at :: "ptr \<Rightarrow> control_address \<Rightarrow> i32 \<Rightarrow> f32 \<Rightarrow> World \<Rightarrow> World option" where
  "set_at p a i v w = (case a of By_index ix \<Rightarrow> Graph_SetControl p (ix + i) v w
     | By_name h nm \<Rightarrow> Graph_SetControl_named p h nm i v w)"
definition map_at :: "ptr \<Rightarrow> control_address \<Rightarrow> i32 \<Rightarrow> i32 \<Rightarrow> World \<Rightarrow> World option" where
  "map_at p a i b w = (case a of By_index ix \<Rightarrow> Graph_MapControl p (ix + i) b w
     | By_name h nm \<Rightarrow> Graph_MapControl_named p h nm i b w)"
definition map_audio_at :: "ptr \<Rightarrow> control_address \<Rightarrow> i32 \<Rightarrow> i32 \<Rightarrow> World \<Rightarrow> World option" where
  "map_audio_at p a i b w = (case a of By_index ix \<Rightarrow> Graph_MapAudioControl p (ix + i) b w
     | By_name h nm \<Rightarrow> Graph_MapAudioControl_named p h nm i b w)"

text \<open>The characters \<open>a\<close>, \<open>c\<close>, and the tags of array brackets.\<close>

abbreviation chr_a :: u8 where "chr_a \<equiv> 97"
abbreviation chr_c :: u8 where "chr_c \<equiv> 99"
abbreviation tag_open :: u8 where "tag_open \<equiv> 91"
abbreviation tag_close :: u8 where "tag_close \<equiv> 93"

text \<open>A string argument as the bytes from its pointer on; the null pointer has none.\<close>

definition string_arg :: "sc_msg_iter \<Rightarrow> (u8 list \<times> sc_msg_iter) option" where
  "string_arg m = do { (s, m) \<leftarrow> gets None m; pos \<leftarrow> s; Some (drop pos (mdata m), m) }"

text \<open>A string that starts with \<open>c\<close> or \<open>a\<close> maps the control to the bus whose number follows.\<close>

definition map_string :: "ptr \<Rightarrow> control_address \<Rightarrow> i32 \<Rightarrow> u8 list \<Rightarrow> World \<Rightarrow> World option" where
  "map_string p a i string w = do {
     c \<leftarrow> aread string 0;
     if c = chr_c then do { bus \<leftarrow> sc_atoi (tl string); map_at p a i bus w }
     else if c = chr_a then do { bus \<leftarrow> sc_atoi (tl string); map_audio_at p a i bus w }
     else Some w }"

definition count_tag :: "sc_msg_iter \<Rightarrow> sc_msg_iter" where
  "count_tag m = m\<lparr>tcount := tcount m + 1\<rparr>"

text \<open>
  The address of a control, common to all the readers: a name (with its hash) or an index. Hashing a
  null name is undefined.
\<close>

definition read_address :: "sc_msg_iter \<Rightarrow> (control_address \<times> sc_msg_iter) option" where
  "read_address m = do {
     t \<leftarrow> nextTag tag_i m;
     if t = tag_s then do {
       (s, m) \<leftarrow> gets4 None m;
       pos \<leftarrow> s;
       h \<leftarrow> Hash_str4 (words_at (mdata m) pos);
       Some (By_name h (words_at (mdata m) pos), m) }
     else do { (ix, m) \<leftarrow> geti 0 m; Some (By_index ix, m) } }"

text \<open>
  The inner loop: values for consecutive controls, in brackets when there are several. \<open>i\<close> counts the
  values and \<open>lp\<close> the open brackets.
\<close>

fun ctor_values :: "nat \<Rightarrow> ptr \<Rightarrow> control_address \<Rightarrow> i32 \<Rightarrow> i32 \<Rightarrow> sc_msg_iter \<Rightarrow> World \<Rightarrow> (sc_msg_iter \<times> World) option" where
  "ctor_values 0 p a i lp m w = None"
| "ctor_values (Suc k) p a i lp m w = do {
     t \<leftarrow> nextTag tag_f m;
     (i, lp, m, w) \<leftarrow>
       (if t = tag_f \<or> t = tag_i then do {
          (value, m) \<leftarrow> getf 0 m;
          w \<leftarrow> set_at p a i value w;
          Some (i, lp, m, w) }
        else if t = tag_s then do {
          (string, m) \<leftarrow> string_arg m;
          w \<leftarrow> map_string p a i string w;
          Some (i, lp, m, w) }
        else if t = tag_close then Some (i, lp - 1, count_tag m, w)
        else if t = tag_open then Some (i - 1, lp + 1, count_tag m, w)
        else Some (i, lp, m, w));
     if lp \<noteq> 0 then ctor_values k p a (i + 1) lp m w else Some (m, w) }"

fun ctor_args :: "nat \<Rightarrow> ptr \<Rightarrow> sc_msg_iter \<Rightarrow> World \<Rightarrow> (sc_msg_iter \<times> World) option" where
  "ctor_args 0 p m w = None"
| "ctor_args (Suc k) p m w =
     (if 8 \<le> remain m then do {
        (a, m) \<leftarrow> read_address m;
        (m, w) \<leftarrow> ctor_values k p a 0 0 m w;
        ctor_args k p m w }
      else Some (m, w))"

text \<open>The arguments of \<open>s_newargs\<close>: a number of values follows the address.\<close>

fun ctor_n_values :: "nat \<Rightarrow> ptr \<Rightarrow> control_address \<Rightarrow> i32 \<Rightarrow> i32 \<Rightarrow> sc_msg_iter \<Rightarrow> World \<Rightarrow> (sc_msg_iter \<times> World) option" where
  "ctor_n_values 0 p a i n m w = None"
| "ctor_n_values (Suc k) p a i n m w =
     (if remain m \<noteq> 0 \<and> sint i < sint n then do {
        t \<leftarrow> nextTag tag_f m;
        (m, w) \<leftarrow>
          (if t = tag_s then do {
             (string, m) \<leftarrow> string_arg m;
             w \<leftarrow> map_string p a i string w;
             Some (m, w) }
           else do {
             (value, m) \<leftarrow> getf 0 m;
             w \<leftarrow> set_at p a i value w;
             Some (m, w) });
        ctor_n_values k p a (i + 1) n m w }
      else Some (m, w))"

fun ctor_n_args :: "nat \<Rightarrow> ptr \<Rightarrow> sc_msg_iter \<Rightarrow> World \<Rightarrow> (sc_msg_iter \<times> World) option" where
  "ctor_n_args 0 p m w = None"
| "ctor_n_args (Suc k) p m w =
     (if remain m \<noteq> 0 then do {
        (a, m) \<leftarrow> read_address m;
        (n, m) \<leftarrow> geti 0 m;
        (m, w) \<leftarrow> ctor_n_values k p a 0 n m w;
        ctor_n_args k p m w }
      else Some (m, w))"

section \<open>Hooking up the units\<close>

text \<open>
  \<open>mInput\<close> and \<open>mInBuf\<close> of a unit are the wires of its input specification and their buffers so far:
  \<open>None\<close> where the wire has not been set up yet. The outputs are the next wires.
\<close>

definition Unit_New :: "UnitSpec \<Rightarrow> Unit" where
  "Unit_New spec = \<lparr>uCalcRate = usCalcRate spec, uInput = [], uInBuf = [], uOutput = [], uOutBuf = []\<rparr>"

definition hook_inputs :: "UnitSpec \<Rightarrow> Wire option list \<Rightarrow> Unit \<Rightarrow> Unit option" where
  "hook_inputs spec wires u = do {
     bufs \<leftarrow> those (List.map (\<lambda>ix. map_option (map_option wBuffer) (aread wires ix)) (usInputSpec spec));
     Some (u\<lparr>uInput := usInputSpec spec, uInBuf := bufs\<rparr>) }"

definition out_wire :: "nat \<Rightarrow> UnitSpec \<Rightarrow> nat \<Rightarrow> nat \<Rightarrow> Wire option \<Rightarrow> Wire" where
  "out_wire i spec wireCtr j old =
     \<lparr>wFromUnit = Some i, wCalcRate = usCalcRate spec,
      wBuffer = (if usCalcRate spec = calc_FullRate then WireBufSpace (usOutputSpec spec ! j) else WireScalar (wireCtr + j)),
      wScalarValue = (case old of None \<Rightarrow> 0 | Some wi \<Rightarrow> wScalarValue wi)\<rparr>"

fun hook_outputs :: "nat \<Rightarrow> UnitSpec \<Rightarrow> nat \<Rightarrow> nat list \<Rightarrow> Wire option list \<Rightarrow> Unit \<Rightarrow> (Wire option list \<times> Unit) option" where
  "hook_outputs i spec wireCtr [] wires u = Some (wires, u)"
| "hook_outputs i spec wireCtr (j # js) wires u = do {
     old \<leftarrow> aread wires (wireCtr + j);
     wires \<leftarrow> awrite wires (wireCtr + j) (Some (out_wire i spec wireCtr j old));
     hook_outputs i spec wireCtr js wires
       (u\<lparr>uOutput := uOutput u @ [wireCtr + j], uOutBuf := uOutBuf u @ [wBuffer (out_wire i spec wireCtr j old)]\<rparr>) }"

fun hook_units :: "nat \<Rightarrow> UnitSpec list \<Rightarrow> nat \<Rightarrow> Wire option list \<Rightarrow> Unit list \<Rightarrow> nat list
    \<Rightarrow> (Wire option list \<times> Unit list \<times> nat list) option" where
  "hook_units i [] wireCtr wires us calcs = Some (wires, us, calcs)"
| "hook_units i (spec # specs) wireCtr wires us calcs = do {
     u \<leftarrow> hook_inputs spec wires (Unit_New spec);
     (wires, u) \<leftarrow> hook_outputs i spec wireCtr [0..<length (usOutputSpec spec)] wires u;
     hook_units (Suc i) specs (wireCtr + length (usOutputSpec spec)) wires (us @ [u])
       (if usCalcRate spec = calc_FullRate \<or> usCalcRate spec = calc_BufRate then calcs @ [i] else calcs) }"

definition constant_wire :: "nat \<Rightarrow> f32 \<Rightarrow> Wire" where
  "constant_wire i v = \<lparr>wFromUnit = None, wCalcRate = calc_ScalarRate, wBuffer = WireScalar i, wScalarValue = v\<rparr>"

definition constant_wires :: "GraphDef \<Rightarrow> Wire option list option" where
  "constant_wires d =
     (if length (dConstants d) \<le> dNumWires d
      then Some (List.map (\<lambda>i. Some (constant_wire i (dConstants d ! i))) [0..<length (dConstants d)]
             @ replicate (dNumWires d - length (dConstants d)) None)
      else None)"

section \<open>Creation\<close>

definition init_controls :: "GraphDef \<Rightarrow> Node \<Rightarrow> Node" where
  "init_controls d n = n\<lparr>gNumControls := dNumControls d,
     gControls := take (dNumControls d) (dInitialControlValues d),
     gMapControls := List.map OwnControl [0..<dNumControls d],
     gControlRates := replicate (dNumControls d) 0\<rparr>"

definition Graph_Ctor :: "nat \<Rightarrow> ptr \<Rightarrow> ptr \<Rightarrow> sc_msg_iter \<Rightarrow> bool \<Rightarrow> World \<Rightarrow> (sc_msg_iter \<times> World) option" where
  "Graph_Ctor k inGraphDef graph m argtype w = do {
     d \<leftarrow> defs w inGraphDef;
     if dNumControls d \<le> length (dInitialControlValues d) then do {
       let w = w\<lparr>mNumUnits := mNumUnits w + of_nat (length (dUnitSpecs d)), mNumGraphs := mNumGraphs w + 1\<rparr>;
       w \<leftarrow> upd graph (\<lambda>n. init_controls d (n\<lparr>gNumUnits := length (dUnitSpecs d), mCalcFunc := Cf_Graph_FirstCalc,
              gNumCalcUnits := dNumCalcUnits d\<rparr>)) w;
       (m, w) \<leftarrow> (if argtype then ctor_args k graph m w else ctor_n_args k graph m w);
       wires \<leftarrow> constant_wires d;
       (wires, us, calcs) \<leftarrow> hook_units 0 (dUnitSpecs d) (length (dConstants d)) wires [] [];
       w \<leftarrow> upd graph (\<lambda>n. n\<lparr>gWire := wires, gUnits := us, gCalcUnits := calcs, gSampleOffset := mSampleOffset w,
              gSubsampleOffset := mSubsampleOffset w, localBufNum := 0, localMaxBufNum := 0\<rparr>) w;
       d \<leftarrow> defs w inGraphDef;
       Some (m, w\<lparr>defs := (defs w)(inGraphDef \<mapsto> d\<lparr>dRefCount := dRefCount d + 1\<rparr>)\<rparr>) }
     else None }"

definition Graph_New :: "nat \<Rightarrow> ptr \<Rightarrow> i32 \<Rightarrow> sc_msg_iter \<Rightarrow> bool \<Rightarrow> World
    \<Rightarrow> (SCErr \<times> ptr option \<times> sc_msg_iter \<times> World) option" where
  "Graph_New k inGraphDef inID m argtype w = do {
     (err, r, w) \<leftarrow> Node_New (Def inGraphDef) inID w;
     (case r of
        None \<Rightarrow> Some (err, None, m, w)
      | Some graph \<Rightarrow> do {
          (m, w) \<leftarrow> Graph_Ctor k inGraphDef graph m argtype w;
          Some (err, Some graph, m, w) }) }"

text \<open>Giving a synth a hidden identifier; the errors are thrown.\<close>

definition Graph_RemoveID :: "nat \<Rightarrow> ptr \<Rightarrow> World \<Rightarrow> (SCErr \<times> World) option" where
  "Graph_RemoveID k inGraph w = do {
     (removed, w) \<leftarrow> World_RemoveNode inGraph w;
     if \<not> removed then Some (kSCErr_Failed, w)
     else do {
       let w = w\<lparr>mHiddenID := next_hidden (mHiddenID w)\<rparr>;
       w \<leftarrow> upd inGraph (\<lambda>n. n\<lparr>mID := mHiddenID w, mHash := Hash_int (mHiddenID w)\<rparr>) w;
       (added, w) \<leftarrow> World_AddNode inGraph w;
       if \<not> added then do { w \<leftarrow> Node_Delete k inGraph w; Some (kSCErr_Failed, w) }
       else Some (kSCErr_None, w) } }"

end
