(* ===== verification/SC_Controls.thy ===== *)
theory SC_Controls
  imports SC_Graph
begin

text \<open>
  What the control operations of \<open>SC_Graph\<close> achieve: the value a control reads after it was set,
  mapped or unmapped, addressing by name, the spreading over the synths of a group, and the hooking
  up of the units.
\<close>

section \<open>One control\<close>

text \<open>
  The arrays of a synth have one entry for each control of its definition, and a control that is not
  mapped reads its own value.
\<close>

definition graph_ok :: "World \<Rightarrow> Node \<Rightarrow> nat \<Rightarrow> bool" where
  "graph_ok w n c \<longleftrightarrow> (\<exists>d. GRAPHDEF w n = Some d \<and> dNumControls d = c) \<and> c < 2 ^ 31
     \<and> length (gControls n) = c \<and> length (gMapControls n) = c \<and> length (gControlRates n) = c
     \<and> (\<forall>k < c. \<forall>j. gMapControls n ! k = OwnControl j \<longrightarrow> j = k)"

text \<open>What a unit that reads control \<open>i\<close> gets, for control-rate sources.\<close>

definition control_reads :: "World \<Rightarrow> ptr \<Rightarrow> nat \<Rightarrow> f32 option" where
  "control_reads w p i = do {
     n \<leftarrow> heap w p;
     c \<leftarrow> aread (gMapControls n) i;
     (case c of OwnControl j \<Rightarrow> aread (gControls n) j | ControlBus b \<Rightarrow> aread (mControlBus w) b | AudioBus _ \<Rightarrow> None) }"

lemma control_reads_eq:
  assumes "heap w p = Some n" and "graph_ok w n c" and "k < c"
  shows "control_reads w p k = (case gMapControls n ! k of OwnControl _ \<Rightarrow> Some (gControls n ! k)
    | ControlBus b \<Rightarrow> aread (mControlBus w) b | AudioBus _ \<Rightarrow> None)"
  using assms by (cases "gMapControls n ! k") (auto simp: control_reads_def graph_ok_def)

lemma le_of_nat_word: "c < 2 ^ 31 \<Longrightarrow> (of_nat c \<le> (i :: u32)) \<longleftrightarrow> c \<le> unat i"
  by (simp add: word_le_nat_alt unat_of_nat)

text \<open>One entry of the arrays of one synth changes.\<close>

definition control_changed :: "ptr \<Rightarrow> nat \<Rightarrow> f32 option \<Rightarrow> nat \<Rightarrow> World \<Rightarrow> World \<Rightarrow> bool" where
  "control_changed p i v c w w' \<longleftrightarrow> control_reads w' p i = v
     \<and> (\<forall>k < c. k \<noteq> i \<longrightarrow> control_reads w' p k = control_reads w p k) \<and> (\<forall>q. q \<noteq> p \<longrightarrow> heap w' q = heap w q)
     \<and> (\<exists>n'. heap w' p = Some n' \<and> graph_ok w' n' c)"

lemma change_entry:
  assumes p: "heap w p = Some n" and ok: "graph_ok w n c" and i: "i < c"
    and m: "\<And>j. m = OwnControl j \<Longrightarrow> j = i" and cs: "cs = gControls n \<or> cs = (gControls n)[i := v]"
  shows "control_changed p i (case m of OwnControl _ \<Rightarrow> Some (cs ! i) | ControlBus b \<Rightarrow> aread (mControlBus w) b | AudioBus _ \<Rightarrow> None) c w
    (w\<lparr>heap := (heap w)(p \<mapsto> n\<lparr>gControlRates := (gControlRates n)[i := r],
      gMapControls := (gMapControls n)[i := m], gControls := cs\<rparr>)\<rparr>)"
proof -
  let ?n = "n\<lparr>gControlRates := (gControlRates n)[i := r], gMapControls := (gMapControls n)[i := m], gControls := cs\<rparr>"
  let ?w = "w\<lparr>heap := (heap w)(p \<mapsto> ?n)\<rparr>"
  have ok': "graph_ok ?w ?n c" using ok m i cs
    by (auto simp: graph_ok_def GRAPHDEF_def nth_list_update split: def_ref.splits)
  have p': "heap ?w p = Some ?n" by simp
  have "length (gMapControls n) = c" "length (gControls n) = c" using ok by (simp_all add: graph_ok_def)
  then have "control_reads ?w p k = control_reads w p k" if "k < c" "k \<noteq> i" for k
    unfolding control_reads_eq [OF p' ok' that(1)] control_reads_eq [OF p ok that(1)]
    using that cs by (auto split: control_ptr.splits)
  moreover have "control_reads ?w p i = (case m of OwnControl _ \<Rightarrow> Some (cs ! i) | ControlBus b \<Rightarrow> aread (mControlBus w) b | AudioBus _ \<Rightarrow> None)"
    unfolding control_reads_eq [OF p' ok' i] using i \<open>length (gMapControls n) = c\<close> by (cases m) simp_all
  ultimately show ?thesis using ok' by (simp add: control_changed_def)
qed

lemma Graph_SetControl_ok:
  assumes p: "heap w p = Some n" and ok: "graph_ok w n c"
  shows "unat i < c \<Longrightarrow> \<exists>w'. Graph_SetControl p i v w = Some w' \<and> control_changed p (unat i) (Some v) c w w'"
    and "c \<le> unat i \<Longrightarrow> Graph_SetControl p i v w = Some w"
proof -
  have le: "of_nat c \<le> i \<longleftrightarrow> c \<le> unat i" using ok le_of_nat_word by (simp add: graph_ok_def)
  show "c \<le> unat i \<Longrightarrow> Graph_SetControl p i v w = Some w"
    using le p ok by (auto simp: Graph_SetControl_def deref_def graph_ok_def)
  assume i: "unat i < c"
  let ?n = "n\<lparr>gControlRates := (gControlRates n)[unat i := 0], gMapControls := (gMapControls n)[unat i := OwnControl (unat i)],
    gControls := (gControls n)[unat i := v]\<rparr>"
  have "Graph_SetControl p i v w = Some (w\<lparr>heap := (heap w)(p \<mapsto> ?n)\<rparr>)"
    using i le p ok by (auto simp: Graph_SetControl_def deref_def graph_ok_def upd_def)
  moreover have "(gControls n)[unat i := v] ! unat i = v" using i ok by (simp add: graph_ok_def)
  ultimately show "\<exists>w'. Graph_SetControl p i v w = Some w' \<and> control_changed p (unat i) (Some v) c w w'"
    using change_entry [OF p ok i, of "OwnControl (unat i)" "(gControls n)[unat i := v]" v 0] by simp
qed

lemma set_mapping_ok:
  assumes p: "heap w p = Some n" and ok: "graph_ok w n c" and i: "unat i < c" and m: "\<And>j. m = OwnControl j \<Longrightarrow> j = unat i"
  shows "\<exists>w'. set_mapping p i r m w = Some w' \<and> control_changed p (unat i)
    (case m of OwnControl _ \<Rightarrow> Some (gControls n ! unat i) | ControlBus b \<Rightarrow> aread (mControlBus w) b | AudioBus _ \<Rightarrow> None) c w w'"
proof -
  have "set_mapping p i r m w = Some (w\<lparr>heap := (heap w)(p \<mapsto> n\<lparr>gControlRates := (gControlRates n)[unat i := r],
      gMapControls := (gMapControls n)[unat i := m], gControls := gControls n\<rparr>)\<rparr>)"
    using assms by (auto simp: set_mapping_def deref_def graph_ok_def upd_def)
  then show ?thesis using change_entry [OF p ok i m, where cs = "gControls n" and r = r] by simp
qed

lemma Graph_MapControl_ok:
  assumes p: "heap w p = Some n" and ok: "graph_ok w n c"
  shows "unat i < c \<Longrightarrow> b < mNumControlBusChannels w \<Longrightarrow> b < 0x80000000 \<Longrightarrow>
      \<exists>w'. Graph_MapControl p i b w = Some w' \<and> control_changed p (unat i) (aread (mControlBus w) (unat b)) c w w'"
    and "unat i < c \<Longrightarrow> 0x80000000 \<le> b \<Longrightarrow>
      \<exists>w'. Graph_MapControl p i b w = Some w' \<and> control_changed p (unat i) (Some (gControls n ! unat i)) c w w'"
    and "c \<le> unat i \<or> mNumControlBusChannels w \<le> b \<and> b < 0x80000000 \<Longrightarrow> Graph_MapControl p i b w = Some w"
proof -
  have le: "of_nat c \<le> i \<longleftrightarrow> c \<le> unat i" using ok le_of_nat_word by (simp add: graph_ok_def)
  have M: "Graph_MapControl p i b w =
    (if c \<le> unat i then Some w
     else if 0x80000000 \<le> b then set_mapping p i 0 (OwnControl (unat i)) w
     else if b < mNumControlBusChannels w then set_mapping p i 1 (ControlBus (unat b)) w else Some w)"
    using le p ok by (auto simp: Graph_MapControl_def deref_def graph_ok_def)
  show "\<exists>w'. Graph_MapControl p i b w = Some w' \<and> control_changed p (unat i) (aread (mControlBus w) (unat b)) c w w'"
    if "unat i < c" "b < mNumControlBusChannels w" "b < 0x80000000"
    using M that set_mapping_ok [OF p ok that(1), of "ControlBus (unat b)" 1] by (simp add: not_le [symmetric])
  show "\<exists>w'. Graph_MapControl p i b w = Some w' \<and> control_changed p (unat i) (Some (gControls n ! unat i)) c w w'"
    if "unat i < c" "0x80000000 \<le> b"
    using M that set_mapping_ok [OF p ok that(1), of "OwnControl (unat i)" 0] by simp
  show "Graph_MapControl p i b w = Some w" if "c \<le> unat i \<or> mNumControlBusChannels w \<le> b \<and> b < 0x80000000"
    using M that by (auto simp: not_le [symmetric])
qed


text \<open>A world with one synth of two controls.\<close>

definition small_def :: GraphDef where
  "small_def = \<lparr>dName = [], dHash = 0, dNumControls = 2, dInitialControlValues = [7, 8], dNumWires = 0,
     dConstants = [], dUnitSpecs = [], dNumCalcUnits = 0, dParamSpecs = [], dParamSpecTable = HashTable_new 1 True,
     dRefCount = 1, dOriginal = 5, dVariants = []\<rparr>"

definition synth_world :: World where
  "synth_world = (empty_world 2)\<lparr>heap := [1 \<mapsto> init_controls small_def (blank_node (Def 5) 1)], defs := [5 \<mapsto> small_def],
     mNumControlBusChannels := 2, mControlBus := [3, 4]\<rparr>"

lemma synth_world_ok: "heap synth_world 1 = Some (init_controls small_def (blank_node (Def 5) 1))"
  "graph_ok synth_world (init_controls small_def (blank_node (Def 5) 1)) 2"
  by (auto simp: synth_world_def graph_ok_def GRAPHDEF_def init_controls_def blank_node_def small_def_def empty_world_def
    less_2_cases_iff upt_rec)


section \<open>The synths below a node\<close>

text \<open>
  An operation that a group passes on reaches each synth below the group once, in the order in which
  they run, as long as the operation itself leaves the links alone.
\<close>

definition links_of :: "Node \<Rightarrow> i32 \<times> ptr option \<times> ptr option \<times> bool" where
  "links_of n = (mID n, mNext n, mHead n, mIsGroup n)"

definition same_links :: "(ptr \<Rightarrow> Node option) \<Rightarrow> (ptr \<Rightarrow> Node option) \<Rightarrow> bool" where
  "same_links h h' \<longleftrightarrow> (\<forall>q. map_option links_of (h' q) = map_option links_of (h q))"

definition keeps_links :: "(ptr \<Rightarrow> World \<Rightarrow> World option) \<Rightarrow> bool" where
  "keeps_links f \<longleftrightarrow> (\<forall>p w w'. f p w = Some w' \<longrightarrow> same_links (heap w) (heap w'))"

lemma same_links_Some:
  "same_links h h' \<Longrightarrow> h p = Some n \<Longrightarrow> \<exists>n'. h' p = Some n' \<and> mID n' = mID n \<and> mNext n' = mNext n \<and> mHead n' = mHead n \<and> mIsGroup n' = mIsGroup n"
  unfolding same_links_def by (drule spec [of _ p]) (auto simp: links_of_def)

lemma same_links_trans: "same_links h h' \<Longrightarrow> same_links h' h'' \<Longrightarrow> same_links h h''"
  by (simp add: same_links_def)

lemma same_links_refl [simp]: "same_links h h"
  by (simp add: same_links_def)

lemma same_links_sub_ok:
  "sub_ok h t \<Longrightarrow> same_links h h' \<Longrightarrow> sub_ok h' t"
  "chain_ok h ts \<Longrightarrow> same_links h h' \<Longrightarrow> chain_ok h' ts"
proof (induction h t and h ts rule: sub_ok_chain_ok.induct)
  case (1 h p ts)
  then obtain nd where nd: "h p = Some nd" "mID nd \<noteq> 0"
    "if mIsGroup nd then mHead nd = first_of (List.map nroot ts) else ts = []" "chain_ok h ts" by auto
  then obtain nd' where "h' p = Some nd'" "mID nd' = mID nd" "mHead nd' = mHead nd" "mIsGroup nd' = mIsGroup nd"
    using same_links_Some [OF 1(3)] by blast
  then show ?case using nd 1 by simp
next
  case (3 h t ts)
  then obtain nd where nd: "h (nroot t) = Some nd" "mNext nd = first_of (List.map nroot ts)" "sub_ok h t" "chain_ok h ts" by auto
  then obtain nd' where "h' (nroot t) = Some nd'" "mNext nd' = mNext nd"
    using same_links_Some [OF 3(4)] by blast
  then show ?case using nd 3 by simp
qed simp

fun each_of :: "(ptr \<Rightarrow> World \<Rightarrow> World option) \<Rightarrow> ptr list \<Rightarrow> World \<Rightarrow> World option" where
  "each_of f [] w = Some w"
| "each_of f (p # ps) w = do { w \<leftarrow> f p w; each_of f ps w }"

lemma each_of_Nil [simp]: "each_of f [] = Some"
  by (simp add: fun_eq_iff)

lemma each_of_single [simp]: "each_of f [p] = f p"
  by (simp add: fun_eq_iff)

lemma each_of_append: "each_of f (ps @ qs) w = each_of f ps w \<bind> each_of f qs"
  by (induction ps arbitrary: w) (auto split: bind_split)

lemma each_of_links: "keeps_links f \<Longrightarrow> each_of f ps w = Some w' \<Longrightarrow> same_links (heap w) (heap w')"
  by (induction ps arbitrary: w) (simp, simp add: bind_Some_iff keeps_links_def, meson same_links_trans)

definition is_synth :: "(ptr \<Rightarrow> Node option) \<Rightarrow> ptr \<Rightarrow> bool" where
  "is_synth h p = (case h p of None \<Rightarrow> False | Some n \<Rightarrow> \<not> mIsGroup n)"

lemma is_synth_links: "same_links h h' \<Longrightarrow> is_synth h' = is_synth h"
proof
  fix p assume "same_links h h'"
  then have "map_option links_of (h' p) = map_option links_of (h p)" by (simp add: same_links_def)
  then show "is_synth h' p = is_synth h p" by (cases "h p"; cases "h' p") (auto simp: is_synth_def links_of_def)
qed

abbreviation synths :: "World \<Rightarrow> ptr list \<Rightarrow> ptr list" where
  "synths w ps \<equiv> filter (is_synth (heap w)) ps"

lemma children_each_forest:
  assumes f: "keeps_links f" and each: "\<And>t k w. t \<in> set ts \<Longrightarrow> sub_ok (heap w) t \<Longrightarrow> fuel_of t \<le> k
      \<Longrightarrow> Node_each k f (nroot t) w = each_of f (synths w (nodes t)) w"
  shows "chain_ok (heap w) ts \<Longrightarrow> 1 + sum_list (List.map fuel_of ts) \<le> k
      \<Longrightarrow> children_each k f (first_of (List.map nroot ts)) w = each_of f (synths w (forest_nodes ts)) w"
  using each
proof (induction ts arbitrary: w k)
  case Nil
  then show ?case by (cases k) simp_all
next
  case (Cons t ts)
  obtain k' where k: "k = Suc k'" using Cons.prems(2) by (cases k) auto
  obtain nd where nd: "heap w (nroot t) = Some nd" "mNext nd = first_of (List.map nroot ts)" "sub_ok (heap w) t" "chain_ok (heap w) ts"
    using Cons.prems(1) by auto
  have "4 \<le> fuel_of t" by (cases t) simp
  then have ft: "fuel_of t \<le> k'" "1 + sum_list (List.map fuel_of ts) \<le> k'" using Cons.prems(2) k by simp_all
  have one: "Node_each k' f (nroot t) w = each_of f (synths w (nodes t)) w" using Cons.prems(3) nd(3) ft(1) by simp
  have rest: "children_each k' f (first_of (List.map nroot ts)) w1 = each_of f (synths w (forest_nodes ts)) w1"
    if w1: "each_of f (synths w (nodes t)) w = Some w1" for w1
  proof -
    have l: "same_links (heap w) (heap w1)" by (rule each_of_links [OF f w1])
    have "synths w1 (forest_nodes ts) = synths w (forest_nodes ts)" by (simp only: is_synth_links [OF l])
    moreover have "children_each k' f (first_of (List.map nroot ts)) w1 = each_of f (synths w1 (forest_nodes ts)) w1"
      by (rule Cons.IH [OF same_links_sub_ok(2) [OF nd(4) l] ft(2)]) (rule Cons.prems(3), simp_all)
    ultimately show ?thesis by simp
  qed
  have "children_each k f (first_of (List.map nroot (t # ts))) w
    = Node_each k' f (nroot t) w \<bind> children_each k' f (first_of (List.map nroot ts))"
    using nd(1,2) by (simp add: k deref_def)
  also have "\<dots> = each_of f (synths w (nodes t)) w \<bind> each_of f (synths w (forest_nodes ts))"
    unfolding one using rest by (cases "each_of f (synths w (nodes t)) w") (simp_all only: Option.bind.simps)
  also have "\<dots> = each_of f (synths w (forest_nodes (t # ts))) w" by (simp add: each_of_append)
  finally show ?case .
qed

lemma Node_each_tree:
  assumes f: "keeps_links f"
  shows "sub_ok (heap w) t \<Longrightarrow> fuel_of t \<le> k \<Longrightarrow> Node_each k f (nroot t) w = each_of f (synths w (nodes t)) w"
proof (induction t arbitrary: w k)
  case (NT p ts)
  obtain k' where k: "k = Suc (Suc k')" using NT.prems(2) by (cases k rule: nat.exhaust; cases "k - 1") auto
  obtain nd where nd: "heap w p = Some nd" "if mIsGroup nd then mHead nd = first_of (List.map nroot ts) else ts = []"
    and c: "chain_ok (heap w) ts" using NT.prems(1) by auto
  have fu: "1 + sum_list (List.map fuel_of ts) \<le> k'" using NT.prems(2) k by simp
  have "children_each k' f (first_of (List.map nroot ts)) w = each_of f (synths w (forest_nodes ts)) w"
    by (rule children_each_forest [OF f NT.IH c fu])
  moreover have "is_synth (heap w) p \<longleftrightarrow> \<not> mIsGroup nd" using nd(1) by (simp add: is_synth_def)
  ultimately show ?case using k nd by (cases "mIsGroup nd") (simp_all add: deref_def)
qed

lemma same_links_upd:
  "upd p g w = Some w' \<Longrightarrow> (\<And>n. heap w p = Some n \<Longrightarrow> links_of (g n) = links_of n) \<Longrightarrow> same_links (heap w) (heap w')"
  by (auto simp: upd_def same_links_def split: option.splits)

lemma keeps_set [intro]: "keeps_links (\<lambda>g. Graph_SetControl g i v)"
  unfolding keeps_links_def Graph_SetControl_def
  by (auto simp: bind_Some_iff links_of_def split: if_splits elim!: same_links_upd)

lemma keeps_set_mapping: "set_mapping p i r c w = Some w' \<Longrightarrow> same_links (heap w) (heap w')"
  unfolding set_mapping_def by (auto simp: bind_Some_iff links_of_def elim!: same_links_upd)

lemma keeps_map [intro]: "keeps_links (\<lambda>g. Graph_MapControl g i b)"
  and keeps_map_audio [intro]: "keeps_links (\<lambda>g. Graph_MapAudioControl g i b)"
  unfolding keeps_links_def Graph_MapControl_def Graph_MapAudioControl_def
  by (auto simp: bind_Some_iff split: if_splits elim!: keeps_set_mapping)

lemma keeps_with_param:
  assumes "\<And>sp. keeps_links (\<lambda>g. f g sp)"
  shows "keeps_links (\<lambda>g. with_param g h nm (f g))"
  using assms unfolding keeps_links_def with_param_def by (auto simp: bind_Some_iff split: option.splits)

lemma Node_control_each:
  "Node_SetControl k p i v w = Node_each (Suc k) (\<lambda>g. Graph_SetControl g i v) p w"
  "Node_SetControl_named k p h nm i v w = Node_each (Suc k) (\<lambda>g. Graph_SetControl_named g h nm i v) p w"
  "Node_MapControl k p i b w = Node_each (Suc k) (\<lambda>g. Graph_MapControl g i b) p w"
  "Node_MapControl_named k p h nm i b w = Node_each (Suc k) (\<lambda>g. Graph_MapControl_named g h nm i b) p w"
  "Node_MapAudioControl k p i b w = Node_each (Suc k) (\<lambda>g. Graph_MapAudioControl g i b) p w"
  "Node_MapAudioControl_named k p h nm i b w = Node_each (Suc k) (\<lambda>g. Graph_MapAudioControl_named g h nm i b) p w"
  by (simp_all cong: if_cong add: Node_SetControl_def Node_SetControl_named_def Node_MapControl_def Node_MapControl_named_def
    Node_MapAudioControl_def Node_MapAudioControl_named_def Group_SetControl_def Group_SetControl_named_def Group_MapControl_def
    Group_MapControl_named_def Group_MapAudioControl_def Group_MapAudioControl_named_def)

lemma keeps_named [intro]:
  "keeps_links (\<lambda>g. Graph_SetControl_named g h nm i v)" "keeps_links (\<lambda>g. Graph_MapControl_named g h nm i b)"
  "keeps_links (\<lambda>g. Graph_MapAudioControl_named g h nm i b)"
  unfolding Graph_SetControl_named_def Graph_MapControl_named_def Graph_MapAudioControl_named_def
  by (rule keeps_with_param, blast)+

text \<open>
  C23: the control messages of a node reach the synths below it: with four units of fuel for each
  node of the subtree, setting, mapping and audio-mapping, by index and by name, applied to a node
  is the same operation on each synth of the node's subtree, once each and in the order in which
  they run, and on nothing else.
\<close>

theorem group_controls_reach_synths:
  assumes tree: "tree_ok (heap w) K" and t: "subtree K t" "positive_ids (heap w) t" and k: "4 * length (nodes t) \<le> k"
  shows "Node_SetControl k (nroot t) i v w = each_of (\<lambda>g. Graph_SetControl g i v) (synths w (nodes t)) w
    \<and> Node_SetControl_named k (nroot t) h nm i v w = each_of (\<lambda>g. Graph_SetControl_named g h nm i v) (synths w (nodes t)) w
    \<and> Node_MapControl k (nroot t) i b w = each_of (\<lambda>g. Graph_MapControl g i b) (synths w (nodes t)) w
    \<and> Node_MapControl_named k (nroot t) h nm i b w = each_of (\<lambda>g. Graph_MapControl_named g h nm i b) (synths w (nodes t)) w
    \<and> Node_MapAudioControl k (nroot t) i b w = each_of (\<lambda>g. Graph_MapAudioControl g i b) (synths w (nodes t)) w
    \<and> Node_MapAudioControl_named k (nroot t) h nm i b w = each_of (\<lambda>g. Graph_MapAudioControl_named g h nm i b) (synths w (nodes t)) w"
proof -
  have sub: "sub_ok (heap w) t" using sub_ok_from_tree [OF tree _ t(2)] t(1) by (simp add: subtree_def)
  have fu: "fuel_of t \<le> Suc k" using k by (simp add: fuel_of_nodes)
  show ?thesis unfolding Node_control_each by (intro conjI Node_each_tree [OF _ sub fu]) blast+
qed

text \<open>Setting a control of several synths.\<close>

lemma Graph_SetControl_frame: "Graph_SetControl p i v w = Some w' \<Longrightarrow> \<exists>h. w' = w\<lparr>heap := h\<rparr>"
proof -
  have self: "\<exists>h. w = w\<lparr>heap := h\<rparr>" by (rule exI [of _ "heap w"]) simp
  show "Graph_SetControl p i v w = Some w' \<Longrightarrow> \<exists>h. w' = w\<lparr>heap := h\<rparr>"
    using self by (auto simp: Graph_SetControl_def bind_Some_iff upd_def split: if_splits option.splits)
qed

lemma control_reads_cong: "heap w p = heap w' p \<Longrightarrow> mControlBus w = mControlBus w' \<Longrightarrow> control_reads w p k = control_reads w' p k"
  unfolding control_reads_def by (erule ssubst)+ (rule refl)

lemma graph_ok_frame [simp]: "graph_ok (w\<lparr>heap := h\<rparr>) n c = graph_ok w n c"
  by (cases "mDef n") (simp_all add: graph_ok_def GRAPHDEF_def)

lemma each_of_set:
  "distinct ps \<Longrightarrow> \<forall>p \<in> set ps. \<exists>n c. heap w p = Some n \<and> graph_ok w n c \<and> unat i < c \<Longrightarrow>
    \<exists>h. each_of (\<lambda>g. Graph_SetControl g i v) ps w = Some (w\<lparr>heap := h\<rparr>)
      \<and> (\<forall>p \<in> set ps. control_reads (w\<lparr>heap := h\<rparr>) p (unat i) = Some v) \<and> (\<forall>q. q \<notin> set ps \<longrightarrow> h q = heap w q)"
proof (induction ps arbitrary: w)
  case Nil
  then show ?case by (intro exI [of _ "heap w"]) simp
next
  case (Cons p ps)
  obtain n c where n: "heap w p = Some n" "graph_ok w n c" "unat i < c" using Cons.prems(2) by auto
  obtain w1 where w1: "Graph_SetControl p i v w = Some w1" "control_changed p (unat i) (Some v) c w w1"
    using Graph_SetControl_ok(1) [OF n] by blast
  obtain h1 where h1: "w1 = w\<lparr>heap := h1\<rparr>" using Graph_SetControl_frame [OF w1(1)] by blast
  have same: "q \<noteq> p \<Longrightarrow> h1 q = heap w q" for q using w1(2) h1 by (auto simp: control_changed_def)
  have p: "p \<notin> set ps" "distinct ps" using Cons.prems(1) by simp_all
  have "\<forall>q \<in> set ps. \<exists>n c. heap w1 q = Some n \<and> graph_ok w1 n c \<and> unat i < c"
  proof
    fix q assume q: "q \<in> set ps"
    then have "heap w1 q = heap w q" using same [of q] p(1) h1 by auto
    then show "\<exists>n c. heap w1 q = Some n \<and> graph_ok w1 n c \<and> unat i < c" using Cons.prems(2) q h1 by simp
  qed
  then obtain h where h: "each_of (\<lambda>g. Graph_SetControl g i v) ps w1 = Some (w1\<lparr>heap := h\<rparr>)"
    "\<forall>p \<in> set ps. control_reads (w1\<lparr>heap := h\<rparr>) p (unat i) = Some v" "\<forall>q. q \<notin> set ps \<longrightarrow> h q = heap w1 q"
    using Cons.IH [OF p(2)] by blast
  have "h p = h1 p" using h(3) p(1) h1 by simp
  then have "control_reads (w\<lparr>heap := h\<rparr>) p (unat i) = control_reads w1 p (unat i)"
    unfolding h1 by (intro control_reads_cong) simp_all
  then have "control_reads (w\<lparr>heap := h\<rparr>) p (unat i) = Some v" using w1(2) by (simp add: control_changed_def)
  then show ?case using w1(1) h same h1 by (intro exI [of _ h]) auto
qed

text \<open>
  Setting a control on a group sets it in every synth below: when every synth of the subtree has
  the control, the operation returns, every one of those synths then reads the value, and every
  other node of the engine is as it was.
\<close>

theorem set_control_on_group:
  assumes tree: "tree_ok (heap w) K" and t: "subtree K t" "positive_ids (heap w) t" and k: "4 * length (nodes t) \<le> k"
    and synth: "\<And>p. p \<in> set (synths w (nodes t)) \<Longrightarrow> \<exists>n c. heap w p = Some n \<and> graph_ok w n c \<and> unat i < c"
  shows "\<exists>w'. Node_SetControl k (nroot t) i v w = Some w'
    \<and> (\<forall>p \<in> set (synths w (nodes t)). control_reads w' p (unat i) = Some v)
    \<and> (\<forall>q. q \<notin> set (synths w (nodes t)) \<longrightarrow> heap w' q = heap w q)"
proof -
  have sub: "sub_ok (heap w) t" using sub_ok_from_tree [OF tree _ t(2)] t(1) by (simp add: subtree_def)
  have fu: "fuel_of t \<le> Suc k" using k by (simp add: fuel_of_nodes)
  have "distinct (synths w (nodes t))" using t(1) by (simp add: subtree_def)
  then obtain h where h: "each_of (\<lambda>g. Graph_SetControl g i v) (synths w (nodes t)) w = Some (w\<lparr>heap := h\<rparr>)"
    "\<forall>p \<in> set (synths w (nodes t)). control_reads (w\<lparr>heap := h\<rparr>) p (unat i) = Some v" "\<forall>q. q \<notin> set (synths w (nodes t)) \<longrightarrow> h q = heap w q"
    using each_of_set [of "synths w (nodes t)" w i v] synth by blast
  have "Node_SetControl k (nroot t) i v w = Some (w\<lparr>heap := h\<rparr>)"
    unfolding Node_control_each using Node_each_tree [OF keeps_set sub fu] h(1) by simp
  then show ?thesis using h(2,3) by (intro exI [of _ "w\<lparr>heap := h\<rparr>"]) simp
qed

text \<open>A group 2 with two synths, 1 and 3, with two controls each.\<close>

definition small_synth :: "i32 \<Rightarrow> Node" where
  "small_synth ident = init_controls small_def (blank_node (Def 5) ident)"

definition group_world :: World where
  "group_world = synth_world\<lparr>heap := [2 \<mapsto> (blank_group 2)\<lparr>mHead := Some 1, mTail := Some 3\<rparr>,
     1 \<mapsto> (small_synth 1)\<lparr>mParent := Some 2, mNext := Some 3\<rparr>, 3 \<mapsto> (small_synth 3)\<lparr>mParent := Some 2, mPrev := Some 1\<rparr>]\<rparr>"

lemma group_world_ok: "tree_ok (heap group_world) ((\<lambda>_. [])(2 := [1, 3]))" "subtree ((\<lambda>_. [])(2 := [1, 3])) (NT 2 [NT 1 [], NT 3 []])"
  "positive_ids (heap group_world) (NT 2 [NT 1 [], NT 3 []])" "synths group_world (nodes (NT 2 [NT 1 [], NT 3 []])) = [1, 3]"
  "p \<in> {1, 3} \<Longrightarrow> \<exists>n. heap group_world p = Some n \<and> graph_ok group_world n 2"
proof -
  note d = group_world_def small_synth_def init_controls_def blank_node_def blank_group_def
  show "tree_ok (heap group_world) ((\<lambda>_. [])(2 := [1, 3]))"
    by (auto simp: tree_ok_def links_ok_def kids_ok_def d prev_of_def last_of_def first_of_def split: if_splits)
  show "subtree ((\<lambda>_. [])(2 := [1, 3])) (NT 2 [NT 1 [], NT 3 []])" by (simp add: subtree_def)
  show "positive_ids (heap group_world) (NT 2 [NT 1 [], NT 3 []])" by (simp add: positive_ids_def d)
  show "synths group_world (nodes (NT 2 [NT 1 [], NT 3 []])) = [1, 3]" by (simp add: is_synth_def d)
  show "p \<in> {1, 3} \<Longrightarrow> \<exists>n. heap group_world p = Some n \<and> graph_ok group_world n 2"
    by (auto simp: d graph_ok_def GRAPHDEF_def synth_world_def small_def_def less_2_cases_iff upt_rec)
qed

theorem group_controls_reach_synths_witness:
  "Node_SetControl 12 2 0 9 group_world = (do { w \<leftarrow> Graph_SetControl 1 0 9 group_world; Graph_SetControl 3 0 9 w })"
  using group_controls_reach_synths [OF group_world_ok(1-3), of 12 0 9] unfolding group_world_ok(4) by simp

theorem set_control_on_group_witness:
  "\<exists>w'. Node_SetControl 12 2 1 9 group_world = Some w' \<and> control_reads w' 1 1 = Some 9 \<and> control_reads w' 3 1 = Some 9"
proof -
  have "\<exists>n c. heap group_world p = Some n \<and> graph_ok group_world n c \<and> unat (1 :: u32) < c" if "p \<in> {1, 3}" for p
    using group_world_ok(5) [OF that] by fastforce
  then show ?thesis
    using set_control_on_group [OF group_world_ok(1-3), of 12 1 9] unfolding group_world_ok(4) by auto
qed

end
