(* ===== verification/SC_Calc.thy ===== *)
theory SC_Calc
  imports SC_Controls
begin

text \<open>
  The calculation of one block: \<open>World_Run\<close> of \<open>SC_World.cpp\<close>, the calculation functions of groups
  (\<open>SC_Group.cpp\<close>) and synths (\<open>SC_Graph.cpp\<close>) with their tracing and dumping variants.

  What plug-ins do when the constructor or the calculation function of a unit is called is the
  parameter \<open>plug\<close>; the call itself is recorded in \<open>unit_log\<close>. Printing is left out, except for the
  table of control names that is built for it.
\<close>

section \<open>Synths\<close>

type_synonym plug = "unit_event \<Rightarrow> World \<Rightarrow> World option"

definition unit_call :: "plug \<Rightarrow> unit_event \<Rightarrow> World \<Rightarrow> World option" where
  "unit_call plug e w = plug e (w\<lparr>unit_log := unit_log w @ [e]\<rparr>)"

text \<open>The pointers to the units are in the memory of the synth.\<close>

definition Graph_Calc_unit :: "plug \<Rightarrow> ptr \<Rightarrow> nat \<Rightarrow> World \<Rightarrow> World option" where
  "Graph_Calc_unit plug p i w = do {
     n \<leftarrow> deref w p;
     u \<leftarrow> aread (gCalcUnits n) i;
     unit_call plug (Unit_Calc p u) w }"

fun calc_run :: "plug \<Rightarrow> ptr \<Rightarrow> nat list \<Rightarrow> World \<Rightarrow> World option" where
  "calc_run plug p [] w = Some w"
| "calc_run plug p (i # is') w = do { w \<leftarrow> Graph_Calc_unit plug p i w; calc_run plug p is' w }"

fun calc_unroll8 :: "plug \<Rightarrow> ptr \<Rightarrow> nat \<Rightarrow> nat \<Rightarrow> World \<Rightarrow> World option" where
  "calc_unroll8 plug p i 0 w = Some w"
| "calc_unroll8 plug p i (Suc j) w = do {
     w \<leftarrow> calc_run plug p [i, i + 1, i + 2, i + 3, i + 4, i + 5, i + 6, i + 7] w;
     calc_unroll8 plug p (i + 8) j w }"

definition Graph_Calc :: "plug \<Rightarrow> ptr \<Rightarrow> World \<Rightarrow> World option" where
  "Graph_Calc plug p w = do {
     n \<leftarrow> deref w p;
     let unroll8 = gNumCalcUnits n div 8;
     let remain8 = gNumCalcUnits n mod 8;
     w \<leftarrow> calc_unroll8 plug p 0 unroll8 w;
     let i = 8 * unroll8;
     let unroll4 = remain8 div 4;
     let remain4 = remain8 mod 4;
     w \<leftarrow> (if unroll4 \<noteq> 0 then calc_run plug p [i, i + 1, i + 2, i + 3] w else Some w);
     let i = (if unroll4 \<noteq> 0 then i + 4 else i);
     let unroll2 = remain4 div 2;
     let remain2 = remain4 mod 2;
     w \<leftarrow> (if unroll2 \<noteq> 0 then calc_run plug p [i, i + 1] w else Some w);
     let i = (if unroll2 \<noteq> 0 then i + 2 else i);
     if remain2 \<noteq> 0 then Graph_Calc_unit plug p i w else Some w }"

definition Graph_CalcTrace :: "plug \<Rightarrow> ptr \<Rightarrow> World \<Rightarrow> World option" where
  "Graph_CalcTrace plug p w = do {
     n \<leftarrow> deref w p;
     w \<leftarrow> calc_run plug p [0..<gNumCalcUnits n] w;
     set_calc p Cf_Graph_Calc w }"

fun call_ctors :: "plug \<Rightarrow> ptr \<Rightarrow> nat list \<Rightarrow> World \<Rightarrow> World option" where
  "call_ctors plug p [] w = Some w"
| "call_ctors plug p (i # is') w = do { w \<leftarrow> unit_call plug (Unit_Ctor p i) w; call_ctors plug p is' w }"

definition Graph_FirstCalc :: "plug \<Rightarrow> ptr \<Rightarrow> World \<Rightarrow> World option" where
  "Graph_FirstCalc plug p w = do {
     n \<leftarrow> deref w p;
     w \<leftarrow> call_ctors plug p [0..<gNumUnits n] w;
     w \<leftarrow> set_calc p Cf_Graph_Calc w;
     Graph_Calc plug p w }"

definition Graph_NullFirstCalc :: "plug \<Rightarrow> ptr \<Rightarrow> World \<Rightarrow> World option" where
  "Graph_NullFirstCalc plug p w = do {
     n \<leftarrow> deref w p;
     w \<leftarrow> call_ctors plug p [0..<gNumUnits n] w;
     set_calc p Cf_Node_NullCalc w }"

section \<open>Asking for a trace or a dump\<close>

text \<open>Takes effect in the next block, and only on a node that runs normally.\<close>

definition switch_calc :: "NodeCalcFunc \<Rightarrow> NodeCalcFunc \<Rightarrow> ptr \<Rightarrow> World \<Rightarrow> World option" where
  "switch_calc from to p w = do { n \<leftarrow> deref w p; if mCalcFunc n = from then set_calc p to w else Some w }"

definition Group_Trace :: "ptr \<Rightarrow> World \<Rightarrow> World option" where
  "Group_Trace p w = switch_calc Cf_Group_Calc Cf_Group_CalcTrace p w"
definition Group_DumpTree :: "ptr \<Rightarrow> World \<Rightarrow> World option" where
  "Group_DumpTree p w = switch_calc Cf_Group_Calc Cf_Group_CalcDumpTree p w"
definition Group_DumpTreeAndControls :: "ptr \<Rightarrow> World \<Rightarrow> World option" where
  "Group_DumpTreeAndControls p w = switch_calc Cf_Group_Calc Cf_Group_CalcDumpTreeAndControls p w"
definition Graph_Trace :: "ptr \<Rightarrow> World \<Rightarrow> World option" where
  "Graph_Trace p w = switch_calc Cf_Graph_Calc Cf_Graph_CalcTrace p w"
definition Node_Trace :: "ptr \<Rightarrow> World \<Rightarrow> World option" where
  "Node_Trace p w = do { n \<leftarrow> deref w p; if mIsGroup n then Group_Trace p w else Graph_Trace p w }"

text \<open>The names of the controls by index, as the dump of a synth collects them.\<close>

fun stash :: "ParamSpec list \<Rightarrow> i32 list option list \<Rightarrow> i32 list option list option" where
  "stash [] names = Some names"
| "stash (sp # sps) names = do { names \<leftarrow> awrite names (psIndex sp) (Some (psName sp)); stash sps names }"

definition stash_names :: "GraphDef \<Rightarrow> nat \<Rightarrow> i32 list option list option" where
  "stash_names d numControls = stash (dParamSpecs d) (replicate numControls None)"

section \<open>Groups\<close>

text \<open>
  The loop over the children: \<open>before\<close> is done to each child before its calculation function \<open>calc\<close> is
  called. The next child is read before both.
\<close>

fun calc_children :: "nat \<Rightarrow> (ptr \<Rightarrow> World \<Rightarrow> World option) \<Rightarrow> (ptr \<Rightarrow> World \<Rightarrow> World option) \<Rightarrow> ptr option \<Rightarrow> World \<Rightarrow> World option" where
  "calc_children 0 before calc child w = None"
| "calc_children (Suc k) before calc None w = Some w"
| "calc_children (Suc k) before calc (Some child) w = do {
     c \<leftarrow> deref w child;
     w \<leftarrow> before child w;
     w \<leftarrow> calc child w;
     calc_children k before calc (mNext c) w }"

definition Group_Calc :: "nat \<Rightarrow> (ptr \<Rightarrow> World \<Rightarrow> World option) \<Rightarrow> ptr \<Rightarrow> World \<Rightarrow> World option" where
  "Group_Calc k calc p w = do { g \<leftarrow> deref w p; calc_children k (\<lambda>_. Some) calc (mHead g) w }"

definition Group_CalcTrace :: "nat \<Rightarrow> (ptr \<Rightarrow> World \<Rightarrow> World option) \<Rightarrow> ptr \<Rightarrow> World \<Rightarrow> World option" where
  "Group_CalcTrace k calc p w = do {
     g \<leftarrow> deref w p;
     w \<leftarrow> calc_children k (\<lambda>_. Some) calc (mHead g) w;
     set_calc p Cf_Group_Calc w }"

definition dump_child :: "ptr \<Rightarrow> World \<Rightarrow> World option" where
  "dump_child child w = do { c \<leftarrow> deref w child; if mIsGroup c then Group_DumpTree child w else Some w }"

definition Group_DumpNodeTree :: "nat \<Rightarrow> (ptr \<Rightarrow> World \<Rightarrow> World option) \<Rightarrow> ptr \<Rightarrow> World \<Rightarrow> World option" where
  "Group_DumpNodeTree k calc p w = do { g \<leftarrow> deref w p; calc_children k dump_child calc (mHead g) w }"

definition Group_CalcDumpTree :: "nat \<Rightarrow> (ptr \<Rightarrow> World \<Rightarrow> World option) \<Rightarrow> ptr \<Rightarrow> World \<Rightarrow> World option" where
  "Group_CalcDumpTree k calc p w = do { w \<leftarrow> Group_DumpNodeTree k calc p w; set_calc p Cf_Group_Calc w }"

definition dump_child_controls :: "ptr \<Rightarrow> World \<Rightarrow> World option" where
  "dump_child_controls child w = do {
     c \<leftarrow> deref w child;
     if mIsGroup c then Group_DumpTreeAndControls child w
     else if gNumControls c > 0 then do { d \<leftarrow> GRAPHDEF w c; _ \<leftarrow> stash_names d (gNumControls c); Some w }
     else Some w }"

definition Group_DumpNodeTreeAndControls :: "nat \<Rightarrow> (ptr \<Rightarrow> World \<Rightarrow> World option) \<Rightarrow> ptr \<Rightarrow> World \<Rightarrow> World option" where
  "Group_DumpNodeTreeAndControls k calc p w = do { g \<leftarrow> deref w p; calc_children k dump_child_controls calc (mHead g) w }"

definition Group_CalcDumpTreeAndControls :: "nat \<Rightarrow> (ptr \<Rightarrow> World \<Rightarrow> World option) \<Rightarrow> ptr \<Rightarrow> World \<Rightarrow> World option" where
  "Group_CalcDumpTreeAndControls k calc p w = do {
     w \<leftarrow> Group_DumpNodeTreeAndControls k calc p w;
     set_calc p Cf_Group_Calc w }"

section \<open>Any node\<close>

text \<open>The call through \<open>mCalcFunc\<close>.\<close>

fun Node_Calc :: "nat \<Rightarrow> plug \<Rightarrow> ptr \<Rightarrow> World \<Rightarrow> World option" where
  "Node_Calc 0 plug p w = None"
| "Node_Calc (Suc k) plug p w = do {
     n \<leftarrow> deref w p;
     (case mCalcFunc n of
        Cf_uninit \<Rightarrow> None
      | Cf_Node_NullCalc \<Rightarrow> Some w
      | Cf_Node_Delete \<Rightarrow> Node_Delete k p w
      | Cf_Group_Calc \<Rightarrow> Group_Calc k (Node_Calc k plug) p w
      | Cf_Group_CalcTrace \<Rightarrow> Group_CalcTrace k (Node_Calc k plug) p w
      | Cf_Group_CalcDumpTree \<Rightarrow> Group_CalcDumpTree k (Node_Calc k plug) p w
      | Cf_Group_CalcDumpTreeAndControls \<Rightarrow> Group_CalcDumpTreeAndControls k (Node_Calc k plug) p w
      | Cf_Graph_Calc \<Rightarrow> Graph_Calc plug p w
      | Cf_Graph_FirstCalc \<Rightarrow> Graph_FirstCalc plug p w
      | Cf_Graph_NullFirstCalc \<Rightarrow> Graph_NullFirstCalc plug p w
      | Cf_Graph_CalcTrace \<Rightarrow> Graph_CalcTrace plug p w) }"

definition World_Run :: "nat \<Rightarrow> plug \<Rightarrow> World \<Rightarrow> World option" where
  "World_Run k plug w = Node_Calc k plug (mTopGroup w) w"

section \<open>The unrolled loop\<close>

lemma calc_run_Nil [simp]: "calc_run plug p [] = Some"
  by (simp add: fun_eq_iff)

lemma calc_run_append: "calc_run plug p (is' @ js) w = calc_run plug p is' w \<bind> calc_run plug p js"
  by (induction is' arbitrary: w) (auto split: bind_split)

lemma calc_run_parts: "calc_run plug p (is' @ js) = (\<lambda>w. calc_run plug p is' w \<bind> calc_run plug p js)"
  "calc_run plug p (if q then is' else []) = (\<lambda>w. if q then calc_run plug p is' w else Some w)"
  by (simp_all add: calc_run_append fun_eq_iff)

lemma upt_chunks: "[a..<a + 8] = [a, a + 1, a + 2, a + 3, a + 4, a + 5, a + 6, a + 7]" "[a..<a + 4] = [a, a + 1, a + 2, a + 3]"
  "[a..<a + 2] = [a, a + 1]" "[a..<a + 1] = [a]"
  by (simp_all add: upt_conv_Cons)

lemma upt_split: "i \<le> j \<Longrightarrow> j \<le> k \<Longrightarrow> [i..<k] = [i..<j] @ [j..<k]"
  using upt_add_eq_append [of i j "k - j"] by simp

lemma calc_unroll8_run: "calc_unroll8 plug p i j w = calc_run plug p [i..<i + 8 * j] w"
proof (induction j arbitrary: i w)
  case (Suc j)
  have "[i..<i + 8 * Suc j] = [i, i + 1, i + 2, i + 3, i + 4, i + 5, i + 6, i + 7] @ [i + 8..<(i + 8) + 8 * j]"
    unfolding upt_chunks(1) [symmetric] using upt_split [of i "i + 8" "i + 8 * Suc j"] by (simp add: ac_simps)
  moreover have "calc_unroll8 plug p (i + 8) j = calc_run plug p [i + 8..<(i + 8) + 8 * j]" by (rule ext) (rule Suc.IH)
  ultimately show ?case by (simp only: calc_unroll8.simps calc_run_append)
qed simp

text \<open>
  C28: the calculation of a synth, unrolled by eight, four and two, calls its calculation units once
  each, in their order, whatever their number.
\<close>

theorem Graph_Calc_unrolled:
  "Graph_Calc plug p w = do { n \<leftarrow> deref w p; calc_run plug p [0..<gNumCalcUnits n] w }"
proof (cases "deref w p")
  case (Some n)
  define m where "m = gNumCalcUnits n"
  define r where "r = m mod 8"
  define a where "a = 8 * (m div 8)"
  define b where "b = (if r div 4 \<noteq> 0 then a + 4 else a)"
  define c where "c = (if r mod 4 div 2 \<noteq> 0 then b + 2 else b)"
  have r: "m = a + r" "r = 4 * (r div 4) + 2 * (r mod 4 div 2) + r mod 4 mod 2" "r div 4 \<le> 1" "r mod 4 div 2 \<le> 1" "r mod 4 mod 2 \<le> 1"
  proof -
    have "r < 8" by (simp add: r_def)
    then show "r div 4 \<le> 1" "r mod 4 div 2 \<le> 1" "r mod 4 mod 2 \<le> 1" by linarith+
    show "m = a + r" by (simp add: a_def r_def)
    have "4 * (r div 4) + r mod 4 = r" "2 * (r mod 4 div 2) + r mod 4 mod 2 = r mod 4" by (rule mult_div_mod_eq)+
    then show "r = 4 * (r div 4) + 2 * (r mod 4 div 2) + r mod 4 mod 2" by linarith
  qed
  have b: "b = a + 4 * (r div 4)" using r(3) by (cases "r div 4") (simp_all add: b_def)
  have c: "c = b + 2 * (r mod 4 div 2)" using r(4) by (cases "r mod 4 div 2") (simp_all add: c_def)
  have m: "m = c + r mod 4 mod 2" using r(1,2) b c by linarith
  have "[0..<m] = [0..<a] @ [a..<b] @ [b..<c] @ [c..<m]"
  proof -
    have "a \<le> b" "b \<le> c" "c \<le> m" using b c m by (metis le_add1)+
    then show ?thesis using upt_split [of 0 a m] upt_split [of a b m] upt_split [of b c m] by simp
  qed
  moreover have "[a..<b] = (if r div 4 \<noteq> 0 then [a, a + 1, a + 2, a + 3] else [])"
    unfolding b_def using upt_chunks(2) [of a] by simp
  moreover have "[b..<c] = (if r mod 4 div 2 \<noteq> 0 then [b, b + 1] else [])"
    unfolding c_def using upt_chunks(3) [of b] by simp
  moreover have "[c..<m] = (if r mod 4 mod 2 \<noteq> 0 then [c] else [])"
    unfolding m using r(5) upt_chunks(4) [of c] by (cases "r mod 4 mod 2") simp_all
  ultimately have runs: "calc_run plug p [0..<m] w = calc_run plug p [0..<a] w \<bind> (\<lambda>w.
      (if r div 4 \<noteq> 0 then calc_run plug p [a, a + 1, a + 2, a + 3] w else Some w) \<bind> (\<lambda>w.
      (if r mod 4 div 2 \<noteq> 0 then calc_run plug p [b, b + 1] w else Some w) \<bind> (\<lambda>w.
      (if r mod 4 mod 2 \<noteq> 0 then calc_run plug p [c] w else Some w))))"
    by (simp only: calc_run_parts)
  have "Graph_Calc plug p w = calc_unroll8 plug p 0 (m div 8) w \<bind> (\<lambda>w.
      (if r div 4 \<noteq> 0 then calc_run plug p [a, a + 1, a + 2, a + 3] w else Some w) \<bind> (\<lambda>w.
      (if r mod 4 div 2 \<noteq> 0 then calc_run plug p [b, b + 1] w else Some w) \<bind> (\<lambda>w.
      (if r mod 4 mod 2 \<noteq> 0 then Graph_Calc_unit plug p c w else Some w))))"
    unfolding Graph_Calc_def Some Option.bind.simps Let_def c_def b_def a_def r_def m_def ..
  also have "\<dots> = calc_run plug p [0..<m] w"
    unfolding runs calc_unroll8_run add_0 a_def [symmetric] by (simp cong: if_cong)
  finally show ?thesis unfolding Some Option.bind.simps m_def .
qed (simp add: Graph_Calc_def)

section \<open>The order of calculation\<close>

text \<open>
  What runs in a block, in order. Tracing and dumping do not change it: \<open>run_class\<close> puts those
  variants together with the plain calculation functions (a dump with controls apart).
\<close>

fun run_class :: "NodeCalcFunc \<Rightarrow> NodeCalcFunc" where
  "run_class Cf_Group_CalcTrace = Cf_Group_Calc"
| "run_class Cf_Group_CalcDumpTree = Cf_Group_Calc"
| "run_class Cf_Graph_CalcTrace = Cf_Graph_Calc"
| "run_class c = c"

definition ctor_events :: "ptr \<Rightarrow> Node \<Rightarrow> unit_event list" where
  "ctor_events p n = List.map (Unit_Ctor p) [0..<gNumUnits n]"

definition calc_events :: "ptr \<Rightarrow> Node \<Rightarrow> unit_event list" where
  "calc_events p n = List.map (Unit_Calc p) (take (gNumCalcUnits n) (gCalcUnits n))"

fun run_events :: "(ptr \<Rightarrow> Node option) \<Rightarrow> ntree \<Rightarrow> unit_event list" where
  "run_events h (NT p ts) = (case h p of None \<Rightarrow> [] | Some n \<Rightarrow>
     (case run_class (mCalcFunc n) of
        Cf_Group_Calc \<Rightarrow> concat (List.map (run_events h) ts)
      | Cf_Graph_Calc \<Rightarrow> calc_events p n
      | Cf_Graph_FirstCalc \<Rightarrow> ctor_events p n @ calc_events p n
      | Cf_Graph_NullFirstCalc \<Rightarrow> ctor_events p n
      | _ \<Rightarrow> []))"

text \<open>No node that is about to be deleted, and the array of calculation units is complete.\<close>

definition runs_fine :: "Node \<Rightarrow> bool" where
  "runs_fine n \<longleftrightarrow> run_class (mCalcFunc n) \<in>
       (if mIsGroup n then {Cf_Group_Calc, Cf_Node_NullCalc}
        else {Cf_Graph_Calc, Cf_Graph_FirstCalc, Cf_Graph_NullFirstCalc, Cf_Node_NullCalc})
     \<and> gNumCalcUnits n \<le> length (gCalcUnits n)"

definition running_ok :: "(ptr \<Rightarrow> Node option) \<Rightarrow> ntree \<Rightarrow> bool" where
  "running_ok h t \<longleftrightarrow> (\<forall>x \<in> set (nodes t). \<exists>n. h x = Some n \<and> runs_fine n)"

text \<open>A unit's function may change its own node's calculation function (to end it, say).\<close>

fun event_node :: "unit_event \<Rightarrow> ptr" where
  "event_node (Unit_Ctor p i) = p" | "event_node (Unit_Calc p i) = p" | "event_node (Unit_Dtor p i) = p"

definition plug_ok :: "plug \<Rightarrow> bool" where
  "plug_ok plug \<longleftrightarrow> (\<forall>e w. \<exists>w' c. plug e w = Some w' \<and> unit_log w' = unit_log w
     \<and> heap w' = (heap w)(event_node e := map_option (\<lambda>n. n\<lparr>mCalcFunc := c\<rparr>) (heap w (event_node e))))"

definition core :: "Node \<Rightarrow> (i32 \<times> ptr option \<times> ptr option \<times> bool) \<times> nat \<times> nat \<times> nat list" where
  "core n = (links_of n, gNumUnits n, gNumCalcUnits n, gCalcUnits n)"

definition run_view :: "Node \<Rightarrow> _" where
  "run_view n = (core n, run_class (mCalcFunc n))"

definition same_view :: "(Node \<Rightarrow> 'a) \<Rightarrow> ptr set \<Rightarrow> (ptr \<Rightarrow> Node option) \<Rightarrow> (ptr \<Rightarrow> Node option) \<Rightarrow> bool" where
  "same_view f S h h' \<longleftrightarrow> (\<forall>q \<in> S. map_option f (h' q) = map_option f (h q))"

lemma same_view_Some: "same_view f S h h' \<Longrightarrow> p \<in> S \<Longrightarrow> h p = Some n \<Longrightarrow> \<exists>n'. h' p = Some n' \<and> f n' = f n"
  unfolding same_view_def by (drule bspec, assumption) auto

lemma same_view_None: "same_view f S h h' \<Longrightarrow> p \<in> S \<Longrightarrow> h p = None \<Longrightarrow> h' p = None"
  unfolding same_view_def by (drule bspec, assumption) simp

lemma same_core_links: "same_view core UNIV h h' \<Longrightarrow> same_links h h'"
proof -
  have links: "map_option links_of x = map_option fst (map_option core x)" for x
    by (cases x) (simp_all add: core_def)
  show "same_view core UNIV h h' \<Longrightarrow> same_links h h'" unfolding same_view_def same_links_def links by simp
qed

lemma run_events_cong: "same_view run_view (set (nodes t)) h h' \<Longrightarrow> run_events h' t = run_events h t"
proof (induction t)
  case (NT p ts)
  have ts: "run_events h' t = run_events h t" if "t \<in> set ts" for t
    using NT.IH [OF that] NT.prems that by (auto simp: same_view_def)
  show ?case
  proof (cases "h p")
    case None
    then show ?thesis using same_view_None [OF NT.prems, of p] by simp
  next
    case (Some n)
    then obtain n' where "h' p = Some n'" "run_view n' = run_view n" using same_view_Some [OF NT.prems, of p n] by auto
    moreover from this(2) have "calc_events p n' = calc_events p n" "ctor_events p n' = ctor_events p n"
      "run_class (mCalcFunc n') = run_class (mCalcFunc n)"
      by (simp_all add: run_view_def core_def calc_events_def ctor_events_def)
    moreover have "List.map (run_events h') ts = List.map (run_events h) ts" using ts by simp
    ultimately show ?thesis using Some by (simp only: run_events.simps option.case)
  qed
qed

lemma runs_fine_cong: "run_view n' = run_view n \<Longrightarrow> runs_fine n' = runs_fine n"
  by (simp add: run_view_def core_def links_of_def runs_fine_def)

lemma running_ok_cong:
  assumes "running_ok h t" and v: "same_view run_view (set (nodes t)) h h'"
  shows "running_ok h' t"
  unfolding running_ok_def
proof
  fix x assume x: "x \<in> set (nodes t)"
  then obtain n where "h x = Some n" "runs_fine n" using assms(1) by (auto simp: running_ok_def)
  then show "\<exists>n. h' x = Some n \<and> runs_fine n" using same_view_Some [OF v x] runs_fine_cong by blast
qed

text \<open>\<open>performs f S ev w\<close>: \<open>f\<close> returns, has run \<open>ev\<close>, and changed at most the calculation functions in \<open>S\<close>.\<close>

definition performs :: "(World \<Rightarrow> World option) \<Rightarrow> ptr set \<Rightarrow> unit_event list \<Rightarrow> World \<Rightarrow> bool" where
  "performs f S ev w \<longleftrightarrow> (\<exists>w'. f w = Some w' \<and> unit_log w' = unit_log w @ ev \<and> same_view core UNIV (heap w) (heap w')
     \<and> (\<forall>q. q \<notin> S \<longrightarrow> heap w' q = heap w q))"

lemma performs_bind:
  assumes "performs f S ev w"
    and "\<And>w'. same_view core UNIV (heap w) (heap w') \<Longrightarrow> (\<And>q. q \<notin> S \<Longrightarrow> heap w' q = heap w q) \<Longrightarrow> performs g S' ev' w'"
  shows "performs (\<lambda>w. f w \<bind> g) (S \<union> S') (ev @ ev') w"
proof -
  obtain w1 where w1: "f w = Some w1" "unit_log w1 = unit_log w @ ev" "same_view core UNIV (heap w) (heap w1)"
    "\<And>q. q \<notin> S \<Longrightarrow> heap w1 q = heap w q" using assms(1) by (auto simp: performs_def)
  obtain w2 where w2: "g w1 = Some w2" "unit_log w2 = unit_log w1 @ ev'" "same_view core UNIV (heap w1) (heap w2)"
    "\<And>q. q \<notin> S' \<Longrightarrow> heap w2 q = heap w1 q" using assms(2) [OF w1(3,4)] by (auto simp: performs_def)
  have "same_view core UNIV (heap w) (heap w2)" using w1(3) w2(3) by (simp add: same_view_def)
  then show ?thesis using w1 w2 by (auto simp: performs_def)
qed

lemma performs_weaken: "performs f S ev w \<Longrightarrow> S \<subseteq> T \<Longrightarrow> performs f T ev w"
  unfolding performs_def by blast

lemma performs_Some: "performs Some S [] w"
  by (simp add: performs_def same_view_def)

lemma performs_unit_call:
  assumes "plug_ok plug" and "event_node e = p"
  shows "performs (unit_call plug e) {p} [e] w"
proof -
  let ?w = "w\<lparr>unit_log := unit_log w @ [e]\<rparr>"
  obtain w' c where w': "plug e ?w = Some w'" "unit_log w' = unit_log ?w"
    "heap w' = (heap ?w)(p := map_option (\<lambda>n. n\<lparr>mCalcFunc := c\<rparr>) (heap ?w p))"
    using assms unfolding plug_ok_def by blast
  have "map_option core (heap w' q) = map_option core (heap w q)" for q
    using w'(3) by (cases "heap w q") (auto simp: core_def links_of_def)
  then have "same_view core UNIV (heap w) (heap w')" by (simp add: same_view_def)
  then show ?thesis using w' by (auto simp: performs_def unit_call_def)
qed

lemma performs_set_calc:
  assumes "heap w p \<noteq> None"
  shows "performs (set_calc p c) {p} [] w"
  using assms by (auto simp: performs_def set_calc_def upd_def same_view_def core_def links_of_def)

lemma performs_Graph_Calc_unit:
  assumes ok: "plug_ok plug" and n: "heap w p = Some n" "i < length (gCalcUnits n)"
  shows "performs (Graph_Calc_unit plug p i) {p} [Unit_Calc p (gCalcUnits n ! i)] w"
  using performs_unit_call [OF ok, of "Unit_Calc p (gCalcUnits n ! i)" p w] n
  by (simp add: performs_def Graph_Calc_unit_def deref_def)

lemma performs_calc_run:
  assumes ok: "plug_ok plug"
  shows "heap w p = Some n \<Longrightarrow> \<forall>i \<in> set is'. i < length (gCalcUnits n) \<Longrightarrow>
    performs (calc_run plug p is') {p} (List.map (\<lambda>i. Unit_Calc p (gCalcUnits n ! i)) is') w"
proof (induction is' arbitrary: w n)
  case Nil
  then show ?case using performs_Some [of "{p}" w] by simp
next
  case (Cons i is')
  have "performs (\<lambda>w. Graph_Calc_unit plug p i w \<bind> calc_run plug p is') ({p} \<union> {p})
      ([Unit_Calc p (gCalcUnits n ! i)] @ List.map (\<lambda>i. Unit_Calc p (gCalcUnits n ! i)) is') w"
  proof (rule performs_bind [OF performs_Graph_Calc_unit [OF ok Cons.prems(1)]])
    fix w' :: World assume v: "same_view core UNIV (heap w) (heap w')"
    then obtain n' where n': "heap w' p = Some n'" "core n' = core n" using same_view_Some [OF v _ Cons.prems(1)] by blast
    then have "gCalcUnits n' = gCalcUnits n" by (simp add: core_def)
    then show "performs (calc_run plug p is') {p} (List.map (\<lambda>i. Unit_Calc p (gCalcUnits n ! i)) is') w'"
      using Cons.IH [OF n'(1)] Cons.prems(2) by simp
  qed (use Cons.prems(2) in simp)
  then show ?case by (simp add: performs_def)
qed

lemma calc_events_alt: "gNumCalcUnits n \<le> length (gCalcUnits n) \<Longrightarrow>
    calc_events p n = List.map (\<lambda>i. Unit_Calc p (gCalcUnits n ! i)) [0..<gNumCalcUnits n]"
proof -
  assume "gNumCalcUnits n \<le> length (gCalcUnits n)"
  then have "take (gNumCalcUnits n) (gCalcUnits n) = List.map ((!) (gCalcUnits n)) [0..<gNumCalcUnits n]"
    by (intro nth_equalityI) simp_all
  then show ?thesis by (simp add: calc_events_def comp_def)
qed

lemma performs_calc_all:
  assumes "plug_ok plug" and "heap w p = Some n" and "gNumCalcUnits n \<le> length (gCalcUnits n)"
  shows "performs (calc_run plug p [0..<gNumCalcUnits n]) {p} (calc_events p n) w"
  using performs_calc_run [OF assms(1,2), of "[0..<gNumCalcUnits n]"] assms(3) calc_events_alt [of n p] by simp

lemma performs_Graph_Calc:
  assumes "plug_ok plug" and "heap w p = Some n" and "gNumCalcUnits n \<le> length (gCalcUnits n)"
  shows "performs (Graph_Calc plug p) {p} (calc_events p n) w"
  using performs_calc_all [OF assms] assms(2) by (simp add: performs_def Graph_Calc_unrolled deref_def)

lemma performs_call_ctors:
  assumes ok: "plug_ok plug"
  shows "performs (call_ctors plug p is') {p} (List.map (Unit_Ctor p) is') w"
proof (induction is' arbitrary: w)
  case Nil
  then show ?case using performs_Some [of "{p}" w] by (simp add: performs_def)
next
  case (Cons i is')
  have "performs (\<lambda>w. unit_call plug (Unit_Ctor p i) w \<bind> call_ctors plug p is') ({p} \<union> {p}) ([Unit_Ctor p i] @ List.map (Unit_Ctor p) is') w"
    by (rule performs_bind [OF performs_unit_call [OF ok]]) (simp, rule Cons.IH)
  then show ?case by (simp add: performs_def)
qed

text \<open>Steps done after a run, which change only the node's own calculation function.\<close>

lemma performs_then_set_calc:
  assumes "performs f S ev w" and "p \<in> S" and "heap w p \<noteq> None"
  shows "performs (\<lambda>w. f w \<bind> set_calc p c) S ev w"
proof -
  have "performs (\<lambda>w. f w \<bind> set_calc p c) (S \<union> {p}) (ev @ []) w"
  proof (rule performs_bind [OF assms(1)])
    fix w' :: World assume v: "same_view core UNIV (heap w) (heap w')"
    obtain n where "heap w p = Some n" using assms(3) by blast
    then have "heap w' p \<noteq> None" using same_view_Some [OF v, of p n] by auto
    then show "performs (set_calc p c) {p} [] w'" by (rule performs_set_calc)
  qed
  moreover have "S \<union> {p} = S" using assms(2) by blast
  ultimately show ?thesis by simp
qed

lemma performs_FirstCalc:
  assumes ok: "plug_ok plug" and n: "heap w p = Some n" and c: "gNumCalcUnits n \<le> length (gCalcUnits n)"
  shows "performs (Graph_FirstCalc plug p) {p} (ctor_events p n @ calc_events p n) w"
    and "performs (Graph_NullFirstCalc plug p) {p} (ctor_events p n) w"
proof -
  have p: "heap w p \<noteq> None" using n by simp
  note ctors = performs_then_set_calc [OF performs_call_ctors [OF ok, of p "[0..<gNumUnits n]" w] singletonI p, folded ctor_events_def]
  show "performs (Graph_NullFirstCalc plug p) {p} (ctor_events p n) w"
    using ctors [of Cf_Node_NullCalc] n by (simp add: performs_def Graph_NullFirstCalc_def deref_def)
  have "performs (\<lambda>w. (call_ctors plug p [0..<gNumUnits n] w \<bind> set_calc p Cf_Graph_Calc) \<bind> Graph_Calc plug p) ({p} \<union> {p})
      (ctor_events p n @ calc_events p n) w"
  proof (rule performs_bind [OF ctors])
    fix w' :: World assume v: "same_view core UNIV (heap w) (heap w')"
    then obtain n' where n': "heap w' p = Some n'" "core n' = core n" using same_view_Some [OF v _ n] by blast
    then have "gNumCalcUnits n' \<le> length (gCalcUnits n')" "calc_events p n' = calc_events p n"
      using c by (simp_all add: core_def calc_events_def)
    then show "performs (Graph_Calc plug p) {p} (calc_events p n) w'" using performs_Graph_Calc [OF ok n'(1)] by simp
  qed
  then show "performs (Graph_FirstCalc plug p) {p} (ctor_events p n @ calc_events p n) w"
    using n by (simp add: performs_def Graph_FirstCalc_def deref_def bind_assoc)
qed

text \<open>What may be done to a child before it runs.\<close>

definition before_ok :: "(ptr \<Rightarrow> World \<Rightarrow> World option) \<Rightarrow> bool" where
  "before_ok f \<longleftrightarrow> (\<forall>c w n. heap w c = Some n \<longrightarrow> (\<exists>w'. f c w = Some w' \<and> unit_log w' = unit_log w
     \<and> same_view run_view UNIV (heap w) (heap w') \<and> (\<forall>q. q \<noteq> c \<longrightarrow> heap w' q = heap w q)))"

lemma before_ok_nothing: "before_ok (\<lambda>_. Some)"
  by (simp add: before_ok_def same_view_def)

lemma before_ok_dump: "before_ok dump_child"
  unfolding before_ok_def
proof (intro allI impI)
  fix c n and w :: World assume n: "heap w c = Some n"
  show "\<exists>w'. dump_child c w = Some w' \<and> unit_log w' = unit_log w \<and> same_view run_view UNIV (heap w) (heap w')
      \<and> (\<forall>q. q \<noteq> c \<longrightarrow> heap w' q = heap w q)"
  proof (cases "mIsGroup n \<and> mCalcFunc n = Cf_Group_Calc")
    case True
    then show ?thesis using n
      by (simp add: dump_child_def Group_DumpTree_def switch_calc_def set_calc_def upd_def deref_def same_view_def run_view_def core_def links_of_def)
  next
    case False
    then have "dump_child c w = Some w" using n by (auto simp: dump_child_def Group_DumpTree_def switch_calc_def deref_def)
    then show ?thesis by (simp add: same_view_def)
  qed
qed

lemma run_view_core: "same_view run_view S h h' \<Longrightarrow> same_view core S h h'"
proof -
  have v: "map_option core x = map_option fst (map_option run_view x)" for x by (cases x) (simp_all add: run_view_def)
  show "same_view run_view S h h' \<Longrightarrow> same_view core S h h'" unfolding same_view_def v by simp
qed

lemma performs_children:
  assumes before: "before_ok before"
    and each: "\<And>t w. t \<in> set ts \<Longrightarrow> sub_ok (heap w) t \<Longrightarrow> running_ok (heap w) t \<Longrightarrow>
      performs (calc (nroot t)) (set (nodes t)) (run_events (heap w) t) w"
  shows "chain_ok (heap w) ts \<Longrightarrow> \<forall>t \<in> set ts. running_ok (heap w) t \<Longrightarrow> distinct (forest_nodes ts) \<Longrightarrow> length ts < k
    \<Longrightarrow> performs (calc_children k before calc (first_of (List.map nroot ts))) (set (forest_nodes ts)) (concat (List.map (run_events (heap w)) ts)) w"
  using each
proof (induction ts arbitrary: w k)
  case Nil
  then obtain k' where "k = Suc k'" by (cases k) auto
  then show ?case by (simp add: performs_def same_view_def)
next
  case (Cons t ts)
  obtain k' where k: "k = Suc k'" using Cons.prems(4) by (cases k) auto
  obtain nd where nd: "heap w (nroot t) = Some nd" "mNext nd = first_of (List.map nroot ts)" "sub_ok (heap w) t" "chain_ok (heap w) ts"
    using Cons.prems(1) by auto
  have dist: "distinct (forest_nodes ts)" "set (nodes t) \<inter> set (forest_nodes ts) = {}" using Cons.prems(3) by auto
  obtain w1 where w1: "before (nroot t) w = Some w1" "unit_log w1 = unit_log w" "same_view run_view UNIV (heap w) (heap w1)"
    "\<And>q. q \<noteq> nroot t \<Longrightarrow> heap w1 q = heap w q" using before nd(1) unfolding before_ok_def by meson
  have v: "same_view run_view (set (nodes t)) (heap w) (heap w1)" using w1(3) by (simp add: same_view_def)
  have c1: "same_view core UNIV (heap w) (heap w1)" by (rule run_view_core [OF w1(3)])
  have "sub_ok (heap w1) t" "running_ok (heap w1) t"
    using same_links_sub_ok(1) [OF nd(3) same_core_links [OF c1]] running_ok_cong [OF _ v] Cons.prems(2) by simp_all
  then have "performs (calc (nroot t)) (set (nodes t)) (run_events (heap w) t) w1"
    using Cons.prems(5) [of t w1] run_events_cong [OF v] by simp
  then obtain w2 where w2: "calc (nroot t) w1 = Some w2" "unit_log w2 = unit_log w @ run_events (heap w) t"
    "same_view core UNIV (heap w1) (heap w2)" "\<And>q. q \<notin> set (nodes t) \<Longrightarrow> heap w2 q = heap w1 q"
    using w1(2) by (auto simp: performs_def)
  have c2: "same_view core UNIV (heap w) (heap w2)" using c1 w2(3) by (simp add: same_view_def)
  have out: "heap w2 q = heap w q" if "q \<notin> set (nodes t)" for q
    using w2(4) [OF that] w1(4) [of q] that by (cases "q = nroot t") simp_all
  have "same_view run_view (set (nodes s)) (heap w) (heap w2)" if "s \<in> set ts" for s
  proof -
    have "heap w2 q = heap w q" if "q \<in> set (nodes s)" for q using out [of q] dist(2) that \<open>s \<in> set ts\<close> by auto
    then show ?thesis by (simp add: same_view_def)
  qed
  then have later: "running_ok (heap w2) s" "run_events (heap w2) s = run_events (heap w) s" if "s \<in> set ts" for s
    using running_ok_cong run_events_cong Cons.prems(2) that by auto
  have "chain_ok (heap w2) ts" using same_links_sub_ok(2) [OF nd(4) same_core_links [OF c2]] .
  then have "performs (calc_children k' before calc (first_of (List.map nroot ts))) (set (forest_nodes ts)) (concat (List.map (run_events (heap w2)) ts)) w2"
    using Cons.IH [of w2 k'] later(1) dist(1) Cons.prems(4,5) k by simp
  moreover have "List.map (run_events (heap w2)) ts = List.map (run_events (heap w)) ts" using later(2) by simp
  ultimately obtain w3 where w3: "calc_children k' before calc (first_of (List.map nroot ts)) w2 = Some w3"
    "unit_log w3 = unit_log w @ concat (List.map (run_events (heap w)) (t # ts))"
    "same_view core UNIV (heap w2) (heap w3)" "\<And>q. q \<notin> set (forest_nodes ts) \<Longrightarrow> heap w3 q = heap w2 q"
    using w2(2) by (auto simp: performs_def)
  have "calc_children k before calc (first_of (List.map nroot (t # ts))) w = Some w3"
    using k nd(1,2) w1(1) w2(1) w3(1) by (simp add: deref_def)
  moreover have "same_view core UNIV (heap w) (heap w3)" using c2 w3(3) by (simp add: same_view_def)
  ultimately show ?case using w3(2,4) out by (simp add: performs_def)
qed

lemma length_kids_fuel: "length ts \<le> sum_list (List.map fuel_of ts)"
proof (induction ts)
  case (Cons t ts)
  have "4 \<le> fuel_of t" by (cases t) simp
  then show ?case using Cons by simp
qed simp

lemma performs_group_calc:
  assumes ok: "plug_ok plug" and p: "heap w p = Some nd" "mIsGroup nd" "runs_fine nd" "mHead nd = first_of (List.map nroot ts)"
    and c: "chain_ok (heap w) ts" "\<forall>t \<in> set ts. running_ok (heap w) t" and d: "distinct (p # forest_nodes ts)" and k: "length ts < k"
    and each: "\<And>t w. t \<in> set ts \<Longrightarrow> sub_ok (heap w) t \<Longrightarrow> running_ok (heap w) t \<Longrightarrow>
      performs (Node_Calc k plug (nroot t)) (set (nodes t)) (run_events (heap w) t) w"
  shows "performs (Node_Calc (Suc k) plug p) (set (nodes (NT p ts))) (run_events (heap w) (NT p ts)) w"
proof -
  have kids: "performs (calc_children k before (Node_Calc k plug) (mHead nd)) (insert p (set (forest_nodes ts)))
      (concat (List.map (run_events (heap w)) ts)) w" if "before_ok before" for before
    unfolding p(4) by (rule performs_weaken [OF performs_children [OF that each c]]) (use d k in auto)
  have hp: "heap w p \<noteq> None" using p(1) by simp
  note after = performs_then_set_calc [OF kids _ hp]
  consider "mCalcFunc nd = Cf_Group_Calc" | "mCalcFunc nd = Cf_Group_CalcTrace" | "mCalcFunc nd = Cf_Group_CalcDumpTree" | "mCalcFunc nd = Cf_Node_NullCalc"
    using p(2,3) by (cases "mCalcFunc nd") (simp_all add: runs_fine_def)
  then show ?thesis
  proof cases
    case 1
    then show ?thesis using kids [OF before_ok_nothing] p(1) by (simp add: performs_def deref_def Group_Calc_def)
  next
    case 2
    then show ?thesis using after [OF before_ok_nothing, of Cf_Group_Calc] p(1) by (simp add: performs_def deref_def Group_CalcTrace_def)
  next
    case 3
    then show ?thesis using after [OF before_ok_dump, of Cf_Group_Calc] p(1)
      by (simp add: performs_def deref_def Group_CalcDumpTree_def Group_DumpNodeTree_def)
  next
    case 4
    then show ?thesis using p(1) by (simp add: performs_def deref_def same_view_def)
  qed
qed

lemma performs_node_calc:
  assumes ok: "plug_ok plug"
  shows "sub_ok (heap w) t \<Longrightarrow> running_ok (heap w) t \<Longrightarrow> distinct (nodes t) \<Longrightarrow> fuel_of t \<le> k \<Longrightarrow>
    performs (Node_Calc k plug (nroot t)) (set (nodes t)) (run_events (heap w) t) w"
proof (induction t arbitrary: w k)
  case (NT p ts)
  obtain k' where k: "k = Suc k'" using NT.prems(4) by (cases k) auto
  obtain nd where nd: "heap w p = Some nd" "if mIsGroup nd then mHead nd = first_of (List.map nroot ts) else ts = []" "chain_ok (heap w) ts"
    using NT.prems(1) by auto
  have fine: "runs_fine nd" "\<forall>t \<in> set ts. running_ok (heap w) t" using NT.prems(2) nd(1) by (auto simp: running_ok_def)
  have fu: "4 + sum_list (List.map fuel_of ts) \<le> k" using NT.prems(4) by simp
  show ?case
  proof (cases "mIsGroup nd")
    case True
    have each: "performs (Node_Calc k' plug (nroot t)) (set (nodes t)) (run_events (heap w) t) w"
      if t: "t \<in> set ts" "sub_ok (heap w) t" "running_ok (heap w) t" for t w
    proof -
      have "fuel_of t \<le> sum_list (List.map fuel_of ts)" using t(1) by (intro member_le_sum_list) simp_all
      moreover have "distinct (nodes t)" using NT.prems(3) t(1) by (simp add: distinct_concat_iff)
      ultimately show ?thesis using NT.IH [OF t(1,2,3)] fu k by simp
    qed
    have "length ts < k'" using fu k length_kids_fuel [of ts] by simp
    moreover have "mHead nd = first_of (List.map nroot ts)" using nd(2) True by simp
    moreover have "distinct (p # forest_nodes ts)" using NT.prems(3) by simp
    ultimately show ?thesis unfolding k ntree.sel
      by (intro performs_group_calc [OF ok nd(1) True fine(1) _ nd(3) fine(2) _ _ each])
  next
    case False
    then have ts: "ts = []" and c: "gNumCalcUnits nd \<le> length (gCalcUnits nd)" using nd(2) fine(1) by (simp_all add: runs_fine_def)
    have hp: "heap w p \<noteq> None" using nd(1) by simp
    note trace = performs_then_set_calc [OF performs_calc_all [OF ok nd(1) c] singletonI hp]
    consider "mCalcFunc nd = Cf_Graph_Calc" | "mCalcFunc nd = Cf_Graph_CalcTrace" | "mCalcFunc nd = Cf_Graph_FirstCalc"
      | "mCalcFunc nd = Cf_Graph_NullFirstCalc" | "mCalcFunc nd = Cf_Node_NullCalc"
      using False fine(1) by (cases "mCalcFunc nd") (simp_all add: runs_fine_def)
    then show ?thesis
    proof cases
      case 1
      then show ?thesis using performs_Graph_Calc [OF ok nd(1) c] nd(1) k ts by (simp add: performs_def deref_def)
    next
      case 2
      then show ?thesis using trace [of Cf_Graph_Calc] nd(1) k ts by (simp add: performs_def deref_def Graph_CalcTrace_def)
    next
      case 3
      then show ?thesis using performs_FirstCalc(1) [OF ok nd(1) c] nd(1) k ts by (simp add: performs_def deref_def)
    next
      case 4
      then show ?thesis using performs_FirstCalc(2) [OF ok nd(1) c] nd(1) k ts by (simp add: performs_def deref_def)
    next
      case 5
      then show ?thesis using nd(1) k ts by (simp add: performs_def deref_def same_view_def)
    qed
  qed
qed


text \<open>A root with two synths below it: one new, one paused before its first block.\<close>

definition dsp_synth :: "i32 \<Rightarrow> NodeCalcFunc \<Rightarrow> Node" where
  "dsp_synth ident f = (blank_node (Def 5) ident)\<lparr>mCalcFunc := f, gNumUnits := 2, gNumCalcUnits := 1, gCalcUnits := [1]\<rparr>"

definition run_world :: World where
  "run_world = (empty_world 2)\<lparr>mTopGroup := 2, heap := [2 \<mapsto> (blank_group 0)\<lparr>mHead := Some 1, mTail := Some 3\<rparr>,
     1 \<mapsto> (dsp_synth 1 Cf_Graph_FirstCalc)\<lparr>mParent := Some 2, mNext := Some 3\<rparr>,
     3 \<mapsto> (dsp_synth 3 Cf_Graph_NullFirstCalc)\<lparr>mParent := Some 2, mPrev := Some 1\<rparr>]\<rparr>"

lemma quiet_plug: "plug_ok (\<lambda>_. Some)"
proof -
  have "\<exists>c. h = h(p := map_option (\<lambda>n. n\<lparr>mCalcFunc := c\<rparr>) (h p))" for h :: "ptr \<Rightarrow> Node option" and p
  proof (cases "h p")
    case (Some n)
    have "n\<lparr>mCalcFunc := mCalcFunc n\<rparr> = n" by simp
    then show ?thesis using Some by (intro exI [of _ "mCalcFunc n"]) (simp add: fun_upd_idem)
  qed (simp add: fun_upd_idem)
  then show ?thesis by (simp add: plug_ok_def)
qed


section \<open>Ending, tracing, pausing\<close>

text \<open>A unit that is done, with the done action that frees its synth.\<close>

definition done_plug :: plug where
  "done_plug e w = (case e of Unit_Calc p i \<Rightarrow> Unit_DoneAction 1 2 p w | _ \<Rightarrow> Some w)"

lemma done_plug_run:
  "heap w p = Some n \<Longrightarrow> \<forall>i \<in> set is'. i < length (gCalcUnits n) \<Longrightarrow> is' \<noteq> [] \<Longrightarrow>
    \<exists>w'. calc_run done_plug p is' w = Some w' \<and> heap w' p = Some (n\<lparr>mCalcFunc := Cf_Node_Delete\<rparr>)"
proof (induction is' arbitrary: w n)
  case (Cons i is')
  let ?n = "n\<lparr>mCalcFunc := Cf_Node_Delete\<rparr>"
  obtain w1 where w1: "Graph_Calc_unit done_plug p i w = Some w1" "heap w1 p = Some ?n"
    using Cons.prems(1,2)
    by (simp add: Graph_Calc_unit_def deref_def unit_call_def done_plug_def Unit_DoneAction_def Node_End_def set_calc_def upd_def)
  show ?case
  proof (cases "is' = []")
    case False
    have "\<exists>w'. calc_run done_plug p is' w1 = Some w' \<and> heap w' p = Some (?n\<lparr>mCalcFunc := Cf_Node_Delete\<rparr>)"
      by (rule Cons.IH [OF w1(2) _ False]) (use Cons.prems(2) in simp)
    then show ?thesis using w1(1) by auto
  qed (use w1 in simp)
qed simp

text \<open>
  A trace swallows the end of a synth. When a unit asks for its synth to be freed in a normal
  block, the synth's calculation function is \<open>Node_Delete\<close> afterwards, so that the next block frees
  it. When the same happens in a block that is traced (or in the constructors that the first block
  calls), the calculation function is set back to \<open>Graph_Calc\<close>: the request is lost.
\<close>

theorem trace_swallows_end:
  assumes n: "heap w p = Some n" and u: "0 < gNumCalcUnits n" "gNumCalcUnits n \<le> length (gCalcUnits n)"
  shows "(\<exists>w'. Graph_Calc done_plug p w = Some w' \<and> heap w' p = Some (n\<lparr>mCalcFunc := Cf_Node_Delete\<rparr>))
    \<and> (\<exists>w'. Graph_CalcTrace done_plug p w = Some w' \<and> heap w' p = Some (n\<lparr>mCalcFunc := Cf_Graph_Calc\<rparr>))"
proof -
  obtain w' where w': "calc_run done_plug p [0..<gNumCalcUnits n] w = Some w'" "heap w' p = Some (n\<lparr>mCalcFunc := Cf_Node_Delete\<rparr>)"
    using done_plug_run [OF n, of "[0..<gNumCalcUnits n]"] u by auto
  then show ?thesis using n by (simp add: Graph_Calc_unrolled Graph_CalcTrace_def deref_def set_calc_def upd_def)
qed

theorem trace_swallows_end_witness:
  "\<exists>w'. Graph_CalcTrace done_plug 1 run_world = Some w' \<and> map_option mCalcFunc (heap w' 1) = Some Cf_Graph_Calc"
proof -
  obtain n where n: "heap run_world 1 = Some n" "gNumCalcUnits n = 1" "gCalcUnits n = [1]"
    by (simp add: run_world_def dsp_synth_def)
  show ?thesis using trace_swallows_end [OF n(1)] n(2,3) by auto
qed

text \<open>Switching a node on or off always succeeds in a well-formed world.\<close>

lemma next_of_in: "next_of xs x = Some y \<Longrightarrow> y \<in> set xs"
  by (induction xs) (auto split: if_splits list.splits)

lemma tree_neighbours:
  assumes tree: "tree_ok (heap w) K" and p: "heap w p = Some nd"
    and q: "mParent nd = Some q \<or> mPrev nd = Some q \<or> mNext nd = Some q \<or> mIsGroup nd \<and> (mHead nd = Some q \<or> mTail nd = Some q)"
  shows "heap w q \<noteq> None"
proof -
  note D = tree_ok_D [OF tree]
  have kid: "heap w x \<noteq> None" if "x \<in> set (K g)" for x g using D(5) [OF that] by auto
  have l: "links_ok K p nd" by (rule D(1) [OF p])
  consider (ends) "mIsGroup nd" "mHead nd = Some q \<or> mTail nd = Some q" | (parent) "mParent nd = Some q"
    | (sibling) "mPrev nd = Some q \<or> mNext nd = Some q" using q by blast
  then show ?thesis
  proof cases
    case ends
    then have "q \<in> set (K p)" using D(2) [OF p] first_of_in last_of_in by (auto simp: kids_ok_def)
    then show ?thesis by (rule kid)
  next
    case parent
    then have "p \<in> set (K q)" using l by (simp add: links_ok_def)
    then show ?thesis using D(3) [of q] by (cases "heap w q") simp_all
  next
    case sibling
    then obtain g where g: "mPrev nd = prev_of (K g) p" "mNext nd = next_of (K g) p"
      using l by (auto simp: links_ok_def split: option.splits)
    then have "q \<in> set (K g)" using sibling next_of_in [of "K g" p q] next_of_in [of "rev (K g)" p q] by (auto simp: prev_of_def)
    then show ?thesis by (rule kid)
  qed
qed

lemma tree_ok_calc:
  assumes tree: "tree_ok h K" and p: "h p = Some nd"
  shows "tree_ok (h(p \<mapsto> nd\<lparr>mCalcFunc := c\<rparr>)) K"
proof -
  have l: "links_ok K x (n\<lparr>mCalcFunc := c\<rparr>) = links_ok K x n" and k: "kids_ok K x (n\<lparr>mCalcFunc := c\<rparr>) = kids_ok K x n" for x n
    by (cases "mParent n"; simp add: links_ok_def) (simp add: kids_ok_def)
  have "\<exists>n. (h(p \<mapsto> nd\<lparr>mCalcFunc := c\<rparr>)) x = Some n \<and> mParent n = Some g" if "x \<in> set (K g)" for x g
    using tree_ok_D(5) [OF tree that] p by auto
  then show ?thesis using tree p unfolding tree_ok_def by (simp add: l k)
qed

lemma set_and_tell:
  assumes ok: "world_ok n w" and tree: "tree_ok (heap w) K" and p: "heap w p = Some nd"
  shows "\<exists>w'. (set_calc p c w \<bind> Node_StateMsg p st) = Some w' \<and> world_ok n w' \<and> tree_ok (heap w') K
    \<and> heap w' = (heap w)(p \<mapsto> nd\<lparr>mCalcFunc := c\<rparr>) \<and> unit_log w' = unit_log w"
proof -
  let ?w = "w\<lparr>heap := (heap w)(p \<mapsto> nd\<lparr>mCalcFunc := c\<rparr>)\<rparr>"
  have s: "set_calc p c w = Some ?w" "world_ok n ?w"
    using upd_world_ok [OF ok p, of "\<lambda>n. n\<lparr>mCalcFunc := c\<rparr>"] by (simp_all add: set_calc_def)
  have t: "tree_ok (heap ?w) K" using tree_ok_calc [OF tree p] by simp
  have p': "heap ?w p = Some (nd\<lparr>mCalcFunc := c\<rparr>)" by simp
  obtain q where "Node_StateMsg p st ?w = Some (?w\<lparr>mNodeEnds := q\<rparr>)" "world_ok n (?w\<lparr>mNodeEnds := q\<rparr>)"
    using Node_StateMsg_ok [OF s(2) p', of st] tree_neighbours [OF t p'] by blast
  then show ?thesis using s(1) t by auto
qed

text \<open>What a node runs after it is switched on or off.\<close>

definition switched :: "i32 \<Rightarrow> Node \<Rightarrow> NodeCalcFunc" where
  "switched r n = (if r \<noteq> 0 then (if mCalcFunc n = Cf_Node_NullCalc then (if mIsGroup n then Cf_Group_Calc else Cf_Graph_Calc) else mCalcFunc n)
     else if mCalcFunc n = Cf_Graph_FirstCalc \<and> \<not> mIsGroup n then Cf_Graph_NullFirstCalc else Cf_Node_NullCalc)"

lemma Node_SetRun_ok:
  assumes ok: "world_ok n w" and tree: "tree_ok (heap w) K" and p: "heap w p = Some nd"
  shows "\<exists>w'. Node_SetRun p r w = Some w' \<and> world_ok n w' \<and> tree_ok (heap w') K
    \<and> heap w' = (heap w)(p \<mapsto> nd\<lparr>mCalcFunc := switched r nd\<rparr>) \<and> unit_log w' = unit_log w"
proof (cases "switched r nd = mCalcFunc nd")
  case True
  have "nd\<lparr>mCalcFunc := mCalcFunc nd\<rparr> = nd" by simp
  then have "Node_SetRun p r w = Some w" "(heap w)(p \<mapsto> nd\<lparr>mCalcFunc := switched r nd\<rparr>) = heap w"
    using True p by (auto simp: Node_SetRun_def deref_def switched_def fun_upd_idem split: if_splits)
  then show ?thesis using ok tree by simp
next
  case False
  then have "Node_SetRun p r w = set_calc p (switched r nd) w \<bind> Node_StateMsg p (if r \<noteq> 0 then kNode_On else kNode_Off)"
    using p by (auto simp: Node_SetRun_def deref_def switched_def split: if_splits)
  then show ?thesis using set_and_tell [OF ok tree p, of "switched r nd" "if r \<noteq> 0 then kNode_On else kNode_Off"] by simp
qed

text \<open>
  Pausing a synth before its first block. Paused once and resumed, it stays paused: the resume
  is ignored, and its first block only calls the constructors. Paused twice and resumed, its first
  block calls the calculation functions of units whose constructors were never called.
\<close>

theorem pause_before_first_block:
  assumes ok: "world_ok n w" and tree: "tree_ok (heap w) K" and p: "heap w p = Some nd" "\<not> mIsGroup nd"
    and c: "mCalcFunc nd = Cf_Graph_FirstCalc" "gNumCalcUnits nd \<le> length (gCalcUnits nd)" and plug: "plug_ok plug"
  shows "(\<exists>w1 w2. do { w \<leftarrow> Node_SetRun p 0 w; Node_SetRun p 1 w } = Some w1
      \<and> heap w1 p = Some (nd\<lparr>mCalcFunc := Cf_Graph_NullFirstCalc\<rparr>)
      \<and> Node_Calc 1 plug p w1 = Some w2 \<and> unit_log w2 = unit_log w @ ctor_events p nd)
    \<and> (\<exists>w1 w2. do { w \<leftarrow> Node_SetRun p 0 w; w \<leftarrow> Node_SetRun p 0 w; Node_SetRun p 1 w } = Some w1
      \<and> heap w1 p = Some (nd\<lparr>mCalcFunc := Cf_Graph_Calc\<rparr>)
      \<and> Node_Calc 1 plug p w1 = Some w2 \<and> unit_log w2 = unit_log w @ calc_events p nd)"
proof -
  have step: "\<exists>w'. Node_SetRun p r w = Some w' \<and> world_ok n w' \<and> tree_ok (heap w') K
      \<and> heap w' p = Some (nd\<lparr>mCalcFunc := switched r (nd\<lparr>mCalcFunc := f\<rparr>)\<rparr>) \<and> unit_log w' = unit_log w"
    if "world_ok n w" "tree_ok (heap w) K" "heap w p = Some (nd\<lparr>mCalcFunc := f\<rparr>)" for w r f
    using Node_SetRun_ok [OF that, of r] by auto
  have p0: "heap w p = Some (nd\<lparr>mCalcFunc := Cf_Graph_FirstCalc\<rparr>)" using p(1) c(1) by simp
  obtain w1 where w1: "Node_SetRun p 0 w = Some w1" "world_ok n w1" "tree_ok (heap w1) K"
    "heap w1 p = Some (nd\<lparr>mCalcFunc := Cf_Graph_NullFirstCalc\<rparr>)" "unit_log w1 = unit_log w"
    using step [OF ok tree p0, of 0] p(2) by (auto simp: switched_def)
  obtain w2 where w2: "Node_SetRun p 1 w1 = Some w2" "heap w2 p = Some (nd\<lparr>mCalcFunc := Cf_Graph_NullFirstCalc\<rparr>)"
    "unit_log w2 = unit_log w" using step [OF w1(2-4), of 1] w1(5) by (auto simp: switched_def)
  obtain w3 where w3: "Node_SetRun p 0 w1 = Some w3" "world_ok n w3" "tree_ok (heap w3) K"
    "heap w3 p = Some (nd\<lparr>mCalcFunc := Cf_Node_NullCalc\<rparr>)" "unit_log w3 = unit_log w"
    using step [OF w1(2-4), of 0] w1(5) by (auto simp: switched_def)
  obtain w4 where w4: "Node_SetRun p 1 w3 = Some w4" "heap w4 p = Some (nd\<lparr>mCalcFunc := Cf_Graph_Calc\<rparr>)"
    "unit_log w4 = unit_log w" using step [OF w3(2-4), of 1] w3(5) p(2) by (auto simp: switched_def)
  have ev: "ctor_events p (nd\<lparr>mCalcFunc := f\<rparr>) = ctor_events p nd" "calc_events p (nd\<lparr>mCalcFunc := f\<rparr>) = calc_events p nd" for f
    by (simp_all add: ctor_events_def calc_events_def)
  have "\<exists>w'. Node_Calc 1 plug p w2 = Some w' \<and> unit_log w' = unit_log w @ ctor_events p nd"
    using performs_FirstCalc(2) [OF plug w2(2)] c(2) w2(2,3) ev by (auto simp: performs_def deref_def)
  moreover have "\<exists>w'. Node_Calc 1 plug p w4 = Some w' \<and> unit_log w' = unit_log w @ calc_events p nd"
    using performs_Graph_Calc [OF plug w4(2)] c(2) w4(2,3) ev by (auto simp: performs_def deref_def)
  ultimately show ?thesis using w1(1) w2(1,2) w3(1) w4(1,2) by auto
qed

lemma lone_synth:
  "\<exists>w p. world_ok 3 w \<and> tree_ok (heap w) (\<lambda>_. []) \<and> heap w p = Some (dsp_synth 1 Cf_Graph_FirstCalc) \<and> unit_log w = []"
proof -
  let ?w0 = "(empty_world 4)\<lparr>defs := [5 \<mapsto> small_def]\<rparr>"
  have e: "allocs ?w0 = []" "heap ?w0 = Map.empty" "fresh ?w0 = 1" by (simp_all add: empty_world_def)
  have r0: "lib_ok 3 ?w0" using lib_ok_same_ids(1) [of 3 "empty_world 4" ?w0] empty_world_ok [of 3] by simp
  then have rep: "tree_rep 3 ?w0 (\<lambda>_. [])" using e(2) by (simp add: tree_rep_def tree_ok_def)
  have "node_map ?w0 j = None" for j
    using node_map_Some [OF r0, of j] e(2) by (cases "node_map ?w0 j") auto
  then obtain w1 where w1: "Node_New (Def 5) 1 ?w0 = Some (kSCErr_None, Some 1, w1)" "tree_rep 3 w1 (\<lambda>_. [])"
    "heap w1 = [1 \<mapsto> blank_node (Def 5) 1]" using Node_New_rep [OF rep e(1), of 1 "Def 5"] e(2,3) by auto
  have f: "same_queues ?w0 w1" by (rule Node_New_frame [OF w1(1)])
  have q: "nofree_ok 1024 (mNodeEnds w1)" "nofree_ok 512 (mDeleteGraphDefs w1)" "mRealTime w1" "defs w1 = [5 \<mapsto> small_def]"
    using f nofree_new_ok [of 10, where 'a = NodeEndMsg] nofree_new_ok [of 9, where 'a = ptr]
    by (simp_all add: same_queues_def empty_world_def)
  let ?w = "w1\<lparr>heap := [1 \<mapsto> dsp_synth 1 Cf_Graph_FirstCalc], unit_log := []\<rparr>"
  have "node_kv (heap ?w) p = node_kv (heap w1) p" for p using w1(3) by (simp add: node_kv_def dsp_synth_def)
  then have "lib_ok 3 ?w" using lib_ok_same_ids(1) [of 3 w1 ?w] w1(2) by (simp add: tree_rep_def)
  then have "world_ok 3 ?w" using q by (simp add: world_ok_def dsp_synth_def blank_node_def)
  moreover have "tree_ok (heap ?w) (\<lambda>_. [])" by (simp add: tree_ok_def links_ok_def kids_ok_def dsp_synth_def blank_node_def)
  ultimately show ?thesis by (intro exI [of _ ?w] exI [of _ 1]) simp
qed

theorem pause_before_first_block_witness:
  "\<exists>w w1 w2 p. do { w \<leftarrow> Node_SetRun p 0 w; w \<leftarrow> Node_SetRun p 0 w; Node_SetRun p 1 w } = Some w1
     \<and> unit_log w = [] \<and> Node_Calc 1 (\<lambda>_. Some) p w1 = Some w2 \<and> unit_log w2 = [Unit_Calc p 1]"
proof -
  obtain w p where w: "world_ok 3 w" "tree_ok (heap w) (\<lambda>_. [])" "heap w p = Some (dsp_synth 1 Cf_Graph_FirstCalc)" "unit_log w = []"
    using lone_synth by blast
  have s: "\<not> mIsGroup (dsp_synth 1 Cf_Graph_FirstCalc)" "mCalcFunc (dsp_synth 1 Cf_Graph_FirstCalc) = Cf_Graph_FirstCalc"
    "gNumCalcUnits (dsp_synth 1 Cf_Graph_FirstCalc) \<le> length (gCalcUnits (dsp_synth 1 Cf_Graph_FirstCalc))"
    "calc_events p (dsp_synth 1 Cf_Graph_FirstCalc) = [Unit_Calc p 1]"
    by (simp_all add: dsp_synth_def blank_node_def calc_events_def)
  show ?thesis using pause_before_first_block [OF w(1-3) s(1-3) quiet_plug] w(4) s(4) by fastforce
qed

end
