(* ===== verification/SC_Query.thy ===== *)
theory SC_Query
  imports SC_Calc
begin

text \<open>
  Asking for the node tree: the counting of type tags and the writing of the reply, \<open>SC_Group.cpp\<close>.
  The names of definitions and controls are memory read as C strings.
\<close>

section \<open>Counting the tags\<close>

fun Group_CountNodeTags :: "nat \<Rightarrow> ptr \<Rightarrow> World \<Rightarrow> nat \<Rightarrow> nat option"
  and count_children_tags :: "nat \<Rightarrow> ptr option \<Rightarrow> World \<Rightarrow> nat \<Rightarrow> nat option" where
  "Group_CountNodeTags 0 inGroup w cnt = None"
| "Group_CountNodeTags (Suc k) inGroup w cnt = do { g \<leftarrow> deref w inGroup; count_children_tags k (mHead g) w cnt }"
| "count_children_tags 0 child w cnt = None"
| "count_children_tags (Suc k) None w cnt = Some cnt"
| "count_children_tags (Suc k) (Some child) w cnt = do {
     c \<leftarrow> deref w child;
     cnt \<leftarrow> (if mIsGroup c then Group_CountNodeTags k child w (cnt + 2) else Some (cnt + 2 + 1));
     count_children_tags k (mNext c) w cnt }"

fun Group_CountNodeAndControlTags :: "nat \<Rightarrow> ptr \<Rightarrow> World \<Rightarrow> nat \<Rightarrow> nat \<Rightarrow> (nat \<times> nat) option"
  and count_children_control_tags :: "nat \<Rightarrow> ptr option \<Rightarrow> World \<Rightarrow> nat \<Rightarrow> nat \<Rightarrow> (nat \<times> nat) option" where
  "Group_CountNodeAndControlTags 0 inGroup w cnt cds = None"
| "Group_CountNodeAndControlTags (Suc k) inGroup w cnt cds = do {
     g \<leftarrow> deref w inGroup;
     count_children_control_tags k (mHead g) w cnt cds }"
| "count_children_control_tags 0 child w cnt cds = None"
| "count_children_control_tags (Suc k) None w cnt cds = Some (cnt, cds)"
| "count_children_control_tags (Suc k) (Some child) w cnt cds = do {
     c \<leftarrow> deref w child;
     (cnt, cds) \<leftarrow> (if mIsGroup c then Group_CountNodeAndControlTags k child w (cnt + 1) cds
                    else Some (cnt + 1, cds + (gNumControls c * 2 + 2)));
     count_children_control_tags k (mNext c) w cnt cds }"

section \<open>Writing the reply\<close>

text \<open>Words of memory as characters.\<close>

definition word_chars :: "i32 list \<Rightarrow> u8 list" where
  "word_chars ws = concat (List.map le32_bytes ws)"

fun count_children :: "nat \<Rightarrow> ptr option \<Rightarrow> World \<Rightarrow> nat \<Rightarrow> nat option" where
  "count_children 0 child w cnt = None"
| "count_children (Suc k) None w cnt = Some cnt"
| "count_children (Suc k) (Some child) w cnt = do {
     c \<leftarrow> deref w child;
     count_children k (mNext c) w (cnt + 1) }"

definition query_synth :: "ptr \<Rightarrow> World \<Rightarrow> scpacket \<Rightarrow> scpacket option" where
  "query_synth child w packet = do {
     c \<leftarrow> deref w child;
     packet \<leftarrow> addtag tag_i packet;
     packet \<leftarrow> addtag tag_i packet;
     packet \<leftarrow> addtag tag_s packet;
     packet \<leftarrow> addi (mID c) packet;
     packet \<leftarrow> addi (-1) packet;
     d \<leftarrow> GRAPHDEF w c;
     adds (word_chars (dName d)) packet }"

definition query_group :: "nat \<Rightarrow> Node \<Rightarrow> World \<Rightarrow> scpacket \<Rightarrow> scpacket option" where
  "query_group k g w packet = do {
     packet \<leftarrow> addtag tag_i packet;
     packet \<leftarrow> addi (mID g) packet;
     cnt \<leftarrow> count_children k (mHead g) w 0;
     packet \<leftarrow> addtag tag_i packet;
     addi (of_nat cnt) packet }"

fun Group_QueryTree :: "nat \<Rightarrow> ptr \<Rightarrow> World \<Rightarrow> scpacket \<Rightarrow> scpacket option"
  and query_children :: "nat \<Rightarrow> ptr option \<Rightarrow> World \<Rightarrow> scpacket \<Rightarrow> scpacket option" where
  "Group_QueryTree 0 inGroup w packet = None"
| "Group_QueryTree (Suc k) inGroup w packet = do {
     g \<leftarrow> deref w inGroup;
     packet \<leftarrow> query_group k g w packet;
     query_children k (mHead g) w packet }"
| "query_children 0 child w packet = None"
| "query_children (Suc k) None w packet = Some packet"
| "query_children (Suc k) (Some child) w packet = do {
     c \<leftarrow> deref w child;
     packet \<leftarrow> (if mIsGroup c then Group_QueryTree k child w packet else query_synth child w packet);
     query_children k (mNext c) w packet }"

text \<open>
  The decimal digits \<open>sprintf\<close> writes. The text \<open>c\<close> followed by the number of a bus goes into ten
  bytes; a pointer into another array than the control buses has no defined distance from them.
\<close>

function digits :: "nat \<Rightarrow> u8 list" where
  "digits n = (if n < 10 then [of_nat (48 + n)] else digits (n div 10) @ [of_nat (48 + n mod 10)])"
  by pat_completeness auto
termination by (relation "measure (\<lambda>n. n)") auto

declare digits.simps [simp del]

definition mapped_name :: "control_ptr \<Rightarrow> u8 list option" where
  "mapped_name c = (case c of
     ControlBus b \<Rightarrow> (let s = chr_c # digits b @ [0] in if length s \<le> 10 then Some s else None)
   | _ \<Rightarrow> None)"

definition query_control :: "Node \<Rightarrow> i32 list option list \<Rightarrow> nat \<Rightarrow> scpacket \<Rightarrow> scpacket option" where
  "query_control c names i packet = do {
     name \<leftarrow> aread names i;
     packet \<leftarrow> (case name of
        Some nm \<Rightarrow> do { packet \<leftarrow> addtag tag_s packet; adds (word_chars nm) packet }
      | None \<Rightarrow> do { packet \<leftarrow> addtag tag_i packet; addi (of_nat i) packet });
     m \<leftarrow> aread (gMapControls c) i;
     if m \<noteq> OwnControl i then do {
       buf \<leftarrow> mapped_name m;
       packet \<leftarrow> addtag tag_s packet;
       adds buf packet }
     else do {
       v \<leftarrow> aread (gControls c) i;
       packet \<leftarrow> addtag tag_f packet;
       addf v packet } }"

fun query_controls :: "Node \<Rightarrow> i32 list option list \<Rightarrow> nat list \<Rightarrow> scpacket \<Rightarrow> scpacket option" where
  "query_controls c names [] packet = Some packet"
| "query_controls c names (i # is') packet = do {
     packet \<leftarrow> query_control c names i packet;
     query_controls c names is' packet }"

definition query_synth_controls :: "ptr \<Rightarrow> World \<Rightarrow> scpacket \<Rightarrow> scpacket option" where
  "query_synth_controls child w packet = do {
     packet \<leftarrow> query_synth child w packet;
     c \<leftarrow> deref w child;
     packet \<leftarrow> addtag tag_i packet;
     packet \<leftarrow> addi (of_nat (gNumControls c)) packet;
     d \<leftarrow> GRAPHDEF w c;
     names \<leftarrow> stash_names d (gNumControls c);
     query_controls c names [0..<gNumControls c] packet }"

fun Group_QueryTreeAndControls :: "nat \<Rightarrow> ptr \<Rightarrow> World \<Rightarrow> scpacket \<Rightarrow> scpacket option"
  and query_children_controls :: "nat \<Rightarrow> ptr option \<Rightarrow> World \<Rightarrow> scpacket \<Rightarrow> scpacket option" where
  "Group_QueryTreeAndControls 0 inGroup w packet = None"
| "Group_QueryTreeAndControls (Suc k) inGroup w packet = do {
     g \<leftarrow> deref w inGroup;
     packet \<leftarrow> query_group k g w packet;
     query_children_controls k (mHead g) w packet }"
| "query_children_controls 0 child w packet = None"
| "query_children_controls (Suc k) None w packet = Some packet"
| "query_children_controls (Suc k) (Some child) w packet = do {
     c \<leftarrow> deref w child;
     packet \<leftarrow> (if mIsGroup c then Group_QueryTreeAndControls k child w packet else query_synth_controls child w packet);
     query_children_controls k (mNext c) w packet }"

section \<open>What is asked for is what is written\<close>

definition c_chars :: "i32 list \<Rightarrow> u8 list" where
  "c_chars ws = takeWhile (\<lambda>c. c \<noteq> 0) (word_chars ws)"

lemma adds_chars: "0 \<in> set (word_chars ws) \<Longrightarrow> adds (word_chars ws) p = add_value (Arg_s (c_chars ws)) p"
proof -
  assume z: "0 \<in> set (word_chars ws)"
  have split: "word_chars ws = c_chars ws @ dropWhile (\<lambda>c. c \<noteq> 0) (word_chars ws)" by (simp add: c_chars_def)
  moreover obtain r where "dropWhile (\<lambda>c. c \<noteq> 0) (word_chars ws) = 0 # r"
    using z hd_dropWhile [of "\<lambda>c. c \<noteq> 0" "word_chars ws"] by (cases "dropWhile (\<lambda>c. c \<noteq> 0) (word_chars ws)") (auto simp: dropWhile_eq_Nil_conv)
  ultimately have e: "word_chars ws = c_chars ws @ 0 # r" by simp
  have nz: "0 \<notin> set (c_chars ws)" by (auto simp: c_chars_def dest: set_takeWhileD)
  have "cstrlen (c_chars ws @ 0 # r) = Some (length (c_chars ws))" "cstrlen (c_chars ws @ [0]) = Some (length (c_chars ws))"
    using cstrlen_terminated [OF nz] by simp_all
  then have "adds (c_chars ws @ 0 # r) p = adds (c_chars ws @ [0]) p" by (simp add: adds_def Let_def cong: if_cong)
  then show ?thesis unfolding e by simp
qed

definition synth_ops :: "World \<Rightarrow> Node \<Rightarrow> packet_op list" where
  "synth_ops w n = [Tag tag_i, Tag tag_i, Tag tag_s, Val (Arg_i (mID n)), Val (Arg_i (-1)),
     Val (Arg_s (case GRAPHDEF w n of None \<Rightarrow> [] | Some d \<Rightarrow> c_chars (dName d)))]"

definition group_ops :: "Node \<Rightarrow> nat \<Rightarrow> packet_op list" where
  "group_ops n c = [Tag tag_i, Val (Arg_i (mID n)), Tag tag_i, Val (Arg_i (of_nat c))]"

fun query_ops :: "World \<Rightarrow> ntree \<Rightarrow> packet_op list" where
  "query_ops w (NT p ts) = (case heap w p of None \<Rightarrow> [] | Some n \<Rightarrow>
     if mIsGroup n then group_ops n (length ts) @ concat (List.map (query_ops w) ts) else synth_ops w n)"

text \<open>Every synth has a definition with a terminated name.\<close>

definition all_named :: "World \<Rightarrow> ntree \<Rightarrow> bool" where
  "all_named w t \<longleftrightarrow> (\<forall>x \<in> set (nodes t). \<forall>n. heap w x = Some n \<longrightarrow> \<not> mIsGroup n \<longrightarrow>
     (\<exists>d. GRAPHDEF w n = Some d \<and> 0 \<in> set (word_chars (dName d))))"

lemma query_synth_ops:
  assumes "heap w p = Some n" and "GRAPHDEF w n = Some d" and "0 \<in> set (word_chars (dName d))"
  shows "query_synth p w pk = write_ops (synth_ops w n) pk"
proof -
  have "adds (word_chars (dName d)) = add_value (Arg_s (c_chars (dName d)))" using adds_chars [OF assms(3)] by blast
  then show ?thesis using assms(1,2) by (simp add: query_synth_def deref_def synth_ops_def write_ops_fun del: add_value.simps)
qed

lemma count_children_length:
  "chain_ok (heap w) ts \<Longrightarrow> length ts < k \<Longrightarrow> count_children k (first_of (List.map nroot ts)) w c = Some (c + length ts)"
proof (induction ts arbitrary: k c)
  case Nil
  then show ?case by (cases k) simp_all
next
  case (Cons t ts)
  then obtain k' where "k = Suc k'" by (cases k) auto
  then show ?case using Cons by (auto simp: deref_def)
qed

lemma query_group_ops:
  assumes "chain_ok (heap w) ts" and "length ts < k" and "mHead g = first_of (List.map nroot ts)"
  shows "query_group k g w pk = write_ops (group_ops g (length ts)) pk"
  using count_children_length [OF assms(1,2)] assms(3)
  by (simp add: query_group_def group_ops_def write_ops_fun del: add_value.simps)

lemma query_children_ops:
  assumes each: "\<And>t k pk. t \<in> set ts \<Longrightarrow> sub_ok (heap w) t \<Longrightarrow> all_named w t \<Longrightarrow> fuel_of t \<le> k \<Longrightarrow>
      (\<exists>n. heap w (nroot t) = Some n \<and> (if mIsGroup n then Group_QueryTree k (nroot t) w pk else query_synth (nroot t) w pk) = write_ops (query_ops w t) pk)"
  shows "chain_ok (heap w) ts \<Longrightarrow> \<forall>t \<in> set ts. all_named w t \<Longrightarrow> 1 + sum_list (List.map fuel_of ts) \<le> k \<Longrightarrow>
    query_children k (first_of (List.map nroot ts)) w pk = write_ops (concat (List.map (query_ops w) ts)) pk"
  using each
proof (induction ts arbitrary: k pk)
  case Nil
  then show ?case by (cases k) simp_all
next
  case (Cons t ts)
  obtain k' where k: "k = Suc k'" using Cons.prems(3) by (cases k) auto
  have "4 \<le> fuel_of t" by (cases t) simp
  then have ft: "fuel_of t \<le> k'" "1 + sum_list (List.map fuel_of ts) \<le> k'" using Cons.prems(3) k by simp_all
  obtain nd where nd: "heap w (nroot t) = Some nd" "mNext nd = first_of (List.map nroot ts)" "sub_ok (heap w) t" "chain_ok (heap w) ts"
    using Cons.prems(1) by auto
  have one: "(if mIsGroup nd then Group_QueryTree k' (nroot t) w pk else query_synth (nroot t) w pk) = write_ops (query_ops w t) pk" for pk
    using Cons.prems(4) [of t k' pk] nd(1,3) Cons.prems(2) ft(1) by simp
  have rest: "query_children k' (first_of (List.map nroot ts)) w = write_ops (concat (List.map (query_ops w) ts))"
    using Cons.IH [OF nd(4) _ ft(2)] Cons.prems(2,4) by (simp add: fun_eq_iff)
  have "query_children k (first_of (List.map nroot (t # ts))) w pk = write_ops (query_ops w t) pk \<bind> write_ops (concat (List.map (query_ops w) ts))"
    unfolding rest [symmetric] one [symmetric] using k nd(1,2) by (simp add: deref_def)
  then show ?case by (simp add: write_ops_append)
qed

lemma Group_QueryTree_root:
  assumes p: "heap w p = Some nd" "mIsGroup nd" "mHead nd = first_of (List.map nroot ts)" and c: "chain_ok (heap w) ts"
    and n: "\<forall>t \<in> set ts. all_named w t" and k: "2 + sum_list (List.map fuel_of ts) \<le> k"
    and each: "\<And>t k pk. t \<in> set ts \<Longrightarrow> sub_ok (heap w) t \<Longrightarrow> all_named w t \<Longrightarrow> fuel_of t \<le> k \<Longrightarrow>
      (\<exists>n. heap w (nroot t) = Some n \<and> (if mIsGroup n then Group_QueryTree k (nroot t) w pk else query_synth (nroot t) w pk) = write_ops (query_ops w t) pk)"
  shows "Group_QueryTree k p w pk = write_ops (query_ops w (NT p ts)) pk"
proof -
  obtain k' where k': "k = Suc k'" "1 + sum_list (List.map fuel_of ts) \<le> k'" using k by (cases k) auto
  have "length ts < k'" using k'(2) length_kids_fuel [of ts] by simp
  then have "query_group k' nd w pk = write_ops (group_ops nd (length ts)) pk" by (rule query_group_ops [OF c _ p(3)])
  moreover have "query_children k' (mHead nd) w = write_ops (concat (List.map (query_ops w) ts))"
    unfolding p(3) using query_children_ops [OF each c n k'(2)] by (simp add: fun_eq_iff)
  ultimately show ?thesis using p k'(1) by (simp add: deref_def write_ops_append)
qed

lemma query_node_ops:
  "sub_ok (heap w) t \<Longrightarrow> all_named w t \<Longrightarrow> fuel_of t \<le> k \<Longrightarrow>
    \<exists>n. heap w (nroot t) = Some n \<and> (if mIsGroup n then Group_QueryTree k (nroot t) w pk else query_synth (nroot t) w pk) = write_ops (query_ops w t) pk"
proof (induction t arbitrary: k pk)
  case (NT p ts)
  obtain nd where nd: "heap w p = Some nd" "if mIsGroup nd then mHead nd = first_of (List.map nroot ts) else ts = []" "chain_ok (heap w) ts"
    using NT.prems(1) by auto
  show ?case
  proof (cases "mIsGroup nd")
    case True
    have n: "\<forall>t \<in> set ts. all_named w t" using NT.prems(2) by (auto simp: all_named_def)
    have "mHead nd = first_of (List.map nroot ts)" using nd(2) True by simp
    moreover have "2 + sum_list (List.map fuel_of ts) \<le> k" using NT.prems(3) by simp
    ultimately have "Group_QueryTree k p w pk = write_ops (query_ops w (NT p ts)) pk"
      using Group_QueryTree_root [OF nd(1) True _ nd(3) n _ NT.IH] by blast
    then show ?thesis using nd(1) True by simp
  next
    case False
    then obtain d where "GRAPHDEF w nd = Some d" "0 \<in> set (word_chars (dName d))" using NT.prems(2) nd(1) by (auto simp: all_named_def)
    then show ?thesis using query_synth_ops [OF nd(1)] nd(1) False by simp
  qed
qed

text \<open>The body of the loop of \<open>g_queryTree\<close>: the packet already holds the address.\<close>

definition g_queryTree_packet :: "nat \<Rightarrow> bool \<Rightarrow> ptr \<Rightarrow> World \<Rightarrow> scpacket \<Rightarrow> scpacket option" where
  "g_queryTree_packet k flag inGroup w packet =
     (if flag then do {
        (numNodes, numControlsAndDefs) \<leftarrow> Group_CountNodeAndControlTags k inGroup w 1 0;
        packet \<leftarrow> maketags (numNodes * 2 + numControlsAndDefs + 2) packet;
        packet \<leftarrow> addtag 44 packet;
        packet \<leftarrow> addtag tag_i packet;
        packet \<leftarrow> addi 1 packet;
        Group_QueryTreeAndControls k inGroup w packet }
      else do {
        numNodeTags \<leftarrow> Group_CountNodeTags k inGroup w 2;
        packet \<leftarrow> maketags (numNodeTags + 2) packet;
        packet \<leftarrow> addtag 44 packet;
        packet \<leftarrow> addtag tag_i packet;
        packet \<leftarrow> addi 0 packet;
        Group_QueryTree k inGroup w packet })"

lemma count_children_ops:
  assumes each: "\<And>t k c. t \<in> set ts \<Longrightarrow> sub_ok (heap w) t \<Longrightarrow> fuel_of t \<le> k \<Longrightarrow>
      (\<exists>n. heap w (nroot t) = Some n \<and> (if mIsGroup n then Group_CountNodeTags k (nroot t) w (c + 2) else Some (c + 2 + 1))
        = Some (c + length (op_tags (query_ops w t))))"
  shows "chain_ok (heap w) ts \<Longrightarrow> 1 + sum_list (List.map fuel_of ts) \<le> k \<Longrightarrow>
    count_children_tags k (first_of (List.map nroot ts)) w c = Some (c + length (op_tags (concat (List.map (query_ops w) ts))))"
  using each
proof (induction ts arbitrary: k c)
  case Nil
  then show ?case by (cases k) simp_all
next
  case (Cons t ts)
  obtain k' where k: "k = Suc k'" using Cons.prems(2) by (cases k) auto
  have "4 \<le> fuel_of t" by (cases t) simp
  then have ft: "fuel_of t \<le> k'" "1 + sum_list (List.map fuel_of ts) \<le> k'" using Cons.prems(2) k by simp_all
  obtain nd where nd: "heap w (nroot t) = Some nd" "mNext nd = first_of (List.map nroot ts)" "sub_ok (heap w) t" "chain_ok (heap w) ts"
    using Cons.prems(1) by auto
  have one: "(if mIsGroup nd then Group_CountNodeTags k' (nroot t) w (c + 2) else Some (c + 2 + 1)) = Some (c + length (op_tags (query_ops w t)))"
    using Cons.prems(3) [of t k' c] nd(1,3) ft(1) by simp
  have "count_children_tags k' (first_of (List.map nroot ts)) w c' = Some (c' + length (op_tags (concat (List.map (query_ops w) ts))))" for c'
    using Cons.IH [OF nd(4) ft(2)] Cons.prems(3) by simp
  then show ?case using k nd(1,2) one by (simp add: deref_def)
qed

lemma count_root_ops:
  assumes p: "heap w p = Some nd" "mIsGroup nd" "mHead nd = first_of (List.map nroot ts)" and c: "chain_ok (heap w) ts"
    and k: "2 + sum_list (List.map fuel_of ts) \<le> k"
    and each: "\<And>t k c. t \<in> set ts \<Longrightarrow> sub_ok (heap w) t \<Longrightarrow> fuel_of t \<le> k \<Longrightarrow>
      (\<exists>n. heap w (nroot t) = Some n \<and> (if mIsGroup n then Group_CountNodeTags k (nroot t) w (c + 2) else Some (c + 2 + 1))
        = Some (c + length (op_tags (query_ops w t))))"
  shows "Group_CountNodeTags k p w (x + 2) = Some (x + length (op_tags (query_ops w (NT p ts))))"
proof -
  obtain k' where k': "k = Suc k'" "1 + sum_list (List.map fuel_of ts) \<le> k'" using k by (cases k) auto
  have "count_children_tags k' (mHead nd) w (x + 2) = Some (x + 2 + length (op_tags (concat (List.map (query_ops w) ts))))"
    unfolding p(3) by (rule count_children_ops [OF each c k'(2)])
  then show ?thesis using p(1,2) k'(1) by (simp add: deref_def group_ops_def)
qed

lemma count_node_ops:
  "sub_ok (heap w) t \<Longrightarrow> fuel_of t \<le> k \<Longrightarrow>
    \<exists>n. heap w (nroot t) = Some n \<and> (if mIsGroup n then Group_CountNodeTags k (nroot t) w (c + 2) else Some (c + 2 + 1))
      = Some (c + length (op_tags (query_ops w t)))"
proof (induction t arbitrary: k c)
  case (NT p ts)
  obtain nd where nd: "heap w p = Some nd" "if mIsGroup nd then mHead nd = first_of (List.map nroot ts) else ts = []" "chain_ok (heap w) ts"
    using NT.prems(1) by auto
  show ?case
  proof (cases "mIsGroup nd")
    case True
    have "mHead nd = first_of (List.map nroot ts)" using nd(2) True by simp
    moreover have "2 + sum_list (List.map fuel_of ts) \<le> k" using NT.prems(2) by simp
    ultimately have "Group_CountNodeTags k p w (c + 2) = Some (c + length (op_tags (query_ops w (NT p ts))))"
      using count_root_ops [OF nd(1) True _ nd(3) _ NT.IH] by blast
    then show ?thesis using nd(1) True by simp
  qed (use nd in \<open>simp add: synth_ops_def\<close>)
qed

text \<open>The reply's arguments: the identifier and the number of children of each node, -1 and the definition's name for a synth.\<close>

fun query_args :: "World \<Rightarrow> ntree \<Rightarrow> osc_arg list" where
  "query_args w (NT p ts) = (case heap w p of None \<Rightarrow> [] | Some n \<Rightarrow>
     if mIsGroup n then [Arg_i (mID n), Arg_i (of_nat (length ts))] @ concat (List.map (query_args w) ts)
     else [Arg_i (mID n), Arg_i (-1), Arg_s (case GRAPHDEF w n of None \<Rightarrow> [] | Some d \<Rightarrow> c_chars (dName d))])"

lemma query_ops_args: "op_vals (query_ops w t) = query_args w t \<and> op_tags (query_ops w t) = List.map arg_tag (query_args w t)"
proof (induction t)
  case (NT p ts)
  have e: "List.map (op_vals \<circ> query_ops w) ts = List.map (query_args w) ts"
    "List.map (op_tags \<circ> query_ops w) ts = List.map (List.map arg_tag \<circ> query_args w) ts" using NT.IH by simp_all
  show ?case by (simp only: query_ops.simps query_args.simps)
    (simp add: op_concat map_concat map_map e group_ops_def synth_ops_def del: map_eq_conv split: option.split)
qed

lemma query_args_ok: "a \<in> set (query_args w t) \<Longrightarrow> arg_ok a"
proof (induction t)
  case (NT p ts)
  have nz: "0 \<notin> set (c_chars ws)" for ws by (auto simp: c_chars_def dest: set_takeWhileD)
  show ?case using NT by (auto simp: nz split: option.splits if_splits)
qed



end
