(* ===== verification/SC_Notify.thy ===== *)
theory SC_Notify
  imports SC_Query
begin

text \<open>
  Messages to the clients: the replies of \<open>server/scsynth/SC_Lib.cpp\<close> and the messages that the
  non-real-time thread makes out of the engine's queues, \<open>SC_World.cpp\<close>. A reply address is a number;
  0 is the address whose reply function does nothing. A packet starts out with zeros in its buffer.
\<close>

section \<open>Replies\<close>

definition cstr :: "string \<Rightarrow> u8 list" where
  "cstr s = List.map of_char s @ [0]"

definition small_scpacket :: scpacket where
  "small_scpacket = \<lparr>wrpos = 0, msgsizepos = 0, tagwrpos = 0, inbundle = 0, buf = replicate 8192 0\<rparr>"

definition big_scpacket :: scpacket where
  "big_scpacket = \<lparr>wrpos = 0, msgsizepos = 0, tagwrpos = 0, inbundle = 0, buf = replicate 65516 0\<rparr>"

definition SendReply :: "nat \<Rightarrow> u8 list \<Rightarrow> World \<Rightarrow> World" where
  "SendReply addr inBuf w = (if addr = 0 then w else w\<lparr>mReplies := mReplies w @ [(addr, inBuf)]\<rparr>)"

fun addtags :: "u8 list \<Rightarrow> scpacket \<Rightarrow> scpacket option" where
  "addtags [] packet = Some packet"
| "addtags (c # cs) packet = do { packet \<leftarrow> addtag c packet; addtags cs packet }"

definition SendDone :: "nat \<Rightarrow> u8 list \<Rightarrow> World \<Rightarrow> World option" where
  "SendDone inReply inCommandName w = do {
     packet \<leftarrow> adds (cstr ''/done'') small_scpacket;
     packet \<leftarrow> maketags 2 packet;
     packet \<leftarrow> addtags [44, tag_s] packet;
     packet \<leftarrow> adds inCommandName packet;
     Some (SendReply inReply (packet_data packet) w) }"

definition SendDoneWithIntValue :: "nat \<Rightarrow> u8 list \<Rightarrow> i32 \<Rightarrow> World \<Rightarrow> World option" where
  "SendDoneWithIntValue inReply inCommandName v w = do {
     packet \<leftarrow> adds (cstr ''/done'') small_scpacket;
     packet \<leftarrow> maketags 3 packet;
     packet \<leftarrow> addtags [44, tag_s] packet;
     packet \<leftarrow> adds inCommandName packet;
     packet \<leftarrow> addtag tag_i packet;
     packet \<leftarrow> addi v packet;
     Some (SendReply inReply (packet_data packet) w) }"

definition SendFailure :: "nat \<Rightarrow> u8 list \<Rightarrow> u8 list \<Rightarrow> World \<Rightarrow> World option" where
  "SendFailure inReply inCommandName errString w = do {
     packet \<leftarrow> adds (cstr ''/fail'') small_scpacket;
     packet \<leftarrow> maketags 3 packet;
     packet \<leftarrow> addtags [44, tag_s, tag_s] packet;
     packet \<leftarrow> adds inCommandName packet;
     packet \<leftarrow> adds errString packet;
     Some (SendReply inReply (packet_data packet) w) }"

definition SendFailureWithBufnum :: "nat \<Rightarrow> u8 list \<Rightarrow> u8 list \<Rightarrow> u32 \<Rightarrow> World \<Rightarrow> World option" where
  "SendFailureWithBufnum inReply inCommandName errString index w = do {
     packet \<leftarrow> adds (cstr ''/fail'') small_scpacket;
     packet \<leftarrow> maketags 4 packet;
     packet \<leftarrow> addtags [44, tag_s, tag_s] packet;
     packet \<leftarrow> adds inCommandName packet;
     packet \<leftarrow> adds errString packet;
     packet \<leftarrow> addtag tag_i packet;
     packet \<leftarrow> addi index packet;
     Some (SendReply inReply (packet_data packet) w) }"

definition ReportLateness :: "nat \<Rightarrow> f32 \<Rightarrow> World \<Rightarrow> World option" where
  "ReportLateness inReply seconds w = do {
     packet \<leftarrow> adds (cstr ''/late'') small_scpacket;
     packet \<leftarrow> maketags 2 packet;
     packet \<leftarrow> addtags [44, tag_f] packet;
     packet \<leftarrow> addf seconds packet;
     Some (SendReply inReply (packet_data packet) w) }"

section \<open>Notifications\<close>

fun SendReply_all :: "nat list \<Rightarrow> u8 list \<Rightarrow> World \<Rightarrow> World" where
  "SendReply_all [] inBuf w = w"
| "SendReply_all (u # us) inBuf w = SendReply_all us inBuf (SendReply u inBuf w)"

definition TriggerMsg_Perform :: "TriggerMsg \<Rightarrow> World \<Rightarrow> World option" where
  "TriggerMsg_Perform msg w = do {
     packet \<leftarrow> adds (cstr ''/tr'') small_scpacket;
     packet \<leftarrow> maketags 4 packet;
     packet \<leftarrow> addtags [44, tag_i, tag_i, tag_f] packet;
     packet \<leftarrow> addi (mtNodeID msg) packet;
     packet \<leftarrow> addi (mtTriggerID msg) packet;
     packet \<leftarrow> addf (mtValue msg) packet;
     Some (SendReply_all (mUsers w) (packet_data packet) w) }"

fun add_floats :: "f32 list \<Rightarrow> scpacket \<Rightarrow> scpacket option" where
  "add_floats [] packet = Some packet"
| "add_floats (v # vs) packet = do {
     packet \<leftarrow> addtag tag_f packet;
     packet \<leftarrow> addf v packet;
     add_floats vs packet }"

definition NodeReplyMsg_Perform :: "NodeReplyMsg \<Rightarrow> World \<Rightarrow> World option" where
  "NodeReplyMsg_Perform msg w = do {
     packet \<leftarrow> adds_len (mrCmdName msg) (length (mrCmdName msg)) small_scpacket;
     packet \<leftarrow> maketags (3 + length (mrValues msg)) packet;
     packet \<leftarrow> addtags [44, tag_i] packet;
     packet \<leftarrow> addi (mrNodeID msg) packet;
     packet \<leftarrow> addtag tag_i packet;
     packet \<leftarrow> addi (mrID msg) packet;
     packet \<leftarrow> add_floats (mrValues msg) packet;
     let w = SendReply_all (mUsers w) (packet_data packet) w;
     (_, q) \<leftarrow> MsgFifo_Free 1024 (mToEngine w);
     (_, q) \<leftarrow> MsgFifo_Write 1024 NodeReplyMsg_RTFree q;
     Some (w\<lparr>mToEngine := q\<rparr>) }"

fun state_path :: "NodeState \<Rightarrow> string" where
  "state_path kNode_Go = ''/n_go''"
| "state_path kNode_End = ''/n_end''"
| "state_path kNode_On = ''/n_on''"
| "state_path kNode_Off = ''/n_off''"
| "state_path kNode_Move = ''/n_move''"
| "state_path kNode_Info = ''/n_info''"

fun addints :: "i32 list \<Rightarrow> scpacket \<Rightarrow> scpacket option" where
  "addints [] packet = Some packet"
| "addints (i # is') packet = do { packet \<leftarrow> addi i packet; addints is' packet }"

definition NodeEndMsg_Perform :: "NodeEndMsg \<Rightarrow> World \<Rightarrow> World option" where
  "NodeEndMsg_Perform msg w = do {
     packet \<leftarrow> adds (cstr (state_path (meState msg))) small_scpacket;
     packet \<leftarrow>
       (if meIsGroup msg \<noteq> 0 then do {
          packet \<leftarrow> maketags 8 packet;
          packet \<leftarrow> addtags [44, tag_i, tag_i, tag_i, tag_i, tag_i, tag_i, tag_i] packet;
          addints [meNodeID msg, meGroupID msg, mePrevNodeID msg, meNextNodeID msg, meIsGroup msg, meHeadID msg, meTailID msg] packet }
        else do {
          packet \<leftarrow> maketags 6 packet;
          packet \<leftarrow> addtags [44, tag_i, tag_i, tag_i, tag_i, tag_i] packet;
          addints [meNodeID msg, meGroupID msg, mePrevNodeID msg, meNextNodeID msg, meIsGroup msg] packet });
     Some (SendReply_all (mUsers w) (packet_data packet) w) }"

definition DeleteGraphDefMsg_Perform :: "ptr \<Rightarrow> World \<Rightarrow> World option" where
  "DeleteGraphDefMsg_Perform inDef w = GraphDef_Free inDef w"

definition NotifyNoArgs :: "u8 list \<Rightarrow> World \<Rightarrow> World option" where
  "NotifyNoArgs inString w = do {
     packet \<leftarrow> adds inString small_scpacket;
     Some (SendReply_all (mUsers w) (packet_data packet) w) }"

section \<open>What the clients get\<close>

text \<open>The bytes of a message.\<close>

definition osc_msg :: "u8 list \<Rightarrow> osc_arg list \<Rightarrow> u8 list" where
  "osc_msg path as = pad_str path @ pad_str (44 # map arg_tag as) @ enc_values as"

lemma addtags_ops: "addtags cs = write_ops (List.map Tag cs)"
proof
  show "addtags cs p = write_ops (List.map Tag cs) p" for p
    by (induction cs arbitrary: p) (auto split: bind_split)
qed

lemma addints_ops: "addints is' = write_ops (List.map (\<lambda>i. Val (Arg_i i)) is')"
proof
  show "addints is' p = write_ops (List.map (\<lambda>i. Val (Arg_i i)) is') p" for p
    by (induction is' arbitrary: p) (auto split: bind_split)
qed

lemma add_floats_ops: "add_floats vs = write_ops (concat (List.map (\<lambda>v. [Tag tag_f, Val (Arg_f v)]) vs))"
proof
  show "add_floats vs p = write_ops (concat (List.map (\<lambda>v. [Tag tag_f, Val (Arg_f v)]) vs)) p" for p
    by (induction vs arbitrary: p) (auto split: bind_split)
qed

lemma packet_of_ops:
  assumes path: "0 \<notin> set path" and ok: "\<forall>a \<in> set as. arg_ok a" and xs: "op_tags xs = map arg_tag as" "op_vals xs = as"
    and room: "length (osc_msg path as) \<le> 8192"
  shows "\<exists>p. (do { p \<leftarrow> adds (path @ [0]) small_scpacket; p \<leftarrow> maketags (length as + 1) p; p \<leftarrow> addtag 44 p; write_ops xs p }) = Some p
    \<and> packet_data p = osc_msg path as"
proof -
  have "length (pad_str path) \<le> 8192" using room by (simp add: osc_msg_def)
  then have "add_value (Arg_s path) small_scpacket = Some (small_scpacket\<lparr>buf := [] @ pad_str path @ replicate (8192 - length (pad_str path)) 0,
      wrpos := 0 + length (pad_str path) div 4\<rparr>)"
    using add_value_at [of "Arg_s path" small_scpacket "[]" "replicate (length (pad_str path)) 0" "replicate (8192 - length (pad_str path)) 0"] path
    by (simp add: small_scpacket_def flip: replicate_add)
  then obtain p1 where p1: "adds (path @ [0]) small_scpacket = Some p1" "4 * wrpos p1 = length (pad_str path)"
    "take (4 * wrpos p1) (buf p1) = pad_str path" "length (buf p1) = 8192"
    using length_enc_value(1) [of "Arg_s path"] \<open>length (pad_str path) \<le> 8192\<close> by (auto elim!: dvdE)
  have al: "4 dvd length (buf p1)" by (simp add: p1(4))
  have rm: "4 * wrpos p1 + length (pad_str (44 # map arg_tag as)) + length (enc_values as) \<le> length (buf p1)"
    using room p1(2,4) by (simp add: osc_msg_def)
  obtain p2 where p2: "(do { p \<leftarrow> maketags (length as + 1) p1; p \<leftarrow> addtag 44 p; write_ops xs p }) = Some p2"
    "take (4 * wrpos p2) (buf p2) = take (4 * wrpos p1) (buf p1) @ pad_str (44 # map arg_tag as) @ enc_values as"
    by (rule build_ops_at [OF ok xs al rm])
  then show ?thesis using p1(1,3) by (simp add: packet_data_def packet_size_def osc_msg_def)
qed

abbreviation chars :: "string \<Rightarrow> u8 list" where
  "chars s \<equiv> List.map of_char s"

text \<open>Writing a message and handing it on.\<close>

definition write_msg :: "u8 list \<Rightarrow> osc_arg list \<Rightarrow> packet_op list \<Rightarrow> (u8 list \<Rightarrow> 'a) \<Rightarrow> 'a option" where
  "write_msg path as xs f = do {
     p \<leftarrow> adds (path @ [0]) small_scpacket;
     p \<leftarrow> maketags (length as + 1) p;
     p \<leftarrow> addtag 44 p;
     p \<leftarrow> write_ops xs p;
     Some (f (packet_data p)) }"

lemma write_msg_sent:
  assumes "0 \<notin> set path" and "\<forall>a \<in> set as. arg_ok a" and "op_tags xs = map arg_tag as" "op_vals xs = as"
    and "length (osc_msg path as) \<le> 8192"
  shows "write_msg path as xs f = Some (f (osc_msg path as))"
proof -
  obtain p where p: "(do { p \<leftarrow> adds (path @ [0]) small_scpacket; p \<leftarrow> maketags (length as + 1) p; p \<leftarrow> addtag 44 p; write_ops xs p }) = Some p"
    "packet_data p = osc_msg path as"
    using packet_of_ops [OF assms] by blast
  have "write_msg path as xs f = (do { p \<leftarrow> adds (path @ [0]) small_scpacket; p \<leftarrow> maketags (length as + 1) p;
      p \<leftarrow> addtag 44 p; write_ops xs p }) \<bind> (\<lambda>p. Some (f (packet_data p)))"
    by (simp only: write_msg_def bind_assoc)
  also have "\<dots> = Some (f (osc_msg path as))" unfolding p(1) using p(2) by simp
  finally show ?thesis .
qed

lemma addtags_fun: "addtags [] = Some" "addtags (c # cs) = (\<lambda>p. addtag c p \<bind> addtags cs)"
  by (simp_all add: fun_eq_iff)

lemmas write_simps = write_msg_def cstr_def addtags_fun write_ops_fun bind_assoc numeral_eq_Suc

lemma adds_val: "adds (s @ [0]) = write_op (Val (Arg_s s))"
  by (simp add: fun_eq_iff)

lemma replies_written:
  "SendDone a (cmd @ [0]) w = write_msg (chars ''/done'') [Arg_s cmd] [Tag tag_s, Val (Arg_s cmd)] (\<lambda>d. SendReply a d w)"
  "SendDoneWithIntValue a (cmd @ [0]) v w = write_msg (chars ''/done'') [Arg_s cmd, Arg_i v]
     [Tag tag_s, Val (Arg_s cmd), Tag tag_i, Val (Arg_i v)] (\<lambda>d. SendReply a d w)"
  "SendFailure a (cmd @ [0]) (err @ [0]) w = write_msg (chars ''/fail'') [Arg_s cmd, Arg_s err]
     [Tag tag_s, Tag tag_s, Val (Arg_s cmd), Val (Arg_s err)] (\<lambda>d. SendReply a d w)"
  "SendFailureWithBufnum a (cmd @ [0]) (err @ [0]) v w = write_msg (chars ''/fail'') [Arg_s cmd, Arg_s err, Arg_i v]
     [Tag tag_s, Tag tag_s, Val (Arg_s cmd), Val (Arg_s err), Tag tag_i, Val (Arg_i v)] (\<lambda>d. SendReply a d w)"
  "ReportLateness a x w = write_msg (chars ''/late'') [Arg_f x] [Tag tag_f, Val (Arg_f x)] (\<lambda>d. SendReply a d w)"
  by (simp_all add: SendDone_def SendDoneWithIntValue_def SendFailure_def SendFailureWithBufnum_def ReportLateness_def write_simps
    del: add_value.simps(1-3))

text \<open>
  The replies to a client are the OSC messages they are meant to be: \<open>/done\<close> with the command's
  name and possibly a value, \<open>/fail\<close> with the name, the error and possibly the buffer's number,
  and \<open>/late\<close> with the seconds. For strings without a zero in them, and as long as the message fits the 8192 bytes of the packet.
\<close>

theorem replies_encode:
  assumes "0 \<notin> set cmd" and "0 \<notin> set err"
    and "length cmd + length err \<le> 8000" and "addr \<noteq> 0"
  shows "SendDone addr (cmd @ [0]) w = Some (w\<lparr>mReplies := mReplies w @ [(addr, osc_msg (chars ''/done'') [Arg_s cmd])]\<rparr>)
    \<and> SendDoneWithIntValue addr (cmd @ [0]) v w = Some (w\<lparr>mReplies := mReplies w @ [(addr, osc_msg (chars ''/done'') [Arg_s cmd, Arg_i v])]\<rparr>)
    \<and> SendFailure addr (cmd @ [0]) (err @ [0]) w = Some (w\<lparr>mReplies := mReplies w @ [(addr, osc_msg (chars ''/fail'') [Arg_s cmd, Arg_s err])]\<rparr>)
    \<and> SendFailureWithBufnum addr (cmd @ [0]) (err @ [0]) v w = Some (w\<lparr>mReplies := mReplies w @ [(addr, osc_msg (chars ''/fail'') [Arg_s cmd, Arg_s err, Arg_i v])]\<rparr>)
    \<and> ReportLateness addr x w = Some (w\<lparr>mReplies := mReplies w @ [(addr, osc_msg (chars ''/late'') [Arg_f x])]\<rparr>)"
proof -
  have len: "length (pad_str s) \<le> length s + 4" for s :: "u8 list" by (simp add: pad_str_def)
  have osc: "length (osc_msg (chars ''/done'') [Arg_s cmd]) \<le> 8192" 
    "length (osc_msg (chars ''/done'') [Arg_s cmd, Arg_i v]) \<le> 8192"
    "length (osc_msg (chars ''/fail'') [Arg_s cmd, Arg_s err]) \<le> 8192"
    "length (osc_msg (chars ''/fail'') [Arg_s cmd, Arg_s err, Arg_i v]) \<le> 8192"
    "length (osc_msg (chars ''/late'') [Arg_f x]) \<le> 8192"
    using assms(3) len [of cmd] len [of err] by (simp_all add: osc_msg_def pad_str_def)
  show ?thesis unfolding replies_written using assms(1,2,4) osc by (simp add: write_msg_sent SendReply_def)
qed

theorem replies_encode_witness:
  "SendDone 1 (chars ''/sync'' @ [0]) (empty_world 1)
     = Some ((empty_world 1)\<lparr>mReplies := [(1, osc_msg (chars ''/done'') [Arg_s (chars ''/sync'')])]\<rparr>)"
proof -
  have "0 \<notin> set (chars ''/sync'')" "length (chars ''/sync'') + length ([] :: u8 list) \<le> 8000" "mReplies (empty_world 1) = []"
    by (simp_all add: empty_world_def)
  then show ?thesis using replies_encode [of "chars ''/sync''" "[]" 1 "empty_world 1"] by simp
qed

lemma SendReply_all_eq: "SendReply_all us d w = w\<lparr>mReplies := mReplies w @ List.map (\<lambda>u. (u, d)) (List.filter (\<lambda>u. u \<noteq> 0) us)\<rparr>"
  by (induction us arbitrary: w) (simp_all add: SendReply_def)

definition node_info :: "NodeEndMsg \<Rightarrow> osc_arg list" where
  "node_info m = List.map Arg_i ([meNodeID m, meGroupID m, mePrevNodeID m, meNextNodeID m, meIsGroup m]
     @ (if meIsGroup m = 0 then [] else [meHeadID m, meTailID m]))"

definition node_info_ops :: "NodeEndMsg \<Rightarrow> packet_op list" where
  "node_info_ops m = replicate (length (node_info m)) (Tag tag_i) @ List.map Val (node_info m)"

lemma addints_fun: "addints [] = Some" "addints (i # xs) = (\<lambda>p. addi i p \<bind> addints xs)"
  by (simp_all add: fun_eq_iff)

lemma NodeEndMsg_written:
  "NodeEndMsg_Perform m w = write_msg (chars (state_path (meState m))) (node_info m) (node_info_ops m) (\<lambda>d. SendReply_all (mUsers w) d w)"
  by (cases "meIsGroup m = 0")
    (simp_all add: NodeEndMsg_Perform_def node_info_def node_info_ops_def write_simps addints_fun)

lemma node_info_ops_args: "op_tags (node_info_ops m) = map arg_tag (node_info m)" "op_vals (node_info_ops m) = node_info m"
  by (auto simp: node_info_ops_def node_info_def)


end
