(* ===== verification/SC_Buffers.thy ===== *)
theory SC_Buffers
  imports SC_Notify
begin

text \<open>
  What the sequenced commands of \<open>server/scsynth/SC_SequencedCommand.cpp\<close> are made of: sample memory
  and \<open>bufAlloc\<close>, the names of sound file formats (\<open>SC_World.cpp\<close>), the restriction of
  paths with the parser of \<open>common/SC_StringParser.cpp\<close>, reading single channels of a file, and the
  sound files themselves. A C string is the memory from its first character on.
\<close>

section \<open>Sample memory\<close>

definition cstring :: "u8 list \<Rightarrow> u8 list option" where
  "cstring mem = do { n \<leftarrow> cstrlen mem; Some (take n mem) }"

text \<open>\<open>zalloc\<close> of \<open>n\<close> samples; a block of no samples is a null pointer.\<close>

definition sc_zalloc :: "nat \<Rightarrow> World \<Rightarrow> ptr option \<times> World" where
  "sc_zalloc n w =
     (if n = 0 then (None, w)
      else case zallocs w of
        False # as \<Rightarrow> (None, w\<lparr>zallocs := as\<rparr>)
      | as \<Rightarrow> (Some (bufFresh w), w\<lparr>zallocs := tl as, bufFresh := Suc (bufFresh w),
                 bufmem := (bufmem w)(bufFresh w \<mapsto> replicate n 0)\<rparr>))"

definition free_samples :: "ptr option \<Rightarrow> World \<Rightarrow> World option" where
  "free_samples d w =
     (case d of None \<Rightarrow> Some w
      | Some p \<Rightarrow> (case bufmem w p of None \<Rightarrow> None | Some xs \<Rightarrow> Some (w\<lparr>bufmem := (bufmem w)(p := None)\<rparr>)))"

definition BUFMASK :: "i32 \<Rightarrow> i32" where
  "BUFMASK x = push_bit (31 - CLZ x) 1 - 1"

text \<open>The product of two \<open>int\<close>s wraps before it becomes a \<open>long\<close>.\<close>

definition bufAlloc :: "SndBuf \<Rightarrow> i32 \<Rightarrow> i32 \<Rightarrow> f64 \<Rightarrow> World \<Rightarrow> SCErr \<times> SndBuf \<times> World" where
  "bufAlloc b numChannels numFrames sampleRate w =
     (let numSamples = numFrames * numChannels
      in if sint numSamples < 1 then (kSCErr_Failed, b, w)
         else case sc_zalloc (unat numSamples) w of
           (None, w) \<Rightarrow> (kSCErr_Failed, b\<lparr>sbData := None\<rparr>, w)
         | (Some p, w) \<Rightarrow> (kSCErr_None, b\<lparr>sbData := Some p, sbChannels := numChannels, sbFrames := numFrames,
               sbSamples := numSamples, sbMask := BUFMASK numSamples, sbMask1 := BUFMASK numSamples - 1,
               sbSamplerate := sampleRate\<rparr>, w))"

definition SndBuf_Init :: "SndBuf \<Rightarrow> SndBuf" where
  "SndBuf_Init b = b\<lparr>sbData := None, sbChannels := 0, sbSamples := 0, sbFrames := 0, sbMask := 0, sbMask1 := 0, sbCoord := 0\<rparr>"

definition get_nrt :: "i32 \<Rightarrow> World \<Rightarrow> SndBuf option" where
  "get_nrt i w = aread (mSndBufsNonRealTimeMirror w) (World_GetNRTBuf i w)"

definition set_nrt :: "i32 \<Rightarrow> SndBuf \<Rightarrow> World \<Rightarrow> World option" where
  "set_nrt i b w = do {
     bs \<leftarrow> awrite (mSndBufsNonRealTimeMirror w) (World_GetNRTBuf i w) b;
     Some (w\<lparr>mSndBufsNonRealTimeMirror := bs\<rparr>) }"

definition get_rt :: "i32 \<Rightarrow> World \<Rightarrow> SndBuf option" where
  "get_rt i w = aread (mSndBufs w) (World_GetBuf i w)"

definition set_rt :: "i32 \<Rightarrow> SndBuf \<Rightarrow> World \<Rightarrow> World option" where
  "set_rt i b w = do { bs \<leftarrow> awrite (mSndBufs w) (World_GetBuf i w) b; Some (w\<lparr>mSndBufs := bs\<rparr>) }"

text \<open>\<open>mSndBufUpdates[mBufIndex].writes++\<close>, with the index as the client sent it.\<close>

definition count_write :: "i32 \<Rightarrow> World \<Rightarrow> World option" where
  "count_write i w =
     (if sint i < 0 then None
      else do {
        n \<leftarrow> aread (mSndBufUpdates w) (unat i);
        us \<leftarrow> awrite (mSndBufUpdates w) (unat i) (n + 1);
        Some (w\<lparr>mSndBufUpdates := us\<rparr>) })"

text \<open>Copying samples to a place in a block; undefined outside of it.\<close>

definition put_samples :: "ptr option \<Rightarrow> int \<Rightarrow> f32 list \<Rightarrow> World \<Rightarrow> World option" where
  "put_samples d off xs w = do {
     p \<leftarrow> d;
     mem \<leftarrow> bufmem w p;
     if 0 \<le> off \<and> nat off + length xs \<le> length mem
     then Some (w\<lparr>bufmem := (bufmem w)(p \<mapsto> take (nat off) mem @ xs @ drop (nat off + length xs) mem)\<rparr>)
     else None }"

definition get_samples :: "ptr option \<Rightarrow> int \<Rightarrow> nat \<Rightarrow> World \<Rightarrow> f32 list option" where
  "get_samples d off n w = do {
     p \<leftarrow> d;
     mem \<leftarrow> bufmem w p;
     if 0 \<le> off \<and> nat off + n \<le> length mem then Some (take n (drop (nat off) mem)) else None }"

section \<open>Names of file formats\<close>

abbreviation chr :: "char \<Rightarrow> u8" where
  "chr c \<equiv> of_char c"

definition SF_FORMAT_PCM_S8 :: i32 where "SF_FORMAT_PCM_S8 = 1"
definition SF_FORMAT_PCM_16 :: i32 where "SF_FORMAT_PCM_16 = 2"
definition SF_FORMAT_PCM_24 :: i32 where "SF_FORMAT_PCM_24 = 3"
definition SF_FORMAT_PCM_32 :: i32 where "SF_FORMAT_PCM_32 = 4"
definition SF_FORMAT_PCM_U8 :: i32 where "SF_FORMAT_PCM_U8 = 5"
definition SF_FORMAT_FLOAT :: i32 where "SF_FORMAT_FLOAT = 6"
definition SF_FORMAT_DOUBLE :: i32 where "SF_FORMAT_DOUBLE = 7"
definition SF_FORMAT_ULAW :: i32 where "SF_FORMAT_ULAW = 0x10"
definition SF_FORMAT_ALAW :: i32 where "SF_FORMAT_ALAW = 0x11"

lemmas SF_FORMAT_defs = SF_FORMAT_PCM_S8_def SF_FORMAT_PCM_16_def SF_FORMAT_PCM_24_def SF_FORMAT_PCM_32_def
  SF_FORMAT_PCM_U8_def SF_FORMAT_FLOAT_def SF_FORMAT_DOUBLE_def SF_FORMAT_ULAW_def SF_FORMAT_ALAW_def

definition sampleFormatFromString :: "u8 list option \<Rightarrow> i32 option" where
  "sampleFormatFromString name =
     (case name of
        None \<Rightarrow> Some SF_FORMAT_PCM_16
      | Some mem \<Rightarrow> do {
          len \<leftarrow> cstrlen mem;
          if len < 1 then Some 0
          else if mem ! 0 = chr (CHR ''u'') then
            (if len < 5 then Some 0
             else if mem ! 4 = chr (CHR ''8'') then Some SF_FORMAT_PCM_U8
             else Some 0)
          else if mem ! 0 = chr (CHR ''i'') then
            (if len < 4 then Some 0
             else if mem ! 3 = chr (CHR ''8'') then Some SF_FORMAT_PCM_S8
             else if mem ! 3 = chr (CHR ''1'') then Some SF_FORMAT_PCM_16
             else if mem ! 3 = chr (CHR ''2'') then Some SF_FORMAT_PCM_24
             else if mem ! 3 = chr (CHR ''3'') then Some SF_FORMAT_PCM_32
             else Some 0)
          else if mem ! 0 = chr (CHR ''f'') then Some SF_FORMAT_FLOAT
          else if mem ! 0 = chr (CHR ''d'') then Some SF_FORMAT_DOUBLE
          else if mem ! 0 = chr (CHR ''m'') \<or> mem ! 0 = chr (CHR ''u'') then Some SF_FORMAT_ULAW
          else if mem ! 0 = chr (CHR ''a'') then Some SF_FORMAT_ALAW
          else Some 0 })"

text \<open>The names in the order they are tried, for the Macintosh; \<open>strcasecmp\<close> compares regardless of case.\<close>

definition header_formats :: "(string \<times> i32) list" where
  "header_formats = [(''AIFF'', 0x020000), (''AIFC'', 0x020000), (''RIFF'', 0x010000), (''WAVEX'', 0x130000),
     (''WAVE'', 0x010000), (''WAV'', 0x010000), (''Sun'', 0x030000), (''IRCAM'', 0x0A0000), (''NeXT'', 0x030000),
     (''raw'', 0x040000), (''MAT4'', 0x0C0000), (''MAT5'', 0x0D0000), (''PAF'', 0x050000), (''SVX'', 0x060000),
     (''NIST'', 0x070000), (''VOC'', 0x080000), (''W64'', 0x0B0000), (''PVF'', 0x0E0000), (''XI'', 0x0F0000),
     (''HTK'', 0x100000), (''SDS'', 0x110000), (''AVR'', 0x120000), (''SD2'', 0x160000), (''FLAC'', 0x170000),
     (''vorbis'', 0x0060), (''CAF'', 0x180000)]"

definition to_lower :: "u8 \<Rightarrow> u8" where
  "to_lower c = (if 65 \<le> c \<and> c \<le> 90 then c + 32 else c)"

fun find_format :: "u8 list \<Rightarrow> (string \<times> i32) list \<Rightarrow> i32" where
  "find_format name [] = 0"
| "find_format name ((s, v) # fs) =
     (if List.map to_lower name = List.map to_lower (chars s) then v else find_format name fs)"

definition headerFormatFromString :: "u8 list option \<Rightarrow> i32 option" where
  "headerFormatFromString name =
     (case name of None \<Rightarrow> Some 0x020000
      | Some mem \<Rightarrow> do { s \<leftarrow> cstring mem; Some (find_format s header_formats) })"

text \<open>The format, unless the names are not known.\<close>

definition sndfileFormatInfoFromStrings :: "u8 list option \<Rightarrow> u8 list option \<Rightarrow> (SCErr \<times> i32) option" where
  "sndfileFormatInfoFromStrings headerFormatString sampleFormatString = do {
     headerFormat \<leftarrow> headerFormatFromString headerFormatString;
     if headerFormat = 0 then Some (kSCErr_Failed, 0)
     else do {
       sampleFormat \<leftarrow> sampleFormatFromString sampleFormatString;
       if sampleFormat = 0 then Some (kSCErr_Failed, 0)
       else Some (kSCErr_None, headerFormat OR sampleFormat) } }"

section \<open>Restricted paths\<close>

text \<open>
  The parser: the characters from \<open>mStart\<close> to the end, \<open>None\<close> once it is at its end. A token is cut
  off at 255 characters.
\<close>

definition SC_StringParser :: "u8 list \<Rightarrow> u8 list option" where
  "SC_StringParser spec = (if spec = [] then None else Some spec)"

definition NextToken :: "u8 \<Rightarrow> u8 list \<Rightarrow> u8 list \<times> u8 list option" where
  "NextToken sep s =
     (if sep \<in> set s then (take 255 (takeWhile (\<lambda>c. c \<noteq> sep) s), Some (tl (dropWhile (\<lambda>c. c \<noteq> sep) s)))
      else (take 255 s, None))"

text \<open>The buffer's bytes; \<open>None\<close> is a byte that was never written, and reading it is undefined.\<close>

definition put_str :: "u8 option list \<Rightarrow> nat \<Rightarrow> u8 list \<Rightarrow> u8 option list option" where
  "put_str b off s =
     (if off + length s < length b
      then Some (take off b @ List.map Some (s @ [0]) @ drop (off + length s + 1) b) else None)"

fun buf_string :: "u8 option list \<Rightarrow> u8 list option" where
  "buf_string [] = None"
| "buf_string (None # b) = None"
| "buf_string (Some c # b) = (if c = 0 then Some [] else map_option ((#) c) (buf_string b))"

abbreviation slash :: u8 where "slash \<equiv> 47"
abbreviation dot_dot :: "u8 list" where "dot_dot \<equiv> [46, 46]"

lemma NextToken_shorter: "NextToken sep s = (t, Some r) \<Longrightarrow> length r < length s"
proof -
  assume a: "NextToken sep s = (t, Some r)"
  then have "dropWhile (\<lambda>c. c \<noteq> sep) s \<noteq> []" "r = tl (dropWhile (\<lambda>c. c \<noteq> sep) s)"
    by (auto simp: NextToken_def dropWhile_eq_Nil_conv split: if_splits)
  moreover have "length (dropWhile (\<lambda>c. c \<noteq> sep) s) \<le> length s" by (rule length_dropWhile_le)
  ultimately show ?thesis by (cases "dropWhile (\<lambda>c. c \<noteq> sep) s") auto
qed

function path_loop :: "u8 list option \<Rightarrow> u8 option list \<Rightarrow> nat \<Rightarrow> nat \<Rightarrow> u8 option list option" where
  "path_loop None strbuf offset rem = Some strbuf"
| "path_loop (Some s) strbuf offset rem =
     (case NextToken slash s of (token, rest) \<Rightarrow>
        if token \<noteq> dot_dot \<and> length token < rem then do {
          strbuf \<leftarrow> put_str strbuf offset token;
          if rest \<noteq> None then do {
            strbuf \<leftarrow> awrite strbuf (offset + length token) (Some slash);
            path_loop rest strbuf (offset + length token + 1) (rem - length token - 1) }
          else path_loop rest strbuf (offset + length token) (rem - length token) }
        else path_loop rest strbuf offset rem)"
  by pat_completeness auto
termination
  by (relation "measure (\<lambda>(s, _). case s of None \<Rightarrow> 0 | Some s \<Rightarrow> length s + 1)")
    (auto dest!: NextToken_shorter [OF sym] split: option.splits)

text \<open>The buffer begins with the base, unless the path does.\<close>

definition path_start :: "nat \<Rightarrow> u8 list \<Rightarrow> u8 list \<Rightarrow> (u8 option list \<times> nat) option" where
  "path_start path_max path base =
     (if take (length base) path \<noteq> base then do {
        strbuf \<leftarrow> put_str (replicate path_max None) 0 base;
        if (path = [] \<or> hd path \<noteq> slash) \<and> last base \<noteq> slash then do {
          strbuf \<leftarrow> awrite strbuf (length base) (Some slash);
          Some (strbuf, length base + 1) }
        else Some (strbuf, length base) }
      else Some (replicate path_max None, 0))"

definition allocAndRestrictPath :: "nat \<Rightarrow> u8 list \<Rightarrow> u8 list \<Rightarrow> World \<Rightarrow> (u8 list \<times> World) option" where
  "allocAndRestrictPath path_max inPath restrictBase w = do {
     path \<leftarrow> cstring inPath;
     base \<leftarrow> cstring restrictBase;
     (strbuf, offset) \<leftarrow> path_start path_max path base;
     strbuf \<leftarrow> path_loop (SC_StringParser path) strbuf offset (path_max - offset);
     s \<leftarrow> buf_string strbuf;
     (case World_Alloc w of (None, w) \<Rightarrow> None | (Some _, w) \<Rightarrow> Some (s @ [0], w)) }"

section \<open>Sound files\<close>

text \<open>What libsndfile gives of a file that it opened: its header and its samples, interleaved.\<close>

record sf_file =
  fChannels :: i32
  fFrames :: int
  fSamplerate :: i32
  fSamples :: "f32 list"

definition sf_opened :: "World \<Rightarrow> nat \<times> World" where
  "sf_opened w = (mFileFresh w, w\<lparr>mOpenFiles := mFileFresh w # mOpenFiles w, mFileFresh := Suc (mFileFresh w)\<rparr>)"

definition sf_close :: "nat \<Rightarrow> World \<Rightarrow> World option" where
  "sf_close sf w = (if sf \<in> set (mOpenFiles w) then Some (w\<lparr>mOpenFiles := remove1 sf (mOpenFiles w)\<rparr>) else None)"

definition file_samples :: "sf_file \<Rightarrow> i32 \<Rightarrow> i32 \<Rightarrow> f32 list" where
  "file_samples f off n = take (nat (sint n * sint (fChannels f))) (drop (nat (sint off * sint (fChannels f))) (fSamples f))"

section \<open>Single channels\<close>

text \<open>The array has 32 places but the 33rd channel is written, too.\<close>

fun InitChannels :: "nat \<Rightarrow> i32 list \<Rightarrow> sc_msg_iter \<Rightarrow> (i32 list \<times> sc_msg_iter) option" where
  "InitChannels 0 channels msg = None"
| "InitChannels (Suc k) channels msg = do {
     t \<leftarrow> nextTag 0 msg;
     if t = tag_i then do {
       (c, msg) \<leftarrow> geti 0 msg;
       if length channels \<le> 32 then
         (if length channels < 32 then InitChannels k (channels @ [c]) msg else None)
       else InitChannels k channels msg }
     else Some (channels, msg) }"

definition CheckChannels :: "i32 list \<Rightarrow> i32 \<Rightarrow> bool" where
  "CheckChannels channels inNumChannels = list_all (\<lambda>c. sint c < sint inNumChannels) channels"

fun copy_frames :: "nat \<Rightarrow> nat \<Rightarrow> (nat \<Rightarrow> f32 option) \<Rightarrow> nat list \<Rightarrow> f32 list \<Rightarrow> f32 list option" where
  "copy_frames n ci src [] dst = Some dst"
| "copy_frames n ci src (fi # fis) dst = do {
     v \<leftarrow> src fi;
     dst \<leftarrow> awrite dst (fi * n + ci) v;
     copy_frames n ci src fis dst }"

fun copy_channels :: "nat \<Rightarrow> nat \<Rightarrow> i32 list \<Rightarrow> f32 list \<Rightarrow> nat \<Rightarrow> nat \<Rightarrow> f32 list \<Rightarrow> f32 list option" where
  "copy_channels n ci [] src srcChannels numFrames dst = Some dst"
| "copy_channels n ci (c # cs) src srcChannels numFrames dst = do {
     dst \<leftarrow> copy_frames n ci
       (\<lambda>fi. if 0 \<le> sint c \<and> sint c < int srcChannels then aread src (fi * srcChannels + unat c) else Some 0)
       [0..<numFrames] dst;
     copy_channels n (ci + 1) cs src srcChannels numFrames dst }"

definition CopyChannels :: "i32 list \<Rightarrow> f32 list \<Rightarrow> f32 list \<Rightarrow> nat \<Rightarrow> nat \<Rightarrow> f32 list option" where
  "CopyChannels channels dst src srcChannels numFrames =
     copy_channels (length channels) 0 channels src srcChannels numFrames dst"

section \<open>Copying channels\<close>

lemma row_major: "fi < nf \<Longrightarrow> ci < n \<Longrightarrow> nf * n \<le> L \<Longrightarrow> fi * n + ci < (L :: nat)"
proof -
  assume a: "fi < nf" "ci < n" "nf * n \<le> L"
  have "(fi + 1) * n \<le> nf * n" using a(1) by (intro mult_le_mono1) simp
  then show ?thesis using a by (simp add: distrib_right)
qed

lemma copy_frames_eq:
  assumes "ci < n" and "\<forall>fi \<in> set fis. src fi = Some (v fi) \<and> fi * n + ci < length dst"
  shows "copy_frames n ci src fis dst
    = Some (List.map (\<lambda>j. if j mod n = ci \<and> j div n \<in> set fis then v (j div n) else dst ! j) [0..<length dst])"
  using assms(2)
proof (induction fis arbitrary: dst)
  case (Cons fi fis)
  let ?d = "dst[fi * n + ci := v fi]"
  have n: "0 < n" using assms(1) by simp
  have "copy_frames n ci src (fi # fis) dst = copy_frames n ci src fis ?d" using Cons.prems by simp
  also have "\<dots> = Some (List.map (\<lambda>j. if j mod n = ci \<and> j div n \<in> set fis then v (j div n) else ?d ! j) [0..<length dst])"
    using Cons.IH [of ?d] Cons.prems by simp
  also have "List.map (\<lambda>j. if j mod n = ci \<and> j div n \<in> set fis then v (j div n) else ?d ! j) [0..<length dst]
      = List.map (\<lambda>j. if j mod n = ci \<and> j div n \<in> set (fi # fis) then v (j div n) else dst ! j) [0..<length dst]"
  proof (rule map_cong [OF refl])
    fix j assume "j \<in> set [0..<length dst]"
    moreover have "j = fi * n + ci \<longleftrightarrow> j mod n = ci \<and> j div n = fi"
      using assms(1) n by (metis add.commute div_mult_self3 div_less mod_less mod_mult_self2 mult.commute mult_div_mod_eq add_0 gr_implies_not0)
    ultimately show "(if j mod n = ci \<and> j div n \<in> set fis then v (j div n) else ?d ! j)
        = (if j mod n = ci \<and> j div n \<in> set (fi # fis) then v (j div n) else dst ! j)"
      by (auto simp: nth_list_update)
  qed
  finally show ?case .
qed (simp add: map_nth)

definition channel_sample :: "f32 list \<Rightarrow> nat \<Rightarrow> i32 \<Rightarrow> nat \<Rightarrow> f32" where
  "channel_sample src srcChannels c fi = (if 0 \<le> sint c \<and> sint c < int srcChannels then src ! (fi * srcChannels + unat c) else 0)"

lemma sint_nonneg: "0 \<le> sint (c :: i32) \<Longrightarrow> sint c = int (unat c)"
proof -
  assume c: "0 \<le> sint c"
  have "sint c = (uint c + 2 ^ 31) mod 2 ^ 32 - 2 ^ 31"
    by (simp add: sint_uint signed_take_bit_eq_take_bit_shift take_bit_eq_mod)
  moreover have "uint c < 2 ^ 32" "0 \<le> uint c" using uint_lt2p [of c] by simp_all
  moreover have "(uint c + 2 ^ 31) mod 2 ^ 32 = uint c - 2 ^ 31" if "2 ^ 31 \<le> uint c"
    using mod_add_self2 [of "uint c - 2 ^ 31" "2 ^ 32"] that \<open>uint c < 2 ^ 32\<close> by (simp add: add.commute)
  ultimately show ?thesis using c by (cases "uint c < 2 ^ 31") simp_all
qed

lemma channel_read:
  assumes "numFrames * srcChannels \<le> length src" and "fi < numFrames"
  shows "(if 0 \<le> sint c \<and> sint c < int srcChannels then aread src (fi * srcChannels + unat c) else Some 0)
    = Some (channel_sample src srcChannels c fi)"
proof (cases "0 \<le> sint c \<and> sint c < int srcChannels")
  case True
  then have "unat c < srcChannels" using sint_nonneg [of c] by linarith
  then have "fi * srcChannels + unat c < length src" using row_major assms by blast
  then show ?thesis using True by (simp add: channel_sample_def)
qed (auto simp: channel_sample_def)

lemma copy_frames_cong:
  "\<forall>fi \<in> set fis. src fi = src' fi \<Longrightarrow> copy_frames n ci src fis dst = copy_frames n ci src' fis dst"
  by (induction fis arbitrary: dst) (auto split: bind_split)

lemma copy_channels_eq:
  assumes n: "ci + length cs = n" "0 < n" and src: "numFrames * srcChannels \<le> length src" and dst: "numFrames * n \<le> length dst"
  shows "copy_channels n ci cs src srcChannels numFrames dst
    = Some (List.map (\<lambda>j. if ci \<le> j mod n \<and> j div n < numFrames then channel_sample src srcChannels (cs ! (j mod n - ci)) (j div n)
        else dst ! j) [0..<length dst])"
  using n dst
proof (induction cs arbitrary: ci dst)
  case Nil
  have "(if ci \<le> j mod n \<and> j div n < numFrames then x else dst ! j) = dst ! j" if "j < length dst" for j x
    using Nil that by (auto dest: mod_less_divisor [of n j])
  then have "List.map (\<lambda>j. if ci \<le> j mod n \<and> j div n < numFrames then channel_sample src srcChannels ([] ! (j mod n - ci)) (j div n)
        else dst ! j) [0..<length dst] = List.map (\<lambda>j. dst ! j) [0..<length dst]" by (intro map_cong) simp_all
  then show ?case by (simp add: map_nth)
next
  case (Cons c cs)
  let ?v = "channel_sample src srcChannels"
  have ci: "ci < n" using Cons.prems(1) by simp
  have in_dst: "fi * n + ci < length dst" if "fi < numFrames" for fi
    by (rule row_major [OF that ci Cons.prems(3)])
  define d where "d = List.map (\<lambda>j. if j mod n = ci \<and> j div n < numFrames then ?v c (j div n) else dst ! j) [0..<length dst]"
  have "copy_frames n ci (\<lambda>fi. if 0 \<le> sint c \<and> sint c < int srcChannels then aread src (fi * srcChannels + unat c) else Some 0)
      [0..<numFrames] dst = Some d"
    using copy_frames_eq [OF ci, of "[0..<numFrames]" _ "?v c" dst] channel_read [OF src, of _ c] in_dst by (simp add: d_def)
  then have "copy_channels n ci (c # cs) src srcChannels numFrames dst = copy_channels n (Suc ci) cs src srcChannels numFrames d" by simp
  also have "\<dots> = Some (List.map (\<lambda>j. if Suc ci \<le> j mod n \<and> j div n < numFrames then ?v (cs ! (j mod n - Suc ci)) (j div n)
        else d ! j) [0..<length d])"
    by (rule Cons.IH) (use Cons.prems n(2) in \<open>simp_all add: d_def\<close>)
  also have "List.map (\<lambda>j. if Suc ci \<le> j mod n \<and> j div n < numFrames then ?v (cs ! (j mod n - Suc ci)) (j div n) else d ! j) [0..<length d]
      = List.map (\<lambda>j. if ci \<le> j mod n \<and> j div n < numFrames then ?v ((c # cs) ! (j mod n - ci)) (j div n) else dst ! j) [0..<length dst]"
  proof (rule map_cong)
    fix j assume "j \<in> set [0..<length dst]"
    then show "(if Suc ci \<le> j mod n \<and> j div n < numFrames then ?v (cs ! (j mod n - Suc ci)) (j div n) else d ! j)
        = (if ci \<le> j mod n \<and> j div n < numFrames then ?v ((c # cs) ! (j mod n - ci)) (j div n) else dst ! j)"
      by (cases "j mod n = ci") (auto simp: d_def nth_Cons')
  qed (simp add: d_def)
  finally show ?case .
qed

text \<open>
  C33: Reading single channels of a file into a buffer: frame by frame the buffer gets the chosen
  channels in the order they were chosen, silence for a channel that is not in the file, and what
  is behind the last frame stays as it was.
\<close>

theorem copy_channels_interleaves:
  assumes "numFrames * srcChannels \<le> length src" and "numFrames * length channels \<le> length dst"
  shows "\<exists>dst'. CopyChannels channels dst src srcChannels numFrames = Some dst' \<and> length dst' = length dst
    \<and> (\<forall>fi < numFrames. \<forall>ci < length channels. dst' ! (fi * length channels + ci) =
         (let c = channels ! ci in if 0 \<le> sint c \<and> sint c < int srcChannels then src ! (fi * srcChannels + unat c) else 0))
    \<and> (\<forall>j < length dst. numFrames * length channels \<le> j \<longrightarrow> dst' ! j = dst ! j)"
proof -
  let ?n = "length channels" and ?v = "channel_sample src srcChannels"
  let ?d = "List.map (\<lambda>j. if j div ?n < numFrames then ?v (channels ! (j mod ?n)) (j div ?n) else dst ! j) [0..<length dst]"
  have eq: "CopyChannels channels dst src srcChannels numFrames = Some ?d" if "channels \<noteq> []"
    using copy_channels_eq [of 0 channels ?n numFrames srcChannels src dst] assms that by (simp add: CopyChannels_def)
  show ?thesis
  proof (cases "channels = []")
    case True
    then show ?thesis by (simp add: CopyChannels_def)
  next
    case False
    have at: "fi * ?n + ci < length dst" if "fi < numFrames" "ci < ?n" for fi ci
      by (rule row_major [OF that assms(2)])
    have rest: "\<not> j div ?n < numFrames" if "numFrames * ?n \<le> j" for j
      using that False by (simp add: less_eq_div_iff_mult_less_eq not_less)
    have dm: "(fi * ?n + ci) div ?n = fi" "(fi * ?n + ci) mod ?n = ci" if "ci < ?n" for fi ci
      using that False by simp_all
    show ?thesis
      by (intro exI [of _ ?d] conjI eq False) (auto simp: at rest dm channel_sample_def Let_def simp del: div_mult_self3)
  qed
qed

theorem copy_channels_interleaves_witness:
  "CopyChannels [1, -1] [9, 9, 9, 9, 9] [10, 20, 30, 40] 2 2 = Some [20, 0, 40, 0, 9]"
proof -
  obtain dst' where "CopyChannels [1, -1] [9, 9, 9, 9, 9] [10, 20, 30, 40] 2 2 = Some dst'" "length dst' = 5"
    "\<forall>fi < 2. \<forall>ci < 2. dst' ! (fi * 2 + ci) =
         (let c = [1, -1] ! ci in if 0 \<le> sint (c :: i32) \<and> sint c < 2 then [10, 20, 30, 40] ! (fi * 2 + unat c) else 0)"
    "\<forall>j < 5. 4 \<le> j \<longrightarrow> dst' ! j = [9, 9, 9, 9, 9] ! j"
    using copy_channels_interleaves [of 2 2 "[10, 20, 30, 40]" "[1, -1]" "[9, 9, 9, 9, 9]"] by (auto simp: numeral_eq_Suc)
  moreover from this(2) have "dst' = [dst' ! 0, dst' ! 1, dst' ! 2, dst' ! 3, dst' ! 4]"
    by (intro nth_equalityI) (auto simp: nth_Cons less_Suc_eq numeral_eq_Suc split: nat.splits)
  moreover from calculation(3) have "dst' ! 0 = 20" "dst' ! 1 = 0" "dst' ! 2 = 40" "dst' ! 3 = 0"
    by (force simp: Let_def numeral_eq_Suc)+
  ultimately show ?thesis by simp
qed

section \<open>What a restricted path is\<close>

fun pieces :: "u8 \<Rightarrow> u8 list \<Rightarrow> u8 list list" where
  "pieces sep [] = [[]]"
| "pieces sep (c # cs) = (if c = sep then [] # pieces sep cs else (c # hd (pieces sep cs)) # tl (pieces sep cs))"

lemma pieces_not_Nil [simp]: "pieces sep s \<noteq> []"
  by (cases s) auto

lemma pieces_append_sep: "pieces sep (u @ sep # v) = pieces sep u @ pieces sep v"
  by (induction u) auto

lemma pieces_one: "sep \<notin> set t \<Longrightarrow> pieces sep t = [t]"
  by (induction t) auto

lemma pieces_token:
  "s = [] \<or> last s = sep \<Longrightarrow> sep \<notin> set t \<Longrightarrow> t \<noteq> d \<Longrightarrow> d \<notin> set (pieces sep s) \<Longrightarrow> d \<notin> set (pieces sep (s @ t))"
  by (cases s rule: rev_cases) (auto simp: pieces_one pieces_append_sep)

lemma buf_string_append: "0 \<notin> set s \<Longrightarrow> buf_string (List.map Some s @ b) = map_option ((@) s) (buf_string b)"
  by (induction s) (cases "buf_string b"; simp)+

text \<open>What is behind the characters written so far: nothing, or a zero and then nothing.\<close>

definition unwritten :: "u8 option list \<Rightarrow> bool" where
  "unwritten b \<longleftrightarrow> (\<forall>c \<in> set (tl b). c = None) \<and> (b \<noteq> [] \<longrightarrow> hd b = None \<or> hd b = Some 0)"

lemma unwritten_string: "unwritten b \<Longrightarrow> buf_string b = Some r \<Longrightarrow> r = []"
  by (cases b) (auto simp: unwritten_def split: if_splits)

lemma unwritten_Nones: "\<forall>x \<in> set b. x = None \<Longrightarrow> unwritten b"
  by (cases b) (auto simp: unwritten_def)

lemma put_str_at:
  assumes "put_str (List.map Some s @ b) (length s) t = Some c" and "unwritten b"
  obtains b' where "c = List.map Some (s @ t) @ Some 0 # b'" "\<forall>x \<in> set b'. x = None"
proof
  show "c = List.map Some (s @ t) @ Some 0 # drop (Suc (length t)) b"
    using assms(1) by (auto simp: put_str_def split: if_splits)
  show "\<forall>x \<in> set (drop (Suc (length t)) b). x = None"
    using assms(2) by (cases b) (auto simp: unwritten_def dest: in_set_dropD)
qed

lemma in_set_tl: "x \<in> set (tl l) \<Longrightarrow> x \<in> set l"
  by (cases l) auto

lemma NextToken_piece:
  assumes "NextToken slash s = (t, r)"
  shows "slash \<notin> set t" and "set t \<subseteq> set s" and "r = Some q \<Longrightarrow> set q \<subseteq> set s"
    and "s \<noteq> [] \<Longrightarrow> hd s = slash \<Longrightarrow> t = [] \<and> r = Some (tl s)"
  using assms
  by (auto simp: NextToken_def hd_conv_nth split: if_splits dest!: in_set_takeD in_set_tl dest: set_takeWhileD set_dropWhileD)
    (cases s; auto)+

lemma path_loop_pieces:
  assumes "path_loop p (List.map Some s @ b) (length s) rem = Some c" and "buf_string c = Some path"
    and "unwritten b" and "0 \<notin> set s" and "dot_dot \<notin> set (pieces slash s)"
    and "\<And>q. p = Some q \<Longrightarrow> 0 \<notin> set q \<and> (s = [] \<or> last s = slash \<or> (q \<noteq> [] \<and> hd q = slash \<and> 0 < rem))"
  shows "take (length s) path = s \<and> dot_dot \<notin> set (pieces slash path)"
  using assms
proof (induction p "List.map Some s @ b" "length s" rem arbitrary: s b rule: path_loop.induct)
  case (1 rem)
  then have "path = s" using unwritten_string by (auto simp: buf_string_append)
  then show ?case using 1 by simp
next
  case (2 q rem)
  obtain t r where t: "NextToken slash q = (t, r)" by (cases "NextToken slash q")
  note tp = NextToken_piece [OF t]
  have q: "0 \<notin> set q" "s = [] \<or> last s = slash \<or> (q \<noteq> [] \<and> hd q = slash \<and> 0 < rem)" using "2.prems"(6) by auto
  show ?case
  proof (cases "t \<noteq> dot_dot \<and> length t < rem")
    case False
    then have "\<not> (q \<noteq> [] \<and> hd q = slash \<and> 0 < rem)" using tp(4) by fastforce
    then show ?thesis
      using False t tp q "2.prems" by (intro "2.hyps"(3)) auto
  next
    case True
    then obtain b1 where b1: "put_str (List.map Some s @ b) (length s) t = Some b1" using "2.prems"(1) t by (auto elim!: bind_SomeE)
    obtain b' where b': "b1 = List.map Some (s @ t) @ Some 0 # b'" "\<forall>x \<in> set b'. x = None"
      by (rule put_str_at [OF b1 "2.prems"(3)])
    have pcs: "dot_dot \<notin> set (pieces slash (s @ t))"
      using pieces_token [of s slash t dot_dot] q(2) tp(1,4) "2.prems"(5) True by fastforce
    have nz: "0 \<notin> set (s @ t)" using "2.prems"(4) q(1) tp(2) by auto
    show ?thesis
    proof (cases r)
      case None
      then have "c = b1" using "2.prems"(1) t True b1 by simp
      then have "path = s @ t" using "2.prems"(2) nz by (simp add: b'(1) buf_string_append del: map_append)
      then show ?thesis using pcs by simp
    next
      case (Some q')
      let ?s = "s @ t @ [slash]"
      have b2: "awrite b1 (length s + length t) (Some slash) = Some (List.map Some ?s @ b')"
        by (simp add: b'(1) awrite_def list_update_append)
      have run: "path_loop (Some q') (List.map Some ?s @ b') (length s + length t + 1) (rem - length t - 1) = Some c"
        using "2.prems"(1) t True b1 b2 Some by simp
      have "take (length ?s) path = ?s \<and> dot_dot \<notin> set (pieces slash path)"
      proof (rule "2.hyps"(1) [where s = ?s and b = b'])
        show "(t, r) = NextToken slash q" "t \<noteq> dot_dot \<and> length t < rem" "put_str (List.map Some s @ b) (length s) t = Some b1"
          "r \<noteq> None" "awrite b1 (length s + length t) (Some slash) = Some (List.map Some ?s @ b')" "buf_string c = Some path"
          using t True b1 Some b2 "2.prems"(2) by simp_all
        show "path_loop r (List.map Some ?s @ b') (length ?s) (rem - length t - 1) = Some c" using run Some by simp
        show "unwritten b'" "0 \<notin> set ?s" using b'(2) nz by (auto intro: unwritten_Nones)
        show "dot_dot \<notin> set (pieces slash ?s)" using pcs pieces_append_sep [of slash "s @ t" "[]"] by simp
        show "0 \<notin> set q'' \<and> (?s = [] \<or> last ?s = slash \<or> q'' \<noteq> [] \<and> hd q'' = slash \<and> 0 < rem - length t - 1)" if "r = Some q''" for q''
          using tp(3) [OF that] q(1) by auto
      qed simp
      then show ?thesis by (auto simp: min_def dest: arg_cong [of _ _ "take (length s)"] split: if_splits)
    qed
  qed
qed

text \<open>
  C32: A path that was restricted has no component \<open>..\<close> (if the base has none), and when the client's
  path does not begin with the base the result does.
\<close>

theorem restricted_path_safe:
  assumes "allocAndRestrictPath path_max (path @ 0 # r1) (base @ 0 # r2) w = Some (s, w')"
    and "0 \<notin> set path" and "0 \<notin> set base" and "dot_dot \<notin> set (pieces slash base)"
  shows "\<exists>p. s = p @ [0] \<and> dot_dot \<notin> set (pieces slash p) \<and> (take (length base) path \<noteq> base \<longrightarrow> take (length base) p = base)"
proof -
  have str: "cstring (path @ 0 # r1) = Some path" "cstring (base @ 0 # r2) = Some base"
    using assms(2,3) by (simp_all add: cstring_def cstrlen_terminated)
  have blank: "unwritten (replicate k None)" "unwritten (Some 0 # replicate k None)" for k
    by (auto simp: unwritten_def)
  obtain b off c p where b: "path_start path_max path base = Some (b, off)"
    and c: "path_loop (SC_StringParser path) b off (path_max - off) = Some c" "buf_string c = Some p" "s = p @ [0]"
    using assms(1) by (auto simp: allocAndRestrictPath_def str elim!: bind_SomeE split: prod.splits option.splits)
  have start: "take (length q) p = q \<and> dot_dot \<notin> set (pieces slash p)"
    if "b = List.map Some q @ b'" "off = length q" "unwritten b'" "0 \<notin> set q" "dot_dot \<notin> set (pieces slash q)"
      "q = [] \<or> last q = slash \<or> (path \<noteq> [] \<and> hd path = slash \<and> 0 < path_max - length q)" for q b'
    by (rule path_loop_pieces [of "SC_StringParser path" q b' "path_max - off" c p])
      (use that c assms(2) in \<open>auto simp: SC_StringParser_def split: if_splits\<close>)
  show ?thesis
  proof (cases "take (length base) path = base")
    case True
    then have "b = List.map Some [] @ replicate path_max None" "off = length []" using b by (simp_all add: path_start_def)
    from start [OF this] show ?thesis using True c(3) blank by simp
  next
    case False
    then obtain b1 where b1: "put_str (replicate path_max None) 0 base = Some b1" using b by (auto simp: path_start_def elim!: bind_SomeE)
    have fit: "length base < path_max" using b1 by (auto simp: put_str_def split: if_splits)
    have b1_eq: "b1 = List.map Some base @ Some 0 # replicate (path_max - Suc (length base)) None"
      using b1 by (auto simp: put_str_def drop_replicate split: if_splits)
    show ?thesis
    proof (cases "(path = [] \<or> hd path \<noteq> slash) \<and> last base \<noteq> slash")
      case True
      have "b = List.map Some (base @ [slash]) @ replicate (path_max - Suc (length base)) None" "off = length (base @ [slash])"
        using b b1 False True by (auto simp: path_start_def b1_eq awrite_def list_update_append)
      from start [OF this] show ?thesis
        using assms(3,4) blank c(3) pieces_append_sep [of slash base "[]"]
        by (auto dest: arg_cong [of _ _ "take (length base)"])
    next
      case no_slash: False
      have "b = List.map Some base @ Some 0 # replicate (path_max - Suc (length base)) None" "off = length base"
        using b b1 False no_slash by (auto simp: path_start_def b1_eq)
      from start [OF this] show ?thesis
        using assms(3,4) blank c(3) fit no_slash by auto
    qed
  qed
qed

text \<open>The base \<open>/b\<close> and the paths \<open>a\<close>, \<open>/bx/a\<close> and \<open>/b/..\<close>.\<close>

definition restrict_only :: "nat \<Rightarrow> u8 list \<Rightarrow> u8 list \<Rightarrow> u8 list option" where
  "restrict_only path_max path base = do {
     (strbuf, offset) \<leftarrow> path_start path_max path base;
     strbuf \<leftarrow> path_loop (SC_StringParser path) strbuf offset (path_max - offset);
     buf_string strbuf }"

lemma allocAndRestrictPath_only:
  assumes "0 \<notin> set path" and "0 \<notin> set base"
  shows "allocAndRestrictPath m (path @ [0]) (base @ [0]) (empty_world k)
    = map_option (\<lambda>s. (s @ [0], snd (World_Alloc (empty_world k)))) (restrict_only m path base)"
  using assms
  by (auto simp: allocAndRestrictPath_def restrict_only_def cstring_def cstrlen_terminated World_Alloc_def empty_world_def map_option_case split: bind_split)

lemma restrict_evals:
  "restrict_only 16 [97] [47, 98] = Some [47, 98, 47, 97]"
  "restrict_only 16 [47, 98, 120, 47, 97] [47, 98] = Some [47, 98, 120, 47, 97]"
  "restrict_only 16 [47, 98, 47, 46, 46] [47, 98] = None"
  by code_simp+

lemma restricts:
  "allocAndRestrictPath 16 [97, 0] [47, 98, 0] (empty_world 1) = Some ([47, 98, 47, 97, 0], snd (World_Alloc (empty_world 1)))"
  "allocAndRestrictPath 16 [47, 98, 120, 47, 97, 0] [47, 98, 0] (empty_world 1)
     = Some ([47, 98, 120, 47, 97, 0], snd (World_Alloc (empty_world 1)))"
  "allocAndRestrictPath 16 [47, 98, 47, 46, 46, 0] [47, 98, 0] (empty_world 1) = None"
  using allocAndRestrictPath_only [of "[97]" "[47, 98]" 16 1] allocAndRestrictPath_only [of "[47, 98, 120, 47, 97]" "[47, 98]" 16 1]
    allocAndRestrictPath_only [of "[47, 98, 47, 46, 46]" "[47, 98]" 16 1] by (simp_all add: restrict_evals)

theorem restricted_path_safe_witness:
  "dot_dot \<notin> set (pieces slash [47, 98, 47, 97]) \<and> take 2 [47, 98, 47, 97] = [47, 98 :: u8]"
  using restricted_path_safe [of 16 "[97]" "[]" "[47, 98]" "[]"] restricts(1) by fastforce

text \<open>
  Where the restriction fails: the base is compared as a string, so that with the base \<open>/b\<close> a file in the
  directory \<open>/bx\<close> beside it is let through; and after a path that ends in \<open>..\<close> the buffer is not
  terminated and bytes that were never written are read.
\<close>

theorem restricted_path_holes:
  "allocAndRestrictPath 16 [47, 98, 120, 47, 97, 0] [47, 98, 0] (empty_world 1)
     = Some ([47, 98, 120, 47, 97, 0], snd (World_Alloc (empty_world 1)))
   \<and> allocAndRestrictPath 16 [47, 98, 47, 46, 46, 0] [47, 98, 0] (empty_world 1) = None"
  by (intro conjI restricts)

end
