(* ===== verification/SC_Sequenced.thy ===== *)
theory SC_Sequenced
  imports SC_Buffers
begin

text \<open>
  The sequenced commands, \<open>server/scsynth/SC_SequencedCommand.cpp\<close>: commands that go through four
  stages, by turns in the real-time thread (1, 3) and in the other one (2, 4). What the commands rely on
  and this development does not model is a field of the record \<open>env\<close>. A function that throws gives \<open>Thrown\<close>.
\<close>

section \<open>What is outside\<close>

text \<open>
  The system's path length; the buffer generators of plug-ins (by name, and what one does to a
  buffer of the mirror); opening a sound file for reading (its header and samples) and for writing
  (\<open>None\<close>, or the library's error); performing a completion message (whether it was
  scheduled); reading definitions out of a blob, files or a directory (the new list of definitions);
  the stages and clean-up function of an asynchronous plug-in command; the driver's load and rates; what an uninitialised
  \<open>double\<close> holds.
\<close>

record env =
  path_max :: nat
  find_bufgen :: "i32 list \<Rightarrow> nat option"
  run_bufgen :: "nat \<Rightarrow> i32 \<Rightarrow> sc_msg_iter \<Rightarrow> World \<Rightarrow> World option"
  open_read :: "u8 list \<Rightarrow> sf_file option"
  open_write :: "u8 list \<Rightarrow> i32 \<Rightarrow> i32 \<Rightarrow> i32 \<Rightarrow> u8 list option"
  completion :: "u8 list \<Rightarrow> nat \<Rightarrow> World \<Rightarrow> (bool \<times> World) option"
  def_recv :: "u8 list \<Rightarrow> ptr list \<Rightarrow> World \<Rightarrow> ptr list \<times> World"
  def_load_glob :: "u8 list \<Rightarrow> ptr list \<Rightarrow> World \<Rightarrow> ptr list \<times> World"
  def_load_dir :: "u8 list \<Rightarrow> ptr list \<Rightarrow> World \<Rightarrow> ptr list \<times> World"
  async_stage :: "i32 \<Rightarrow> nat \<Rightarrow> (World \<Rightarrow> (bool \<times> World) option) option"
  async_cleanup :: "i32 \<Rightarrow> World \<Rightarrow> World option"
  avg_cpu :: f32
  peak_cpu :: f32
  driver_rate :: f64
  driver_actual_rate :: f64
  uninit_double :: f64

datatype cmd_result = Ret SCErr | Thrown

section \<open>Messages of the commands\<close>

definition must_alloc :: "World \<Rightarrow> World option" where
  "must_alloc w = (case World_Alloc w of (None, w) \<Rightarrow> None | (Some _, w) \<Rightarrow> Some w)"

text \<open>
  \<open>mMsgSize\<close> is an \<open>int\<close>; a block of negative size is not to be had. The message's data is copied
  out of the blob.
\<close>

definition GET_COMPLETION_MSG :: "sc_msg_iter \<Rightarrow> SC_SequencedCommand \<Rightarrow> World \<Rightarrow> (SC_SequencedCommand \<times> World) option" where
  "GET_COMPLETION_MSG msg cmd w = do {
     s \<leftarrow> getbsize msg;
     let mMsgSize = (ucast s :: i32);
     if mMsgSize = 0 then Some (cmd, w)
     else if sint mMsgSize < 0 then None
     else do {
       w \<leftarrow> must_alloc w;
       (bs, _) \<leftarrow> getb (unat mMsgSize) msg;
       Some (cmd\<lparr>mMsgData := Some (case bs of Some bs \<Rightarrow> bs | None \<Rightarrow> replicate (unat mMsgSize) 0)\<rparr>, w) } }"

definition SEND_COMPLETION_MSG :: "env \<Rightarrow> SC_SequencedCommand \<Rightarrow> World \<Rightarrow> (SC_SequencedCommand \<times> World) option" where
  "SEND_COMPLETION_MSG E cmd w =
     (case mMsgData cmd of None \<Rightarrow> Some (cmd, w)
      | Some d \<Rightarrow> do {
          (scheduled, w) \<leftarrow> completion E d (mReplyAddress cmd) w;
          Some (if scheduled then (cmd\<lparr>mMsgData := None\<rparr>, w) else (cmd, w)) })"

text \<open>A new command: its fields as the constructors leave them.\<close>

definition new_command :: "env \<Rightarrow> seq_class \<Rightarrow> nat \<Rightarrow> SC_SequencedCommand" where
  "new_command E c inReply = \<lparr>scClass = c, mNextStage = 1, mReplyAddress = inReply, mMsgData = None, mCmdID = 0,
     mBufIndex = 0, mNumFrames = 0, mNumChannels = 0, mFileOffset = 0, mBufOffset = 0, mLeaveFileOpen = False,
     mFilename = [], mChannels = [], mCmdSampleRate = uninit_double E, mFreeData = None, mSndBuf = None, mBuffer = [],
     mMsg = None, mFormat = 0, mDefs = [], mCmdName = [], mErrString = []\<rparr>"

text \<open>The name of a file, an argument of many commands: \<open>None\<close> when there is none in the message.\<close>

definition get_filename :: "env \<Rightarrow> sc_msg_iter \<Rightarrow> World \<Rightarrow> (u8 list option \<times> sc_msg_iter \<times> World) option" where
  "get_filename E msg w = do {
     (filename, msg) \<leftarrow> gets None msg;
     (case filename of None \<Rightarrow> Some (None, msg, w)
      | Some pos \<Rightarrow> do {
          (name, w) \<leftarrow> (case mRestrictedPath w of
             Some base \<Rightarrow> allocAndRestrictPath (path_max E) (drop pos (mdata msg)) base w
           | None \<Rightarrow> do {
               w \<leftarrow> must_alloc w;
               s \<leftarrow> cstring (drop pos (mdata msg));
               Some (s @ [0], w) });
          Some (Some name, msg, w) }) }"

type_synonym init_result = "(cmd_result \<times> SC_SequencedCommand \<times> World) option"

section \<open>Reading the arguments\<close>

definition SyncCmd_Init :: "env \<Rightarrow> sc_msg_iter \<Rightarrow> SC_SequencedCommand \<Rightarrow> World \<Rightarrow> init_result" where
  "SyncCmd_Init E msg cmd w = do {
     (i, msg) \<leftarrow> geti 0 msg;
     Some (Ret kSCErr_None, cmd\<lparr>mCmdID := i\<rparr>, w) }"

definition BufAllocCmd_Init :: "env \<Rightarrow> sc_msg_iter \<Rightarrow> SC_SequencedCommand \<Rightarrow> World \<Rightarrow> init_result" where
  "BufAllocCmd_Init E msg cmd w = do {
     (b, msg) \<leftarrow> geti 0 msg;
     (frames, msg) \<leftarrow> geti 0 msg;
     (channels, msg) \<leftarrow> geti 1 msg;
     (cmd, w) \<leftarrow> GET_COMPLETION_MSG msg (cmd\<lparr>mBufIndex := b, mNumFrames := frames, mNumChannels := channels\<rparr>) w;
     Some (Ret kSCErr_None, cmd, w) }"

text \<open>\<open>b_gen\<close> copies the message first; \<open>inData\<close> and \<open>inSize\<close> are the message's.\<close>

definition BufGenCmd_Init :: "env \<Rightarrow> nat \<Rightarrow> u8 list \<Rightarrow> SC_SequencedCommand \<Rightarrow> World \<Rightarrow> init_result" where
  "BufGenCmd_Init E inSize inData cmd w = do {
     w \<leftarrow> must_alloc w;
     d \<leftarrow> (if inSize \<le> length inData then Some (take inSize inData) else None);
     msg \<leftarrow> msg_init inSize d;
     (b, msg) \<leftarrow> geti 0 msg;
     (genName, msg) \<leftarrow> gets4 None msg;
     (case genName of None \<Rightarrow> Some (Ret kSCErr_WrongArgType, cmd\<lparr>mBufIndex := b\<rparr>, w)
      | Some pos \<Rightarrow>
         (case find_bufgen E (words_at (mdata msg) pos) of
            None \<Rightarrow> Some (Ret kSCErr_BufGenNotFound, cmd\<lparr>mBufIndex := b\<rparr>, w)
          | Some g \<Rightarrow> Some (Ret kSCErr_None, cmd\<lparr>mBufIndex := b, mCmdID := of_nat g, mMsg := Some msg\<rparr>, w))) }"

text \<open>\<open>b_free\<close>, \<open>b_zero\<close> and \<open>b_close\<close> read the same arguments.\<close>

definition buf_index_Init :: "env \<Rightarrow> sc_msg_iter \<Rightarrow> SC_SequencedCommand \<Rightarrow> World \<Rightarrow> init_result" where
  "buf_index_Init E msg cmd w = do {
     (b, msg) \<leftarrow> geti 0 msg;
     (cmd, w) \<leftarrow> GET_COMPLETION_MSG msg (cmd\<lparr>mBufIndex := b\<rparr>) w;
     Some (Ret kSCErr_None, cmd, w) }"

definition BufFreeCmd_Init where "BufFreeCmd_Init = buf_index_Init"
definition BufZeroCmd_Init where "BufZeroCmd_Init = buf_index_Init"
definition BufCloseCmd_Init where "BufCloseCmd_Init = buf_index_Init"

definition BufAllocReadCmd_Init :: "env \<Rightarrow> sc_msg_iter \<Rightarrow> SC_SequencedCommand \<Rightarrow> World \<Rightarrow> init_result" where
  "BufAllocReadCmd_Init E msg cmd w = do {
     (b, msg) \<leftarrow> geti 0 msg;
     (filename, msg, w) \<leftarrow> get_filename E msg w;
     (case filename of None \<Rightarrow> Some (Ret kSCErr_WrongArgType, cmd\<lparr>mBufIndex := b\<rparr>, w)
      | Some name \<Rightarrow> do {
          (off, msg) \<leftarrow> geti 0 msg;
          (frames, msg) \<leftarrow> geti 0 msg;
          (cmd, w) \<leftarrow> GET_COMPLETION_MSG msg (cmd\<lparr>mBufIndex := b, mFilename := name, mFileOffset := off, mNumFrames := frames\<rparr>) w;
          Some (Ret kSCErr_None, cmd, w) }) }"

definition BufReadCmd_Init :: "env \<Rightarrow> sc_msg_iter \<Rightarrow> SC_SequencedCommand \<Rightarrow> World \<Rightarrow> init_result" where
  "BufReadCmd_Init E msg cmd w = do {
     (b, msg) \<leftarrow> geti 0 msg;
     (filename, msg, w) \<leftarrow> get_filename E msg w;
     (case filename of None \<Rightarrow> Some (Ret kSCErr_WrongArgType, cmd\<lparr>mBufIndex := b\<rparr>, w)
      | Some name \<Rightarrow> do {
          (off, msg) \<leftarrow> geti 0 msg;
          (frames, msg) \<leftarrow> geti (-1) msg;
          (bufoff, msg) \<leftarrow> geti 0 msg;
          (leave, msg) \<leftarrow> geti 0 msg;
          (cmd, w) \<leftarrow> GET_COMPLETION_MSG msg (cmd\<lparr>mBufIndex := b, mFilename := name, mFileOffset := off, mNumFrames := frames,
            mBufOffset := bufoff, mLeaveFileOpen := (leave \<noteq> 0)\<rparr>) w;
          Some (Ret kSCErr_None, cmd, w) }) }"

definition BufAllocReadChannelCmd_Init :: "env \<Rightarrow> sc_msg_iter \<Rightarrow> SC_SequencedCommand \<Rightarrow> World \<Rightarrow> init_result" where
  "BufAllocReadChannelCmd_Init E msg cmd w = do {
     (b, msg) \<leftarrow> geti 0 msg;
     (filename, msg, w) \<leftarrow> get_filename E msg w;
     (case filename of None \<Rightarrow> Some (Ret kSCErr_WrongArgType, cmd\<lparr>mBufIndex := b\<rparr>, w)
      | Some name \<Rightarrow> do {
          (off, msg) \<leftarrow> geti 0 msg;
          (frames, msg) \<leftarrow> geti 0 msg;
          (channels, msg) \<leftarrow> InitChannels (length (mdata msg) + 34) [] msg;
          (cmd, w) \<leftarrow> GET_COMPLETION_MSG msg (cmd\<lparr>mBufIndex := b, mFilename := name, mFileOffset := off, mNumFrames := frames,
            mChannels := channels\<rparr>) w;
          Some (Ret kSCErr_None, cmd, w) }) }"

definition BufReadChannelCmd_Init :: "env \<Rightarrow> sc_msg_iter \<Rightarrow> SC_SequencedCommand \<Rightarrow> World \<Rightarrow> init_result" where
  "BufReadChannelCmd_Init E msg cmd w = do {
     (b, msg) \<leftarrow> geti 0 msg;
     (filename, msg, w) \<leftarrow> get_filename E msg w;
     (case filename of None \<Rightarrow> Some (Ret kSCErr_WrongArgType, cmd\<lparr>mBufIndex := b\<rparr>, w)
      | Some name \<Rightarrow> do {
          (off, msg) \<leftarrow> geti 0 msg;
          (frames, msg) \<leftarrow> geti (-1) msg;
          (bufoff, msg) \<leftarrow> geti 0 msg;
          (leave, msg) \<leftarrow> geti 0 msg;
          (channels, msg) \<leftarrow> InitChannels (length (mdata msg) + 34) [] msg;
          (cmd, w) \<leftarrow> GET_COMPLETION_MSG msg (cmd\<lparr>mBufIndex := b, mFilename := name, mFileOffset := off, mNumFrames := frames,
            mBufOffset := bufoff, mLeaveFileOpen := (leave \<noteq> 0), mChannels := channels\<rparr>) w;
          Some (Ret kSCErr_None, cmd, w) }) }"

text \<open>A string argument or its default: the null pointer at the end of the message.\<close>

definition gets_default :: "u8 list \<Rightarrow> sc_msg_iter \<Rightarrow> (u8 list option \<times> sc_msg_iter) option" where
  "gets_default d msg = do {
     (p, msg') \<leftarrow> gets None msg;
     Some (case p of Some pos \<Rightarrow> Some (drop pos (mdata msg')) | None \<Rightarrow> if remain msg \<le> 0 then None else Some d, msg') }"

definition BufWriteCmd_Init :: "env \<Rightarrow> sc_msg_iter \<Rightarrow> SC_SequencedCommand \<Rightarrow> World \<Rightarrow> init_result" where
  "BufWriteCmd_Init E msg cmd w = do {
     (b, msg) \<leftarrow> geti 0 msg;
     (filename, msg, w) \<leftarrow> get_filename E msg w;
     (case filename of None \<Rightarrow> Some (Ret kSCErr_WrongArgType, cmd\<lparr>mBufIndex := b\<rparr>, w)
      | Some name \<Rightarrow> do {
          (headerFormatString, msg) \<leftarrow> gets_default (cstr ''aiff'') msg;
          (sampleFormatString, msg) \<leftarrow> gets_default (cstr ''int16'') msg;
          (frames, msg) \<leftarrow> geti (-1) msg;
          (bufoff, msg) \<leftarrow> geti 0 msg;
          (leave, msg) \<leftarrow> geti 0 msg;
          (cmd, w) \<leftarrow> GET_COMPLETION_MSG msg (cmd\<lparr>mBufIndex := b, mFilename := name, mNumFrames := frames,
            mBufOffset := bufoff, mLeaveFileOpen := (leave \<noteq> 0)\<rparr>) w;
          (err, format) \<leftarrow> sndfileFormatInfoFromStrings headerFormatString sampleFormatString;
          Some (Ret err, cmd\<lparr>mFormat := format\<rparr>, w) }) }"

definition NotifyCmd_Init :: "env \<Rightarrow> sc_msg_iter \<Rightarrow> SC_SequencedCommand \<Rightarrow> World \<Rightarrow> init_result" where
  "NotifyCmd_Init E msg cmd w = do {
     (mOnOff, msg) \<leftarrow> geti 0 msg;
     Some (Ret kSCErr_None, cmd\<lparr>mCmdID := mOnOff\<rparr>, w) }"

definition InitSendFailureCmd :: "u8 list \<Rightarrow> u8 list \<Rightarrow> SC_SequencedCommand \<Rightarrow> World \<Rightarrow> (SC_SequencedCommand \<times> World) option" where
  "InitSendFailureCmd inCmdName inErrString cmd w = do {
     c \<leftarrow> cstring inCmdName;
     w \<leftarrow> must_alloc w;
     e \<leftarrow> cstring inErrString;
     w \<leftarrow> must_alloc w;
     Some (cmd\<lparr>mCmdName := c @ [0], mErrString := e @ [0]\<rparr>, w) }"

text \<open>The blob's size is truncated to an \<open>int\<close>. Without a blob this throws.\<close>

definition RecvSynthDefCmd_Init :: "env \<Rightarrow> sc_msg_iter \<Rightarrow> SC_SequencedCommand \<Rightarrow> World \<Rightarrow> init_result" where
  "RecvSynthDefCmd_Init E msg cmd w = do {
     s \<leftarrow> getbsize msg;
     let sz = (ucast s :: i32);
     if sz = 0 then Some (Thrown, cmd, w)
     else if sint sz < 0 then None
     else do {
       w \<leftarrow> must_alloc w;
       (bs, msg) \<leftarrow> getb (unat sz) msg;
       (cmd, w) \<leftarrow> GET_COMPLETION_MSG msg (cmd\<lparr>mBuffer := (case bs of Some bs \<Rightarrow> bs | None \<Rightarrow> replicate (unat sz) 0), mDefs := []\<rparr>) w;
       Some (Ret kSCErr_None, cmd, w) } }"

definition LoadSynthDefCmd_Init :: "env \<Rightarrow> sc_msg_iter \<Rightarrow> SC_SequencedCommand \<Rightarrow> World \<Rightarrow> init_result" where
  "LoadSynthDefCmd_Init E msg cmd w = do {
     (filename, msg, w) \<leftarrow> get_filename E msg w;
     (case filename of None \<Rightarrow> Some (Ret kSCErr_WrongArgType, cmd, w)
      | Some name \<Rightarrow> do {
          (cmd, w) \<leftarrow> GET_COMPLETION_MSG msg (cmd\<lparr>mFilename := name, mDefs := []\<rparr>) w;
          Some (Ret kSCErr_None, cmd, w) }) }"

definition LoadSynthDefDirCmd_Init :: "env \<Rightarrow> sc_msg_iter \<Rightarrow> SC_SequencedCommand \<Rightarrow> World \<Rightarrow> init_result" where
  "LoadSynthDefDirCmd_Init E msg cmd w = do {
     (filename, msg, w) \<leftarrow> get_filename E msg w;
     (case filename of None \<Rightarrow> Some (Ret kSCErr_WrongArgType, cmd, w)
      | Some name \<Rightarrow> do {
          (cmd, w) \<leftarrow> GET_COMPLETION_MSG msg (cmd\<lparr>mFilename := name, mDefs := []\<rparr>) w;
          Some (Ret kSCErr_None, cmd, w) }) }"

definition SendReplyCmd_Init :: "nat \<Rightarrow> u8 list \<Rightarrow> SC_SequencedCommand \<Rightarrow> World \<Rightarrow> init_result" where
  "SendReplyCmd_Init inSize inData cmd w = do {
     w \<leftarrow> must_alloc w;
     d \<leftarrow> (if inSize \<le> length inData then Some (take inSize inData) else None);
     Some (Ret kSCErr_None, cmd\<lparr>mMsgData := Some d\<rparr>, w) }"

definition Cmd_Init :: "env \<Rightarrow> nat \<Rightarrow> u8 list \<Rightarrow> SC_SequencedCommand \<Rightarrow> World \<Rightarrow> init_result" where
  "Cmd_Init E inSize inData cmd w =
     (let parse = (\<lambda>init. do { msg \<leftarrow> msg_init inSize inData; init E msg cmd w })
      in case scClass cmd of
        SyncCmd \<Rightarrow> parse SyncCmd_Init
      | BufAllocCmd \<Rightarrow> parse BufAllocCmd_Init
      | BufGenCmd \<Rightarrow> BufGenCmd_Init E inSize inData cmd w
      | BufFreeCmd \<Rightarrow> parse BufFreeCmd_Init
      | BufZeroCmd \<Rightarrow> parse BufZeroCmd_Init
      | BufCloseCmd \<Rightarrow> parse BufCloseCmd_Init
      | BufAllocReadCmd \<Rightarrow> parse BufAllocReadCmd_Init
      | BufReadCmd \<Rightarrow> parse BufReadCmd_Init
      | BufAllocReadChannelCmd \<Rightarrow> parse BufAllocReadChannelCmd_Init
      | BufReadChannelCmd \<Rightarrow> parse BufReadChannelCmd_Init
      | BufWriteCmd \<Rightarrow> parse BufWriteCmd_Init
      | NotifyCmd \<Rightarrow> parse NotifyCmd_Init
      | RecvSynthDefCmd \<Rightarrow> parse RecvSynthDefCmd_Init
      | LoadSynthDefCmd \<Rightarrow> parse LoadSynthDefCmd_Init
      | LoadSynthDefDirCmd \<Rightarrow> parse LoadSynthDefDirCmd_Init
      | SendReplyCmd \<Rightarrow> SendReplyCmd_Init inSize inData cmd w
      | _ \<Rightarrow> Some (Ret kSCErr_None, cmd, w))"

section \<open>The stages\<close>

type_synonym stage_result = "(bool \<times> SC_SequencedCommand \<times> World) option"

definition Stage1 :: "SC_SequencedCommand \<Rightarrow> World \<Rightarrow> stage_result" where
  "Stage1 cmd w = Some (True, cmd, w)"

text \<open>Formatting into a buffer of 256 bytes.\<close>

definition sprintf256 :: "u8 list \<Rightarrow> u8 list option" where
  "sprintf256 s = (if length s < 256 then Some (s @ [0]) else None)"

definition decimal :: "i32 \<Rightarrow> u8 list" where
  "decimal i = (if sint i < 0 then 45 # digits (nat (- sint i)) else digits (nat (sint i)))"

definition could_not_open :: "u8 list \<Rightarrow> u8 list option" where
  "could_not_open filename = do {
     s \<leftarrow> cstring filename;
     sprintf256 (chars ''File '' @ [39] @ s @ [39] @ chars '' could not be opened.'' @ [10]) }"

definition finish_buffer :: "env \<Rightarrow> SC_SequencedCommand \<Rightarrow> World \<Rightarrow> stage_result" where
  "finish_buffer E cmd w = do {
     w \<leftarrow> count_write (mBufIndex cmd) w;
     (cmd, w) \<leftarrow> SEND_COMPLETION_MSG E cmd w;
     Some (True, cmd, w) }"

text \<open>The third stage of the commands that replace a buffer: the engine gets the copy made in the second.\<close>

definition install_buffer :: "SC_SequencedCommand \<Rightarrow> World \<Rightarrow> World option" where
  "install_buffer cmd w = do { b \<leftarrow> mSndBuf cmd; set_rt (mBufIndex cmd) b w }"

definition free_and_done :: "string \<Rightarrow> SC_SequencedCommand \<Rightarrow> World \<Rightarrow> World option" where
  "free_and_done name cmd w = do {
     w \<leftarrow> free_samples (mFreeData cmd) w;
     SendDoneWithIntValue (mReplyAddress cmd) (cstr name) (mBufIndex cmd) w }"

definition SyncCmd_Stage4 :: "SC_SequencedCommand \<Rightarrow> World \<Rightarrow> World option" where
  "SyncCmd_Stage4 cmd w = do {
     packet \<leftarrow> adds (cstr ''/synced'') small_scpacket;
     packet \<leftarrow> maketags 2 packet;
     packet \<leftarrow> addtags [44, tag_i] packet;
     packet \<leftarrow> addi (mCmdID cmd) packet;
     Some (SendReply (mReplyAddress cmd) (packet_data packet) w) }"

definition BufAllocCmd_Stage2 :: "SC_SequencedCommand \<Rightarrow> World \<Rightarrow> stage_result" where
  "BufAllocCmd_Stage2 cmd w = do {
     b \<leftarrow> get_nrt (mBufIndex cmd) w;
     let cmd = cmd\<lparr>mFreeData := sbData b\<rparr>;
     let (_, b, w) = bufAlloc b (mNumChannels cmd) (mNumFrames cmd) (mFullSampleRate w) w;
     w \<leftarrow> set_nrt (mBufIndex cmd) b w;
     Some (True, cmd\<lparr>mSndBuf := Some b\<rparr>, w) }"

definition BufAllocCmd_Stage3 :: "env \<Rightarrow> SC_SequencedCommand \<Rightarrow> World \<Rightarrow> stage_result" where
  "BufAllocCmd_Stage3 E cmd w = do { w \<leftarrow> install_buffer cmd w; finish_buffer E cmd w }"

definition BufGenCmd_Stage2 :: "env \<Rightarrow> SC_SequencedCommand \<Rightarrow> World \<Rightarrow> stage_result" where
  "BufGenCmd_Stage2 E cmd w = do {
     b \<leftarrow> get_nrt (mBufIndex cmd) w;
     msg \<leftarrow> mMsg cmd;
     w \<leftarrow> run_bufgen E (unat (mCmdID cmd)) (mBufIndex cmd) msg w;
     b' \<leftarrow> get_nrt (mBufIndex cmd) w;
     Some (True, cmd\<lparr>mFreeData := (if sbData b' = sbData b then None else sbData b), mSndBuf := Some b'\<rparr>, w) }"

definition BufGenCmd_Stage3 :: "SC_SequencedCommand \<Rightarrow> World \<Rightarrow> stage_result" where
  "BufGenCmd_Stage3 cmd w = do {
     w \<leftarrow> install_buffer cmd w;
     w \<leftarrow> count_write (mBufIndex cmd) w;
     Some (True, cmd, w) }"

definition BufFreeCmd_Stage2 :: "SC_SequencedCommand \<Rightarrow> World \<Rightarrow> stage_result" where
  "BufFreeCmd_Stage2 cmd w = do {
     b \<leftarrow> get_nrt (mBufIndex cmd) w;
     w \<leftarrow> set_nrt (mBufIndex cmd) (SndBuf_Init b) w;
     Some (True, cmd\<lparr>mFreeData := sbData b\<rparr>, w) }"

definition BufFreeCmd_Stage3 :: "env \<Rightarrow> SC_SequencedCommand \<Rightarrow> World \<Rightarrow> stage_result" where
  "BufFreeCmd_Stage3 E cmd w = do {
     b \<leftarrow> get_rt (mBufIndex cmd) w;
     w \<leftarrow> set_rt (mBufIndex cmd) (SndBuf_Init b) w;
     finish_buffer E cmd w }"

text \<open>\<open>memset\<close> of nothing at a null pointer is let through.\<close>

definition BufZeroCmd_Stage2 :: "SC_SequencedCommand \<Rightarrow> World \<Rightarrow> stage_result" where
  "BufZeroCmd_Stage2 cmd w = do {
     b \<leftarrow> get_nrt (mBufIndex cmd) w;
     w \<leftarrow> (if sbSamples b = 0 then Some w
           else if sint (sbSamples b) < 0 then None
           else put_samples (sbData b) 0 (replicate (unat (sbSamples b)) 0) w);
     Some (True, cmd, w) }"

definition BufZeroCmd_Stage3 :: "env \<Rightarrow> SC_SequencedCommand \<Rightarrow> World \<Rightarrow> stage_result" where
  "BufZeroCmd_Stage3 E cmd w = finish_buffer E cmd w"

text \<open>Where to start in a file and how many frames to read; \<open>least\<close> is the least number taken as given.\<close>

definition clamp_offset :: "sf_file \<Rightarrow> i32 \<Rightarrow> i32" where
  "clamp_offset f off = (if sint off < 0 then 0 else if fFrames f < sint off then word_of_int (fFrames f) else off)"

definition clamp_frames :: "int \<Rightarrow> sf_file \<Rightarrow> i32 \<Rightarrow> i32 \<Rightarrow> i32" where
  "clamp_frames least f off n = (if sint n < least \<or> fFrames f < sint (n + off) then word_of_int (fFrames f - sint off) else n)"

definition BufAllocReadCmd_Stage2 :: "env \<Rightarrow> SC_SequencedCommand \<Rightarrow> World \<Rightarrow> stage_result" where
  "BufAllocReadCmd_Stage2 E cmd w = do {
     b \<leftarrow> get_nrt (mBufIndex cmd) w;
     (case open_read E (mFilename cmd) of
        None \<Rightarrow> do {
          str \<leftarrow> could_not_open (mFilename cmd);
          w \<leftarrow> SendFailureWithBufnum (mReplyAddress cmd) (cstr ''/b_allocRead'') str (mBufIndex cmd) w;
          Some (False, cmd, w) }
      | Some f \<Rightarrow> do {
          let (sf, w) = sf_opened w;
          let off = clamp_offset f (mFileOffset cmd);
          let n = clamp_frames 1 f off (mNumFrames cmd);
          let cmd = cmd\<lparr>mFileOffset := off, mNumFrames := n, mFreeData := sbData b\<rparr>;
          let (err, b, w) = bufAlloc b (fChannels f) n (f64_of_int (fSamplerate f)) w;
          w \<leftarrow> (if err \<noteq> kSCErr_None then Some w else put_samples (sbData b) 0 (file_samples f off n) w);
          w \<leftarrow> set_nrt (mBufIndex cmd) b w;
          w \<leftarrow> sf_close sf w;
          Some (True, cmd\<lparr>mSndBuf := Some b\<rparr>, w) }) }"

definition BufAllocReadCmd_Stage3 :: "env \<Rightarrow> SC_SequencedCommand \<Rightarrow> World \<Rightarrow> stage_result" where
  "BufAllocReadCmd_Stage3 E cmd w = do { w \<leftarrow> install_buffer cmd w; finish_buffer E cmd w }"

text \<open>The end of reading into a buffer: the file stays open in the buffer or is closed.\<close>

definition leave_file :: "SC_SequencedCommand \<Rightarrow> nat \<Rightarrow> World \<Rightarrow> World option" where
  "leave_file cmd sf w = do {
     b \<leftarrow> get_nrt (mBufIndex cmd) w;
     if mLeaveFileOpen cmd \<and> sbSndfile b = None then set_nrt (mBufIndex cmd) (b\<lparr>sbSndfile := Some sf\<rparr>) w
     else sf_close sf w }"

definition BufReadCmd_Stage2 :: "env \<Rightarrow> SC_SequencedCommand \<Rightarrow> World \<Rightarrow> stage_result" where
  "BufReadCmd_Stage2 E cmd w = do {
     b \<leftarrow> get_nrt (mBufIndex cmd) w;
     let framesToEnd = sbFrames b - mBufOffset cmd;
     if sint framesToEnd \<le> 0 then Some (True, cmd, w)
     else (case open_read E (mFilename cmd) of
        None \<Rightarrow> do {
          str \<leftarrow> could_not_open (mFilename cmd);
          w \<leftarrow> SendFailureWithBufnum (mReplyAddress cmd) (cstr ''/b_read'') str (mBufIndex cmd) w;
          Some (False, cmd, w) }
      | Some f \<Rightarrow> do {
          let (sf, w) = sf_opened w;
          if fChannels f \<noteq> sbChannels b then do {
            w \<leftarrow> sf_close sf w;
            s \<leftarrow> cstring (mFilename cmd);
            str \<leftarrow> sprintf256 (chars ''channel mismatch. File'' @ [39] @ s @ [39] @ chars '' has '' @ decimal (fChannels f)
              @ chars '' channels. Buffer has '' @ decimal (sbChannels b) @ chars '' channels.'' @ [10]);
            w \<leftarrow> SendFailureWithBufnum (mReplyAddress cmd) (cstr ''/b_read'') str (mBufIndex cmd) w;
            Some (False, cmd, w) }
          else do {
            let off = clamp_offset f (mFileOffset cmd);
            let n = clamp_frames 0 f off (mNumFrames cmd);
            let n = (if sint framesToEnd < sint n then framesToEnd else n);
            let cmd = cmd\<lparr>mFileOffset := off, mNumFrames := n\<rparr>;
            w \<leftarrow> (if 0 < sint n then put_samples (sbData b) (sint (mBufOffset cmd * sbChannels b)) (file_samples f off n) w
                  else Some w);
            w \<leftarrow> leave_file cmd sf w;
            Some (True, cmd\<lparr>mCmdSampleRate := f64_of_int (fSamplerate f)\<rparr>, w) } }) }"

definition BufReadCmd_Stage3 :: "env \<Rightarrow> SC_SequencedCommand \<Rightarrow> World \<Rightarrow> stage_result" where
  "BufReadCmd_Stage3 E cmd w = do {
     b \<leftarrow> get_rt (mBufIndex cmd) w;
     w \<leftarrow> set_rt (mBufIndex cmd) (b\<lparr>sbSamplerate := mCmdSampleRate cmd\<rparr>) w;
     finish_buffer E cmd w }"

text \<open>A temporary block; \<open>zallocs\<close> says which allocations fail.\<close>

definition temp_alloc :: "World \<Rightarrow> bool \<times> World" where
  "temp_alloc w = (case zallocs w of False # as \<Rightarrow> (False, w\<lparr>zallocs := as\<rparr>) | as \<Rightarrow> (True, w\<lparr>zallocs := tl as\<rparr>))"

text \<open>
  Reading some channels of a file through a temporary block to a place in a buffer. The block's size
  is a product of \<open>int\<close>s: wrapped to a negative number it cannot be had, wrapped to a smaller one the
  file is read past it.
\<close>

definition read_channels :: "SC_SequencedCommand \<Rightarrow> sf_file \<Rightarrow> ptr option \<Rightarrow> int \<Rightarrow> World \<Rightarrow> World option" where
  "read_channels cmd f d base w =
     (let n = mNumFrames cmd; sz = n * fChannels f
      in if sint sz < 0 then Some w
         else case temp_alloc w of
           (False, w) \<Rightarrow> Some w
         | (True, w) \<Rightarrow>
             if sint n * sint (fChannels f) \<noteq> sint sz then None
             else do {
               p \<leftarrow> d;
               mem \<leftarrow> bufmem w p;
               if base < 0 \<or> length mem < nat base then None
               else do {
                 new \<leftarrow> CopyChannels (mChannels cmd) (drop (nat base) mem) (file_samples f (mFileOffset cmd) n)
                   (unat (fChannels f)) (unat n);
                 Some (w\<lparr>bufmem := (bufmem w)(p \<mapsto> take (nat base) mem @ new)\<rparr>) } })"

definition channel_out_of_range :: "u8 list" where
  "channel_out_of_range = cstr (''Channel index out of range.'' @ [CHR 0x0A])"

definition BufAllocReadChannelCmd_Stage2 :: "env \<Rightarrow> SC_SequencedCommand \<Rightarrow> World \<Rightarrow> stage_result" where
  "BufAllocReadChannelCmd_Stage2 E cmd w = do {
     b \<leftarrow> get_nrt (mBufIndex cmd) w;
     (case open_read E (mFilename cmd) of
        None \<Rightarrow> do {
          str \<leftarrow> could_not_open (mFilename cmd);
          w \<leftarrow> SendFailureWithBufnum (mReplyAddress cmd) (cstr ''/b_allocReadChannel'') str (mBufIndex cmd) w;
          Some (False, cmd, w) }
      | Some f \<Rightarrow> do {
          let (sf, w) = sf_opened w;
          let off = clamp_offset f (mFileOffset cmd);
          let n = clamp_frames 1 f off (mNumFrames cmd);
          let cmd = cmd\<lparr>mFileOffset := off, mNumFrames := n\<rparr>;
          if mChannels cmd \<noteq> [] \<and> \<not> CheckChannels (mChannels cmd) (fChannels f) then do {
            w \<leftarrow> SendFailureWithBufnum (mReplyAddress cmd) (cstr ''/b_allocReadChannel'') channel_out_of_range (mBufIndex cmd) w;
            w \<leftarrow> sf_close sf w;
            Some (False, cmd, w) }
          else do {
            let cmd = cmd\<lparr>mFreeData := sbData b\<rparr>;
            let (err, b, w) = bufAlloc b (if mChannels cmd = [] then fChannels f else of_nat (length (mChannels cmd))) n
              (f64_of_int (fSamplerate f)) w;
            w \<leftarrow> (if err \<noteq> kSCErr_None then Some w
                  else if mChannels cmd = [] then put_samples (sbData b) 0 (file_samples f off n) w
                  else read_channels cmd f (sbData b) 0 w);
            w \<leftarrow> set_nrt (mBufIndex cmd) b w;
            w \<leftarrow> sf_close sf w;
            Some (True, cmd\<lparr>mSndBuf := Some b\<rparr>, w) } }) }"

definition BufAllocReadChannelCmd_Stage3 :: "env \<Rightarrow> SC_SequencedCommand \<Rightarrow> World \<Rightarrow> stage_result" where
  "BufAllocReadChannelCmd_Stage3 E cmd w = do { w \<leftarrow> install_buffer cmd w; finish_buffer E cmd w }"

definition BufReadChannelCmd_Stage2 :: "env \<Rightarrow> SC_SequencedCommand \<Rightarrow> World \<Rightarrow> stage_result" where
  "BufReadChannelCmd_Stage2 E cmd w = do {
     b \<leftarrow> get_nrt (mBufIndex cmd) w;
     let framesToEnd = sbFrames b - mBufOffset cmd;
     if sint framesToEnd \<le> 0 then Some (True, cmd, w)
     else (case open_read E (mFilename cmd) of
        None \<Rightarrow> do {
          str \<leftarrow> could_not_open (mFilename cmd);
          w \<leftarrow> SendFailureWithBufnum (mReplyAddress cmd) (cstr ''/b_readChannel'') str (mBufIndex cmd) w;
          Some (False, cmd, w) }
      | Some f \<Rightarrow> do {
          let (sf, w) = sf_opened w;
          if mChannels cmd \<noteq> [] \<and> \<not> CheckChannels (mChannels cmd) (fChannels f) then do {
            w \<leftarrow> SendFailureWithBufnum (mReplyAddress cmd) (cstr ''/b_readChannel'') channel_out_of_range (mBufIndex cmd) w;
            w \<leftarrow> sf_close sf w;
            Some (False, cmd, w) }
          else do {
            let off = clamp_offset f (mFileOffset cmd);
            let n = clamp_frames 0 f off (mNumFrames cmd);
            let n = (if sint framesToEnd < sint n then framesToEnd else n);
            let cmd = cmd\<lparr>mFileOffset := off, mNumFrames := n\<rparr>;
            w \<leftarrow> (if \<not> 0 < sint n then Some w
                  else if mChannels cmd = [] then put_samples (sbData b) (sint (mBufOffset cmd * sbChannels b)) (file_samples f off n) w
                  else read_channels cmd f (sbData b) (sint (mBufOffset cmd * of_nat (length (mChannels cmd)))) w);
            w \<leftarrow> leave_file cmd sf w;
            Some (True, cmd\<lparr>mCmdSampleRate := f64_of_int (fSamplerate f)\<rparr>, w) } }) }"

definition BufReadChannelCmd_Stage3 :: "env \<Rightarrow> SC_SequencedCommand \<Rightarrow> World \<Rightarrow> stage_result" where
  "BufReadChannelCmd_Stage3 E cmd w = do {
     b \<leftarrow> get_rt (mBufIndex cmd) w;
     w \<leftarrow> set_rt (mBufIndex cmd) (b\<lparr>sbSamplerate := mCmdSampleRate cmd\<rparr>) w;
     finish_buffer E cmd w }"

text \<open>Truncation of a \<open>double\<close> towards zero.\<close>

definition int_of_f64 :: "f64 \<Rightarrow> i32 option" where
  "int_of_f64 f =
     (case f64_mag f of
        Fin m e \<Rightarrow>
          (let n = (if 0 \<le> e then m * 2 ^ nat e else m div 2 ^ nat (- e));
               i = (if f64_sign f then - int n else int n)
           in if - (2 ^ 31) \<le> i \<and> i < 2 ^ 31 then Some (word_of_int i) else None)
      | _ \<Rightarrow> None)"

definition BufWriteCmd_Stage2 :: "env \<Rightarrow> SC_SequencedCommand \<Rightarrow> World \<Rightarrow> stage_result" where
  "BufWriteCmd_Stage2 E cmd w = do {
     b \<leftarrow> get_nrt (mBufIndex cmd) w;
     let framesToEnd = (if sint (sbFrames b - mBufOffset cmd) < 0 then 0 else sbFrames b - mBufOffset cmd);
     rate \<leftarrow> int_of_f64 (sbSamplerate b);
     (case open_write E (mFilename cmd) (mFormat cmd) rate (sbChannels b) of
        Some sferr \<Rightarrow> do {
          s \<leftarrow> cstring (mFilename cmd);
          str \<leftarrow> sprintf256 (chars ''File '' @ [39] @ s @ [39] @ chars '' could not be opened. '' @ [39] @ sferr @ [39, 10]);
          w \<leftarrow> SendFailureWithBufnum (mReplyAddress cmd) (cstr ''/b_write'') str (mBufIndex cmd) w;
          Some (False, cmd, w) }
      | None \<Rightarrow> do {
          let (sf, w) = sf_opened w;
          let n = (if sint (mNumFrames cmd) < 0 \<or> sint (sbFrames b) < sint (mNumFrames cmd) then sbFrames b else mNumFrames cmd);
          let n = (if sint framesToEnd < sint n then framesToEnd else n);
          let cmd = cmd\<lparr>mNumFrames := n\<rparr>;
          w \<leftarrow> (if 0 < sint n then do {
                   xs \<leftarrow> get_samples (sbData b) (sint (mBufOffset cmd * sbChannels b)) (nat (sint n * sint (sbChannels b))) w;
                   Some (w\<lparr>mFileWrites := mFileWrites w @ [(sf, xs)]\<rparr>) }
                 else Some w);
          w \<leftarrow> leave_file cmd sf w;
          Some (True, cmd, w) }) }"

definition completion_Stage3 :: "env \<Rightarrow> SC_SequencedCommand \<Rightarrow> World \<Rightarrow> stage_result" where
  "completion_Stage3 E cmd w = do { (cmd, w) \<leftarrow> SEND_COMPLETION_MSG E cmd w; Some (True, cmd, w) }"

definition BufWriteCmd_Stage3 where "BufWriteCmd_Stage3 = completion_Stage3"

definition BufCloseCmd_Stage2 :: "SC_SequencedCommand \<Rightarrow> World \<Rightarrow> stage_result" where
  "BufCloseCmd_Stage2 cmd w = do {
     b \<leftarrow> get_nrt (mBufIndex cmd) w;
     w \<leftarrow> (case sbSndfile b of None \<Rightarrow> Some w
           | Some sf \<Rightarrow> do { w \<leftarrow> sf_close sf w; set_nrt (mBufIndex cmd) (b\<lparr>sbSndfile := None\<rparr>) w });
     Some (True, cmd, w) }"

definition BufCloseCmd_Stage3 where "BufCloseCmd_Stage3 = completion_Stage3"

definition AudioQuitCmd_Stage4 :: "SC_SequencedCommand \<Rightarrow> World \<Rightarrow> World option" where
  "AudioQuitCmd_Stage4 cmd w = do {
     w \<leftarrow> SendDone (mReplyAddress cmd) (cstr ''/quit'') w;
     Some (w\<lparr>mQuitProgram := mQuitProgram w + 1\<rparr>) }"

definition AudioStatusCmd_Stage2 :: "env \<Rightarrow> SC_SequencedCommand \<Rightarrow> World \<Rightarrow> stage_result" where
  "AudioStatusCmd_Stage2 E cmd w = do {
     packet \<leftarrow> adds (cstr ''/status.reply'') small_scpacket;
     packet \<leftarrow> maketags 10 packet;
     packet \<leftarrow> addtags [44, tag_i, tag_i, tag_i, tag_i, tag_i, tag_f, tag_f, tag_d, tag_d] packet;
     packet \<leftarrow> addints [1, mNumUnits w, mNumGraphs w, mNumGroups w, of_nat (mNumItems (mGraphDefLib w))] packet;
     packet \<leftarrow> addf (avg_cpu E) packet;
     packet \<leftarrow> addf (peak_cpu E) packet;
     packet \<leftarrow> addd (driver_rate E) packet;
     packet \<leftarrow> addd (driver_actual_rate E) packet;
     Some (False, cmd, SendReply (mReplyAddress cmd) (packet_data packet) w) }"

fun find_user :: "nat \<Rightarrow> nat list \<Rightarrow> nat option" where
  "find_user a [] = None"
| "find_user a (u # us) = (if a = u then Some 0 else map_option Suc (find_user a us))"

definition NotifyCmd_Stage2 :: "SC_SequencedCommand \<Rightarrow> World \<Rightarrow> stage_result" where
  "NotifyCmd_Stage2 cmd w = do {
     let a = mReplyAddress cmd;
     w \<leftarrow> (if mCmdID cmd \<noteq> 0 then
             (if find_user a (mUsers w) \<noteq> None then
                SendFailure a (cstr ''/notify'') (cstr (''notify: already registered'' @ [CHR 0x0A])) w
              else if mMaxUsers w \<le> length (mUsers w) then
                SendFailure a (cstr ''/notify'') (cstr (''too many users'' @ [CHR 0x0A])) w
              else SendDone a (cstr ''/notify'') (w\<lparr>mUsers := mUsers w @ [a]\<rparr>))
           else (case find_user a (mUsers w) of
               Some i \<Rightarrow> SendDone a (cstr ''/notify'') (w\<lparr>mUsers := butlast ((mUsers w)[i := last (mUsers w)])\<rparr>)
             | None \<Rightarrow> SendFailure a (cstr ''/notify'') (cstr (''not registered'' @ [CHR 0x0A])) w));
     Some (False, cmd, w) }"

definition SendFailureCmd_Stage2 :: "SC_SequencedCommand \<Rightarrow> World \<Rightarrow> stage_result" where
  "SendFailureCmd_Stage2 cmd w = do {
     w \<leftarrow> SendFailure (mReplyAddress cmd) (mCmdName cmd) (mErrString cmd) w;
     Some (False, cmd, w) }"

section \<open>Synth definitions\<close>

definition drop_def :: "ptr \<Rightarrow> World \<Rightarrow> World option" where
  "drop_def p w = do {
     w \<leftarrow> World_RemoveGraphDef p w;
     d \<leftarrow> defs w p;
     let w = w\<lparr>defs := (defs w)(p \<mapsto> d\<lparr>dRefCount := dRefCount d - 1\<rparr>)\<rparr>;
     if dRefCount d - 1 = 0 then GraphDef_DeleteMsg p w else Some w }"

fun GraphDef_Define :: "ptr list \<Rightarrow> World \<Rightarrow> World option" where
  "GraphDef_Define [] w = Some w"
| "GraphDef_Define (g # gs) w = do {
     d \<leftarrow> defs w g;
     previousDef \<leftarrow> World_GetGraphDef (dName d) w;
     w \<leftarrow> (case previousDef of None \<Rightarrow> Some w | Some p \<Rightarrow> drop_def p w);
     w \<leftarrow> World_AddGraphDef g w;
     GraphDef_Define gs w }"

definition GraphDef_Remove :: "i32 list \<Rightarrow> World \<Rightarrow> World option" where
  "GraphDef_Remove inName w = do {
     graphDef \<leftarrow> World_GetGraphDef inName w;
     (case graphDef of None \<Rightarrow> Some w | Some p \<Rightarrow> drop_def p w) }"

definition RecvSynthDefCmd_Stage2 :: "env \<Rightarrow> SC_SequencedCommand \<Rightarrow> World \<Rightarrow> stage_result" where
  "RecvSynthDefCmd_Stage2 E cmd w = (case def_recv E (mBuffer cmd) (mDefs cmd) w of (ds, w) \<Rightarrow> Some (True, cmd\<lparr>mDefs := ds\<rparr>, w))"

definition LoadSynthDefCmd_Stage2 :: "env \<Rightarrow> SC_SequencedCommand \<Rightarrow> World \<Rightarrow> stage_result" where
  "LoadSynthDefCmd_Stage2 E cmd w = (case def_load_glob E (mFilename cmd) (mDefs cmd) w of (ds, w) \<Rightarrow> Some (True, cmd\<lparr>mDefs := ds\<rparr>, w))"

definition LoadSynthDefDirCmd_Stage2 :: "env \<Rightarrow> SC_SequencedCommand \<Rightarrow> World \<Rightarrow> stage_result" where
  "LoadSynthDefDirCmd_Stage2 E cmd w = (case def_load_dir E (mFilename cmd) (mDefs cmd) w of (ds, w) \<Rightarrow> Some (True, cmd\<lparr>mDefs := ds\<rparr>, w))"

text \<open>The third stage of all three.\<close>

definition define_Stage3 :: "env \<Rightarrow> SC_SequencedCommand \<Rightarrow> World \<Rightarrow> stage_result" where
  "define_Stage3 E cmd w = do { w \<leftarrow> GraphDef_Define (mDefs cmd) w; completion_Stage3 E cmd w }"

definition RecvSynthDefCmd_Stage3 where "RecvSynthDefCmd_Stage3 = define_Stage3"
definition LoadSynthDefCmd_Stage3 where "LoadSynthDefCmd_Stage3 = define_Stage3"
definition LoadSynthDefDirCmd_Stage3 where "LoadSynthDefDirCmd_Stage3 = define_Stage3"

section \<open>Plug-in commands\<close>

definition SendReplyCmd_Stage2 :: "SC_SequencedCommand \<Rightarrow> World \<Rightarrow> stage_result" where
  "SendReplyCmd_Stage2 cmd w = do { d \<leftarrow> mMsgData cmd; Some (False, cmd, SendReply (mReplyAddress cmd) d w) }"

text \<open>A stage without a function succeeds.\<close>

definition async_run :: "env \<Rightarrow> nat \<Rightarrow> SC_SequencedCommand \<Rightarrow> World \<Rightarrow> (bool \<times> World) option" where
  "async_run E k cmd w = (case async_stage E (mCmdID cmd) k of None \<Rightarrow> Some (True, w) | Some f \<Rightarrow> f w)"

definition AsyncPlugInCmd_Stage2 :: "env \<Rightarrow> SC_SequencedCommand \<Rightarrow> World \<Rightarrow> stage_result" where
  "AsyncPlugInCmd_Stage2 E cmd w = do { (result, w) \<leftarrow> async_run E 2 cmd w; Some (result, cmd, w) }"

definition AsyncPlugInCmd_Stage3 :: "env \<Rightarrow> SC_SequencedCommand \<Rightarrow> World \<Rightarrow> stage_result" where
  "AsyncPlugInCmd_Stage3 E cmd w = do {
     (result, w) \<leftarrow> async_run E 3 cmd w;
     (cmd, w) \<leftarrow> (if result then SEND_COMPLETION_MSG E cmd w else Some (cmd, w));
     Some (result, cmd, w) }"

definition AsyncPlugInCmd_Stage4 :: "env \<Rightarrow> SC_SequencedCommand \<Rightarrow> World \<Rightarrow> World option" where
  "AsyncPlugInCmd_Stage4 E cmd w = do {
     (result, w) \<leftarrow> async_run E 4 cmd w;
     if result \<and> mCmdName cmd \<noteq> [] \<and> mReplyAddress cmd \<noteq> 0 then SendDone (mReplyAddress cmd) (mCmdName cmd) w
     else Some w }"

text \<open>The fourth stages: freeing what the buffer had before, and telling the client.\<close>

definition BufAllocCmd_Stage4 :: "SC_SequencedCommand \<Rightarrow> World \<Rightarrow> World option" where
  "BufAllocCmd_Stage4 cmd w = free_and_done ''/b_alloc'' cmd w"

definition BufGenCmd_Stage4 :: "SC_SequencedCommand \<Rightarrow> World \<Rightarrow> World option" where
  "BufGenCmd_Stage4 cmd w = free_and_done ''/b_gen'' cmd w"

definition BufFreeCmd_Stage4 :: "SC_SequencedCommand \<Rightarrow> World \<Rightarrow> World option" where
  "BufFreeCmd_Stage4 cmd w = free_and_done ''/b_free'' cmd w"

definition BufZeroCmd_Stage4 :: "SC_SequencedCommand \<Rightarrow> World \<Rightarrow> World option" where
  "BufZeroCmd_Stage4 cmd w = SendDoneWithIntValue (mReplyAddress cmd) (cstr ''/b_zero'') (mBufIndex cmd) w"

definition BufAllocReadCmd_Stage4 :: "SC_SequencedCommand \<Rightarrow> World \<Rightarrow> World option" where
  "BufAllocReadCmd_Stage4 cmd w = free_and_done ''/b_allocRead'' cmd w"

definition BufReadCmd_Stage4 :: "SC_SequencedCommand \<Rightarrow> World \<Rightarrow> World option" where
  "BufReadCmd_Stage4 cmd w = SendDoneWithIntValue (mReplyAddress cmd) (cstr ''/b_read'') (mBufIndex cmd) w"

definition BufAllocReadChannelCmd_Stage4 :: "SC_SequencedCommand \<Rightarrow> World \<Rightarrow> World option" where
  "BufAllocReadChannelCmd_Stage4 cmd w = free_and_done ''/b_allocReadChannel'' cmd w"

definition BufReadChannelCmd_Stage4 :: "SC_SequencedCommand \<Rightarrow> World \<Rightarrow> World option" where
  "BufReadChannelCmd_Stage4 cmd w = SendDoneWithIntValue (mReplyAddress cmd) (cstr ''/b_readChannel'') (mBufIndex cmd) w"

definition BufWriteCmd_Stage4 :: "SC_SequencedCommand \<Rightarrow> World \<Rightarrow> World option" where
  "BufWriteCmd_Stage4 cmd w = SendDoneWithIntValue (mReplyAddress cmd) (cstr ''/b_write'') (mBufIndex cmd) w"

definition BufCloseCmd_Stage4 :: "SC_SequencedCommand \<Rightarrow> World \<Rightarrow> World option" where
  "BufCloseCmd_Stage4 cmd w = SendDoneWithIntValue (mReplyAddress cmd) (cstr ''/b_close'') (mBufIndex cmd) w"

definition RecvSynthDefCmd_Stage4 :: "SC_SequencedCommand \<Rightarrow> World \<Rightarrow> World option" where
  "RecvSynthDefCmd_Stage4 cmd w = SendDone (mReplyAddress cmd) (cstr ''/d_recv'') w"

definition LoadSynthDefCmd_Stage4 :: "SC_SequencedCommand \<Rightarrow> World \<Rightarrow> World option" where
  "LoadSynthDefCmd_Stage4 cmd w = SendDone (mReplyAddress cmd) (cstr ''/d_load'') w"

definition LoadSynthDefDirCmd_Stage4 :: "SC_SequencedCommand \<Rightarrow> World \<Rightarrow> World option" where
  "LoadSynthDefDirCmd_Stage4 cmd w = SendDone (mReplyAddress cmd) (cstr ''/d_loadDir'') w"

text \<open>Stages that only go on to the next.\<close>

definition pass_stage :: "SC_SequencedCommand \<Rightarrow> World \<Rightarrow> stage_result" where
  "pass_stage cmd w = Some (True, cmd, w)"

definition SyncCmd_Stage2 where "SyncCmd_Stage2 = pass_stage"
definition SyncCmd_Stage3 where "SyncCmd_Stage3 = pass_stage"
definition AudioQuitCmd_Stage2 where "AudioQuitCmd_Stage2 = pass_stage"
definition AudioQuitCmd_Stage3 where "AudioQuitCmd_Stage3 = pass_stage"

lemmas buf_Stage4_defs = BufAllocCmd_Stage4_def BufGenCmd_Stage4_def BufFreeCmd_Stage4_def BufZeroCmd_Stage4_def BufAllocReadCmd_Stage4_def
  BufReadCmd_Stage4_def BufAllocReadChannelCmd_Stage4_def BufReadChannelCmd_Stage4_def BufWriteCmd_Stage4_def BufCloseCmd_Stage4_def

section \<open>Going through the stages\<close>

definition Stage2 :: "env \<Rightarrow> SC_SequencedCommand \<Rightarrow> World \<Rightarrow> stage_result" where
  "Stage2 E cmd w = (case scClass cmd of
       SyncCmd \<Rightarrow> SyncCmd_Stage2 cmd w
     | BufAllocCmd \<Rightarrow> BufAllocCmd_Stage2 cmd w
     | BufGenCmd \<Rightarrow> BufGenCmd_Stage2 E cmd w
     | BufFreeCmd \<Rightarrow> BufFreeCmd_Stage2 cmd w
     | BufZeroCmd \<Rightarrow> BufZeroCmd_Stage2 cmd w
     | BufAllocReadCmd \<Rightarrow> BufAllocReadCmd_Stage2 E cmd w
     | BufReadCmd \<Rightarrow> BufReadCmd_Stage2 E cmd w
     | BufAllocReadChannelCmd \<Rightarrow> BufAllocReadChannelCmd_Stage2 E cmd w
     | BufReadChannelCmd \<Rightarrow> BufReadChannelCmd_Stage2 E cmd w
     | BufWriteCmd \<Rightarrow> BufWriteCmd_Stage2 E cmd w
     | BufCloseCmd \<Rightarrow> BufCloseCmd_Stage2 cmd w
     | AudioQuitCmd \<Rightarrow> AudioQuitCmd_Stage2 cmd w
     | AudioStatusCmd \<Rightarrow> AudioStatusCmd_Stage2 E cmd w
     | NotifyCmd \<Rightarrow> NotifyCmd_Stage2 cmd w
     | SendFailureCmd \<Rightarrow> SendFailureCmd_Stage2 cmd w
     | RecvSynthDefCmd \<Rightarrow> RecvSynthDefCmd_Stage2 E cmd w
     | LoadSynthDefCmd \<Rightarrow> LoadSynthDefCmd_Stage2 E cmd w
     | LoadSynthDefDirCmd \<Rightarrow> LoadSynthDefDirCmd_Stage2 E cmd w
     | SendReplyCmd \<Rightarrow> SendReplyCmd_Stage2 cmd w
     | AsyncPlugInCmd \<Rightarrow> AsyncPlugInCmd_Stage2 E cmd w)"

definition Stage3 :: "env \<Rightarrow> SC_SequencedCommand \<Rightarrow> World \<Rightarrow> stage_result" where
  "Stage3 E cmd w = (case scClass cmd of
       SyncCmd \<Rightarrow> SyncCmd_Stage3 cmd w
     | BufAllocCmd \<Rightarrow> BufAllocCmd_Stage3 E cmd w
     | BufGenCmd \<Rightarrow> BufGenCmd_Stage3 cmd w
     | BufFreeCmd \<Rightarrow> BufFreeCmd_Stage3 E cmd w
     | BufZeroCmd \<Rightarrow> BufZeroCmd_Stage3 E cmd w
     | BufAllocReadCmd \<Rightarrow> BufAllocReadCmd_Stage3 E cmd w
     | BufReadCmd \<Rightarrow> BufReadCmd_Stage3 E cmd w
     | BufAllocReadChannelCmd \<Rightarrow> BufAllocReadChannelCmd_Stage3 E cmd w
     | BufReadChannelCmd \<Rightarrow> BufReadChannelCmd_Stage3 E cmd w
     | BufWriteCmd \<Rightarrow> BufWriteCmd_Stage3 E cmd w
     | BufCloseCmd \<Rightarrow> BufCloseCmd_Stage3 E cmd w
     | AudioQuitCmd \<Rightarrow> AudioQuitCmd_Stage3 cmd w
     | RecvSynthDefCmd \<Rightarrow> RecvSynthDefCmd_Stage3 E cmd w
     | LoadSynthDefCmd \<Rightarrow> LoadSynthDefCmd_Stage3 E cmd w
     | LoadSynthDefDirCmd \<Rightarrow> LoadSynthDefDirCmd_Stage3 E cmd w
     | AsyncPlugInCmd \<Rightarrow> AsyncPlugInCmd_Stage3 E cmd w
     | _ \<Rightarrow> Some (False, cmd, w))"

definition Stage4 :: "env \<Rightarrow> SC_SequencedCommand \<Rightarrow> World \<Rightarrow> World option" where
  "Stage4 E cmd w = (case scClass cmd of
       SyncCmd \<Rightarrow> SyncCmd_Stage4 cmd w
     | BufAllocCmd \<Rightarrow> BufAllocCmd_Stage4 cmd w
     | BufGenCmd \<Rightarrow> BufGenCmd_Stage4 cmd w
     | BufFreeCmd \<Rightarrow> BufFreeCmd_Stage4 cmd w
     | BufZeroCmd \<Rightarrow> BufZeroCmd_Stage4 cmd w
     | BufAllocReadCmd \<Rightarrow> BufAllocReadCmd_Stage4 cmd w
     | BufReadCmd \<Rightarrow> BufReadCmd_Stage4 cmd w
     | BufAllocReadChannelCmd \<Rightarrow> BufAllocReadChannelCmd_Stage4 cmd w
     | BufReadChannelCmd \<Rightarrow> BufReadChannelCmd_Stage4 cmd w
     | BufWriteCmd \<Rightarrow> BufWriteCmd_Stage4 cmd w
     | BufCloseCmd \<Rightarrow> BufCloseCmd_Stage4 cmd w
     | AudioQuitCmd \<Rightarrow> AudioQuitCmd_Stage4 cmd w
     | RecvSynthDefCmd \<Rightarrow> RecvSynthDefCmd_Stage4 cmd w
     | LoadSynthDefCmd \<Rightarrow> LoadSynthDefCmd_Stage4 cmd w
     | LoadSynthDefDirCmd \<Rightarrow> LoadSynthDefDirCmd_Stage4 cmd w
     | AsyncPlugInCmd \<Rightarrow> AsyncPlugInCmd_Stage4 E cmd w
     | _ \<Rightarrow> Some w)"

text \<open>
  The destructors free what is the command's own, which the model leaves out; that of a plug-in's
  command calls the clean-up function and frees the completion message, which the base class's
  destructor then frees again.
\<close>

definition Delete :: "env \<Rightarrow> SC_SequencedCommand \<Rightarrow> World \<Rightarrow> World option" where
  "Delete E cmd w =
     (if scClass cmd = AsyncPlugInCmd then do {
        w \<leftarrow> async_cleanup E (mCmdID cmd) w;
        if mMsgData cmd \<noteq> None then None else Some w }
      else Some w)"

definition SendMsgFromEngine :: "fifo_msg \<Rightarrow> World \<Rightarrow> World option" where
  "SendMsgFromEngine msg w = do { (_, q) \<leftarrow> MsgFifo_Write 1024 msg (mFromEngine w); Some (w\<lparr>mFromEngine := q\<rparr>) }"

definition SendMsgToEngine :: "fifo_msg \<Rightarrow> World \<Rightarrow> World option" where
  "SendMsgToEngine msg w = do {
     (_, q) \<leftarrow> MsgFifo_Free 1024 (mToEngine w);
     (_, q) \<leftarrow> MsgFifo_Write 1024 msg q;
     Some (w\<lparr>mToEngine := q\<rparr>) }"

definition run_stage :: "env \<Rightarrow> SC_SequencedCommand \<Rightarrow> World \<Rightarrow> stage_result" where
  "run_stage E cmd w =
     (if mNextStage cmd = 1 then Stage1 cmd w
      else if mNextStage cmd = 2 then Stage2 E cmd w
      else if mNextStage cmd = 3 then Stage3 E cmd w
      else if mNextStage cmd = 4 then do { w \<leftarrow> Stage4 E cmd w; Some (False, cmd, w) }
      else Some (False, cmd, w))"

definition CallNextStage :: "env \<Rightarrow> SC_SequencedCommand \<Rightarrow> World \<Rightarrow> World option" where
  "CallNextStage E cmd w = do {
     let isRealTime = odd (mNextStage cmd);
     (sendAgain, cmd, w) \<leftarrow> run_stage E cmd w;
     let cmd = cmd\<lparr>mNextStage := mNextStage cmd + 1\<rparr>;
     if sendAgain then
       (if isRealTime then SendMsgFromEngine (DoSequencedCommand cmd) w
        else SendMsgToEngine (DoSequencedCommand cmd) w)
     else
       (if isRealTime then Delete E cmd w
        else SendMsgToEngine (FreeSequencedCommand cmd) w) }"

fun every_stage :: "env \<Rightarrow> nat \<Rightarrow> SC_SequencedCommand \<Rightarrow> World \<Rightarrow> (SC_SequencedCommand \<times> World) option" where
  "every_stage E 0 cmd w = Some (cmd, w)"
| "every_stage E (Suc k) cmd w = do {
     (again, cmd, w) \<leftarrow> run_stage E cmd w;
     if again then every_stage E k (cmd\<lparr>mNextStage := mNextStage cmd + 1\<rparr>) w else Some (cmd, w) }"

definition CallEveryStage :: "env \<Rightarrow> SC_SequencedCommand \<Rightarrow> World \<Rightarrow> World option" where
  "CallEveryStage E cmd w = do {
     (cmd, w) \<leftarrow> every_stage E (5 - mNextStage cmd) cmd w;
     Delete E cmd w }"

definition start_command :: "env \<Rightarrow> SC_SequencedCommand \<Rightarrow> World \<Rightarrow> World option" where
  "start_command E cmd w = (if mRealTime w then CallNextStage E cmd w else CallEveryStage E cmd w)"

definition CallSequencedCommand :: "env \<Rightarrow> seq_class \<Rightarrow> nat \<Rightarrow> u8 list \<Rightarrow> nat \<Rightarrow> World \<Rightarrow> (cmd_result \<times> World) option" where
  "CallSequencedCommand E T inSize inData inReply w =
     (case World_Alloc w of
        (None, w) \<Rightarrow> Some (Ret kSCErr_Failed, w)
      | (Some _, w) \<Rightarrow> do {
          (r, cmd, w) \<leftarrow> Cmd_Init E inSize inData (new_command E T inReply) w;
          if r = Ret kSCErr_None then do { w \<leftarrow> start_command E cmd w; Some (r, w) }
          else if r = Thrown then Some (r, w)
          else do { w \<leftarrow> Delete E cmd w; Some (r, w) } })"

definition CallSendFailureCommand :: "env \<Rightarrow> u8 list \<Rightarrow> u8 list \<Rightarrow> nat \<Rightarrow> World \<Rightarrow> (cmd_result \<times> World) option" where
  "CallSendFailureCommand E inCmdName inErrString inReply w =
     (case World_Alloc w of
        (None, w) \<Rightarrow> Some (Ret kSCErr_Failed, w)
      | (Some _, w) \<Rightarrow> do {
          (cmd, w) \<leftarrow> InitSendFailureCmd inCmdName inErrString (new_command E SendFailureCmd inReply) w;
          w \<leftarrow> start_command E cmd w;
          Some (Ret kSCErr_None, w) })"

definition AsyncPlugInCmd_new :: "env \<Rightarrow> nat \<Rightarrow> u8 list \<Rightarrow> i32 \<Rightarrow> u8 list \<Rightarrow> World \<Rightarrow> (SC_SequencedCommand \<times> World) option" where
  "AsyncPlugInCmd_new E inReply cmdName cmdData completionMsg w = do {
     let cmd = (new_command E AsyncPlugInCmd inReply)\<lparr>mCmdName := cmdName, mCmdID := cmdData\<rparr>;
     if completionMsg \<noteq> [] then do { w \<leftarrow> must_alloc w; Some (cmd\<lparr>mMsgData := Some completionMsg\<rparr>, w) }
     else Some (cmd, w) }"

definition PerformAsynchronousCommand :: "env \<Rightarrow> nat \<Rightarrow> u8 list \<Rightarrow> i32 \<Rightarrow> u8 list \<Rightarrow> World \<Rightarrow> (SCErr \<times> World) option" where
  "PerformAsynchronousCommand E replyAddr cmdName cmdData completionMsg w =
     (case World_Alloc w of
        (None, w) \<Rightarrow> Some (kSCErr_Failed, w)
      | (Some _, w) \<Rightarrow> do {
          (cmd, w) \<leftarrow> AsyncPlugInCmd_new E replyAddr cmdName cmdData completionMsg w;
          w \<leftarrow> start_command E cmd w;
          Some (kSCErr_None, w) })"

section \<open>The queues' other ends\<close>

definition run_fifo_msg :: "env \<Rightarrow> fifo_msg \<Rightarrow> World \<Rightarrow> World option" where
  "run_fifo_msg E msg w = (case msg of
       DoSequencedCommand cmd \<Rightarrow> CallNextStage E cmd w
     | FreeSequencedCommand cmd \<Rightarrow> Delete E cmd w
     | NodeReplyMsg_RTFree \<Rightarrow> Some w
     | FreeOSCPacket n \<Rightarrow> Some (w\<lparr>mFreedPackets := mFreedPackets w @ [n]\<rparr>))"

text \<open>
  One round of the non-real-time thread, \<open>SC_AudioDriver::RunThread\<close>, and the real-time side's
  performing of what the other side sent. The messages in a queue when it is performed are performed; those performed
  do not write to the same queue.
\<close>

fun run_all :: "('a \<Rightarrow> World \<Rightarrow> World option) \<Rightarrow> 'a list \<Rightarrow> World \<Rightarrow> World option" where
  "run_all f [] w = Some w"
| "run_all f (m # ms) w = do { w \<leftarrow> f m w; run_all f ms w }"

definition RunThread_round :: "env \<Rightarrow> World \<Rightarrow> World option" where
  "RunThread_round E w = do {
     (trigs, q) \<leftarrow> MsgFifoNoFree_Perform 1024 (mTriggers w);
     w \<leftarrow> run_all TriggerMsg_Perform trigs (w\<lparr>mTriggers := q\<rparr>);
     (replies, q) \<leftarrow> MsgFifoNoFree_Perform 1024 (mNodeMsgs w);
     w \<leftarrow> run_all NodeReplyMsg_Perform replies (w\<lparr>mNodeMsgs := q\<rparr>);
     (ends, q) \<leftarrow> MsgFifoNoFree_Perform 1024 (mNodeEnds w);
     w \<leftarrow> run_all NodeEndMsg_Perform ends (w\<lparr>mNodeEnds := q\<rparr>);
     (dead, q) \<leftarrow> MsgFifoNoFree_Perform 512 (mDeleteGraphDefs w);
     w \<leftarrow> run_all DeleteGraphDefMsg_Perform dead (w\<lparr>mDeleteGraphDefs := q\<rparr>);
     (cmds, q) \<leftarrow> MsgFifo_Perform 1024 (mFromEngine w);
     run_all (run_fifo_msg E) cmds (w\<lparr>mFromEngine := q\<rparr>) }"

definition engine_round :: "env \<Rightarrow> World \<Rightarrow> World option" where
  "engine_round E w = do {
     (_, q) \<leftarrow> MsgFifo_Free 1024 (mFromEngine w);
     let w = w\<lparr>mFromEngine := q\<rparr>;
     (cmds, q) \<leftarrow> MsgFifo_Perform 1024 (mToEngine w);
     run_all (run_fifo_msg E) cmds (w\<lparr>mToEngine := q\<rparr>) }"

end
