(* ===== verification/SC_Stages.thy ===== *)
theory SC_Stages
  imports SC_Sequenced
begin

text \<open>
  What the sequenced commands do: how one travels through the queues, what becomes of buffers, files and
  registered clients, and where the commands leave what they were given.
\<close>

section \<open>Through the queues\<close>

lemma SendMsgFromEngine_ok:
  assumes "fifo_state 1024 ys zs (mFromEngine w)" and "length ys + length zs < 1023"
  shows "\<exists>q. SendMsgFromEngine m w = Some (w\<lparr>mFromEngine := q\<rparr>) \<and> fifo_state 1024 ys (zs @ [m]) q"
  using fifo_state_write [OF assms(1), of m] assms(2) by (auto simp: SendMsgFromEngine_def)

lemma SendMsgToEngine_ok:
  assumes "fifo_state 1024 ys zs (mToEngine w)" and "length zs < 1023"
  shows "\<exists>q. SendMsgToEngine m w = Some (w\<lparr>mToEngine := q\<rparr>) \<and> fifo_state 1024 [] (zs @ [m]) q"
proof -
  obtain q where q: "MsgFifo_Free 1024 (mToEngine w) = Some (ys, q)" "fifo_state 1024 [] zs q"
    using fifo_state_free [OF assms(1)] by blast
  then show ?thesis using fifo_state_write [OF q(2), of m] assms(2) by (auto simp: SendMsgToEngine_def)
qed

text \<open>Nothing but commands is waiting for the non-real-time side.\<close>

definition nrt_idle :: "World \<Rightarrow> bool" where
  "nrt_idle w \<longleftrightarrow> \<not> MsgFifoNoFree_HasData (mTriggers w) \<and> \<not> MsgFifoNoFree_HasData (mNodeMsgs w)
     \<and> \<not> MsgFifoNoFree_HasData (mNodeEnds w) \<and> \<not> MsgFifoNoFree_HasData (mDeleteGraphDefs w)"

lemma perform_nothing: "\<not> MsgFifoNoFree_HasData q \<Longrightarrow> MsgFifoNoFree_Perform N q = Some ([], q)"
  by (simp add: MsgFifoNoFree_Perform_def)

lemma RunThread_commands:
  assumes "nrt_idle w" and "fifo_state 1024 ys zs (mFromEngine w)"
  shows "\<exists>q. RunThread_round E w = run_all (run_fifo_msg E) zs (w\<lparr>mFromEngine := q\<rparr>) \<and> fifo_state 1024 (ys @ zs) [] q"
proof -
  obtain q where q: "MsgFifo_Perform 1024 (mFromEngine w) = Some (zs, q)" "fifo_state 1024 (ys @ zs) [] q"
    using fifo_state_perform [OF assms(2)] by blast
  have "RunThread_round E w = run_all (run_fifo_msg E) zs (w\<lparr>mFromEngine := q\<rparr>)"
    using assms(1) q(1) by (simp add: RunThread_round_def nrt_idle_def perform_nothing)
  then show ?thesis using q(2) by blast
qed

lemma engine_commands:
  assumes "fifo_state 1024 ys zs (mFromEngine w)" and "fifo_state 1024 us vs (mToEngine w)"
  shows "\<exists>q r. engine_round E w = run_all (run_fifo_msg E) vs (w\<lparr>mFromEngine := q, mToEngine := r\<rparr>)
    \<and> fifo_state 1024 [] zs q \<and> fifo_state 1024 (us @ vs) [] r"
proof -
  obtain q where "MsgFifo_Free 1024 (mFromEngine w) = Some (ys, q)" "fifo_state 1024 [] zs q"
    using fifo_state_free [OF assms(1)] by blast
  moreover obtain r where "MsgFifo_Perform 1024 (mToEngine w) = Some (vs, r)" "fifo_state 1024 (us @ vs) [] r"
    using fifo_state_perform [OF assms(2)] by blast
  ultimately show ?thesis by (auto simp: engine_round_def)
qed

lemma synced_written:
  "SyncCmd_Stage4 cmd w = write_msg (chars ''/synced'') [Arg_i (mCmdID cmd)] [Tag tag_i, Val (Arg_i (mCmdID cmd))]
     (\<lambda>d. SendReply (mReplyAddress cmd) d w)"
  by (simp add: SyncCmd_Stage4_def write_simps del: add_value.simps(1-3))

lemma synced_sent:
  "SyncCmd_Stage4 cmd w = Some (SendReply (mReplyAddress cmd) (osc_msg (chars ''/synced'') [Arg_i (mCmdID cmd)]) w)"
  unfolding synced_written by (rule write_msg_sent) (simp_all add: osc_msg_def pad_str_def)

lemma SendReply_keeps [simp]:
  "mToEngine (SendReply a d w) = mToEngine w" "mFromEngine (SendReply a d w) = mFromEngine w" "mRealTime (SendReply a d w) = mRealTime w"
  by (simp_all add: SendReply_def)

text \<open>One call, by the stage the command is in.\<close>

lemma CallNextStage_1: "mNextStage cmd = 1 \<Longrightarrow> CallNextStage E cmd w = SendMsgFromEngine (DoSequencedCommand (cmd\<lparr>mNextStage := 2\<rparr>)) w"
  by (simp add: CallNextStage_def run_stage_def Stage1_def Let_def numeral_2_eq_2)

lemma CallNextStage_2:
  "mNextStage cmd = 2 \<Longrightarrow> Stage2 E cmd w = Some (again, cmd', w') \<Longrightarrow> mNextStage cmd' = 2 \<Longrightarrow>
   CallNextStage E cmd w = SendMsgToEngine ((if again then DoSequencedCommand else FreeSequencedCommand) (cmd'\<lparr>mNextStage := 3\<rparr>)) w'"
  by (simp add: CallNextStage_def run_stage_def Let_def)

lemma CallNextStage_3:
  "mNextStage cmd = 3 \<Longrightarrow> Stage3 E cmd w = Some (again, cmd', w') \<Longrightarrow> mNextStage cmd' = 3 \<Longrightarrow>
   CallNextStage E cmd w = (if again then SendMsgFromEngine (DoSequencedCommand (cmd'\<lparr>mNextStage := 4\<rparr>)) w'
     else Delete E (cmd'\<lparr>mNextStage := 4\<rparr>) w')"
  by (simp add: CallNextStage_def run_stage_def Let_def)

lemma CallNextStage_4:
  "mNextStage cmd = 4 \<Longrightarrow> Stage4 E cmd w = Some w' \<Longrightarrow>
   CallNextStage E cmd w = SendMsgToEngine (FreeSequencedCommand (cmd\<lparr>mNextStage := 5\<rparr>)) w'"
  by (simp add: CallNextStage_def run_stage_def Let_def)

text \<open>
  C22: A \<open>/sync\<close> is answered. The command is started by the real-time side and sends nothing yet; one round of the
  non-real-time thread, one of the engine and another one of the thread later the client has got
  exactly one \<open>/synced\<close> with its number, whatever has been performed and waits to be freed in the queues.
\<close>

theorem sync_is_answered:
  assumes rt: "mRealTime w" "allocs w = []" and idle: "nrt_idle w"
    and fq: "fifo_state 1024 ys [] (mFromEngine w)" "length ys < 1022" and tq: "fifo_state 1024 zs [] (mToEngine w)"
    and msg: "msg_init inSize inData = Some m" "geti 0 m = Some (i, m')" and addr: "addr \<noteq> 0"
  shows "\<exists>w1 w2 w3 w4. CallSequencedCommand E SyncCmd inSize inData addr w = Some (Ret kSCErr_None, w1)
    \<and> mReplies w1 = mReplies w \<and> RunThread_round E w1 = Some w2 \<and> engine_round E w2 = Some w3 \<and> RunThread_round E w3 = Some w4
    \<and> mReplies w4 = mReplies w @ [(addr, osc_msg (chars ''/synced'') [Arg_i i])]"
proof -
  define cmd where "cmd = (new_command E SyncCmd addr)\<lparr>mCmdID := i\<rparr>"
  have c: "scClass cmd = SyncCmd" "mNextStage cmd = 1" "mReplyAddress cmd = addr" "mCmdID cmd = i"
    by (simp_all add: cmd_def new_command_def)
  define w0 where "w0 = snd (World_Alloc w)"
  have w0: "World_Alloc w = (Some (fresh w), w0)" "mRealTime w0" "mFromEngine w0 = mFromEngine w" "mToEngine w0 = mToEngine w"
    "mReplies w0 = mReplies w" "nrt_idle w0"
    using rt idle by (simp_all add: w0_def World_Alloc_def nrt_idle_def)
  obtain q1 where q1: "SendMsgFromEngine (DoSequencedCommand (cmd\<lparr>mNextStage := 2\<rparr>)) w0 = Some (w0\<lparr>mFromEngine := q1\<rparr>)"
    "fifo_state 1024 ys [DoSequencedCommand (cmd\<lparr>mNextStage := 2\<rparr>)] q1"
    using SendMsgFromEngine_ok [of ys "[]" w0] fq w0 by fastforce
  let ?w1 = "w0\<lparr>mFromEngine := q1\<rparr>"
  have "Cmd_Init E inSize inData (new_command E SyncCmd addr) w0 = Some (Ret kSCErr_None, cmd, w0)"
    using msg by (simp add: Cmd_Init_def SyncCmd_Init_def cmd_def new_command_def)
  then have s1: "CallSequencedCommand E SyncCmd inSize inData addr w = Some (Ret kSCErr_None, ?w1)"
    using w0 q1(1) c by (simp add: CallSequencedCommand_def start_command_def CallNextStage_1)
  obtain q2 where q2: "RunThread_round E ?w1 = run_all (run_fifo_msg E) [DoSequencedCommand (cmd\<lparr>mNextStage := 2\<rparr>)] (?w1\<lparr>mFromEngine := q2\<rparr>)"
    "fifo_state 1024 (ys @ [DoSequencedCommand (cmd\<lparr>mNextStage := 2\<rparr>)]) [] q2"
    using RunThread_commands [of ?w1 ys _ E] q1(2) w0(6) by (fastforce simp: nrt_idle_def)
  obtain r2 where r2: "SendMsgToEngine (DoSequencedCommand (cmd\<lparr>mNextStage := 3\<rparr>)) (?w1\<lparr>mFromEngine := q2\<rparr>)
      = Some (?w1\<lparr>mFromEngine := q2, mToEngine := r2\<rparr>)" "fifo_state 1024 [] [DoSequencedCommand (cmd\<lparr>mNextStage := 3\<rparr>)] r2"
    using SendMsgToEngine_ok [of zs "[]" "?w1\<lparr>mFromEngine := q2\<rparr>"] tq w0(4) by fastforce
  let ?w2 = "?w1\<lparr>mFromEngine := q2, mToEngine := r2\<rparr>"
  have s2: "RunThread_round E ?w1 = Some ?w2"
    using q2(1) r2(1) c CallNextStage_2 [of "cmd\<lparr>mNextStage := 2\<rparr>" E]
    by (simp add: run_fifo_msg_def Stage2_def SyncCmd_Stage2_def pass_stage_def)
  obtain q3 r3 where q3: "engine_round E ?w2 = run_all (run_fifo_msg E) [DoSequencedCommand (cmd\<lparr>mNextStage := 3\<rparr>)] (?w2\<lparr>mFromEngine := q3, mToEngine := r3\<rparr>)"
    "fifo_state 1024 [] [] q3" "fifo_state 1024 [DoSequencedCommand (cmd\<lparr>mNextStage := 3\<rparr>)] [] r3"
    using engine_commands [of _ _ ?w2 _ _ E] q2(2) r2(2) by fastforce
  let ?v = "?w2\<lparr>mFromEngine := q3, mToEngine := r3\<rparr>"
  obtain q4 where q4: "SendMsgFromEngine (DoSequencedCommand (cmd\<lparr>mNextStage := 4\<rparr>)) ?v = Some (?v\<lparr>mFromEngine := q4\<rparr>)"
    "fifo_state 1024 [] [DoSequencedCommand (cmd\<lparr>mNextStage := 4\<rparr>)] q4"
    using SendMsgFromEngine_ok [of "[]" "[]" ?v] q3(2) by fastforce
  let ?w3 = "?v\<lparr>mFromEngine := q4\<rparr>"
  have s3: "engine_round E ?w2 = Some ?w3"
    using q3(1) q4(1) c CallNextStage_3 [of "cmd\<lparr>mNextStage := 3\<rparr>" E]
    by (simp add: run_fifo_msg_def Stage3_def SyncCmd_Stage3_def pass_stage_def)
  obtain q5 where q5: "RunThread_round E ?w3 = run_all (run_fifo_msg E) [DoSequencedCommand (cmd\<lparr>mNextStage := 4\<rparr>)] (?w3\<lparr>mFromEngine := q5\<rparr>)"
    using RunThread_commands [of ?w3 _ _ E] q4(2) w0(6) by (fastforce simp: nrt_idle_def)
  define v where "v = SendReply addr (osc_msg (chars ''/synced'') [Arg_i i]) (?w3\<lparr>mFromEngine := q5\<rparr>)"
  obtain r5 where "SendMsgToEngine (FreeSequencedCommand (cmd\<lparr>mNextStage := 5\<rparr>)) v = Some (v\<lparr>mToEngine := r5\<rparr>)"
    using SendMsgToEngine_ok [of _ "[]" v] q3(3) by (fastforce simp: v_def)
  then have s4: "RunThread_round E ?w3 = Some (v\<lparr>mToEngine := r5\<rparr>)"
    using q5 c CallNextStage_4 [of "cmd\<lparr>mNextStage := 4\<rparr>" E] by (simp add: run_fifo_msg_def Stage4_def synced_sent v_def)
  show ?thesis
    by (rule exI [of _ ?w1], rule exI [of _ ?w2], rule exI [of _ ?w3], rule exI [of _ "v\<lparr>mToEngine := r5\<rparr>"])
      (use s1 s2 s3 s4 w0(5) addr in \<open>simp add: v_def SendReply_def\<close>)
qed

lemma fifo_state_new: "size_ok N \<Longrightarrow> fifo_state N [] [] (MsgFifo_new N)"
  by (auto simp: fifo_state_def MsgFifo_new_def ring_ok_def ring_list_def dist_def size_ok_def)

text \<open>The message \<open>,i 5\<close>.\<close>

definition sync_msg :: "u8 list" where
  "sync_msg = [44, 105, 0, 0, 0, 0, 0, 5]"

lemma sync_msg_read: "msg_init 8 sync_msg = Some \<lparr>mdata = sync_msg, rdpos = 4, msize = 8, tags = Some 1, tcount = 0\<rparr>"
  "geti 0 \<lparr>mdata = sync_msg, rdpos = 4, msize = 8, tags = Some 1, tcount = 0\<rparr>
     = Some (5, \<lparr>mdata = sync_msg, rdpos = 8, msize = 8, tags = Some 1, tcount = 1\<rparr>)"
  by code_simp+

theorem sync_is_answered_witness:
  "\<forall>E. \<exists>w1 w2 w3 w4. CallSequencedCommand E SyncCmd 8 sync_msg 1 (empty_world 1) = Some (Ret kSCErr_None, w1)
    \<and> RunThread_round E w1 = Some w2 \<and> engine_round E w2 = Some w3 \<and> RunThread_round E w3 = Some w4
    \<and> mReplies w4 = [(1, osc_msg (chars ''/synced'') [Arg_i 5])]" (is "\<forall>E. ?P E")
proof
  fix E
  have "size_ok 1024" unfolding size_ok_def by (intro exI [of _ 10]) simp
  then have q: "fifo_state 1024 [] [] (mFromEngine (empty_world 1))" "fifo_state 1024 [] [] (mToEngine (empty_world 1))"
    using fifo_state_new by (simp_all add: empty_world_def)
  have "nrt_idle (empty_world 1)" "mRealTime (empty_world 1)" "allocs (empty_world 1) = []" "mReplies (empty_world 1) = []"
    by (simp_all add: nrt_idle_def empty_world_def MsgFifoNoFree_HasData_def MsgFifoNoFree_new_def)
  then show "?P E"
    using sync_is_answered [OF _ _ _ q(1) _ q(2) sync_msg_read, of 1 E] by auto
qed

section \<open>Buffers\<close>

definition bufs_ok :: "World \<Rightarrow> bool" where
  "bufs_ok w \<longleftrightarrow> length (mSndBufsNonRealTimeMirror w) = length (mSndBufs w) \<and> length (mSndBufUpdates w) = length (mSndBufs w)
     \<and> length (mSndBufs w) < 2 ^ 31 \<and> (\<forall>p. bufFresh w \<le> p \<longrightarrow> bufmem w p = None)"

definition index_ok :: "i32 \<Rightarrow> World \<Rightarrow> bool" where
  "index_ok i w \<longleftrightarrow> unat i < length (mSndBufs w)"

lemma unat_small_sint: "unat (i :: i32) < 2 ^ 31 \<Longrightarrow> sint i = int (unat i)"
proof -
  assume "unat i < 2 ^ 31"
  then have "int (unat i) < int (2 ^ 31)" by (simp only: of_nat_less_iff)
  then have "uint i < 2 ^ 31" by simp
  then show ?thesis by (simp add: sint_uint signed_take_bit_eq_take_bit_shift take_bit_eq_mod)
qed

lemma buf_index:
  assumes "bufs_ok w" and "index_ok i w"
  shows "World_GetNRTBuf i w = unat i" "World_GetBuf i w = unat i" "sint i = int (unat i)"
proof -
  have "unat i < 2 ^ 31" "unat i < length (mSndBufs w)" "length (mSndBufs w) < 2 ^ 31" using assms by (auto simp: bufs_ok_def index_ok_def)
  moreover have "\<not> of_nat (length (mSndBufs w)) < i"
    using calculation by (simp add: word_less_nat_alt unat_of_nat)
  ultimately show "World_GetNRTBuf i w = unat i" "World_GetBuf i w = unat i" "sint i = int (unat i)"
    by (simp_all add: World_GetNRTBuf_def World_GetBuf_def unat_small_sint)
qed

lemma count_write_ok:
  "bufs_ok w \<Longrightarrow> index_ok i w \<Longrightarrow>
   count_write i w = Some (w\<lparr>mSndBufUpdates := (mSndBufUpdates w)[unat i := mSndBufUpdates w ! unat i + 1]\<rparr>)"
  using buf_index(3) [of w i] by (simp add: count_write_def bufs_ok_def index_ok_def)

lemma set_nrt_ok: "bufs_ok w \<Longrightarrow> index_ok i w \<Longrightarrow>
   set_nrt i b w = Some (w\<lparr>mSndBufsNonRealTimeMirror := (mSndBufsNonRealTimeMirror w)[unat i := b]\<rparr>)"
  using buf_index [of w i] by (simp add: set_nrt_def bufs_ok_def index_ok_def)

lemma set_rt_ok: "bufs_ok w \<Longrightarrow> index_ok i w \<Longrightarrow> set_rt i b w = Some (w\<lparr>mSndBufs := (mSndBufs w)[unat i := b]\<rparr>)"
  using buf_index [of w i] by (simp add: set_rt_def index_ok_def)

lemma get_nrt_ok: "bufs_ok w \<Longrightarrow> index_ok i w \<Longrightarrow> get_nrt i w = Some (mSndBufsNonRealTimeMirror w ! unat i)"
  using buf_index [of w i] by (simp add: get_nrt_def bufs_ok_def index_ok_def)

lemma done_sent:
  assumes "0 \<notin> set (chars name)" and "length name < 100"
  shows "SendDoneWithIntValue a (cstr name) v w = Some (SendReply a (osc_msg (chars ''/done'') [Arg_s (chars name), Arg_i v]) w)"
proof -
  have "length (osc_msg (chars ''/done'') [Arg_s (chars name), Arg_i v]) \<le> 8192" using assms(2) by (simp add: osc_msg_def pad_str_def)
  then show ?thesis
    unfolding cstr_def replies_written(2) using assms(1) by (intro write_msg_sent) simp_all
qed

text \<open>The stages of a command one after the other.\<close>

definition three_stages :: "env \<Rightarrow> SC_SequencedCommand \<Rightarrow> World \<Rightarrow> World option" where
  "three_stages E cmd w = do {
     (_, cmd, w) \<leftarrow> Stage2 E cmd w;
     (_, cmd, w) \<leftarrow> Stage3 E cmd w;
     Stage4 E cmd w }"

lemma alloc_stages:
  assumes cls: "scClass cmd = BufAllocCmd" and nomsg: "mMsgData cmd = None" and ok: "bufs_ok w" "index_ok (mBufIndex cmd) w"
    and b: "b = mSndBufsNonRealTimeMirror w ! unat (mBufIndex cmd)"
    and al: "bufAlloc b (mNumChannels cmd) (mNumFrames cmd) (mFullSampleRate w) w = (err, b', w1)"
  shows "three_stages E cmd w = do {
     w2 \<leftarrow> free_samples (sbData b) (w1\<lparr>mSndBufsNonRealTimeMirror := (mSndBufsNonRealTimeMirror w)[unat (mBufIndex cmd) := b'],
        mSndBufs := (mSndBufs w)[unat (mBufIndex cmd) := b'],
        mSndBufUpdates := (mSndBufUpdates w)[unat (mBufIndex cmd) := mSndBufUpdates w ! unat (mBufIndex cmd) + 1]\<rparr>);
     Some (SendReply (mReplyAddress cmd) (osc_msg (chars ''/done'') [Arg_s (chars ''/b_alloc''), Arg_i (mBufIndex cmd)]) w2) }"
proof -
  let ?i = "mBufIndex cmd"
  have keep: "mSndBufsNonRealTimeMirror w1 = mSndBufsNonRealTimeMirror w" "mSndBufs w1 = mSndBufs w" "mSndBufUpdates w1 = mSndBufUpdates w"
    "bufs_ok w1" "index_ok ?i w1"
    using al ok by (auto simp: bufAlloc_def sc_zalloc_def Let_def bufs_ok_def index_ok_def split: if_splits list.splits bool.splits)
  let ?w2 = "w1\<lparr>mSndBufsNonRealTimeMirror := (mSndBufsNonRealTimeMirror w)[unat ?i := b']\<rparr>"
  let ?w3 = "?w2\<lparr>mSndBufs := (mSndBufs w)[unat ?i := b']\<rparr>"
  have ok2: "bufs_ok ?w2" "index_ok ?i ?w2" "bufs_ok ?w3" "index_ok ?i ?w3" using keep by (simp_all add: bufs_ok_def index_ok_def)
  have "Stage2 E cmd w = Some (True, cmd\<lparr>mFreeData := sbData b, mSndBuf := Some b'\<rparr>, ?w2)"
    using cls al keep by (simp add: Stage2_def BufAllocCmd_Stage2_def get_nrt_ok [OF ok] b set_nrt_ok [OF keep(4,5)])
  moreover have "Stage3 E (cmd\<lparr>mFreeData := sbData b, mSndBuf := Some b'\<rparr>) ?w2
      = Some (True, cmd\<lparr>mFreeData := sbData b, mSndBuf := Some b'\<rparr>,
          ?w3\<lparr>mSndBufUpdates := (mSndBufUpdates w)[unat ?i := mSndBufUpdates w ! unat ?i + 1]\<rparr>)"
    using cls nomsg keep by (simp add: Stage3_def BufAllocCmd_Stage3_def install_buffer_def finish_buffer_def SEND_COMPLETION_MSG_def
        set_rt_ok [OF ok2(1,2)] count_write_ok [OF ok2(3,4)])
  ultimately show ?thesis
    using cls by (simp add: three_stages_def Stage4_def BufAllocCmd_Stage4_def free_and_done_def done_sent)
qed

lemma SendReply_keeps_bufs [simp]:
  "mSndBufs (SendReply a d w) = mSndBufs w" "mSndBufsNonRealTimeMirror (SendReply a d w) = mSndBufsNonRealTimeMirror w"
  "mSndBufUpdates (SendReply a d w) = mSndBufUpdates w" "bufmem (SendReply a d w) = bufmem w"
  by (simp_all add: SendReply_def)


text \<open>A world with two buffers, the first with two samples, and the command for it.\<close>

definition small_buf :: SndBuf where
  "small_buf = \<lparr>sbSamplerate = 0, sbData = Some 1, sbChannels = 1, sbSamples = 2, sbFrames = 2, sbMask = 1, sbMask1 = 0,
     sbCoord = 0, sbSndfile = None\<rparr>"

definition buffer_world :: World where
  "buffer_world = (empty_world 1)\<lparr>mSndBufs := replicate 2 small_buf, mSndBufsNonRealTimeMirror := replicate 2 small_buf, mSndBufUpdates := [0, 0],
     bufmem := [1 \<mapsto> [0, 0]], bufFresh := 2\<rparr>"

definition b_alloc_cmd :: "env \<Rightarrow> i32 \<Rightarrow> SC_SequencedCommand" where
  "b_alloc_cmd E frames = (new_command E BufAllocCmd 1)\<lparr>mNumFrames := frames, mNumChannels := 1\<rparr>"

lemma buffer_world_ok: "bufs_ok buffer_world" "index_ok 0 buffer_world" "zallocs buffer_world = []" "bufFresh buffer_world = 2"
  "sbData (mSndBufsNonRealTimeMirror buffer_world ! 0) = Some 1" "bufmem buffer_world = [1 \<mapsto> [0, 0]]" "mReplies buffer_world = []"
  by (auto simp: bufs_ok_def index_ok_def buffer_world_def empty_world_def small_buf_def)


section \<open>Indices out of range\<close>

lemma count_write_bounds: "sint i < 0 \<or> length (mSndBufUpdates w) \<le> unat i \<Longrightarrow> count_write i w = None"
  by (auto simp: count_write_def aread_def)

lemma finish_buffer_bounds: "sint (mBufIndex cmd) < 0 \<or> length (mSndBufUpdates w) \<le> unat (mBufIndex cmd) \<Longrightarrow> finish_buffer E cmd w = None"
  by (simp add: finish_buffer_def count_write_bounds)

lemma set_rt_updates: "set_rt i b w = Some w' \<Longrightarrow> mSndBufUpdates w' = mSndBufUpdates w"
  by (auto simp: set_rt_def elim!: bind_SomeE)

lemma install_buffer_updates: "install_buffer cmd w = Some w' \<Longrightarrow> mSndBufUpdates w' = mSndBufUpdates w"
  by (auto simp: install_buffer_def elim!: bind_SomeE dest: set_rt_updates)



section \<open>Clients\<close>

lemma find_user_None: "find_user a us = None \<longleftrightarrow> a \<notin> set us"
  by (induction us) auto

lemma find_user_Some: "find_user a us = Some i \<Longrightarrow> i < length us \<and> us ! i = a"
  by (induction us arbitrary: i) (auto split: if_splits)

lemma drop_user:
  assumes "i < length us" and "distinct us"
  shows "distinct (butlast (us[i := last us]))" and "set (butlast (us[i := last us])) = set us - {us ! i}"
proof -
  obtain ys l where us: "us = ys @ [l]" using assms(1) by (cases us rule: rev_cases) auto
  have *: "butlast (us[i := last us]) = (if i = length ys then ys else ys[i := l])"
    using assms(1) by (auto simp: us list_update_append)
  show "distinct (butlast (us[i := last us]))"
    using assms unfolding * by (auto simp: us intro!: distinct_list_update)
  show "set (butlast (us[i := last us])) = set us - {us ! i}"
    using assms unfolding * by (auto simp: us nth_append set_update_distinct)
qed

lemma notify_done: "\<exists>d. \<forall>w. SendDone a (cstr ''/notify'') w = Some (SendReply a d w)"
proof (intro exI allI)
  show "SendDone a (cstr ''/notify'') w = Some (SendReply a (osc_msg (chars ''/done'') [Arg_s (chars ''/notify'')]) w)" for w
    unfolding cstr_def replies_written(1) by (rule write_msg_sent) (simp_all add: osc_msg_def pad_str_def)
qed

lemma notify_fail:
  assumes "0 \<notin> set (chars err)" and "length err < 100"
  shows "\<exists>d. \<forall>w. SendFailure a (cstr ''/notify'') (cstr err) w = Some (SendReply a d w)"
proof (intro exI allI)
  show "SendFailure a (cstr ''/notify'') (cstr err) w = Some (SendReply a (osc_msg (chars ''/fail'') [Arg_s (chars ''/notify''), Arg_s (chars err)]) w)" for w
    unfolding cstr_def replies_written(3) by (rule write_msg_sent) (use assms in \<open>simp_all add: osc_msg_def pad_str_def\<close>)
qed

text \<open>
  C30: The table of clients: \<open>/notify\<close> keeps it free of duplicates and within its size, adds the client on
  switching on (unless it is there or the table is full) and removes it, and only it, on switching off;
  and the client gets exactly one reply.
\<close>

theorem notify_keeps_users:
  assumes "distinct (mUsers w)" and "length (mUsers w) \<le> mMaxUsers w" and a: "a = mReplyAddress cmd"
  shows "\<exists>w' d. NotifyCmd_Stage2 cmd w = Some (False, cmd, w') \<and> distinct (mUsers w') \<and> length (mUsers w') \<le> mMaxUsers w'
    \<and> mMaxUsers w' = mMaxUsers w \<and> mReplies w' = mReplies w @ (if a = 0 then [] else [(a, d)])
    \<and> set (mUsers w') = (if mCmdID cmd = 0 then set (mUsers w) - {a}
        else if length (mUsers w) < mMaxUsers w then insert a (set (mUsers w)) else set (mUsers w))"
proof -
  have "\<exists>d. \<forall>w. SendFailure a (cstr ''/notify'') (cstr err) w = Some (SendReply a d w)"
    if "err \<in> {''notify: already registered'' @ [CHR 0x0A], ''too many users'' @ [CHR 0x0A], ''not registered'' @ [CHR 0x0A]}" for err
    by (rule notify_fail) (use that in auto)
  then obtain d1 d2 d3 d4 where d: "SendDone a (cstr ''/notify'') v = Some (SendReply a d1 v)"
    "SendFailure a (cstr ''/notify'') (cstr (''notify: already registered'' @ [CHR 0x0A])) v = Some (SendReply a d2 v)"
    "SendFailure a (cstr ''/notify'') (cstr (''too many users'' @ [CHR 0x0A])) v = Some (SendReply a d3 v)"
    "SendFailure a (cstr ''/notify'') (cstr (''not registered'' @ [CHR 0x0A])) v = Some (SendReply a d4 v)" for v
    using notify_done [of a] by (metis insertCI)
  note eq = NotifyCmd_Stage2_def a [symmetric] Let_def d [unfolded append_Cons append_Nil] SendReply_def
  consider (off) i where "mCmdID cmd = 0" "find_user a (mUsers w) = Some i" | (not_on) "mCmdID cmd = 0" "find_user a (mUsers w) = None"
    | (again) i where "mCmdID cmd \<noteq> 0" "find_user a (mUsers w) = Some i"
    | (full) "mCmdID cmd \<noteq> 0" "find_user a (mUsers w) = None" "mMaxUsers w \<le> length (mUsers w)"
    | (on) "mCmdID cmd \<noteq> 0" "find_user a (mUsers w) = None" "length (mUsers w) < mMaxUsers w"
    by (cases "find_user a (mUsers w)") force+
  then show ?thesis
  proof cases
    case off
    then have "i < length (mUsers w)" "mUsers w ! i = a" by (auto dest: find_user_Some)
    then show ?thesis using off assms(1,2) drop_user [of i "mUsers w"] le_trans [OF diff_le_self assms(2)]
      by (simp add: eq)
  next
    case again
    then have "a \<in> set (mUsers w)" by (auto dest!: find_user_Some)
    then show ?thesis using again assms(1,2) by (auto simp: eq)
  next
    case not_on
    then have "a \<notin> set (mUsers w)" by (simp add: find_user_None)
    then show ?thesis using not_on assms(1,2) by (auto simp: eq)
  next
    case full
    then show ?thesis using assms(1,2) by (auto simp: eq)
  next
    case on
    then have "a \<notin> set (mUsers w)" by (simp add: find_user_None)
    then show ?thesis using on assms(1,2) by (auto simp: eq)
  qed
qed

theorem notify_keeps_users_witness:
  "\<forall>E. \<exists>w'. NotifyCmd_Stage2 ((new_command E NotifyCmd 7)\<lparr>mCmdID := 1\<rparr>) (empty_world 1)
     = Some (False, (new_command E NotifyCmd 7)\<lparr>mCmdID := 1\<rparr>, w') \<and> set (mUsers w') = {7}" (is "\<forall>E. ?P E")
proof
  fix E
  show "?P E"
    using notify_keeps_users [of "empty_world 1" 7 "(new_command E NotifyCmd 7)\<lparr>mCmdID := 1\<rparr>"]
    by (auto simp: empty_world_def new_command_def)
qed

section \<open>Sound files\<close>

text \<open>The files that buffers of the mirror hold open are those that are open, each in one buffer.\<close>

definition held_files :: "World \<Rightarrow> nat list" where
  "held_files w = List.map_filter sbSndfile (mSndBufsNonRealTimeMirror w)"

definition files_with :: "nat list \<Rightarrow> World \<Rightarrow> bool" where
  "files_with sfs w \<longleftrightarrow> distinct (mOpenFiles w) \<and> (\<forall>h \<in> set (mOpenFiles w). h < mFileFresh w)
     \<and> mset (mOpenFiles w) = mset sfs + mset (held_files w)"

abbreviation files_ok :: "World \<Rightarrow> bool" where
  "files_ok \<equiv> files_with []"

definition same_files :: "World \<Rightarrow> World \<Rightarrow> bool" where
  "same_files w w' \<longleftrightarrow> mOpenFiles w' = mOpenFiles w \<and> mFileFresh w' = mFileFresh w
     \<and> mSndBufsNonRealTimeMirror w' = mSndBufsNonRealTimeMirror w \<and> mSndBufs w' = mSndBufs w"

lemma same_files_ok: "same_files w w' \<Longrightarrow> files_with sfs w' = files_with sfs w"
  by (simp add: same_files_def files_with_def held_files_def)

lemma same_files_trans: "same_files u v \<Longrightarrow> same_files v w \<Longrightarrow> same_files u w"
  by (simp add: same_files_def)

lemma same_files_refl [simp]: "same_files w w"
  by (simp add: same_files_def)

lemma SendReply_same_files: "same_files w (SendReply a d w)"
  by (simp add: same_files_def SendReply_def)

lemma sends_same_files:
  "SendFailureWithBufnum a c e i w = Some w' \<Longrightarrow> same_files w w'" "SendFailure a c e w = Some w' \<Longrightarrow> same_files w w'"
  "SendDone a c w = Some w' \<Longrightarrow> same_files w w'"
  by (auto simp: SendFailureWithBufnum_def SendFailure_def SendDone_def SendReply_same_files elim!: bind_SomeE)

lemma put_samples_same_files: "put_samples d off xs w = Some w' \<Longrightarrow> same_files w w'"
  by (auto simp: put_samples_def same_files_def elim!: bind_SomeE split: if_splits)

lemma read_channels_same_files: "read_channels cmd f d base w = Some w' \<Longrightarrow> same_files w w'"
  by (auto simp: read_channels_def temp_alloc_def same_files_def Let_def elim!: bind_SomeE split: if_splits list.splits bool.splits)

lemma bufAlloc_same_files: "bufAlloc b c n r w = (err, b', w') \<Longrightarrow> same_files w w' \<and> sbSndfile b' = sbSndfile b"
  by (auto simp: bufAlloc_def sc_zalloc_def same_files_def Let_def split: if_splits list.splits bool.splits)

lemma held_update:
  assumes "i < length bs"
  shows "mset (List.map_filter sbSndfile (bs[i := b])) + mset (List.map_filter sbSndfile [bs ! i])
    = mset (List.map_filter sbSndfile bs) + mset (List.map_filter sbSndfile [b])"
proof -
  have *: "bs = take i bs @ bs ! i # drop (Suc i) bs" "bs[i := b] = take i bs @ b # drop (Suc i) bs"
    using assms by (simp_all add: id_take_nth_drop upd_conv_take_nth_drop)
  have app: "List.map_filter sbSndfile (xs @ y # zs) = List.map_filter sbSndfile xs @ List.map_filter sbSndfile [y] @ List.map_filter sbSndfile zs" for xs y zs
    by (simp add: List.map_filter_def)
  show ?thesis unfolding *(2) by (subst (2) *(1)) (simp add: app ac_simps)
qed

lemma set_nrt_files:
  assumes "set_nrt i b w = Some w'" and "get_nrt i w = Some b0"
  shows "mOpenFiles w' = mOpenFiles w" "mFileFresh w' = mFileFresh w"
    "mset (held_files w') + mset (List.map_filter sbSndfile [b0]) = mset (held_files w) + mset (List.map_filter sbSndfile [b])"
  using assms held_update [of "World_GetNRTBuf i w" "mSndBufsNonRealTimeMirror w" b]
  by (auto simp: set_nrt_def get_nrt_def held_files_def aread_def awrite_def elim!: bind_SomeE split: if_splits)

lemma get_nrt_same: "same_files w w' \<Longrightarrow> get_nrt i w' = get_nrt i w"
  by (simp add: get_nrt_def same_files_def World_GetNRTBuf_def)

lemma files_open: "files_ok w \<Longrightarrow> sf_opened w = (sf, w') \<Longrightarrow> files_with [sf] w'"
  by (auto simp: files_with_def sf_opened_def held_files_def less_SucI)

lemma files_close: "files_with (sf # sfs) w \<Longrightarrow> sf_close sf w = Some w' \<Longrightarrow> files_with sfs w'"
  by (auto simp: files_with_def sf_close_def held_files_def split: if_splits dest: notin_set_remove1)

lemma files_keep: "files_with sfs w \<Longrightarrow> set_nrt i b w = Some w' \<Longrightarrow> get_nrt i w = Some b0 \<Longrightarrow> sbSndfile b = sbSndfile b0 \<Longrightarrow> files_with sfs w'"
  using set_nrt_files [of i b w w' b0] by (cases "sbSndfile b0") (auto simp: files_with_def List.map_filter_def)

lemma files_leave:
  assumes "files_with [sf] w" and "leave_file cmd sf w = Some w'"
  shows "files_ok w'"
proof -
  obtain b where b: "get_nrt (mBufIndex cmd) w = Some b" using assms(2) by (auto simp: leave_file_def elim!: bind_SomeE)
  show ?thesis
  proof (cases "mLeaveFileOpen cmd \<and> sbSndfile b = None")
    case True
    then have "set_nrt (mBufIndex cmd) (b\<lparr>sbSndfile := Some sf\<rparr>) w = Some w'" using assms(2) b by (simp add: leave_file_def)
    from set_nrt_files [OF this b] show ?thesis using assms(1) True by (simp add: files_with_def List.map_filter_def)
  next
    case False
    then show ?thesis using assms b files_close [of sf "[]" w w'] by (auto simp: leave_file_def)
  qed
qed

lemma command_files:
  assumes ok: "files_ok w"
  shows "BufAllocCmd_Stage2 cmd w = Some (r, cmd', w') \<Longrightarrow> files_ok w'"
    and "BufFreeCmd_Stage2 cmd w = Some (r, cmd', w') \<Longrightarrow> files_ok w'"
    and "BufZeroCmd_Stage2 cmd w = Some (r, cmd', w') \<Longrightarrow> files_ok w'"
    and "BufCloseCmd_Stage2 cmd w = Some (r, cmd', w') \<Longrightarrow> files_ok w'"
proof -
  show "files_ok w'" if run: "BufAllocCmd_Stage2 cmd w = Some (r, cmd', w')"
  proof -
    obtain b where b: "get_nrt (mBufIndex cmd) w = Some b" using run by (auto simp: BufAllocCmd_Stage2_def elim!: bind_SomeE)
    obtain err b' w1 where al: "bufAlloc b (mNumChannels cmd) (mNumFrames cmd) (mFullSampleRate w) w = (err, b', w1)"
      by (cases "bufAlloc b (mNumChannels cmd) (mNumFrames cmd) (mFullSampleRate w) w")
    have w1: "same_files w w1" "sbSndfile b' = sbSndfile b" using bufAlloc_same_files [OF al] by simp_all
    have "set_nrt (mBufIndex cmd) b' w1 = Some w'" using run b al by (auto simp: BufAllocCmd_Stage2_def Let_def elim!: bind_SomeE)
    moreover have "files_ok w1" "get_nrt (mBufIndex cmd) w1 = Some b"
      using ok b same_files_ok [OF w1(1)] get_nrt_same [OF w1(1)] by simp_all
    ultimately show ?thesis using files_keep w1(2) by blast
  qed
  show "files_ok w'" if run: "BufFreeCmd_Stage2 cmd w = Some (r, cmd', w')"
  proof -
    obtain b where "get_nrt (mBufIndex cmd) w = Some b" "set_nrt (mBufIndex cmd) (SndBuf_Init b) w = Some w'"
      using run by (auto simp: BufFreeCmd_Stage2_def elim!: bind_SomeE)
    then show ?thesis using files_keep [OF ok] by (simp add: SndBuf_Init_def)
  qed
  show "files_ok w'" if run: "BufZeroCmd_Stage2 cmd w = Some (r, cmd', w')"
    using run ok by (auto simp: BufZeroCmd_Stage2_def elim!: bind_SomeE split: if_splits
        dest!: put_samples_same_files same_files_ok [where sfs = "[]"])
  show "files_ok w'" if run: "BufCloseCmd_Stage2 cmd w = Some (r, cmd', w')"
  proof -
    obtain b where b: "get_nrt (mBufIndex cmd) w = Some b" using run by (auto simp: BufCloseCmd_Stage2_def elim!: bind_SomeE)
    show ?thesis
    proof (cases "sbSndfile b")
      case None
      then show ?thesis using run ok b by (simp add: BufCloseCmd_Stage2_def)
    next
      case (Some sf)
      then obtain w1 where w1: "sf_close sf w = Some w1" "set_nrt (mBufIndex cmd) (b\<lparr>sbSndfile := None\<rparr>) w1 = Some w'"
        using run b by (auto simp: BufCloseCmd_Stage2_def elim!: bind_SomeE)
      have "get_nrt (mBufIndex cmd) w1 = Some b" "sf \<in> set (mOpenFiles w)" "mOpenFiles w1 = remove1 sf (mOpenFiles w)"
          "mFileFresh w1 = mFileFresh w" "held_files w1 = held_files w"
        using w1(1) b by (auto simp: sf_close_def get_nrt_def World_GetNRTBuf_def held_files_def split: if_splits)
      then show ?thesis
        using set_nrt_files [OF w1(2)] ok Some
        by (auto simp: files_with_def List.map_filter_def dest: notin_set_remove1) (metis add_mset_remove_trivial)
    qed
  qed
qed

lemma get_nrt_opened: "sf_opened w = (sf, w1) \<Longrightarrow> get_nrt i w1 = get_nrt i w"
  by (auto simp: sf_opened_def get_nrt_def World_GetNRTBuf_def)

text \<open>Replacing a buffer by one read from a file, and closing the file.\<close>

lemma files_replace:
  assumes "files_with [sf] w1" and "get_nrt i w1 = Some b" and "bufAlloc b c n r w1 = (err, b', w2)" and "same_files w2 w3"
    and "set_nrt i b' w3 = Some w4" and "sf_close sf w4 = Some w'"
  shows "files_ok w'"
proof -
  have s: "same_files w1 w3" "sbSndfile b' = sbSndfile b"
    using bufAlloc_same_files [OF assms(3)] same_files_trans assms(4) by auto
  have "files_with [sf] w3" "get_nrt i w3 = Some b"
    using assms(1,2) same_files_ok [OF s(1)] get_nrt_same [OF s(1)] by simp_all
  then have "files_with [sf] w4" using files_keep assms(5) s(2) by blast
  then show ?thesis using files_close assms(6) by blast
qed

lemma files_failed: "files_ok w \<Longrightarrow> SendFailureWithBufnum a c e i w = Some w' \<Longrightarrow> files_ok w'"
  using sends_same_files(1) same_files_ok by blast

lemma files_failed_closed: "files_with [sf] w \<Longrightarrow> SendFailureWithBufnum a c e i w = Some w1 \<Longrightarrow> sf_close sf w1 = Some w' \<Longrightarrow> files_ok w'"
  using sends_same_files(1) same_files_ok files_close by blast

lemma files_done: "files_with [sf] w \<Longrightarrow> same_files w w1 \<Longrightarrow> leave_file cmd sf w1 = Some w' \<Longrightarrow> files_ok w'"
  using same_files_ok files_leave by blast

lemma BufAllocRead_files: "files_ok w \<Longrightarrow> BufAllocReadCmd_Stage2 E cmd w = Some (r, cmd', w') \<Longrightarrow> files_ok w'"
proof -
  assume ok: "files_ok w" and run: "BufAllocReadCmd_Stage2 E cmd w = Some (r, cmd', w')"
  obtain b where b: "get_nrt (mBufIndex cmd) w = Some b" using run by (auto simp: BufAllocReadCmd_Stage2_def elim!: bind_SomeE)
  show ?thesis
  proof (cases "open_read E (mFilename cmd)")
    case None
    then show ?thesis using run b files_failed [OF ok] by (auto simp: BufAllocReadCmd_Stage2_def elim!: bind_SomeE)
  next
    case (Some f)
    obtain sf w1 where o: "sf_opened w = (sf, w1)" by (cases "sf_opened w")
    let ?off = "clamp_offset f (mFileOffset cmd)"
    let ?n = "clamp_frames 1 f ?off (mNumFrames cmd)"
    obtain err b' w2 where al: "bufAlloc b (fChannels f) ?n (f64_of_int (fSamplerate f)) w1 = (err, b', w2)"
      by (cases "bufAlloc b (fChannels f) ?n (f64_of_int (fSamplerate f)) w1")
    obtain w3 w4 where "(if err \<noteq> kSCErr_None then Some w2 else put_samples (sbData b') 0 (file_samples f ?off ?n) w2) = Some w3"
      "set_nrt (mBufIndex cmd) b' w3 = Some w4" "sf_close sf w4 = Some w'"
      using run b Some o al by (auto simp: BufAllocReadCmd_Stage2_def Let_def elim!: bind_SomeE cong: if_cong)
    moreover from this(1) have "same_files w2 w3" using put_samples_same_files by (auto split: if_splits)
    ultimately show ?thesis using files_replace files_open [OF ok o] get_nrt_opened [OF o] b al by metis
  qed
qed

lemma BufRead_files: "files_ok w \<Longrightarrow> BufReadCmd_Stage2 E cmd w = Some (r, cmd', w') \<Longrightarrow> files_ok w'"
proof -
  assume ok: "files_ok w" and run: "BufReadCmd_Stage2 E cmd w = Some (r, cmd', w')"
  obtain b where b: "get_nrt (mBufIndex cmd) w = Some b" using run by (auto simp: BufReadCmd_Stage2_def elim!: bind_SomeE)
  consider "sint (sbFrames b - mBufOffset cmd) \<le> 0" | "\<not> sint (sbFrames b - mBufOffset cmd) \<le> 0" "open_read E (mFilename cmd) = None"
    | f where "\<not> sint (sbFrames b - mBufOffset cmd) \<le> 0" "open_read E (mFilename cmd) = Some f" by fastforce
  then show ?thesis
  proof cases
    case 1
    then show ?thesis using run b ok by (simp add: BufReadCmd_Stage2_def Let_def)
  next
    case 2
    then show ?thesis using run b files_failed [OF ok] by (auto simp: BufReadCmd_Stage2_def Let_def elim!: bind_SomeE)
  next
    case 3
    obtain sf w1 where o: "sf_opened w = (sf, w1)" by (cases "sf_opened w")
    note w1 = files_open [OF ok o]
    show ?thesis
    proof (cases "fChannels f = sbChannels b")
      case False
      then show ?thesis using run b 3 o files_failed files_close [OF w1]
        by (auto simp: BufReadCmd_Stage2_def Let_def elim!: bind_SomeE)
    next
      case True
      then obtain w2 cmd2 where "same_files w1 w2" "leave_file cmd2 sf w2 = Some w'"
        using run b 3 o
        by (auto simp: BufReadCmd_Stage2_def Let_def elim!: bind_SomeE split: if_splits) (blast intro: same_files_refl dest: put_samples_same_files)+
      then show ?thesis using files_done [OF w1] by blast
    qed
  qed
qed

lemma BufReadChannel_files: "files_ok w \<Longrightarrow> BufReadChannelCmd_Stage2 E cmd w = Some (r, cmd', w') \<Longrightarrow> files_ok w'"
proof -
  assume ok: "files_ok w" and run: "BufReadChannelCmd_Stage2 E cmd w = Some (r, cmd', w')"
  obtain b where b: "get_nrt (mBufIndex cmd) w = Some b" using run by (auto simp: BufReadChannelCmd_Stage2_def elim!: bind_SomeE)
  consider "sint (sbFrames b - mBufOffset cmd) \<le> 0" | "\<not> sint (sbFrames b - mBufOffset cmd) \<le> 0" "open_read E (mFilename cmd) = None"
    | f where "\<not> sint (sbFrames b - mBufOffset cmd) \<le> 0" "open_read E (mFilename cmd) = Some f" by fastforce
  then show ?thesis
  proof cases
    case 1
    then show ?thesis using run b ok by (simp add: BufReadChannelCmd_Stage2_def Let_def)
  next
    case 2
    then show ?thesis using run b files_failed [OF ok] by (auto simp: BufReadChannelCmd_Stage2_def Let_def elim!: bind_SomeE)
  next
    case 3
    obtain sf w1 where o: "sf_opened w = (sf, w1)" by (cases "sf_opened w")
    note w1 = files_open [OF ok o]
    show ?thesis
    proof (cases "mChannels cmd \<noteq> [] \<and> \<not> CheckChannels (mChannels cmd) (fChannels f)")
      case True
      then show ?thesis using run b 3 o
        by (auto dest: files_failed_closed [OF w1] simp: BufReadChannelCmd_Stage2_def Let_def elim!: bind_SomeE)
    next
      case False
      then obtain w2 cmd2 where "same_files w1 w2" "leave_file cmd2 sf w2 = Some w'"
        using run b 3 o unfolding BufReadChannelCmd_Stage2_def Let_def
        by (auto elim!: bind_SomeE split: if_splits) (blast intro: same_files_refl dest: put_samples_same_files read_channels_same_files)+
      then show ?thesis using files_done [OF w1] by blast
    qed
  qed
qed

lemma BufWrite_files: "files_ok w \<Longrightarrow> BufWriteCmd_Stage2 E cmd w = Some (r, cmd', w') \<Longrightarrow> files_ok w'"
proof -
  assume ok: "files_ok w" and run: "BufWriteCmd_Stage2 E cmd w = Some (r, cmd', w')"
  obtain b rate where b: "get_nrt (mBufIndex cmd) w = Some b" "int_of_f64 (sbSamplerate b) = Some rate"
    using run by (auto simp: BufWriteCmd_Stage2_def Let_def elim!: bind_SomeE)
  show ?thesis
  proof (cases "open_write E (mFilename cmd) (mFormat cmd) rate (sbChannels b)")
    case (Some e)
    then show ?thesis using run b files_failed [OF ok] by (auto simp: BufWriteCmd_Stage2_def Let_def elim!: bind_SomeE)
  next
    case None
    obtain sf w1 where o: "sf_opened w = (sf, w1)" by (cases "sf_opened w")
    have log: "same_files w1 (w1\<lparr>mFileWrites := xs\<rparr>)" for xs by (simp add: same_files_def)
    obtain w2 cmd2 where "same_files w1 w2" "leave_file cmd2 sf w2 = Some w'"
      using run b None o unfolding BufWriteCmd_Stage2_def Let_def
      by (auto elim!: bind_SomeE split: if_splits) (blast intro: same_files_refl log)+
    then show ?thesis using files_done [OF files_open [OF ok o]] by blast
  qed
qed

lemma BufAllocReadChannel_files: "files_ok w \<Longrightarrow> BufAllocReadChannelCmd_Stage2 E cmd w = Some (r, cmd', w') \<Longrightarrow> files_ok w'"
proof -
  assume ok: "files_ok w" and run: "BufAllocReadChannelCmd_Stage2 E cmd w = Some (r, cmd', w')"
  obtain b where b: "get_nrt (mBufIndex cmd) w = Some b" using run by (auto simp: BufAllocReadChannelCmd_Stage2_def elim!: bind_SomeE)
  show ?thesis
  proof (cases "open_read E (mFilename cmd)")
    case None
    then show ?thesis using run b files_failed [OF ok] by (auto simp: BufAllocReadChannelCmd_Stage2_def elim!: bind_SomeE)
  next
    case (Some f)
    obtain sf w1 where o: "sf_opened w = (sf, w1)" by (cases "sf_opened w")
    note w1 = files_open [OF ok o]
    show ?thesis
    proof (cases "mChannels cmd \<noteq> [] \<and> \<not> CheckChannels (mChannels cmd) (fChannels f)")
      case True
      then show ?thesis using run b Some o
        by (auto dest: files_failed_closed [OF w1] simp: BufAllocReadChannelCmd_Stage2_def Let_def elim!: bind_SomeE)
    next
      case False
      let ?n = "clamp_frames 1 f (clamp_offset f (mFileOffset cmd)) (mNumFrames cmd)"
      let ?c = "if mChannels cmd = [] then fChannels f else of_nat (length (mChannels cmd))"
      obtain err b' w2 where al: "bufAlloc b ?c ?n (f64_of_int (fSamplerate f)) w1 = (err, b', w2)"
        by (cases "bufAlloc b ?c ?n (f64_of_int (fSamplerate f)) w1")
      obtain w3 w4 where "same_files w2 w3" "set_nrt (mBufIndex cmd) b' w3 = Some w4" "sf_close sf w4 = Some w'"
        using run b Some o al False unfolding BufAllocReadChannelCmd_Stage2_def Let_def
        by (auto elim!: bind_SomeE split: if_splits) (blast intro: same_files_refl dest: put_samples_same_files read_channels_same_files)+
      then show ?thesis using files_replace [OF w1 _ al] get_nrt_opened [OF o] b by metis
    qed
  qed
qed

text \<open>
  C29: Sound files are neither lost nor closed twice: the files that are open are those that buffers hold, each
  file in one buffer, and the second stage of every command on buffers keeps that, whether the
  file cannot be opened, does not fit, is read, written, left open or closed. (The commands of
  plug-ins are left out.)
\<close>

theorem commands_keep_files:
  assumes "files_ok w" and "Stage2 E cmd w = Some (r, cmd', w')"
    and "scClass cmd \<in> {BufAllocCmd, BufFreeCmd, BufZeroCmd, BufAllocReadCmd, BufReadCmd, BufAllocReadChannelCmd,
      BufReadChannelCmd, BufWriteCmd, BufCloseCmd}"
  shows "files_ok w'"
  using assms(2,3) command_files [OF assms(1), of cmd r cmd' w'] BufAllocRead_files [OF assms(1), of E cmd r cmd' w']
    BufRead_files [OF assms(1), of E cmd r cmd' w'] BufAllocReadChannel_files [OF assms(1), of E cmd r cmd' w']
    BufReadChannel_files [OF assms(1), of E cmd r cmd' w'] BufWrite_files [OF assms(1), of E cmd r cmd' w']
  by (auto simp: Stage2_def)

text \<open>A world whose first buffer holds file 0 open.\<close>

definition file_world :: World where
  "file_world = buffer_world\<lparr>mSndBufsNonRealTimeMirror := [small_buf\<lparr>sbSndfile := Some 0\<rparr>, small_buf], mOpenFiles := [0], mFileFresh := 1\<rparr>"

theorem commands_keep_files_witness:
  "\<forall>E. \<exists>w'. Stage2 E (new_command E BufCloseCmd 1) file_world = Some (True, new_command E BufCloseCmd 1, w') \<and> files_ok w' \<and> mOpenFiles w' = []" (is "\<forall>E. ?P E")
proof
  fix E
  let ?w = "file_world\<lparr>mOpenFiles := [], mSndBufsNonRealTimeMirror := [small_buf, small_buf]\<rparr>"
  have "files_ok file_world"
    by (simp add: files_with_def held_files_def file_world_def List.map_filter_def small_buf_def)
  moreover have run: "Stage2 E (new_command E BufCloseCmd 1) file_world = Some (True, new_command E BufCloseCmd 1, ?w)"
    by (simp add: Stage2_def new_command_def BufCloseCmd_Stage2_def get_nrt_def World_GetNRTBuf_def file_world_def buffer_world_def sf_close_def
        set_nrt_def small_buf_def)
  ultimately have "files_ok ?w" using commands_keep_files [of file_world E "new_command E BufCloseCmd 1"] by (simp add: new_command_def)
  then show "?P E" using run by auto
qed



end
