(* ===== verification/SC_Commands.thy ===== *)
theory SC_Commands
  imports SC_Stages
begin

text \<open>
  The commands on nodes, \<open>server/scsynth/SC_MiscCmds.cpp\<close>: finding the node an argument names, running,
  setting, mapping, creating, moving and freeing of nodes.

  A handler gets the fuel \<open>k\<close>, the size and the memory of the arguments and the address to reply to. Its
  result is what the C++ function returns, or \<open>Thrown\<close>. \<open>None\<close> is undefined behaviour, or a loop that
  the fuel does not end.
\<close>

section \<open>Loops over the arguments\<close>

text \<open>
  \<open>while (cond) body\<close> on a message: the body may leave the function with a result. \<open>s\<close> holds the other
  local variables.
\<close>

fun while_msg :: "nat \<Rightarrow> (sc_msg_iter \<Rightarrow> bool) \<Rightarrow> ('s \<Rightarrow> sc_msg_iter \<Rightarrow> World \<Rightarrow> (cmd_result option \<times> 's \<times> sc_msg_iter \<times> World) option)
    \<Rightarrow> 's \<Rightarrow> sc_msg_iter \<Rightarrow> World \<Rightarrow> (cmd_result option \<times> 's \<times> sc_msg_iter \<times> World) option" where
  "while_msg 0 cond body s m w = None"
| "while_msg (Suc k) cond body s m w =
     (if cond m then do {
        (r, s, m, w) \<leftarrow> body s m w;
        (case r of Some _ \<Rightarrow> Some (r, s, m, w) | None \<Rightarrow> while_msg k cond body s m w) }
      else Some (None, s, m, w))"

abbreviation args_left :: "sc_msg_iter \<Rightarrow> bool" where "args_left m \<equiv> remain m \<noteq> 0"
abbreviation at_least :: "int \<Rightarrow> sc_msg_iter \<Rightarrow> bool" where "at_least n m \<equiv> n \<le> remain m"

definition returned :: "cmd_result option \<Rightarrow> cmd_result" where
  "returned r = (case r of Some e \<Rightarrow> e | None \<Rightarrow> Ret kSCErr_None)"

text \<open>A handler that only loops over its arguments, and one with a node in front.\<close>

type_synonym loop_body = "sc_msg_iter \<Rightarrow> World \<Rightarrow> (cmd_result option \<times> sc_msg_iter \<times> World) option"

definition loop_from :: "nat \<Rightarrow> (sc_msg_iter \<Rightarrow> bool) \<Rightarrow> loop_body \<Rightarrow> sc_msg_iter \<Rightarrow> World \<Rightarrow> (cmd_result \<times> World) option" where
  "loop_from k cond body m w = do {
     (r, s, m, w) \<leftarrow> while_msg k cond (\<lambda>s m w. do { (r, m, w) \<leftarrow> body m w; Some (r, s, m, w) }) () m w;
     Some (returned r, w) }"

abbreviation leave :: "SCErr \<Rightarrow> sc_msg_iter \<Rightarrow> World \<Rightarrow> (cmd_result option \<times> sc_msg_iter \<times> World) option" where
  "leave e m w \<equiv> Some (Some (Ret e), m, w)"

text \<open>\<open>for (int i = 0; i < n; ++i)\<close>.\<close>

fun each_index :: "nat list \<Rightarrow> (i32 \<Rightarrow> World \<Rightarrow> World option) \<Rightarrow> World \<Rightarrow> World option" where
  "each_index [] f w = Some w"
| "each_index (i # is) f w = do { w \<leftarrow> f (of_nat i) w; each_index is f w }"

abbreviation for_upto :: "i32 \<Rightarrow> (i32 \<Rightarrow> World \<Rightarrow> World option) \<Rightarrow> World \<Rightarrow> World option" where
  "for_upto n \<equiv> each_index [0..<nat (sint n)]"

section \<open>The node an argument names\<close>

text \<open>
  A node is named by its identifier, or by a path and an identifier: \<open>h\<close>ead, \<open>t\<close>ail, \<open>u\<close>p, \<open>p\<close>revious and
  \<open>n\<close>ext; other characters are skipped. The group above is the address of its first member, so null
  when there is none.
\<close>

definition path_step :: "u8 \<Rightarrow> Node \<Rightarrow> ptr \<Rightarrow> ptr option" where
  "path_step c n p =
     (if c = chr CHR ''h'' then (if mIsGroup n then mHead n else None)
      else if c = chr CHR ''t'' then (if mIsGroup n then mTail n else None)
      else if c = chr CHR ''u'' then mParent n
      else if c = chr CHR ''p'' then mPrev n
      else if c = chr CHR ''n'' then mNext n
      else Some p)"

fun walk_path :: "u8 list \<Rightarrow> ptr option \<Rightarrow> World \<Rightarrow> ptr option option" where
  "walk_path [] node w = None"
| "walk_path (c # cs) node w =
     (if c = 0 then Some node
      else case node of None \<Rightarrow> Some None
           | Some p \<Rightarrow> do { n \<leftarrow> deref w p; walk_path cs (path_step c n p) w })"

definition Msg_GetNode :: "World \<Rightarrow> sc_msg_iter \<Rightarrow> (ptr option \<times> sc_msg_iter) option" where
  "Msg_GetNode w m = do {
     t \<leftarrow> nextTag tag_i m;
     if t = tag_s then do {
       (loc, m) \<leftarrow> gets None m;
       (nodeID, m) \<leftarrow> geti 0 m;
       node \<leftarrow> World_GetNode nodeID w;
       pos \<leftarrow> loc;
       node \<leftarrow> walk_path (drop pos (mdata m)) node w;
       Some (node, m) }
     else do {
       (nodeID, m) \<leftarrow> geti 0 m;
       node \<leftarrow> World_GetNode nodeID w;
       Some (node, m) } }"

definition Msg_GetGroup :: "World \<Rightarrow> sc_msg_iter \<Rightarrow> (ptr option \<times> sc_msg_iter) option" where
  "Msg_GetGroup w m = do {
     (node, m) \<leftarrow> Msg_GetNode w m;
     (case node of None \<Rightarrow> Some (None, m)
      | Some p \<Rightarrow> do { n \<leftarrow> deref w p; Some (if mIsGroup n then Some p else None, m) }) }"

definition Msg_GetGraph :: "World \<Rightarrow> sc_msg_iter \<Rightarrow> (ptr option \<times> sc_msg_iter) option" where
  "Msg_GetGraph w m = do {
     (node, m) \<leftarrow> Msg_GetNode w m;
     (case node of None \<Rightarrow> Some (None, m)
      | Some p \<Rightarrow> do { n \<leftarrow> deref w p; Some (if mIsGroup n then None else Some p, m) }) }"

text \<open>Going on with a node or a group, or leaving with an error.\<close>

definition with_node :: "SCErr \<Rightarrow> (ptr \<Rightarrow> loop_body) \<Rightarrow> loop_body" where
  "with_node e f m w = do {
     (node, m) \<leftarrow> Msg_GetNode w m;
     (case node of None \<Rightarrow> leave e m w | Some p \<Rightarrow> f p m w) }"

definition with_group :: "(ptr \<Rightarrow> loop_body) \<Rightarrow> loop_body" where
  "with_group f m w = do {
     (grp, m) \<leftarrow> Msg_GetGroup w m;
     (case grp of None \<Rightarrow> leave kSCErr_GroupNotFound m w | Some p \<Rightarrow> f p m w) }"

text \<open>Going on to the next round of the loop.\<close>

definition next_round :: "sc_msg_iter \<Rightarrow> World option \<Rightarrow> (cmd_result option \<times> sc_msg_iter \<times> World) option" where
  "next_round m ow = do { w \<leftarrow> ow; Some (None, m, w) }"

type_synonym handler = "env \<Rightarrow> nat \<Rightarrow> nat \<Rightarrow> u8 list \<Rightarrow> nat \<Rightarrow> World \<Rightarrow> (cmd_result \<times> World) option"

definition on_nodes :: "(sc_msg_iter \<Rightarrow> bool) \<Rightarrow> loop_body \<Rightarrow> nat \<Rightarrow> nat \<Rightarrow> u8 list \<Rightarrow> World \<Rightarrow> (cmd_result \<times> World) option" where
  "on_nodes cond body k inSize inData w = do { m \<leftarrow> msg_init inSize inData; loop_from k cond body m w }"

text \<open>A node first, then a loop.\<close>

definition on_node :: "(sc_msg_iter \<Rightarrow> bool) \<Rightarrow> (ptr \<Rightarrow> loop_body) \<Rightarrow> nat \<Rightarrow> nat \<Rightarrow> u8 list \<Rightarrow> World \<Rightarrow> (cmd_result \<times> World) option" where
  "on_node cond body k inSize inData w = do {
     m \<leftarrow> msg_init inSize inData;
     (node, m) \<leftarrow> Msg_GetNode w m;
     (case node of None \<Rightarrow> Some (Ret kSCErr_NodeNotFound, w)
      | Some p \<Rightarrow> loop_from k cond (body p) m w) }"

section \<open>Running, tracing, freeing\<close>

definition meth_n_trace :: handler where
  "meth_n_trace E k inSize inData inReply w =
     on_nodes args_left (with_node kSCErr_NodeNotFound (\<lambda>p m w. next_round m (Node_Trace p w))) k inSize inData w"

definition meth_g_dumpTree :: handler where
  "meth_g_dumpTree E k inSize inData inReply w =
     on_nodes args_left (with_group (\<lambda>p m w. do {
       (flag, m) \<leftarrow> geti 0 m;
       next_round m (if flag \<noteq> 0 then Group_DumpTreeAndControls p w else Group_DumpTree p w) })) k inSize inData w"

definition meth_n_run :: handler where
  "meth_n_run E k inSize inData inReply w =
     on_nodes args_left (with_node kSCErr_NodeNotFound (\<lambda>p m w. do {
       (run, m) \<leftarrow> geti 0 m;
       next_round m (Node_SetRun p run w) })) k inSize inData w"

definition meth_n_free :: handler where
  "meth_n_free E k inSize inData inReply w =
     on_nodes args_left (with_node kSCErr_NodeNotFound (\<lambda>p m w. next_round m (Node_Delete k p w))) k inSize inData w"

definition meth_g_freeAll :: handler where
  "meth_g_freeAll E k inSize inData inReply w =
     on_nodes args_left (with_group (\<lambda>p m w. next_round m (Group_DeleteAll k p w))) k inSize inData w"

definition meth_g_deepFree :: handler where
  "meth_g_deepFree E k inSize inData inReply w =
     on_nodes args_left (with_group (\<lambda>p m w. next_round m (Group_DeepFreeGraphs k p w))) k inSize inData w"

definition meth_n_query :: handler where
  "meth_n_query E k inSize inData inReply w =
     on_nodes args_left (with_node kSCErr_NodeNotFound (\<lambda>p m w. next_round m (Node_StateMsg p kNode_Info w))) k inSize inData w"

text \<open>Hiding the identifier of a synth throws when it fails; what is not a synth is skipped.\<close>

definition meth_s_noid :: handler where
  "meth_s_noid E k inSize inData inReply w =
     on_nodes args_left (\<lambda>m w. do {
       (graph, m) \<leftarrow> Msg_GetGraph w m;
       (case graph of None \<Rightarrow> Some (None, m, w)
        | Some p \<Rightarrow> do {
            (err, w) \<leftarrow> Graph_RemoveID k p w;
            Some (if err = kSCErr_None then None else Some Thrown, m, w) }) }) k inSize inData w"

section \<open>Setting and mapping controls\<close>

definition node_set_at :: "nat \<Rightarrow> ptr \<Rightarrow> control_address \<Rightarrow> i32 \<Rightarrow> f32 \<Rightarrow> World \<Rightarrow> World option" where
  "node_set_at k p a i v w = (case a of By_index ix \<Rightarrow> Node_SetControl k p (ix + i) v w
     | By_name h nm \<Rightarrow> Node_SetControl_named k p h nm i v w)"
definition node_map_at :: "nat \<Rightarrow> ptr \<Rightarrow> control_address \<Rightarrow> i32 \<Rightarrow> i32 \<Rightarrow> World \<Rightarrow> World option" where
  "node_map_at k p a i b w = (case a of By_index ix \<Rightarrow> Node_MapControl k p (ix + i) b w
     | By_name h nm \<Rightarrow> Node_MapControl_named k p h nm i b w)"
definition node_map_audio_at :: "nat \<Rightarrow> ptr \<Rightarrow> control_address \<Rightarrow> i32 \<Rightarrow> i32 \<Rightarrow> World \<Rightarrow> World option" where
  "node_map_audio_at k p a i b w = (case a of By_index ix \<Rightarrow> Node_MapAudioControl k p (ix + i) b w
     | By_name h nm \<Rightarrow> Node_MapAudioControl_named k p h nm i b w)"

definition meth_n_map :: handler where
  "meth_n_map E k inSize inData inReply w =
     on_node (at_least 8) (\<lambda>p m w. do {
       (a, m) \<leftarrow> read_address m;
       (bus, m) \<leftarrow> geti 0 m;
       next_round m (node_map_at k p a 0 bus w) }) k inSize inData w"

definition meth_n_mapa :: handler where
  "meth_n_mapa E k inSize inData inReply w =
     on_node (at_least 8) (\<lambda>p m w. do {
       (a, m) \<leftarrow> read_address m;
       (bus, m) \<leftarrow> geti 0 m;
       next_round m (node_map_audio_at k p a 0 bus w) }) k inSize inData w"

text \<open>Consecutive controls go to consecutive busses; \<open>-1\<close> unmaps them all.\<close>

definition nth_bus :: "i32 \<Rightarrow> i32 \<Rightarrow> i32" where
  "nth_bus bus i = (if bus = -1 then -1 else bus + i)"

definition meth_n_mapn :: handler where
  "meth_n_mapn E k inSize inData inReply w =
     on_node (at_least 12) (\<lambda>p m w. do {
       (a, m) \<leftarrow> read_address m;
       (bus, m) \<leftarrow> geti 0 m;
       (n, m) \<leftarrow> geti 0 m;
       next_round m (for_upto n (\<lambda>i. node_map_at k p a i (nth_bus bus i)) w) }) k inSize inData w"

definition meth_n_mapan :: handler where
  "meth_n_mapan E k inSize inData inReply w =
     on_node (at_least 12) (\<lambda>p m w. do {
       (a, m) \<leftarrow> read_address m;
       (bus, m) \<leftarrow> geti 0 m;
       (n, m) \<leftarrow> geti 0 m;
       next_round m (for_upto n (\<lambda>i. node_map_audio_at k p a i (nth_bus bus i)) w) }) k inSize inData w"

text \<open>A string that names a bus maps the control: whether it did, and the new state.\<close>

definition node_map_string :: "nat \<Rightarrow> ptr \<Rightarrow> control_address \<Rightarrow> i32 \<Rightarrow> u8 list \<Rightarrow> World \<Rightarrow> (bool \<times> World) option" where
  "node_map_string k p a i string w = do {
     c \<leftarrow> aread string 0;
     if c = chr_c then do { bus \<leftarrow> sc_atoi (tl string); w \<leftarrow> node_map_at k p a i bus w; Some (True, w) }
     else if c = chr_a then do { bus \<leftarrow> sc_atoi (tl string); w \<leftarrow> node_map_audio_at k p a i bus w; Some (True, w) }
     else Some (False, w) }"

text \<open>The values of one address of \<open>n_set\<close>; \<open>lp\<close> counts the open brackets.\<close>

fun set_values :: "nat \<Rightarrow> nat \<Rightarrow> ptr \<Rightarrow> control_address \<Rightarrow> i32 \<Rightarrow> i32 \<Rightarrow> sc_msg_iter \<Rightarrow> World \<Rightarrow> (sc_msg_iter \<times> World) option" where
  "set_values 0 k p a i lp m w = None"
| "set_values (Suc f) k p a i lp m w = do {
     t \<leftarrow> nextTag tag_f m;
     (i, lp, m, w) \<leftarrow>
       (if t = tag_f \<or> t = tag_i then do {
          (value, m) \<leftarrow> getf 0 m;
          w \<leftarrow> node_set_at k p a i value w;
          Some (i + 1, lp, m, w) }
        else if t = tag_s then do {
          (string, m) \<leftarrow> string_arg m;
          (mapped, w) \<leftarrow> node_map_string k p a i string w;
          Some (if mapped then i + 1 else i, lp, m, w) }
        else if t = tag_close then Some (i, lp - 1, count_tag m, w)
        else if t = tag_open then Some (i, lp + 1, count_tag m, w)
        else Some (i, lp, m, w));
     if lp \<noteq> 0 then set_values f k p a i lp m w else Some (m, w) }"

definition meth_n_set :: handler where
  "meth_n_set E k inSize inData inReply w =
     on_node (at_least 8) (\<lambda>p m w. do {
       (a, m) \<leftarrow> read_address m;
       (m, w) \<leftarrow> set_values k k p a 0 0 m w;
       Some (None, m, w) }) k inSize inData w"

fun set_n_values :: "nat \<Rightarrow> nat \<Rightarrow> ptr \<Rightarrow> control_address \<Rightarrow> i32 \<Rightarrow> i32 \<Rightarrow> sc_msg_iter \<Rightarrow> World \<Rightarrow> (sc_msg_iter \<times> World) option" where
  "set_n_values 0 k p a i n m w = None"
| "set_n_values (Suc f) k p a i n m w =
     (if remain m \<noteq> 0 \<and> sint i < sint n then do {
        t \<leftarrow> nextTag tag_f m;
        (m, w) \<leftarrow>
          (if t = tag_s then do {
             (string, m) \<leftarrow> string_arg m;
             (_, w) \<leftarrow> node_map_string k p a i string w;
             Some (m, w) }
           else do {
             (value, m) \<leftarrow> getf 0 m;
             w \<leftarrow> node_set_at k p a i value w;
             Some (m, w) });
        set_n_values f k p a (i + 1) n m w }
      else Some (m, w))"

definition meth_n_setn :: handler where
  "meth_n_setn E k inSize inData inReply w =
     on_node args_left (\<lambda>p m w. do {
       (a, m) \<leftarrow> read_address m;
       (n, m) \<leftarrow> geti 0 m;
       (m, w) \<leftarrow> set_n_values k k p a 0 n m w;
       Some (None, m, w) }) k inSize inData w"

text \<open>
  \<open>n_fill\<close> fills with the value, then looks at the next argument, which belongs to the next round: a
  string is taken for a bus to map to, anything else is read as a value and fills again.
\<close>

definition meth_n_fill :: handler where
  "meth_n_fill E k inSize inData inReply w =
     on_node (at_least 12) (\<lambda>p m w. do {
       (a, m) \<leftarrow> read_address m;
       (n, m) \<leftarrow> geti 0 m;
       (value, m) \<leftarrow> getf 0 m;
       w \<leftarrow> for_upto n (\<lambda>i. node_set_at k p a i value) w;
       t \<leftarrow> nextTag tag_f m;
       if t = tag_s then do {
         (string, m) \<leftarrow> string_arg m;
         c \<leftarrow> aread string 0;
         if c = chr_c then do {
           bus \<leftarrow> sc_atoi (tl string);
           next_round m (for_upto n (\<lambda>i. node_map_at k p a i (bus + i)) w) }
         else Some (None, m, w) }
       else do {
         (value, m) \<leftarrow> getf 0 m;
         next_round m (for_upto n (\<lambda>i. node_set_at k p a i value) w) } }) k inSize inData w"

section \<open>Creating nodes\<close>

text \<open>Where the new node goes: the target is read before the node is made.\<close>

definition place_in_group :: "(ptr \<Rightarrow> ptr \<Rightarrow> World \<Rightarrow> World option) \<Rightarrow> nat \<Rightarrow> bool \<Rightarrow> ptr \<Rightarrow> i32 \<Rightarrow> sc_msg_iter \<Rightarrow> World
    \<Rightarrow> (SCErr \<times> ptr option \<times> World) option" where
  "place_in_group add k argtype def nodeID m w = do {
     (grp, m) \<leftarrow> Msg_GetGroup w m;
     (case grp of None \<Rightarrow> Some (kSCErr_GroupNotFound, None, w)
      | Some g \<Rightarrow> do {
          (err, graph, m, w) \<leftarrow> Graph_New k def nodeID m argtype w;
          if err \<noteq> kSCErr_None then Some (err, None, w)
          else do { s \<leftarrow> graph; w \<leftarrow> add g s w; Some (kSCErr_None, Some s, w) } }) }"

definition place_at_node :: "(ptr \<Rightarrow> ptr \<Rightarrow> World \<Rightarrow> World option) \<Rightarrow> nat \<Rightarrow> bool \<Rightarrow> ptr \<Rightarrow> i32 \<Rightarrow> sc_msg_iter \<Rightarrow> World
    \<Rightarrow> (SCErr \<times> ptr option \<times> World) option" where
  "place_at_node add k argtype def nodeID m w = do {
     (node, m) \<leftarrow> Msg_GetNode w m;
     (case node of None \<Rightarrow> Some (kSCErr_NodeNotFound, None, w)
      | Some t \<Rightarrow> do {
          (err, graph, m, w) \<leftarrow> Graph_New k def nodeID m argtype w;
          if err \<noteq> kSCErr_None then Some (err, None, w)
          else do { s \<leftarrow> graph; w \<leftarrow> add s t w; Some (kSCErr_None, Some s, w) } }) }"

definition place_synth :: "nat \<Rightarrow> bool \<Rightarrow> i32 \<Rightarrow> ptr \<Rightarrow> i32 \<Rightarrow> sc_msg_iter \<Rightarrow> World \<Rightarrow> (SCErr \<times> ptr option \<times> World) option" where
  "place_synth k argtype addAction def nodeID m w =
     (if addAction = 0 then place_in_group Group_AddHead k argtype def nodeID m w
      else if addAction = 1 then place_in_group Group_AddTail k argtype def nodeID m w
      else if addAction = 2 then place_at_node Node_AddBefore k argtype def nodeID m w
      else if addAction = 3 then place_at_node Node_AddAfter k argtype def nodeID m w
      else if addAction = 4 then place_at_node (Node_Replace k) k argtype def nodeID m w
      else Some (kSCErr_Failed, None, w))"

text \<open>\<open>s_new\<close> and \<open>s_newargs\<close> differ in how the rest of the arguments is read.\<close>

definition new_synth :: "bool \<Rightarrow> nat \<Rightarrow> nat \<Rightarrow> u8 list \<Rightarrow> World \<Rightarrow> (cmd_result \<times> World) option" where
  "new_synth argtype k inSize inData w = do {
     m \<leftarrow> msg_init inSize inData;
     (defname, m) \<leftarrow> gets4 None m;
     (case defname of None \<Rightarrow> Some (Ret kSCErr_WrongArgType, w)
      | Some pos \<Rightarrow> do {
          (nodeID, m) \<leftarrow> geti 0 m;
          (addAction, m) \<leftarrow> geti 0 m;
          def \<leftarrow> World_GetGraphDef (words_at (mdata m) pos) w;
          (case def of None \<Rightarrow> Some (Ret kSCErr_SynthDefNotFound, w)
           | Some d \<Rightarrow> do {
               (err, graph, w) \<leftarrow> place_synth k argtype addAction d nodeID m w;
               (case graph of None \<Rightarrow> Some (Ret err, w)
                | Some s \<Rightarrow> do { w \<leftarrow> Node_StateMsg s kNode_Go w; Some (Ret kSCErr_None, w) }) }) }) }"

definition meth_s_new :: handler where
  "meth_s_new E k inSize inData inReply w = new_synth True k inSize inData w"
definition meth_s_newargs :: handler where
  "meth_s_newargs E k inSize inData inReply w = new_synth False k inSize inData w"

text \<open>
  A new group. When its identifier is taken by a group in the right place already, that group is the
  result; the right place is the same parent for \<open>new_group_in\<close>, a parent of the same identifier for
  \<open>new_group_at\<close>.
\<close>

definition new_group_in :: "(ptr \<Rightarrow> ptr \<Rightarrow> World \<Rightarrow> World option) \<Rightarrow> i32 \<Rightarrow> ptr \<Rightarrow> World \<Rightarrow> (SCErr \<times> ptr option \<times> World) option" where
  "new_group_in add newGroupID g w = do {
     (err, newGroup, w) \<leftarrow> Group_New newGroupID w;
     if err = kSCErr_None then do { s \<leftarrow> newGroup; w \<leftarrow> add g s w; Some (kSCErr_None, Some s, w) }
     else if err = kSCErr_DuplicateNodeID then do {
       newGroup \<leftarrow> World_GetGroup newGroupID w;
       (case newGroup of None \<Rightarrow> Some (err, None, w)
        | Some s \<Rightarrow> do { n \<leftarrow> deref w s; Some (if mParent n = Some g then (kSCErr_None, Some s, w) else (err, None, w)) }) }
     else Some (err, None, w) }"

definition new_group_at :: "(ptr \<Rightarrow> ptr \<Rightarrow> World \<Rightarrow> World option) \<Rightarrow> i32 \<Rightarrow> ptr \<Rightarrow> World \<Rightarrow> (SCErr \<times> ptr option \<times> World) option" where
  "new_group_at add newGroupID t w = do {
     (err, newGroup, w) \<leftarrow> Group_New newGroupID w;
     if err = kSCErr_None then do { s \<leftarrow> newGroup; w \<leftarrow> add s t w; Some (kSCErr_None, Some s, w) }
     else if err = kSCErr_DuplicateNodeID then do {
       newGroup \<leftarrow> World_GetGroup newGroupID w;
       (case newGroup of None \<Rightarrow> Some (err, None, w)
        | Some s \<Rightarrow> do {
            n \<leftarrow> deref w s;
            (case mParent n of None \<Rightarrow> Some (err, None, w)
             | Some g \<Rightarrow> do {
                 gn \<leftarrow> deref w g;
                 tn \<leftarrow> deref w t;
                 tg \<leftarrow> mParent tn;
                 tgn \<leftarrow> deref w tg;
                 Some (if mID gn = mID tgn then (kSCErr_None, Some s, w) else (err, None, w)) }) }) }
     else Some (err, None, w) }"

definition new_group_instead :: "nat \<Rightarrow> i32 \<Rightarrow> ptr \<Rightarrow> World \<Rightarrow> (SCErr \<times> ptr option \<times> World) option" where
  "new_group_instead k newGroupID t w = do {
     (err, newGroup, w) \<leftarrow> Group_New newGroupID w;
     if err \<noteq> kSCErr_None then Some (err, None, w)
     else do { s \<leftarrow> newGroup; w \<leftarrow> Node_Replace k s t w; Some (kSCErr_None, Some s, w) } }"

text \<open>The result of placing the group: on with the loop, or out of it.\<close>

definition group_placed :: "sc_msg_iter \<Rightarrow> (SCErr \<times> ptr option \<times> World) option
    \<Rightarrow> (cmd_result option \<times> sc_msg_iter \<times> World) option" where
  "group_placed m r = do {
     (err, newGroup, w) \<leftarrow> r;
     (case newGroup of None \<Rightarrow> leave err m w | Some s \<Rightarrow> next_round m (Node_StateMsg s kNode_Go w)) }"

definition meth_g_new :: handler where
  "meth_g_new E k inSize inData inReply w =
     on_nodes args_left (\<lambda>m w. do {
       (newGroupID, m) \<leftarrow> geti 0 m;
       (addAction, m) \<leftarrow> geti 0 m;
       if addAction = 0 then with_group (\<lambda>g m w. group_placed m (new_group_in Group_AddHead newGroupID g w)) m w
       else if addAction = 1 then with_group (\<lambda>g m w. group_placed m (new_group_in Group_AddTail newGroupID g w)) m w
       else if addAction = 2 then with_node kSCErr_TargetNodeNotFound
         (\<lambda>t m w. group_placed m (new_group_at Node_AddBefore newGroupID t w)) m w
       else if addAction = 3 then with_node kSCErr_TargetNodeNotFound
         (\<lambda>t m w. group_placed m (new_group_at Node_AddAfter newGroupID t w)) m w
       else if addAction = 4 then with_node kSCErr_TargetNodeNotFound
         (\<lambda>t m w. group_placed m (new_group_instead k newGroupID t w)) m w
       else leave kSCErr_Failed m w }) k inSize inData w"

definition meth_p_new :: handler where
  "meth_p_new E k inSize inData inReply w = meth_g_new E k inSize inData inReply w"

section \<open>Moving nodes\<close>

definition move_to :: "(ptr \<Rightarrow> ptr \<Rightarrow> World \<Rightarrow> World option) \<Rightarrow> ptr \<Rightarrow> ptr \<Rightarrow> World \<Rightarrow> World option" where
  "move_to add p t w = do {
     w \<leftarrow> Node_Remove p w;
     w \<leftarrow> add p t w;
     Node_StateMsg p kNode_Move w }"

text \<open>
  \<open>n_before\<close> and \<open>n_after\<close> move the pair of the round before, unless this round has the same node again;
  pairs with a missing node are skipped. \<open>s\<close> is the last pair.
\<close>

definition move_pair :: "(ptr \<Rightarrow> ptr \<Rightarrow> World \<Rightarrow> World option) \<Rightarrow> (ptr \<times> ptr) option \<Rightarrow> sc_msg_iter \<Rightarrow> World
    \<Rightarrow> (cmd_result option \<times> (ptr \<times> ptr) option \<times> sc_msg_iter \<times> World) option" where
  "move_pair add s m w = do {
     (node, m) \<leftarrow> Msg_GetNode w m;
     (target, m) \<leftarrow> Msg_GetNode w m;
     (case (node, target) of
        (Some p, Some t) \<Rightarrow> do {
          w \<leftarrow> (case s of Some (p', t') \<Rightarrow> if p' \<noteq> p then move_to add p' t' w else Some w | None \<Rightarrow> Some w);
          Some (None, Some (p, t), m, w) }
      | _ \<Rightarrow> Some (None, s, m, w)) }"

definition meth_n_before :: handler where
  "meth_n_before E k inSize inData inReply w = do {
     m \<leftarrow> msg_init inSize inData;
     (r, s, m, w) \<leftarrow> while_msg k args_left (move_pair Node_AddBefore) None m w;
     w \<leftarrow> (case s of Some (p, t) \<Rightarrow> if p \<noteq> t then move_to Node_AddBefore p t w else Some w | None \<Rightarrow> Some w);
     Some (Ret kSCErr_None, w) }"

definition meth_n_after :: handler where
  "meth_n_after E k inSize inData inReply w = do {
     m \<leftarrow> msg_init inSize inData;
     (r, s, m, w) \<leftarrow> while_msg k args_left (move_pair Node_AddAfter) None m w;
     w \<leftarrow> (case s of Some (p, t) \<Rightarrow> move_to Node_AddAfter p t w | None \<Rightarrow> Some w);
     Some (Ret kSCErr_None, w) }"

text \<open>Moving a node into a group; the clients are told when it comes from another one.\<close>

definition move_into :: "(ptr \<Rightarrow> ptr \<Rightarrow> World \<Rightarrow> World option) \<Rightarrow> ptr \<Rightarrow> ptr \<Rightarrow> World \<Rightarrow> World option" where
  "move_into add g p w = do {
     n \<leftarrow> deref w p;
     w \<leftarrow> Node_Remove p w;
     w \<leftarrow> add g p w;
     if mParent n \<noteq> Some g then Node_StateMsg p kNode_Move w else Some w }"

definition meth_g_head :: handler where
  "meth_g_head E k inSize inData inReply w =
     on_nodes args_left (with_group (\<lambda>g. with_node kSCErr_NodeNotFound (\<lambda>p m w.
       next_round m (move_into Group_AddHead g p w)))) k inSize inData w"

definition meth_g_tail :: handler where
  "meth_g_tail E k inSize inData inReply w =
     on_nodes args_left (with_group (\<lambda>g. with_node kSCErr_NodeNotFound (\<lambda>p m w.
       next_round m (do {
         w \<leftarrow> Node_Remove p w;
         w \<leftarrow> Group_AddTail g p w;
         Node_StateMsg p kNode_Move w })))) k inSize inData w"

definition meth_g_insert :: handler where
  "meth_g_insert E k inSize inData inReply w =
     on_nodes args_left (with_group (\<lambda>g. with_node kSCErr_NodeNotFound (\<lambda>p m w. do {
       (index, m) \<leftarrow> geti 0 m;
       next_round m (move_into (\<lambda>g p. Group_Insert g p (sint index)) g p w) }))) k inSize inData w"

text \<open>\<open>n_order\<close>: the first of the nodes that exists goes to its place, the others follow it.\<close>

fun first_node :: "nat \<Rightarrow> World \<Rightarrow> sc_msg_iter \<Rightarrow> (ptr option \<times> sc_msg_iter) option" where
  "first_node 0 w m = None"
| "first_node (Suc k) w m =
     (if args_left m then do {
        (node, m) \<leftarrow> Msg_GetNode w m;
        (case node of None \<Rightarrow> first_node k w m | Some p \<Rightarrow> Some (Some p, m)) }
      else Some (None, m))"

definition order_loop :: "nat \<Rightarrow> ptr \<Rightarrow> sc_msg_iter \<Rightarrow> World \<Rightarrow> (cmd_result \<times> World) option" where
  "order_loop k prevNode m w = do {
     (r, s, m, w) \<leftarrow> while_msg k args_left (\<lambda>prevNode m w. do {
       (node, m) \<leftarrow> Msg_GetNode w m;
       (case node of None \<Rightarrow> Some (None, prevNode, m, w)
        | Some p \<Rightarrow> do { w \<leftarrow> move_to Node_AddAfter p prevNode w; Some (None, p, m, w) }) }) prevNode m w;
     Some (Ret kSCErr_None, w) }"

definition place_first :: "nat \<Rightarrow> (ptr \<Rightarrow> World \<Rightarrow> World option) \<Rightarrow> sc_msg_iter \<Rightarrow> World \<Rightarrow> (cmd_result \<times> World) option" where
  "place_first k place m w = do {
     (node, m) \<leftarrow> first_node k w m;
     (case node of None \<Rightarrow> Some (Ret kSCErr_NodeNotFound, w)
      | Some p \<Rightarrow> do { w \<leftarrow> place p w; order_loop k p m w }) }"

definition meth_n_order :: handler where
  "meth_n_order E k inSize inData inReply w = do {
     m \<leftarrow> msg_init inSize inData;
     (addAction, m) \<leftarrow> geti 0 m;
     if addAction = 0 \<or> addAction = 1 then do {
       (grp, m) \<leftarrow> Msg_GetGroup w m;
       (case grp of None \<Rightarrow> Some (Ret kSCErr_GroupNotFound, w)
        | Some g \<Rightarrow> place_first k (move_into (if addAction = 0 then Group_AddHead else Group_AddTail) g) m w) }
     else if addAction = 2 \<or> addAction = 3 then do {
       (node, m) \<leftarrow> Msg_GetNode w m;
       (case node of None \<Rightarrow> Some (Ret kSCErr_TargetNodeNotFound, w)
        | Some t \<Rightarrow> place_first k (\<lambda>p. move_to (if addAction = 2 then Node_AddBefore else Node_AddAfter) p t) m w) }
     else Some (Ret kSCErr_Failed, w) }"

end
