(* ===== verification/SC_BusCmds.thy ===== *)
theory SC_BusCmds
  imports SC_Commands
begin

text \<open>
  The commands on buffers, control busses and definitions, the queries that answer with a packet, and
  those that only start a sequenced command: the rest of \<open>server/scsynth/SC_MiscCmds.cpp\<close>, with
  \<open>Unit_DoCmd\<close> and \<open>PlugIn_DoCmd\<close> of \<open>SC_UnitDef.cpp\<close> and \<open>World_FreeAllGraphDefs\<close> of \<open>SC_World.cpp\<close>.

  A re-initialised message sees the bytes as the readers left them (a float that was read is swapped).
\<close>

section \<open>Starting sequenced commands\<close>

text \<open>The result of the call is dropped; an exception is not.\<close>

definition dropped :: "cmd_result \<Rightarrow> cmd_result" where
  "dropped r = (case r of Ret e \<Rightarrow> Ret kSCErr_None | Thrown \<Rightarrow> Thrown)"

definition sequenced :: "seq_class \<Rightarrow> handler" where
  "sequenced T E k inSize inData inReply w = do {
     (r, w) \<leftarrow> CallSequencedCommand E T inSize inData inReply w;
     Some (dropped r, w) }"

definition meth_none :: handler where "meth_none E k inSize inData inReply w = Some (Ret kSCErr_None, w)"
definition meth_sync :: handler where "meth_sync = sequenced SyncCmd"
definition meth_b_alloc :: handler where "meth_b_alloc = sequenced BufAllocCmd"
definition meth_b_free :: handler where "meth_b_free = sequenced BufFreeCmd"
definition meth_b_close :: handler where "meth_b_close = sequenced BufCloseCmd"
definition meth_b_allocRead :: handler where "meth_b_allocRead = sequenced BufAllocReadCmd"
definition meth_b_read :: handler where "meth_b_read = sequenced BufReadCmd"
definition meth_b_allocReadChannel :: handler where "meth_b_allocReadChannel = sequenced BufAllocReadChannelCmd"
definition meth_b_readChannel :: handler where "meth_b_readChannel = sequenced BufReadChannelCmd"
definition meth_b_write :: handler where "meth_b_write = sequenced BufWriteCmd"
definition meth_b_zero :: handler where "meth_b_zero = sequenced BufZeroCmd"
definition meth_b_gen :: handler where "meth_b_gen = sequenced BufGenCmd"
definition meth_d_load :: handler where "meth_d_load = sequenced LoadSynthDefCmd"
definition meth_d_recv :: handler where "meth_d_recv = sequenced RecvSynthDefCmd"
definition meth_d_loadDir :: handler where "meth_d_loadDir = sequenced LoadSynthDefDirCmd"
definition meth_status :: handler where "meth_status = sequenced AudioStatusCmd"
definition meth_quit :: handler where "meth_quit = sequenced AudioQuitCmd"
definition meth_notify :: handler where "meth_notify = sequenced NotifyCmd"

section \<open>Definitions, and the state of the server\<close>

text \<open>Every definition in the library is freed, whether it is in use or not.\<close>

fun free_defs :: "ptr option list \<Rightarrow> World \<Rightarrow> World option" where
  "free_defs [] w = Some w"
| "free_defs (None # ds) w = free_defs ds w"
| "free_defs (Some d # ds) w = do { w \<leftarrow> GraphDef_Free d w; free_defs ds w }"

definition World_FreeAllGraphDefs :: "World \<Rightarrow> World option" where
  "World_FreeAllGraphDefs w = do {
     ds \<leftarrow> those (List.map (AtIndex (mGraphDefLib w)) [0..<mTableSize (mGraphDefLib w)]);
     w \<leftarrow> free_defs ds w;
     Some (w\<lparr>mGraphDefLib := MakeEmpty (mGraphDefLib w)\<rparr>) }"

definition meth_d_freeAll :: handler where
  "meth_d_freeAll E k inSize inData inReply w = do {
     w \<leftarrow> World_FreeAllGraphDefs w;
     Some (Ret kSCErr_None, w) }"

definition meth_d_free :: handler where
  "meth_d_free E k inSize inData inReply w =
     on_nodes args_left (\<lambda>m w. do {
       (defname, m) \<leftarrow> gets4 None m;
       (case defname of None \<Rightarrow> leave kSCErr_SynthDefNotFound m w
        | Some pos \<Rightarrow> next_round m (GraphDef_Remove (words_at (mdata m) pos) w)) }) k inSize inData w"

definition meth_clearSched :: handler where
  "meth_clearSched E k inSize inData inReply w =
     Some (Ret kSCErr_None, if mRealTime w then w\<lparr>mSchedCleared := mSchedCleared w + 1\<rparr> else w)"

definition meth_dumpOSC :: handler where
  "meth_dumpOSC E k inSize inData inReply w = do {
     m \<leftarrow> msg_init inSize inData;
     (v, m) \<leftarrow> geti 0 m;
     Some (Ret kSCErr_None, w\<lparr>mDumpOSC := v\<rparr>) }"

definition meth_error :: handler where
  "meth_error E k inSize inData inReply w = do {
     m \<leftarrow> msg_init inSize inData;
     (mode, m) \<leftarrow> geti 0 m;
     Some (Ret kSCErr_None,
       if mode = -1 then w\<lparr>mLocalErrorNotification := mLocalErrorNotification w + 1\<rparr>
       else if mode = -2 then w\<lparr>mLocalErrorNotification := mLocalErrorNotification w - 1\<rparr>
       else if mode = 0 then w\<lparr>mErrorNotification := 0\<rparr>
       else if mode = 1 then w\<lparr>mErrorNotification := 1\<rparr>
       else w) }"

section \<open>Commands of units and plug-ins\<close>

text \<open>
  The commands that a unit's definition and the plug-ins have: what one does with the rest of the
  message.
\<close>

record plugin_cmds =
  unit_cmd :: "ptr \<Rightarrow> nat \<Rightarrow> i32 list \<Rightarrow> (sc_msg_iter \<Rightarrow> World \<Rightarrow> World option) option"
  plugin_cmd :: "i32 list \<Rightarrow> (nat \<Rightarrow> sc_msg_iter \<Rightarrow> World \<Rightarrow> World option) option"

definition Unit_DoCmd :: "plugin_cmds \<Rightarrow> nat \<Rightarrow> u8 list \<Rightarrow> World \<Rightarrow> (SCErr \<times> World) option" where
  "Unit_DoCmd P inSize inData w = do {
     m \<leftarrow> msg_init inSize inData;
     (nodeID, m) \<leftarrow> geti 0 m;
     graph \<leftarrow> World_GetGraph nodeID w;
     (case graph of None \<Rightarrow> Some (kSCErr_NodeNotFound, w)
      | Some p \<Rightarrow> do {
          n \<leftarrow> deref w p;
          (unitID, m) \<leftarrow> geti 0 m;
          if gNumUnits n \<le> unat unitID then Some (kSCErr_IndexOutOfRange, w)
          else do {
            (cmdName, m) \<leftarrow> gets4 None m;
            (case cmdName of None \<Rightarrow> Some (kSCErr_Failed, w)
             | Some pos \<Rightarrow>
                 (case unit_cmd P p (unat unitID) (words_at (mdata m) pos) of None \<Rightarrow> Some (kSCErr_Failed, w)
                  | Some f \<Rightarrow> do { w \<leftarrow> f m w; Some (kSCErr_None, w) })) } }) }"

definition PlugIn_DoCmd :: "plugin_cmds \<Rightarrow> nat \<Rightarrow> u8 list \<Rightarrow> nat \<Rightarrow> World \<Rightarrow> (SCErr \<times> World) option" where
  "PlugIn_DoCmd P inSize inData inReply w = do {
     m \<leftarrow> msg_init inSize inData;
     (cmdName, m) \<leftarrow> gets4 None m;
     (case cmdName of None \<Rightarrow> Some (kSCErr_Failed, w)
      | Some pos \<Rightarrow>
          (case plugin_cmd P (words_at (mdata m) pos) of None \<Rightarrow> Some (kSCErr_Failed, w)
           | Some f \<Rightarrow> do { w \<leftarrow> f inReply m w; Some (kSCErr_None, w) })) }"

definition meth_u_cmd :: "plugin_cmds \<Rightarrow> handler" where
  "meth_u_cmd P E k inSize inData inReply w = do {
     (err, w) \<leftarrow> Unit_DoCmd P inSize inData w; Some (Ret err, w) }"

definition meth_cmd :: "plugin_cmds \<Rightarrow> handler" where
  "meth_cmd P E k inSize inData inReply w = do {
     (err, w) \<leftarrow> PlugIn_DoCmd P inSize inData inReply w; Some (Ret err, w) }"

section \<open>Writing samples\<close>

definition sc_clip :: "i32 \<Rightarrow> i32 \<Rightarrow> i32 \<Rightarrow> i32" where
  "sc_clip x lo hi =
     (let y = (if sint hi < sint x then hi else x)
      in if sint y < sint lo then lo else y)"

text \<open>The buffer a message begins with.\<close>

definition on_buffer :: "(i32 \<Rightarrow> SndBuf \<Rightarrow> sc_msg_iter \<Rightarrow> World \<Rightarrow> (cmd_result \<times> World) option) \<Rightarrow> nat \<Rightarrow> u8 list \<Rightarrow> World
    \<Rightarrow> (cmd_result \<times> World) option" where
  "on_buffer f inSize inData w = do {
     m \<leftarrow> msg_init inSize inData;
     (bufindex, m) \<leftarrow> geti 0 m;
     b \<leftarrow> get_rt bufindex w;
     f bufindex b m w }"

definition meth_b_set :: handler where
  "meth_b_set E k inSize inData inReply w =
     on_buffer (\<lambda>bufindex b. loop_from k (at_least 8) (\<lambda>m w. do {
       (sampleIndex, m) \<leftarrow> geti 0 m;
       (value, m) \<leftarrow> getf 0 m;
       if sampleIndex < sbSamples b then next_round m (put_samples (sbData b) (uint sampleIndex) [value] w)
       else leave kSCErr_IndexOutOfRange m w })) inSize inData w"

text \<open>Values from \<open>i\<close> to \<open>fin\<close>, as many as there are in the message, each written with \<open>put\<close>.\<close>

fun put_values :: "nat \<Rightarrow> (int \<Rightarrow> f32 \<Rightarrow> World \<Rightarrow> World option) \<Rightarrow> int \<Rightarrow> int \<Rightarrow> sc_msg_iter \<Rightarrow> World \<Rightarrow> (sc_msg_iter \<times> World) option" where
  "put_values 0 put i fin m w = None"
| "put_values (Suc f) put i fin m w =
     (if remain m \<noteq> 0 \<and> i \<le> fin then do {
        (value, m) \<leftarrow> getf 0 m;
        w \<leftarrow> put i value w;
        put_values f put (i + 1) fin m w }
      else Some (m, w))"

definition meth_b_setn :: handler where
  "meth_b_setn E k inSize inData inReply w =
     on_buffer (\<lambda>bufindex b. loop_from k args_left (\<lambda>m w. do {
       let numSamples = sbSamples b;
       (start, m) \<leftarrow> geti 0 m;
       (n, m) \<leftarrow> geti 0 m;
       let fin = start + n - 1;
       if sint fin < 0 \<or> sint numSamples \<le> sint start then Some (None, m, w)
       else do {
         let start = sc_clip start 0 (numSamples - 1);
         let fin = sc_clip fin 0 (numSamples - 1);
         (m, w) \<leftarrow> put_values k (\<lambda>i v. put_samples (sbData b) i [v]) (sint start) (sint fin) m w;
         Some (None, m, w) } })) inSize inData w"

fun fill_range :: "(int \<Rightarrow> World \<Rightarrow> World option) \<Rightarrow> int list \<Rightarrow> World \<Rightarrow> World option" where
  "fill_range put [] w = Some w"
| "fill_range put (i # is) w = do { w \<leftarrow> put i w; fill_range put is w }"

definition meth_b_fill :: handler where
  "meth_b_fill E k inSize inData inReply w =
     on_buffer (\<lambda>bufindex b. loop_from k (at_least 12) (\<lambda>m w. do {
       let numSamples = sbSamples b;
       (start, m) \<leftarrow> geti 0 m;
       (n, m) \<leftarrow> geti 0 m;
       (value, m) \<leftarrow> getf 0 m;
       let fin = start + n - 1;
       if sint fin < 0 \<or> sint numSamples \<le> sint start then Some (None, m, w)
       else do {
         let start = sc_clip start 0 (numSamples - 1);
         let fin = sc_clip fin 0 (numSamples - 1);
         next_round m (fill_range (\<lambda>i. put_samples (sbData b) i [value]) [sint start..sint fin] w) } })) inSize inData w"

text \<open>A control bus, and the block in which it was written last.\<close>

definition put_bus :: "int \<Rightarrow> f32 \<Rightarrow> World \<Rightarrow> World option" where
  "put_bus i value w =
     (if i < 0 then None
      else do {
        data \<leftarrow> awrite (mControlBus w) (nat i) value;
        touched \<leftarrow> awrite (mControlBusTouched w) (nat i) (mBufCounter w);
        Some (w\<lparr>mControlBus := data, mControlBusTouched := touched\<rparr>) })"

definition meth_c_set :: handler where
  "meth_c_set E k inSize inData inReply w =
     on_nodes (at_least 8) (\<lambda>m w. do {
       (index, m) \<leftarrow> geti 0 m;
       (value, m) \<leftarrow> getf 0 m;
       if index < mNumControlBusChannels w then next_round m (put_bus (uint index) value w)
       else leave kSCErr_IndexOutOfRange m w }) k inSize inData w"

definition meth_c_setn :: handler where
  "meth_c_setn E k inSize inData inReply w =
     on_nodes args_left (\<lambda>m w. do {
       (start, m) \<leftarrow> geti 0 m;
       (n, m) \<leftarrow> geti 0 m;
       let fin = start + n - 1;
       if sint start < 0 \<or> sint (mNumControlBusChannels w) \<le> sint fin \<or> sint fin < sint start
       then leave kSCErr_IndexOutOfRange m w
       else do {
         (m, w) \<leftarrow> put_values k put_bus (sint start) (sint fin) m w;
         Some (None, m, w) } }) k inSize inData w"

definition meth_c_fill :: handler where
  "meth_c_fill E k inSize inData inReply w =
     on_nodes (at_least 12) (\<lambda>m w. do {
       let maxIndex = mNumControlBusChannels w;
       (start, m) \<leftarrow> geti 0 m;
       (n, m) \<leftarrow> geti 0 m;
       (value, m) \<leftarrow> getf 0 m;
       let fin = start + n - 1;
       if sint fin < 0 \<or> sint maxIndex \<le> sint start then Some (None, m, w)
       else do {
         let start = sc_clip start 0 (maxIndex - 1);
         let fin = sc_clip fin 0 (maxIndex - 1);
         next_round m (fill_range (\<lambda>i. put_bus i value) [sint start..sint fin] w) } }) k inSize inData w"

section \<open>Answering with a packet\<close>

text \<open>
  \<open>maketags\<close> at an \<open>int\<close> that need not be positive: a negative size moves the write position back.
\<close>

definition maketags_int :: "i32 \<Rightarrow> scpacket \<Rightarrow> scpacket option" where
  "maketags_int n p =
     (let size4 = sint (n + 4) div 4;
          p = p\<lparr>tagwrpos := 4 * wrpos p\<rparr>
      in if 0 \<le> size4 then clear_word 0 (skip (nat size4) p)
         else if int (wrpos p) + size4 < 0 then None
         else clear_word 0 (p\<lparr>wrpos := nat (int (wrpos p) + size4)\<rparr>))"

definition start_packet :: "scpacket \<Rightarrow> string \<Rightarrow> i32 \<Rightarrow> scpacket option" where
  "start_packet packet path n = do {
     packet \<leftarrow> adds (cstr path) packet;
     packet \<leftarrow> maketags_int n packet;
     addtag 44 packet }"

definition send_packet :: "env \<Rightarrow> nat \<Rightarrow> scpacket \<Rightarrow> World \<Rightarrow> (cmd_result option \<times> World) option" where
  "send_packet E inReply packet w =
     (if packet_size packet \<noteq> 0 then do {
        (r, w) \<leftarrow> CallSequencedCommand E SendReplyCmd (packet_size packet) (packet_data packet) inReply w;
        Some (if r = Thrown then Some Thrown else None, w) }
      else Some (None, w))"

text \<open>The packet is sent when the loop that fills it ends, not when an error leaves the function.\<close>

definition answer :: "env \<Rightarrow> nat \<Rightarrow> (cmd_result option \<times> scpacket \<times> sc_msg_iter \<times> World) option \<Rightarrow> (cmd_result \<times> World) option" where
  "answer E inReply filled = do {
     (r, packet, m, w) \<leftarrow> filled;
     (case r of Some e \<Rightarrow> Some (e, w)
      | None \<Rightarrow> do { (r, w) \<leftarrow> send_packet E inReply packet w; Some (returned r, w) }) }"

text \<open>The arguments left, in words and in pairs of words.\<close>

definition heads_left :: "int \<Rightarrow> sc_msg_iter \<Rightarrow> i32" where
  "heads_left bytes m = of_int (remain m div bytes)"

definition meth_g_queryTree :: handler where
  "meth_g_queryTree E k inSize inData inReply w =
     on_nodes args_left (with_group (\<lambda>p m w. do {
       packet \<leftarrow> adds (cstr ''/g_queryTree.reply'') big_scpacket;
       (flag, m) \<leftarrow> geti 0 m;
       packet \<leftarrow> g_queryTree_packet k (flag \<noteq> 0) p w packet;
       (r, w) \<leftarrow> send_packet E inReply packet w;
       Some (r, m, w) })) k inSize inData w"

definition meth_b_query :: handler where
  "meth_b_query E k inSize inData inReply w = do {
     m \<leftarrow> msg_init inSize inData;
     packet \<leftarrow> start_packet small_scpacket ''/b_info'' (heads_left 4 m * 4 + 1);
     answer E inReply (while_msg k args_left (\<lambda>packet m w. do {
       (bufindex, m) \<leftarrow> geti 0 m;
       b \<leftarrow> get_rt bufindex w;
       packet \<leftarrow> addtags [tag_i, tag_i, tag_i, tag_f] packet;
       packet \<leftarrow> addi bufindex packet;
       packet \<leftarrow> addi (sbFrames b) packet;
       packet \<leftarrow> addi (sbChannels b) packet;
       packet \<leftarrow> addf (f32_of_f64 (sbSamplerate b)) packet;
       Some (None, packet, m, w) }) packet m w) }"

text \<open>One indexed value.\<close>

definition add_indexed :: "i32 \<Rightarrow> f32 \<Rightarrow> scpacket \<Rightarrow> scpacket option" where
  "add_indexed index v packet = do {
     packet \<leftarrow> addtags [tag_i, tag_f] packet;
     packet \<leftarrow> addi index packet;
     addf v packet }"

definition get_loop :: "nat \<Rightarrow> u32 \<Rightarrow> (int \<Rightarrow> World \<Rightarrow> f32 option) \<Rightarrow> scpacket \<Rightarrow> sc_msg_iter \<Rightarrow> World
    \<Rightarrow> (cmd_result option \<times> scpacket \<times> sc_msg_iter \<times> World) option" where
  "get_loop k maxIndex read = while_msg k (at_least 4) (\<lambda>packet m w. do {
     (index, m) \<leftarrow> geti 0 m;
     if maxIndex \<le> index then Some (Some (Ret kSCErr_IndexOutOfRange), packet, m, w)
     else do {
       v \<leftarrow> read (uint index) w;
       packet \<leftarrow> add_indexed index v packet;
       Some (None, packet, m, w) } })"

definition bus_value :: "int \<Rightarrow> World \<Rightarrow> f32 option" where
  "bus_value i w = (if i < 0 then None else aread (mControlBus w) (nat i))"

definition buf_value :: "SndBuf \<Rightarrow> int \<Rightarrow> World \<Rightarrow> f32 option" where
  "buf_value b i w = do { xs \<leftarrow> get_samples (sbData b) i 1 w; Some (hd xs) }"

definition meth_c_get :: handler where
  "meth_c_get E k inSize inData inReply w = do {
     m \<leftarrow> msg_init inSize inData;
     packet \<leftarrow> start_packet big_scpacket ''/c_set'' (heads_left 4 m * 2 + 1);
     answer E inReply (get_loop k (mNumControlBusChannels w) bus_value packet m w) }"

definition meth_b_get :: handler where
  "meth_b_get E k inSize inData inReply w =
     on_buffer (\<lambda>bufindex b m w. do {
       packet \<leftarrow> start_packet big_scpacket ''/b_set'' (heads_left 4 m * 2 + 2);
       packet \<leftarrow> addtag tag_i packet;
       packet \<leftarrow> addi bufindex packet;
       answer E inReply (get_loop k (sbSamples b) (buf_value b) packet m w) }) inSize inData w"

text \<open>The sum of the lengths that are asked for, from a first pass over the message.\<close>

fun count_values :: "nat \<Rightarrow> i32 \<Rightarrow> sc_msg_iter \<Rightarrow> (i32 \<times> sc_msg_iter) option" where
  "count_values 0 numcontrols m = None"
| "count_values (Suc k) numcontrols m =
     (if remain m \<noteq> 0 then do {
        (_, m) \<leftarrow> geti 0 m;
        (n, m) \<leftarrow> geti 0 m;
        count_values k (numcontrols + n) m }
      else Some (numcontrols, m))"

fun add_range :: "(int \<Rightarrow> World \<Rightarrow> f32 option) \<Rightarrow> World \<Rightarrow> int list \<Rightarrow> scpacket \<Rightarrow> scpacket option" where
  "add_range read w [] packet = Some packet"
| "add_range read w (i # is) packet = do {
     v \<leftarrow> read i w;
     packet \<leftarrow> addtag tag_f packet;
     packet \<leftarrow> addf v packet;
     add_range read w is packet }"

definition getn_loop :: "nat \<Rightarrow> i32 \<Rightarrow> (int \<Rightarrow> World \<Rightarrow> f32 option) \<Rightarrow> scpacket \<Rightarrow> sc_msg_iter \<Rightarrow> World
    \<Rightarrow> (cmd_result option \<times> scpacket \<times> sc_msg_iter \<times> World) option" where
  "getn_loop k maxIndex read = while_msg k args_left (\<lambda>packet m w. do {
     (start, m) \<leftarrow> geti 0 m;
     (n, m) \<leftarrow> geti 0 m;
     let fin = start + n - 1;
     if sint start < 0 \<or> sint maxIndex \<le> sint fin \<or> sint fin < sint start
     then Some (Some (Ret kSCErr_IndexOutOfRange), packet, m, w)
     else do {
       packet \<leftarrow> addtags [tag_i, tag_i] packet;
       packet \<leftarrow> addi start packet;
       packet \<leftarrow> addi n packet;
       packet \<leftarrow> add_range read w [sint start..sint fin] packet;
       Some (None, packet, m, w) } })"

definition meth_c_getn :: handler where
  "meth_c_getn E k inSize inData inReply w = do {
     m \<leftarrow> msg_init inSize inData;
     let numheads = heads_left 8 m;
     (numcontrols, m) \<leftarrow> count_values k 0 m;
     packet \<leftarrow> start_packet big_scpacket ''/c_setn'' (numheads * 2 + numcontrols + 1);
     m \<leftarrow> msg_init inSize (mdata m);
     answer E inReply (getn_loop k (mNumControlBusChannels w) bus_value packet m w) }"

definition meth_b_getn :: handler where
  "meth_b_getn E k inSize inData inReply w =
     on_buffer (\<lambda>bufindex b m w. do {
       let numheads = heads_left 8 m;
       (numcontrols, m) \<leftarrow> count_values k 0 m;
       packet \<leftarrow> start_packet big_scpacket ''/b_setn'' (numheads * 2 + numcontrols + 2);
       m \<leftarrow> msg_init inSize (mdata m);
       (_, m) \<leftarrow> geti 0 m;
       packet \<leftarrow> addtag tag_i packet;
       packet \<leftarrow> addi bufindex packet;
       answer E inReply (getn_loop k (sbSamples b) (buf_value b) packet m w) }) inSize inData w"

section \<open>Queries of a synth\<close>

text \<open>The number of arguments by the tags when there are any; \<open>strlen\<close> is unsigned.\<close>

definition tags_left :: "nat \<Rightarrow> int \<Rightarrow> sc_msg_iter \<Rightarrow> i32 option" where
  "tags_left sh bytes m =
     (case tags m of
        Some t \<Rightarrow> do { n \<leftarrow> cstrlen (drop t (mdata m)); Some (ucast (drop_bit sh (of_nat n - 1 :: u64))) }
      | None \<Rightarrow> Some (heads_left bytes m))"

text \<open>A control's value, zero when there is no such control.\<close>

definition control_at :: "ptr \<Rightarrow> control_address \<Rightarrow> i32 \<Rightarrow> World \<Rightarrow> f32 option" where
  "control_at p a i w = do {
     (err, v) \<leftarrow> (case a of By_index ix \<Rightarrow> Graph_GetControl p (ix + i) w
       | By_name h nm \<Rightarrow> Graph_GetControl_named p h nm i w);
     Some (case v of Some v \<Rightarrow> v | None \<Rightarrow> 0) }"

definition address_tag :: "control_address \<Rightarrow> u8" where
  "address_tag a = (case a of By_index _ \<Rightarrow> tag_i | By_name _ _ \<Rightarrow> tag_s)"

definition add_address :: "control_address \<Rightarrow> scpacket \<Rightarrow> scpacket option" where
  "add_address a packet = (case a of By_index ix \<Rightarrow> addi ix packet | By_name h nm \<Rightarrow> adds (word_chars nm) packet)"

definition on_graph :: "(ptr \<Rightarrow> i32 \<Rightarrow> sc_msg_iter \<Rightarrow> (cmd_result \<times> World) option) \<Rightarrow> nat \<Rightarrow> u8 list \<Rightarrow> World
    \<Rightarrow> (cmd_result \<times> World) option" where
  "on_graph f inSize inData w = do {
     m \<leftarrow> msg_init inSize inData;
     (graph, m) \<leftarrow> Msg_GetGraph w m;
     (case graph of None \<Rightarrow> Some (Ret kSCErr_NodeNotFound, w)
      | Some p \<Rightarrow> do { n \<leftarrow> deref w p; f p (mID n) m }) }"

definition meth_s_get :: handler where
  "meth_s_get E k inSize inData inReply w =
     on_graph (\<lambda>p ident m. do {
       numheads \<leftarrow> tags_left 0 4 m;
       packet \<leftarrow> start_packet big_scpacket ''/n_set'' (numheads * 2 + 2);
       packet \<leftarrow> addtag tag_i packet;
       packet \<leftarrow> addi ident packet;
       answer E inReply (while_msg k (at_least 4) (\<lambda>packet m w. do {
         (a, m) \<leftarrow> read_address m;
         v \<leftarrow> control_at p a 0 w;
         packet \<leftarrow> addtags [address_tag a, tag_f] packet;
         packet \<leftarrow> add_address a packet;
         packet \<leftarrow> addf v packet;
         Some (None, packet, m, w) }) packet m w) }) inSize inData w"

text \<open>\<open>s_getn\<close> starts over behind the first argument, which it takes for one integer.\<close>

definition meth_s_getn :: handler where
  "meth_s_getn E k inSize inData inReply w =
     on_graph (\<lambda>p ident m. do {
       numheads \<leftarrow> tags_left 1 8 m;
       (numcontrols, m) \<leftarrow> count_values k 0 m;
       packet \<leftarrow> start_packet big_scpacket ''/n_setn'' (numheads * 2 + numcontrols + 2);
       m \<leftarrow> msg_init inSize (mdata m);
       (_, m) \<leftarrow> geti 0 m;
       packet \<leftarrow> addtag tag_i packet;
       packet \<leftarrow> addi ident packet;
       answer E inReply (while_msg k args_left (\<lambda>packet m w. do {
         (a, m) \<leftarrow> read_address m;
         (n, m) \<leftarrow> geti 0 m;
         packet \<leftarrow> addtags [address_tag a, tag_i] packet;
         packet \<leftarrow> add_address a packet;
         packet \<leftarrow> addi n packet;
         packet \<leftarrow> add_range (\<lambda>i. control_at p a (of_int i)) w [0..sint n - 1] packet;
         Some (None, packet, m, w) }) packet m w) }) inSize inData w"

end
