(* ===== verification/SC_PriorityQueue.thy ===== *)
theory SC_PriorityQueue
  imports SC_Prelude "HOL-Library.Multiset"
begin

text \<open>
  \<open>include/server/PriorityQueue.h\<close>: the heap of scheduled events in an array, ordered by their times,
  signed 64-bit numbers. The array's length is the template's \<open>N\<close>. Removing from an empty queue reads
  before the array: \<open>None\<close>.

  Two interfaces sum the queue up: \<open>priority_queue\<close>, a multiset of events from which an earliest one is
  taken, and in it the order in which a loop of removals takes them.
\<close>

section \<open>The queue\<close>

record 'p event =
  evTime :: "64 word"
  evPacket :: 'p

record 'p PriorityQueueT =
  pqSize :: nat
  mEvents :: "'p event list"

definition kMaxInt64 :: "64 word" where
  "kMaxInt64 = 0x7FFFFFFFFFFFFFFF"

definition SetEmptyTime :: "'p PriorityQueueT \<Rightarrow> 'p PriorityQueueT" where
  "SetEmptyTime q = q\<lparr>mEvents := (mEvents q)[0 := (mEvents q ! 0)\<lparr>evTime := kMaxInt64\<rparr>]\<rparr>"

definition PriorityQueue_Empty :: "'p PriorityQueueT \<Rightarrow> 'p PriorityQueueT" where
  "PriorityQueue_Empty q = SetEmptyTime (q\<lparr>pqSize := 0\<rparr>)"

definition NextTime :: "'p PriorityQueueT \<Rightarrow> 64 word" where
  "NextTime q = evTime (mEvents q ! 0)"

definition Ready :: "64 word \<Rightarrow> 'p PriorityQueueT \<Rightarrow> bool" where
  "Ready inTime q \<longleftrightarrow> sint (NextTime q) \<le> sint inTime"

abbreviation pq_parent :: "nat \<Rightarrow> nat" where
  "pq_parent i \<equiv> (i - 1) div 2"

text \<open>Percolating up: \<open>me\<close> is the free place.\<close>

function percolate :: "'p event \<Rightarrow> 'p event list \<Rightarrow> nat \<Rightarrow> 'p event list" where
  "percolate ev es me =
     (if 0 < me \<and> sint (evTime ev) < sint (evTime (es ! pq_parent me))
      then percolate ev (es[me := es ! pq_parent me]) (pq_parent me)
      else es[me := ev])"
  by pat_completeness auto
termination by (relation "measure (\<lambda>(ev, es, me). me)") auto

declare percolate.simps [simp del]

definition PriorityQueue_Add :: "'p event \<Rightarrow> 'p PriorityQueueT \<Rightarrow> bool \<times> 'p PriorityQueueT" where
  "PriorityQueue_Add inEvent q =
     (if length (mEvents q) \<le> pqSize q then (False, q)
      else (True, q\<lparr>pqSize := pqSize q + 1, mEvents := percolate inEvent (mEvents q) (pqSize q)\<rparr>))"

text \<open>Demoting: \<open>mom\<close> is the free place, \<open>me\<close> its first child, \<open>n\<close> the number of events.\<close>

definition smaller_child :: "'p event list \<Rightarrow> nat \<Rightarrow> nat \<Rightarrow> nat" where
  "smaller_child es n me = (if me + 1 < n \<and> sint (evTime (es ! (me + 1))) < sint (evTime (es ! me)) then me + 1 else me)"

function demote :: "'p event \<Rightarrow> 'p event list \<Rightarrow> nat \<Rightarrow> nat \<Rightarrow> nat \<Rightarrow> 'p event list" where
  "demote temp es n mom me =
     (if me < n \<and> sint (evTime (es ! smaller_child es n me)) < sint (evTime temp)
      then demote temp (es[mom := es ! smaller_child es n me]) n (smaller_child es n me) (2 * smaller_child es n me + 1)
      else es[mom := temp])"
  by pat_completeness auto
termination by (relation "measure (\<lambda>(temp, es, n, mom, me). n - me)") (auto simp: smaller_child_def)

declare demote.simps [simp del]

definition PriorityQueue_Remove :: "'p PriorityQueueT \<Rightarrow> ('p event \<times> 'p PriorityQueueT) option" where
  "PriorityQueue_Remove q =
     (if pqSize q = 0 then None
      else (let ev = mEvents q ! 0; n = pqSize q - 1; q = q\<lparr>pqSize := n\<rparr>
            in Some (ev, if n = 0 then SetEmptyTime q
                 else q\<lparr>mEvents := demote (mEvents q ! n) (mEvents q) n 0 1\<rparr>)))"

text \<open>
  \<open>Perform\<close>: what an event does is a function on a state; it may leave nothing behind (\<open>None\<close>). The
  events are taken off one by one.
\<close>

fun PriorityQueue_Perform :: "nat \<Rightarrow> ('p event \<Rightarrow> 's \<Rightarrow> 's option) \<Rightarrow> 64 word \<Rightarrow> 'p PriorityQueueT \<Rightarrow> 's \<Rightarrow> ('p PriorityQueueT \<times> 's) option" where
  "PriorityQueue_Perform 0 perform inTime q s = None"
| "PriorityQueue_Perform (Suc k) perform inTime q s =
     (if sint (NextTime q) \<le> sint inTime then do {
        (ev, q) \<leftarrow> PriorityQueue_Remove q;
        s \<leftarrow> perform ev s;
        PriorityQueue_Perform k perform inTime q s }
      else Some (q, s))"

definition PriorityQueue_Flush :: "nat \<Rightarrow> ('p event \<Rightarrow> 's \<Rightarrow> 's option) \<Rightarrow> 'p PriorityQueueT \<Rightarrow> 's \<Rightarrow> ('p PriorityQueueT \<times> 's) option" where
  "PriorityQueue_Flush k perform q s = PriorityQueue_Perform k perform kMaxInt64 q s"

section \<open>The invariant\<close>

text \<open>
  No event is later than those below it; the queue's events are a multiset. An empty queue shows the
  largest time.
\<close>

abbreviation key :: "'p event list \<Rightarrow> nat \<Rightarrow> int" where
  "key es i \<equiv> sint (evTime (es ! i))"

definition heap_below :: "'p event list \<Rightarrow> nat \<Rightarrow> bool" where
  "heap_below es n \<longleftrightarrow> (\<forall>i. 0 < i \<and> i < n \<longrightarrow> key es (pq_parent i) \<le> key es i)"

definition queue_ok :: "nat \<Rightarrow> 'p PriorityQueueT \<Rightarrow> bool" where
  "queue_ok N q \<longleftrightarrow> length (mEvents q) = N \<and> 0 < N \<and> pqSize q \<le> N \<and> heap_below (mEvents q) (pqSize q)
     \<and> (pqSize q = 0 \<longrightarrow> NextTime q = kMaxInt64)"

definition pending_events :: "'p PriorityQueueT \<Rightarrow> 'p event multiset" where
  "pending_events q = mset (take (pqSize q) (mEvents q))"

text \<open>Moving a value into the free place and freeing its place changes no multiset.\<close>

lemma mset_move:
  assumes "i < n" "j < n" "n \<le> length es"
  shows "mset (take n (es[i := es ! j, j := x])) = mset (take n (es[i := x]))"
proof (cases "i = j")
  case False
  let ?a = "take n (es[i := x])"
  have l: "i < length ?a" "j < length ?a" using assms by auto
  have "take n (es[i := es ! j, j := x]) = ?a[i := ?a ! j, j := ?a ! i]"
    using assms False by (auto simp: take_update_swap nth_list_update intro!: nth_equalityI)
  then show ?thesis using mset_swap [OF l(2,1)] by simp
qed (use assms in simp)

definition hole_up :: "'p event \<Rightarrow> 'p event list \<Rightarrow> nat \<Rightarrow> nat \<Rightarrow> bool" where
  "hole_up ev es n me \<longleftrightarrow> me < n \<and> n \<le> length es
     \<and> (\<forall>i. 0 < i \<and> i < n \<and> i \<noteq> me \<longrightarrow> key (es[me := ev]) (pq_parent i) \<le> key (es[me := ev]) i)
     \<and> (\<forall>i. 0 < i \<and> i < n \<and> pq_parent i = me \<and> 0 < me \<longrightarrow> key es (pq_parent me) \<le> key es i)"

lemma percolate_ok:
  "hole_up ev es n me \<Longrightarrow> heap_below (percolate ev es me) n \<and> length (percolate ev es me) = length es
     \<and> mset (take n (percolate ev es me)) = mset (take n (es[me := ev]))"
proof (induction ev es me rule: percolate.induct)
  case (1 ev es me)
  let ?p = "pq_parent me"
  show ?case
  proof (cases "0 < me \<and> sint (evTime ev) < key es ?p")
    case True
    let ?es = "es[me := es ! ?p]"
    have p: "?p < me" "me < n" "n \<le> length es" using True 1(2) by (auto simp: hole_up_def)
    have v: "(?es[?p := ev]) ! i = (if i = ?p then ev else if i = me then es ! ?p else es ! i)" if "i < n" for i
      using that p by (auto simp: nth_list_update)
    have old: "key (es[me := ev]) (pq_parent i) \<le> key (es[me := ev]) i" if "0 < i" "i < n" "i \<noteq> me" for i
      using 1(2) that by (auto simp: hole_up_def)
    have w: "(es[me := ev]) ! i = (if i = me then ev else es ! i)" if "i < n" for i using that p by (auto simp: nth_list_update)
    have below: "key es ?p \<le> key es i" if "0 < i" "i < n" "pq_parent i = me" for i
      using 1(2) that True by (auto simp: hole_up_def)
    have plain: "key es (pq_parent i) \<le> key es i" if "0 < i" "i < n" "i \<noteq> me" "pq_parent i \<noteq> me" for i
      using old [OF that(1-3)] w [of i] w [of "pq_parent i"] that p by simp
    have "hole_up ev ?es n ?p"
      unfolding hole_up_def
    proof (intro conjI allI impI)
      fix i assume i: "0 < i \<and> i < n \<and> i \<noteq> ?p"
      show "key (?es[?p := ev]) (pq_parent i) \<le> key (?es[?p := ev]) i"
      proof -
        have i': "0 < i" "i < n" "i \<noteq> ?p" "pq_parent i < n" using i by auto
        consider "i = me" | "pq_parent i = me" "i \<noteq> me" | "pq_parent i = ?p" "i \<noteq> me" | "pq_parent i \<noteq> me" "pq_parent i \<noteq> ?p" "i \<noteq> me" by blast
        then show ?thesis
        proof cases
          case 2
          then show ?thesis unfolding v [OF i'(2)] v [OF i'(4)] using below [OF i'(1,2)] i' p by simp
        next
          case 3
          then show ?thesis unfolding v [OF i'(2)] v [OF i'(4)] using plain [OF i'(1,2)] i' p True by simp
        qed (unfold v [OF i'(2)] v [OF i'(4)], use plain [OF i'(1,2)] i' p True in simp_all)
      qed
    next
      fix i assume i: "0 < i \<and> i < n \<and> pq_parent i = ?p \<and> 0 < ?p"
      have q: "pq_parent ?p < ?p" "0 < ?p" "?p < n" "?p \<noteq> me" "pq_parent ?p \<noteq> me" using i p by linarith+
      have pp: "key es (pq_parent ?p) \<le> key es ?p" using plain [OF q(2,3,4,5)] .
      have ip: "key es ?p \<le> key es i" if "i \<noteq> me" using plain [of i] that i p(1) by simp
      have e: "?es ! pq_parent ?p = es ! pq_parent ?p" "?es ! i = (if i = me then es ! ?p else es ! i)"
        using q(5) p by simp_all
      show "key ?es (pq_parent ?p) \<le> key ?es i"
        unfolding e using pp ip by (cases "i = me") simp_all
    qed (use p in auto)
    from 1(1) [OF True this] show ?thesis
      using True mset_move [of me n ?p es ev] p by (simp add: percolate.simps [of ev es me])
  next
    case False
    have "heap_below (es[me := ev]) n"
      unfolding heap_below_def
    proof (intro allI impI)
      fix i assume i: "0 < i \<and> i < n"
      show "key (es[me := ev]) (pq_parent i) \<le> key (es[me := ev]) i"
      proof (cases "i = me")
        case True
        then show ?thesis using False i 1(2) by (auto simp: hole_up_def nth_list_update)
      qed (use 1(2) i in \<open>auto simp: hole_up_def\<close>)
    qed
    moreover have "percolate ev es me = es[me := ev]" by (simp only: percolate.simps [of ev es me] False if_False)
    ultimately show ?thesis by simp
  qed
qed

definition hole_down :: "'p event \<Rightarrow> 'p event list \<Rightarrow> nat \<Rightarrow> nat \<Rightarrow> bool" where
  "hole_down temp es n mom \<longleftrightarrow> mom < n \<and> n \<le> length es
     \<and> (\<forall>i. 0 < i \<and> i < n \<and> pq_parent i \<noteq> mom \<longrightarrow> key (es[mom := temp]) (pq_parent i) \<le> key (es[mom := temp]) i)
     \<and> (\<forall>i. 0 < i \<and> i < n \<and> pq_parent i = mom \<and> 0 < mom \<longrightarrow> key es (pq_parent mom) \<le> key es i)"

lemma smaller_child_least:
  assumes "0 < i" "i < n" "pq_parent i = mom"
  shows "key es (smaller_child es n (2 * mom + 1)) \<le> key es i"
proof -
  have "i = 2 * mom + 1 \<or> i = 2 * mom + 2" using assms(1,3) by linarith
  then show ?thesis using assms(2) by (auto simp: smaller_child_def)
qed

lemma smaller_child_place:
  "2 * mom + 1 < n \<Longrightarrow> smaller_child es n (2 * mom + 1) < n \<and> pq_parent (smaller_child es n (2 * mom + 1)) = mom
     \<and> mom < smaller_child es n (2 * mom + 1)"
  by (auto simp: smaller_child_def)

lemma demote_step:
  assumes h: "hole_down temp es n mom" and c: "c < n" "pq_parent c = mom" "mom < c"
    and least: "\<And>i. 0 < i \<Longrightarrow> i < n \<Longrightarrow> pq_parent i = mom \<Longrightarrow> key es c \<le> key es i"
    and t: "key es c < sint (evTime temp)"
  shows "hole_down temp (es[mom := es ! c]) n c"
proof -
  let ?v = "(es[mom := es ! c])[c := temp]"
  have l: "mom < n" "n \<le> length es" using h by (auto simp: hole_down_def)
  have v: "?v ! i = (if i = c then temp else if i = mom then es ! c else es ! i)" if "i < n" for i
    using that c l by (auto simp: nth_list_update)
  have w: "(es[mom := temp]) ! i = (if i = mom then temp else es ! i)" if "i < n" for i
    using that l by (auto simp: nth_list_update)
  have plain: "key es (pq_parent i) \<le> key es i" if "0 < i" "i < n" "pq_parent i \<noteq> mom" "i \<noteq> mom" for i
  proof -
    have "pq_parent i < n" using that by linarith
    then show ?thesis using h that w [of i] w [of "pq_parent i"] unfolding hole_down_def by metis
  qed
  have up: "key es (pq_parent mom) \<le> key es c" if "0 < mom" using h that c by (auto simp: hole_down_def)
  have e: "(es[mom := es ! c]) ! i = (if i = mom then es ! c else es ! i)" if "i < n" for i
    using that l by (auto simp: nth_list_update)
  show ?thesis
    unfolding hole_down_def
  proof (intro conjI allI impI)
    fix i assume i: "0 < i \<and> i < n \<and> pq_parent i \<noteq> c"
    then have i': "0 < i" "i < n" "pq_parent i \<noteq> c" "pq_parent i < n" by auto
    consider "i = c" | "i \<noteq> c" "pq_parent i = mom" | "i = mom" "i \<noteq> c" | "i \<noteq> c" "i \<noteq> mom" "pq_parent i \<noteq> mom" by blast
    then show "key ?v (pq_parent i) \<le> key ?v i"
    proof cases
      case 1
      then show ?thesis unfolding v [OF i'(2)] v [OF i'(4)] using t c by simp
    next
      case 2
      moreover have "i \<noteq> mom" using 2 i' by linarith
      ultimately show ?thesis unfolding v [OF i'(2)] v [OF i'(4)] using least [OF i'(1,2)] c by simp
    next
      case 3
      moreover have "pq_parent mom \<noteq> mom" using 3 i' by linarith
      ultimately show ?thesis unfolding v [OF i'(2)] v [OF i'(4)] using up i' by simp
    next
      case 4
      then show ?thesis unfolding v [OF i'(2)] v [OF i'(4)] using plain [OF i'(1,2)] i' by simp
    qed
  next
    fix i assume i: "0 < i \<and> i < n \<and> pq_parent i = c \<and> 0 < c"
    have "i \<noteq> mom" using i c by linarith
    then show "key (es[mom := es ! c]) (pq_parent c) \<le> key (es[mom := es ! c]) i"
      using plain [of i] i c e [of i] e [of mom] l by simp
  qed (use c l in auto)
qed

lemma demote_ok:
  "hole_down temp es n mom \<Longrightarrow> me = 2 * mom + 1 \<Longrightarrow> heap_below (demote temp es n mom me) n
     \<and> length (demote temp es n mom me) = length es
     \<and> mset (take n (demote temp es n mom me)) = mset (take n (es[mom := temp]))"
proof (induction temp es n mom me rule: demote.induct)
  case (1 temp es n mom me)
  let ?c = "smaller_child es n me"
  have l: "mom < n" "n \<le> length es" using 1(2) by (auto simp: hole_down_def)
  show ?case
  proof (cases "me < n \<and> key es ?c < sint (evTime temp)")
    case True
    have c: "?c < n" "pq_parent ?c = mom" "mom < ?c" using smaller_child_place [of mom n es] True unfolding 1(3) by blast+
    have "hole_down temp (es[mom := es ! ?c]) n ?c"
      by (rule demote_step [OF 1(2) c]) (use smaller_child_least [of _ n mom es] True 1(3) in auto)
    from 1(1) [OF True this refl] show ?thesis
      using True mset_move [OF l(1) c(1) l(2)] by (simp add: demote.simps [of temp es n mom me])
  next
    case False
    have "heap_below (es[mom := temp]) n"
      unfolding heap_below_def
    proof (intro allI impI)
      fix i assume i: "0 < i \<and> i < n"
      show "key (es[mom := temp]) (pq_parent i) \<le> key (es[mom := temp]) i"
      proof (cases "pq_parent i = mom")
        case True
        then have "2 * mom + 1 \<le> i" using i by linarith
        moreover have "key es ?c \<le> key es i" using smaller_child_least [of i n mom es] i True 1(3) by simp
        ultimately show ?thesis using False True i l 1(3) by (simp add: nth_list_update)
      qed (use 1(2) i in \<open>auto simp: hole_down_def\<close>)
    qed
    moreover have "demote temp es n mom me = es[mom := temp]" by (simp only: demote.simps [of temp es n mom me] False if_False)
    ultimately show ?thesis by simp
  qed
qed

section \<open>Adding and removing\<close>

lemma queue_okD:
  "queue_ok N q \<Longrightarrow> length (mEvents q) = N" "queue_ok N q \<Longrightarrow> 0 < N" "queue_ok N q \<Longrightarrow> pqSize q \<le> N"
  "queue_ok N q \<Longrightarrow> heap_below (mEvents q) (pqSize q)" "queue_ok N q \<Longrightarrow> pqSize q = 0 \<Longrightarrow> NextTime q = kMaxInt64"
  by (simp_all add: queue_ok_def)

lemma Empty_ok: "length (mEvents q) = N \<Longrightarrow> 0 < N \<Longrightarrow> queue_ok N (PriorityQueue_Empty q) \<and> pending_events (PriorityQueue_Empty q) = {#}"
  by (auto simp: queue_ok_def PriorityQueue_Empty_def SetEmptyTime_def heap_below_def NextTime_def pending_events_def)

lemma queue_add_full: "queue_ok N q \<Longrightarrow> size (pending_events q) = N \<Longrightarrow> PriorityQueue_Add ev q = (False, q)"
  by (simp add: PriorityQueue_Add_def pending_events_def queue_ok_def min_def split: if_splits)

lemma queue_add_room:
  assumes ok: "queue_ok N q" and room: "size (pending_events q) < N"
  shows "\<exists>q'. PriorityQueue_Add ev q = (True, q') \<and> queue_ok N q' \<and> pending_events q' = add_mset ev (pending_events q)"
proof -
  let ?n = "pqSize q" and ?es = "mEvents q"
  have n: "?n < length ?es" using ok room by (simp add: pending_events_def queue_ok_def min_def split: if_splits)
  have h: "heap_below ?es ?n" using ok by (simp add: queue_ok_def)
  have "hole_up ev ?es (?n + 1) ?n"
    using h n by (auto simp: hole_up_def heap_below_def nth_list_update less_Suc_eq)
  note p = percolate_ok [OF this]
  have "mset (take (?n + 1) (?es[?n := ev])) = add_mset ev (mset (take ?n ?es))"
    using n by (simp add: take_Suc_conv_app_nth)
  then show ?thesis using n p ok by (simp add: PriorityQueue_Add_def queue_ok_def pending_events_def)
qed

lemma heap_least: "heap_below es n \<Longrightarrow> i < n \<Longrightarrow> key es 0 \<le> key es i"
proof (induction i rule: less_induct)
  case (less i)
  show ?case
  proof (cases "i = 0")
    case False
    then have p: "pq_parent i < i" by linarith
    have "key es 0 \<le> key es (pq_parent i)" using less.IH [OF p less.prems(1)] p less.prems(2) by simp
    moreover have "key es (pq_parent i) \<le> key es i" using less.prems False by (simp add: heap_below_def)
    ultimately show ?thesis by simp
  qed simp
qed

lemma Remove_empty: "pending_events q = {#} \<Longrightarrow> queue_ok N q \<Longrightarrow> PriorityQueue_Remove q = None"
  by (auto simp: PriorityQueue_Remove_def pending_events_def queue_ok_def)

lemma NextTime_never: "queue_ok N q \<Longrightarrow> pending_events q = {#} \<Longrightarrow> NextTime q = kMaxInt64"
  by (auto simp: pending_events_def queue_ok_def)

lemma NextTime_least:
  assumes ok: "queue_ok N q" and ev: "ev \<in># pending_events q"
  shows "sint (NextTime q) \<le> sint (evTime ev)"
proof -
  obtain i where "i < pqSize q" "ev = mEvents q ! i"
    using ev ok by (auto simp: pending_events_def in_set_conv_nth queue_ok_def)
  then show ?thesis using heap_least [OF queue_okD(4) [OF ok]] by (simp add: NextTime_def)
qed

lemma take_head_moved:
  "0 < n \<Longrightarrow> n < length es \<Longrightarrow> mset (take (Suc n) es) = add_mset (es ! 0) (mset (take n (es[0 := es ! n])))"
  by (cases es; cases n) (simp_all add: take_Suc_conv_app_nth)

lemma Remove_pending:
  assumes ok: "queue_ok N q" and ne: "pending_events q \<noteq> {#}"
  shows "\<exists>ev q'. PriorityQueue_Remove q = Some (ev, q') \<and> queue_ok N q' \<and> evTime ev = NextTime q
     \<and> pending_events q = add_mset ev (pending_events q')"
proof -
  let ?es = "mEvents q"
  obtain n where n: "pqSize q = Suc n" "n < length ?es" using ok ne by (cases "pqSize q") (auto simp: pending_events_def queue_ok_def)
  have h: "heap_below ?es (Suc n)" using ok n by (simp add: queue_ok_def)
  show ?thesis
  proof (cases "n = 0")
    case True
    have "take 1 ?es = [?es ! 0]" using n(2) by (cases ?es) simp_all
    then show ?thesis using n True ok
      by (auto simp: PriorityQueue_Remove_def SetEmptyTime_def queue_ok_def heap_below_def NextTime_def pending_events_def)
  next
    case False
    have "hole_down (?es ! n) ?es n 0"
      using h n False by (auto simp: hole_down_def heap_below_def nth_list_update)
    note d = demote_ok [OF this, of 1]
    show ?thesis using n False d ok take_head_moved [of n ?es]
      by (simp add: PriorityQueue_Remove_def Let_def queue_ok_def NextTime_def pending_events_def)
  qed
qed

section \<open>The interface\<close>

text \<open>
  What a client of the queue relies on: a bounded multiset of events, of which a removal gives an
  earliest. \<open>soonest\<close> is at most the time of every event, and \<open>never\<close> when there is none.
\<close>

text \<open>Taking off all events that are due at a time.\<close>

fun take_due :: "('q \<Rightarrow> ('e \<times> 'q) option) \<Rightarrow> ('q \<Rightarrow> int) \<Rightarrow> int \<Rightarrow> nat \<Rightarrow> 'q \<Rightarrow> ('e list \<times> 'q) option" where
  "take_due remov soonest t 0 q = None"
| "take_due remov soonest t (Suc k) q =
     (if soonest q \<le> t then do {
        (e, q) \<leftarrow> remov q;
        (es, q) \<leftarrow> take_due remov soonest t k q;
        Some (e # es, q) }
      else Some ([], q))"

locale priority_queue =
  fixes good :: "'q \<Rightarrow> bool" and content :: "'q \<Rightarrow> 'e multiset" and moment :: "'e \<Rightarrow> int"
    and insert_event :: "'e \<Rightarrow> 'q \<Rightarrow> bool \<times> 'q" and remov :: "'q \<Rightarrow> ('e \<times> 'q) option"
    and soonest :: "'q \<Rightarrow> int" and never :: int and room :: nat
  assumes insert_full: "good q \<Longrightarrow> size (content q) = room \<Longrightarrow> insert_event e q = (False, q)"
    and insert_room: "good q \<Longrightarrow> size (content q) < room \<Longrightarrow>
      \<exists>q'. insert_event e q = (True, q') \<and> good q' \<and> content q' = add_mset e (content q)"
    and remov_some: "good q \<Longrightarrow> content q \<noteq> {#} \<Longrightarrow>
      \<exists>e q'. remov q = Some (e, q') \<and> good q' \<and> moment e = soonest q \<and> content q = add_mset e (content q')"
    and soonest_least: "good q \<Longrightarrow> e \<in># content q \<Longrightarrow> soonest q \<le> moment e"
    and soonest_never: "good q \<Longrightarrow> content q = {#} \<Longrightarrow> soonest q = never"
begin

lemma take_due_sorted:
  assumes "t < never"
  shows "good q \<Longrightarrow> size (content q) < k \<Longrightarrow>
    \<exists>es q'. take_due remov soonest t k q = Some (es, q') \<and> good q' \<and> sorted (map moment es)
      \<and> mset es = filter_mset (\<lambda>e. moment e \<le> t) (content q)
      \<and> content q' = filter_mset (\<lambda>e. t < moment e) (content q)"
proof (induction k arbitrary: q)
  case (Suc k)
  show ?case
  proof (cases "soonest q \<le> t")
    case True
    then have "content q \<noteq> {#}" using soonest_never [OF Suc.prems(1)] assms by auto
    from remov_some [OF Suc.prems(1) this] obtain e q1 where r: "remov q = Some (e, q1)" "good q1" "moment e = soonest q"
      "content q = add_mset e (content q1)" by blast
    then obtain es q' where d: "take_due remov soonest t k q1 = Some (es, q')" "good q'" "sorted (map moment es)"
      "mset es = filter_mset (\<lambda>e. moment e \<le> t) (content q1)" "content q' = filter_mset (\<lambda>e. t < moment e) (content q1)"
      using Suc.IH [of q1] Suc.prems(2) by auto
    have "moment e \<le> moment x" if "x \<in> set es" for x
    proof -
      have "x \<in># mset es" using that by simp
      then have "x \<in># content q1" unfolding d(4) by simp
      then show ?thesis using soonest_least [OF Suc.prems(1), of x] r by simp
    qed
    then show ?thesis using True r d by auto
  next
    case False
    then have late: "t < moment e" if "e \<in># content q" for e using soonest_least [OF Suc.prems(1) that] by simp
    have "filter_mset (\<lambda>e. moment e \<le> t) (content q) = {#}" "filter_mset (\<lambda>e. t < moment e) (content q) = content q"
      using filter_mset_cong [of "content q" "content q" "\<lambda>e. moment e \<le> t" "\<lambda>_. False"]
        filter_mset_cong [of "content q" "content q" "\<lambda>e. t < moment e" "\<lambda>_. True"] late by (auto simp: not_le)
    then show ?thesis using False Suc.prems by simp
  qed
qed simp

end

interpretation scheduler: priority_queue "queue_ok N" pending_events "\<lambda>e. sint (evTime e)" PriorityQueue_Add
    PriorityQueue_Remove "\<lambda>q. sint (NextTime q)" "sint kMaxInt64" N for N
proof unfold_locales
  fix q :: "'a PriorityQueueT" and e
  assume ok: "queue_ok N q"
  show "size (pending_events q) = N \<Longrightarrow> PriorityQueue_Add e q = (False, q)" by (rule queue_add_full [OF ok])
  show "size (pending_events q) < N \<Longrightarrow> \<exists>q'. PriorityQueue_Add e q = (True, q') \<and> queue_ok N q' \<and> pending_events q' = add_mset e (pending_events q)"
    by (rule queue_add_room [OF ok])
  show "pending_events q \<noteq> {#} \<Longrightarrow> \<exists>e q'. PriorityQueue_Remove q = Some (e, q') \<and> queue_ok N q' \<and> sint (evTime e) = sint (NextTime q)
      \<and> pending_events q = add_mset e (pending_events q')" using Remove_pending [OF ok] by metis
  show "e \<in># pending_events q \<Longrightarrow> sint (NextTime q) \<le> sint (evTime e)" by (rule NextTime_least [OF ok])
  show "pending_events q = {#} \<Longrightarrow> sint (NextTime q) = sint kMaxInt64" by (simp add: NextTime_never [OF ok])
qed

section \<open>Performing\<close>

fun perform_all :: "('e \<Rightarrow> 's \<Rightarrow> 's option) \<Rightarrow> 'e list \<Rightarrow> 's \<Rightarrow> 's option" where
  "perform_all perform [] s = Some s"
| "perform_all perform (e # es) s = do { s \<leftarrow> perform e s; perform_all perform es s }"

lemma Perform_take_due:
  "PriorityQueue_Perform k perform t q s = do {
     (es, q') \<leftarrow> take_due PriorityQueue_Remove (\<lambda>q. sint (NextTime q)) (sint t) k q;
     s \<leftarrow> perform_all perform es s;
     Some (q', s) }"
proof (induction k arbitrary: q s)
  case (Suc k)
  show ?case
    by (cases "PriorityQueue_Remove q"; cases "take_due PriorityQueue_Remove (\<lambda>q. sint (NextTime q)) (sint t) k (snd (the (PriorityQueue_Remove q)))";
        cases "perform (fst (the (PriorityQueue_Remove q))) s")
      (auto simp: Suc.IH split: option.splits bind_split)
qed simp

text \<open>
  Performing the queue up to a time performs exactly the events that are due, each once and in
  the order of their times, and leaves the others in the queue, which stays well formed.
\<close>

theorem scheduler_performs_in_order:
  assumes "queue_ok N q" and "size (pending_events q) < k" and "sint t < sint kMaxInt64"
  shows "\<exists>es q'. PriorityQueue_Perform k perform t q s = map_option (\<lambda>s'. (q', s')) (perform_all perform es s)
    \<and> sorted (map (\<lambda>e. sint (evTime e)) es) \<and> mset es = filter_mset (\<lambda>e. sint (evTime e) \<le> sint t) (pending_events q)
    \<and> queue_ok N q' \<and> pending_events q' = filter_mset (\<lambda>e. sint t < sint (evTime e)) (pending_events q)"
proof -
  obtain es q' where d: "take_due PriorityQueue_Remove (\<lambda>q. sint (NextTime q)) (sint t) k q = Some (es, q')" "queue_ok N q'"
    "sorted (map (\<lambda>e. sint (evTime e)) es)" "mset es = filter_mset (\<lambda>e. sint (evTime e) \<le> sint t) (pending_events q)"
    "pending_events q' = filter_mset (\<lambda>e. sint t < sint (evTime e)) (pending_events q)"
    using scheduler.take_due_sorted [OF assms(3,1,2)] by blast
  then show ?thesis by (intro exI [of _ es] exI [of _ q']) (auto simp: Perform_take_due split: bind_split)
qed

definition two_events :: "nat PriorityQueueT" where
  "two_events = \<lparr>pqSize = 2, mEvents = [\<lparr>evTime = 5, evPacket = 1\<rparr>, \<lparr>evTime = 7, evPacket = 2\<rparr>]\<rparr>"

lemma two_events_ok: "queue_ok 2 two_events" "pending_events two_events = {#\<lparr>evTime = 5, evPacket = 1\<rparr>, \<lparr>evTime = 7, evPacket = 2\<rparr>#}"
  by (auto simp: queue_ok_def two_events_def heap_below_def pending_events_def less_2_cases_iff)

theorem scheduler_performs_in_order_witness:
  "\<exists>q'. PriorityQueue_Perform 3 (\<lambda>e s. Some (s @ [evPacket e])) 6 two_events [] = Some (q', [1]) \<and> queue_ok 2 q'"
proof -
  obtain es q' where r: "PriorityQueue_Perform 3 (\<lambda>e s. Some (s @ [evPacket e])) 6 two_events []
      = map_option (\<lambda>s'. (q', s')) (perform_all (\<lambda>e s. Some (s @ [evPacket e])) es [])"
    "mset es = filter_mset (\<lambda>e. sint (evTime e) \<le> sint (6 :: 64 word)) (pending_events two_events)" "queue_ok 2 q'"
    using scheduler_performs_in_order [OF two_events_ok(1), of 3 6 "\<lambda>e s. Some (s @ [evPacket e])" "[]"]
    by (auto simp: two_events_ok(2) kMaxInt64_def)
  have "mset es = {#\<lparr>evTime = 5, evPacket = 1\<rparr>#}" using r(2) by (simp add: two_events_ok(2))
  then have "es = [\<lparr>evTime = 5, evPacket = 1\<rparr>]" by simp
  then show ?thesis using r(1,3) by simp
qed

text \<open>
  C27: Adding an event to the queue puts it into the multiset of pending events when there is room and
  is refused otherwise; removing takes out an event with the smallest time, which is the queue's next time.
\<close>

theorem priority_queue_is_multiset:
  assumes "queue_ok N q"
  shows "(case PriorityQueue_Add ev q of (added, q') \<Rightarrow> queue_ok N q' \<and> added = (size (pending_events q) < N)
        \<and> pending_events q' = (if added then add_mset ev (pending_events q) else pending_events q))
    \<and> (case PriorityQueue_Remove q of
         None \<Rightarrow> pending_events q = {#} \<and> NextTime q = kMaxInt64
       | Some (e, q') \<Rightarrow> queue_ok N q' \<and> pending_events q = add_mset e (pending_events q') \<and> evTime e = NextTime q
           \<and> (\<forall>x \<in># pending_events q. sint (evTime e) \<le> sint (evTime x)))"
proof (intro conjI)
  have "size (pending_events q) \<le> N" using assms by (simp add: pending_events_def queue_ok_def)
  then consider "size (pending_events q) = N" | "size (pending_events q) < N" by linarith
  then show "case PriorityQueue_Add ev q of (added, q') \<Rightarrow> queue_ok N q' \<and> added = (size (pending_events q) < N)
        \<and> pending_events q' = (if added then add_mset ev (pending_events q) else pending_events q)"
    by cases (use scheduler.insert_full [OF assms, of ev] scheduler.insert_room [OF assms, of ev] assms in auto)
next
  show "case PriorityQueue_Remove q of
         None \<Rightarrow> pending_events q = {#} \<and> NextTime q = kMaxInt64
       | Some (e, q') \<Rightarrow> queue_ok N q' \<and> pending_events q = add_mset e (pending_events q') \<and> evTime e = NextTime q
           \<and> (\<forall>x \<in># pending_events q. sint (evTime e) \<le> sint (evTime x))"
    using Remove_pending [OF assms] Remove_empty [OF _ assms] scheduler.soonest_least [OF assms] NextTime_never [OF assms]
    by (cases "pending_events q = {#}") auto
qed

theorem priority_queue_is_multiset_witness:
  "case PriorityQueue_Remove two_events of None \<Rightarrow> False | Some (e, q') \<Rightarrow> evTime e = 5 \<and> queue_ok 2 q'"
proof -
  have "NextTime two_events = 5" by (simp add: NextTime_def two_events_def)
  then show ?thesis
    using priority_queue_is_multiset [OF two_events_ok(1)] two_events_ok(2)
    by (cases "PriorityQueue_Remove two_events") (auto split: prod.splits)
qed

section \<open>The order of simultaneous events\<close>

text \<open>
  Bundles with the same time are not performed in the order in which they were sent: of three, the
  scheduler gives out the first, the third, the second.
\<close>

theorem simultaneous_bundles_reordered:
  "(case take_due PriorityQueue_Remove (\<lambda>q. sint (NextTime q)) 5 4
        (fold (\<lambda>n q. snd (PriorityQueue_Add \<lparr>evTime = 5, evPacket = n\<rparr> q)) [1, 2, 3 :: nat]
          (PriorityQueue_Empty \<lparr>pqSize = 0, mEvents = replicate 4 \<lparr>evTime = 0, evPacket = 0\<rparr>\<rparr>)) of
      None \<Rightarrow> [] | Some (es, q) \<Rightarrow> List.map evPacket es) = [1, 3, 2]"
  by (simp add: PriorityQueue_Empty_def SetEmptyTime_def PriorityQueue_Add_def percolate.simps PriorityQueue_Remove_def demote.simps
      smaller_child_def NextTime_def kMaxInt64_def numeral_nat Let_def)

end
