(* ===== verification/SC_Perform.thy ===== *)
theory SC_Perform
  imports SC_BusCmds SC_PriorityQueue
begin

text \<open>
  From a packet to a command: the library of commands (\<open>SC_LibCmd\<close>, \<open>NewCommand\<close> of \<open>server/scsynth/SC_Lib.cpp\<close>,
  \<open>initMiscCommands\<close> of \<open>SC_MiscCmds.cpp\<close>, the numbers of \<open>include/server/SC_Lib_Cintf.h\<close>, the texts of
  \<open>SC_Errors.cpp\<close>), and the performing of messages and bundles, the scheduler and the driver's callback of
  \<open>server/scsynth/SC_CoreAudio.cpp\<close>.

  A message shorter than its own name would give the handler's iterator a negative size; that is outside
  of the model (\<open>None\<close>). The swap of a float argument that reaches beyond the end of its message is not
  carried over into the next message of a bundle.
\<close>

section \<open>The library of commands\<close>

record SC_LibCmd =
  lcName :: "i32 list"
  lcHash :: i32
  lcFunc :: handler

text \<open>The objects, the table of their names, the array of their numbers; an object is its index.\<close>

record cmd_lib =
  libCmds :: "SC_LibCmd list"
  gCmdLib :: "nat HashTable"
  gCmdArray :: "nat option list"

definition lib_kv :: "SC_LibCmd list \<Rightarrow> (nat, i32 list) reader" where
  "lib_kv cs i = (if i < length cs then Some (lcHash (cs ! i), lcName (cs ! i)) else None)"

definition NUMBER_OF_COMMANDS :: nat where "NUMBER_OF_COMMANDS = 64"
definition kSCNameLen :: nat where "kSCNameLen = 8"

text \<open>\<open>SC_NamedObj\<close>: a name of more than \<open>kSCNameLen\<close> words is not taken.\<close>

definition SetName :: "u8 list \<Rightarrow> SC_LibCmd \<Rightarrow> SC_LibCmd option" where
  "SetName inName c = do {
     n \<leftarrow> str4len_cstr inName;
     if kSCNameLen < n then Some c
     else do {
       bs \<leftarrow> str4cpy_bytes inName;
       h \<leftarrow> Hash_str4 (le_words bs);
       Some (c\<lparr>lcName := le_words bs, lcHash := h\<rparr>) } }"

definition SC_LibCmd_new :: "handler \<Rightarrow> SC_LibCmd option" where
  "SC_LibCmd_new inFunc = SetName (cstr ''?'') \<lparr>lcName = [], lcHash = 0, lcFunc = inFunc\<rparr>"

definition add_cmd :: "u8 list \<Rightarrow> handler \<Rightarrow> cmd_lib \<Rightarrow> cmd_lib option" where
  "add_cmd name inFunc lib = do {
     c \<leftarrow> SC_LibCmd_new inFunc;
     c \<leftarrow> SetName name c;
     let cs = libCmds lib @ [c];
     (_, t) \<leftarrow> Add (lib_kv cs) str4eq (gCmdLib lib) (length (libCmds lib));
     Some (lib\<lparr>libCmds := cs, gCmdLib := t\<rparr>) }"

definition NewCommand :: "string \<Rightarrow> nat \<Rightarrow> handler \<Rightarrow> cmd_lib \<Rightarrow> cmd_lib option" where
  "NewCommand inPath inCommandNumber inFunc lib = do {
     let cmd = length (libCmds lib);
     lib \<leftarrow> add_cmd (cstr (CHR ''/'' # inPath)) inFunc lib;
     lib \<leftarrow> add_cmd (cstr inPath) inFunc lib;
     a \<leftarrow> awrite (gCmdArray lib) inCommandNumber (Some cmd);
     Some (lib\<lparr>gCmdArray := a\<rparr>) }"

definition new_lib :: cmd_lib where
  "new_lib = \<lparr>libCmds = [], gCmdLib = HashTable_new 64 True, gCmdArray = replicate NUMBER_OF_COMMANDS None\<rparr>"

definition misc_commands :: "plugin_cmds \<Rightarrow> (string \<times> nat \<times> handler) list" where
  "misc_commands P =
     [(''none'', 0, meth_none), (''notify'', 1, meth_notify), (''status'', 2, meth_status), (''quit'', 3, meth_quit),
      (''clearSched'', 51, meth_clearSched), (''d_recv'', 5, meth_d_recv), (''d_load'', 6, meth_d_load),
      (''d_loadDir'', 7, meth_d_loadDir), (''d_freeAll'', 8, meth_d_freeAll), (''d_free'', 53, meth_d_free),
      (''s_new'', 9, meth_s_new), (''s_newargs'', 59, meth_s_newargs), (''n_trace'', 10, meth_n_trace),
      (''n_free'', 11, meth_n_free), (''n_run'', 12, meth_n_run), (''u_cmd'', 20, meth_u_cmd P), (''cmd'', 4, meth_cmd P),
      (''n_map'', 14, meth_n_map), (''n_mapn'', 48, meth_n_mapn), (''n_mapa'', 60, meth_n_mapa), (''n_mapan'', 61, meth_n_mapan),
      (''n_set'', 15, meth_n_set), (''n_setn'', 16, meth_n_setn), (''n_fill'', 17, meth_n_fill),
      (''n_before'', 18, meth_n_before), (''n_after'', 19, meth_n_after), (''n_order'', 62, meth_n_order),
      (''g_new'', 21, meth_g_new), (''g_head'', 22, meth_g_head), (''g_tail'', 23, meth_g_tail),
      (''g_freeAll'', 24, meth_g_freeAll), (''g_deepFree'', 50, meth_g_deepFree), (''p_new'', 63, meth_p_new),
      (''b_alloc'', 28, meth_b_alloc), (''b_allocRead'', 29, meth_b_allocRead),
      (''b_allocReadChannel'', 54, meth_b_allocReadChannel), (''b_read'', 30, meth_b_read),
      (''b_readChannel'', 55, meth_b_readChannel), (''b_write'', 31, meth_b_write), (''b_free'', 32, meth_b_free),
      (''b_close'', 33, meth_b_close), (''b_zero'', 34, meth_b_zero), (''b_set'', 35, meth_b_set),
      (''b_setn'', 36, meth_b_setn), (''b_fill'', 37, meth_b_fill), (''b_gen'', 38, meth_b_gen),
      (''c_set'', 25, meth_c_set), (''c_setn'', 26, meth_c_setn), (''c_fill'', 27, meth_c_fill),
      (''dumpOSC'', 39, meth_dumpOSC), (''c_get'', 40, meth_c_get), (''c_getn'', 41, meth_c_getn),
      (''b_get'', 42, meth_b_get), (''b_getn'', 43, meth_b_getn), (''s_get'', 44, meth_s_get), (''s_getn'', 45, meth_s_getn),
      (''n_query'', 46, meth_n_query), (''b_query'', 47, meth_b_query), (''s_noid'', 49, meth_s_noid),
      (''sync'', 52, meth_sync), (''g_dumpTree'', 56, meth_g_dumpTree), (''g_queryTree'', 57, meth_g_queryTree),
      (''error'', 58, meth_error)]"

fun new_commands :: "(string \<times> nat \<times> handler) list \<Rightarrow> cmd_lib \<Rightarrow> cmd_lib option" where
  "new_commands [] lib = Some lib"
| "new_commands ((name, n, f) # cs) lib = do { lib \<leftarrow> NewCommand name n f lib; new_commands cs lib }"

definition initMiscCommands :: "plugin_cmds \<Rightarrow> cmd_lib \<Rightarrow> cmd_lib option" where
  "initMiscCommands P lib = new_commands (misc_commands P) lib"

section \<open>Performing a message\<close>

fun SC_ErrorString :: "SCErr \<Rightarrow> string" where
  "SC_ErrorString kSCErr_None = ''none''"
| "SC_ErrorString kSCErr_Failed = ''failed''"
| "SC_ErrorString kSCErr_NodeNotFound = ''Node not found''"
| "SC_ErrorString kSCErr_TargetNodeNotFound = ''target Node not found''"
| "SC_ErrorString kSCErr_GroupNotFound = ''Group not found''"
| "SC_ErrorString kSCErr_SynthDefNotFound = ''SynthDef not found''"
| "SC_ErrorString kSCErr_NoSuchCommand = ''no such command''"
| "SC_ErrorString kSCErr_WrongArgType = ''wrong argument type''"
| "SC_ErrorString kSCErr_IndexOutOfRange = ''index out of range''"
| "SC_ErrorString kSCErr_AccessDenied = ''access denied''"
| "SC_ErrorString kSCErr_NoReplyPort = ''no reply port''"
| "SC_ErrorString kSCErr_InvalidControlIndex = ''invalid control index''"
| "SC_ErrorString kSCErr_AlreadyLoggedIn = ''already logged in''"
| "SC_ErrorString kSCErr_NotLoggedIn = ''not logged in''"
| "SC_ErrorString kSCErr_TooManyUsers = ''too many users''"
| "SC_ErrorString kSCErr_TooManyNodes = ''too many nodes''"
| "SC_ErrorString kSCErr_DuplicateNodeID = ''duplicate node ID''"
| "SC_ErrorString kSCErr_ReservedNodeID = ''negative node IDs are reserved''"
| "SC_ErrorString kSCErr_OutOfRealTimeMemory = ''out of real time memory''"
| "SC_ErrorString kSCErr_UnsupportedHeaderFormat = ''unsupported header format''"
| "SC_ErrorString kSCErr_UnsupportedSampleFormat = ''unsupported sample format''"
| "SC_ErrorString kSCErr_BufGenNotFound = ''buf gen routine not found''"

text \<open>
  What is thrown here is an \<open>int\<close> of value \<open>kSCErr_Failed\<close>, or an enumerator that no handler but the
  last one catches; both end as \<open>kSCErr_Failed\<close>.
\<close>

definition SC_LibCmd_Perform :: "SC_LibCmd \<Rightarrow> env \<Rightarrow> nat \<Rightarrow> nat \<Rightarrow> u8 list \<Rightarrow> nat \<Rightarrow> World \<Rightarrow> (SCErr \<times> World) option" where
  "SC_LibCmd_Perform c E k inSize inData inReply w = do {
     (r, w) \<leftarrow> lcFunc c E k inSize inData inReply w;
     let err = (case r of Ret e \<Rightarrow> e | Thrown \<Rightarrow> kSCErr_Failed);
     if err \<noteq> kSCErr_None \<and> sint (mLocalErrorNotification w) \<le> 0 \<and> mErrorNotification w \<noteq> 0 then do {
       (_, w) \<leftarrow> CallSendFailureCommand E (word_chars (lcName c)) (cstr (SC_ErrorString err)) inReply w;
       Some (err, w) }
     else Some (err, w) }"

text \<open>A command is named by its number, in four bytes of which the first is zero, or by its address.\<close>

definition find_cmd :: "cmd_lib \<Rightarrow> u8 list \<Rightarrow> (nat \<times> nat option) option" where
  "find_cmd lib inData = do {
     c \<leftarrow> aread inData 0;
     if c = 0 then do {
       b \<leftarrow> aread inData 3;
       let index = (scast b :: u32);
       if of_nat NUMBER_OF_COMMANDS \<le> index then Some (4, None)
       else do { r \<leftarrow> aread (gCmdArray lib) (unat index); Some (4, r) } }
     else do {
       n \<leftarrow> OSCstrlen inData 0;
       r \<leftarrow> HashTable_Get (lib_kv (libCmds lib)) (gCmdLib lib) (words_at inData 0);
       Some (n, r) } }"

definition PerformOSCMessage :: "cmd_lib \<Rightarrow> env \<Rightarrow> nat \<Rightarrow> int \<Rightarrow> u8 list \<Rightarrow> nat \<Rightarrow> World \<Rightarrow> (SCErr \<times> World) option" where
  "PerformOSCMessage lib E k inSize inData inReply w = do {
     (cmdNameLen, cmdObj) \<leftarrow> find_cmd lib inData;
     (case cmdObj of
        None \<Rightarrow> do {
          (_, w) \<leftarrow> CallSendFailureCommand E inData (cstr ''Command not found'') inReply w;
          Some (kSCErr_NoSuchCommand, w) }
      | Some i \<Rightarrow> do {
          c \<leftarrow> aread (libCmds lib) i;
          if inSize < int cmdNameLen then None
          else SC_LibCmd_Perform c E k (nat (inSize - int cmdNameLen)) (drop cmdNameLen inData) inReply w }) }"

text \<open>The messages of a bundle, from \<open>pos\<close> on.\<close>

fun bundle_loop :: "nat \<Rightarrow> cmd_lib \<Rightarrow> env \<Rightarrow> u8 list \<Rightarrow> nat \<Rightarrow> nat \<Rightarrow> int \<Rightarrow> World \<Rightarrow> World option" where
  "bundle_loop 0 lib E mem mSize addr data w = None"
| "bundle_loop (Suc k) lib E mem mSize addr data w =
     (if data < int mSize then do {
        if data < 0 then None
        else do {
          msgSize \<leftarrow> read_be32 mem (nat data);
          (_, w) \<leftarrow> PerformOSCMessage lib E k (sint msgSize) (drop (nat data + 4) mem) addr w;
          bundle_loop k lib E mem mSize addr (data + 4 + sint msgSize) w } }
      else Some w)"

section \<open>Packets and the scheduler\<close>

text \<open>
  A packet is its number (for the record of what is freed), its address to reply to, its size and the memory from its data on.
\<close>

record OSC_Packet =
  pkId :: nat
  pkAddr :: nat
  pkSize :: nat
  pkData :: "u8 list"
  pkIsBundle :: bool

datatype PacketFreeFunc = FreeInRT | FreeInNRT
datatype PacketStatus = PacketPerformed | PacketScheduled

type_synonym sched_event = "(OSC_Packet \<times> PacketFreeFunc) event"

text \<open>The engine: the world with the driver's scheduler, clock and queue of packets.\<close>

record Engine =
  eWorld :: World
  mScheduler :: "(OSC_Packet \<times> PacketFreeFunc) PriorityQueueT"
  mOSCbuftime :: "64 word"
  mOscPacketsToEngine :: "OSC_Packet option MsgFifo"

text \<open>A command may have cleared the scheduler.\<close>

definition on_world :: "(World \<Rightarrow> World option) \<Rightarrow> Engine \<Rightarrow> Engine option" where
  "on_world f S = do {
     w \<leftarrow> f (eWorld S);
     Some (S\<lparr>eWorld := w,
       mScheduler := (if mSchedCleared w = mSchedCleared (eWorld S) then mScheduler S else PriorityQueue_Empty (mScheduler S))\<rparr>) }"

definition PerformOSCBundle :: "cmd_lib \<Rightarrow> env \<Rightarrow> nat \<Rightarrow> OSC_Packet \<Rightarrow> World \<Rightarrow> World option" where
  "PerformOSCBundle lib E k p w = do {
     w \<leftarrow> bundle_loop k lib E (pkData p) (pkSize p) (pkAddr p) 16 w;
     Some (w\<lparr>mLocalErrorNotification := 0\<rparr>) }"

text \<open>The second word is read only when the first one is that of \<open>#bundle\<close>.\<close>

definition checkIsBundle :: "u8 list \<Rightarrow> bool option" where
  "checkIsBundle mem =
     (if length mem < 4 then None
      else if take 4 mem \<noteq> take 4 bundle_chars then Some False
      else if length mem < 8 then None
      else Some (take 4 (drop 4 mem) = drop 4 bundle_chars))"

text \<open>\<open>AddEvent\<close> drops the result of adding.\<close>

definition AddEvent :: "sched_event \<Rightarrow> Engine \<Rightarrow> Engine" where
  "AddEvent ev S = S\<lparr>mScheduler := snd (PriorityQueue_Add ev (mScheduler S))\<rparr>"

definition PerformOSCPacket :: "cmd_lib \<Rightarrow> env \<Rightarrow> nat \<Rightarrow> OSC_Packet \<Rightarrow> PacketFreeFunc \<Rightarrow> Engine \<Rightarrow> (PacketStatus \<times> Engine) option" where
  "PerformOSCPacket lib E k p freeFunc S =
     (if \<not> pkIsBundle p then do {
        S \<leftarrow> on_world (\<lambda>w. do {
          (_, w) \<leftarrow> PerformOSCMessage lib E k (int (pkSize p)) (pkData p) (pkAddr p) w;
          Some (w\<lparr>mLocalErrorNotification := 0\<rparr>) }) S;
        Some (PacketPerformed, S) }
      else do {
        time \<leftarrow> OSCtime (pkData p) 8;
        if time = 0 \<or> time = 1 then do {
          S \<leftarrow> on_world (PerformOSCBundle lib E k p) S;
          Some (PacketPerformed, S) }
        else Some (PacketScheduled, AddEvent \<lparr>evTime = time, evPacket = (p, freeFunc)\<rparr> S) })"

text \<open>A packet is freed in the other thread, or here.\<close>

definition free_packet :: "PacketFreeFunc \<Rightarrow> OSC_Packet \<Rightarrow> World \<Rightarrow> World option" where
  "free_packet f p w = (case f of
       FreeInRT \<Rightarrow> Some (w\<lparr>mFreedPackets := mFreedPackets w @ [pkId p]\<rparr>)
     | FreeInNRT \<Rightarrow> SendMsgFromEngine (FreeOSCPacket (pkId p)) w)"

definition SC_ScheduledEvent_Perform :: "cmd_lib \<Rightarrow> env \<Rightarrow> nat \<Rightarrow> sched_event \<Rightarrow> Engine \<Rightarrow> Engine option" where
  "SC_ScheduledEvent_Perform lib E k ev S = do {
     S \<leftarrow> on_world (PerformOSCBundle lib E k (fst (evPacket ev))) S;
     on_world (free_packet (snd (evPacket ev)) (fst (evPacket ev))) S }"

text \<open>A completion message is performed in a copy of its packet, which the scheduler keeps or which is freed here.\<close>

definition PerformCompletionMsg :: "cmd_lib \<Rightarrow> env \<Rightarrow> nat \<Rightarrow> OSC_Packet \<Rightarrow> Engine \<Rightarrow> (PacketStatus \<times> Engine) option" where
  "PerformCompletionMsg lib E k p S = do {
     b \<leftarrow> checkIsBundle (pkData p);
     let p = p\<lparr>pkIsBundle := b\<rparr>;
     (status, S) \<leftarrow> PerformOSCPacket lib E k p FreeInRT S;
     Some (status, if status = PacketPerformed then S\<lparr>eWorld := (eWorld S)\<lparr>mFreedPackets := mFreedPackets (eWorld S) @ [pkId p]\<rparr>\<rparr> else S) }"

section \<open>Packets from the network\<close>

text \<open>\<open>ProcessOSCPacket\<close> puts a packet into the queue of the engine, which frees the performed ones first.\<close>

definition packets_freed :: "OSC_Packet option list \<Rightarrow> nat list" where
  "packets_freed ps = List.map pkId (List.map_filter (\<lambda>p. p) ps)"

definition SendOscPacketMsgToEngine :: "OSC_Packet \<Rightarrow> Engine \<Rightarrow> (bool \<times> Engine) option" where
  "SendOscPacketMsgToEngine p S = do {
     (ps, q) \<leftarrow> MsgFifo_Free 1024 (mOscPacketsToEngine S);
     let w = eWorld S;
     let S = S\<lparr>eWorld := w\<lparr>mFreedPackets := mFreedPackets w @ packets_freed ps\<rparr>\<rparr>;
     (sent, q) \<leftarrow> MsgFifo_Write 1024 (Some p) q;
     Some (sent, S\<lparr>mOscPacketsToEngine := q\<rparr>) }"

definition ProcessOSCPacket :: "OSC_Packet \<Rightarrow> Engine \<Rightarrow> (bool \<times> Engine) option" where
  "ProcessOSCPacket p S = do {
     b \<leftarrow> checkIsBundle (pkData p);
     SendOscPacketMsgToEngine (p\<lparr>pkIsBundle := b\<rparr>) S }"

text \<open>Performing a packet of the queue; one that is scheduled passes to the scheduler.\<close>

definition Perform_ToEngine_Msg :: "cmd_lib \<Rightarrow> env \<Rightarrow> nat \<Rightarrow> OSC_Packet option \<Rightarrow> Engine \<Rightarrow> (OSC_Packet option \<times> Engine) option" where
  "Perform_ToEngine_Msg lib E k msg S = (case msg of None \<Rightarrow> Some (None, S)
     | Some p \<Rightarrow> do {
         (status, S) \<leftarrow> PerformOSCPacket lib E k p FreeInNRT S;
         Some (if status = PacketScheduled then None else Some p, S) })"

text \<open>\<open>mOscPacketsToEngine.Perform()\<close>: the message in the slot is performed in place.\<close>

fun perform_packets :: "nat \<Rightarrow> cmd_lib \<Rightarrow> env \<Rightarrow> nat \<Rightarrow> Engine \<Rightarrow> Engine option" where
  "perform_packets 0 lib E k S = None"
| "perform_packets (Suc n) lib E k S =
     (let q = mOscPacketsToEngine S; next = NextPos 1024 (mReadHead q)
      in if MsgFifo_HasData q then do {
           slot \<leftarrow> aread (mFifoItems q) next;
           msg \<leftarrow> slot;
           (msg, S) \<leftarrow> Perform_ToEngine_Msg lib E k msg S;
           let q = mOscPacketsToEngine S;
           is \<leftarrow> awrite (mFifoItems q) next (Some msg);
           perform_packets n lib E k (S\<lparr>mOscPacketsToEngine := q\<lparr>mFifoItems := is, mReadHead := next\<rparr>\<rparr>) }
         else Some S)"

section \<open>The driver's callback\<close>

text \<open>
  What is outside: the units' functions, the time of a block, the sample of the block and the fraction a
  time falls on (of a difference of times; floating point), copying the input to and the output from the
  busses of block \<open>i\<close>.
\<close>

record driver =
  drvPlug :: plug
  mOSCincrement :: "64 word"
  offset_of :: "64 word \<Rightarrow> i32 \<times> f32"
  copy_input :: "nat \<Rightarrow> World \<Rightarrow> World"
  copy_output :: "nat \<Rightarrow> World \<Rightarrow> World"

definition set_offset :: "driver \<Rightarrow> 64 word \<Rightarrow> 64 word \<Rightarrow> World \<Rightarrow> World" where
  "set_offset D schedTime oscTime w =
     (let (i, sub) = offset_of D (schedTime - oscTime);
          i = (if sint i < 0 then 0 else if int (mBufLength w) \<le> sint i then of_nat (mBufLength w) - 1 else i)
      in w\<lparr>mSampleOffset := i, mSubsampleOffset := sub\<rparr>)"

text \<open>The events up to the end of the block, each at its sample.\<close>

fun sched_loop :: "nat \<Rightarrow> driver \<Rightarrow> cmd_lib \<Rightarrow> env \<Rightarrow> nat \<Rightarrow> 64 word \<Rightarrow> 64 word \<Rightarrow> Engine \<Rightarrow> Engine option" where
  "sched_loop 0 D lib E k oscTime nextTime S = None"
| "sched_loop (Suc n) D lib E k oscTime nextTime S =
     (if sint (NextTime (mScheduler S)) \<le> sint nextTime then do {
        let S = S\<lparr>eWorld := set_offset D (NextTime (mScheduler S)) oscTime (eWorld S)\<rparr>;
        (ev, q) \<leftarrow> PriorityQueue_Remove (mScheduler S);
        S \<leftarrow> SC_ScheduledEvent_Perform lib E k ev (S\<lparr>mScheduler := q\<rparr>);
        sched_loop n D lib E k oscTime nextTime S }
      else Some S)"

definition run_block :: "driver \<Rightarrow> cmd_lib \<Rightarrow> env \<Rightarrow> nat \<Rightarrow> nat \<Rightarrow> Engine \<Rightarrow> Engine option" where
  "run_block D lib E k i S = do {
     let oscTime = mOSCbuftime S;
     let S = S\<lparr>eWorld := copy_input D i (eWorld S)\<rparr>;
     let nextTime = oscTime + mOSCincrement D;
     S \<leftarrow> sched_loop k D lib E k oscTime nextTime S;
     let S = S\<lparr>eWorld := (eWorld S)\<lparr>mSampleOffset := 0, mSubsampleOffset := 0\<rparr>\<rparr>;
     w \<leftarrow> World_Run k (drvPlug D) (eWorld S);
     let w = copy_output D i w;
     Some (S\<lparr>eWorld := w\<lparr>mBufCounter := mBufCounter w + 1\<rparr>, mOSCbuftime := nextTime\<rparr>) }"

fun run_blocks :: "driver \<Rightarrow> cmd_lib \<Rightarrow> env \<Rightarrow> nat \<Rightarrow> nat list \<Rightarrow> Engine \<Rightarrow> Engine option" where
  "run_blocks D lib E k [] S = Some S"
| "run_blocks D lib E k (i # is) S = do { S \<leftarrow> run_block D lib E k i S; run_blocks D lib E k is S }"

definition SC_AudioDriver_Run :: "driver \<Rightarrow> cmd_lib \<Rightarrow> env \<Rightarrow> nat \<Rightarrow> nat \<Rightarrow> 64 word \<Rightarrow> Engine \<Rightarrow> Engine option" where
  "SC_AudioDriver_Run D lib E k numSamplesPerCallback oscTime S = do {
     let S = S\<lparr>mOSCbuftime := oscTime\<rparr>;
     S \<leftarrow> on_world (engine_round E) S;
     S \<leftarrow> perform_packets 1025 lib E k S;
     if mBufLength (eWorld S) = 0 then None
     else run_blocks D lib E k [0..<numSamplesPerCallback div mBufLength (eWorld S)] S }"

end
