(* ===== verification/SC_CmdLib.thy ===== *)
theory SC_CmdLib
  imports SC_Perform
begin

text \<open>
  The library of commands after \<open>initMiscCommands\<close>: every command is found under its address, with and
  without the slash, and under its number, and nothing else is.
\<close>

section \<open>Names as keys\<close>

lemma packed_pad_words: "0 \<notin> set xs \<Longrightarrow> packed (pad_words xs)"
  by (induction xs rule: pad_words.induct) auto

lemma pad_words_inject:
  assumes "0 \<notin> set xs" "0 \<notin> set ys"
  shows "pad_words xs = pad_words ys \<longleftrightarrow> xs = ys"
  using str4eq_pad_words [OF assms] str4eq_packed [OF packed_pad_words packed_pad_words, OF assms] by auto

lemma le_words_pad_str: "le_words (pad_str xs @ rest) = pad_words xs @ le_words rest"
  unfolding pad_str_def by (induction xs rule: pad_words.induct) (simp_all add: replicate_small mod4_Suc)

text \<open>What follows the last word of a name does not matter.\<close>

lemma hash_loop_packed: "packed k \<Longrightarrow> hash_str4_loop h (k @ ws) = hash_str4_loop h k"
  by (induction k arbitrary: h) (auto simp: Let_def split: if_splits)

lemma str4eq_append: "packed a \<Longrightarrow> str4eq (a @ ws) b = str4eq a b"
  by (induction a b rule: str4eq.induct) (auto split: if_splits)

lemma index_loop_append:
  "packed k \<Longrightarrow> index_loop kv str4eq t h (k @ ws) n i = index_loop kv str4eq t h k n i"
  by (induction n arbitrary: i) (simp_all add: str4eq_append cong: option.case_cong if_cong)

lemma Get_append: "packed k \<Longrightarrow> HashTable_Get kv t (k @ ws) = HashTable_Get kv t k"
  by (simp add: HashTable_Get_def Hash_str4_def hash_loop_packed Get_hash_def IndexFor_def index_loop_append)

section \<open>The table as a list of names\<close>

definition lib_cmd :: "u8 list \<times> handler \<Rightarrow> SC_LibCmd" where
  "lib_cmd x = \<lparr>lcName = pad_words (fst x), lcHash = hash4 (pad_words (fst x)), lcFunc = snd x\<rparr>"

definition lib_rep :: "cmd_lib \<Rightarrow> (u8 list \<times> handler) list \<Rightarrow> bool" where
  "lib_rep lib L \<longleftrightarrow> libCmds lib = List.map lib_cmd L \<and> str_inv (lib_kv (libCmds lib)) (gCmdLib lib)
     \<and> (\<forall>i < length L. 0 \<notin> set (fst (L ! i)))
     \<and> (\<forall>k i. store_view (lib_kv (libCmds lib)) hash4 (gCmdLib lib) k = Some i
          \<longleftrightarrow> i < length L \<and> k = pad_words (fst (L ! i)))"

lemma lib_rep_array: "lib_rep (lib\<lparr>gCmdArray := a\<rparr>) L = lib_rep lib L"
  by (simp add: lib_rep_def)

text \<open>A longer list of objects does not change what the table means.\<close>

lemma str_inv_cong:
  assumes eq: "\<forall>p \<in> items t. kv p = kv' p" and inv: "str_inv kv t"
  shows "str_inv kv' t \<and> store_view kv' hash4 t = store_view kv hash4 t"
proof -
  obtain n where n: "n \<le> 30" "store_inv kv packed hash4 n t" "mCanResize t" using inv by (auto simp: str_inv_def)
  have ti: "table_inv kv packed n t" using n by (simp add: store_inv_def)
  have len: "length (mItems t) = 2 ^ n" using ti by (simp add: table_inv_def shape_def)
  note key = slots_ok_cong [OF eq len]
  have "slots_ok kv' packed n t" using ti key unfolding table_inv_def slots_ok_def by metis
  moreover have "\<forall>i < 2 ^ n. reach_but kv' n t {} i" using ti key unfolding table_inv_def reach_but_def by metis
  ultimately have ti': "table_inv kv' packed n t" using ti unfolding table_inv_def by blast
  have "store_view kv' hash4 t k = store_view kv hash4 t k" for k
    by (rule option_eq_by_Some) (use str4_keys.store_view_Some [OF ti'] str4_keys.store_view_Some [OF ti] eq in auto)
  then show ?thesis using n ti' eq unfolding str_inv_def store_inv_def store_key_def by auto
qed

lemma lib_rep_new: "lib_rep new_lib []"
proof -
  have "store_inv kv packed hash4 7 (HashTable_new 64 True)" "store_view kv hash4 (HashTable_new 64 True) = Map.empty" for kv :: "(nat, i32 list) reader"
    using store_inv_new(1) [of 7 kv packed hash4 True] store_inv_new(2) [of 7 kv hash4 True] by simp_all
  then show ?thesis
    by (auto simp: lib_rep_def new_lib_def str_inv_def HashTable_new_def intro: exI [of _ 7])
qed

lemma name_length: "0 \<notin> set nm \<Longrightarrow> str4len_cstr (nm @ [0]) = Some (str4len_chars (length nm))"
  by (simp add: str4len_cstr_def cstrlen_terminated)

lemma SetName_short:
  assumes "0 \<notin> set nm" "length nm < 32"
  shows "SetName (nm @ [0]) c = Some (c\<lparr>lcName := pad_words nm, lcHash := hash4 (pad_words nm)\<rparr>)"
proof -
  have "str4cpy_bytes (nm @ [0]) = Some (pad_str nm)"
    using assms by (simp add: str4cpy_bytes_eq_Some cstr_chars_terminated pad_str_def)
  moreover have "le_words (pad_str nm) = pad_words nm" using le_words_pad_str [of nm "[]"] by simp
  moreover obtain h where "Hash_str4 (pad_words nm) = Some h" using Hash_str4_packed [OF packed_pad_words [OF assms(1)]] by blast
  moreover have "str4len_chars (length nm) \<le> 8" using assms(2) by (simp add: str4len_chars_def)
  ultimately show ?thesis by (simp add: SetName_def name_length [OF assms(1)] kSCNameLen_def hash4_def)
qed

lemma SC_LibCmd_new_Some: "\<exists>c. SC_LibCmd_new f = Some c \<and> lcFunc c = f"
  using SetName_short [of "[of_char CHR ''?'']"] by (auto simp: SC_LibCmd_new_def cstr_def)

lemma add_cmd_ok:
  assumes rep: "lib_rep lib L" and nm: "0 \<notin> set nm" "length nm < 32" "nm \<notin> fst ` set L" and room: "length L < 2 ^ 28"
  shows "\<exists>lib'. add_cmd (nm @ [0]) f lib = Some lib' \<and> lib_rep lib' (L @ [(nm, f)]) \<and> gCmdArray lib' = gCmdArray lib"
proof -
  obtain c where c: "SC_LibCmd_new f = Some c" "lcFunc c = f" using SC_LibCmd_new_Some by blast
  have nc: "SetName (nm @ [0]) c = Some (lib_cmd (nm, f))"
    using SetName_short [OF nm(1,2)] c by (simp add: lib_cmd_def)
  let ?cs = "libCmds lib" and ?t = "gCmdLib lib" and ?p = "length (libCmds lib)" and ?k = "pad_words nm"
  let ?kv = "lib_kv (?cs @ [lib_cmd (nm, f)])"
  have r: "?cs = List.map lib_cmd L" "str_inv (lib_kv ?cs) ?t" "\<And>i. i < length L \<Longrightarrow> 0 \<notin> set (fst (L ! i))"
    "\<And>k i. store_view (lib_kv ?cs) hash4 ?t k = Some i \<longleftrightarrow> i < length L \<and> k = pad_words (fst (L ! i))"
    using rep by (auto simp: lib_rep_def)
  obtain n where n: "store_inv (lib_kv ?cs) packed hash4 n ?t" using r(2) by (auto simp: str_inv_def)
  have "\<forall>q \<in> items ?t. lib_kv ?cs q = ?kv q"
  proof
    fix q assume "q \<in> items ?t"
    then have "store_key (lib_kv ?cs) hash4 q \<noteq> None" using n by (simp add: store_inv_def)
    then show "lib_kv ?cs q = ?kv q" by (auto simp: store_key_def lib_kv_def nth_append split: if_splits)
  qed
  from str_inv_cong [OF this r(2)] have inv: "str_inv ?kv ?t" and view: "store_view ?kv hash4 ?t = store_view (lib_kv ?cs) hash4 ?t" by auto
  have key: "store_key ?kv hash4 ?p = Some ?k" by (simp add: store_key_Some lib_kv_def lib_cmd_def)
  have other: "?k \<noteq> pad_words (fst (L ! i))" if "i < length L" for i
    using pad_words_inject [OF nm(1) r(3) [OF that]] nm(3) that by (metis imageI nth_mem)
  with r(4) [of ?k] have fresh: "store_view ?kv hash4 ?t ?k = None" unfolding view by (metis option.exhaust)
  have "card (dom (store_view (lib_kv ?cs) hash4 ?t)) \<le> length L"
  proof -
    have "dom (store_view (lib_kv ?cs) hash4 ?t) \<subseteq> (\<lambda>i. pad_words (fst (L ! i))) ` {..<length L}"
      using r(4) by (auto simp: dom_def)
    then show ?thesis using surj_card_le [of "{..<length L}"] by fastforce
  qed
  then have "mNumItems ?t < 2 ^ 28" using str4_keys.card_view [OF n] room by simp
  from str_table.add_fresh [OF inv key packed_pad_words [OF nm(1)] this fresh]
  obtain t' where t': "Add ?kv str4eq ?t ?p = Some (True, t')" "str_inv ?kv t'" "store_view ?kv hash4 t' = (store_view ?kv hash4 ?t)(?k \<mapsto> ?p)" by blast
  let ?lib = "lib\<lparr>libCmds := ?cs @ [lib_cmd (nm, f)], gCmdLib := t'\<rparr>"
  have "add_cmd (nm @ [0]) f lib = Some ?lib" using c(1) nc t'(1) by (simp add: add_cmd_def Let_def)
  moreover have "lib_rep ?lib (L @ [(nm, f)])"
    unfolding lib_rep_def
  proof (intro conjI allI)
    fix i show "i < length (L @ [(nm, f)]) \<longrightarrow> 0 \<notin> set (fst ((L @ [(nm, f)]) ! i))" using r(3) nm(1) by (auto simp: nth_append)
  next
    fix k i
    show "store_view (lib_kv (libCmds ?lib)) hash4 (gCmdLib ?lib) k = Some i \<longleftrightarrow>
        i < length (L @ [(nm, f)]) \<and> k = pad_words (fst ((L @ [(nm, f)]) ! i))"
    proof -
      have l: "libCmds ?lib = ?cs @ [lib_cmd (nm, f)]" "gCmdLib ?lib = t'" "?p = length L" using r(1) by simp_all
      have at: "fst ((L @ [(nm, f)]) ! i) = (if i < length L then fst (L ! i) else nm)" if "i < Suc (length L)"
        using that by (simp add: nth_append)
      have "store_view ?kv hash4 t' k = Some i \<longleftrightarrow> (if k = ?k then i = length L else i < length L \<and> k = pad_words (fst (L ! i)))"
        unfolding t'(3) fun_upd_apply view l(3) using r(4) [of k i] by simp blast
      also have "\<dots> \<longleftrightarrow> i < Suc (length L) \<and> k = pad_words (if i < length L then fst (L ! i) else nm)"
        using other [of i] by (cases "i < length L") auto
      also have "\<dots> \<longleftrightarrow> i < length (L @ [(nm, f)]) \<and> k = pad_words (fst ((L @ [(nm, f)]) ! i))"
        using at by auto
      finally show ?thesis unfolding l .
    qed
  qed (use r t' in simp_all)
  ultimately show ?thesis by (intro exI [of _ ?lib]) simp
qed


text \<open>The names and functions that a list of commands registers, in the order of the objects.\<close>

fun lib_names :: "(string \<times> nat \<times> handler) list \<Rightarrow> (u8 list \<times> handler) list" where
  "lib_names [] = []"
| "lib_names ((name, n, f) # cs) = (chars (CHR ''/'' # name), f) # (chars name, f) # lib_names cs"

abbreviation numbers :: "(string \<times> nat \<times> handler) list \<Rightarrow> nat list" where
  "numbers cs \<equiv> List.map (\<lambda>c. fst (snd c)) cs"

definition names_ok :: "u8 list list \<Rightarrow> bool" where
  "names_ok ns \<longleftrightarrow> distinct ns \<and> (\<forall>nm \<in> set ns. 0 \<notin> set nm \<and> length nm < 32)"

lemma new_commands_ok:
  assumes "lib_rep lib L" "names_ok (List.map fst (L @ lib_names cs))" "length L + length (lib_names cs) < 2 ^ 28"
    and "distinct (numbers cs)" "\<forall>n \<in> set (numbers cs). n < length (gCmdArray lib)"
  shows "\<exists>lib'. new_commands cs lib = Some lib' \<and> lib_rep lib' (L @ lib_names cs) \<and> length (gCmdArray lib') = length (gCmdArray lib)
    \<and> (\<forall>n < length (gCmdArray lib). gCmdArray lib' ! n =
        (case map_of (zip (numbers cs) [0..<length cs]) n of None \<Rightarrow> gCmdArray lib ! n | Some j \<Rightarrow> Some (length L + 2 * j)))"
  using assms
proof (induction cs arbitrary: lib L)
  case (Cons c cs)
  obtain name n f where c: "c = (name, n, f)" by (cases c)
  let ?a = "chars (CHR ''/'' # name)" and ?b = "chars name"
  let ?L = "L @ [(?a, f)] @ [(?b, f)]"
  have nok: "0 \<notin> set ?a" "length ?a < 32" "0 \<notin> set ?b" "length ?b < 32" "?a \<notin> fst ` set L" "?b \<notin> fst ` set (L @ [(?a, f)])"
    using Cons.prems(2) c by (auto simp: names_ok_def)
  obtain l1 where l1: "add_cmd (?a @ [0]) f lib = Some l1" "lib_rep l1 (L @ [(?a, f)])" "gCmdArray l1 = gCmdArray lib"
    using add_cmd_ok [OF Cons.prems(1) nok(1,2,5), of f] Cons.prems(3) by auto
  obtain l2 where l2: "add_cmd (?b @ [0]) f l1 = Some l2" "lib_rep l2 ?L" "gCmdArray l2 = gCmdArray lib"
    using add_cmd_ok [OF l1(2) nok(3,4,6), of f] Cons.prems(3) l1(3) c by auto
  let ?l3 = "l2\<lparr>gCmdArray := (gCmdArray lib)[n := Some (length L)]\<rparr>"
  have n: "n < length (gCmdArray lib)" using Cons.prems(5) c by simp
  have len: "length (libCmds lib) = length L" using Cons.prems(1) by (simp add: lib_rep_def)
  have new: "NewCommand name n f lib = Some ?l3"
    using l1(1) l2(1,3) n len by (simp add: NewCommand_def cstr_def awrite_def)
  have "lib_rep ?l3 ?L" using l2(2) by (simp only: lib_rep_array)
  moreover have "names_ok (List.map fst (?L @ lib_names cs))" "length ?L + length (lib_names cs) < 2 ^ 28"
    using Cons.prems(2,3) c by simp_all
  moreover have "distinct (numbers cs)" "\<forall>n \<in> set (numbers cs). n < length (gCmdArray ?l3)"
    using Cons.prems(4,5) c by simp_all
  ultimately obtain lib' where l': "new_commands cs ?l3 = Some lib'" "lib_rep lib' (?L @ lib_names cs)"
    "length (gCmdArray lib') = length (gCmdArray lib)"
    "\<forall>m < length (gCmdArray lib). gCmdArray lib' ! m =
        (case map_of (zip (numbers cs) [0..<length cs]) m of None \<Rightarrow> gCmdArray ?l3 ! m | Some j \<Rightarrow> Some (length ?L + 2 * j))"
    using Cons.IH [of ?l3 ?L] by auto
  have nn: "map_of (zip (numbers cs) [0..<length cs]) n = None"
    using Cons.prems(4) c by (simp add: map_of_zip_is_None)
  have up: "[0..<Suc (length cs)] = 0 # List.map Suc [0..<length cs]" by (simp add: upt_conv_Cons map_Suc_upt del: upt_Suc)
  have sh: "map_of (zip ks (List.map Suc js)) m = map_option Suc (map_of (zip ks js) m)" for ks :: "nat list" and js m
    by (induction ks js rule: list_induct2') auto
  have z: "map_of (zip (numbers (c # cs)) [0..<length (c # cs)]) m
      = (if m = n then Some 0 else map_option Suc (map_of (zip (numbers cs) [0..<length cs]) m))" for m
    unfolding c by (simp add: up sh del: upt_Suc)
  have "gCmdArray lib' ! m = (case map_of (zip (numbers (c # cs)) [0..<length (c # cs)]) m of
      None \<Rightarrow> gCmdArray lib ! m | Some j \<Rightarrow> Some (length L + 2 * j))" if m: "m < length (gCmdArray lib)" for m
  proof (cases "m = n")
    case True
    then show ?thesis unfolding z using l'(4) [rule_format, OF m] nn n by simp
  next
    case False
    have at: "gCmdArray ?l3 ! m = gCmdArray lib ! m" "length ?L + 2 * j = length L + 2 * Suc j" for j using False by simp_all
    show ?thesis unfolding z if_not_P [OF False] l'(4) [rule_format, OF m] at
      by (cases "map_of (zip (numbers cs) [0..<length cs]) m"; simp only: option.case option.map at)
  qed
  then show ?case using new l'(1-3) c by auto
qed simp


section \<open>The commands of the server\<close>

definition command_names :: "string list" where
  "command_names = [''none'', ''notify'', ''status'', ''quit'', ''clearSched'', ''d_recv'', ''d_load'', ''d_loadDir'', ''d_freeAll'', ''d_free'',
     ''s_new'', ''s_newargs'', ''n_trace'', ''n_free'', ''n_run'', ''u_cmd'', ''cmd'', ''n_map'', ''n_mapn'', ''n_mapa'', ''n_mapan'', ''n_set'',
     ''n_setn'', ''n_fill'', ''n_before'', ''n_after'', ''n_order'', ''g_new'', ''g_head'', ''g_tail'', ''g_freeAll'', ''g_deepFree'', ''p_new'',
     ''b_alloc'', ''b_allocRead'', ''b_allocReadChannel'', ''b_read'', ''b_readChannel'', ''b_write'', ''b_free'', ''b_close'', ''b_zero'', ''b_set'',
     ''b_setn'', ''b_fill'', ''b_gen'', ''c_set'', ''c_setn'', ''c_fill'', ''dumpOSC'', ''c_get'', ''c_getn'', ''b_get'', ''b_getn'', ''s_get'',
     ''s_getn'', ''n_query'', ''b_query'', ''s_noid'', ''sync'', ''g_dumpTree'', ''g_queryTree'', ''error'']"

lemma misc_names: "List.map fst (misc_commands P) = command_names"
  by (simp add: misc_commands_def command_names_def)

lemma names_nonempty: "[] \<notin> set command_names"
  by (simp add: command_names_def)

lemma lib_names_fst: "List.map fst (lib_names cs) = concat (List.map (\<lambda>n. [chars (CHR ''/'' # n), chars n]) (List.map fst cs))"
  by (induction cs) auto

lemma inj_of_char: "inj (of_char :: char \<Rightarrow> u8)"
proof (rule inj_onI)
  fix c d :: char assume "(of_char c :: u8) = of_char d"
  then have "unat (of_nat (of_char c) :: u8) = unat (of_nat (of_char d) :: u8)" by (simp only: of_nat_of_char)
  moreover have "(of_char e :: nat) < 256" for e :: char by (rule nat_of_char_less_256)
  ultimately show "c = d" by (simp add: unat_of_nat)
qed

lemma distinct_slash:
  assumes "distinct ns" "\<forall>n \<in> set ns. take 1 n \<noteq> [c]"
  shows "distinct (concat (List.map (\<lambda>n. [chars (c # n), chars n]) ns))"
proof -
  have "distinct (concat (List.map (\<lambda>n. [c # n, n]) ns))"
    using assms by (induction ns) auto
  moreover have "concat (List.map (\<lambda>n. [chars (c # n), chars n]) ns) = List.map chars (concat (List.map (\<lambda>n. [c # n, n]) ns))"
    by (induction ns) auto
  ultimately show ?thesis using inj_of_char by (simp add: distinct_map inj_on_def inj_map_eq_map)
qed

lemma names_fine: "names_ok (concat (List.map (\<lambda>n. [chars (CHR ''/'' # n), chars n]) command_names))"
proof -
  have "distinct command_names \<and> (\<forall>n \<in> set command_names. take 1 n \<noteq> ''/'')" by code_simp
  moreover have "\<forall>nm \<in> set (concat (List.map (\<lambda>n. [chars (CHR ''/'' # n), chars n]) command_names)). 0 \<notin> set nm \<and> length nm < 32"
    by code_simp
  ultimately show ?thesis unfolding names_ok_def using distinct_slash by blast
qed

definition command_numbers :: "nat list" where
  "command_numbers = [0, 1, 2, 3, 51, 5, 6, 7, 8, 53, 9, 59, 10, 11, 12, 20, 4, 14, 48, 60, 61, 15, 16, 17, 18, 19, 62, 21, 22, 23, 24, 50, 63,
     28, 29, 54, 30, 55, 31, 32, 33, 34, 35, 36, 37, 38, 25, 26, 27, 39, 40, 41, 42, 43, 44, 45, 46, 47, 49, 52, 56, 57, 58]"

lemma misc_numbers_eq: "numbers (misc_commands P) = command_numbers"
  by (simp only: misc_commands_def command_numbers_def list.map fst_conv snd_conv)

lemma misc_numbers: "distinct (numbers (misc_commands P))" "\<forall>n \<in> set (numbers (misc_commands P)). n < 64"
proof -
  have "distinct command_numbers \<and> (\<forall>n \<in> set command_numbers. n < 64)" by code_simp
  then show "distinct (numbers (misc_commands P))" "\<forall>n \<in> set (numbers (misc_commands P)). n < 64"
    unfolding misc_numbers_eq by blast+
qed

lemma find_by_name:
  assumes rep: "lib_rep lib L" and nm: "0 \<notin> set nm" "nm \<noteq> []"
  shows "find_cmd lib (pad_str nm @ rest) = Some (length (pad_str nm), store_view (lib_kv (libCmds lib)) hash4 (gCmdLib lib) (pad_words nm))"
proof -
  have "aread (pad_str nm @ rest) 0 = Some (hd nm)" using nm by (cases nm, simp_all add: aread_def pad_str_def)
  moreover have "hd nm \<noteq> 0" using nm by (cases nm) auto
  moreover have "OSCstrlen (pad_str nm @ rest) 0 = Some (length (pad_str nm))"
    using OSCstrskip_padded [OF nm(1), of "pad_str nm @ rest" "[]" rest] by (simp add: OSCstrlen_def OSCstrskip_def)
  moreover have "HashTable_Get (lib_kv (libCmds lib)) (gCmdLib lib) (words_at (pad_str nm @ rest) 0)
      = Some (store_view (lib_kv (libCmds lib)) hash4 (gCmdLib lib) (pad_words nm))"
    unfolding words_at_def drop0 le_words_pad_str Get_append [OF packed_pad_words [OF nm(1)]]
    by (rule str_table.get_view [OF _ packed_pad_words [OF nm(1)]]) (use rep in \<open>unfold lib_rep_def, blast\<close>)
  ultimately show ?thesis by (simp add: find_cmd_def)
qed

lemma find_by_number:
  assumes "length (gCmdArray lib) = 64" "n < 64"
  shows "find_cmd lib ([0, 0, 0, of_nat n] @ rest) = Some (4, gCmdArray lib ! n)"
proof -
  have n: "sint (of_nat n :: u8) = int n" using assms(2)
    by (simp add: signed_of_nat signed_take_bit_int_eq_self)
  then have "(scast (of_nat n :: u8) :: u32) = of_nat n" by (metis of_int_of_nat_eq of_int_sint scast_eq)
  moreover have "unat (of_nat n :: u32) = n" using assms(2) by (simp add: unat_of_nat)
  moreover have "\<not> (64 :: u32) \<le> of_nat n" using assms(2) by (simp add: word_le_nat_alt unat_of_nat)
  ultimately show ?thesis using assms by (simp add: find_cmd_def aread_def NUMBER_OF_COMMANDS_def)
qed

text \<open>A command is found at an address when what \<open>find_cmd\<close> returns is an object with its function.\<close>

definition found :: "cmd_lib \<Rightarrow> u8 list \<Rightarrow> nat \<Rightarrow> handler \<Rightarrow> bool" where
  "found lib mem n f = (case find_cmd lib mem of
       Some (m, Some i) \<Rightarrow> m = n \<and> i < length (libCmds lib) \<and> lcFunc (libCmds lib ! i) = f | _ \<Rightarrow> False)"

lemma lib_names_nth:
  assumes "j < length cs"
  shows "length (lib_names cs) = 2 * length cs"
    "lib_names cs ! (2 * j) = (chars (CHR ''/'' # fst (cs ! j)), snd (snd (cs ! j)))"
    "lib_names cs ! (2 * j + 1) = (chars (fst (cs ! j)), snd (snd (cs ! j)))"
proof -
  show "length (lib_names cs) = 2 * length cs" by (induction cs rule: lib_names.induct) auto
  show "lib_names cs ! (2 * j) = (chars (CHR ''/'' # fst (cs ! j)), snd (snd (cs ! j)))"
    using assms by (induction cs arbitrary: j rule: lib_names.induct) (auto simp: less_Suc_eq_0_disj)
  show "lib_names cs ! (2 * j + 1) = (chars (fst (cs ! j)), snd (snd (cs ! j)))"
    using assms by (induction cs arbitrary: j rule: lib_names.induct) (auto simp: less_Suc_eq_0_disj)
qed

lemma found_by_name:
  assumes rep: "lib_rep lib L" and i: "i < length L" "L ! i = (nm, f)" "nm \<noteq> []"
  shows "found lib (pad_str nm @ rest) (length (pad_str nm)) f"
proof -
  have "0 \<notin> set nm" "store_view (lib_kv (libCmds lib)) hash4 (gCmdLib lib) (pad_words nm) = Some i" "libCmds lib = List.map lib_cmd L"
    using rep i unfolding lib_rep_def by (metis fst_conv)+
  then show ?thesis using find_by_name [OF rep _ i(3)] i by (simp add: found_def lib_cmd_def)
qed

lemma not_found_by_name:
  assumes rep: "lib_rep lib L" and nm: "0 \<notin> set nm" "nm \<noteq> []" "nm \<notin> fst ` set L"
  shows "find_cmd lib (pad_str nm @ rest) = Some (length (pad_str nm), None)"
proof -
  have "store_view (lib_kv (libCmds lib)) hash4 (gCmdLib lib) (pad_words nm) \<noteq> Some i" for i
    using rep nm pad_words_inject [OF nm(1), of "fst (L ! i)"] unfolding lib_rep_def by (metis imageI nth_mem)
  then have "store_view (lib_kv (libCmds lib)) hash4 (gCmdLib lib) (pad_words nm) = None" by blast
  then show ?thesis using find_by_name [OF rep nm(1,2)] by simp
qed

lemma initMiscCommands_ok:
  "\<exists>lib. initMiscCommands P new_lib = Some lib \<and> lib_rep lib (lib_names (misc_commands P)) \<and> length (gCmdArray lib) = 64
    \<and> (\<forall>n < 64. gCmdArray lib ! n =
        map_option (\<lambda>j. 2 * j) (map_of (zip (numbers (misc_commands P)) [0..<length (misc_commands P)]) n))"
proof -
  let ?cs = "misc_commands P"
  have len: "length (gCmdArray new_lib) = 64" by (simp add: new_lib_def NUMBER_OF_COMMANDS_def)
  have l: "length ?cs = 63" using arg_cong [OF misc_names [of P], of length] by (simp add: command_names_def)
  have ok: "names_ok (List.map fst ([] @ lib_names ?cs))" using names_fine by (simp add: lib_names_fst misc_names)
  have "length [] + length (lib_names ?cs) < 2 ^ 28" using lib_names_nth(1) [of 0 ?cs] l by simp
  from new_commands_ok [OF lib_rep_new ok this misc_numbers(1), unfolded len, OF misc_numbers(2)]
  obtain lib where lib: "new_commands ?cs new_lib = Some lib" "lib_rep lib ([] @ lib_names ?cs)" "length (gCmdArray lib) = 64"
    "\<forall>n < 64. gCmdArray lib ! n = (case map_of (zip (numbers ?cs) [0..<length ?cs]) n of
        None \<Rightarrow> gCmdArray new_lib ! n | Some j \<Rightarrow> Some (length ([] :: (u8 list \<times> handler) list) + 2 * j))"
    by (elim exE conjE)
  have "gCmdArray lib ! n = map_option (\<lambda>j. 2 * j) (map_of (zip (numbers ?cs) [0..<length ?cs]) n)" if "n < 64" for n
  proof -
    have "gCmdArray new_lib ! n = None" using that by (simp add: new_lib_def NUMBER_OF_COMMANDS_def)
    then show ?thesis using lib(4) [rule_format, OF that]
      by (cases "map_of (zip (numbers ?cs) [0..<length ?cs]) n"; simp only: option.case option.map list.size add_0)
  qed
  then show ?thesis using lib(1-3) by (simp add: initMiscCommands_def)
qed

text \<open>
  C21: after \<open>initMiscCommands\<close> every command of the server is found under its address with the slash, under
  its address without it, and under its number, each with its own function; any other address, and a number
  that no command has, is found as none, so that the client is told that the command does not exist.
\<close>

theorem commands_found:
  "\<exists>lib. initMiscCommands P new_lib = Some lib
    \<and> (\<forall>(name, n, f) \<in> set (misc_commands P). \<forall>rest.
         found lib (pad_str (chars (CHR ''/'' # name)) @ rest) (length (pad_str (chars (CHR ''/'' # name)))) f
       \<and> found lib (pad_str (chars name) @ rest) (length (pad_str (chars name))) f
       \<and> found lib ([0, 0, 0, of_nat n] @ rest) 4 f)
    \<and> (\<forall>nm rest. 0 \<notin> set nm \<longrightarrow> nm \<noteq> [] \<longrightarrow> (\<forall>(name, n, f) \<in> set (misc_commands P). nm \<noteq> chars (CHR ''/'' # name) \<and> nm \<noteq> chars name)
         \<longrightarrow> find_cmd lib (pad_str nm @ rest) = Some (length (pad_str nm), None))
    \<and> (\<forall>n rest. n < 64 \<longrightarrow> n \<notin> set (numbers (misc_commands P)) \<longrightarrow> find_cmd lib ([0, 0, 0, of_nat n] @ rest) = Some (4, None))"
proof -
  let ?cs = "misc_commands P"
  obtain lib where lib: "initMiscCommands P new_lib = Some lib" "lib_rep lib (lib_names ?cs)" "length (gCmdArray lib) = 64"
    and num: "\<And>n. n < 64 \<Longrightarrow> gCmdArray lib ! n = map_option (\<lambda>j. 2 * j) (map_of (zip (numbers ?cs) [0..<length ?cs]) n)"
    using initMiscCommands_ok by blast
  have "found lib (pad_str (chars (CHR ''/'' # name)) @ rest) (length (pad_str (chars (CHR ''/'' # name)))) f
      \<and> found lib (pad_str (chars name) @ rest) (length (pad_str (chars name))) f \<and> found lib ([0, 0, 0, of_nat n] @ rest) 4 f"
    if c: "(name, n, f) \<in> set ?cs" for name n f rest
  proof -
    obtain j where j: "j < length ?cs" "?cs ! j = (name, n, f)" using c by (auto simp: in_set_conv_nth)
    have name: "chars name \<noteq> []" using imageI [OF c, of fst] names_nonempty misc_names [of P]
      by (metis Nil_is_map_conv fst_conv image_set)
    have jl: "2 * j < length (lib_names ?cs)" "2 * j + 1 < length (lib_names ?cs)" using lib_names_nth(1) [OF j(1)] j(1) by simp_all
    have slash: "lib_names ?cs ! (2 * j) = (chars (CHR ''/'' # name), f)" and plain: "lib_names ?cs ! (2 * j + 1) = (chars name, f)"
      using lib_names_nth(2,3) [OF j(1)] j(2) by simp_all
    have "map_of (zip (numbers ?cs) [0..<length ?cs]) n = Some j"
      using map_of_zip_nth [of "numbers ?cs" "[0..<length ?cs]" j] misc_numbers(1) [of P] j by simp
    moreover have "n < 64" using misc_numbers(2) [of P] c by auto
    ultimately have "find_cmd lib ([0, 0, 0, of_nat n] @ rest) = Some (4, Some (2 * j))"
      using find_by_number [OF lib(3)] num by (simp only: option.map)
    then have "found lib ([0, 0, 0, of_nat n] @ rest) 4 f"
      using jl(1) slash lib(2) by (simp add: found_def lib_rep_def lib_cmd_def)
    then show ?thesis
      using found_by_name [OF lib(2) jl(1) slash] found_by_name [OF lib(2) jl(2) plain name] by simp
  qed
  moreover have "find_cmd lib (pad_str nm @ rest) = Some (length (pad_str nm), None)"
    if "0 \<notin> set nm" "nm \<noteq> []" "\<forall>(name, n, f) \<in> set ?cs. nm \<noteq> chars (CHR ''/'' # name) \<and> nm \<noteq> chars name" for nm rest
  proof -
    have "nm \<notin> set (List.map fst (lib_names ?cs))" using that(3) unfolding lib_names_fst by fastforce
    then show ?thesis using not_found_by_name [OF lib(2) that(1,2)] by simp
  qed
  moreover have "find_cmd lib ([0, 0, 0, of_nat n] @ rest) = Some (4, None)" if "n < 64" "n \<notin> set (numbers ?cs)" for n rest
    using find_by_number [OF lib(3) that(1)] num [OF that(1)] that(2) by (simp add: map_of_zip_is_None)
  ultimately show ?thesis using lib(1) by blast
qed

theorem commands_found_witness:
  "\<exists>lib. initMiscCommands \<lparr>unit_cmd = \<lambda>_ _ _. None, plugin_cmd = \<lambda>_. None\<rparr> new_lib = Some lib
    \<and> found lib (pad_str (chars ''/g_new'') @ [0, 0, 0, 0]) 8 meth_g_new \<and> found lib ([0, 0, 0, 21] @ []) 4 meth_g_new
    \<and> find_cmd lib (pad_str (chars ''/g_old'') @ []) = Some (8, None) \<and> find_cmd lib ([0, 0, 0, 13] @ []) = Some (4, None)"
proof -
  let ?P = "\<lparr>unit_cmd = \<lambda>_ _ _. None, plugin_cmd = \<lambda>_. None\<rparr> :: plugin_cmds"
  have n: "nm \<noteq> chars (CHR ''/'' # name) \<and> nm \<noteq> chars name" if "name \<in> set command_names" "nm = chars ''/g_old''" for nm name
  proof -
    have "''/g_old'' \<notin> set command_names \<and> ''g_old'' \<notin> set command_names" by code_simp
    then show ?thesis using that inj_of_char by (auto simp: inj_map_eq_map simp del: list.map)
  qed
  from commands_found [of ?P] obtain lib where lib: "initMiscCommands ?P new_lib = Some lib"
    "\<forall>(name, n, f) \<in> set (misc_commands ?P). \<forall>rest.
         found lib (pad_str (chars (CHR ''/'' # name)) @ rest) (length (pad_str (chars (CHR ''/'' # name)))) f
       \<and> found lib (pad_str (chars name) @ rest) (length (pad_str (chars name))) f
       \<and> found lib ([0, 0, 0, of_nat n] @ rest) 4 f"
    "\<forall>nm rest. 0 \<notin> set nm \<longrightarrow> nm \<noteq> [] \<longrightarrow> (\<forall>(name, n, f) \<in> set (misc_commands ?P). nm \<noteq> chars (CHR ''/'' # name) \<and> nm \<noteq> chars name)
         \<longrightarrow> find_cmd lib (pad_str nm @ rest) = Some (length (pad_str nm), None)"
    "\<forall>n rest. n < 64 \<longrightarrow> n \<notin> set (numbers (misc_commands ?P)) \<longrightarrow> find_cmd lib ([0, 0, 0, of_nat n] @ rest) = Some (4, None)"
    by (elim exE conjE)
  have len: "length (pad_str (chars ''/g_new'')) = 8" "length (pad_str (chars ''/g_old'')) = 8" by code_simp+
  have "(''g_new'', 21, meth_g_new) \<in> set (misc_commands ?P)" by (simp add: misc_commands_def)
  from bspec [OF lib(2) this] have "found lib (pad_str (chars ''/g_new'') @ [0, 0, 0, 0]) 8 meth_g_new" "found lib ([0, 0, 0, 21] @ []) 4 meth_g_new"
    using len(1) by (simp_all only: prod.case of_nat_numeral)
  moreover have "\<forall>(name, n, f) \<in> set (misc_commands ?P). chars ''/g_old'' \<noteq> chars (CHR ''/'' # name) \<and> chars ''/g_old'' \<noteq> chars name"
  proof (clarify)
    fix name n f assume "(name, n, f) \<in> set (misc_commands ?P)"
    then have "name \<in> set (List.map fst (misc_commands ?P))" by force
    then show "chars ''/g_old'' \<noteq> chars (CHR ''/'' # name) \<and> chars ''/g_old'' \<noteq> chars name"
      unfolding misc_names by (rule n [OF _ refl])
  qed
  then have "find_cmd lib (pad_str (chars ''/g_old'') @ []) = Some (8, None)"
    using spec [OF spec [OF lib(3), of "chars ''/g_old''"], of "[]"] len(2) by simp
  moreover have "13 \<notin> set (numbers (misc_commands ?P))" unfolding misc_numbers_eq by code_simp
  then have "find_cmd lib ([0, 0, 0, 13] @ []) = Some (4, None)"
    using lib(4) [rule_format, of 13 "[]"] by simp
  ultimately show ?thesis using lib(1) by blast
qed

end
