(* ===== verification/SC_Moves.thy ===== *)
theory SC_Moves
  imports SC_CmdLib
begin

text \<open>
  Commands that move nodes, from the bytes of the message to the tree: what a handler reads from a message,
  the state of the engine between two commands, and the moves as operations on lists of children.
\<close>

section \<open>The arguments of a message\<close>

text \<open>The bytes of a message behind its address; an iterator in front of the arguments \<open>as\<close>.\<close>

definition osc_args :: "osc_arg list \<Rightarrow> u8 list" where
  "osc_args as = pad_str (44 # List.map arg_tag as) @ enc_values as"

definition args_at :: "osc_arg list \<Rightarrow> sc_msg_iter \<Rightarrow> bool" where
  "args_at as m \<longleftrightarrow> (\<exists>T C R X Y. mdata m = T @ C @ enc_values as @ R \<and> rdpos m = length T + length C
     \<and> msize m = length T + length C + length (enc_values as) \<and> tags m = Some 1
     \<and> T = X @ List.map arg_tag as @ Y \<and> length X = 1 + tcount m \<and> (\<forall>a \<in> set as. arg_ok a))"

lemma args_at_Nil: "args_at [] m \<Longrightarrow> remain m = 0"
  by (auto simp: args_at_def remain_def)

lemma args_at_Cons:
  assumes "args_at (a # as) m"
  shows "0 < remain m" "int (length (enc_value a)) \<le> remain m" "nextTag d m = Some (arg_tag a)"
    "\<exists>m'. read_arg (arg_tag a) m = Some (a, m') \<and> args_at as m'"
proof -
  obtain T C R X Y where m: "mdata m = T @ C @ enc_values (a # as) @ R" "rdpos m = length T + length C"
    "msize m = length T + length C + length (enc_values (a # as))" "tags m = Some 1" "T = X @ List.map arg_tag (a # as) @ Y"
    "length X = 1 + tcount m" "\<forall>a \<in> set (a # as). arg_ok a"
    using assms by (auto simp: args_at_def)
  show "int (length (enc_value a)) \<le> remain m" using m(2,3) by (simp add: remain_def)
  then show "0 < remain m" using length_enc_value(2) [of a] by linarith
  show "nextTag d m = Some (arg_tag a)" using m(1,4-6) by (simp add: nextTag_def tag_here_def nth_append)
  obtain new where rd: "read_arg (arg_tag a) m = Some (a, m\<lparr>mdata := (T @ C) @ new @ (enc_values as @ R),
      rdpos := rdpos m + length (enc_value a), tcount := tcount m + 1\<rparr>)"
    and new: "length new = length (enc_value a)"
    by (rule read_arg_at [of a m "T @ C" "enc_values as @ R" 1]) (use m in \<open>auto simp: nth_append\<close>)
  have "args_at as (m\<lparr>mdata := (T @ C) @ new @ (enc_values as @ R), rdpos := rdpos m + length (enc_value a), tcount := tcount m + 1\<rparr>)"
    unfolding args_at_def
    by (intro exI [of _ T] exI [of _ "C @ new"] exI [of _ R] exI [of _ "X @ [arg_tag a]"] exI [of _ Y]) (use m new in auto)
  then show "\<exists>m'. read_arg (arg_tag a) m = Some (a, m') \<and> args_at as m'" using rd by blast
qed

lemma args_at_int:
  assumes "args_at (Arg_i i # as) m"
  shows "\<exists>m'. geti d m = Some (i, m') \<and> args_at as m'"
proof -
  obtain m' where "read_arg tag_i m = Some (Arg_i i, m')" "args_at as m'" using args_at_Cons(4) [OF assms] by auto
  moreover have "geti d m = geti 0 m" using args_at_Cons(1,3) [OF assms] by (auto simp: geti_def nextTag_def split: option.splits)
  ultimately show ?thesis by (auto simp: bind_eq_Some_conv)
qed

lemma args_at_init:
  assumes ok: "\<forall>a \<in> set as. arg_ok a"
  shows "\<exists>m. msg_init (length (osc_args as)) (osc_args as @ rest) = Some m \<and> args_at as m"
proof -
  let ?T = "pad_str (44 # List.map arg_tag as)"
  have nz: "0 \<notin> set (44 # List.map arg_tag as)" using nonzero_arg_tag by (auto simp: image_iff dest!: sym)
  have sk: "OSCstrskip (osc_args as @ rest) 0 = Some (length ?T)"
    using OSCstrskip_padded [OF nz, of "osc_args as @ rest" "[]" "enc_values as @ rest"] by (simp add: OSCstrskip_def osc_args_def)
  have "osc_args as @ rest \<noteq> []" "(osc_args as @ rest) ! 0 = 44" by (simp_all add: osc_args_def pad_str_def)
  then have "msg_init (length (osc_args as)) (osc_args as @ rest)
      = Some \<lparr>mdata = osc_args as @ rest, rdpos = length ?T, msize = length (osc_args as), tags = Some 1, tcount = 0\<rparr>"
    using sk by (simp add: msg_init_def)
  moreover have "args_at as \<lparr>mdata = osc_args as @ rest, rdpos = length ?T, msize = length (osc_args as), tags = Some 1, tcount = 0\<rparr>"
  proof -
    have "?T = [44] @ List.map arg_tag as @ replicate (4 - length (44 # List.map arg_tag as) mod 4) 0"
      unfolding pad_str_def by (simp only: append_Cons append_Nil)
    moreover have "osc_args as @ rest = ?T @ [] @ enc_values as @ rest" "length (osc_args as) = length ?T + length [] + length (enc_values as)"
      by (simp_all add: osc_args_def)
    ultimately show ?thesis
      unfolding args_at_def using ok
      by (intro exI [of _ ?T] exI [of _ "[]"] exI [of _ rest] exI [of _ "[44]"]
          exI [of _ "replicate (4 - length (44 # List.map arg_tag as) mod 4) 0"] conjI) (simp_all only: sc_msg_iter.simps list.size One_nat_def add_0_right)
  qed
  ultimately show ?thesis by blast
qed

section \<open>The engine between two commands\<close>

text \<open>
  The invariant: tables, queues and links are right, and the only node without a group is the root, the
  node with the identifier 0.
\<close>

definition engine_inv :: "nat \<Rightarrow> World \<Rightarrow> (ptr \<Rightarrow> ptr list) \<Rightarrow> bool" where
  "engine_inv n w K \<longleftrightarrow> world_ok n w \<and> tree_ok (heap w) K
     \<and> (\<forall>p nd. heap w p = Some nd \<longrightarrow> ((\<forall>g. p \<notin> set (K g)) \<longleftrightarrow> mID nd = 0))"

lemma engine_inv_rep: "engine_inv n w K \<Longrightarrow> tree_rep n w K"
  by (simp add: engine_inv_def world_ok_def tree_rep_def)

text \<open>What a command leaves alone when it only changes links and notifies the clients.\<close>

definition node_core :: "Node \<Rightarrow> i32 \<times> i32 \<times> bool \<times> def_ref" where
  "node_core nd = (mID nd, mHash nd, mIsGroup nd, mDef nd)"

definition moved :: "World \<Rightarrow> World \<Rightarrow> bool" where
  "moved w w' \<longleftrightarrow> (\<exists>h q. w' = w\<lparr>heap := h, mNodeEnds := q\<rparr>)
     \<and> (\<forall>p. map_option node_core (heap w' p) = map_option node_core (heap w p))"

lemma movedI:
  "w' = w\<lparr>heap := h, mNodeEnds := q\<rparr> \<Longrightarrow> (\<And>p. map_option node_core (h p) = map_option node_core (heap w p)) \<Longrightarrow> moved w w'"
  unfolding moved_def by auto

lemma moved_refl [simp]: "moved w w"
proof -
  have "w = w\<lparr>heap := heap w, mNodeEnds := mNodeEnds w\<rparr>" by simp
  then show ?thesis unfolding moved_def by blast
qed

lemma moved_trans: "moved w w' \<Longrightarrow> moved w' w'' \<Longrightarrow> moved w w''"
proof -
  assume "moved w w'" "moved w' w''"
  then obtain h q h' q' where "w' = w\<lparr>heap := h, mNodeEnds := q\<rparr>" "w'' = w'\<lparr>heap := h', mNodeEnds := q'\<rparr>"
    and c: "\<forall>p. map_option node_core (heap w'' p) = map_option node_core (heap w p)"
    by (auto simp: moved_def)
  then have "w'' = w\<lparr>heap := h', mNodeEnds := q'\<rparr>" by simp
  with c show "moved w w''" unfolding moved_def by blast
qed

lemma moved_core:
  assumes "moved w w'"
  shows "heap w' p = Some nd' \<Longrightarrow> \<exists>nd. heap w p = Some nd \<and> node_core nd' = node_core nd"
    and "heap w p = Some nd \<Longrightarrow> \<exists>nd'. heap w' p = Some nd' \<and> node_core nd' = node_core nd"
proof -
  have c: "map_option node_core (heap w' p) = map_option node_core (heap w p)" using assms by (simp add: moved_def)
  show "heap w' p = Some nd' \<Longrightarrow> \<exists>nd. heap w p = Some nd \<and> node_core nd' = node_core nd"
    using c by (cases "heap w p") auto
  show "heap w p = Some nd \<Longrightarrow> \<exists>nd'. heap w' p = Some nd' \<and> node_core nd' = node_core nd"
    using c by (cases "heap w' p") auto
qed

lemma moved_kv: "moved w w' \<Longrightarrow> node_kv (heap w') p = node_kv (heap w) p"
  using moved_core [of w w' p] by (cases "heap w p"; cases "heap w' p") (auto simp: node_kv_def node_core_def)

lemma moved_same:
  assumes "moved w w'" "lib_ok n w"
  shows "lib_ok n w'" "node_map w' = node_map w" "mRecentID w' = mRecentID w"
proof -
  obtain h q where "w' = w\<lparr>heap := h, mNodeEnds := q\<rparr>" using assms(1) by (auto simp: moved_def)
  then have eq: "mNodeLib w' = mNodeLib w" "fresh w \<le> fresh w'" and "mRecentID w' = mRecentID w" by simp_all
  then show "mRecentID w' = mRecentID w" by simp
  show "lib_ok n w'" "node_map w' = node_map w" by (rule lib_ok_same_ids [OF assms(2) eq moved_kv [OF assms(1)]])+
qed

text \<open>An operation on the links only.\<close>

lemma moved_upd:
  assumes "upd p f w = Some w'" and "\<And>nd. node_core (f nd) = node_core nd"
  shows "moved w w'"
proof -
  obtain nd where nd: "heap w p = Some nd" and w': "w' = w\<lparr>heap := (heap w)(p \<mapsto> f nd)\<rparr>"
    using assms(1) by (cases "heap w p") (auto simp: upd_def)
  have "w' = w\<lparr>heap := (heap w)(p \<mapsto> f nd), mNodeEnds := mNodeEnds w\<rparr>" using w' by simp
  then show ?thesis by (rule movedI) (use nd assms(2) in auto)
qed

lemma moved_sets:
  "set_next p v w = Some w' \<Longrightarrow> moved w w'" "set_prev p v w = Some w' \<Longrightarrow> moved w w'" "set_parent p v w = Some w' \<Longrightarrow> moved w w'"
  "set_head p v w = Some w' \<Longrightarrow> moved w w'" "set_tail p v w = Some w' \<Longrightarrow> moved w w'"
  by (auto simp: set_defs node_core_def intro: moved_upd)

lemma moved_bind: "(f w \<bind> g) = Some w'' \<Longrightarrow> (\<And>w'. f w = Some w' \<Longrightarrow> moved w w') \<Longrightarrow> (\<And>w'. g w' = Some w'' \<Longrightarrow> moved w' w'') \<Longrightarrow> moved w w''"
  by (cases "f w") (auto intro: moved_trans)

lemma Node_Remove_moved: "Node_Remove p w = Some w' \<Longrightarrow> moved w w'"
  by (auto simp: Node_Remove_def unlink_def bind_eq_Some_conv split: option.splits dest!: moved_sets elim!: moved_trans)

lemma Group_AddHead_moved: "Group_AddHead g p w = Some w' \<Longrightarrow> moved w w'"
  by (auto simp: Group_AddHead_def bind_eq_Some_conv split: option.splits if_splits dest!: moved_sets elim!: moved_trans)

lemma Group_AddTail_moved: "Group_AddTail g p w = Some w' \<Longrightarrow> moved w w'"
  by (auto simp: Group_AddTail_def bind_eq_Some_conv split: option.splits if_splits dest!: moved_sets elim!: moved_trans)

lemma Node_AddAfter_moved: "Node_AddAfter p t w = Some w' \<Longrightarrow> moved w w'"
  by (auto simp: Node_AddAfter_def bind_eq_Some_conv split: option.splits if_splits dest!: moved_sets elim!: moved_trans)

lemma Node_AddBefore_moved: "Node_AddBefore p t w = Some w' \<Longrightarrow> moved w w'"
  by (auto simp: Node_AddBefore_def bind_eq_Some_conv split: option.splits if_splits dest!: moved_sets elim!: moved_trans)

section \<open>Moves as operations on lists\<close>

definition insert_before :: "'a \<Rightarrow> 'a \<Rightarrow> 'a list \<Rightarrow> 'a list" where
  "insert_before t p xs = concat (List.map (\<lambda>x. if x = t then [p, x] else [x]) xs)"

definition insert_after :: "'a \<Rightarrow> 'a \<Rightarrow> 'a list \<Rightarrow> 'a list" where
  "insert_after t p xs = concat (List.map (\<lambda>x. if x = t then [x, p] else [x]) xs)"

definition without_node :: "ptr \<Rightarrow> (ptr \<Rightarrow> ptr list) \<Rightarrow> ptr \<Rightarrow> ptr list" where
  "without_node p K = (\<lambda>g. removeAll p (K g))"

definition put_head :: "ptr \<Rightarrow> ptr \<Rightarrow> (ptr \<Rightarrow> ptr list) \<Rightarrow> ptr \<Rightarrow> ptr list" where
  "put_head g p K = (without_node p K)(g := p # removeAll p (K g))"
definition put_tail :: "ptr \<Rightarrow> ptr \<Rightarrow> (ptr \<Rightarrow> ptr list) \<Rightarrow> ptr \<Rightarrow> ptr list" where
  "put_tail g p K = (without_node p K)(g := removeAll p (K g) @ [p])"
definition put_before :: "ptr \<Rightarrow> ptr \<Rightarrow> (ptr \<Rightarrow> ptr list) \<Rightarrow> ptr \<Rightarrow> ptr list" where
  "put_before t p K = (\<lambda>g. insert_before t p (removeAll p (K g)))"
definition put_after :: "ptr \<Rightarrow> ptr \<Rightarrow> (ptr \<Rightarrow> ptr list) \<Rightarrow> ptr \<Rightarrow> ptr list" where
  "put_after t p K = (\<lambda>g. insert_after t p (removeAll p (K g)))"

lemma insert_before_none: "t \<notin> set xs \<Longrightarrow> insert_before t p xs = xs"
  by (induction xs) (auto simp: insert_before_def)

lemma insert_before_at: "t \<notin> set xs \<Longrightarrow> t \<notin> set ys \<Longrightarrow> insert_before t p (xs @ t # ys) = xs @ p # t # ys"
  using insert_before_none [of t xs p] insert_before_none [of t ys p] by (simp add: insert_before_def)

lemma insert_after_none: "t \<notin> set xs \<Longrightarrow> insert_after t p xs = xs"
  by (induction xs) (auto simp: insert_after_def)

lemma insert_after_at: "t \<notin> set xs \<Longrightarrow> t \<notin> set ys \<Longrightarrow> insert_after t p (xs @ t # ys) = xs @ t # p # ys"
  using insert_after_none [of t xs p] insert_after_none [of t ys p] by (simp add: insert_after_def)

lemma set_insert: "set (insert_before t p xs) = set xs \<union> (if t \<in> set xs then {p} else {})"
  "set (insert_after t p xs) = set xs \<union> (if t \<in> set xs then {p} else {})"
  by (induction xs) (auto simp: insert_before_def insert_after_def)

lemma engine_inv_node:
  assumes "engine_inv n w K" "heap w p = Some nd" "mID nd \<noteq> 0"
  obtains g as bs where "K g = as @ p # bs" "p \<notin> set as" "p \<notin> set bs" "\<And>h. h \<noteq> g \<Longrightarrow> p \<notin> set (K h)" "mParent nd = Some g"
proof -
  have ok: "tree_ok (heap w) K" using assms(1) by (simp add: engine_inv_def)
  obtain g where g: "p \<in> set (K g)" using assms by (auto simp: engine_inv_def)
  then obtain as bs where s: "K g = as @ p # bs" by (auto simp: in_set_conv_decomp)
  have "distinct (as @ p # bs)" using tree_ok_D(4) [OF ok, of g] s by simp
  moreover have par: "p \<in> set (K h) \<Longrightarrow> mParent nd = Some h" for h using tree_ok_D(5) [OF ok, of p h] assms(2) by auto
  ultimately show ?thesis using that [OF s] g by (metis distinct_append distinct.simps(2) not_distinct_conv_prefix option.inject disjoint_insert(1) list.simps(15))
qed

lemma engine_inv_root:
  assumes "engine_inv n w K" "heap w p = Some nd" "mID nd = 0"
  shows "mParent nd = None" "mPrev nd = None" "mNext nd = None" "p \<notin> set (K g)"
proof -
  have ok: "tree_ok (heap w) K" and no: "\<And>g. p \<notin> set (K g)" using assms by (auto simp: engine_inv_def)
  show "p \<notin> set (K g)" by (rule no)
  show "mParent nd = None" using tree_ok_D(1) [OF ok assms(2)] no by (auto simp: links_ok_def split: option.splits)
  then show "mPrev nd = None" "mNext nd = None" using tree_ok_D(1) [OF ok assms(2)] by (simp_all add: links_ok_def)
qed

lemma moved_world_ok:
  assumes m: "moved w w'" and ok: "world_ok n w" and q: "mNodeEnds w' = mNodeEnds w"
  shows "world_ok n w'"
proof -
  obtain h where w': "w' = w\<lparr>heap := h\<rparr>" using m q by (auto simp: moved_def)
  have c: "mDef nd' = mDef nd \<and> mIsGroup nd' = mIsGroup nd" if "heap w x = Some nd" "h x = Some nd'" for x nd nd'
    using moved_core(1) [OF m, of x nd'] that w' by (auto simp: node_core_def)
  show ?thesis unfolding w' using world_ok_heap [OF ok _ c] moved_kv [OF m] w' by auto
qed

lemma moved_inv:
  assumes m: "moved w w'" and inv: "engine_inv n w K" and tree: "world_ok n w'" "tree_ok (heap w') K'"
    and same: "\<And>x. heap w x \<noteq> None \<Longrightarrow> (\<exists>g. x \<in> set (K' g)) \<longleftrightarrow> (\<exists>g. x \<in> set (K g))"
  shows "engine_inv n w' K'"
  unfolding engine_inv_def
proof (intro conjI allI impI tree)
  fix x nd' assume x: "heap w' x = Some nd'"
  then obtain nd where nd: "heap w x = Some nd" "mID nd' = mID nd" using moved_core(1) [OF m x] by (auto simp: node_core_def)
  then show "(\<forall>g. x \<notin> set (K' g)) \<longleftrightarrow> mID nd' = 0" using inv same [of x] unfolding engine_inv_def by auto
qed

lemma state_msg_ok:
  assumes inv: "engine_inv n w K" and p: "heap w p = Some nd"
  shows "\<exists>w'. Node_StateMsg p st w = Some w' \<and> engine_inv n w' K \<and> moved w w'"
proof -
  have ok: "world_ok n w" "tree_ok (heap w) K" and rep: "tree_rep n w K" using inv engine_inv_rep by (auto simp: engine_inv_def)
  have ends: "mIsGroup nd \<longrightarrow> mHead nd = first_of (K p) \<and> mTail nd = last_of (K p)" using group_ends [OF rep p] by blast
  have kid: "heap w c \<noteq> None" if "c \<in> set (K g)" for c g using child_of [OF rep that] by auto
  have nb: "heap w q \<noteq> None" if q: "mParent nd = Some q \<or> mPrev nd = Some q \<or> mNext nd = Some q \<or> mIsGroup nd \<and> (mHead nd = Some q \<or> mTail nd = Some q)" for q
  proof (cases "mID nd = 0")
    case True
    then show ?thesis using q engine_inv_root [OF inv p] ends kid first_of_in last_of_in by (metis option.distinct(1))
  next
    case False
    then obtain g as bs where K: "K g = as @ p # bs" "mParent nd = Some g" by (rule engine_inv_node [OF inv p])
    obtain gn where "heap w g = Some gn" "mPrev nd = prev_of (K g) p" "mNext nd = next_of (K g) p"
      using child_of [OF rep, of p g] K p by auto
    moreover have "prev_of (K g) p = last_of as" "next_of (K g) p = first_of bs"
      using prev_of_insert [of as p bs] next_of_insert [of as p bs] tree_ok_D(4) [OF ok(2), of g] K(1) by auto
    moreover have "c \<in> set (K g)" if "c \<in> set as \<or> c \<in> set bs" for c using that K(1) by auto
    ultimately show ?thesis using q K(2) ends kid first_of_in last_of_in by (metis option.distinct(1) option.inject)
  qed
  obtain q where q: "Node_StateMsg p st w = Some (w\<lparr>mNodeEnds := q\<rparr>)" "world_ok n (w\<lparr>mNodeEnds := q\<rparr>)"
    using Node_StateMsg_ok [OF ok(1) p nb] by blast
  have m: "moved w (w\<lparr>mNodeEnds := q\<rparr>)" by (rule movedI [where h = "heap w" and q = q]) simp_all
  have "engine_inv n (w\<lparr>mNodeEnds := q\<rparr>) K" by (rule moved_inv [OF m inv q(2)]) (use ok(2) in simp_all)
  with q(1) m show ?thesis by blast
qed

lemma remove_ok:
  assumes inv: "engine_inv n w K" and p: "heap w p = Some nd" "mID nd \<noteq> 0"
  shows "\<exists>w'. Node_Remove p w = Some w' \<and> tree_rep n w' (without_node p K) \<and> unlinked w' p \<and> moved w w' \<and> mNodeEnds w' = mNodeEnds w"
proof -
  obtain g as bs where K: "K g = as @ p # bs" "p \<notin> set as" "p \<notin> set bs" "\<And>h. h \<noteq> g \<Longrightarrow> p \<notin> set (K h)" "mParent nd = Some g"
    using engine_inv_node [OF inv p] by blast
  have eq: "without_node p K = K(g := as @ bs)" using K by (auto simp: without_node_def fun_eq_iff removeAll_id)
  obtain w' where w': "Node_Remove p w = Some w'" "tree_rep n w' (K(g := as @ bs))"
    "w' = map_heap (unlink_node (Some g) p (last_of as) (first_of bs)) w"
    using Node_Remove_rep [OF engine_inv_rep [OF inv] K(1)] by blast
  moreover have "unlinked w' p" using p w'(3) by (simp add: unlinked_def unlink_node_def)
  moreover have "mNodeEnds w' = mNodeEnds w" using w'(3) by (simp add: map_heap_def)
  ultimately show ?thesis using Node_Remove_moved [OF w'(1)] eq by auto
qed

text \<open>A move: taking the node out, putting it in, telling the clients.\<close>

lemma placed:
  assumes inv: "engine_inv n w K" and m: "moved w w1" "mNodeEnds w1 = mNodeEnds w" "moved w1 w2" "mNodeEnds w2 = mNodeEnds w1"
    and rep: "tree_rep n w2 K'"
    and same: "\<And>x. (\<exists>g. x \<in> set (K' g)) \<longleftrightarrow> (\<exists>g. x \<in> set (K g))"
  shows "engine_inv n w2 K' \<and> moved w w2"
proof -
  have m2: "moved w w2" by (rule moved_trans [OF m(1,3)])
  have "world_ok n w2" by (rule moved_world_ok [OF m2]) (use inv m in \<open>simp_all add: engine_inv_def\<close>)
  then show ?thesis using moved_inv [OF m2 inv] rep same m2 by (simp add: tree_rep_def)
qed

lemma same_ends:
  "upd p f w = Some w' \<Longrightarrow> mNodeEnds w' = mNodeEnds w"
  by (auto simp: upd_def split: option.splits)

lemma add_ends:
  "Group_AddHead g p w = Some w' \<Longrightarrow> mNodeEnds w' = mNodeEnds w" "Group_AddTail g p w = Some w' \<Longrightarrow> mNodeEnds w' = mNodeEnds w"
  "Node_AddAfter p t w = Some w' \<Longrightarrow> mNodeEnds w' = mNodeEnds w" "Node_AddBefore p t w = Some w' \<Longrightarrow> mNodeEnds w' = mNodeEnds w"
  by (auto simp: Group_AddHead_def Group_AddTail_def Node_AddAfter_def Node_AddBefore_def set_defs bind_eq_Some_conv
      split: option.splits if_splits dest!: same_ends)

lemma in_put:
  "x \<in> set (put_head g p K h) \<longleftrightarrow> h = g \<and> x = p \<or> x \<noteq> p \<and> x \<in> set (K h)"
  "x \<in> set (put_tail g p K h) \<longleftrightarrow> h = g \<and> x = p \<or> x \<noteq> p \<and> x \<in> set (K h)"
  "x \<in> set (put_before t p K h) \<longleftrightarrow> x = p \<and> t \<noteq> p \<and> t \<in> set (K h) \<or> x \<noteq> p \<and> x \<in> set (K h)"
  "x \<in> set (put_after t p K h) \<longleftrightarrow> x = p \<and> t \<noteq> p \<and> t \<in> set (K h) \<or> x \<noteq> p \<and> x \<in> set (K h)"
  by (auto simp: put_head_def put_tail_def put_before_def put_after_def without_node_def set_insert split: if_splits)

lemma put_sets:
  assumes "\<exists>h. p \<in> set (K h)"
  shows "(\<exists>h. x \<in> set (put_head g p K h)) \<longleftrightarrow> (\<exists>h. x \<in> set (K h))" "(\<exists>h. x \<in> set (put_tail g p K h)) \<longleftrightarrow> (\<exists>h. x \<in> set (K h))"
    and "\<exists>g. t \<in> set (K g) \<Longrightarrow> t \<noteq> p \<Longrightarrow> (\<exists>h. x \<in> set (put_before t p K h)) \<longleftrightarrow> (\<exists>h. x \<in> set (K h))"
      "\<exists>g. t \<in> set (K g) \<Longrightarrow> t \<noteq> p \<Longrightarrow> (\<exists>h. x \<in> set (put_after t p K h)) \<longleftrightarrow> (\<exists>h. x \<in> set (K h))"
  using assms unfolding in_put by blast+

definition group_at :: "World \<Rightarrow> ptr \<Rightarrow> bool" where
  "group_at w g = (case heap w g of Some gn \<Rightarrow> mIsGroup gn | None \<Rightarrow> False)"

lemma group_at_iff: "group_at w g \<longleftrightarrow> (\<exists>gn. heap w g = Some gn \<and> mIsGroup gn)"
  by (auto simp: group_at_def split: option.splits)

lemma moved_group: "moved w w' \<Longrightarrow> group_at w' g = group_at w g"
  using moved_core [of w w' g] by (cases "heap w g"; cases "heap w' g") (auto simp: group_at_def node_core_def)

lemma into_group_ok:
  assumes inv: "engine_inv n w K" and p: "heap w p = Some nd" "mID nd \<noteq> 0" and g: "group_at w g"
  shows "\<exists>w'. (Node_Remove p w \<bind> Group_AddHead g p) = Some w' \<and> engine_inv n w' (put_head g p K) \<and> moved w w'"
    and "\<exists>w'. (Node_Remove p w \<bind> Group_AddTail g p) = Some w' \<and> engine_inv n w' (put_tail g p K) \<and> moved w w'"
proof -
  have h: "\<exists>h. p \<in> set (K h)" using inv p by (auto simp: engine_inv_def)
  obtain w1 where w1: "Node_Remove p w = Some w1" "tree_rep n w1 (without_node p K)" "unlinked w1 p" "moved w w1" "mNodeEnds w1 = mNodeEnds w"
    using remove_ok [OF inv p] by blast
  obtain gn where gn: "heap w1 g = Some gn" "mIsGroup gn" using g moved_group [OF w1(4), of g] by (auto simp: group_at_iff)
  obtain w2 where w2: "Group_AddHead g p w1 = Some w2" "tree_rep n w2 (put_head g p K)"
    using Group_AddHead_rep [OF w1(2,3) gn] by (auto simp: put_head_def without_node_def)
  show "\<exists>w'. (Node_Remove p w \<bind> Group_AddHead g p) = Some w' \<and> engine_inv n w' (put_head g p K) \<and> moved w w'"
    using w1(1) w2(1) placed [OF inv w1(4,5) Group_AddHead_moved [OF w2(1)] add_ends(1) [OF w2(1)] w2(2) put_sets(1) [OF h]] by simp
  obtain w3 where w3: "Group_AddTail g p w1 = Some w3" "tree_rep n w3 (put_tail g p K)"
    using Group_AddTail_rep [OF w1(2,3) gn] by (auto simp: put_tail_def without_node_def)
  show "\<exists>w'. (Node_Remove p w \<bind> Group_AddTail g p) = Some w' \<and> engine_inv n w' (put_tail g p K) \<and> moved w w'"
    using w1(1) w3(1) placed [OF inv w1(4,5) Group_AddTail_moved [OF w3(1)] add_ends(2) [OF w3(1)] w3(2) put_sets(2) [OF h]] by simp
qed

lemma beside_node_ok:
  assumes inv: "engine_inv n w K" and p: "heap w p = Some nd" "mID nd \<noteq> 0" and t: "heap w t = Some tn" "mID tn \<noteq> 0" "t \<noteq> p"
  shows "\<exists>w'. (Node_Remove p w \<bind> Node_AddBefore p t) = Some w' \<and> engine_inv n w' (put_before t p K) \<and> moved w w'"
    and "\<exists>w'. (Node_Remove p w \<bind> Node_AddAfter p t) = Some w' \<and> engine_inv n w' (put_after t p K) \<and> moved w w'"
proof -
  have h: "\<exists>h. p \<in> set (K h)" "\<exists>h. t \<in> set (K h)" using inv p t by (auto simp: engine_inv_def)
  obtain w1 where w1: "Node_Remove p w = Some w1" "tree_rep n w1 (without_node p K)" "unlinked w1 p" "moved w w1" "mNodeEnds w1 = mNodeEnds w"
    using remove_ok [OF inv p] by blast
  obtain g as bs where K: "K g = as @ t # bs" "t \<notin> set as" "t \<notin> set bs" "\<And>h. h \<noteq> g \<Longrightarrow> t \<notin> set (K h)" "mParent tn = Some g"
    using engine_inv_node [OF inv t(1,2)] by blast
  let ?as = "removeAll p as" and ?bs = "removeAll p bs"
  have K1: "without_node p K g = ?as @ t # ?bs" using K(1) t(3) by (simp add: without_node_def)
  have eq: "(without_node p K)(g := ?as @ p # t # ?bs) = put_before t p K" "(without_node p K)(g := ?as @ t # p # ?bs) = put_after t p K"
    using K t(3) by (auto simp: fun_eq_iff without_node_def put_before_def put_after_def insert_before_at insert_after_at insert_before_none insert_after_none)
  obtain w2 where w2: "Node_AddBefore p t w1 = Some w2" "tree_rep n w2 (put_before t p K)"
    using Node_AddBefore_rep [OF w1(2,3) K1] eq by auto
  show "\<exists>w'. (Node_Remove p w \<bind> Node_AddBefore p t) = Some w' \<and> engine_inv n w' (put_before t p K) \<and> moved w w'"
    using w1(1) w2(1) placed [OF inv w1(4,5) Node_AddBefore_moved [OF w2(1)] add_ends(4) [OF w2(1)] w2(2) put_sets(3) [OF h t(3)]] by simp
  obtain w3 where w3: "Node_AddAfter p t w1 = Some w3" "tree_rep n w3 (put_after t p K)"
    using Node_AddAfter_rep [OF w1(2,3) K1] eq by auto
  show "\<exists>w'. (Node_Remove p w \<bind> Node_AddAfter p t) = Some w' \<and> engine_inv n w' (put_after t p K) \<and> moved w w'"
    using w1(1) w3(1) placed [OF inv w1(4,5) Node_AddAfter_moved [OF w3(1)] add_ends(3) [OF w3(1)] w3(2) put_sets(4) [OF h t(3)]] by simp
qed

text \<open>The root does not move.\<close>

lemma root_stays:
  assumes inv: "engine_inv n w K" and p: "heap w p = Some nd" "mID nd = 0"
  shows "Node_Remove p w = Some w" "Group_AddHead g p w = Some w" "Group_AddTail g p w = Some w"
    and "heap w t \<noteq> None \<Longrightarrow> Node_AddBefore p t w = Some w" "heap w t \<noteq> None \<Longrightarrow> Node_AddAfter p t w = Some w"
proof -
  note np = engine_inv_root(1-3) [OF inv p]
  let ?w = "map_heap (unlink_node (mParent nd) p (mPrev nd) (mNext nd)) w"
  have r: "Node_Remove p w = Some ?w" by (rule Node_Remove_heap [OF p(1)]) (use np in simp_all)
  have "unlink_node (mParent nd) p (mPrev nd) (mNext nd) x m = m" if "heap w x = Some m" for x m
    using that p(1) np by (cases "x = p") (auto simp: unlink_node_def)
  then have "heap ?w x = heap w x" for x by (cases "heap w x") simp_all
  then have "?w = w" by (simp add: map_heap_def)
  with r show "Node_Remove p w = Some w" by simp
qed (use p in \<open>auto simp: Group_AddHead_def Group_AddTail_def Node_AddBefore_def Node_AddAfter_def deref_def\<close>)

section \<open>Moving into groups\<close>

text \<open>The node an identifier names: \<open>-1\<close> is the last one created.\<close>

definition lookup :: "World \<Rightarrow> i32 \<Rightarrow> ptr option" where
  "lookup w i = node_map w (if i = -1 then mRecentID w else i)"

definition lookup_group :: "World \<Rightarrow> i32 \<Rightarrow> ptr option" where
  "lookup_group w i = (case lookup w i of Some p \<Rightarrow> if group_at w p then Some p else None | None \<Rightarrow> None)"

definition root_at :: "World \<Rightarrow> ptr \<Rightarrow> bool" where
  "root_at w p = (case heap w p of Some nd \<Rightarrow> mID nd = 0 | None \<Rightarrow> False)"

lemma lookup_heap: "lib_ok n w \<Longrightarrow> lookup w i = Some p \<Longrightarrow> \<exists>nd. heap w p = Some nd"
  using node_map_Some [of n w] by (auto simp: lookup_def)

lemma moved_lookup:
  assumes "moved w w'" "lib_ok n w"
  shows "lookup w' i = lookup w i" "lookup_group w' i = lookup_group w i" "root_at w' p = root_at w p"
proof -
  show l: "lookup w' i = lookup w i" using moved_same [OF assms] by (simp add: lookup_def)
  show "lookup_group w' i = lookup_group w i" unfolding lookup_group_def l using moved_group [OF assms(1)] by (simp split: option.splits)
  show "root_at w' p = root_at w p" using moved_core [OF assms(1), of p]
    by (cases "heap w p"; cases "heap w' p") (auto simp: root_at_def node_core_def)
qed

lemma inv_lib_ok: "engine_inv n w K \<Longrightarrow> lib_ok n w"
  by (simp add: engine_inv_def world_ok_def)

lemma get_node:
  assumes "args_at (Arg_i i # as) m" "lib_ok n w"
  shows "\<exists>m'. Msg_GetNode w m = Some (lookup w i, m') \<and> args_at as m'"
proof -
  obtain m' where m': "geti 0 m = Some (i, m')" "args_at as m'" using args_at_int [OF assms(1)] by blast
  moreover have "nextTag tag_i m = Some tag_i" using args_at_Cons(3) [OF assms(1)] by simp
  ultimately show ?thesis using World_GetNode_eq [OF assms(2), of i] by (simp add: Msg_GetNode_def lookup_def)
qed

lemma get_group:
  assumes "args_at (Arg_i i # as) m" "lib_ok n w"
  shows "\<exists>m'. Msg_GetGroup w m = Some (lookup_group w i, m') \<and> args_at as m'"
proof -
  obtain m' where m': "Msg_GetNode w m = Some (lookup w i, m')" "args_at as m'" using get_node [OF assms] by blast
  show ?thesis
  proof (cases "lookup w i")
    case None
    then show ?thesis using m' by (simp add: Msg_GetGroup_def lookup_group_def)
  next
    case (Some p)
    then obtain nd where "heap w p = Some nd" using lookup_heap [OF assms(2)] by blast
    then show ?thesis using m' Some by (auto simp: Msg_GetGroup_def lookup_group_def deref_def group_at_def)
  qed
qed

lemma lookup_group_Some: "lookup_group w i = Some g \<longleftrightarrow> lookup w i = Some g \<and> group_at w g"
  by (auto simp: lookup_group_def split: option.splits if_splits)

text \<open>One move on the lists, the root apart.\<close>

definition move_unless_root :: "World \<Rightarrow> ptr \<Rightarrow> (ptr \<Rightarrow> ptr list) \<Rightarrow> (ptr \<Rightarrow> ptr list) \<Rightarrow> ptr \<Rightarrow> ptr list" where
  "move_unless_root w p K' K = (if root_at w p then K else K')"

lemma moved_then_told:
  assumes "engine_inv n w1 K'" "moved w w1" "heap w p \<noteq> None"
  shows "\<exists>w'. Node_StateMsg p st w1 = Some w' \<and> engine_inv n w' K' \<and> moved w w'"
proof -
  obtain nd where "heap w1 p = Some nd" using moved_core(2) [OF assms(2)] assms(3) by blast
  from state_msg_ok [OF assms(1) this, of st] show ?thesis using moved_trans [OF assms(2)] by blast
qed

lemma put_into_ok:
  assumes inv: "engine_inv n w K" and p: "heap w p \<noteq> None" and g: "group_at w g"
  shows "\<exists>w'. (Node_Remove p w \<bind> Group_AddHead g p) = Some w' \<and> engine_inv n w' (move_unless_root w p (put_head g p K) K) \<and> moved w w'"
    and "\<exists>w'. (Node_Remove p w \<bind> Group_AddTail g p) = Some w' \<and> engine_inv n w' (move_unless_root w p (put_tail g p K) K) \<and> moved w w'"
proof -
  obtain nd where nd: "heap w p = Some nd" using p by blast
  have r: "root_at w p \<longleftrightarrow> mID nd = 0" using nd by (simp add: root_at_def)
  show "\<exists>w'. (Node_Remove p w \<bind> Group_AddHead g p) = Some w' \<and> engine_inv n w' (move_unless_root w p (put_head g p K) K) \<and> moved w w'"
    using root_stays(1,2) [OF inv nd] into_group_ok(1) [OF inv nd _ g] inv r by (cases "mID nd = 0") (auto simp: move_unless_root_def)
  show "\<exists>w'. (Node_Remove p w \<bind> Group_AddTail g p) = Some w' \<and> engine_inv n w' (move_unless_root w p (put_tail g p K) K) \<and> moved w w'"
    using root_stays(1,3) [OF inv nd] into_group_ok(2) [OF inv nd _ g] inv r by (cases "mID nd = 0") (auto simp: move_unless_root_def)
qed

lemma move_into_ok:
  assumes inv: "engine_inv n w K" and p: "heap w p \<noteq> None"
    and put: "\<exists>w'. (Node_Remove p w \<bind> add g p) = Some w' \<and> engine_inv n w' K' \<and> moved w w'"
  shows "\<exists>w'. move_into add g p w = Some w' \<and> engine_inv n w' K' \<and> moved w w'"
    and "\<exists>w'. (do { w \<leftarrow> Node_Remove p w; w \<leftarrow> add g p w; Node_StateMsg p kNode_Move w }) = Some w' \<and> engine_inv n w' K' \<and> moved w w'"
proof -
  obtain w1 w2 where w: "Node_Remove p w = Some w1" "add g p w1 = Some w2" "engine_inv n w2 K'" "moved w w2"
    using put by (auto simp: bind_eq_Some_conv)
  from moved_then_told [OF w(3,4) p] obtain w' where w': "Node_StateMsg p kNode_Move w2 = Some w'" "engine_inv n w' K'" "moved w w'" by blast
  show "\<exists>w'. move_into add g p w = Some w' \<and> engine_inv n w' K' \<and> moved w w'"
    using p w w' by (auto simp: move_into_def deref_def)
  show "\<exists>w'. (do { w \<leftarrow> Node_Remove p w; w \<leftarrow> add g p w; Node_StateMsg p kNode_Move w }) = Some w' \<and> engine_inv n w' K' \<and> moved w w'"
    using w w' by simp
qed

text \<open>What \<open>g_head\<close> and \<open>g_tail\<close> do to the lists: pairs of a group and a node, up to the first one that is missing.\<close>

fun group_moves :: "(ptr \<Rightarrow> ptr \<Rightarrow> (ptr \<Rightarrow> ptr list) \<Rightarrow> ptr \<Rightarrow> ptr list) \<Rightarrow> World \<Rightarrow> (i32 \<times> i32) list \<Rightarrow> (ptr \<Rightarrow> ptr list)
    \<Rightarrow> SCErr \<times> (ptr \<Rightarrow> ptr list)" where
  "group_moves put w [] K = (kSCErr_None, K)"
| "group_moves put w ((g, i) # ps) K = (case (lookup_group w g, lookup w i) of
       (None, _) \<Rightarrow> (kSCErr_GroupNotFound, K)
     | (Some gp, None) \<Rightarrow> (kSCErr_NodeNotFound, K)
     | (Some gp, Some p) \<Rightarrow> group_moves put w ps (move_unless_root w p (put gp p K) K))"

definition pair_args :: "(i32 \<times> i32) list \<Rightarrow> osc_arg list" where
  "pair_args ps = concat (List.map (\<lambda>(a, b). [Arg_i a, Arg_i b]) ps)"

lemma pair_args_simps [simp]:
  "pair_args [] = []" "pair_args ((a, b) # ps) = Arg_i a # Arg_i b # pair_args ps"
  by (simp_all add: pair_args_def)

lemma pair_args_ok: "\<forall>a \<in> set (pair_args ps). arg_ok a"
  by (auto simp: pair_args_def)

lemma group_moves_moved:
  assumes "moved w w'" "lib_ok n w"
  shows "group_moves put w' ps K = group_moves put w ps K"
  using moved_lookup [OF assms]
  by (induction ps arbitrary: K rule: list.induct) (auto simp: move_unless_root_def split: option.splits)

lemma loop_from_Suc:
  "loop_from (Suc k) cond body m w = (if cond m then do {
       (r, m, w) \<leftarrow> body m w;
       (case r of Some _ \<Rightarrow> Some (returned r, w) | None \<Rightarrow> loop_from k cond body m w) } else Some (Ret kSCErr_None, w))"
  by (cases "body m w") (auto simp: loop_from_def returned_def split: option.splits prod.splits)

lemma group_moves_loop:
  assumes move: "\<And>w K g p. engine_inv n w K \<Longrightarrow> heap w p \<noteq> None \<Longrightarrow> group_at w g
      \<Longrightarrow> \<exists>w'. move g p w = Some w' \<and> engine_inv n w' (move_unless_root w p (put g p K) K) \<and> moved w w'"
  shows "args_at (pair_args ps) m \<Longrightarrow> engine_inv n w K \<Longrightarrow> length ps < k \<Longrightarrow>
    \<exists>w'. loop_from k args_left (with_group (\<lambda>g. with_node kSCErr_NodeNotFound (\<lambda>p m w. next_round m (move g p w)))) m w
        = Some (Ret (fst (group_moves put w ps K)), w')
      \<and> engine_inv n w' (snd (group_moves put w ps K)) \<and> moved w w'"
proof (induction ps arbitrary: m w K k)
  case Nil
  then obtain k' where "k = Suc k'" by (cases k) auto
  then show ?case using args_at_Nil [of m] Nil.prems by (simp add: loop_from_Suc)
next
  case (Cons gi ps)
  obtain g i where gi: "gi = (g, i)" by (cases gi)
  obtain k' where k: "k = Suc k'" using Cons.prems(3) by (cases k) auto
  have args: "args_at (Arg_i g # Arg_i i # pair_args ps) m" using Cons.prems(1) gi by simp
  have lib: "lib_ok n w" using Cons.prems(2) by (rule inv_lib_ok)
  obtain m1 where m1: "Msg_GetGroup w m = Some (lookup_group w g, m1)" "args_at (Arg_i i # pair_args ps) m1" using get_group [OF args lib] by blast
  obtain m2 where m2: "Msg_GetNode w m1 = Some (lookup w i, m2)" "args_at (pair_args ps) m2" using get_node [OF m1(2) lib] by blast
  have left: "args_left m" using args_at_Cons(1) [OF args] by simp
  show ?case
  proof (cases "lookup_group w g")
    case None
    then show ?thesis using k m1(1) left Cons.prems(2) gi by (simp add: loop_from_Suc with_group_def returned_def)
  next
    case (Some gp)
    show ?thesis
    proof (cases "lookup w i")
      case None
      then show ?thesis using k m1(1) m2(1) left Cons.prems(2) gi Some
        by (simp add: loop_from_Suc with_group_def with_node_def returned_def)
    next
      case (Some p)
      have g: "group_at w gp" using \<open>lookup_group w g = Some gp\<close> by (simp add: lookup_group_Some)
      have "heap w p \<noteq> None" using lookup_heap [OF lib Some] by auto
      from move [OF Cons.prems(2) this g] obtain w1 where w1: "move gp p w = Some w1"
        "engine_inv n w1 (move_unless_root w p (put gp p K) K)" "moved w w1" by blast
      have len: "length ps < k'" using Cons.prems(3) k by simp
      from Cons.IH [OF m2(2) w1(2) len] moved_trans [OF w1(3)]
      show ?thesis using k m1(1) m2(1) left gi Some \<open>lookup_group w g = Some gp\<close> w1(1) group_moves_moved [OF w1(3) lib]
        by (auto simp: loop_from_Suc with_group_def with_node_def next_round_def)
    qed
  qed
qed

section \<open>Moving beside nodes\<close>

text \<open>
  What \<open>n_before\<close> and \<open>n_after\<close> do to the lists: every pair of a node and its target, those apart of which
  one is missing. The code leaves out a move when the next pair has the same node.
\<close>

fun node_moves :: "(ptr \<Rightarrow> ptr \<Rightarrow> (ptr \<Rightarrow> ptr list) \<Rightarrow> ptr \<Rightarrow> ptr list) \<Rightarrow> World \<Rightarrow> (i32 \<times> i32) list \<Rightarrow> (ptr \<Rightarrow> ptr list) \<Rightarrow> ptr \<Rightarrow> ptr list" where
  "node_moves put w [] K = K"
| "node_moves put w ((i, j) # ps) K = (case (lookup w i, lookup w j) of
       (Some p, Some t) \<Rightarrow> node_moves put w ps (move_unless_root w p (put t p K) K)
     | _ \<Rightarrow> node_moves put w ps K)"

definition good_target :: "World \<Rightarrow> ptr \<times> ptr \<Rightarrow> bool" where
  "good_target w pt \<longleftrightarrow> heap w (fst pt) \<noteq> None \<and> heap w (snd pt) \<noteq> None \<and> snd pt \<noteq> fst pt \<and> \<not> root_at w (snd pt)"

definition good_targets :: "World \<Rightarrow> (i32 \<times> i32) list \<Rightarrow> bool" where
  "good_targets w ps \<longleftrightarrow> (\<forall>(i, j) \<in> set ps. \<forall>p t. lookup w i = Some p \<longrightarrow> lookup w j = Some t \<longrightarrow> t \<noteq> p \<and> \<not> root_at w t)"

lemma moved_good:
  assumes "moved w w'" "lib_ok n w"
  shows "good_targets w' ps = good_targets w ps" "good_target w' pt = good_target w pt" "node_moves put w' ps K = node_moves put w ps K"
    "move_unless_root w' p K' K = move_unless_root w p K' K"
proof -
  have h: "heap w' p = None \<longleftrightarrow> heap w p = None" for p using moved_core [OF assms(1), of p] by (cases "heap w p"; cases "heap w' p") auto
  show "good_targets w' ps = good_targets w ps" "good_target w' pt = good_target w pt"
    using moved_lookup [OF assms] h by (simp_all add: good_targets_def good_target_def)
  show "move_unless_root w' p K' K = move_unless_root w p K' K" using moved_lookup [OF assms] by (simp add: move_unless_root_def)
  show "node_moves put w' ps K = node_moves put w ps K" using moved_lookup [OF assms]
    by (induction ps arbitrary: K rule: list.induct) (auto simp: move_unless_root_def split: option.splits)
qed

lemma move_to_ok:
  assumes inv: "engine_inv n w K" and t: "good_target w (p, t)"
  shows "\<exists>w'. move_to Node_AddBefore p t w = Some w' \<and> engine_inv n w' (move_unless_root w p (put_before t p K) K) \<and> moved w w'"
    and "\<exists>w'. move_to Node_AddAfter p t w = Some w' \<and> engine_inv n w' (move_unless_root w p (put_after t p K) K) \<and> moved w w'"
proof -
  obtain nd tn where nd: "heap w p = Some nd" and tn: "heap w t = Some tn" "mID tn \<noteq> 0" "t \<noteq> p" "heap w t \<noteq> None"
    using t by (auto simp: good_target_def root_at_def)
  have r: "root_at w p \<longleftrightarrow> mID nd = 0" using nd by (simp add: root_at_def)
  have b: "\<exists>w'. (Node_Remove p w \<bind> Node_AddBefore p t) = Some w' \<and> engine_inv n w' (move_unless_root w p (put_before t p K) K) \<and> moved w w'"
    using root_stays(1) [OF inv nd] root_stays(4) [OF inv nd _ tn(4)] beside_node_ok(1) [OF inv nd _ tn(1-3)] inv r
    by (cases "mID nd = 0") (auto simp: move_unless_root_def)
  have a: "\<exists>w'. (Node_Remove p w \<bind> Node_AddAfter p t) = Some w' \<and> engine_inv n w' (move_unless_root w p (put_after t p K) K) \<and> moved w w'"
    using root_stays(1) [OF inv nd] root_stays(5) [OF inv nd _ tn(4)] beside_node_ok(2) [OF inv nd _ tn(1-3)] inv r
    by (cases "mID nd = 0") (auto simp: move_unless_root_def)
  have p: "heap w p \<noteq> None" using nd by simp
  show "\<exists>w'. move_to Node_AddBefore p t w = Some w' \<and> engine_inv n w' (move_unless_root w p (put_before t p K) K) \<and> moved w w'"
    unfolding move_to_def using move_into_ok(2) [OF inv p, of "\<lambda>t p. Node_AddBefore p t" t] b by simp
  show "\<exists>w'. move_to Node_AddAfter p t w = Some w' \<and> engine_inv n w' (move_unless_root w p (put_after t p K) K) \<and> moved w w'"
    unfolding move_to_def using move_into_ok(2) [OF inv p, of "\<lambda>t p. Node_AddAfter p t" t] a by simp
qed

text \<open>Moving the same node twice is moving it the second time.\<close>

lemma move_twice:
  assumes "t \<noteq> p" "t' \<noteq> p"
  shows "put_before t p (put_before t' p K) = put_before t p K" "put_after t p (put_after t' p K) = put_after t p K"
proof -
  have "removeAll p (insert_before t' p xs) = removeAll p xs" "removeAll p (insert_after t' p xs) = removeAll p xs" for xs
    using assms(2) by (induction xs) (auto simp: insert_before_def insert_after_def)
  then show "put_before t p (put_before t' p K) = put_before t p K" "put_after t p (put_after t' p K) = put_after t p K"
    by (simp_all add: put_before_def put_after_def fun_eq_iff)
qed

definition pending :: "(ptr \<Rightarrow> ptr \<Rightarrow> (ptr \<Rightarrow> ptr list) \<Rightarrow> ptr \<Rightarrow> ptr list) \<Rightarrow> World \<Rightarrow> (ptr \<times> ptr) option \<Rightarrow> (ptr \<Rightarrow> ptr list) \<Rightarrow> ptr \<Rightarrow> ptr list" where
  "pending put w s K = (case s of None \<Rightarrow> K | Some (p, t) \<Rightarrow> move_unless_root w p (put t p K) K)"

lemma moved_pending: "moved w w' \<Longrightarrow> lib_ok n w \<Longrightarrow> pending put w' s K = pending put w s K"
  using moved_good(4) by (simp add: pending_def split: option.splits)

lemma node_moves_loop:
  assumes move: "\<And>w K p t. engine_inv n w K \<Longrightarrow> good_target w (p, t)
      \<Longrightarrow> \<exists>w'. move_to add p t w = Some w' \<and> engine_inv n w' (move_unless_root w p (put t p K) K) \<and> moved w w'"
    and twice: "\<And>p t t' K. t \<noteq> p \<Longrightarrow> t' \<noteq> p \<Longrightarrow> put t p (put t' p K) = put t p K"
  shows "args_at (pair_args ps) m \<Longrightarrow> engine_inv n w K \<Longrightarrow> length ps < k \<Longrightarrow> good_targets w ps \<Longrightarrow> (\<And>pt. s = Some pt \<Longrightarrow> good_target w pt) \<Longrightarrow>
    \<exists>s' m' w' K'. while_msg k args_left (move_pair add) s m w = Some (None, s', m', w') \<and> engine_inv n w' K' \<and> moved w w'
      \<and> pending put w s' K' = node_moves put w ps (pending put w s K) \<and> (\<forall>pt. s' = Some pt \<longrightarrow> good_target w pt)"
proof (induction ps arbitrary: s m w K k)
  case Nil
  then obtain k' where "k = Suc k'" by (cases k) auto
  then show ?case using args_at_Nil [of m] Nil.prems by auto
next
  case (Cons ij ps)
  obtain i j where ij: "ij = (i, j)" by (cases ij)
  obtain k' where k: "k = Suc k'" using Cons.prems(3) by (cases k) auto
  have args: "args_at (Arg_i i # Arg_i j # pair_args ps) m" using Cons.prems(1) ij by simp
  have lib: "lib_ok n w" using Cons.prems(2) by (rule inv_lib_ok)
  obtain m1 where m1: "Msg_GetNode w m = Some (lookup w i, m1)" "args_at (Arg_i j # pair_args ps) m1" using get_node [OF args lib] by blast
  obtain m2 where m2: "Msg_GetNode w m1 = Some (lookup w j, m2)" "args_at (pair_args ps) m2" using get_node [OF m1(2) lib] by blast
  have left: "args_left m" using args_at_Cons(1) [OF args] by simp
  have len: "length ps < k'" and good: "good_targets w ps" using Cons.prems(3,4) k by (simp_all add: good_targets_def)
  show ?case
  proof (cases "lookup w i = None \<or> lookup w j = None")
    case True
    then have "move_pair add s m w = Some (None, s, m2, w)" "node_moves put w (ij # ps) K0 = node_moves put w ps K0" for K0
      using m1(1) m2(1) ij by (auto simp: move_pair_def split: option.splits)
    then show ?thesis using Cons.IH [OF m2(2) Cons.prems(2) len good Cons.prems(5)] left k by simp
  next
    case False
    then obtain p t where pt: "lookup w i = Some p" "lookup w j = Some t" by auto
    have gpt: "good_target w (p, t)" using Cons.prems(4) pt ij lookup_heap [OF lib] by (auto simp: good_targets_def good_target_def)
    have nm: "node_moves put w (ij # ps) K0 = node_moves put w ps (pending put w (Some (p, t)) K0)" for K0
      using pt ij by (simp add: pending_def)
    obtain w1 K1 where w1: "move_pair add s m w = Some (None, Some (p, t), m2, w1)" "engine_inv n w1 K1" "moved w w1"
      and eq: "pending put w (Some (p, t)) K1 = pending put w (Some (p, t)) (pending put w s K)"
    proof (cases s)
      case None
      then show ?thesis using that [of w K] m1(1) m2(1) pt Cons.prems(2) by (simp add: move_pair_def pending_def)
    next
      case (Some pt')
      obtain p' t' where pt': "pt' = (p', t')" by (cases pt')
      have g': "good_target w (p', t')" using Cons.prems(5) Some pt' by simp
      show ?thesis
      proof (cases "p' = p")
        case True
        have "t \<noteq> p" "t' \<noteq> p" using gpt g' True by (auto simp: good_target_def)
        then show ?thesis using that [of w K] m1(1) m2(1) pt Cons.prems(2) Some pt' True twice
          by (simp add: move_pair_def pending_def move_unless_root_def)
      next
        case False
        obtain w' where "move_to add p' t' w = Some w'" "engine_inv n w' (move_unless_root w p' (put t' p' K) K)" "moved w w'"
          using move [OF Cons.prems(2) g'] by blast
        then show ?thesis using that [of w' "move_unless_root w p' (put t' p' K) K"] m1(1) m2(1) pt Some pt' False
          by (simp add: move_pair_def pending_def)
      qed
    qed
    note same = moved_good [OF w1(3) lib] moved_pending [OF w1(3) lib]
    have good1: "good_targets w1 ps" "\<And>x. Some (p, t) = Some x \<Longrightarrow> good_target w1 x" using good gpt same by auto
    from Cons.IH [OF m2(2) w1(2) len good1] obtain s' m' w' K' where
      r: "while_msg k' args_left (move_pair add) (Some (p, t)) m2 w1 = Some (None, s', m', w')" "engine_inv n w' K'" "moved w1 w'"
      "pending put w1 s' K' = node_moves put w1 ps (pending put w1 (Some (p, t)) K1)" "\<forall>x. s' = Some x \<longrightarrow> good_target w1 x" by blast
    have "while_msg k args_left (move_pair add) s m w = Some (None, s', m', w')" using k left w1(1) r(1) by simp
    moreover have "pending put w s' K' = node_moves put w (ij # ps) (pending put w s K)" using r(4) eq nm same by simp
    ultimately show ?thesis using r(2,5) moved_trans [OF w1(3) r(3)] same by auto
  qed
qed

section \<open>Ordering nodes\<close>

text \<open>The nodes \<open>N\<close> in a row in the group \<open>g\<close>, between what is left of \<open>as\<close> and of \<open>bs\<close>.\<close>

definition row :: "ptr \<Rightarrow> ptr list \<Rightarrow> ptr list \<Rightarrow> ptr list \<Rightarrow> (ptr \<Rightarrow> ptr list) \<Rightarrow> ptr \<Rightarrow> ptr list" where
  "row g as bs N K = (\<lambda>h. if h = g then filter (\<lambda>x. x \<notin> set N) as @ N @ filter (\<lambda>x. x \<notin> set N) bs else filter (\<lambda>x. x \<notin> set N) (K h))"

lemma row_head: "put_head g p K = row g [] (K g) [p] K"
  and row_tail: "put_tail g p K = row g (K g) [] [p] K"
  by (auto simp: row_def put_head_def put_tail_def without_node_def removeAll_filter_not_eq fun_eq_iff intro!: filter_cong)

lemma removeAll_not: "removeAll p xs = filter (\<lambda>x. x \<noteq> p) xs"
  by (induction xs) auto

lemma row_beside:
  assumes K: "K g = as @ t # bs" "t \<notin> set as" "t \<notin> set bs" "\<And>h. h \<noteq> g \<Longrightarrow> t \<notin> set (K h)" and t: "t \<noteq> p"
  shows "put_before t p K = row g as (t # bs) [p] K" "put_after t p K = row g (as @ [t]) bs [p] K"
proof -
  have "put_before t p K h = row g as (t # bs) [p] K h" for h
    using K t by (cases "h = g") (auto simp: put_before_def row_def removeAll_not insert_before_at insert_before_none)
  then show "put_before t p K = row g as (t # bs) [p] K" by blast
  have "put_after t p K h = row g (as @ [t]) bs [p] K h" for h
    using K t by (cases "h = g") (auto simp: put_after_def row_def removeAll_not insert_after_at insert_after_none)
  then show "put_after t p K = row g (as @ [t]) bs [p] K" by blast
qed

lemma row_extend:
  assumes "distinct (M @ [q, p])"
  shows "put_after q p (row g as bs (M @ [q]) K) = row g as bs (M @ [q, p]) K"
proof
  fix h
  let ?f = "filter (\<lambda>x. x \<notin> set (M @ [q]))" and ?f' = "filter (\<lambda>x. x \<notin> set (M @ [q, p]))"
  have f: "filter (\<lambda>x. x \<noteq> p) (?f xs) = ?f' xs" "q \<notin> set (?f' xs)" for xs by (auto intro: filter_cong)
  have M: "filter (\<lambda>x. x \<noteq> p) M = M" "q \<notin> set M" "q \<noteq> p" using assms by (auto intro: filter_True)
  show "put_after q p (row g as bs (M @ [q]) K) h = row g as bs (M @ [q, p]) K h"
  proof (cases "h = g")
    case True
    have "removeAll p (?f as @ (M @ [q]) @ ?f bs) = (?f' as @ M) @ q # ?f' bs"
      unfolding removeAll_not using f(1) M by simp
    moreover have "q \<notin> set (?f' as @ M)" using f(2) M(2) by simp
    note insert_after_at [OF this f(2) [of bs], of p]
    ultimately have "insert_after q p (removeAll p (?f as @ (M @ [q]) @ ?f bs)) = (?f' as @ M) @ q # p # ?f' bs"
      by (simp only:)
    then show ?thesis using True unfolding put_after_def row_def by (simp only: append.simps append_assoc simp_thms if_True)
  next
    case False
    then show ?thesis using insert_after_none [OF f(2)] f(1) by (simp add: put_after_def row_def removeAll_not)
  qed
qed

definition node_args :: "i32 list \<Rightarrow> osc_arg list" where
  "node_args is = List.map Arg_i is"

lemma node_args_simps [simp]: "node_args [] = []" "node_args (i # is) = Arg_i i # node_args is"
  by (simp_all add: node_args_def)

definition found_nodes :: "World \<Rightarrow> i32 list \<Rightarrow> ptr list" where
  "found_nodes w is = List.map_filter (lookup w) is"

lemma found_nodes_simps [simp]:
  "found_nodes w [] = []" "found_nodes w (i # is) = (case lookup w i of None \<Rightarrow> found_nodes w is | Some p \<Rightarrow> p # found_nodes w is)"
  by (simp_all add: found_nodes_def List.map_filter_simps split: option.splits)

lemma moved_found: "moved w w' \<Longrightarrow> lib_ok n w \<Longrightarrow> found_nodes w' is = found_nodes w is"
proof -
  assume "moved w w'" "lib_ok n w"
  then have "lookup w' = lookup w" using moved_lookup(1) by blast
  then show ?thesis by (simp add: found_nodes_def)
qed

lemma first_node_ok:
  assumes "args_at (node_args is) m" "lib_ok n w" "length is < k"
  shows "\<exists>js m'. first_node k w m = Some (case found_nodes w is of [] \<Rightarrow> None | p # _ \<Rightarrow> Some p, m') \<and> args_at (node_args js) m'
    \<and> found_nodes w js = tl (found_nodes w is) \<and> length js \<le> length is"
  using assms
proof (induction "is" arbitrary: m k)
  case Nil
  then obtain k' where "k = Suc k'" by (cases k) auto
  then show ?case using args_at_Nil [of m] Nil.prems by (auto intro!: exI [of _ "[]"])
next
  case (Cons i "is")
  then obtain k' where k: "k = Suc k'" by (cases k) auto
  have args: "args_at (Arg_i i # node_args is) m" using Cons.prems(1) by simp
  obtain m1 where m1: "Msg_GetNode w m = Some (lookup w i, m1)" "args_at (node_args is) m1" using get_node [OF args Cons.prems(2)] by blast
  have left: "args_left m" using args_at_Cons(1) [OF args] by simp
  show ?case
  proof (cases "lookup w i")
    case None
    from Cons.IH [OF m1(2) Cons.prems(2), of k'] Cons.prems(3) k obtain js m' where
      "first_node k' w m1 = Some (case found_nodes w is of [] \<Rightarrow> None | p # _ \<Rightarrow> Some p, m')" "args_at (node_args js) m'"
      "found_nodes w js = tl (found_nodes w is)" "length js \<le> length is" by auto
    then show ?thesis using k left m1(1) None by (intro exI [of _ js] exI [of _ m']) simp
  next
    case (Some p)
    then show ?thesis using k left m1 by (intro exI [of _ "is"] exI [of _ m1]) simp
  qed
qed

lemma order_loop_ok:
  "args_at (node_args is) m \<Longrightarrow> engine_inv n w (row g as bs (M @ [q]) K) \<Longrightarrow> length is < k \<Longrightarrow> distinct (M @ q # found_nodes w is)
    \<Longrightarrow> heap w q \<noteq> None \<Longrightarrow> (\<forall>p \<in> set (q # found_nodes w is). \<not> root_at w p) \<Longrightarrow>
    \<exists>s w' m'. while_msg k args_left (\<lambda>prevNode m w. do {
         (node, m) \<leftarrow> Msg_GetNode w m;
         (case node of None \<Rightarrow> Some (None, prevNode, m, w)
          | Some p \<Rightarrow> do { w \<leftarrow> move_to Node_AddAfter p prevNode w; Some (None, p, m, w) }) }) q m w = Some (None, s, m', w')
      \<and> engine_inv n w' (row g as bs (M @ q # found_nodes w is) K) \<and> moved w w'"
proof (induction "is" arbitrary: m w M q k)
  case Nil
  then obtain k' where "k = Suc k'" by (cases k) auto
  then show ?case using args_at_Nil [of m] Nil.prems by auto
next
  case (Cons i "is")
  then obtain k' where k: "k = Suc k'" by (cases k) auto
  have args: "args_at (Arg_i i # node_args is) m" using Cons.prems(1) by simp
  have lib: "lib_ok n w" using Cons.prems(2) by (rule inv_lib_ok)
  obtain m1 where m1: "Msg_GetNode w m = Some (lookup w i, m1)" "args_at (node_args is) m1" using get_node [OF args lib] by blast
  have left: "args_left m" using args_at_Cons(1) [OF args] by simp
  have len: "length is < k'" using Cons.prems(3) k by simp
  show ?case
  proof (cases "lookup w i")
    case None
    then show ?thesis using Cons.IH [OF m1(2) Cons.prems(2) len] Cons.prems(4-6) left m1(1) k by simp
  next
    case (Some p)
    have fn: "found_nodes w (i # is) = p # found_nodes w is" using Some by simp
    have d: "distinct (M @ [q, p])" "distinct ((M @ [q]) @ p # found_nodes w is)" using Cons.prems(4) unfolding fn by auto
    have hp: "heap w p \<noteq> None" using lookup_heap [OF lib Some] by auto
    have "good_target w (p, q)" using Cons.prems(4-6) fn hp by (auto simp: good_target_def)
    from move_to_ok(2) [OF Cons.prems(2) this] obtain w1 where w1: "move_to Node_AddAfter p q w = Some w1" "moved w w1"
      "engine_inv n w1 (row g as bs ((M @ [q]) @ [p]) K)"
      using Cons.prems(6) fn row_extend [OF d(1), of g as bs K] by (auto simp: move_unless_root_def)
    have same: "found_nodes w1 is = found_nodes w is" by (rule moved_found [OF w1(2) lib])
    have "heap w1 p \<noteq> None" using moved_core(2) [OF w1(2)] hp by auto
    moreover have "\<forall>x \<in> set (p # found_nodes w1 is). \<not> root_at w1 x"
      using Cons.prems(6) moved_lookup(3) [OF w1(2) lib] unfolding fn same by simp
    ultimately show ?thesis using Cons.IH [OF m1(2) w1(3) len] d(2) moved_trans [OF w1(2)] left m1(1) k Some w1(1) fn same
      by fastforce
  qed
qed

lemma place_first_ok:
  assumes inv: "engine_inv n w K" and args: "args_at (node_args is) m" and k: "length is < k"
    and nodes: "distinct (found_nodes w is)" "\<forall>p \<in> set (found_nodes w is). \<not> root_at w p"
    and place: "\<And>p. p \<in> set (found_nodes w is) \<Longrightarrow> \<exists>w'. place p w = Some w' \<and> engine_inv n w' (row g as bs [p] K) \<and> moved w w'"
  shows "\<exists>w'. place_first k place m w = Some (Ret (if found_nodes w is = [] then kSCErr_NodeNotFound else kSCErr_None), w')
    \<and> engine_inv n w' (if found_nodes w is = [] then K else row g as bs (found_nodes w is) K) \<and> moved w w'"
proof -
  have lib: "lib_ok n w" by (rule inv_lib_ok [OF inv])
  obtain js m1 where f: "first_node k w m = Some (case found_nodes w is of [] \<Rightarrow> None | p # _ \<Rightarrow> Some p, m1)"
    "args_at (node_args js) m1" "found_nodes w js = tl (found_nodes w is)" "length js \<le> length is"
    using first_node_ok [OF args lib k] by blast
  show ?thesis
  proof (cases "found_nodes w is")
    case Nil
    then show ?thesis using f(1) inv by (simp add: place_first_def)
  next
    case (Cons p ps)
    from place [of p] Cons obtain w1 where w1: "place p w = Some w1" "engine_inv n w1 (row g as bs ([] @ [p]) K)" "moved w w1" by auto
    have same: "found_nodes w1 js = ps" using moved_found [OF w1(3) lib] f(3) Cons by simp
    have "p \<in> set (found_nodes w is)" using Cons by simp
    then obtain i where "lookup w i = Some p" by (auto simp: found_nodes_def List.map_filter_def)
    then have "heap w1 p \<noteq> None" using lookup_heap [OF lib] moved_core(2) [OF w1(3)] by fastforce
    moreover have "\<forall>x \<in> set (p # found_nodes w1 js). \<not> root_at w1 x"
      using nodes(2) moved_lookup(3) [OF w1(3) lib] unfolding same Cons by simp
    ultimately show ?thesis
      using order_loop_ok [OF f(2) w1(2), of k] k f nodes(1) moved_trans [OF w1(3)] Cons w1(1) same
      by (fastforce simp: place_first_def order_loop_def)
  qed
qed

end
