(* ===== verification/SC_NewGroups.thy ===== *)
theory SC_NewGroups
  imports SC_Moves
begin

text \<open>
  \<open>g_new\<close> and \<open>p_new\<close>: what a message with any number of new groups does to the tree, the table of nodes and the
  clients, every error included.
\<close>

section \<open>The tree as a client sees it\<close>

record tree_state =
  tsFind :: "i32 \<Rightarrow> ptr option"
  tsGroups :: "ptr set"
  tsKids :: "ptr \<Rightarrow> ptr list"
  tsFresh :: ptr
  tsRecent :: i32
  tsCount :: nat

definition state_of :: "World \<Rightarrow> (ptr \<Rightarrow> ptr list) \<Rightarrow> tree_state" where
  "state_of w K = \<lparr>tsFind = node_map w, tsGroups = {g. group_at w g}, tsKids = K, tsFresh = fresh w, tsRecent = mRecentID w,
     tsCount = card (dom (heap w))\<rparr>"

definition ts_lookup :: "tree_state \<Rightarrow> i32 \<Rightarrow> ptr option" where
  "ts_lookup S i = tsFind S (if i = -1 then tsRecent S else i)"

definition ts_add :: "i32 \<Rightarrow> (ptr \<Rightarrow> (ptr \<Rightarrow> ptr list) \<Rightarrow> ptr \<Rightarrow> ptr list) \<Rightarrow> tree_state \<Rightarrow> tree_state" where
  "ts_add i put S = (let f = tsFresh S in
     S\<lparr>tsFind := (tsFind S)(i \<mapsto> f), tsGroups := insert f (tsGroups S), tsKids := put f (tsKids S), tsFresh := Suc f,
       tsRecent := i, tsCount := Suc (tsCount S)\<rparr>)"

text \<open>One group to make; \<open>there\<close> says whether a group of that identifier is in the right place already.\<close>

definition ts_new :: "nat \<Rightarrow> i32 \<Rightarrow> (ptr \<Rightarrow> bool) \<Rightarrow> (ptr \<Rightarrow> (ptr \<Rightarrow> ptr list) \<Rightarrow> ptr \<Rightarrow> ptr list) \<Rightarrow> tree_state \<Rightarrow> SCErr \<times> tree_state" where
  "ts_new cap i there put S =
     (if sint i < -1 then (kSCErr_ReservedNodeID, S)
      else case tsFind S i of
        Some s \<Rightarrow> (if s \<in> tsGroups S \<and> there s then kSCErr_None else kSCErr_DuplicateNodeID, S)
      | None \<Rightarrow> if tsCount S < cap then (kSCErr_None, ts_add i put S)
               else (kSCErr_TooManyNodes, S\<lparr>tsFresh := Suc (tsFresh S)\<rparr>))"

definition ts_round :: "nat \<Rightarrow> i32 \<times> i32 \<times> i32 \<Rightarrow> tree_state \<Rightarrow> SCErr \<times> tree_state" where
  "ts_round cap r S = (case r of (i, a, j) \<Rightarrow>
     if a = 0 \<or> a = 1 then
       (case ts_lookup S j of
          Some g \<Rightarrow> if g \<in> tsGroups S
            then ts_new cap i (\<lambda>s. s \<in> set (tsKids S g)) (\<lambda>f K. K(g := (if a = 0 then f # K g else K g @ [f]))) S
            else (kSCErr_GroupNotFound, S)
        | None \<Rightarrow> (kSCErr_GroupNotFound, S))
     else if a = 2 \<or> a = 3 then
       (case ts_lookup S j of
          Some t \<Rightarrow> ts_new cap i (\<lambda>s. \<exists>g. s \<in> set (tsKids S g) \<and> t \<in> set (tsKids S g))
            (if a = 2 then put_before t else put_after t) S
        | None \<Rightarrow> (kSCErr_TargetNodeNotFound, S))
     else (kSCErr_Failed, S))"

fun ts_rounds :: "nat \<Rightarrow> (i32 \<times> i32 \<times> i32) list \<Rightarrow> tree_state \<Rightarrow> SCErr \<times> tree_state" where
  "ts_rounds cap [] S = (kSCErr_None, S)"
| "ts_rounds cap (r # rs) S = (case ts_round cap r S of (err, S') \<Rightarrow> if err = kSCErr_None then ts_rounds cap rs S' else (err, S'))"

section \<open>Making a group\<close>

lemma state_of_simps [simp]:
  "tsFind (state_of w K) = node_map w" "g \<in> tsGroups (state_of w K) \<longleftrightarrow> group_at w g" "tsKids (state_of w K) = K"
  "tsFresh (state_of w K) = fresh w" "tsRecent (state_of w K) = mRecentID w" "tsCount (state_of w K) = card (dom (heap w))"
  "ts_lookup (state_of w K) i = lookup w i"
  by (simp_all add: state_of_def ts_lookup_def lookup_def)

lemma moved_state:
  assumes "moved w w'" "lib_ok n w"
  shows "state_of w' K = state_of w K"
proof -
  obtain h q where "w' = w\<lparr>heap := h, mNodeEnds := q\<rparr>" using assms(1) by (auto simp: moved_def)
  then have "fresh w' = fresh w" by simp
  moreover have "heap w' p = None \<longleftrightarrow> heap w p = None" for p
    using moved_core [OF assms(1), of p] by (cases "heap w p"; cases "heap w' p") auto
  then have "dom (heap w') = dom (heap w)" by (simp only: dom_def)
  ultimately show ?thesis using moved_same [OF assms] moved_group [OF assms(1)] by (simp add: state_of_def)
qed

lemma moved_allocs: "moved w w' \<Longrightarrow> allocs w' = allocs w"
  by (auto simp: moved_def)

lemma Node_New_addr:
  assumes "Node_New def i w = Some (err, r, w')" "allocs w = []" "err = kSCErr_None \<or> err = kSCErr_TooManyNodes" "i \<noteq> -1"
  shows "fresh w' = Suc (fresh w)" "err = kSCErr_None \<longrightarrow> mRecentID w' = i" "err = kSCErr_TooManyNodes \<longrightarrow> mRecentID w' = mRecentID w"
  using assms by (auto simp: Node_New_def World_Alloc_def World_AddNode_def World_Free_def bind_eq_Some_conv
    split: if_splits option.splits prod.splits)

lemma group_new_fresh:
  assumes inv: "engine_inv n w K" and al: "allocs w = []" and i: "0 < sint i" and new: "node_map w i = None"
    and room: "card (dom (heap w)) < 2 ^ (n - 1)"
  shows "\<exists>w'. Group_New i w = Some (kSCErr_None, Some (fresh w), w') \<and> tree_rep n w' K \<and> unlinked w' (fresh w) \<and> world_ok n w'
    \<and> heap w' = (heap w)(fresh w \<mapsto> blank_group i) \<and> node_map w' = (node_map w)(i \<mapsto> fresh w) \<and> fresh w' = Suc (fresh w)
    \<and> mRecentID w' = i \<and> allocs w' = []"
proof -
  obtain w' where w': "Group_New i w = Some (kSCErr_None, Some (fresh w), w')" "tree_rep n w' K" "unlinked w' (fresh w)"
    "heap w' = (heap w)(fresh w \<mapsto> blank_group i)" "node_map w' = (node_map w)(i \<mapsto> fresh w)"
    using Group_New_rep [OF engine_inv_rep [OF inv] al i new room] by blast
  have f: "same_queues w w'" by (rule Group_New_frame [OF w'(1)])
  have ok: "world_ok n w" using inv by (simp add: engine_inv_def)
  have "world_ok n w'" using ok w'(2,4) f
    by (auto simp: world_ok_def tree_rep_def same_queues_def blank_group_def blank_node_def split: if_splits)
  moreover obtain w1 where w1: "Node_New GroupNodeDef i w = Some (kSCErr_None, Some (fresh w), w1)"
    using Node_New_fresh(1) [OF _ al _ new room] inv i by (auto simp: engine_inv_def world_ok_def)
  moreover have "fresh w' = fresh w1 \<and> mRecentID w' = mRecentID w1"
    using w'(1) w1 by (cases "heap w1 (fresh w)") (auto simp: Group_New_def upd_def)
  moreover have "i \<noteq> -1" using i by auto
  ultimately show ?thesis using Node_New_addr [OF w1 al] al w' f by (auto simp: same_queues_def)
qed

lemma same_queues_inv:
  assumes inv: "engine_inv n w K" and f: "same_queues w w'" and lib: "lib_ok n w'" and h: "heap w' = heap w"
  shows "engine_inv n w' K"
  using inv f lib unfolding engine_inv_def world_ok_def same_queues_def h by simp

lemma group_new_errors:
  assumes inv: "engine_inv n w K" and al: "allocs w = []"
  shows "sint i < -1 \<Longrightarrow> Group_New i w = Some (kSCErr_ReservedNodeID, None, w)"
    and "0 \<le> sint i \<Longrightarrow> node_map w i \<noteq> None \<Longrightarrow> Group_New i w = Some (kSCErr_DuplicateNodeID, None, w)"
    and "0 \<le> sint i \<Longrightarrow> node_map w i = None \<Longrightarrow> \<not> card (dom (heap w)) < 2 ^ (n - 1) \<Longrightarrow>
      \<exists>w'. Group_New i w = Some (kSCErr_TooManyNodes, None, w') \<and> engine_inv n w' K
        \<and> state_of w' K = (state_of w K)\<lparr>tsFresh := Suc (fresh w)\<rparr> \<and> allocs w' = []"
proof -
  have lib: "lib_ok n w" by (rule inv_lib_ok [OF inv])
  show "sint i < -1 \<Longrightarrow> Group_New i w = Some (kSCErr_ReservedNodeID, None, w)"
    using node_new_cases(1) [OF lib al] by (simp add: Group_New_def)
  show "0 \<le> sint i \<Longrightarrow> node_map w i \<noteq> None \<Longrightarrow> Group_New i w = Some (kSCErr_DuplicateNodeID, None, w)"
    using node_new_cases(2) [OF lib al] by (simp add: Group_New_def)
  assume i: "0 \<le> sint i" "node_map w i = None" "\<not> card (dom (heap w)) < 2 ^ (n - 1)"
  obtain w' where w': "Node_New GroupNodeDef i w = Some (kSCErr_TooManyNodes, None, w')" "lib_ok n w'" "node_map w' = node_map w" "heap w' = heap w"
    using Node_New_fresh(2) [OF lib al i] by blast
  have f: "same_queues w w'" by (rule Node_New_frame [OF w'(1)])
  have "i \<noteq> -1" using i(1) by auto
  then have "fresh w' = Suc (fresh w)" "mRecentID w' = mRecentID w" using Node_New_addr [OF w'(1) al] by simp_all
  then have "state_of w' K = (state_of w K)\<lparr>tsFresh := Suc (fresh w)\<rparr>" using w'(3,4) by (simp add: state_of_def group_at_def)
  then show "\<exists>w'. Group_New i w = Some (kSCErr_TooManyNodes, None, w') \<and> engine_inv n w' K
        \<and> state_of w' K = (state_of w K)\<lparr>tsFresh := Suc (fresh w)\<rparr> \<and> allocs w' = []"
    using same_queues_inv [OF inv f w'(2,4)] f al w'(1) by (simp add: Group_New_def same_queues_def)
qed

lemma new_placed:
  assumes inv: "engine_inv n w K" and i: "0 < sint i"
    and w1: "world_ok n w1" "heap w1 = (heap w)(fresh w \<mapsto> blank_group i)" "node_map w1 = (node_map w)(i \<mapsto> fresh w)"
      "fresh w1 = Suc (fresh w)" "mRecentID w1 = i"
    and m: "moved w1 w2" "mNodeEnds w2 = mNodeEnds w1" and rep: "tree_rep n w2 (put (fresh w) K)"
    and sets: "\<And>x. (\<exists>g. x \<in> set (put (fresh w) K g)) \<longleftrightarrow> x = fresh w \<or> (\<exists>g. x \<in> set (K g))"
  shows "engine_inv n w2 (put (fresh w) K) \<and> state_of w2 (put (fresh w) K) = ts_add i put (state_of w K)"
proof
  have fr: "heap w (fresh w) = None" using inv by (simp add: engine_inv_def world_ok_def lib_ok_def)
  have lib1: "lib_ok n w1" using w1(1) by (simp add: world_ok_def)
  have i0: "mID (blank_group i) \<noteq> 0" "mIsGroup (blank_group i)" using i by (auto simp: blank_group_def blank_node_def)
  show "engine_inv n w2 (put (fresh w) K)"
    unfolding engine_inv_def
  proof (intro conjI allI impI)
    show "world_ok n w2" by (rule moved_world_ok [OF m(1) w1(1) m(2)])
    show "tree_ok (heap w2) (put (fresh w) K)" using rep by (simp add: tree_rep_def)
    fix x nd assume "heap w2 x = Some nd"
    then obtain nd1 where nd1: "heap w1 x = Some nd1" "mID nd = mID nd1" using moved_core(1) [OF m(1)] by (auto simp: node_core_def)
    show "(\<forall>g. x \<notin> set (put (fresh w) K g)) \<longleftrightarrow> mID nd = 0"
      using nd1 w1(2) inv sets [of x] i0(1) unfolding engine_inv_def by (auto split: if_splits)
  qed
  have "state_of w2 K' = state_of w1 K'" for K' by (rule moved_state [OF m(1) lib1])
  moreover have "state_of w1 (put (fresh w) K) = ts_add i put (state_of w K)"
  proof -
    have "dom (heap w1) = insert (fresh w) (dom (heap w))" "fresh w \<notin> dom (heap w)" using w1(2) fr by auto
    moreover have "finite (dom (heap w))"
    proof -
      have "\<forall>p. fresh w \<le> p \<longrightarrow> heap w p = None" using inv by (simp add: engine_inv_def world_ok_def lib_ok_def)
      then have "dom (heap w) \<subseteq> {..<fresh w}" by (metis domIff lessThan_iff not_le subsetI)
      then show ?thesis using finite_subset by blast
    qed
    moreover have "{g. group_at w1 g} = insert (fresh w) {g. group_at w g}"
      using w1(2) i0(2) by (auto simp: group_at_def split: if_splits)
    ultimately show ?thesis using w1(3-5) by (simp add: state_of_def ts_add_def Let_def del: fun_upd_apply)
  qed
  ultimately show "state_of w2 (put (fresh w) K) = ts_add i put (state_of w K)" by simp
qed

text \<open>What adding a new node in a place means: the operation, and its effect on the lists.\<close>

definition adds_new :: "nat \<Rightarrow> (ptr \<Rightarrow> World \<Rightarrow> World option) \<Rightarrow> (ptr \<Rightarrow> (ptr \<Rightarrow> ptr list) \<Rightarrow> ptr \<Rightarrow> ptr list) \<Rightarrow> World \<Rightarrow> (ptr \<Rightarrow> ptr list) \<Rightarrow> bool" where
  "adds_new n add put w K \<longleftrightarrow> (\<forall>w1 i. tree_rep n w1 K \<longrightarrow> unlinked w1 (fresh w) \<longrightarrow> heap w1 = (heap w)(fresh w \<mapsto> blank_group i) \<longrightarrow>
       (\<exists>w2. add (fresh w) w1 = Some w2 \<and> tree_rep n w2 (put (fresh w) K) \<and> moved w1 w2 \<and> mNodeEnds w2 = mNodeEnds w1))
     \<and> (\<forall>x. (\<exists>g. x \<in> set (put (fresh w) K g)) \<longleftrightarrow> x = fresh w \<or> (\<exists>g. x \<in> set (K g)))"

lemma fresh_not_kid:
  assumes "engine_inv n w K"
  shows "fresh w \<notin> set (K g)" "heap w (fresh w) = None"
proof -
  show h: "heap w (fresh w) = None" using assms by (simp add: engine_inv_def world_ok_def lib_ok_def)
  show "fresh w \<notin> set (K g)" using child_of [OF engine_inv_rep [OF assms], of "fresh w" g] h by auto
qed

lemma adds_new_group:
  assumes inv: "engine_inv n w K" and g: "group_at w g"
  shows "adds_new n (Group_AddHead g) (\<lambda>f K. K(g := f # K g)) w K" "adds_new n (Group_AddTail g) (\<lambda>f K. K(g := K g @ [f])) w K"
proof -
  obtain gn where gn: "heap w g = Some gn" "mIsGroup gn" "g \<noteq> fresh w"
    using g fresh_not_kid(2) [OF inv] unfolding group_at_iff by (metis option.distinct(1))
  show "adds_new n (Group_AddHead g) (\<lambda>f K. K(g := f # K g)) w K"
    unfolding adds_new_def
  proof (intro conjI allI impI)
    fix w1 i assume "tree_rep n w1 K" "unlinked w1 (fresh w)" "heap w1 = (heap w)(fresh w \<mapsto> blank_group i)"
    then obtain w2 where "Group_AddHead g (fresh w) w1 = Some w2" "tree_rep n w2 (K(g := fresh w # K g))"
      using Group_AddHead_rep [of n w1 K "fresh w" g gn] gn by auto
    then show "\<exists>w2. Group_AddHead g (fresh w) w1 = Some w2 \<and> tree_rep n w2 (K(g := fresh w # K g)) \<and> moved w1 w2 \<and> mNodeEnds w2 = mNodeEnds w1"
      using Group_AddHead_moved add_ends(1) by blast
  qed auto
  show "adds_new n (Group_AddTail g) (\<lambda>f K. K(g := K g @ [f])) w K"
    unfolding adds_new_def
  proof (intro conjI allI impI)
    fix w1 i assume "tree_rep n w1 K" "unlinked w1 (fresh w)" "heap w1 = (heap w)(fresh w \<mapsto> blank_group i)"
    then obtain w2 where "Group_AddTail g (fresh w) w1 = Some w2" "tree_rep n w2 (K(g := K g @ [fresh w]))"
      using Group_AddTail_rep [of n w1 K "fresh w" g gn] gn by auto
    then show "\<exists>w2. Group_AddTail g (fresh w) w1 = Some w2 \<and> tree_rep n w2 (K(g := K g @ [fresh w])) \<and> moved w1 w2 \<and> mNodeEnds w2 = mNodeEnds w1"
      using Group_AddTail_moved add_ends(2) by blast
  qed auto
qed

lemma adds_new_node:
  assumes inv: "engine_inv n w K" and t: "heap w t = Some tn" "mID tn \<noteq> 0"
  shows "adds_new n (\<lambda>s. Node_AddBefore s t) (put_before t) w K" "adds_new n (\<lambda>s. Node_AddAfter s t) (put_after t) w K"
proof -
  let ?f = "fresh w"
  obtain g as bs where K: "K g = as @ t # bs" "t \<notin> set as" "t \<notin> set bs" "\<And>h. h \<noteq> g \<Longrightarrow> t \<notin> set (K h)" "mParent tn = Some g"
    using engine_inv_node [OF inv t] by blast
  have nf: "\<And>h. ?f \<notin> set (K h)" "t \<noteq> ?f" using fresh_not_kid [OF inv] t by auto
  have eq: "K(g := as @ ?f # t # bs) = put_before t ?f K" "K(g := as @ t # ?f # bs) = put_after t ?f K"
    using K nf(1) by (auto simp: fun_eq_iff put_before_def put_after_def insert_before_at insert_after_at insert_before_none insert_after_none)
  have sets: "(\<exists>h. x \<in> set (put_before t ?f K h)) \<longleftrightarrow> x = ?f \<or> (\<exists>h. x \<in> set (K h))" "(\<exists>h. x \<in> set (put_after t ?f K h)) \<longleftrightarrow> x = ?f \<or> (\<exists>h. x \<in> set (K h))" for x
    using K(1) nf unfolding in_put by (metis in_set_conv_decomp)+
  show "adds_new n (\<lambda>s. Node_AddBefore s t) (put_before t) w K"
    unfolding adds_new_def
  proof (intro conjI allI impI sets)
    fix w1 assume "tree_rep n w1 K" "unlinked w1 ?f"
    then obtain w2 where "Node_AddBefore ?f t w1 = Some w2" "tree_rep n w2 (put_before t ?f K)"
      using Node_AddBefore_rep [of n w1 K ?f g as t bs] K(1) eq by auto
    then show "\<exists>w2. Node_AddBefore ?f t w1 = Some w2 \<and> tree_rep n w2 (put_before t ?f K) \<and> moved w1 w2 \<and> mNodeEnds w2 = mNodeEnds w1"
      using Node_AddBefore_moved add_ends(4) by blast
  qed
  show "adds_new n (\<lambda>s. Node_AddAfter s t) (put_after t) w K"
    unfolding adds_new_def
  proof (intro conjI allI impI sets)
    fix w1 assume "tree_rep n w1 K" "unlinked w1 ?f"
    then obtain w2 where "Node_AddAfter ?f t w1 = Some w2" "tree_rep n w2 (put_after t ?f K)"
      using Node_AddAfter_rep [of n w1 K ?f g as t bs] K(1) eq by auto
    then show "\<exists>w2. Node_AddAfter ?f t w1 = Some w2 \<and> tree_rep n w2 (put_after t ?f K) \<and> moved w1 w2 \<and> mNodeEnds w2 = mNodeEnds w1"
      using Node_AddAfter_moved add_ends(3) by blast
  qed
qed

section \<open>One round of the message\<close>

text \<open>What a creation leaves: its result and the state, which the specification \<open>R\<close> names.\<close>

definition outcome :: "nat \<Rightarrow> (SCErr \<times> ptr option \<times> World) option \<Rightarrow> SCErr \<times> tree_state \<Rightarrow> bool" where
  "outcome n r R \<longleftrightarrow> (\<exists>err p w'. r = Some (err, p, w') \<and> fst R = err \<and> engine_inv n w' (tsKids (snd R)) \<and> state_of w' (tsKids (snd R)) = snd R
     \<and> allocs w' = [] \<and> (err = kSCErr_None \<longleftrightarrow> p \<noteq> None) \<and> (\<forall>s. p = Some s \<longrightarrow> heap w' s \<noteq> None))"

lemma created:
  assumes inv: "engine_inv n w K" and al: "allocs w = []" and i: "0 < sint i" "node_map w i = None" "card (dom (heap w)) < 2 ^ (n - 1)"
    and add: "adds_new n add put w K"
  shows "\<exists>w1 w2. Group_New i w = Some (kSCErr_None, Some (fresh w), w1) \<and> add (fresh w) w1 = Some w2 \<and>
    outcome n (Some (kSCErr_None, Some (fresh w), w2)) (kSCErr_None, ts_add i put (state_of w K))"
proof -
  obtain w1 where w1: "Group_New i w = Some (kSCErr_None, Some (fresh w), w1)" "tree_rep n w1 K" "unlinked w1 (fresh w)" "world_ok n w1"
    "heap w1 = (heap w)(fresh w \<mapsto> blank_group i)" "node_map w1 = (node_map w)(i \<mapsto> fresh w)" "fresh w1 = Suc (fresh w)"
    "mRecentID w1 = i" "allocs w1 = []"
    using group_new_fresh [OF inv al i] by blast
  obtain w2 where w2: "add (fresh w) w1 = Some w2" "tree_rep n w2 (put (fresh w) K)" "moved w1 w2" "mNodeEnds w2 = mNodeEnds w1"
    using add w1(2,3,5) unfolding adds_new_def by blast
  have "engine_inv n w2 (put (fresh w) K) \<and> state_of w2 (put (fresh w) K) = ts_add i put (state_of w K)"
    using new_placed [where put = put, OF inv i(1) w1(4-8) w2(3,4,2)] add by (simp add: adds_new_def)
  moreover have "tsKids (ts_add i put (state_of w K)) = put (fresh w) K" by (simp add: ts_add_def Let_def)
  moreover have "heap w2 (fresh w) \<noteq> None" using moved_core(2) [OF w2(3), of "fresh w" "blank_group i"] w1(5) by auto
  ultimately show ?thesis using w1(1) w2(1) moved_allocs [OF w2(3)] w1(9) unfolding outcome_def by simp
qed

lemma stays: "engine_inv n w K \<Longrightarrow> allocs w = [] \<Longrightarrow> (err = kSCErr_None \<longleftrightarrow> p \<noteq> None) \<Longrightarrow> (\<And>s. p = Some s \<Longrightarrow> heap w s \<noteq> None)
    \<Longrightarrow> outcome n (Some (err, p, w)) (err, state_of w K)"
  by (simp add: outcome_def)

lemma parent_iff: "engine_inv n w K \<Longrightarrow> heap w s = Some nd \<Longrightarrow> mParent nd = Some g \<longleftrightarrow> s \<in> set (K g)"
  using tree_ok_D(1) [of "heap w" K s nd] child_of [OF engine_inv_rep, of n w K s g]
  by (auto simp: engine_inv_def links_ok_def split: option.splits)

lemma lookup_other: "i \<noteq> -1 \<Longrightarrow> lookup w i = node_map w i"
  by (simp add: lookup_def)

lemma World_GetGroup_eq:
  assumes "lib_ok n w" "i \<noteq> -1"
  shows "World_GetGroup i w = Some (case node_map w i of None \<Rightarrow> None | Some s \<Rightarrow> if group_at w s then Some s else None)"
  using World_GetNode_eq [OF assms(1), of i] lookup_heap [OF assms(1), of i] assms(2)
  by (auto simp: World_GetGroup_def lookup_other deref_def group_at_def split: option.splits)

lemma id_cases:
  fixes i :: i32
  assumes "i \<noteq> -1" "node_map w 0 \<noteq> None"
  obtains "sint i < -1" | "0 \<le> sint i" "node_map w i \<noteq> None" | "0 < sint i" "node_map w i = None"
proof -
  have "sint i \<noteq> -1" using assms(1) by (metis signed_minus_1 signed_word_eqI)
  moreover have "sint i = 0 \<longleftrightarrow> i = 0" by (metis signed_0 signed_word_eqI)
  ultimately show ?thesis using that assms(2) by (cases "node_map w i") force+
qed

lemma new_group_in_ok:
  assumes inv: "engine_inv n w K" and al: "allocs w = []" and i: "i \<noteq> -1" "node_map w 0 \<noteq> None" and add: "adds_new n (add g) put w K"
  shows "outcome n (new_group_in add i g w) (ts_new (2 ^ (n - 1)) i (\<lambda>s. s \<in> set (K g)) put (state_of w K))"
  using i
proof (cases rule: id_cases)
  case 1
  then show ?thesis using group_new_errors(1) [OF inv al] stays [OF inv al, of kSCErr_ReservedNodeID None]
    by (simp add: new_group_in_def ts_new_def)
next
  case 2
  then obtain s where s: "node_map w i = Some s" by blast
  have lib: "lib_ok n w" by (rule inv_lib_ok [OF inv])
  then obtain nd where nd: "heap w s = Some nd" using node_map_Some [OF lib] s by blast
  have t: "ts_new (2 ^ (n - 1)) i (\<lambda>s. s \<in> set (K g)) put (state_of w K)
      = (if group_at w s \<and> s \<in> set (K g) then kSCErr_None else kSCErr_DuplicateNodeID, state_of w K)"
    using 2 s by (simp add: ts_new_def)
  have r: "new_group_in add i g w = Some (if group_at w s \<and> s \<in> set (K g) then (kSCErr_None, Some s, w) else (kSCErr_DuplicateNodeID, None, w))"
    using group_new_errors(2) [OF inv al] 2 World_GetGroup_eq [OF lib i(1)] s nd parent_iff [OF inv nd, of g]
    by (simp add: new_group_in_def deref_def)
  show ?thesis unfolding t r using stays [OF inv al, of kSCErr_None "Some s"] stays [OF inv al, of kSCErr_DuplicateNodeID None] nd by simp
next
  case 3
  show ?thesis
  proof (cases "card (dom (heap w)) < 2 ^ (n - 1)")
    case True
    from created [OF inv al 3 True add] show ?thesis using 3 True by (auto simp: new_group_in_def ts_new_def)
  next
    case False
    from group_new_errors(3) [OF inv al _ 3(2) False] 3 show ?thesis using False
      by (auto simp: new_group_in_def ts_new_def outcome_def)
  qed
qed

lemma parents_same_id:
  assumes inv: "engine_inv n w K" and g: "heap w g = Some gn" "heap w h = Some hn"
  shows "mID gn = mID hn \<longleftrightarrow> g = h"
  using inv_lib_ok [OF inv] g by (metis lib_ok_def option.inject)

lemma new_group_at_ok:
  assumes inv: "engine_inv n w K" and al: "allocs w = []" and i: "i \<noteq> -1" "node_map w 0 \<noteq> None"
    and t: "heap w t = Some tn" "mID tn \<noteq> 0" and add: "adds_new n (\<lambda>s. add s t) put w K"
  shows "outcome n (new_group_at (\<lambda>s t. add s t) i t w)
    (ts_new (2 ^ (n - 1)) i (\<lambda>s. \<exists>g. s \<in> set (K g) \<and> t \<in> set (K g)) put (state_of w K))"
  using i
proof (cases rule: id_cases)
  case 1
  then show ?thesis using group_new_errors(1) [OF inv al] stays [OF inv al, of kSCErr_ReservedNodeID None]
    by (simp add: new_group_at_def ts_new_def)
next
  case 2
  then obtain s where s: "node_map w i = Some s" by blast
  have lib: "lib_ok n w" by (rule inv_lib_ok [OF inv])
  then obtain nd where nd: "heap w s = Some nd" using node_map_Some [OF lib] s by blast
  obtain tg where tg: "mParent tn = Some tg" "t \<in> set (K tg)" using engine_inv_node [OF inv t] by (metis in_set_conv_decomp)
  then obtain tgn where tgn: "heap w tg = Some tgn" using child_of [OF engine_inv_rep [OF inv] tg(2)] by blast
  have one: "t \<in> set (K g) \<longleftrightarrow> g = tg" for g using parent_iff [OF inv t(1)] tg(1) by (metis option.inject)
  have r: "new_group_at add i t w = Some (if group_at w s \<and> s \<in> set (K tg) then (kSCErr_None, Some s, w) else (kSCErr_DuplicateNodeID, None, w))"
  proof (cases "mParent nd")
    case None
    then show ?thesis using group_new_errors(2) [OF inv al] 2 World_GetGroup_eq [OF lib i(1)] s nd parent_iff [OF inv nd, of tg]
      by (simp add: new_group_at_def deref_def)
  next
    case (Some g)
    then have "s \<in> set (K g)" using parent_iff [OF inv nd] by simp
    then obtain gn where gn: "heap w g = Some gn" using child_of [OF engine_inv_rep [OF inv], of s g] by blast
    show ?thesis using group_new_errors(2) [OF inv al] 2 World_GetGroup_eq [OF lib i(1)] s nd parent_iff [OF inv nd, of tg]
        Some gn t tg tgn parents_same_id [OF inv gn tgn]
      by (simp add: new_group_at_def deref_def)
  qed
  have ts: "ts_new (2 ^ (n - 1)) i (\<lambda>s. \<exists>g. s \<in> set (K g) \<and> t \<in> set (K g)) put (state_of w K)
      = (if group_at w s \<and> s \<in> set (K tg) then kSCErr_None else kSCErr_DuplicateNodeID, state_of w K)"
    using 2 s by (simp add: ts_new_def one)
  show ?thesis unfolding ts r using stays [OF inv al, of kSCErr_None "Some s"] stays [OF inv al, of kSCErr_DuplicateNodeID None] nd by simp
next
  case 3
  show ?thesis
  proof (cases "card (dom (heap w)) < 2 ^ (n - 1)")
    case True
    from created [OF inv al 3 True add] show ?thesis using 3 True by (auto simp: new_group_at_def ts_new_def)
  next
    case False
    from group_new_errors(3) [OF inv al _ 3(2) False] 3 show ?thesis using False
      by (auto simp: new_group_at_def ts_new_def outcome_def)
  qed
qed

text \<open>Rounds of the message: identifier, place, target.\<close>

definition new_args :: "(i32 \<times> i32 \<times> i32) list \<Rightarrow> osc_arg list" where
  "new_args rs = concat (List.map (\<lambda>(i, a, j). [Arg_i i, Arg_i a, Arg_i j]) rs)"

lemma new_args_simps [simp]:
  "new_args [] = []" "new_args ((i, a, j) # rs) = Arg_i i # Arg_i a # Arg_i j # new_args rs"
  by (simp_all add: new_args_def)

text \<open>
  What the code takes for granted: no hidden identifier is asked for, no node is replaced, and nothing is put beside the root.
\<close>

definition round_fine :: "tree_state \<Rightarrow> i32 \<times> i32 \<times> i32 \<Rightarrow> bool" where
  "round_fine S r \<longleftrightarrow> (case r of (i, a, j) \<Rightarrow> i \<noteq> -1 \<and> a \<noteq> 4 \<and> (a = 2 \<or> a = 3 \<longrightarrow> ts_lookup S j \<noteq> tsFind S 0 \<or> ts_lookup S j = None))"

fun rounds_fine :: "nat \<Rightarrow> tree_state \<Rightarrow> (i32 \<times> i32 \<times> i32) list \<Rightarrow> bool" where
  "rounds_fine cap S [] \<longleftrightarrow> True"
| "rounds_fine cap S (r # rs) \<longleftrightarrow> round_fine S r \<and> (fst (ts_round cap r S) = kSCErr_None \<longrightarrow> rounds_fine cap (snd (ts_round cap r S)) rs)"

definition g_new_body :: "nat \<Rightarrow> loop_body" where
  "g_new_body k m w = do {
       (newGroupID, m) \<leftarrow> geti 0 m;
       (addAction, m) \<leftarrow> geti 0 m;
       if addAction = 0 then with_group (\<lambda>g m w. group_placed m (new_group_in Group_AddHead newGroupID g w)) m w
       else if addAction = 1 then with_group (\<lambda>g m w. group_placed m (new_group_in Group_AddTail newGroupID g w)) m w
       else if addAction = 2 then with_node kSCErr_TargetNodeNotFound
         (\<lambda>t m w. group_placed m (new_group_at Node_AddBefore newGroupID t w)) m w
       else if addAction = 3 then with_node kSCErr_TargetNodeNotFound
         (\<lambda>t m w. group_placed m (new_group_at Node_AddAfter newGroupID t w)) m w
       else if addAction = 4 then with_node kSCErr_TargetNodeNotFound
         (\<lambda>t m w. group_placed m (new_group_instead k newGroupID t w)) m w
       else leave kSCErr_Failed m w }"

lemma meth_g_new_body: "meth_g_new E k inSize inData inReply w = on_nodes args_left (g_new_body k) k inSize inData w"
  by (simp add: meth_g_new_def g_new_body_def [abs_def])

text \<open>The group is announced; then the next round, or the error.\<close>

definition round_result :: "nat \<Rightarrow> osc_arg list \<Rightarrow> (cmd_result option \<times> sc_msg_iter \<times> World) option \<Rightarrow> SCErr \<times> tree_state \<Rightarrow> bool" where
  "round_result n as r R \<longleftrightarrow> (\<exists>res m' w'. r = Some (res, m', w') \<and> (if fst R = kSCErr_None then res = None \<and> args_at as m' else res = Some (Ret (fst R)))
     \<and> engine_inv n w' (tsKids (snd R)) \<and> state_of w' (tsKids (snd R)) = snd R \<and> allocs w' = [])"

lemma placed_round:
  assumes "outcome n r R" "args_at as m"
  shows "round_result n as (group_placed m r) R"
proof -
  obtain err p w' where r: "r = Some (err, p, w')" "fst R = err" "engine_inv n w' (tsKids (snd R))" "state_of w' (tsKids (snd R)) = snd R"
    "allocs w' = []" "err = kSCErr_None \<longleftrightarrow> p \<noteq> None" "\<And>s. p = Some s \<Longrightarrow> heap w' s \<noteq> None"
    using assms(1) by (auto simp: outcome_def)
  show ?thesis
  proof (cases p)
    case None
    then show ?thesis using r by (simp add: group_placed_def round_result_def)
  next
    case (Some s)
    obtain w2 where w2: "Node_StateMsg s kNode_Go w' = Some w2" "engine_inv n w2 (tsKids (snd R))" "moved w' w2"
      using state_msg_ok [OF r(3)] r(7) [OF Some] by blast
    then show ?thesis using r Some assms(2) moved_state [OF w2(3) inv_lib_ok [OF r(3)], of "tsKids (snd R)"] moved_allocs [OF w2(3)]
      by (simp add: group_placed_def round_result_def next_round_def)
  qed
qed

lemma g_new_round:
  assumes inv: "engine_inv n w K" and al: "allocs w = []" and root: "node_map w 0 \<noteq> None"
    and args: "args_at (Arg_i i # Arg_i a # Arg_i j # as) m" and fine: "round_fine (state_of w K) (i, a, j)"
  shows "round_result n as (g_new_body k m w) (ts_round (2 ^ (n - 1)) (i, a, j) (state_of w K))"
proof -
  have lib: "lib_ok n w" by (rule inv_lib_ok [OF inv])
  have i: "i \<noteq> -1" "a \<noteq> 4" using fine by (simp_all add: round_fine_def)
  obtain m1 where m1: "geti 0 m = Some (i, m1)" "args_at (Arg_i a # Arg_i j # as) m1" using args_at_int [OF args] by blast
  obtain m2 where m2: "geti 0 m1 = Some (a, m2)" "args_at (Arg_i j # as) m2" using args_at_int [OF m1(2)] by blast
  obtain m3 where m3: "Msg_GetGroup w m2 = Some (lookup_group w j, m3)" "args_at as m3" using get_group [OF m2(2) lib] by blast
  obtain m4 where m4: "Msg_GetNode w m2 = Some (lookup w j, m4)" "args_at as m4" using get_node [OF m2(2) lib] by blast
  have fail: "round_result n as (leave e m' w) (e, state_of w K)" if "e \<noteq> kSCErr_None" for e m'
    using that inv al by (simp add: round_result_def)
  consider (group) "a = 0 \<or> a = 1" | (node) "a = 2 \<or> a = 3" | (other) "\<not> (a = 0 \<or> a = 1 \<or> a = 2 \<or> a = 3)" by blast
  then show ?thesis
  proof cases
    case group
    show ?thesis
    proof (cases "lookup_group w j")
      case None
      then have "ts_round (2 ^ (n - 1)) (i, a, j) (state_of w K) = (kSCErr_GroupNotFound, state_of w K)"
        using group by (auto simp: ts_round_def lookup_group_def split: option.splits if_splits)
      then show ?thesis using fail [of kSCErr_GroupNotFound m3] m1(1) m2(1) m3(1) None group by (auto simp: g_new_body_def with_group_def)
    next
      case (Some g)
      then have g: "lookup w j = Some g" "group_at w g" by (simp_all add: lookup_group_Some)
      note ok = new_group_in_ok [where add = Group_AddHead and put = "\<lambda>f K. K(g := f # K g)",
            OF inv al i(1) root adds_new_group(1) [OF inv g(2)], THEN placed_round, OF m3(2)]
        new_group_in_ok [where add = Group_AddTail and put = "\<lambda>f K. K(g := K g @ [f])",
            OF inv al i(1) root adds_new_group(2) [OF inv g(2)], THEN placed_round, OF m3(2)]
      show ?thesis using group
      proof
        assume "a = 0"
        then show ?thesis using ok(1) m1(1) m2(1) m3(1) Some g by (simp add: g_new_body_def with_group_def ts_round_def)
      next
        assume "a = 1"
        then show ?thesis using ok(2) m1(1) m2(1) m3(1) Some g by (simp add: g_new_body_def with_group_def ts_round_def)
      qed
    qed
  next
    case node
    show ?thesis
    proof (cases "lookup w j")
      case None
      then have "ts_round (2 ^ (n - 1)) (i, a, j) (state_of w K) = (kSCErr_TargetNodeNotFound, state_of w K)"
        using node by (auto simp: ts_round_def)
      then show ?thesis using fail [of kSCErr_TargetNodeNotFound m4] m1(1) m2(1) m4(1) None node by (auto simp: g_new_body_def with_node_def)
    next
      case (Some t)
      obtain tn where tn: "heap w t = Some tn" using lookup_heap [OF lib Some] by blast
      have "mID tn \<noteq> 0"
      proof
        assume "mID tn = 0"
        then have "node_map w 0 = Some t" using node_map_Some [OF lib] tn by blast
        then show False using fine node Some by (auto simp: round_fine_def)
      qed
      note at = new_group_at_ok [OF inv al i(1) root tn this] and ad = adds_new_node [OF inv tn this]
      note ok = at [where add = Node_AddBefore and put = "put_before t", OF ad(1), THEN placed_round, OF m4(2)]
        at [where add = Node_AddAfter and put = "put_after t", OF ad(2), THEN placed_round, OF m4(2)]
      show ?thesis using node
      proof
        assume "a = 2"
        then show ?thesis using ok(1) m1(1) m2(1) m4(1) Some by (simp add: g_new_body_def with_node_def ts_round_def)
      next
        assume "a = 3"
        then show ?thesis using ok(2) m1(1) m2(1) m4(1) Some by (simp add: g_new_body_def with_node_def ts_round_def)
      qed
    qed
  next
    case other
    then show ?thesis using fail [of kSCErr_Failed m2] m1(1) m2(1) i(2) by (simp add: g_new_body_def ts_round_def)
  qed
qed

lemma ts_find_grows: "tsFind S 0 \<noteq> None \<Longrightarrow> tsFind (snd (ts_round cap r S)) 0 \<noteq> None"
  by (cases r) (auto simp: ts_round_def ts_new_def ts_add_def Let_def split: option.splits if_splits)

lemma g_new_loop:
  "args_at (new_args rs) m \<Longrightarrow> engine_inv n w K \<Longrightarrow> allocs w = [] \<Longrightarrow> node_map w 0 \<noteq> None \<Longrightarrow> length rs < f \<Longrightarrow>
    rounds_fine (2 ^ (n - 1)) (state_of w K) rs \<Longrightarrow>
    \<exists>w'. loop_from f args_left (g_new_body k) m w = Some (Ret (fst (ts_rounds (2 ^ (n - 1)) rs (state_of w K))), w')
      \<and> engine_inv n w' (tsKids (snd (ts_rounds (2 ^ (n - 1)) rs (state_of w K))))
      \<and> state_of w' (tsKids (snd (ts_rounds (2 ^ (n - 1)) rs (state_of w K)))) = snd (ts_rounds (2 ^ (n - 1)) rs (state_of w K))"
proof (induction rs arbitrary: m w K f)
  case Nil
  then obtain f' where "f = Suc f'" by (cases f) auto
  then show ?case using args_at_Nil [of m] Nil.prems by (simp add: loop_from_Suc)
next
  case (Cons r rs)
  obtain i a j where r: "r = (i, a, j)" by (cases r)
  obtain f' where f: "f = Suc f'" using Cons.prems(5) by (cases f) auto
  have args: "args_at (Arg_i i # Arg_i a # Arg_i j # new_args rs) m" using Cons.prems(1) r by simp
  have left: "args_left m" using args_at_Cons(1) [OF args] by simp
  let ?R = "ts_round (2 ^ (n - 1)) r (state_of w K)"
  have "round_result n (new_args rs) (g_new_body k m w) ?R"
    using g_new_round [OF Cons.prems(2-4) args, of k] Cons.prems(6) r by simp
  then obtain res m' w' where b: "g_new_body k m w = Some (res, m', w')" and res: "if fst ?R = kSCErr_None then res = None \<and> args_at (new_args rs) m' else res = Some (Ret (fst ?R))"
    and w': "engine_inv n w' (tsKids (snd ?R))" "state_of w' (tsKids (snd ?R)) = snd ?R" "allocs w' = []"
    by (auto simp: round_result_def)
  show ?case
  proof (cases "fst ?R = kSCErr_None")
    case True
    have "tsFind (snd ?R) 0 \<noteq> None" using ts_find_grows [of "state_of w K"] Cons.prems(4) by simp
    then have root: "node_map w' 0 \<noteq> None" by (metis w'(2) state_of_simps(1))
    have fine: "rounds_fine (2 ^ (n - 1)) (state_of w' (tsKids (snd ?R))) rs" using Cons.prems(6) True w'(2) by simp
    have len: "length rs < f'" using Cons.prems(5) f by simp
    have "ts_rounds (2 ^ (n - 1)) (r # rs) (state_of w K) = ts_rounds (2 ^ (n - 1)) rs (snd ?R)" using True by (cases ?R) simp
    then show ?thesis using Cons.IH [OF _ w'(1,3) root len fine] res True b f left w'(2) by (simp add: loop_from_Suc del: rounds_fine.simps)
  next
    case False
    then have "ts_rounds (2 ^ (n - 1)) (r # rs) (state_of w K) = ?R" using False by (cases ?R) simp
    then show ?thesis using res False b f left w' by (simp add: loop_from_Suc returned_def)
  qed
qed

section \<open>A small engine\<close>

lemma group_new_simp:
  "Node_New GroupNodeDef i w = Some (kSCErr_None, Some g, w1) \<Longrightarrow> heap w1 = h(g \<mapsto> blank_node GroupNodeDef i) \<Longrightarrow>
   Group_New i w = Some (kSCErr_None, Some g, w1\<lparr>heap := h(g \<mapsto> blank_group i), mNumGroups := mNumGroups w1 + 1\<rparr>)"
  by (simp add: Group_New_def upd_def blank_group_def blank_node_def)

lemma root_world:
  "\<exists>w r. engine_inv 3 w (\<lambda>_. []) \<and> allocs w = [] \<and> fresh w = Suc r \<and>
    state_of w (\<lambda>_. []) = \<lparr>tsFind = [0 \<mapsto> r], tsGroups = {r}, tsKids = \<lambda>_. [], tsFresh = Suc r, tsRecent = 0, tsCount = 1\<rparr>"
proof -
  let ?e = "empty_world 4"
  have lib0: "lib_ok 3 ?e" using empty_world_ok [of 3] by simp
  have e: "allocs ?e = []" "heap ?e = Map.empty" "fresh ?e = 1" "mRealTime ?e" "mNodeEnds ?e = MsgFifoNoFree_new 1024" "mDeleteGraphDefs ?e = MsgFifoNoFree_new 512"
    by (simp_all add: empty_world_def)
  have "node_map ?e j = None" for j using node_map_Some [OF lib0, of j] e(2) by (cases "node_map ?e j") auto
  then have m0: "node_map ?e = Map.empty" by blast
  obtain w1 where w1: "Node_New GroupNodeDef 0 ?e = Some (kSCErr_None, Some 1, w1)" "lib_ok 3 w1" "node_map w1 = [0 \<mapsto> 1]"
    "heap w1 = [1 \<mapsto> blank_node GroupNodeDef 0]" "mRecentID w1 = 0"
    using Node_New_fresh(1) [OF lib0 e(1), of 0 GroupNodeDef] m0 e(2,3) by auto
  let ?w = "w1\<lparr>heap := [1 \<mapsto> blank_group 0], mNumGroups := mNumGroups w1 + 1\<rparr>"
  have kv: "node_kv (heap ?w) p = node_kv (heap w1) p" for p using w1(4) by (simp add: node_kv_def blank_group_def blank_node_def)
  have lib: "lib_ok 3 ?w" "node_map ?w = node_map w1" using lib_ok_same_ids [OF w1(2), of ?w] kv by simp_all
  have f: "same_queues ?e w1" by (rule Node_New_frame [OF w1(1)])
  have fr: "fresh w1 = 2" using Node_New_addr(1) [OF w1(1) e(1)] e(3) by simp
  have g: "mIsGroup (blank_group 0)" "mID (blank_group 0) = 0" "mParent (blank_group 0) = None" "mPrev (blank_group 0) = None"
    "mNext (blank_group 0) = None" "mHead (blank_group 0) = None" "mTail (blank_group 0) = None"
    by (simp_all add: blank_group_def blank_node_def)
  have "world_ok 3 ?w" using lib(1) f e g(1) nofree_new_ok [of 10] nofree_new_ok [of 9] by (auto simp: world_ok_def same_queues_def split: if_splits)
  moreover have "tree_ok (heap ?w) (\<lambda>_. [])" using g by (auto simp: tree_ok_def links_ok_def kids_ok_def)
  ultimately have "engine_inv 3 ?w (\<lambda>_. [])" using g(2) by (auto simp: engine_inv_def split: if_splits)
  moreover have "{p. group_at ?w p} = {1}" using g(1) by (auto simp: group_at_def split: if_splits)
  moreover have "allocs ?w = []" using f e(1) by (simp add: same_queues_def)
  ultimately show ?thesis using lib(2) w1(3,5) fr by (intro exI [of _ ?w] exI [of _ 1]) (simp add: state_of_def)
qed

lemma family_world:
  "\<exists>w r. engine_inv 3 w ((\<lambda>_. [])(r := [r + 1, r + 2])) \<and> allocs w = [] \<and> state_of w ((\<lambda>_. [])(r := [r + 1, r + 2]))
     = \<lparr>tsFind = [0 \<mapsto> r, 1000 \<mapsto> r + 1, 1001 \<mapsto> r + 2], tsGroups = {r, r + 1, r + 2}, tsKids = (\<lambda>_. [])(r := [r + 1, r + 2]), tsFresh = r + 3,
        tsRecent = 1001, tsCount = 3\<rparr>"
proof -
  obtain w r where w: "engine_inv 3 w (\<lambda>_. [])" "allocs w = []" "fresh w = Suc r" and
    st: "state_of w (\<lambda>_. []) = \<lparr>tsFind = [0 \<mapsto> r], tsGroups = {r}, tsKids = \<lambda>_. [], tsFresh = Suc r, tsRecent = 0, tsCount = 1\<rparr>"
    using root_world by blast
  have f: "node_map w = [0 \<mapsto> r]" "group_at w r" "card (dom (heap w)) = 1" using st by (auto simp: state_of_def)
  let ?put = "\<lambda>f K. K(r := K r @ [f])" and ?K1 = "(\<lambda>_. [])(r := [r + 1])" and ?K2 = "(\<lambda>_. [])(r := [r + 1, r + 2])"
  obtain w2 where "outcome 3 (Some (kSCErr_None, Some (fresh w), w2)) (kSCErr_None, ts_add 1000 ?put (state_of w (\<lambda>_. [])))"
    using created [where add = "Group_AddTail r" and put = ?put, OF w(1,2) _ _ _ adds_new_group(2) [OF w(1) f(2)], of 1000] f by auto
  moreover have "ts_add 1000 ?put (state_of w (\<lambda>_. [])) = \<lparr>tsFind = [0 \<mapsto> r, 1000 \<mapsto> r + 1], tsGroups = {r, r + 1}, tsKids = ?K1, tsFresh = r + 2,
      tsRecent = 1000, tsCount = 2\<rparr>"
    unfolding st by (auto simp: ts_add_def Let_def)
  ultimately have w2: "engine_inv 3 w2 ?K1" "allocs w2 = []" and st2: "state_of w2 ?K1 = \<lparr>tsFind = [0 \<mapsto> r, 1000 \<mapsto> r + 1],
      tsGroups = {r, r + 1}, tsKids = ?K1, tsFresh = r + 2, tsRecent = 1000, tsCount = 2\<rparr>"
    by (simp_all add: outcome_def)
  have f2: "node_map w2 = [0 \<mapsto> r, 1000 \<mapsto> r + 1]" "group_at w2 r" "card (dom (heap w2)) = 2" using st2 by (auto simp: state_of_def)
  obtain w3 where "outcome 3 (Some (kSCErr_None, Some (fresh w2), w3)) (kSCErr_None, ts_add 1001 ?put (state_of w2 ?K1))"
    using created [where add = "Group_AddTail r" and put = ?put, OF w2 _ _ _ adds_new_group(2) [OF w2(1) f2(2)], of 1001] f2 by auto
  moreover have "ts_add 1001 ?put (state_of w2 ?K1) = \<lparr>tsFind = [0 \<mapsto> r, 1000 \<mapsto> r + 1, 1001 \<mapsto> r + 2], tsGroups = {r, r + 1, r + 2},
      tsKids = ?K2, tsFresh = r + 3, tsRecent = 1001, tsCount = 3\<rparr>"
    unfolding st2 by (auto simp: ts_add_def Let_def)
  ultimately have "engine_inv 3 w3 ?K2" "allocs w3 = []" "state_of w3 ?K2 = \<lparr>tsFind = [0 \<mapsto> r, 1000 \<mapsto> r + 1, 1001 \<mapsto> r + 2],
      tsGroups = {r, r + 1, r + 2}, tsKids = ?K2, tsFresh = r + 3, tsRecent = 1001, tsCount = 3\<rparr>"
    by (simp_all add: outcome_def)
  then show ?thesis by (intro exI [of _ w3] exI [of _ r]) simp
qed

end
