(* ===== verification/SC_CmdProps.thy ===== *)
theory SC_CmdProps
  imports SC_NewGroups
begin

text \<open>
  What the commands do, from the bytes of a message to the state they leave: creating, moving and ordering nodes,
  the replies to failures, and arguments the handlers do not survive.
\<close>

section \<open>Creating and moving nodes\<close>

lemma run_loop:
  assumes "\<forall>a \<in> set as. arg_ok a"
  obtains m where "msg_init (length (osc_args as)) (osc_args as @ rest) = Some m" "args_at as m"
  using args_at_init [OF assms, of rest] by blast

lemma new_args_ok: "\<forall>a \<in> set (new_args rs). arg_ok a"
  by (auto simp: new_args_def)

lemma node_args_ok: "\<forall>a \<in> set (node_args is). arg_ok a"
  by (auto simp: node_args_def)

text \<open>
  C1: a \<open>g_new\<close> message, of whatever rounds of identifier, place and target, does to the engine what the
  rounds say one by one on the lists of children and the table of nodes: each puts a new group at the head or the tail of
  a group or before or after a node, or finds the group in its place already, or ends the command
  with the error of the missing target, the taken or reserved identifier, the full table or the unknown place, the rounds before it done.
\<close>

theorem g_new_refines_tree:
  assumes inv: "engine_inv n w K" and al: "allocs w = []" and root: "node_map w 0 \<noteq> None" and k: "length rs < k"
    and fine: "rounds_fine (2 ^ (n - 1)) (state_of w K) rs"
    and R: "ts_rounds (2 ^ (n - 1)) rs (state_of w K) = (err, S')"
  shows "\<exists>w'. meth_g_new E k (length (osc_args (new_args rs))) (osc_args (new_args rs) @ rest) addr w = Some (Ret err, w')
    \<and> engine_inv n w' (tsKids S') \<and> state_of w' (tsKids S') = S'"
proof -
  obtain m where "msg_init (length (osc_args (new_args rs))) (osc_args (new_args rs) @ rest) = Some m" "args_at (new_args rs) m"
    by (rule run_loop [OF new_args_ok])
  then show ?thesis using g_new_loop [OF _ inv al root k fine] R by (simp add: meth_g_new_body on_nodes_def)
qed

theorem g_new_refines_tree_witness:
  "\<exists>w r. engine_inv 3 w (\<lambda>_. []) \<and> (\<forall>E. \<exists>w'. meth_g_new E 4 (length (osc_args (new_args [(1000, 1, 0), (1001, 2, 1000), (1002, 0, 7)])))
      (osc_args (new_args [(1000, 1, 0), (1001, 2, 1000), (1002, 0, 7)])) 1 w = Some (Ret kSCErr_GroupNotFound, w')
    \<and> engine_inv 3 w' ((\<lambda>_. [])(r := [r + 2, r + 1])) \<and> node_map w' = [0 \<mapsto> r, 1000 \<mapsto> r + 1, 1001 \<mapsto> r + 2])"
proof -
  obtain w r where w: "engine_inv 3 w (\<lambda>_. [])" "allocs w = []" "fresh w = Suc r" and
    st: "state_of w (\<lambda>_. []) = \<lparr>tsFind = [0 \<mapsto> r], tsGroups = {r}, tsKids = \<lambda>_. [], tsFresh = Suc r, tsRecent = 0, tsCount = 1\<rparr>"
    using root_world by blast
  let ?rs = "[(1000, 1, 0), (1001, 2, 1000), (1002, 0, 7)] :: (i32 \<times> i32 \<times> i32) list"
  let ?S1 = "\<lparr>tsFind = [0 \<mapsto> r, 1000 \<mapsto> r + 1], tsGroups = {r, r + 1}, tsKids = (\<lambda>_. [])(r := [r + 1]), tsFresh = r + 2, tsRecent = 1000, tsCount = 2\<rparr>"
  let ?S2 = "\<lparr>tsFind = [0 \<mapsto> r, 1000 \<mapsto> r + 1, 1001 \<mapsto> r + 2], tsGroups = {r, r + 1, r + 2}, tsKids = (\<lambda>_. [])(r := [r + 2, r + 1]),
      tsFresh = r + 3, tsRecent = 1001, tsCount = 3\<rparr>"
  have r1: "ts_round 4 (1000, 1, 0) (state_of w (\<lambda>_. [])) = (kSCErr_None, ?S1)"
    unfolding st by (auto simp: ts_round_def ts_lookup_def ts_new_def ts_add_def Let_def)
  have r2: "ts_round 4 (1001, 2, 1000) ?S1 = (kSCErr_None, ?S2)"
    by (auto simp: ts_round_def ts_lookup_def ts_new_def ts_add_def Let_def put_before_def insert_before_def fun_eq_iff)
  have r3: "ts_round 4 (1002, 0, 7) ?S2 = (kSCErr_GroupNotFound, ?S2)"
    by (simp add: ts_round_def ts_lookup_def)
  have fine: "rounds_fine (2 ^ (3 - 1)) (state_of w (\<lambda>_. [])) ?rs"
    using r1 r2 by (simp add: round_fine_def ts_lookup_def)
  have R: "ts_rounds (2 ^ (3 - 1)) ?rs (state_of w (\<lambda>_. [])) = (kSCErr_GroupNotFound, ?S2)" using r1 r2 r3 by simp
  have root: "node_map w 0 \<noteq> None" using st by (simp add: state_of_def)
  have "\<exists>w'. meth_g_new E 4 (length (osc_args (new_args ?rs))) (osc_args (new_args ?rs)) 1 w = Some (Ret kSCErr_GroupNotFound, w')
    \<and> engine_inv 3 w' ((\<lambda>_. [])(r := [r + 2, r + 1])) \<and> node_map w' = [0 \<mapsto> r, 1000 \<mapsto> r + 1, 1001 \<mapsto> r + 2]" for E
    using g_new_refines_tree [OF w(1,2) root _ fine R, of 4 E "[]" 1] by (auto simp: state_of_def simp del: fun_upd_apply)
  then show ?thesis using w(1) by blast
qed

lemma g_head_move:
  assumes "engine_inv n w K" "heap w p \<noteq> None" "group_at w g"
  shows "\<exists>w'. move_into Group_AddHead g p w = Some w' \<and> engine_inv n w' (move_unless_root w p (put_head g p K) K) \<and> moved w w'"
    and "\<exists>w'. do { w \<leftarrow> Node_Remove p w; w \<leftarrow> Group_AddTail g p w; Node_StateMsg p kNode_Move w } = Some w'
      \<and> engine_inv n w' (move_unless_root w p (put_tail g p K) K) \<and> moved w w'"
  using move_into_ok(1) [where add = Group_AddHead, OF assms(1,2) put_into_ok(1) [OF assms]]
    move_into_ok(2) [where add = Group_AddTail, OF assms(1,2) put_into_ok(2) [OF assms]] .

text \<open>
  C2: \<open>g_head\<close>, \<open>g_tail\<close>, \<open>n_before\<close> and \<open>n_after\<close> do to the lists of children what their pairs say, in order. The
  first two end with the error of the first group or node that is missing, the moves before it done; the others
  pass over pairs with a missing node, and though they leave out every move that the next pair makes again for the same node, the
  result is that of all the moves. Identifiers and the other state stay.
\<close>

theorem moves_refine_lists:
  assumes inv: "engine_inv n w K" and k: "length ps < k"
  shows "(\<exists>w'. meth_g_head E k (length (osc_args (pair_args ps))) (osc_args (pair_args ps) @ rest) addr w
        = Some (Ret (fst (group_moves put_head w ps K)), w')
      \<and> engine_inv n w' (snd (group_moves put_head w ps K)) \<and> moved w w')
    \<and> (\<exists>w'. meth_g_tail E k (length (osc_args (pair_args ps))) (osc_args (pair_args ps) @ rest) addr w
        = Some (Ret (fst (group_moves put_tail w ps K)), w')
      \<and> engine_inv n w' (snd (group_moves put_tail w ps K)) \<and> moved w w')
    \<and> (good_targets w ps \<longrightarrow>
       (\<exists>w'. meth_n_before E k (length (osc_args (pair_args ps))) (osc_args (pair_args ps) @ rest) addr w = Some (Ret kSCErr_None, w')
          \<and> engine_inv n w' (node_moves put_before w ps K) \<and> moved w w')
     \<and> (\<exists>w'. meth_n_after E k (length (osc_args (pair_args ps))) (osc_args (pair_args ps) @ rest) addr w = Some (Ret kSCErr_None, w')
          \<and> engine_inv n w' (node_moves put_after w ps K) \<and> moved w w'))"
proof (intro conjI impI)
  obtain m where m: "msg_init (length (osc_args (pair_args ps))) (osc_args (pair_args ps) @ rest) = Some m" "args_at (pair_args ps) m"
    by (rule run_loop [OF pair_args_ok])
  have lib: "lib_ok n w" by (rule inv_lib_ok [OF inv])
  show "\<exists>w'. meth_g_head E k (length (osc_args (pair_args ps))) (osc_args (pair_args ps) @ rest) addr w
        = Some (Ret (fst (group_moves put_head w ps K)), w') \<and> engine_inv n w' (snd (group_moves put_head w ps K)) \<and> moved w w'"
    unfolding meth_g_head_def on_nodes_def m(1) Option.bind.simps by (rule group_moves_loop [OF g_head_move(1) m(2) inv k])
  show "\<exists>w'. meth_g_tail E k (length (osc_args (pair_args ps))) (osc_args (pair_args ps) @ rest) addr w
        = Some (Ret (fst (group_moves put_tail w ps K)), w') \<and> engine_inv n w' (snd (group_moves put_tail w ps K)) \<and> moved w w'"
    unfolding meth_g_tail_def on_nodes_def m(1) Option.bind.simps by (rule group_moves_loop [OF g_head_move(2) m(2) inv k])
  assume good: "good_targets w ps"
  have no: "\<And>pt. None = Some pt \<Longrightarrow> good_target w pt" by simp
  have fin: "\<exists>w'. (case s of Some (p, t) \<Rightarrow> move_to add p t w1 | None \<Rightarrow> Some w1) = Some w' \<and> engine_inv n w' (pending put w s K1) \<and> moved w w'"
    if mv: "\<And>w K p t. engine_inv n w K \<Longrightarrow> good_target w (p, t)
        \<Longrightarrow> \<exists>w'. move_to add p t w = Some w' \<and> engine_inv n w' (move_unless_root w p (put t p K) K) \<and> moved w w'"
      and w1: "engine_inv n w1 K1" "moved w w1" and s: "\<forall>pt. s = Some pt \<longrightarrow> good_target w pt" for add put s w1 K1
  proof (cases s)
    case None
    then show ?thesis using w1 by (simp add: pending_def)
  next
    case (Some pt)
    obtain p t where pt: "pt = (p, t)" by (cases pt)
    have "good_target w1 (p, t)" using s Some pt moved_good(2) [OF w1(2) lib] by simp
    from mv [OF w1(1) this] obtain w' where w': "move_to add p t w1 = Some w'" "engine_inv n w' (move_unless_root w1 p (put t p K1) K1)" "moved w1 w'" by blast
    then show ?thesis using Some pt moved_trans [OF w1(2) w'(3)] moved_good(4) [OF w1(2) lib, of p "put t p K1" K1] by (simp add: pending_def)
  qed
  obtain s m' w1 K1 where b: "while_msg k args_left (move_pair Node_AddBefore) None m w = Some (None, s, m', w1)" "engine_inv n w1 K1" "moved w w1"
    "pending put_before w s K1 = node_moves put_before w ps (pending put_before w None K)" "\<forall>pt. s = Some pt \<longrightarrow> good_target w pt"
    using node_moves_loop [where add = Node_AddBefore and put = put_before, OF move_to_ok(1) move_twice(1) m(2) inv k good no] by blast
  have "(case s of Some (p, t) \<Rightarrow> if p \<noteq> t then move_to Node_AddBefore p t w1 else Some w1 | None \<Rightarrow> Some w1)
      = (case s of Some (p, t) \<Rightarrow> move_to Node_AddBefore p t w1 | None \<Rightarrow> Some w1)"
    using b(5) by (auto simp: good_target_def split: option.splits)
  then show "\<exists>w'. meth_n_before E k (length (osc_args (pair_args ps))) (osc_args (pair_args ps) @ rest) addr w = Some (Ret kSCErr_None, w')
          \<and> engine_inv n w' (node_moves put_before w ps K) \<and> moved w w'"
    using fin [OF move_to_ok(1) b(2,3,5)] b(1,4) m(1) by (auto simp: meth_n_before_def pending_def)
  obtain s m' w1 K1 where a: "while_msg k args_left (move_pair Node_AddAfter) None m w = Some (None, s, m', w1)" "engine_inv n w1 K1" "moved w w1"
    "pending put_after w s K1 = node_moves put_after w ps (pending put_after w None K)" "\<forall>pt. s = Some pt \<longrightarrow> good_target w pt"
    using node_moves_loop [where add = Node_AddAfter and put = put_after, OF move_to_ok(2) move_twice(2) m(2) inv k good no] by blast
  show "\<exists>w'. meth_n_after E k (length (osc_args (pair_args ps))) (osc_args (pair_args ps) @ rest) addr w = Some (Ret kSCErr_None, w')
          \<and> engine_inv n w' (node_moves put_after w ps K) \<and> moved w w'"
    using fin [OF move_to_ok(2) a(2,3,5)] a(1,4) m(1) by (auto simp: meth_n_after_def pending_def)
qed

lemma family_lookup:
  assumes "state_of w ((\<lambda>_. [])(r := [r + 1, r + 2])) = \<lparr>tsFind = [0 \<mapsto> r, 1000 \<mapsto> r + 1, 1001 \<mapsto> r + 2], tsGroups = {r, r + 1, r + 2},
     tsKids = (\<lambda>_. [])(r := [r + 1, r + 2]), tsFresh = r + 3, tsRecent = 1001, tsCount = 3\<rparr>" and "engine_inv 3 w ((\<lambda>_. [])(r := [r + 1, r + 2]))"
  shows "lookup w 1000 = Some (r + 1)" "lookup w 1001 = Some (r + 2)" "lookup_group w 1000 = Some (r + 1)" "lookup w 0 = Some r" "lookup_group w 0 = Some r"
    "\<not> root_at w (r + 1)" "\<not> root_at w (r + 2)"
proof -
  have f: "node_map w = [0 \<mapsto> r, 1000 \<mapsto> r + 1, 1001 \<mapsto> r + 2]" and g: "{p. group_at w p} = {r, r + 1, r + 2}" using assms(1) by (simp_all add: state_of_def)
  have lib: "lib_ok 3 w" by (rule inv_lib_ok [OF assms(2)])
  have g': "group_at w r" "group_at w (r + 1)" using g by blast+
  show l: "lookup w 1000 = Some (r + 1)" "lookup w 1001 = Some (r + 2)" "lookup w 0 = Some r" using f by (simp_all add: lookup_def)
  show "lookup_group w 1000 = Some (r + 1)" "lookup_group w 0 = Some r" using l g' by (simp_all add: lookup_group_def)
  have "\<not> root_at w p" if "p \<noteq> r" for p
  proof
    assume "root_at w p"
    then have "node_map w 0 = Some p" using node_map_Some [OF lib, of 0 p] by (auto simp: root_at_def split: option.splits)
    then show False using f that by simp
  qed
  then show "\<not> root_at w (r + 1)" "\<not> root_at w (r + 2)" by simp_all
qed

theorem moves_refine_lists_witness:
  "\<exists>w r. engine_inv 3 w ((\<lambda>_. [])(r := [r + 1, r + 2])) \<and>
     (\<forall>E. \<exists>w'. meth_g_head E 2 (length (osc_args (pair_args [(1000, 1001)]))) (osc_args (pair_args [(1000, 1001)])) 1 w = Some (Ret kSCErr_None, w')
        \<and> engine_inv 3 w' ((\<lambda>_. [])(r := [r + 1], r + 1 := [r + 2]))) \<and>
     (\<forall>E. \<exists>w'. meth_n_after E 2 (length (osc_args (pair_args [(1000, 1001)]))) (osc_args (pair_args [(1000, 1001)])) 1 w = Some (Ret kSCErr_None, w')
        \<and> engine_inv 3 w' ((\<lambda>_. [])(r := [r + 2, r + 1])))"
proof -
  obtain w r where w: "engine_inv 3 w ((\<lambda>_. [])(r := [r + 1, r + 2]))" and st: "state_of w ((\<lambda>_. [])(r := [r + 1, r + 2]))
     = \<lparr>tsFind = [0 \<mapsto> r, 1000 \<mapsto> r + 1, 1001 \<mapsto> r + 2], tsGroups = {r, r + 1, r + 2}, tsKids = (\<lambda>_. [])(r := [r + 1, r + 2]), tsFresh = r + 3,
        tsRecent = 1001, tsCount = 3\<rparr>"
    using family_world by blast
  let ?K = "(\<lambda>_. [])(r := [r + 1, r + 2])"
  note l = family_lookup [OF st w]
  have h: "group_moves put_head w [(1000, 1001)] ?K = (kSCErr_None, (\<lambda>_. [])(r := [r + 1], r + 1 := [r + 2]))"
    using l by (auto simp: move_unless_root_def put_head_def without_node_def fun_eq_iff)
  have a: "node_moves put_after w [(1000, 1001)] ?K = (\<lambda>_. [])(r := [r + 2, r + 1])" "good_targets w [(1000, 1001)]"
    using l by (auto simp: move_unless_root_def put_after_def insert_after_def fun_eq_iff good_targets_def)
  have "\<exists>w'. meth_g_head E 2 (length (osc_args (pair_args [(1000, 1001)]))) (osc_args (pair_args [(1000, 1001)])) 1 w = Some (Ret kSCErr_None, w')
        \<and> engine_inv 3 w' ((\<lambda>_. [])(r := [r + 1], r + 1 := [r + 2]))" for E
    using moves_refine_lists [OF w, of "[(1000, 1001)]" 2 E "[]" 1] h by fastforce
  moreover have "\<exists>w'. meth_n_after E 2 (length (osc_args (pair_args [(1000, 1001)]))) (osc_args (pair_args [(1000, 1001)])) 1 w = Some (Ret kSCErr_None, w')
        \<and> engine_inv 3 w' ((\<lambda>_. [])(r := [r + 2, r + 1]))" for E
    using moves_refine_lists [OF w, of "[(1000, 1001)]" 2 E "[]" 1] a by fastforce
  ultimately show ?thesis using w by blast
qed

text \<open>
  C24: \<open>n_order\<close> puts the nodes it names, those that do not exist apart, in a row in the order of the message: at the head or the tail
  of a group, or before or after a node that is not one of them; everything else keeps its order. When none of them
  exists it changes nothing and says so.
\<close>

theorem n_order_makes_row:
  assumes inv: "engine_inv n w K" and k: "length is < k"
    and nodes: "distinct (found_nodes w is)" "\<forall>p \<in> set (found_nodes w is). \<not> root_at w p"
    and place: "(a = 0 \<or> a = 1) \<and> lookup_group w j = Some g \<and> as @ bs = K g \<and> (if a = 0 then as = [] else bs = [])
      \<or> (a = 2 \<or> a = 3) \<and> lookup w j = Some t \<and> K g = xs @ t # ys \<and> t \<notin> set (found_nodes w is)
        \<and> (if a = 2 then as = xs \<and> bs = t # ys else as = xs @ [t] \<and> bs = ys)"
  shows "\<exists>w'. meth_n_order E k (length (osc_args (node_args (a # j # is)))) (osc_args (node_args (a # j # is)) @ rest) addr w
      = Some (Ret (if found_nodes w is = [] then kSCErr_NodeNotFound else kSCErr_None), w')
    \<and> engine_inv n w' (if found_nodes w is = [] then K else row g as bs (found_nodes w is) K) \<and> moved w w'"
proof -
  have lib: "lib_ok n w" by (rule inv_lib_ok [OF inv])
  obtain m where m: "msg_init (length (osc_args (node_args (a # j # is)))) (osc_args (node_args (a # j # is)) @ rest) = Some m"
    "args_at (Arg_i a # Arg_i j # node_args is) m" using run_loop [OF node_args_ok, of "a # j # is"] by (metis node_args_simps(2))
  obtain m1 where m1: "geti 0 m = Some (a, m1)" "args_at (Arg_i j # node_args is) m1" using args_at_int [OF m(2)] by blast
  have there: "heap w p \<noteq> None" if "p \<in> set (found_nodes w is)" for p
    using that lookup_heap [OF lib] by (fastforce simp: found_nodes_def List.map_filter_def)
  have fine: "move_unless_root w p K' K = K'" if "p \<in> set (found_nodes w is)" for p K' using that nodes(2) by (simp add: move_unless_root_def)
  from place show ?thesis
  proof
    assume g: "(a = 0 \<or> a = 1) \<and> lookup_group w j = Some g \<and> as @ bs = K g \<and> (if a = 0 then as = [] else bs = [])"
    obtain m2 where m2: "Msg_GetGroup w m1 = Some (Some g, m2)" "args_at (node_args is) m2" using get_group [OF m1(2) lib] g by auto
    have at: "a = 0 \<and> as = [] \<and> bs = K g \<or> a = 1 \<and> as = K g \<and> bs = []" using g by (cases "a = 0") auto
    have "group_at w g" using g by (simp add: lookup_group_Some)
    then have pl: "\<exists>w'. move_into (if a = 0 then Group_AddHead else Group_AddTail) g p w = Some w' \<and> engine_inv n w' (row g as bs [p] K) \<and> moved w w'"
      if "p \<in> set (found_nodes w is)" for p
      using move_into_ok(1) [where add = Group_AddHead, OF inv there [OF that] put_into_ok(1) [OF inv there [OF that]]]
        move_into_ok(1) [where add = Group_AddTail, OF inv there [OF that] put_into_ok(2) [OF inv there [OF that]]]
        fine [OF that] at by (auto simp: row_head row_tail)
    show ?thesis using place_first_ok [where place = "move_into (if a = 0 then Group_AddHead else Group_AddTail) g" and g = g and as = as and bs = bs,
          OF inv m2(2) k nodes pl] m(1) m1(1) m2(1) g by (simp add: meth_n_order_def)
  next
    assume t: "(a = 2 \<or> a = 3) \<and> lookup w j = Some t \<and> K g = xs @ t # ys \<and> t \<notin> set (found_nodes w is)
        \<and> (if a = 2 then as = xs \<and> bs = t # ys else as = xs @ [t] \<and> bs = ys)"
    obtain m2 where m2: "Msg_GetNode w m1 = Some (Some t, m2)" "args_at (node_args is) m2" using get_node [OF m1(2) lib] t by auto
    obtain tn where tn: "heap w t = Some tn" using lookup_heap [OF lib] t by blast
    have kid: "t \<in> set (K g)" using t by auto
    then have id: "mID tn \<noteq> 0" using inv tn by (auto simp: engine_inv_def)
    have K: "t \<notin> set xs" "t \<notin> set ys" "\<And>h. h \<noteq> g \<Longrightarrow> t \<notin> set (K h)"
    proof -
      have "distinct (K g)" using inv tree_ok_D(4) by (auto simp: engine_inv_def)
      then show "t \<notin> set xs" "t \<notin> set ys" using t by auto
      show "h \<noteq> g \<Longrightarrow> t \<notin> set (K h)" for h using parent_iff [OF inv tn] kid by (metis option.inject)
    qed
    have pl: "\<exists>w'. move_to (if a = 2 then Node_AddBefore else Node_AddAfter) p t w = Some w' \<and> engine_inv n w' (row g as bs [p] K) \<and> moved w w'"
      if "p \<in> set (found_nodes w is)" for p
    proof -
      have "t \<noteq> p" using that t by blast
      then have "good_target w (p, t)" using there [OF that] tn id by (simp add: good_target_def root_at_def)
      then show ?thesis using move_to_ok(1) [OF inv, of p t] move_to_ok(2) [OF inv, of p t] fine [OF that] t
          row_beside [of K g xs t ys p] K \<open>t \<noteq> p\<close> by (cases "a = 2") simp_all
    qed
    show ?thesis using place_first_ok [where place = "\<lambda>p. move_to (if a = 2 then Node_AddBefore else Node_AddAfter) p t" and g = g and as = as and bs = bs,
          OF inv m2(2) k nodes pl] m(1) m1(1) m2(1) t by (auto simp: meth_n_order_def)
  qed
qed

theorem n_order_makes_row_witness:
  "\<exists>w r. engine_inv 3 w ((\<lambda>_. [])(r := [r + 1, r + 2])) \<and>
     (\<forall>E. \<exists>w'. meth_n_order E 4 (length (osc_args (node_args [0, 0, 1001, 5, 1000]))) (osc_args (node_args [0, 0, 1001, 5, 1000])) 1 w
        = Some (Ret kSCErr_None, w') \<and> engine_inv 3 w' ((\<lambda>_. [])(r := [r + 2, r + 1])))"
proof -
  obtain w r where w: "engine_inv 3 w ((\<lambda>_. [])(r := [r + 1, r + 2]))" and st: "state_of w ((\<lambda>_. [])(r := [r + 1, r + 2]))
     = \<lparr>tsFind = [0 \<mapsto> r, 1000 \<mapsto> r + 1, 1001 \<mapsto> r + 2], tsGroups = {r, r + 1, r + 2}, tsKids = (\<lambda>_. [])(r := [r + 1, r + 2]), tsFresh = r + 3,
        tsRecent = 1001, tsCount = 3\<rparr>"
    using family_world by blast
  note l = family_lookup [OF st w]
  have "lookup w 5 = None" using st by (simp add: state_of_def lookup_def)
  then have f: "found_nodes w [1001, 5, 1000] = [r + 2, r + 1]" using l by simp
  have row: "row r [] [r + 1, r + 2] [r + 2, r + 1] ((\<lambda>_. [])(r := [r + 1, r + 2])) = (\<lambda>_. [])(r := [r + 2, r + 1])"
    by (auto simp: row_def fun_eq_iff)
  have "\<exists>w'. meth_n_order E 4 (length (osc_args (node_args [0, 0, 1001, 5, 1000]))) (osc_args (node_args [0, 0, 1001, 5, 1000])) 1 w
        = Some (Ret kSCErr_None, w') \<and> engine_inv 3 w' ((\<lambda>_. [])(r := [r + 2, r + 1]))" for E
    using n_order_makes_row [OF w, of "[1001, 5, 1000]" 4 0 0 r "[]" "[r + 1, r + 2]" _ _ _ E "[]" 1] l f row by fastforce
  then show ?thesis using w by blast
qed

section \<open>Moves that lose nodes\<close>

lemma detach_ok:
  assumes inv: "engine_inv n w K" and p: "heap w p = Some nd" "mID nd \<noteq> 0"
    and add: "\<And>w'. Node_Remove p w = Some w' \<Longrightarrow> unlinked w' p \<Longrightarrow> add p t w' = Some w'"
  shows "\<exists>w'. move_to add p t w = Some w' \<and> tree_rep n w' (without_node p K) \<and> unlinked w' p"
proof -
  obtain w1 where w1: "Node_Remove p w = Some w1" "tree_rep n w1 (without_node p K)" "unlinked w1 p" "moved w w1" "mNodeEnds w1 = mNodeEnds w"
    using remove_ok [OF inv p] by blast
  have ok: "world_ok n w1" by (rule moved_world_ok [OF w1(4) _ w1(5)]) (use inv in \<open>simp add: engine_inv_def\<close>)
  obtain nd1 where nd1: "heap w1 p = Some nd1" "mParent nd1 = None" using w1(3) by (auto simp: unlinked_def)
  have links: "mPrev nd1 = None" "mNext nd1 = None" using w1(2) nd1 tree_ok_D(1) [of "heap w1" "without_node p K" p nd1]
    by (simp_all add: tree_rep_def links_ok_def)
  have kids: "heap w1 c \<noteq> None" if "c \<in> set (without_node p K g)" for c g using child_of [OF w1(2) that] by auto
  have "heap w1 q \<noteq> None" if "mIsGroup nd1 \<and> (mHead nd1 = Some q \<or> mTail nd1 = Some q)" for q
    using group_ends [OF w1(2) nd1(1)] that kids first_of_in last_of_in by metis
  then obtain q where q: "Node_StateMsg p kNode_Move w1 = Some (w1\<lparr>mNodeEnds := q\<rparr>)"
    using Node_StateMsg_ok [OF ok nd1(1)] nd1(2) links by fastforce
  have "lib_ok n (w1\<lparr>mNodeEnds := q\<rparr>)" using lib_ok_same_ids(1) [of n w1 "w1\<lparr>mNodeEnds := q\<rparr>"] w1(2) by (simp add: tree_rep_def)
  then have "tree_rep n (w1\<lparr>mNodeEnds := q\<rparr>) (without_node p K)" using w1(2) by (simp add: tree_rep_def)
  moreover have "unlinked (w1\<lparr>mNodeEnds := q\<rparr>) p" using w1(3) by (simp add: unlinked_def)
  ultimately show ?thesis using w1(1) add [OF w1(1,3)] q by (simp add: move_to_def)
qed

lemma one_pair:
  assumes lib: "lib_ok n w"
  shows "\<exists>m m1 m2. msg_init (length (osc_args (pair_args [(a, b)]))) (osc_args (pair_args [(a, b)]) @ rest) = Some m \<and> args_left m
      \<and> Msg_GetNode w m = Some (lookup w a, m1) \<and> Msg_GetNode w m1 = Some (lookup w b, m2) \<and> \<not> args_left m2"
proof -
  obtain m where m: "msg_init (length (osc_args (pair_args [(a, b)]))) (osc_args (pair_args [(a, b)]) @ rest) = Some m" "args_at [Arg_i a, Arg_i b] m"
    using run_loop [OF pair_args_ok, of "[(a, b)]"] by auto
  obtain m1 where m1: "Msg_GetNode w m = Some (lookup w a, m1)" "args_at [Arg_i b] m1" using get_node [OF m(2) lib] by blast
  obtain m2 where m2: "Msg_GetNode w m1 = Some (lookup w b, m2)" "args_at [] m2" using get_node [OF m1(2) lib] by blast
  show ?thesis using m(1) m1(1) m2(1) args_at_Cons(1) [OF m(2)] args_at_Nil [OF m2(2)] by fastforce
qed

lemma one_move:
  assumes "lib_ok n w" "lookup w a = Some p" "lookup w b = Some t"
  shows "meth_n_after E 2 (length (osc_args (pair_args [(a, b)]))) (osc_args (pair_args [(a, b)]) @ rest) addr w
      = do { w \<leftarrow> move_to Node_AddAfter p t w; Some (Ret kSCErr_None, w) }"
    and "p \<noteq> t \<Longrightarrow> meth_n_before E 2 (length (osc_args (pair_args [(a, b)]))) (osc_args (pair_args [(a, b)]) @ rest) addr w
      = do { w \<leftarrow> move_to Node_AddBefore p t w; Some (Ret kSCErr_None, w) }"
proof -
  obtain m m1 m2 where m: "msg_init (length (osc_args (pair_args [(a, b)]))) (osc_args (pair_args [(a, b)]) @ rest) = Some m" "args_left m"
    "Msg_GetNode w m = Some (Some p, m1)" "Msg_GetNode w m1 = Some (Some t, m2)" "\<not> args_left m2"
    using one_pair [OF assms(1), of a b rest] assms(2,3) by auto
  then have "while_msg 2 args_left (move_pair add) None m w = Some (None, Some (p, t), m2, w)" for add
    by (simp add: numeral_2_eq_2 move_pair_def)
  then show "meth_n_after E 2 (length (osc_args (pair_args [(a, b)]))) (osc_args (pair_args [(a, b)]) @ rest) addr w
      = do { w \<leftarrow> move_to Node_AddAfter p t w; Some (Ret kSCErr_None, w) }"
    "p \<noteq> t \<Longrightarrow> meth_n_before E 2 (length (osc_args (pair_args [(a, b)]))) (osc_args (pair_args [(a, b)]) @ rest) addr w
      = do { w \<leftarrow> move_to Node_AddBefore p t w; Some (Ret kSCErr_None, w) }"
    using m(1) by (simp_all add: meth_n_after_def meth_n_before_def)
qed

lemma root_has_no_group:
  assumes inv: "engine_inv n w K" and p: "heap w p = Some nd" "mID nd \<noteq> 0" and r: "heap w r = Some rn" "mID rn = 0"
    and rm: "Node_Remove p w = Some w1"
  shows "Node_AddAfter p r w1 = Some w1" "Node_AddBefore p r w1 = Some w1"
proof -
  have w1: "tree_rep n w1 (without_node p K)" "moved w w1" using remove_ok [OF inv p] rm by auto
  obtain x where x: "heap w1 r = Some x" using moved_core(2) [OF w1(2) r(1)] by blast
  have "\<And>g. r \<notin> set (without_node p K g)" using engine_inv_root(4) [OF inv r] by (simp add: without_node_def)
  then have "mParent x = None" using w1(1) x tree_ok_D(1) [of "heap w1" "without_node p K" r x]
    by (auto simp: tree_rep_def links_ok_def split: option.splits)
  then show "Node_AddAfter p r w1 = Some w1" "Node_AddBefore p r w1 = Some w1"
    using x by (simp_all add: Node_AddAfter_def Node_AddBefore_def deref_def)
qed

text \<open>
  C35: three messages take a node out of the tree for good, though it stays in the table of nodes: \<open>n_after\<close> of
  a node and itself (\<open>n_before\<close> checks for this), \<open>n_before\<close> and \<open>n_after\<close> of a node and the root, and \<open>g_head\<close> of a group
  into itself, which becomes its own and only parent. The engine never calculates such a node again.
\<close>

theorem moves_lose_nodes:
  assumes inv: "engine_inv n w K" and p: "lookup w i = Some p" "\<not> root_at w p" and r: "lookup w j = Some r" "root_at w r"
  shows "(\<exists>w'. meth_n_after E 2 (length (osc_args (pair_args [(i, i)]))) (osc_args (pair_args [(i, i)]) @ rest) addr w = Some (Ret kSCErr_None, w')
        \<and> tree_rep n w' (without_node p K) \<and> unlinked w' p)
    \<and> (\<exists>w'. meth_n_before E 2 (length (osc_args (pair_args [(i, j)]))) (osc_args (pair_args [(i, j)]) @ rest) addr w = Some (Ret kSCErr_None, w')
        \<and> tree_rep n w' (without_node p K) \<and> unlinked w' p)
    \<and> (\<exists>w'. meth_n_after E 2 (length (osc_args (pair_args [(i, j)]))) (osc_args (pair_args [(i, j)]) @ rest) addr w = Some (Ret kSCErr_None, w')
        \<and> tree_rep n w' (without_node p K) \<and> unlinked w' p)
    \<and> (group_at w p \<longrightarrow>
       (\<exists>w' K'. meth_g_head E 2 (length (osc_args (pair_args [(i, i)]))) (osc_args (pair_args [(i, i)]) @ rest) addr w = Some (Ret kSCErr_None, w')
        \<and> engine_inv n w' K' \<and> (\<forall>h. p \<in> set (K' h) \<longleftrightarrow> h = p)))"
proof (intro conjI impI)
  have lib: "lib_ok n w" by (rule inv_lib_ok [OF inv])
  obtain nd where nd: "heap w p = Some nd" "mID nd \<noteq> 0" using p lookup_heap [OF lib p(1)] by (auto simp: root_at_def)
  obtain rn where rn: "heap w r = Some rn" "mID rn = 0" using r lookup_heap [OF lib r(1)] by (auto simp: root_at_def)
  have pr: "p \<noteq> r" using p(2) r(2) by blast
  have self: "Node_AddAfter p p w' = Some w'" if "unlinked w' p" for w' using that by (auto simp: unlinked_def Node_AddAfter_def deref_def)
  show "\<exists>w'. meth_n_after E 2 (length (osc_args (pair_args [(i, i)]))) (osc_args (pair_args [(i, i)]) @ rest) addr w = Some (Ret kSCErr_None, w')
        \<and> tree_rep n w' (without_node p K) \<and> unlinked w' p"
    using detach_ok [where add = Node_AddAfter, OF inv nd self] unfolding one_move(1) [OF lib p(1) p(1)] by auto
  show "\<exists>w'. meth_n_before E 2 (length (osc_args (pair_args [(i, j)]))) (osc_args (pair_args [(i, j)]) @ rest) addr w = Some (Ret kSCErr_None, w')
        \<and> tree_rep n w' (without_node p K) \<and> unlinked w' p"
    using detach_ok [where add = Node_AddBefore, OF inv nd root_has_no_group(2) [OF inv nd rn]] unfolding one_move(2) [OF lib p(1) r(1) pr] by auto
  show "\<exists>w'. meth_n_after E 2 (length (osc_args (pair_args [(i, j)]))) (osc_args (pair_args [(i, j)]) @ rest) addr w = Some (Ret kSCErr_None, w')
        \<and> tree_rep n w' (without_node p K) \<and> unlinked w' p"
    using detach_ok [where add = Node_AddAfter, OF inv nd root_has_no_group(1) [OF inv nd rn]] unfolding one_move(1) [OF lib p(1) r(1)] by auto
  assume g: "group_at w p"
  obtain m where m: "msg_init (length (osc_args (pair_args [(i, i)]))) (osc_args (pair_args [(i, i)]) @ rest) = Some m" "args_at (pair_args [(i, i)]) m"
    by (rule run_loop [OF pair_args_ok])
  have moves: "group_moves put_head w [(i, i)] K = (kSCErr_None, put_head p p K)"
    using g p by (simp add: lookup_group_def move_unless_root_def)
  show "\<exists>w' K'. meth_g_head E 2 (length (osc_args (pair_args [(i, i)]))) (osc_args (pair_args [(i, i)]) @ rest) addr w = Some (Ret kSCErr_None, w')
        \<and> engine_inv n w' K' \<and> (\<forall>h. p \<in> set (K' h) \<longleftrightarrow> h = p)"
  proof -
    have "\<exists>w'. loop_from 2 args_left (with_group (\<lambda>g. with_node kSCErr_NodeNotFound (\<lambda>p m w. next_round m (move_into Group_AddHead g p w)))) m w
        = Some (Ret (fst (group_moves put_head w [(i, i)] K)), w') \<and> engine_inv n w' (snd (group_moves put_head w [(i, i)] K)) \<and> moved w w'"
      by (rule group_moves_loop [OF g_head_move(1) m(2) inv]) simp_all
    then show ?thesis unfolding moves using m(1) in_put(1) [of _ p p K] by (auto simp: meth_g_head_def on_nodes_def)
  qed
qed

theorem moves_lose_nodes_witness:
  "\<exists>w r. engine_inv 3 w ((\<lambda>_. [])(r := [r + 1, r + 2])) \<and>
     (\<forall>E. \<exists>w'. meth_n_after E 2 (length (osc_args (pair_args [(1000, 1000)]))) (osc_args (pair_args [(1000, 1000)])) 1 w = Some (Ret kSCErr_None, w')
        \<and> tree_rep 3 w' ((\<lambda>_. [])(r := [r + 2])) \<and> unlinked w' (r + 1))"
proof -
  obtain w r where w: "engine_inv 3 w ((\<lambda>_. [])(r := [r + 1, r + 2]))" and st: "state_of w ((\<lambda>_. [])(r := [r + 1, r + 2]))
     = \<lparr>tsFind = [0 \<mapsto> r, 1000 \<mapsto> r + 1, 1001 \<mapsto> r + 2], tsGroups = {r, r + 1, r + 2}, tsKids = (\<lambda>_. [])(r := [r + 1, r + 2]), tsFresh = r + 3,
        tsRecent = 1001, tsCount = 3\<rparr>"
    using family_world by blast
  note l = family_lookup [OF st w]
  have lib: "lib_ok 3 w" by (rule inv_lib_ok [OF w])
  have "node_map w 0 = Some r" using st by (simp add: state_of_def)
  then have "root_at w r" using node_map_Some [OF lib, of 0 r] by (auto simp: root_at_def)
  moreover have "without_node (r + 1) ((\<lambda>_. [])(r := [r + 1, r + 2])) = (\<lambda>_. [])(r := [r + 2])" by (auto simp: without_node_def fun_eq_iff)
  ultimately have "\<exists>w'. meth_n_after E 2 (length (osc_args (pair_args [(1000, 1000)]))) (osc_args (pair_args [(1000, 1000)])) 1 w = Some (Ret kSCErr_None, w')
        \<and> tree_rep 3 w' ((\<lambda>_. [])(r := [r + 2])) \<and> unlinked w' (r + 1)" for E
    using moves_lose_nodes [OF w l(1,6,4), of E "[]" 1] by simp
  then show ?thesis using w by blast
qed

end
