(* ===== verification/SC_Answers.thy ===== *)
theory SC_Answers
  imports SC_CmdProps
begin

text \<open>
  What clients are told, and what the scheduler does with bundles: failures of commands, the nodes that arguments name, bundles
  performed at their times or lost when the queue is full.
\<close>

section \<open>Failures\<close>

lemma fail_sent:
  assumes "0 \<notin> set cmd" "0 \<notin> set err" "length cmd + length err \<le> 8000"
  shows "SendFailure addr (cmd @ [0]) (err @ [0]) w = Some (SendReply addr (osc_msg (chars ''/fail'') [Arg_s cmd, Arg_s err]) w)"
proof -
  have len: "length (pad_str s) \<le> length s + 4" for s :: "u8 list" by (simp add: pad_str_def)
  have "length (osc_msg (chars ''/fail'') [Arg_s cmd, Arg_s err]) \<le> 8192"
    using assms(3) len [of cmd] len [of err] by (simp add: osc_msg_def pad_str_def)
  then show ?thesis unfolding replies_written using assms(1,2) by (simp add: write_msg_sent)
qed

lemma SendFailureCmd_Stage2_ok:
  assumes "0 \<notin> set nm" "0 \<notin> set e" "length nm + length e \<le> 8000" "mCmdName cmd = nm @ [0]" "mErrString cmd = e @ [0]"
  shows "SendFailureCmd_Stage2 cmd w = Some (False, cmd, SendReply (mReplyAddress cmd) (osc_msg (chars ''/fail'') [Arg_s nm, Arg_s e]) w)"
  using fail_sent [OF assms(1-3)] assms(4,5) by (simp add: SendFailureCmd_Stage2_def)

lemma failure_command:
  assumes rt: "mRealTime w" "allocs w = []" and idle: "nrt_idle w"
    and fq: "fifo_state 1024 ys [] (mFromEngine w)" "length ys < 1022" and tq: "fifo_state 1024 zs [] (mToEngine w)"
    and names: "cstring nmem = Some nm" "cstring emem = Some e" "0 \<notin> set nm" "0 \<notin> set e" "length nm + length e \<le> 8000"
  shows "\<exists>w1 w2. CallSendFailureCommand E nmem emem addr w = Some (Ret kSCErr_None, w1) \<and> mReplies w1 = mReplies w
    \<and> RunThread_round E w1 = Some w2 \<and> (addr \<noteq> 0 \<longrightarrow> mReplies w2 = mReplies w @ [(addr, osc_msg (chars ''/fail'') [Arg_s nm, Arg_s e])])"
proof -
  define cmd where "cmd = (new_command E SendFailureCmd addr)\<lparr>mCmdName := nm @ [0], mErrString := e @ [0]\<rparr>"
  have c: "scClass cmd = SendFailureCmd" "mNextStage cmd = 1" "mReplyAddress cmd = addr" "mCmdName cmd = nm @ [0]" "mErrString cmd = e @ [0]"
    by (simp_all add: cmd_def new_command_def)
  let ?v = "w\<lparr>allocs := [], fresh := Suc (Suc (Suc (fresh w)))\<rparr>"
  have "CallSendFailureCommand E nmem emem addr w = do { w \<leftarrow> start_command E cmd ?v; Some (Ret kSCErr_None, w) }"
    using rt(2) names(1,2) by (simp add: CallSendFailureCommand_def InitSendFailureCmd_def must_alloc_def World_Alloc_def cmd_def)
  moreover obtain q1 where q1: "SendMsgFromEngine (DoSequencedCommand (cmd\<lparr>mNextStage := 2\<rparr>)) ?v = Some (?v\<lparr>mFromEngine := q1\<rparr>)"
    "fifo_state 1024 ys [DoSequencedCommand (cmd\<lparr>mNextStage := 2\<rparr>)] q1"
    using SendMsgFromEngine_ok [of ys "[]" ?v] fq by fastforce
  ultimately have w1: "CallSendFailureCommand E nmem emem addr w = Some (Ret kSCErr_None, ?v\<lparr>mFromEngine := q1\<rparr>)"
    using rt(1) c(2) by (simp add: start_command_def CallNextStage_1)
  let ?w1 = "?v\<lparr>mFromEngine := q1\<rparr>"
  have "nrt_idle ?w1" using idle by (simp add: nrt_idle_def)
  then obtain q2 where q2: "RunThread_round E ?w1 = run_all (run_fifo_msg E) [DoSequencedCommand (cmd\<lparr>mNextStage := 2\<rparr>)] (?w1\<lparr>mFromEngine := q2\<rparr>)"
    using RunThread_commands [of ?w1 ys _ E] q1(2) by fastforce
  let ?u = "SendReply addr (osc_msg (chars ''/fail'') [Arg_s nm, Arg_s e]) (?w1\<lparr>mFromEngine := q2\<rparr>)"
  obtain r where r: "SendMsgToEngine (FreeSequencedCommand (cmd\<lparr>mNextStage := 3\<rparr>)) ?u = Some (?u\<lparr>mToEngine := r\<rparr>)"
    using SendMsgToEngine_ok [of zs "[]" ?u] tq by fastforce
  have "Stage2 E (cmd\<lparr>mNextStage := 2\<rparr>) (?w1\<lparr>mFromEngine := q2\<rparr>) = Some (False, cmd\<lparr>mNextStage := 2\<rparr>, ?u)"
    using SendFailureCmd_Stage2_ok [OF names(3-5), of "cmd\<lparr>mNextStage := 2\<rparr>"] c by (simp add: Stage2_def)
  from CallNextStage_2 [OF _ this] r
  have "CallNextStage E (cmd\<lparr>mNextStage := 2\<rparr>) (?w1\<lparr>mFromEngine := q2\<rparr>) = Some (?u\<lparr>mToEngine := r\<rparr>)" by simp
  then have "RunThread_round E ?w1 = Some (?u\<lparr>mToEngine := r\<rparr>)" unfolding q2 by (simp add: run_fifo_msg_def)
  then show ?thesis using w1 by (auto simp: SendReply_def)
qed

lemma error_strings: "0 \<notin> set (chars (SC_ErrorString err)) \<and> length (SC_ErrorString err) \<le> 40"
  by (cases err) simp_all

lemma cstring_terminated: "0 \<notin> set s \<Longrightarrow> cstring (s @ 0 # rest) = Some s"
  using cstrlen_terminated [of s rest] by (simp add: cstring_def)

lemma word_chars_name: "word_chars (pad_words nm) = pad_str nm"
  unfolding pad_str_def word_chars_def
  by (induction nm rule: pad_words.induct) (simp_all add: le32_bytes_def be32_bytes_be32 replicate_small mod4_Suc)

text \<open>
  C12: a command that fails is answered. When a handler returns an error and the client wants to be told, the engine
  returns the error, and one round of the other thread later the client has got exactly one \<open>/fail\<close> with the command's
  name and the error's text; when it does not want to be told, the state is the one the handler left. An address that
  names no command is answered in the same way, whatever the client wants.
\<close>

theorem errors_are_answered:
  assumes cmd: "lcFunc c E k inSize inData addr w = Some (Ret err, w1)" "err \<noteq> kSCErr_None" "lcName c = pad_words nm" "0 \<notin> set nm" "length nm < 32"
    and rt: "mRealTime w1" "allocs w1 = []" "nrt_idle w1"
    and fq: "fifo_state 1024 ys [] (mFromEngine w1)" "length ys < 1022" and tq: "fifo_state 1024 zs [] (mToEngine w1)" and addr: "addr \<noteq> 0"
    and none: "find_cmd lib (pad_str xs @ rest) = Some (len, None)" "0 \<notin> set xs" "length xs < 1000"
  shows "(\<not> (sint (mLocalErrorNotification w1) \<le> 0 \<and> mErrorNotification w1 \<noteq> 0) \<longrightarrow> SC_LibCmd_Perform c E k inSize inData addr w = Some (err, w1))
    \<and> (sint (mLocalErrorNotification w1) \<le> 0 \<and> mErrorNotification w1 \<noteq> 0 \<longrightarrow>
       (\<exists>w2 w3. SC_LibCmd_Perform c E k inSize inData addr w = Some (err, w2) \<and> RunThread_round E w2 = Some w3
         \<and> mReplies w3 = mReplies w1 @ [(addr, osc_msg (chars ''/fail'') [Arg_s nm, Arg_s (chars (SC_ErrorString err))])]))
    \<and> (\<exists>w2 w3. PerformOSCMessage lib E k sz (pad_str xs @ rest) addr w1 = Some (kSCErr_NoSuchCommand, w2) \<and> RunThread_round E w2 = Some w3
         \<and> mReplies w3 = mReplies w1 @ [(addr, osc_msg (chars ''/fail'') [Arg_s xs, Arg_s (chars ''Command not found'')])])"
proof (intro conjI impI)
  have pad: "\<exists>n. pad_str s = s @ 0 # replicate n 0" for s
    unfolding pad_str_def by (metis (no_types, lifting) diff_is_0_eq gr0_implies_Suc mod_less_divisor not_le not_gr_zero replicate_Suc zero_less_numeral)
  have mem: "cstring (pad_str s @ r) = Some s" if "0 \<notin> set s" for s r
    using pad [of s] cstring_terminated [OF that] by auto
  show "SC_LibCmd_Perform c E k inSize inData addr w = Some (err, w1)"
    if "\<not> (sint (mLocalErrorNotification w1) \<le> 0 \<and> mErrorNotification w1 \<noteq> 0)"
    using that cmd(1) by (auto simp: SC_LibCmd_Perform_def Let_def)
  let ?e = "chars (SC_ErrorString err)"
  have "cstring (cstr (SC_ErrorString err)) = Some ?e" using cstring_terminated [of ?e "[]"] error_strings by (simp add: cstr_def)
  moreover have "cstring (word_chars (lcName c)) = Some nm" using mem [OF cmd(4), of "[]"] word_chars_name [of nm] cmd(3) by simp
  moreover have "length nm + length ?e \<le> 8000" using cmd(5) error_strings [of err] by simp
  ultimately obtain w2 w3 where w: "CallSendFailureCommand E (word_chars (lcName c)) (cstr (SC_ErrorString err)) addr w1 = Some (Ret kSCErr_None, w2)"
    "RunThread_round E w2 = Some w3" "mReplies w3 = mReplies w1 @ [(addr, osc_msg (chars ''/fail'') [Arg_s nm, Arg_s ?e])]"
    using failure_command [OF rt(1,2,3) fq tq _ _ cmd(4), where emem = "cstr (SC_ErrorString err)" and e = ?e and E = E and addr = addr]
      error_strings addr by blast
  show "\<exists>w2 w3. SC_LibCmd_Perform c E k inSize inData addr w = Some (err, w2) \<and> RunThread_round E w2 = Some w3
         \<and> mReplies w3 = mReplies w1 @ [(addr, osc_msg (chars ''/fail'') [Arg_s nm, Arg_s ?e])]"
    if "sint (mLocalErrorNotification w1) \<le> 0 \<and> mErrorNotification w1 \<noteq> 0"
    using that cmd(1,2) w by (simp add: SC_LibCmd_Perform_def Let_def)
  let ?u = "chars ''Command not found''"
  have "cstring (cstr ''Command not found'') = Some ?u" "0 \<notin> set ?u" "length xs + length ?u \<le> 8000"
    using cstring_terminated [of ?u "[]"] none(3) by (simp_all add: cstr_def)
  then obtain w4 w5 where "CallSendFailureCommand E (pad_str xs @ rest) (cstr ''Command not found'') addr w1 = Some (Ret kSCErr_None, w4)"
    "RunThread_round E w4 = Some w5" "mReplies w5 = mReplies w1 @ [(addr, osc_msg (chars ''/fail'') [Arg_s xs, Arg_s ?u])]"
    using failure_command [OF rt(1,2,3) fq tq mem [OF none(2)] _ none(2), where emem = "cstr ''Command not found''" and e = ?u and E = E and addr = addr]
      addr by blast
  then show "\<exists>w2 w3. PerformOSCMessage lib E k sz (pad_str xs @ rest) addr w1 = Some (kSCErr_NoSuchCommand, w2) \<and> RunThread_round E w2 = Some w3
         \<and> mReplies w3 = mReplies w1 @ [(addr, osc_msg (chars ''/fail'') [Arg_s xs, Arg_s ?u])]"
    using none(1) by (simp add: PerformOSCMessage_def)
qed

lemma size_ok_1024: "size_ok 1024"
  unfolding size_ok_def by (intro exI [of _ 10]) simp

theorem errors_are_answered_witness:
  "\<forall>E. \<exists>w2 w3. SC_LibCmd_Perform \<lparr>lcName = pad_words (chars ''/g_freeAll''), lcHash = 0, lcFunc = meth_g_freeAll\<rparr> E 2
        (length (osc_args [Arg_i 1000])) (osc_args [Arg_i 1000]) 1 (empty_world 2) = Some (kSCErr_GroupNotFound, w2)
      \<and> RunThread_round E w2 = Some w3
      \<and> mReplies w3 = [(1, osc_msg (chars ''/fail'') [Arg_s (chars ''/g_freeAll''), Arg_s (chars (SC_ErrorString kSCErr_GroupNotFound))])]"
    (is "\<forall>E. ?P E")
proof
  fix E
  let ?w = "empty_world 2"
  have lib: "lib_ok 2 ?w" using empty_world_ok [of 2] by simp
  have e: "mRealTime ?w" "allocs ?w = []" "mFromEngine ?w = MsgFifo_new 1024" "mToEngine ?w = MsgFifo_new 1024" "mReplies ?w = []"
    "sint (mLocalErrorNotification ?w) \<le> 0 \<and> mErrorNotification ?w \<noteq> 0" "heap ?w = Map.empty" "nrt_idle ?w"
    by (simp_all add: empty_world_def nrt_idle_def MsgFifoNoFree_new_def MsgFifoNoFree_HasData_def)
  have q: "fifo_state 1024 [] [] (mFromEngine ?w)" "fifo_state 1024 [] [] (mToEngine ?w)"
    using fifo_state_new [OF size_ok_1024] e(3,4) by simp_all
  obtain m where m: "msg_init (length (osc_args [Arg_i 1000])) (osc_args [Arg_i 1000]) = Some m" "args_at [Arg_i 1000] m"
    using run_loop [of "[Arg_i 1000]" "[]"] by auto
  obtain m1 where m1: "Msg_GetGroup ?w m = Some (lookup_group ?w 1000, m1)" using get_group [OF m(2) lib] by blast
  have "lookup_group ?w 1000 = None" using lookup_heap [OF lib, of 1000] e(7) by (cases "lookup ?w 1000") (simp_all add: lookup_group_def)
  then have cmd: "meth_g_freeAll E 2 (length (osc_args [Arg_i 1000])) (osc_args [Arg_i 1000]) 1 ?w = Some (Ret kSCErr_GroupNotFound, ?w)"
    using m m1 args_at_Cons(1) [OF m(2)] by (simp add: meth_g_freeAll_def on_nodes_def loop_from_Suc numeral_2_eq_2 with_group_def returned_def)
  have "find_cmd new_lib (pad_str [65] @ []) = Some (length (pad_str [65]), None)"
    by (rule not_found_by_name [OF lib_rep_new]) simp_all
  from errors_are_answered [where c = "\<lparr>lcName = pad_words (chars ''/g_freeAll''), lcHash = 0, lcFunc = meth_g_freeAll\<rparr>" and nm = "chars ''/g_freeAll''"
      and E = E and k = 2 and inSize = "length (osc_args [Arg_i 1000])" and inData = "osc_args [Arg_i 1000]" and addr = 1 and w = ?w and sz = 0,
      OF _ _ _ _ _ e(1,2,8) q(1) _ q(2) _ this]
  show "?P E" using cmd e(5,6) by simp
qed

end
