(* ===== verification/SC_Lookups.thy ===== *)
theory SC_Lookups
  imports SC_Answers
begin

text \<open>
  The node that the arguments of a command name: an identifier, or a path through the tree and an identifier.
\<close>

section \<open>Paths\<close>

text \<open>One character of a path, on the lists of children.\<close>

definition path_rel :: "(ptr \<Rightarrow> ptr list) \<Rightarrow> u8 \<Rightarrow> ptr \<Rightarrow> ptr option \<Rightarrow> bool" where
  "path_rel K c p q \<longleftrightarrow>
     (if c = chr CHR ''h'' then q = first_of (K p)
      else if c = chr CHR ''t'' then q = last_of (K p)
      else if c = chr CHR ''u'' then (case q of Some g \<Rightarrow> p \<in> set (K g) | None \<Rightarrow> \<forall>g. p \<notin> set (K g))
      else if c = chr CHR ''p'' then (if \<exists>g. p \<in> set (K g) then \<exists>g. p \<in> set (K g) \<and> q = prev_of (K g) p else q = None)
      else if c = chr CHR ''n'' then (if \<exists>g. p \<in> set (K g) then \<exists>g. p \<in> set (K g) \<and> q = next_of (K g) p else q = None)
      else q = Some p)"

fun follows :: "(ptr \<Rightarrow> ptr list) \<Rightarrow> u8 list \<Rightarrow> ptr option \<Rightarrow> ptr option \<Rightarrow> bool" where
  "follows K [] p r \<longleftrightarrow> r = p"
| "follows K (c # cs) None r \<longleftrightarrow> r = None"
| "follows K (c # cs) (Some p) r \<longleftrightarrow> (\<exists>q. path_rel K c p q \<and> follows K cs q r)"

lemma prev_of_in: "prev_of xs x = Some y \<Longrightarrow> y \<in> set xs"
proof -
  have "next_of ys x = Some y \<Longrightarrow> y \<in> set ys" for ys by (induction ys) (auto split: if_splits list.splits)
  from this [of "rev xs"] show "prev_of xs x = Some y \<Longrightarrow> y \<in> set xs" by (simp add: prev_of_def)
qed

lemma next_of_member: "next_of xs x = Some y \<Longrightarrow> y \<in> set xs"
  by (induction xs) (auto split: if_splits list.splits)

lemma tree_ok_member: "tree_ok h K \<Longrightarrow> c \<in> set (K g) \<Longrightarrow> h c \<noteq> None \<and> h g \<noteq> None"
  using tree_ok_D(3,5) [of h K] by fastforce

lemma path_step_rel:
  assumes t: "tree_ok h K" and p: "h p = Some nd"
  shows "path_rel K c p (path_step c nd p)" and "path_step c nd p = Some q \<Longrightarrow> h q \<noteq> None"
proof -
  note l = tree_ok_D(1,2) [OF t p]
  have kids: "K p = []" if "\<not> mIsGroup nd" using l(2) that by (simp add: kids_ok_def)
  have up: "mParent nd = Some g" if "p \<in> set (K g)" for g using tree_ok_D(5) [OF t that] p by auto
  have in_up: "p \<in> set (K g)" "mPrev nd = prev_of (K g) p" "mNext nd = next_of (K g) p" if "mParent nd = Some g" for g
    using l(1) that by (simp_all add: links_ok_def)
  have no_up: "mPrev nd = None" "mNext nd = None" if "mParent nd = None" using l(1) that by (simp_all add: links_ok_def)
  show "path_rel K c p (path_step c nd p)"
  proof (cases "mParent nd")
    case None
    then have "\<forall>g. p \<notin> set (K g)" using up by force
    then show ?thesis using None no_up l(2) kids by (auto simp: path_rel_def path_step_def kids_ok_def)
  next
    case (Some g)
    then show ?thesis using in_up [OF Some] l(2) kids by (auto simp: path_rel_def path_step_def kids_ok_def)
  qed
  have hd: "h x \<noteq> None" if "x \<in> set (K g)" for x g using tree_ok_member [OF t that] by simp
  have in_h: "h g \<noteq> None" if "mParent nd = Some g" for g using tree_ok_member [OF t in_up(1) [OF that]] by simp
  show "path_step c nd p = Some q \<Longrightarrow> h q \<noteq> None"
    using p l(2) in_h in_up no_up hd [OF first_of_in] hd [OF last_of_in] hd [OF prev_of_in] hd [OF next_of_member]
    by (cases "mParent nd") (auto simp: path_step_def kids_ok_def split: if_splits; fail)+
qed

lemma walk_path_typed:
  "tree_ok (heap w) K \<Longrightarrow> (\<And>p. node = Some p \<Longrightarrow> heap w p \<noteq> None) \<Longrightarrow> walk_path cs node w = Some (Some q) \<Longrightarrow> heap w q \<noteq> None"
proof (induction cs node w rule: walk_path.induct)
  case (2 c cs node w)
  show ?case
  proof (cases "c = 0 \<or> node = None")
    case False
    then obtain p nd where p: "node = Some p" "heap w p = Some nd" using "2.prems"(2) by auto
    show ?thesis
    proof (rule "2.IH" [of p nd])
      show "walk_path cs (path_step c nd p) w = Some (Some q)" using False "2.prems"(3) p by (auto simp: deref_def)
      show "deref w p = Some nd" using p by (simp add: deref_def)
      show "\<And>x. path_step c nd p = Some x \<Longrightarrow> heap w x \<noteq> None" using path_step_rel(2) [OF "2.prems"(1) p(2)] .
    qed (use False "2.prems" p in auto)
  qed (use "2.prems" in \<open>auto split: if_splits\<close>)
qed simp

lemma walk_path_follows:
  "tree_ok (heap w) K \<Longrightarrow> (\<And>p. node = Some p \<Longrightarrow> heap w p \<noteq> None) \<Longrightarrow> 0 \<notin> set cs \<Longrightarrow>
   \<exists>r. walk_path (cs @ 0 # rest) node w = Some r \<and> follows K cs node r"
proof (induction cs arbitrary: node)
  case (Cons c cs)
  show ?case
  proof (cases node)
    case (Some p)
    then obtain nd where nd: "heap w p = Some nd" using Cons.prems(2) by auto
    note s = path_step_rel [OF Cons.prems(1) nd, of c]
    obtain r where "walk_path (cs @ 0 # rest) (path_step c nd p) w = Some r" "follows K cs (path_step c nd p) r"
      using Cons.IH [of "path_step c nd p"] Cons.prems s(2) by auto
    then show ?thesis using Some nd s(1) Cons.prems(3) by (auto simp: deref_def)
  qed (use Cons.prems in auto)
qed simp

section \<open>Lookups\<close>

lemma args_at_path:
  assumes "args_at (Arg_s s # Arg_i i # as) m"
  shows "\<exists>pos m1 m2 post. gets None m = Some (Some pos, m1) \<and> geti 0 m1 = Some (i, m2) \<and> drop pos (mdata m2) = pad_str s @ post \<and> args_at as m2"
proof -
  obtain T C R where m: "mdata m = T @ C @ pad_str s @ enc_values (Arg_i i # as) @ R" "rdpos m = length T + length C"
    using assms by (auto simp: args_at_def)
  then have d: "drop (rdpos m) (mdata m) = pad_str s @ enc_values (Arg_i i # as) @ R" by simp
  obtain m1 where m1: "gets None m = Some (Some (rdpos m), m1)" "mdata m1 = mdata m" "args_at (Arg_i i # as) m1"
    using args_at_Cons(1,3,4) [OF assms]
    by (fastforce simp: gets_def nextTag_def skip_str_def bind_eq_Some_conv split: option.splits if_splits)
  obtain m2 where m2: "geti 0 m1 = Some (i, m2)" "args_at as m2" using args_at_int [OF m1(3)] by blast
  have "mdata m2 = mdata m1" using m2(1) args_at_Cons(1) [OF m1(3)] args_at_Cons(3) [OF m1(3), of 0]
    by (auto simp: geti_def nextTag_def read_int_def bind_eq_Some_conv split: option.splits if_splits)
  then show ?thesis using m1 m2 d by metis
qed

lemma lookup_in_heap: "lib_ok n w \<Longrightarrow> World_GetNode i w = Some (Some p) \<Longrightarrow> heap w p \<noteq> None"
  using World_GetNode_eq [of n w i] lookup_heap [of n w i p] by (simp add: lookup_def)

lemma Msg_GetNode_typed:
  assumes inv: "engine_inv n w K" and g: "Msg_GetNode w m = Some (Some p, m')"
  shows "heap w p \<noteq> None"
proof -
  have t: "tree_ok (heap w) K" and lib: "lib_ok n w" using inv inv_lib_ok [OF inv] by (auto simp: engine_inv_def)
  show ?thesis
  proof (cases "nextTag tag_i m = Some tag_s")
    case True
    then obtain i node cs where "World_GetNode i w = Some node" "walk_path cs node w = Some (Some p)"
      using g by (auto simp: Msg_GetNode_def bind_eq_Some_conv)
    then show ?thesis by (intro walk_path_typed [OF t _ \<open>walk_path cs node w = Some (Some p)\<close>] lookup_in_heap [OF lib, of i]) simp
  next
    case False
    then show ?thesis using g lookup_in_heap [OF lib] by (auto simp: Msg_GetNode_def bind_eq_Some_conv)
  qed
qed

text \<open>
  C6: the lookups of the commands are well typed. Whatever the message, a node that it names exists, one
  that is asked for as a group is a group and one that is asked for as a synth is a synth. A path in front of an
  identifier is followed through the tree, from the node with the identifier on (or the last one created, for \<open>-1\<close>): to
  the first and last child, the group above and the neighbours in the list of that group.
\<close>

theorem lookups_follow_tree:
  assumes inv: "engine_inv n w K"
  shows "(\<forall>m p m'. Msg_GetNode w m = Some (Some p, m') \<longrightarrow> heap w p \<noteq> None)
    \<and> (\<forall>m p m'. Msg_GetGroup w m = Some (Some p, m') \<longrightarrow> (\<exists>nd. heap w p = Some nd \<and> mIsGroup nd))
    \<and> (\<forall>m p m'. Msg_GetGraph w m = Some (Some p, m') \<longrightarrow> (\<exists>nd. heap w p = Some nd \<and> \<not> mIsGroup nd))
    \<and> (\<forall>m path i as. args_at (Arg_s path # Arg_i i # as) m \<longrightarrow>
         (\<exists>r m'. Msg_GetNode w m = Some (r, m') \<and> follows K path (lookup w i) r \<and> args_at as m'))"
proof (intro conjI allI impI)
  show "heap w p \<noteq> None" if "Msg_GetNode w m = Some (Some p, m')" for m p m'
    by (rule Msg_GetNode_typed [OF inv that])
  show "\<exists>nd. heap w p = Some nd \<and> mIsGroup nd" if "Msg_GetGroup w m = Some (Some p, m')" for m p m'
    using that by (auto simp: Msg_GetGroup_def bind_eq_Some_conv deref_def split: option.splits if_splits)
  show "\<exists>nd. heap w p = Some nd \<and> \<not> mIsGroup nd" if "Msg_GetGraph w m = Some (Some p, m')" for m p m'
    using that by (auto simp: Msg_GetGraph_def bind_eq_Some_conv deref_def split: option.splits if_splits)
next
  fix m path i as
  assume a: "args_at (Arg_s path # Arg_i i # as) m"
  have z: "0 \<notin> set path" using a by (auto simp: args_at_def)
  obtain pos m1 m2 post where m: "gets None m = Some (Some pos, m1)" "geti 0 m1 = Some (i, m2)"
    "drop pos (mdata m2) = pad_str path @ post" "args_at as m2" using args_at_path [OF a] by blast
  obtain rest where pad: "pad_str path @ post = path @ 0 # rest"
    unfolding pad_str_def by (metis (no_types, lifting) append_Cons append_assoc diff_is_0_eq gr0_implies_Suc mod_less_divisor not_gr_zero not_le replicate_Suc zero_less_numeral)
  have lib: "lib_ok n w" using inv_lib_ok [OF inv] .
  obtain r where r: "walk_path (path @ 0 # rest) (lookup w i) w = Some r" "follows K path (lookup w i) r"
    using walk_path_follows [of w K "lookup w i" path rest] inv lookup_heap [OF lib, of i] z by (auto simp: engine_inv_def)
  then show "\<exists>r m'. Msg_GetNode w m = Some (r, m') \<and> follows K path (lookup w i) r \<and> args_at as m'"
    using m pad World_GetNode_eq [OF lib, of i] args_at_Cons(3) [OF a, of tag_i] by (auto simp: Msg_GetNode_def lookup_def)
qed

theorem lookups_follow_tree_witness:
  "\<exists>w r m m'. engine_inv 3 w ((\<lambda>_. [])(r := [r + 1, r + 2]))
     \<and> msg_init (length (osc_args [Arg_s (chars ''n''), Arg_i 1000])) (osc_args [Arg_s (chars ''n''), Arg_i 1000]) = Some m
     \<and> Msg_GetNode w m = Some (Some (r + 2), m') \<and> lookup w 1001 = Some (r + 2)"
proof -
  obtain w r where w: "engine_inv 3 w ((\<lambda>_. [])(r := [r + 1, r + 2]))" and st: "state_of w ((\<lambda>_. [])(r := [r + 1, r + 2]))
     = \<lparr>tsFind = [0 \<mapsto> r, 1000 \<mapsto> r + 1, 1001 \<mapsto> r + 2], tsGroups = {r, r + 1, r + 2}, tsKids = (\<lambda>_. [])(r := [r + 1, r + 2]), tsFresh = r + 3,
        tsRecent = 1001, tsCount = 3\<rparr>"
    using family_world by blast
  note l = family_lookup [OF st w]
  obtain m where m: "msg_init (length (osc_args [Arg_s (chars ''n''), Arg_i 1000])) (osc_args [Arg_s (chars ''n''), Arg_i 1000]) = Some m"
    "args_at [Arg_s (chars ''n''), Arg_i 1000] m"
    using args_at_init [of "[Arg_s (chars ''n''), Arg_i 1000]" "[]"] by auto
  obtain q m' where q: "Msg_GetNode w m = Some (q, m')" "follows ((\<lambda>_. [])(r := [r + 1, r + 2])) (chars ''n'') (lookup w 1000) q"
    using lookups_follow_tree [OF w] m(2) by blast
  have "path_rel ((\<lambda>_. [])(r := [r + 1, r + 2])) (chr CHR ''n'') (r + 1) x \<Longrightarrow> x = Some (r + 2)" for x
    by (auto simp: path_rel_def split: if_splits)
  then have "q = Some (r + 2)" using q(2) l(1) by auto
  then show ?thesis using w m(1) q(1) l(2) by blast
qed

end
