(* ===== verification/SC_Bundles.thy ===== *)
theory SC_Bundles
  imports SC_Lookups
begin

text \<open>
  Bundles from their bytes to the block in which they are performed: what a packet does, the messages of a bundle one after
  the other, the bundles that are due in a block, in the order of their times and each at its sample.
\<close>

lemma sint_of_nat_small: "n < 2 ^ 31 \<Longrightarrow> sint (of_nat n :: i32) = int n"
proof -
  assume n: "n < 2 ^ 31"
  then have "signed_take_bit 31 (int n) = int n" by (intro signed_take_bit_int_eq_self) simp_all
  then show ?thesis by (simp add: signed_of_nat)
qed

section \<open>The messages of a bundle\<close>

definition msgs_bytes :: "u8 list list \<Rightarrow> u8 list" where
  "msgs_bytes ms = concat (List.map (\<lambda>m. be32_bytes (of_nat (length m)) @ m) ms)"

definition osc_bundle :: "64 word \<Rightarrow> u8 list list \<Rightarrow> u8 list" where
  "osc_bundle t ms = bundle_chars @ be32_bytes (ucast (drop_bit 32 t)) @ be32_bytes (ucast t) @ msgs_bytes ms"

fun perform_msgs :: "nat \<Rightarrow> cmd_lib \<Rightarrow> env \<Rightarrow> nat \<Rightarrow> u8 list list \<Rightarrow> u8 list \<Rightarrow> World \<Rightarrow> World option" where
  "perform_msgs k lib E addr [] rest w = Some w"
| "perform_msgs k lib E addr (m # ms) rest w = do {
     (_, w) \<leftarrow> PerformOSCMessage lib E (k - 1) (int (length m)) (m @ msgs_bytes ms @ rest) addr w;
     perform_msgs (k - 1) lib E addr ms rest w }"

lemma bundle_loop_msgs:
  "\<forall>m \<in> set ms. length m < 2 ^ 31 \<Longrightarrow> mem = pre @ msgs_bytes ms @ rest \<Longrightarrow> mSize = length pre + length (msgs_bytes ms) \<Longrightarrow>
   length ms < k \<Longrightarrow> bundle_loop k lib E mem mSize addr (int (length pre)) w = perform_msgs k lib E addr ms rest w"
proof (induction ms arbitrary: pre k w)
  case Nil
  then obtain j where "k = Suc j" by (cases k) auto
  then show ?case using Nil by (simp add: msgs_bytes_def)
next
  case (Cons m ms)
  obtain j where k: "k = Suc j" using Cons.prems(4) by (cases k) auto
  let ?h = "be32_bytes (of_nat (length m))"
  have bytes: "msgs_bytes (m # ms) = ?h @ m @ msgs_bytes ms" by (simp add: msgs_bytes_def)
  have "length m < 2 ^ 31" using Cons.prems(1) by simp
  then have size: "sint (of_nat (length m) :: i32) = int (length m)" by (simp add: sint_of_nat_small)
  have rd: "read_be32 mem (length pre) = Some (of_nat (length m))"
    by (rule read_be32_at [of _ pre _ "m @ msgs_bytes ms @ rest"]) (use Cons.prems(2) bytes in simp_all)
  have d: "drop (length pre + 4) mem = m @ msgs_bytes ms @ rest" using Cons.prems(2) bytes by simp
  have "bundle_loop j lib E mem mSize addr (int (length (pre @ ?h @ m))) w' = perform_msgs j lib E addr ms rest w'" for w'
    by (rule Cons.IH) (use Cons.prems bytes k in auto)
  then show ?case using rd d size Cons.prems(3) bytes k
    by (simp add: algebra_simps split: bind_split)
qed

section \<open>Packets\<close>

lemma osc_bundle_is_bundle:
  "checkIsBundle (osc_bundle t ms @ rest) = Some True" "OSCtime (osc_bundle t ms @ rest) 8 = Some t"
  "length (osc_bundle t ms) = 16 + length (msgs_bytes ms)"
proof -
  let ?hi = "ucast (drop_bit 32 t) :: i32" and ?lo = "ucast t :: i32"
  have m: "osc_bundle t ms @ rest = bundle_chars @ be32_bytes ?hi @ be32_bytes ?lo @ msgs_bytes ms @ rest" by (simp add: osc_bundle_def)
  have b: "length bundle_chars = 8" by (simp add: bundle_chars_def)
  have "read_be32 (osc_bundle t ms @ rest) 8 = Some ?hi"
    by (rule read_be32_at [of _ bundle_chars _ "be32_bytes ?lo @ msgs_bytes ms @ rest"]) (use m b in simp_all)
  moreover have "read_be32 (osc_bundle t ms @ rest) 12 = Some ?lo"
    by (rule read_be32_at [of _ "bundle_chars @ be32_bytes ?hi" _ "msgs_bytes ms @ rest"]) (use m b in simp_all)
  ultimately show "OSCtime (osc_bundle t ms @ rest) 8 = Some t" using double_halves [of t] by (simp add: OSCtime_def)
qed (simp_all add: osc_bundle_def bundle_chars_def checkIsBundle_def)

lemma perform_bundle:
  assumes "\<forall>m \<in> set ms. length m < 2 ^ 31" "length ms < k" "pkData p = osc_bundle t ms @ rest" "pkSize p = length (osc_bundle t ms)"
  shows "PerformOSCBundle lib E k p w = map_option (\<lambda>w. w\<lparr>mLocalErrorNotification := 0\<rparr>) (perform_msgs k lib E (pkAddr p) ms rest w)"
proof -
  let ?pre = "bundle_chars @ be32_bytes (ucast (drop_bit 32 t)) @ be32_bytes (ucast t)"
  have "bundle_loop k lib E (pkData p) (pkSize p) (pkAddr p) (int (length ?pre)) w = perform_msgs k lib E (pkAddr p) ms rest w"
    by (rule bundle_loop_msgs) (use assms in \<open>simp_all add: osc_bundle_def\<close>)
  moreover have "int (length ?pre) = 16" by (simp add: bundle_chars_def)
  ultimately show ?thesis by (simp add: PerformOSCBundle_def split: bind_split)
qed

text \<open>
  C10: what becomes of a bundle. One with the time \<open>0\<close> or \<open>1\<close> is performed at once: its messages one after the other, with
  the sizes written in front of them, and then the notification of errors is as it was before the bundle. One with any other time
  is scheduled: the state of the engine is the same except that the scheduler has one more event, when there is room for it.
  When there is none the bundle is gone, and the client is told nothing; the packet is not freed either, since it counts as passed on.
\<close>

theorem bundles_are_scheduled:
  assumes "\<forall>m \<in> set ms. length m < 2 ^ 31" "length ms < k" and p: "pkData p = osc_bundle t ms @ rest" "pkSize p = length (osc_bundle t ms)" "pkIsBundle p"
    and q: "queue_ok N (mScheduler S)"
  shows "if t = 0 \<or> t = 1
     then PerformOSCPacket lib E k p f S = do {
        S \<leftarrow> on_world (\<lambda>w. map_option (\<lambda>w. w\<lparr>mLocalErrorNotification := 0\<rparr>) (perform_msgs k lib E (pkAddr p) ms rest w)) S;
        Some (PacketPerformed, S) }
     else \<exists>q'. PerformOSCPacket lib E k p f S = Some (PacketScheduled, S\<lparr>mScheduler := q'\<rparr>) \<and> queue_ok N q'
        \<and> Perform_ToEngine_Msg lib E k (Some p) S = Some (None, S\<lparr>mScheduler := snd (PriorityQueue_Add \<lparr>evTime = t, evPacket = (p, FreeInNRT)\<rparr> (mScheduler S))\<rparr>)
        \<and> pending_events q' = (if size (pending_events (mScheduler S)) < N then add_mset \<lparr>evTime = t, evPacket = (p, f)\<rparr> (pending_events (mScheduler S))
            else pending_events (mScheduler S))"
proof (cases "t = 0 \<or> t = 1")
  case True
  have "PerformOSCBundle lib E k p = (\<lambda>w. map_option (\<lambda>w. w\<lparr>mLocalErrorNotification := 0\<rparr>) (perform_msgs k lib E (pkAddr p) ms rest w))"
    by (rule ext) (rule perform_bundle [OF assms(1,2) p(1,2)])
  then show ?thesis using True p(1,3) osc_bundle_is_bundle(2) [of t ms rest] by (simp add: PerformOSCPacket_def)
next
  case False
  let ?ev = "\<lparr>evTime = t, evPacket = (p, f)\<rparr>"
  have r: "PerformOSCPacket lib E k p g S = Some (PacketScheduled, AddEvent \<lparr>evTime = t, evPacket = (p, g)\<rparr> S)" for g
    using False p(1,3) osc_bundle_is_bundle(2) [of t ms rest] by (simp add: PerformOSCPacket_def)
  have size: "size (pending_events (mScheduler S)) \<le> N" using q by (simp add: pending_events_def queue_ok_def)
  have "queue_ok N (snd (PriorityQueue_Add ?ev (mScheduler S))) \<and> pending_events (snd (PriorityQueue_Add ?ev (mScheduler S)))
    = (if size (pending_events (mScheduler S)) < N then add_mset ?ev (pending_events (mScheduler S)) else pending_events (mScheduler S))"
    using scheduler.insert_full [OF q, where e = ?ev] scheduler.insert_room [OF q, where e = ?ev] q size by (cases "size (pending_events (mScheduler S)) = N") auto
  then show ?thesis using False r by (auto simp: AddEvent_def Perform_ToEngine_Msg_def)
qed

section \<open>Due bundles\<close>

text \<open>An event that does not clear the scheduler, and one performed at its sample.\<close>

definition keeps_schedule :: "cmd_lib \<Rightarrow> env \<Rightarrow> nat \<Rightarrow> sched_event \<Rightarrow> bool" where
  "keeps_schedule lib E k ev \<longleftrightarrow> (\<forall>w w'. PerformOSCBundle lib E k (fst (evPacket ev)) w = Some w' \<longrightarrow> mSchedCleared w' = mSchedCleared w)"

definition perform_at :: "driver \<Rightarrow> cmd_lib \<Rightarrow> env \<Rightarrow> nat \<Rightarrow> 64 word \<Rightarrow> sched_event \<Rightarrow> World \<Rightarrow> World option" where
  "perform_at D lib E k oscTime ev w = do {
     w \<leftarrow> PerformOSCBundle lib E k (fst (evPacket ev)) (set_offset D (evTime ev) oscTime w);
     free_packet (snd (evPacket ev)) (fst (evPacket ev)) w }"

lemma free_packet_keeps: "free_packet f p w = Some w' \<Longrightarrow> mSchedCleared w' = mSchedCleared w"
  by (auto simp: free_packet_def SendMsgFromEngine_def bind_eq_Some_conv split: PacketFreeFunc.splits)

lemma event_performed:
  assumes "keeps_schedule lib E k ev"
  shows "SC_ScheduledEvent_Perform lib E k ev (S\<lparr>eWorld := set_offset D (evTime ev) oscTime (eWorld S), mScheduler := q\<rparr>)
    = map_option (\<lambda>w. S\<lparr>eWorld := w, mScheduler := q\<rparr>) (perform_at D lib E k oscTime ev (eWorld S))"
  using assms free_packet_keeps [of "snd (evPacket ev)" "fst (evPacket ev)"]
  by (fastforce simp: SC_ScheduledEvent_Perform_def perform_at_def on_world_def keeps_schedule_def split: bind_split option.splits)

lemma sched_loop_take_due:
  "queue_ok N (mScheduler S) \<Longrightarrow> \<forall>ev \<in># pending_events (mScheduler S). keeps_schedule lib E k ev \<Longrightarrow>
   sched_loop n D lib E k oscTime nextTime S = do {
     (es, q) \<leftarrow> take_due PriorityQueue_Remove (\<lambda>q. sint (NextTime q)) (sint nextTime) n (mScheduler S);
     w \<leftarrow> perform_all (perform_at D lib E k oscTime) es (eWorld S);
     Some (S\<lparr>eWorld := w, mScheduler := q\<rparr>) }"
proof (induction n arbitrary: S)
  case (Suc n)
  show ?case
  proof (cases "sint (NextTime (mScheduler S)) \<le> sint nextTime \<and> pending_events (mScheduler S) \<noteq> {#}")
    case True
    obtain e q where r: "PriorityQueue_Remove (mScheduler S) = Some (e, q)" "queue_ok N q" "evTime e = NextTime (mScheduler S)"
      "pending_events (mScheduler S) = add_mset e (pending_events q)"
      using Remove_pending [OF Suc.prems(1)] True by metis
    have e: "SC_ScheduledEvent_Perform lib E k e (S\<lparr>eWorld := set_offset D (NextTime (mScheduler S)) oscTime (eWorld S), mScheduler := q\<rparr>)
      = map_option (\<lambda>w. S\<lparr>eWorld := w, mScheduler := q\<rparr>) (perform_at D lib E k oscTime e (eWorld S))"
      using event_performed [where lib = lib and E = E and k = k and ev = e and S = S and D = D and oscTime = oscTime and q = q] Suc.prems(2) r(3,4) by simp
    have "sched_loop n D lib E k oscTime nextTime (S\<lparr>eWorld := w, mScheduler := q\<rparr>) = do {
        (es, q) \<leftarrow> take_due PriorityQueue_Remove (\<lambda>q. sint (NextTime q)) (sint nextTime) n q;
        w \<leftarrow> perform_all (perform_at D lib E k oscTime) es w;
        Some (S\<lparr>eWorld := w, mScheduler := q\<rparr>) }" for w
      using Suc.IH [of "S\<lparr>eWorld := w, mScheduler := q\<rparr>"] Suc.prems(2) r(2,4) by simp
    then show ?thesis using True r(1) e by (auto split: bind_split option.splits)
  next
    case False
    then show ?thesis using Remove_empty [OF _ Suc.prems(1)] by auto
  qed
qed simp

text \<open>
  C9: the bundles of a block. When no bundle in the queue clears it, the driver performs, before it runs the synths of the block, exactly the
  bundles whose times are at most the end of the block, in the order of their times, each with the sample offset of its time,
  and frees its packet; the others stay in the queue.
\<close>

theorem block_performs_due_bundles:
  assumes "queue_ok N (mScheduler S)" "\<forall>ev \<in># pending_events (mScheduler S). keeps_schedule lib E k ev"
    and "size (pending_events (mScheduler S)) < n" "sint nextTime < sint kMaxInt64"
  shows "\<exists>es q. sched_loop n D lib E k oscTime nextTime S
       = map_option (\<lambda>w. S\<lparr>eWorld := w, mScheduler := q\<rparr>) (perform_all (perform_at D lib E k oscTime) es (eWorld S))
    \<and> sorted (map (\<lambda>e. sint (evTime e)) es) \<and> mset es = filter_mset (\<lambda>e. sint (evTime e) \<le> sint nextTime) (pending_events (mScheduler S))
    \<and> queue_ok N q \<and> pending_events q = filter_mset (\<lambda>e. sint nextTime < sint (evTime e)) (pending_events (mScheduler S))"
proof -
  obtain es q where d: "take_due PriorityQueue_Remove (\<lambda>q. sint (NextTime q)) (sint nextTime) n (mScheduler S) = Some (es, q)" "queue_ok N q"
    "sorted (map (\<lambda>e. sint (evTime e)) es)" "mset es = filter_mset (\<lambda>e. sint (evTime e) \<le> sint nextTime) (pending_events (mScheduler S))"
    "pending_events q = filter_mset (\<lambda>e. sint nextTime < sint (evTime e)) (pending_events (mScheduler S))"
    using scheduler.take_due_sorted [OF assms(4,1,3)] by blast
  then show ?thesis
    by (intro exI [of _ es] exI [of _ q]) (auto simp: sched_loop_take_due [OF assms(1,2)] split: bind_split)
qed

section \<open>Witnesses\<close>

definition empty_bundle :: "nat \<Rightarrow> 64 word \<Rightarrow> OSC_Packet" where
  "empty_bundle n t = \<lparr>pkId = n, pkAddr = 1, pkSize = 16, pkData = osc_bundle t [], pkIsBundle = True\<rparr>"

lemma empty_bundle_keeps: "keeps_schedule lib E (Suc k) \<lparr>evTime = t, evPacket = (empty_bundle n t, f)\<rparr>"
  using osc_bundle_is_bundle(3) [of t "[]"] perform_bundle [of "[]" "Suc k" "empty_bundle n t" t "[]"]
  by (simp add: keeps_schedule_def empty_bundle_def msgs_bytes_def)

definition two_bundles :: "(OSC_Packet \<times> PacketFreeFunc) PriorityQueueT" where
  "two_bundles = \<lparr>pqSize = 2, mEvents = [\<lparr>evTime = 5, evPacket = (empty_bundle 1 5, FreeInRT)\<rparr>, \<lparr>evTime = 7, evPacket = (empty_bundle 2 7, FreeInRT)\<rparr>]\<rparr>"

lemma two_bundles_ok: "queue_ok 2 two_bundles"
  "pending_events two_bundles = {#\<lparr>evTime = 5, evPacket = (empty_bundle 1 5, FreeInRT)\<rparr>, \<lparr>evTime = 7, evPacket = (empty_bundle 2 7, FreeInRT)\<rparr>#}"
  by (auto simp: queue_ok_def two_bundles_def heap_below_def pending_events_def less_2_cases_iff)

lemma perform_empty_bundle:
  "perform_at D lib E (Suc k) oscTime \<lparr>evTime = t, evPacket = (empty_bundle n t, FreeInRT)\<rparr> w
   = Some ((set_offset D t oscTime w)\<lparr>mLocalErrorNotification := 0, mFreedPackets := mFreedPackets w @ [n]\<rparr>)"
  using osc_bundle_is_bundle(3) [of t "[]"] perform_bundle [of "[]" "Suc k" "empty_bundle n t" t "[]"]
  by (simp add: perform_at_def empty_bundle_def msgs_bytes_def free_packet_def set_offset_def Let_def split: prod.splits)

theorem bundles_are_scheduled_witness:
  "\<forall>lib E w fifo. \<exists>q'. PerformOSCPacket lib E 1 (empty_bundle 3 9) FreeInRT \<lparr>eWorld = w, mScheduler = two_bundles, mOSCbuftime = 0, mOscPacketsToEngine = fifo\<rparr>
     = Some (PacketScheduled, \<lparr>eWorld = w, mScheduler = q', mOSCbuftime = 0, mOscPacketsToEngine = fifo\<rparr>) \<and> pending_events q' = pending_events two_bundles"
    (is "\<forall>lib E w fifo. ?P lib E w fifo")
proof (intro allI)
  fix lib E w fifo
  let ?S = "\<lparr>eWorld = w, mScheduler = two_bundles, mOSCbuftime = 0, mOscPacketsToEngine = fifo\<rparr>"
  have "queue_ok 2 (mScheduler ?S)" using two_bundles_ok(1) by simp
  from bundles_are_scheduled [where ms = "[]" and k = 1 and p = "empty_bundle 3 9" and t = 9 and rest = "[]" and S = ?S and lib = lib and E = E and f = FreeInRT,
      OF _ _ _ _ _ this] osc_bundle_is_bundle(3) [of 9 "[]"]
  show "?P lib E w fifo" by (auto simp: empty_bundle_def msgs_bytes_def two_bundles_ok(2))
qed

theorem block_performs_due_bundles_witness:
  "\<forall>D lib E w fifo. \<exists>S. sched_loop 3 D lib E 1 3 6 \<lparr>eWorld = w, mScheduler = two_bundles, mOSCbuftime = 0, mOscPacketsToEngine = fifo\<rparr> = Some S
     \<and> mFreedPackets (eWorld S) = mFreedPackets w @ [1] \<and> NextTime (mScheduler S) = 7"
    (is "\<forall>D lib E w fifo. ?P D lib E w fifo")
proof (intro allI)
  fix D lib E w fifo
  let ?S = "\<lparr>eWorld = w, mScheduler = two_bundles, mOSCbuftime = 0, mOscPacketsToEngine = fifo\<rparr>"
  have q: "queue_ok 2 (mScheduler ?S)" "\<forall>ev \<in># pending_events (mScheduler ?S). keeps_schedule lib E 1 ev" "size (pending_events (mScheduler ?S)) < 3"
    using two_bundles_ok empty_bundle_keeps [of lib E 0] by auto
  have t: "sint (6 :: 64 word) < sint kMaxInt64" by (simp add: kMaxInt64_def)
  obtain es q where r: "sched_loop 3 D lib E 1 3 6 ?S = map_option (\<lambda>w. ?S\<lparr>eWorld := w, mScheduler := q\<rparr>) (perform_all (perform_at D lib E 1 3) es (eWorld ?S))"
    "mset es = filter_mset (\<lambda>e. sint (evTime e) \<le> sint (6 :: 64 word)) (pending_events (mScheduler ?S))" "queue_ok 2 q"
    "pending_events q = filter_mset (\<lambda>e. sint (6 :: 64 word) < sint (evTime e)) (pending_events (mScheduler ?S))"
    using block_performs_due_bundles [OF q t, where D = D and oscTime = 3] by blast
  have "mset es = {#\<lparr>evTime = 5, evPacket = (empty_bundle 1 5, FreeInRT)\<rparr>#}" using r(2) by (simp add: two_bundles_ok(2))
  then have "es = [\<lparr>evTime = 5, evPacket = (empty_bundle 1 5, FreeInRT)\<rparr>]" by simp
  moreover have "NextTime q = 7"
  proof -
    have p: "pending_events q = {#\<lparr>evTime = 7, evPacket = (empty_bundle 2 7, FreeInRT)\<rparr>#}" using r(4) by (simp add: two_bundles_ok(2))
    then obtain e q' where "evTime e = NextTime q" "pending_events q = add_mset e (pending_events q')" using Remove_pending [OF r(3)] by fastforce
    then show ?thesis using p by auto
  qed
  ultimately show "?P D lib E w fifo" using r(1) perform_empty_bundle [of D lib E 0 3 5 1 w] by simp
qed

end
