(* ===== verification/SC_Sets.thy ===== *)
theory SC_Sets
  imports SC_Bundles
begin

text \<open>
  Setting controls with a message: the values in brackets, from the bytes of the message to the controls of the nodes, and what a bracket that
  is never closed does.
\<close>

section \<open>Tags and values\<close>

text \<open>An iterator in front of the tags \<open>ts\<close> and the values \<open>as\<close>: brackets are tags without a value.\<close>

definition tags_at :: "u8 list \<Rightarrow> osc_arg list \<Rightarrow> sc_msg_iter \<Rightarrow> bool" where
  "tags_at ts as m \<longleftrightarrow> (\<exists>T C R X Y. mdata m = T @ C @ enc_values as @ R \<and> rdpos m = length T + length C
     \<and> msize m = length T + length C + length (enc_values as) \<and> tags m = Some 1
     \<and> T = X @ ts @ 0 # Y \<and> length X = 1 + tcount m \<and> (\<forall>a \<in> set as. arg_ok a))"

definition tagged_args :: "u8 list \<Rightarrow> osc_arg list \<Rightarrow> u8 list" where
  "tagged_args ts as = pad_str (44 # ts) @ enc_values as"

lemma pad_str_zero: "\<exists>n. pad_str s = s @ 0 # replicate n 0"
  unfolding pad_str_def by (metis (no_types, lifting) diff_is_0_eq gr0_implies_Suc mod_less_divisor not_le not_gr_zero replicate_Suc zero_less_numeral)

lemma tags_at_init:
  assumes "0 \<notin> set ts" "\<forall>a \<in> set as. arg_ok a"
  shows "\<exists>m. msg_init (length (tagged_args ts as)) (tagged_args ts as @ rest) = Some m \<and> tags_at ts as m"
proof -
  let ?T = "pad_str (44 # ts)"
  let ?m = "\<lparr>mdata = tagged_args ts as @ rest, rdpos = length ?T, msize = length (tagged_args ts as), tags = Some 1, tcount = 0\<rparr>"
  obtain n where n: "?T = [44] @ ts @ 0 # replicate n 0" using pad_str_zero [of "44 # ts"] by auto
  have "0 \<notin> set (44 # ts)" using assms(1) by auto
  then have "OSCstrskip (tagged_args ts as @ rest) 0 = Some (length ?T)"
    using OSCstrskip_padded [of "44 # ts" "tagged_args ts as @ rest" "[]" "enc_values as @ rest"] by (simp add: OSCstrskip_def tagged_args_def)
  then have "msg_init (length (tagged_args ts as)) (tagged_args ts as @ rest) = Some ?m" by (simp add: msg_init_def tagged_args_def pad_str_def)
  moreover have "tags_at ts as ?m"
    unfolding tags_at_def using assms(2)
    by (intro exI [of _ ?T] exI [of _ "[]"] exI [of _ rest] exI [of _ "[44]"] exI [of _ "replicate n 0"] conjI n) (simp_all add: tagged_args_def)
  ultimately show ?thesis by blast
qed

lemma tags_at_remain: "tags_at ts as m \<Longrightarrow> remain m = int (length (enc_values as))"
  by (auto simp: tags_at_def remain_def)

lemma tags_at_tag: "tags_at ts as m \<Longrightarrow> nextTag d m = Some (case ts of [] \<Rightarrow> 0 | t # _ \<Rightarrow> t)"
  by (auto simp: tags_at_def nextTag_def tag_here_def nth_append split: list.splits)

lemma tags_at_bracket: "tags_at (t # ts) as m \<Longrightarrow> tags_at ts as (count_tag m)"
proof -
  assume "tags_at (t # ts) as m"
  then obtain T C R X Y where m: "mdata m = T @ C @ enc_values as @ R" "rdpos m = length T + length C"
    "msize m = length T + length C + length (enc_values as)" "tags m = Some 1" "T = X @ (t # ts) @ 0 # Y" "length X = 1 + tcount m" "\<forall>a \<in> set as. arg_ok a"
    by (auto simp: tags_at_def)
  then show ?thesis unfolding tags_at_def count_tag_def
    by (intro exI [of _ T] exI [of _ C] exI [of _ R] exI [of _ "X @ [t]"] exI [of _ Y]) auto
qed

lemma tags_at_value:
  assumes "tags_at (arg_tag a # ts) (a # as) m"
  shows "\<exists>m'. read_arg (arg_tag a) m = Some (a, m') \<and> tags_at ts as m'"
proof -
  obtain T C R X Y where m: "mdata m = T @ C @ enc_values (a # as) @ R" "rdpos m = length T + length C"
    "msize m = length T + length C + length (enc_values (a # as))" "tags m = Some 1" "T = X @ (arg_tag a # ts) @ 0 # Y"
    "length X = 1 + tcount m" "\<forall>a \<in> set (a # as). arg_ok a"
    using assms by (auto simp: tags_at_def)
  obtain new where rd: "read_arg (arg_tag a) m = Some (a, m\<lparr>mdata := (T @ C) @ new @ (enc_values as @ R),
      rdpos := rdpos m + length (enc_value a), tcount := tcount m + 1\<rparr>)"
    and new: "length new = length (enc_value a)"
    by (rule read_arg_at [of a m "T @ C" "enc_values as @ R" 1]) (use m in \<open>auto simp: nth_append\<close>)
  have "tags_at ts as (m\<lparr>mdata := (T @ C) @ new @ (enc_values as @ R), rdpos := rdpos m + length (enc_value a), tcount := tcount m + 1\<rparr>)"
    unfolding tags_at_def
    by (intro exI [of _ T] exI [of _ "C @ new"] exI [of _ R] exI [of _ "X @ [arg_tag a]"] exI [of _ Y]) (use m new in auto)
  then show ?thesis using rd by blast
qed

lemma tags_at_int: "tags_at (tag_i # ts) (Arg_i i # as) m \<Longrightarrow> \<exists>m'. geti 0 m = Some (i, m') \<and> tags_at ts as m'"
  using tags_at_value [of "Arg_i i" ts as m] by (auto simp: bind_eq_Some_conv)

lemma tags_at_float: "tags_at (tag_f # ts) (Arg_f v # as) m \<Longrightarrow> \<exists>m'. getf 0 m = Some (v, m') \<and> tags_at ts as m'"
  using tags_at_value [of "Arg_f v" ts as m] by (auto simp: bind_eq_Some_conv)

lemma tags_at_address: "tags_at (tag_i # ts) (Arg_i i # as) m \<Longrightarrow> \<exists>m'. read_address m = Some (By_index i, m') \<and> tags_at ts as m'"
  using tags_at_int [of ts i as m] tags_at_tag [of "tag_i # ts" "Arg_i i # as" m tag_i] by (auto simp: read_address_def)

lemma tags_at_node:
  assumes "tags_at (tag_i # ts) (Arg_i i # as) m" "lib_ok n w"
  shows "\<exists>m'. Msg_GetNode w m = Some (lookup w i, m') \<and> tags_at ts as m'"
  using tags_at_int [OF assms(1)] tags_at_tag [OF assms(1), of tag_i] World_GetNode_eq [OF assms(2), of i] by (auto simp: Msg_GetNode_def lookup_def)

section \<open>Setting\<close>

text \<open>One value for a control, or several for consecutive ones.\<close>

datatype set_entry = One i32 f32 | Many i32 "f32 list"

fun entry_tags :: "set_entry \<Rightarrow> u8 list" where
  "entry_tags (One ix v) = [tag_i, tag_f]"
| "entry_tags (Many ix vs) = [tag_i, tag_open] @ replicate (length vs) tag_f @ [tag_close]"

fun entry_args :: "set_entry \<Rightarrow> osc_arg list" where
  "entry_args (One ix v) = [Arg_i ix, Arg_f v]"
| "entry_args (Many ix vs) = Arg_i ix # List.map Arg_f vs"

fun set_many :: "nat \<Rightarrow> ptr \<Rightarrow> i32 \<Rightarrow> f32 list \<Rightarrow> World \<Rightarrow> World option" where
  "set_many k p ix [] w = Some w"
| "set_many k p ix (v # vs) w = do { w \<leftarrow> Node_SetControl k p ix v w; set_many k p (ix + 1) vs w }"

fun set_entries :: "nat \<Rightarrow> ptr \<Rightarrow> set_entry list \<Rightarrow> World \<Rightarrow> World option" where
  "set_entries k p [] w = Some w"
| "set_entries k p (One ix v # es) w = do { w \<leftarrow> set_many k p ix [v] w; set_entries k p es w }"
| "set_entries k p (Many ix vs # es) w = do { w \<leftarrow> set_many k p ix vs w; set_entries k p es w }"

definition n_set_args :: "i32 \<Rightarrow> set_entry list \<Rightarrow> u8 list" where
  "n_set_args i es = tagged_args (tag_i # concat (List.map entry_tags es)) (Arg_i i # concat (List.map entry_args es))"

lemma set_values_many:
  assumes "tags_at (replicate (length vs) tag_f @ tag_close # ts) (List.map Arg_f vs @ as) m" "length vs < f"
  shows "(\<exists>m'. tags_at ts as m' \<and> set_values f k p (By_index ix) i 1 m w = map_option (\<lambda>w. (m', w)) (set_many k p (ix + i) vs w))"
  using assms
proof (induction vs arbitrary: m i w f)
  case Nil
  then obtain g where g: "f = Suc g" by (cases f) auto
  show ?case using Nil tags_at_bracket [of tag_close ts as m] tags_at_tag [of "tag_close # ts" as m tag_f] by (auto simp: g)
next
  case (Cons v vs)
  obtain g where g: "f = Suc g" "length vs < g" using Cons.prems(2) by (cases f) auto
  have t: "nextTag tag_f m = Some tag_f" using tags_at_tag [OF Cons.prems(1)] by simp
  obtain m1 where m1: "getf 0 m = Some (v, m1)" "tags_at (replicate (length vs) tag_f @ tag_close # ts) (List.map Arg_f vs @ as) m1"
    using tags_at_float [of "replicate (length vs) tag_f @ tag_close # ts" v "List.map Arg_f vs @ as" m] Cons.prems(1) by auto
  show ?case
  proof (cases "Node_SetControl k p (ix + i) v w")
    case None
    then show ?thesis using m1 t g Cons.IH [OF m1(2) g(2)] by (auto simp: node_set_at_def)
  next
    case (Some w')
    obtain m' where "tags_at ts as m'" "set_values g k p (By_index ix) (i + 1) 1 m1 w' = map_option (\<lambda>w. (m', w)) (set_many k p (ix + (i + 1)) vs w')"
      using Cons.IH [OF m1(2) g(2)] by blast
    then show ?thesis using m1 t g Some by (auto simp: node_set_at_def add.assoc)
  qed
qed

fun entry_index :: "set_entry \<Rightarrow> i32" where
  "entry_index (One ix v) = ix" | "entry_index (Many ix vs) = ix"

fun entry_values :: "set_entry \<Rightarrow> f32 list" where
  "entry_values (One ix v) = [v]" | "entry_values (Many ix vs) = vs"

lemma set_entries_Cons: "set_entries k p (e # es) w = do { w \<leftarrow> set_many k p (entry_index e) (entry_values e) w; set_entries k p es w }"
  by (cases e) simp_all

lemma entry_parts: "entry_tags e = tag_i # tl (entry_tags e)" "entry_args e = Arg_i (entry_index e) # List.map Arg_f (entry_values e)"
  by (cases e; simp)+

lemma length_floats: "length (enc_values (List.map Arg_f vs)) = 4 * length vs"
  by (induction vs) simp_all

lemma set_values_entry:
  assumes "tags_at (tl (entry_tags e) @ ts) (List.map Arg_f (entry_values e) @ as) m" "Suc (length (entry_values e)) < f"
  shows "\<exists>m'. tags_at ts as m' \<and> set_values f k p (By_index (entry_index e)) 0 0 m w
    = map_option (\<lambda>w. (m', w)) (set_many k p (entry_index e) (entry_values e) w)"
proof (cases e)
  case (One ix v)
  obtain g where g: "f = Suc g" using assms(2) by (cases f) auto
  have a: "tags_at (tag_f # ts) (Arg_f v # as) m" using assms(1) One by simp
  obtain m1 where m1: "getf 0 m = Some (v, m1)" "tags_at ts as m1" using tags_at_float [OF a] by blast
  then show ?thesis using One g tags_at_tag [OF a, of tag_f]
    by (cases "Node_SetControl k p ix v w") (auto simp: node_set_at_def)
next
  case (Many ix vs)
  obtain g where g: "f = Suc g" "length vs < g" using assms(2) Many by (cases f) auto
  let ?ts = "replicate (length vs) tag_f @ tag_close # ts"
  have a: "tags_at (tag_open # ?ts) (List.map Arg_f vs @ as) m" using assms(1) Many by simp
  obtain m' where "tags_at ts as m'" "set_values g k p (By_index ix) 0 1 (count_tag m) w = map_option (\<lambda>w. (m', w)) (set_many k p (ix + 0) vs w)"
    using set_values_many [OF tags_at_bracket [OF a] g(2)] by blast
  then show ?thesis using Many g tags_at_tag [OF a, of tag_f] by auto
qed

definition set_body :: "nat \<Rightarrow> ptr \<Rightarrow> loop_body" where
  "set_body k p m w = do {
     (a, m) \<leftarrow> read_address m;
     (m, w) \<leftarrow> set_values k k p a 0 0 m w;
     Some (None, m, w) }"

lemma set_loop:
  "tags_at (concat (List.map entry_tags es)) (concat (List.map entry_args es)) m \<Longrightarrow> length es < j \<Longrightarrow> \<forall>e \<in> set es. Suc (length (entry_values e)) < k \<Longrightarrow>
   loop_from j (at_least 8) (set_body k p) m w = map_option (\<lambda>w. (Ret kSCErr_None, w)) (set_entries k p es w)"
proof (induction es arbitrary: j m w)
  case Nil
  then show ?case using tags_at_remain [OF Nil(1)] by (cases j) (auto simp: loop_from_Suc)
next
  case (Cons e es)
  obtain i where j: "j = Suc i" "length es < i" using Cons.prems(2) by (cases j) auto
  have a: "tags_at (tag_i # tl (entry_tags e) @ concat (List.map entry_tags es))
      (Arg_i (entry_index e) # List.map Arg_f (entry_values e) @ concat (List.map entry_args es)) m"
    using Cons.prems(1) entry_parts [of e] by (metis append_Cons concat.simps(2) list.map(2))
  show ?case
  proof (cases "at_least 8 m")
    case False
    then have "entry_values e = [] \<and> es = []" using tags_at_remain [OF a] length_floats [of "entry_values e"] entry_parts(2)
      by (cases es) (auto simp: Suc_le_eq)
    then show ?thesis using False j by (simp add: loop_from_Suc set_entries_Cons)
  next
    case True
    obtain m1 where m1: "read_address m = Some (By_index (entry_index e), m1)"
      "tags_at (tl (entry_tags e) @ concat (List.map entry_tags es)) (List.map Arg_f (entry_values e) @ concat (List.map entry_args es)) m1"
      using tags_at_address [OF a] by blast
    obtain m2 where m2: "tags_at (concat (List.map entry_tags es)) (concat (List.map entry_args es)) m2"
      "set_values k k p (By_index (entry_index e)) 0 0 m1 w = map_option (\<lambda>w. (m2, w)) (set_many k p (entry_index e) (entry_values e) w)"
      using set_values_entry [OF m1(2)] Cons.prems(3) by force
    show ?thesis using True j m1(1) m2(2) Cons.IH [OF m2(1) j(2)] Cons.prems(3)
      by (cases "set_many k p (entry_index e) (entry_values e) w") (auto simp: loop_from_Suc set_entries_Cons set_body_def)
  qed
qed

lemma args_of_entries_ok: "\<forall>a \<in> set (Arg_i i # concat (List.map entry_args es)). arg_ok a"
  using entry_parts(2) by auto

lemma tags_of_entries: "0 \<notin> set (tag_i # concat (List.map entry_tags es))"
proof -
  have "0 \<notin> set (entry_tags e)" for e by (cases e) auto
  then show ?thesis by auto
qed

text \<open>
  C11: \<open>n_set\<close> sets controls. A message with the identifier of a node and then indices, each with a value or with several values
  in brackets, returns; it is the setting of the controls one after the other, on the node or on all synths below it, where
  the values in brackets go to consecutive controls. An identifier of no node is an error and changes nothing.
\<close>

theorem n_set_sets_controls:
  assumes "lib_ok n w" "length es < k" "\<forall>e \<in> set es. Suc (length (entry_values e)) < k"
  shows "meth_n_set E k (length (n_set_args i es)) (n_set_args i es @ rest) addr w = (case lookup w i of
     None \<Rightarrow> Some (Ret kSCErr_NodeNotFound, w)
   | Some p \<Rightarrow> map_option (\<lambda>w. (Ret kSCErr_None, w)) (set_entries k p es w))"
proof -
  obtain m where m: "msg_init (length (n_set_args i es)) (n_set_args i es @ rest) = Some m"
    "tags_at (tag_i # concat (List.map entry_tags es)) (Arg_i i # concat (List.map entry_args es)) m"
    using tags_at_init [OF tags_of_entries args_of_entries_ok, where rest = rest] unfolding n_set_args_def by blast
  obtain m1 where m1: "Msg_GetNode w m = Some (lookup w i, m1)" "tags_at (concat (List.map entry_tags es)) (concat (List.map entry_args es)) m1"
    using tags_at_node [OF m(2) assms(1)] by blast
  have "meth_n_set E k sz mem a w = on_node (at_least 8) (set_body k) k sz mem w" for sz mem a
    unfolding meth_n_set_def set_body_def [abs_def] by simp
  then show ?thesis using m(1) m1(1) set_loop [OF m1(2) assms(2,3)] by (simp add: on_node_def split: option.splits)
qed

lemma open_bracket_loops:
  "tags_at [] as m \<Longrightarrow> set_values f k p a i 1 m w = None"
  by (induction f) (auto simp: tags_at_tag)

lemma unclosed_values:
  "tags_at (replicate (length vs) tag_f) (List.map Arg_f vs) m \<Longrightarrow> set_values f k p (By_index ix) i 1 m w = None"
proof (induction vs arbitrary: m i w f)
  case Nil
  then show ?case using open_bracket_loops by simp
next
  case (Cons v vs)
  show ?case
  proof (cases f)
    case (Suc g)
    obtain m1 where "getf 0 m = Some (v, m1)" "tags_at (replicate (length vs) tag_f) (List.map Arg_f vs) m1"
      using tags_at_float [of _ v _ m] Cons.prems by auto
    then show ?thesis using Suc Cons.IH tags_at_tag [OF Cons.prems, of tag_f] by (auto simp: node_set_at_def split: bind_split)
  qed simp
qed

text \<open>
  C36: a bracket that is not closed. When the last bracket of an \<open>n_set\<close> message for a node that exists has no closing tag,
  the handler does not return, whatever the fuel: past the last tag it neither advances nor closes the bracket. It runs in the thread of the audio driver.
\<close>

theorem open_bracket_hangs:
  assumes "lib_ok n w" "lookup w i = Some p" "vs \<noteq> []"
  shows "\<forall>k. meth_n_set E k (length (tagged_args ([tag_i, tag_i, tag_open] @ replicate (length vs) tag_f) ([Arg_i i, Arg_i ix] @ List.map Arg_f vs)))
      (tagged_args ([tag_i, tag_i, tag_open] @ replicate (length vs) tag_f) ([Arg_i i, Arg_i ix] @ List.map Arg_f vs) @ rest) addr w = None"
proof
  fix k
  let ?ts = "replicate (length vs) tag_f" and ?as = "List.map Arg_f vs"
  have ok: "0 \<notin> set ([tag_i, tag_i, tag_open] @ ?ts)" "\<forall>a \<in> set ([Arg_i i, Arg_i ix] @ ?as). arg_ok a" by auto
  obtain m where m: "msg_init (length (tagged_args ([tag_i, tag_i, tag_open] @ ?ts) ([Arg_i i, Arg_i ix] @ ?as)))
      (tagged_args ([tag_i, tag_i, tag_open] @ ?ts) ([Arg_i i, Arg_i ix] @ ?as) @ rest) = Some m"
    "tags_at (tag_i # tag_i # tag_open # ?ts) (Arg_i i # Arg_i ix # ?as) m"
    using tags_at_init [OF ok, where rest = rest] by auto
  obtain m1 where m1: "Msg_GetNode w m = Some (Some p, m1)" "tags_at (tag_i # tag_open # ?ts) (Arg_i ix # ?as) m1"
    using tags_at_node [OF m(2) assms(1)] assms(2) by auto
  obtain m2 where m2: "read_address m1 = Some (By_index ix, m2)" "tags_at (tag_open # ?ts) ?as m2" using tags_at_address [OF m1(2)] by blast
  have "at_least 8 m1" using tags_at_remain [OF m1(2)] length_floats [of vs] assms(3) by (cases vs) auto
  moreover have "set_values k k p (By_index ix) 0 0 m2 w = None"
    using unclosed_values [OF tags_at_bracket [OF m2(2)]] tags_at_tag [OF m2(2), of tag_f] by (cases k) auto
  ultimately show "meth_n_set E k (length (tagged_args ([tag_i, tag_i, tag_open] @ ?ts) ([Arg_i i, Arg_i ix] @ ?as)))
      (tagged_args ([tag_i, tag_i, tag_open] @ ?ts) ([Arg_i i, Arg_i ix] @ ?as) @ rest) addr w = None"
    using m(1) m1(1) m2(1) by (cases k) (simp_all add: meth_n_set_def on_node_def loop_from_Suc del: set_values.simps, simp add: loop_from_def)
qed

theorem n_set_sets_controls_witness:
  "\<exists>w r. lookup w 1000 = Some (r + 1) \<and> (\<forall>E. meth_n_set E 9 (length (n_set_args 1000 [One 0 5, Many 1 [6, 7]])) (n_set_args 1000 [One 0 5, Many 1 [6, 7]]) 1 w
     = map_option (\<lambda>w. (Ret kSCErr_None, w)) (do {
         w \<leftarrow> Node_SetControl 9 (r + 1) 0 5 w; w \<leftarrow> Node_SetControl 9 (r + 1) 1 6 w; Node_SetControl 9 (r + 1) 2 7 w }))"
proof -
  obtain w r where w: "engine_inv 3 w ((\<lambda>_. [])(r := [r + 1, r + 2]))" and st: "state_of w ((\<lambda>_. [])(r := [r + 1, r + 2]))
     = \<lparr>tsFind = [0 \<mapsto> r, 1000 \<mapsto> r + 1, 1001 \<mapsto> r + 2], tsGroups = {r, r + 1, r + 2}, tsKids = (\<lambda>_. [])(r := [r + 1, r + 2]), tsFresh = r + 3,
        tsRecent = 1001, tsCount = 3\<rparr>"
    using family_world by blast
  note l = family_lookup [OF st w]
  have "meth_n_set E 9 (length (n_set_args 1000 [One 0 5, Many 1 [6, 7]])) (n_set_args 1000 [One 0 5, Many 1 [6, 7]]) 1 w
    = map_option (\<lambda>w. (Ret kSCErr_None, w)) (set_entries 9 (r + 1) [One 0 5, Many 1 [6, 7]] w)" for E
    using n_set_sets_controls [OF inv_lib_ok [OF w], where es = "[One 0 5, Many 1 [6, 7]]" and k = 9 and i = 1000 and rest = "[]" and E = E and addr = 1] l(1) by simp
  then show ?thesis using l(1) by (intro exI [of _ w] exI [of _ r]) (simp add: Option.bind_assoc)
qed

theorem open_bracket_hangs_witness:
  "\<exists>w. \<forall>E k. meth_n_set E k (length (tagged_args [tag_i, tag_i, tag_open, tag_f] [Arg_i 1000, Arg_i 0, Arg_f 5]))
     (tagged_args [tag_i, tag_i, tag_open, tag_f] [Arg_i 1000, Arg_i 0, Arg_f 5]) 1 w = None"
proof -
  obtain w r where w: "engine_inv 3 w ((\<lambda>_. [])(r := [r + 1, r + 2]))" and st: "state_of w ((\<lambda>_. [])(r := [r + 1, r + 2]))
     = \<lparr>tsFind = [0 \<mapsto> r, 1000 \<mapsto> r + 1, 1001 \<mapsto> r + 2], tsGroups = {r, r + 1, r + 2}, tsKids = (\<lambda>_. [])(r := [r + 1, r + 2]), tsFresh = r + 3,
        tsRecent = 1001, tsCount = 3\<rparr>"
    using family_world by blast
  show ?thesis
    using open_bracket_hangs [OF inv_lib_ok [OF w] family_lookup(1) [OF st w], of "[5]" _ 0 "[]"] by (intro exI [of _ w]) simp
qed

end
