(* ===== verification/SC_Color.thy ===== *)
theory SC_Color
  imports SC_Graph
begin

text \<open>
  The wiring of a synth definition (\<open>server/scsynth/SC_GraphDef.cpp\<close>, \<open>include/server/SC_WireSpec.h\<close>, \<open>SC_UnitSpec.h\<close>): every output at the
  full rate gets one of as few buffers as possible, which it shares with outputs that are not in use at the same time.

  The numbers of the specifications are \<open>int16\<close>, and so are those of the allocator: they wrap. An exception is a value of
  type \<open>read_error\<close>; \<open>None\<close> is an access outside of an array.
\<close>

section \<open>Specifications as read from a file\<close>

type_synonym i16 = "16 word"

record InputSpec =
  isFromUnitIndex :: i16
  isFromOutputIndex :: i16
  isWireIndex :: i16

record OutputSpec =
  osCalcRate :: i16
  osWireIndex :: i16
  osBufferIndex :: i16
  osNumConsumers :: i16

text \<open>A unit definition does not change once it is in the library; the specification has it by value.\<close>

record UnitDef =
  udName :: "i32 list"
  udHash :: i32
  udAllocSize :: nat
  udFlags :: u32

datatype rate_info = mBufRate | mFullRate

record FileUnitSpec =
  fuUnitDef :: UnitDef
  fuCalcRate :: i16
  fuSpecialIndex :: i16
  fuInputSpec :: "InputSpec list"
  fuOutputSpec :: "OutputSpec list"
  fuRateInfo :: "rate_info option"

datatype read_error = Name_too_long | UGen_not_installed | Buffer_coloring_error | Too_many_wire_bufs

definition full_rate :: i16 where "full_rate = 2"

text \<open>An array at an \<open>int16\<close> or \<open>int\<close> index.\<close>

definition at16 :: "'a list \<Rightarrow> i16 \<Rightarrow> 'a option" where
  "at16 xs i = (if sint i < 0 then None else aread xs (nat (sint i)))"

definition put16 :: "'a list \<Rightarrow> i16 \<Rightarrow> 'a \<Rightarrow> 'a list option" where
  "put16 xs i v = (if sint i < 0 then None else awrite xs (nat (sint i)) v)"

section \<open>The allocator\<close>

record BufColorAllocator =
  bcRefs :: "i16 list"
  bcStack :: "i16 list"
  bcStackPtr :: i16
  bcNextIndex :: i16
  bcRefsMaxSize :: i16
  bcStackMaxSize :: i16

definition BufColorAllocator_new :: BufColorAllocator where
  "BufColorAllocator_new = \<lparr>bcRefs = replicate 32 0, bcStack = replicate 32 0, bcStackPtr = 0, bcNextIndex = 0,
     bcRefsMaxSize = 32, bcStackMaxSize = 32\<rparr>"

text \<open>Doubling an array of the given size; a negative size is no memory.\<close>

definition doubled :: "i16 list \<Rightarrow> i16 \<Rightarrow> i16 list option" where
  "doubled xs n = (if sint n < 0 then None else Some (xs @ replicate (nat (sint n)) 0))"

definition grow_refs :: "i16 \<Rightarrow> BufColorAllocator \<Rightarrow> BufColorAllocator option" where
  "grow_refs outIndex A =
     (if sint (bcRefsMaxSize A) \<le> sint outIndex then do {
        refs \<leftarrow> doubled (bcRefs A) (bcRefsMaxSize A);
        Some (A\<lparr>bcRefs := refs, bcRefsMaxSize := bcRefsMaxSize A * 2\<rparr>) }
      else Some A)"

definition color_alloc :: "i16 \<Rightarrow> BufColorAllocator \<Rightarrow> (i16 \<times> BufColorAllocator) option" where
  "color_alloc n A = do {
     (outIndex, A) \<leftarrow>
       (if bcStackPtr A \<noteq> 0 then do {
          b \<leftarrow> at16 (bcStack A) (bcStackPtr A - 1);
          Some (b, A\<lparr>bcStackPtr := bcStackPtr A - 1\<rparr>) }
        else Some (bcNextIndex A, A\<lparr>bcNextIndex := bcNextIndex A + 1\<rparr>));
     A \<leftarrow> grow_refs outIndex A;
     refs \<leftarrow> put16 (bcRefs A) outIndex n;
     Some (outIndex, A\<lparr>bcRefs := refs\<rparr>) }"

definition grow_stack :: "BufColorAllocator \<Rightarrow> BufColorAllocator option" where
  "grow_stack A =
     (if sint (bcStackMaxSize A) \<le> sint (bcStackPtr A) then do {
        stack \<leftarrow> doubled (bcStack A) (bcStackMaxSize A);
        Some (A\<lparr>bcStack := stack, bcStackMaxSize := bcStackMaxSize A * 2\<rparr>) }
      else Some A)"

definition color_release :: "i16 \<Rightarrow> BufColorAllocator \<Rightarrow> (bool \<times> BufColorAllocator) option" where
  "color_release inIndex A = do {
     c \<leftarrow> at16 (bcRefs A) inIndex;
     if c = 0 then Some (False, A)
     else do {
       refs \<leftarrow> put16 (bcRefs A) inIndex (c - 1);
       let A = A\<lparr>bcRefs := refs\<rparr>;
       if c - 1 = 0 then do {
         A \<leftarrow> grow_stack A;
         stack \<leftarrow> put16 (bcStack A) (bcStackPtr A) inIndex;
         Some (True, A\<lparr>bcStack := stack, bcStackPtr := bcStackPtr A + 1\<rparr>) }
       else Some (True, A) } }"

definition NumBufs :: "BufColorAllocator \<Rightarrow> i32" where
  "NumBufs A = scast (bcNextIndex A)"

section \<open>Coloring\<close>

text \<open>Changing one input or output of the units.\<close>

definition upd_input :: "nat \<Rightarrow> nat \<Rightarrow> (InputSpec \<Rightarrow> InputSpec) \<Rightarrow> FileUnitSpec list \<Rightarrow> FileUnitSpec list" where
  "upd_input j i f us = us[j := (us ! j)\<lparr>fuInputSpec := (fuInputSpec (us ! j))[i := f (fuInputSpec (us ! j) ! i)]\<rparr>]"

definition upd_output :: "nat \<Rightarrow> nat \<Rightarrow> (OutputSpec \<Rightarrow> OutputSpec) \<Rightarrow> FileUnitSpec list \<Rightarrow> FileUnitSpec list" where
  "upd_output j i f us = us[j := (us ! j)\<lparr>fuOutputSpec := (fuOutputSpec (us ! j))[i := f (fuOutputSpec (us ! j) ! i)]\<rparr>]"

text \<open>The output an input comes from.\<close>

definition output_of :: "FileUnitSpec list \<Rightarrow> InputSpec \<Rightarrow> OutputSpec option" where
  "output_of us inp = do { u \<leftarrow> at16 us (isFromUnitIndex inp); at16 (fuOutputSpec u) (isFromOutputIndex inp) }"

fun ReleaseInputBuffers :: "nat list \<Rightarrow> nat \<Rightarrow> FileUnitSpec list \<Rightarrow> BufColorAllocator
    \<Rightarrow> (read_error + FileUnitSpec list \<times> BufColorAllocator) option" where
  "ReleaseInputBuffers [] j us A = Some (Inr (us, A))"
| "ReleaseInputBuffers (i # is) j us A =
     (let inp = fuInputSpec (us ! j) ! i
      in if 0 \<le> sint (isFromUnitIndex inp) then do {
           out \<leftarrow> output_of us inp;
           let us = upd_input j i (\<lambda>inp. inp\<lparr>isWireIndex := osWireIndex out\<rparr>) us;
           if osCalcRate out = full_rate then do {
             (ok, A) \<leftarrow> color_release (osBufferIndex out) A;
             if \<not> ok then Some (Inl Buffer_coloring_error) else ReleaseInputBuffers is j us A }
           else ReleaseInputBuffers is j us A }
         else ReleaseInputBuffers is j (upd_input j i (\<lambda>inp. inp\<lparr>isWireIndex := isFromOutputIndex inp\<rparr>) us) A)"

fun AllocOutputBuffers :: "nat list \<Rightarrow> nat \<Rightarrow> FileUnitSpec list \<Rightarrow> BufColorAllocator \<Rightarrow> i32
    \<Rightarrow> (FileUnitSpec list \<times> BufColorAllocator \<times> i32) option" where
  "AllocOutputBuffers [] j us A wireIndexCtr = Some (us, A, wireIndexCtr)"
| "AllocOutputBuffers (i # is) j us A wireIndexCtr =
     (let us = upd_output j i (\<lambda>out. out\<lparr>osWireIndex := ucast wireIndexCtr\<rparr>) us;
          out = fuOutputSpec (us ! j) ! i
      in if osCalcRate out = full_rate then do {
           (b, A) \<leftarrow> color_alloc (osNumConsumers out) A;
           AllocOutputBuffers is j (upd_output j i (\<lambda>out. out\<lparr>osBufferIndex := b\<rparr>) us) A (wireIndexCtr + 1) }
         else AllocOutputBuffers is j us A (wireIndexCtr + 1))"

text \<open>The consumers of outputs: inputs \<open>i\<close> of unit \<open>j\<close>, unit by unit.\<close>

fun count_inputs :: "nat list \<Rightarrow> nat \<Rightarrow> FileUnitSpec list \<Rightarrow> FileUnitSpec list option" where
  "count_inputs [] j us = Some us"
| "count_inputs (i # is) j us =
     (let inp = fuInputSpec (us ! j) ! i
      in if 0 \<le> sint (isFromUnitIndex inp) then do {
           _ \<leftarrow> output_of us inp;
           count_inputs is j (upd_output (nat (sint (isFromUnitIndex inp))) (nat (sint (isFromOutputIndex inp)))
             (\<lambda>out. out\<lparr>osNumConsumers := osNumConsumers out + 1\<rparr>) us) }
         else count_inputs is j us)"

fun count_consumers :: "nat list \<Rightarrow> FileUnitSpec list \<Rightarrow> FileUnitSpec list option" where
  "count_consumers [] us = Some us"
| "count_consumers (j # js) us = do {
     us \<leftarrow> count_inputs [0..<length (fuInputSpec (us ! j))] j us;
     count_consumers js us }"

definition cant_alias :: "FileUnitSpec \<Rightarrow> bool" where
  "cant_alias u \<longleftrightarrow> udFlags (fuUnitDef u) AND 1 \<noteq> 0"

fun color_units :: "nat list \<Rightarrow> FileUnitSpec list \<Rightarrow> BufColorAllocator \<Rightarrow> i32
    \<Rightarrow> (read_error + FileUnitSpec list \<times> BufColorAllocator) option" where
  "color_units [] us A wireIndexCtr = Some (Inr (us, A))"
| "color_units (j # js) us A wireIndexCtr =
     (let ins = rev [0..<length (fuInputSpec (us ! j))]; outs = [0..<length (fuOutputSpec (us ! j))]
      in if cant_alias (us ! j) then do {
           (us, A, wireIndexCtr) \<leftarrow> AllocOutputBuffers outs j us A wireIndexCtr;
           r \<leftarrow> ReleaseInputBuffers ins j us A;
           (case r of Inl e \<Rightarrow> Some (Inl e) | Inr (us, A) \<Rightarrow> color_units js us A wireIndexCtr) }
         else do {
           r \<leftarrow> ReleaseInputBuffers ins j us A;
           (case r of Inl e \<Rightarrow> Some (Inl e)
            | Inr (us, A) \<Rightarrow> do {
                (us, A, wireIndexCtr) \<leftarrow> AllocOutputBuffers outs j us A wireIndexCtr;
                color_units js us A wireIndexCtr }) })"

text \<open>What the engine has to do with it: whether it runs, the most buffers a synth may use, the length of a block.\<close>

record wire_space =
  mRunning :: bool
  mMaxWireBufs :: u32
  wsBufLength :: i32

definition scale_output :: "i32 \<Rightarrow> OutputSpec \<Rightarrow> OutputSpec" where
  "scale_output bufLength out =
     (if osCalcRate out = full_rate then out\<lparr>osBufferIndex := ucast (scast (osBufferIndex out) * bufLength)\<rparr> else out)"

definition DoBufferColoring :: "wire_space \<Rightarrow> nat \<Rightarrow> FileUnitSpec list
    \<Rightarrow> (read_error + FileUnitSpec list \<times> u32 \<times> wire_space) option" where
  "DoBufferColoring W numConstants us = do {
     us \<leftarrow> count_consumers [0..<length us] us;
     r \<leftarrow> color_units [0..<length us] us BufColorAllocator_new (of_nat numConstants);
     (case r of Inl e \<Rightarrow> Some (Inl e)
      | Inr (us, A) \<Rightarrow>
          if mRunning W \<and> mMaxWireBufs W < NumBufs A then Some (Inl Too_many_wire_bufs)
          else Some (Inr (List.map (\<lambda>u. u\<lparr>fuOutputSpec := List.map (scale_output (wsBufLength W)) (fuOutputSpec u)\<rparr>) us, NumBufs A,
                 if mRunning W then W else W\<lparr>mMaxWireBufs := max (mMaxWireBufs W) (NumBufs A)\<rparr>))) }"

end
