(* ===== verification/SC_Wiring.thy ===== *)
theory SC_Wiring
  imports SC_Color
begin

text \<open>
  The buffers of a synth's wires do not get in each other's way: the allocator keeps the buffers in use apart, and
  from its calls in the order of the units follows what every unit finds in its inputs.
\<close>

section \<open>The allocator\<close>

lemma sint16: "n < 2 ^ 15 \<Longrightarrow> sint (of_nat n :: i16) = int n"
proof -
  assume "n < 2 ^ 15"
  then have "signed_take_bit 15 (int n) = int n" by (intro signed_take_bit_int_eq_self) simp_all
  then show ?thesis by (simp add: signed_of_nat)
qed

lemma of_nat16_eq: "m < 2 ^ 15 \<Longrightarrow> n < 2 ^ 15 \<Longrightarrow> (of_nat m :: i16) = of_nat n \<longleftrightarrow> m = n"
  using sint16 [of m] sint16 [of n] by (metis of_nat_eq_iff)

text \<open>The sizes an array goes through.\<close>

definition array_size :: "nat \<Rightarrow> bool" where
  "array_size k \<longleftrightarrow> (\<exists>m \<le> 9. k = 32 * 2 ^ m)"

lemma array_size_32: "array_size 32" unfolding array_size_def by (intro exI [of _ 0]) simp

lemma array_size_le: "array_size k \<Longrightarrow> k \<le> 2 ^ 14"
proof -
  assume "array_size k"
  then obtain m where m: "m \<le> 9" "k = 32 * 2 ^ m" by (auto simp: array_size_def)
  have "(2 :: nat) ^ m \<le> 2 ^ 9" using m(1) by (intro power_increasing) simp_all
  then show ?thesis using m(2) by simp
qed

lemma array_size_double: "array_size k \<Longrightarrow> k < 2 ^ 14 \<Longrightarrow> array_size (2 * k)"
proof -
  assume "array_size k" "k < 2 ^ 14"
  then obtain m where m: "m \<le> 9" "k = 32 * 2 ^ m" by (auto simp: array_size_def)
  have "m \<noteq> 9" using m(2) \<open>k < 2 ^ 14\<close> by auto
  then show ?thesis unfolding array_size_def using m by (intro exI [of _ "Suc m"]) simp
qed

text \<open>The allocator has counts \<open>r\<close> for the buffers below \<open>n\<close>; those of \<open>st\<close> are free.\<close>

definition color_rep :: "BufColorAllocator \<Rightarrow> (nat \<Rightarrow> i16) \<Rightarrow> nat list \<Rightarrow> nat \<Rightarrow> bool" where
  "color_rep A r st n \<longleftrightarrow>
     array_size (length (bcRefs A)) \<and> bcRefsMaxSize A = of_nat (length (bcRefs A)) \<and> n \<le> length (bcRefs A)
     \<and> bcNextIndex A = of_nat n \<and> (\<forall>b<n. bcRefs A ! b = r b)
     \<and> array_size (length (bcStack A)) \<and> bcStackMaxSize A = of_nat (length (bcStack A)) \<and> length st \<le> length (bcStack A)
     \<and> bcStackPtr A = of_nat (length st) \<and> take (length st) (bcStack A) = List.map of_nat (rev st)
     \<and> distinct st \<and> set st \<subseteq> {..<n}"

lemma color_rep_new: "color_rep BufColorAllocator_new r [] 0"
  by (simp add: color_rep_def BufColorAllocator_new_def array_size_32)

lemma color_repD:
  assumes "color_rep A r st n"
  shows "n \<le> 2 ^ 14" "length st \<le> n" "\<And>b. b \<in> set st \<Longrightarrow> b < n" "distinct st"
    "b < n \<Longrightarrow> at16 (bcRefs A) (of_nat b) = Some (r b)"
proof -
  note a = assms [unfolded color_rep_def]
  show n: "n \<le> 2 ^ 14" using a array_size_le by (meson le_trans)
  show d: "distinct st" and s: "\<And>b. b \<in> set st \<Longrightarrow> b < n" using a by auto
  have "card (set st) \<le> card {..<n}" using a by (intro card_mono) auto
  then show "length st \<le> n" using distinct_card [OF d] by simp
  show "b < n \<Longrightarrow> at16 (bcRefs A) (of_nat b) = Some (r b)" using a n sint16 [of b] by (simp add: at16_def)
qed

lemma double16: "array_size k \<Longrightarrow> k < 2 ^ 14 \<Longrightarrow> (of_nat k :: i16) * 2 = of_nat (k + k)"
  by simp

lemma color_alloc_free:
  assumes rep: "color_rep A r (b # st) n"
  shows "\<exists>A'. color_alloc c A = Some (of_nat b, A') \<and> color_rep A' (r(b := c)) st n"
proof -
  note a = rep [unfolded color_rep_def]
  note d = color_repD [OF rep]
  have len: "length st < 2 ^ 14" "b < n" using d(1,2,3) by auto
  have tk: "take (Suc (length st)) (bcStack A) = List.map of_nat (rev st) @ [of_nat b]" using a by simp
  have ls: "length st < length (bcStack A)" using a by simp
  then have "take (Suc (length st)) (bcStack A) = take (length st) (bcStack A) @ [bcStack A ! length st]" by (rule take_Suc_conv_app_nth)
  then have st: "take (length st) (bcStack A) = List.map of_nat (rev st)" "bcStack A ! length st = of_nat b" using tk by simp_all
  have p: "bcStackPtr A = of_nat (Suc (length st))" using a by simp
  have "bcStackPtr A \<noteq> 0" unfolding p using of_nat16_eq [of "Suc (length st)" 0] len by (auto simp del: of_nat_Suc)
  moreover have p1: "bcStackPtr A - 1 = of_nat (length st)" unfolding p by simp
  moreover have "at16 (bcStack A) (of_nat (length st)) = Some (of_nat b)" using sint16 [of "length st"] len ls st(2) by (simp add: at16_def)
  moreover have "sint (of_nat b :: i16) < sint (bcRefsMaxSize A)"
    using a len sint16 [of b] sint16 [of "length (bcRefs A)"] d(1) array_size_le [of "length (bcRefs A)"] by simp
  then have "grow_refs (of_nat b) (A\<lparr>bcStackPtr := of_nat (length st)\<rparr>) = Some (A\<lparr>bcStackPtr := of_nat (length st)\<rparr>)" by (simp add: grow_refs_def)
  moreover have "put16 (bcRefs A) (of_nat b) c = Some ((bcRefs A)[b := c])" using a len sint16 [of b] d(1) by (simp add: put16_def)
  ultimately have "color_alloc c A = Some (of_nat b, A\<lparr>bcStackPtr := of_nat (length st), bcRefs := (bcRefs A)[b := c]\<rparr>)"
    by (simp add: color_alloc_def)
  moreover have "color_rep (A\<lparr>bcStackPtr := of_nat (length st), bcRefs := (bcRefs A)[b := c]\<rparr>) (r(b := c)) st n"
    using a st(1) len by (auto simp: color_rep_def nth_list_update)
  ultimately show ?thesis by blast
qed

lemma color_alloc_fresh:
  assumes rep: "color_rep A r [] n" and n: "n < 2 ^ 14"
  shows "\<exists>A'. color_alloc c A = Some (of_nat n, A') \<and> color_rep A' (r(n := c)) [] (Suc n)"
proof -
  note a = rep [unfolded color_rep_def]
  let ?A = "A\<lparr>bcNextIndex := of_nat (Suc n)\<rparr>"
  have p: "bcStackPtr A = 0" using a by simp
  have len: "length (bcRefs A) \<le> 2 ^ 14" using a array_size_le by blast
  have s: "sint (bcRefsMaxSize A) = int (length (bcRefs A))" "sint (of_nat n :: i16) = int n"
    using a len n sint16 [of "length (bcRefs A)"] sint16 [of n] by simp_all
  have "\<exists>B. grow_refs (of_nat n) ?A = Some B \<and> color_rep (B\<lparr>bcNextIndex := of_nat n\<rparr>) r [] n \<and> n < length (bcRefs B) \<and> bcNextIndex B = of_nat (Suc n)
      \<and> bcStackPtr B = 0"
  proof (cases "length (bcRefs A) \<le> n")
    case True
    then have l: "length (bcRefs A) = n" using a by simp
    let ?B = "?A\<lparr>bcRefs := bcRefs A @ replicate n 0, bcRefsMaxSize := of_nat (n + n)\<rparr>"
    have "doubled (bcRefs A) (bcRefsMaxSize A) = Some (bcRefs A @ replicate n 0)" using s(1) by (simp add: doubled_def l)
    moreover have "bcRefsMaxSize A * 2 = of_nat (n + n)" using a l by simp
    ultimately have g: "grow_refs (of_nat n) ?A = Some ?B" using s l by (simp add: grow_refs_def)
    have "array_size (n + n)" using array_size_double [of n] a l n by (simp add: mult_2)
    then have "color_rep (?B\<lparr>bcNextIndex := of_nat n\<rparr>) r [] n" using a l unfolding color_rep_def by (simp add: nth_append)
    then show ?thesis using g p l by (intro exI [of _ ?B]) (use a in \<open>auto simp: array_size_def\<close>)
  next
    case False
    then show ?thesis using a s p by (simp add: grow_refs_def color_rep_def)
  qed
  then obtain B where B: "grow_refs (of_nat n) ?A = Some B" "color_rep (B\<lparr>bcNextIndex := of_nat n\<rparr>) r [] n" "n < length (bcRefs B)" "bcNextIndex B = of_nat (Suc n)"
    by blast
  have "put16 (bcRefs B) (of_nat n) c = Some ((bcRefs B)[n := c])" using B(3) n sint16 [of n] by (simp add: put16_def)
  then have "color_alloc c A = Some (of_nat n, B\<lparr>bcRefs := (bcRefs B)[n := c]\<rparr>)"
    using a p B(1) by (simp add: color_alloc_def add.commute)
  moreover have "color_rep (B\<lparr>bcRefs := (bcRefs B)[n := c]\<rparr>) (r(n := c)) [] (Suc n)"
    using B(2-4) by (auto simp: color_rep_def nth_list_update less_Suc_eq)
  ultimately show ?thesis by blast
qed

lemma color_release_rep:
  assumes rep: "color_rep A r st n" and b: "b < n" "b \<notin> set st" "r b \<noteq> 0"
  shows "\<exists>A'. color_release (of_nat b) A = Some (True, A') \<and> color_rep A' (r(b := r b - 1)) (if r b = 1 then b # st else st) n"
proof -
  note a = rep [unfolded color_rep_def]
  note d = color_repD [OF rep]
  let ?A = "A\<lparr>bcRefs := (bcRefs A)[b := r b - 1]\<rparr>"
  have b15: "b < 2 ^ 14" using b(1) d(1) by simp
  have rd: "at16 (bcRefs A) (of_nat b) = Some (r b)" by (rule d(5) [OF b(1)])
  have wr: "put16 (bcRefs A) (of_nat b) (r b - 1) = Some ((bcRefs A)[b := r b - 1])" using a b(1) b15 sint16 [of b] by (simp add: put16_def)
  have rA: "color_rep ?A (r(b := r b - 1)) st n" using a b(1) by (auto simp: color_rep_def nth_list_update)
  show ?thesis
  proof (cases "r b = 1")
    case False
    then have "r b - 1 \<noteq> 0" by simp
    then show ?thesis using rd wr rA False b(3) by (simp add: color_release_def Let_def)
  next
    case True
    have "card (insert b (set st)) \<le> card {..<n}" using a b by (intro card_mono) auto
    then have k: "length st < n" using b(2) distinct_card [OF d(4)] by simp
    then have k14: "length st < 2 ^ 14" using d(1) by simp
    have len: "length (bcStack A) \<le> 2 ^ 14" using a array_size_le by blast
    have s: "sint (bcStackMaxSize ?A) = int (length (bcStack A))" "sint (bcStackPtr ?A) = int (length st)"
      using a len k14 sint16 [of "length (bcStack A)"] sint16 [of "length st"] by simp_all
    have "\<exists>B. grow_stack ?A = Some B \<and> color_rep B (r(b := r b - 1)) st n \<and> length st < length (bcStack B) \<and> bcStackPtr B = of_nat (length st)"
    proof (cases "length (bcStack A) \<le> length st")
      case True
      have "length st \<le> length (bcStack A)" using a by blast
      with True have l: "length (bcStack A) = length st" by (rule le_antisym)
      have m: "bcStackMaxSize A = of_nat (length (bcStack A))" "array_size (length (bcStack A))" using a by blast+
      let ?n = "length st"
      let ?B = "?A\<lparr>bcStack := bcStack A @ replicate ?n 0, bcStackMaxSize := of_nat (?n + ?n)\<rparr>"
      have "doubled (bcStack ?A) (bcStackMaxSize ?A) = Some (bcStack A @ replicate ?n 0)" using s(1) by (simp add: doubled_def l)
      moreover have "bcStackMaxSize ?A * 2 = of_nat (?n + ?n)" using m(1) l by simp
      ultimately have g: "grow_stack ?A = Some ?B" using s l by (simp add: grow_stack_def)
      have "array_size (?n + ?n)" using array_size_double [of ?n] m(2) l k14 by (simp add: mult_2)
      then have "color_rep ?B (r(b := r b - 1)) st n" using rA l unfolding color_rep_def by simp
      moreover have "0 < ?n" using m(2) l by (auto simp: array_size_def)
      moreover have "bcStackPtr ?B = of_nat ?n" using a by simp
      ultimately show ?thesis using g l by (intro exI [of _ ?B]) simp
    next
      case False
      then show ?thesis using a rA s by (simp add: grow_stack_def)
    qed
    then obtain B where B: "grow_stack ?A = Some B" "color_rep B (r(b := r b - 1)) st n" "length st < length (bcStack B)" "bcStackPtr B = of_nat (length st)"
      by blast
    have "put16 (bcStack B) (bcStackPtr B) (of_nat b) = Some ((bcStack B)[length st := of_nat b])"
      using B(3,4) k14 sint16 [of "length st"] by (simp add: put16_def)
    then have "color_release (of_nat b) A = Some (True, B\<lparr>bcStack := (bcStack B)[length st := of_nat b], bcStackPtr := of_nat (Suc (length st))\<rparr>)"
      using rd wr True B(1,4) by (simp add: color_release_def Let_def)
    moreover have "take (Suc (length st)) ((bcStack B)[length st := of_nat b]) = List.map of_nat (rev (b # st))"
      using B(2,3) by (simp add: take_Suc_conv_app_nth color_rep_def)
    then have "color_rep (B\<lparr>bcStack := (bcStack B)[length st := of_nat b], bcStackPtr := of_nat (Suc (length st))\<rparr>) (r(b := r b - 1)) (b # st) n"
      using B(2,3) b(1,2) by (simp add: color_rep_def)
    ultimately show ?thesis using True by auto
  qed
qed


section \<open>Sequences of calls\<close>

text \<open>
  The calls of the allocator, for outputs \<open>(unit, output)\<close>. An output is allocated with the number of times it is released later;
  one that nobody reads keeps its buffer.
\<close>

type_synonym oid = "nat \<times> nat"

datatype color_op = OAlloc oid | ORelease oid

fun run_ops :: "(oid \<Rightarrow> i16) \<Rightarrow> color_op list \<Rightarrow> BufColorAllocator \<Rightarrow> (oid \<Rightarrow> i16) \<Rightarrow> (BufColorAllocator \<times> (oid \<Rightarrow> i16)) option" where
  "run_ops k [] A col = Some (A, col)"
| "run_ops k (OAlloc x # R) A col = do { (b, A) \<leftarrow> color_alloc (k x) A; run_ops k R A (col(x := b)) }"
| "run_ops k (ORelease x # R) A col = do {
     (ok, A) \<leftarrow> color_release (col x) A;
     if ok then run_ops k R A col else None }"

definition uses :: "color_op list \<Rightarrow> oid \<Rightarrow> nat" where
  "uses R x = length (List.filter ((=) (ORelease x)) R)"

definition alloc_count :: "color_op list \<Rightarrow> nat" where
  "alloc_count R = length (List.filter (\<lambda>p. \<exists>x. p = OAlloc x) R)"

lemma uses_simps [simp]: "uses [] x = 0" "uses (OAlloc y # R) x = uses R x" "uses (ORelease y # R) x = (if y = x then Suc (uses R x) else uses R x)"
  by (auto simp: uses_def)

lemma alloc_count_simps [simp]: "alloc_count [] = 0" "alloc_count (OAlloc y # R) = Suc (alloc_count R)" "alloc_count (ORelease y # R) = alloc_count R"
  by (auto simp: alloc_count_def)

lemma uses_append: "uses (R @ S) x = uses R x + uses S x"
  by (simp add: uses_def)

lemma uses_pos: "0 < uses R x \<longleftrightarrow> ORelease x \<in> set R"
  by (induction R) (auto simp: uses_def)

fun wf_ops :: "(oid \<Rightarrow> nat) \<Rightarrow> oid set \<Rightarrow> color_op list \<Rightarrow> bool" where
  "wf_ops tot D [] \<longleftrightarrow> True"
| "wf_ops tot D (OAlloc x # R) \<longleftrightarrow> x \<notin> D \<and> uses R x = tot x \<and> wf_ops tot (insert x D) R"
| "wf_ops tot D (ORelease x # R) \<longleftrightarrow> x \<in> D \<and> wf_ops tot D R"

text \<open>An output in use: it is still to be read, or nobody ever reads it. \<open>safe_ops\<close>: no allocation takes a buffer in use.\<close>

definition in_use :: "(oid \<Rightarrow> nat) \<Rightarrow> color_op list \<Rightarrow> oid \<Rightarrow> bool" where
  "in_use tot R x \<longleftrightarrow> ORelease x \<in> set R \<or> tot x = 0"

fun safe_ops :: "(oid \<Rightarrow> nat) \<Rightarrow> (oid \<Rightarrow> i16) \<Rightarrow> oid set \<Rightarrow> color_op list \<Rightarrow> bool" where
  "safe_ops tot col D [] \<longleftrightarrow> True"
| "safe_ops tot col D (OAlloc y # R) \<longleftrightarrow> (\<forall>x \<in> D. in_use tot R x \<longrightarrow> col x \<noteq> col y) \<and> safe_ops tot col (insert y D) R"
| "safe_ops tot col D (ORelease y # R) \<longleftrightarrow> safe_ops tot col D R"

definition ops_inv :: "(oid \<Rightarrow> nat) \<Rightarrow> oid set \<Rightarrow> color_op list \<Rightarrow> BufColorAllocator \<Rightarrow> (oid \<Rightarrow> i16) \<Rightarrow> (nat \<Rightarrow> i16) \<Rightarrow> nat list \<Rightarrow> nat \<Rightarrow> bool" where
  "ops_inv tot D R A col r st n \<longleftrightarrow> color_rep A r st n
     \<and> (\<forall>x \<in> D. in_use tot R x \<longrightarrow> (\<exists>b < n. col x = of_nat b \<and> b \<notin> set st \<and> r b = of_nat (uses R x)))
     \<and> (\<forall>x \<in> D. \<forall>y \<in> D. in_use tot R x \<longrightarrow> in_use tot R y \<longrightarrow> x \<noteq> y \<longrightarrow> col x \<noteq> col y)"

lemma alloc_step:
  assumes inv: "ops_inv tot D (OAlloc y # R) A col r st n" and y: "y \<notin> D" "uses R y = tot y" and n: "n < 2 ^ 14"
  shows "\<exists>b A' st' n'. color_alloc (of_nat (tot y)) A = Some (of_nat b, A') \<and> b < n' \<and> n \<le> n' \<and> n' \<le> Suc n
    \<and> (\<forall>x \<in> D. in_use tot R x \<longrightarrow> col x \<noteq> of_nat b) \<and> ops_inv tot (insert y D) R A' (col(y := of_nat b)) (r(b := of_nat (tot y))) st' n'"
proof -
  have rep: "color_rep A r st n" using inv by (simp add: ops_inv_def)
  have use: "in_use tot (OAlloc y # R) x = in_use tot R x" for x by (simp add: in_use_def)
  have old: "\<exists>b < n. col x = of_nat b \<and> b \<notin> set st \<and> r b = of_nat (uses R x)" if "x \<in> D" "in_use tot R x" for x
    using inv that use by (simp add: ops_inv_def)
  have inj: "col x \<noteq> col z" if "x \<in> D" "z \<in> D" "in_use tot R x" "in_use tot R z" "x \<noteq> z" for x z
    using inv that use by (simp add: ops_inv_def)
  obtain b A' st' n' where b: "color_alloc (of_nat (tot y)) A = Some (of_nat b, A')" "color_rep A' (r(b := of_nat (tot y))) st' n'"
    "b < n'" "n \<le> n'" "n' \<le> Suc n" "b \<notin> set st'" "set st' \<subseteq> set st" "b \<in> set st \<or> b = n"
  proof (cases st)
    case Nil
    then obtain A' where "color_alloc (of_nat (tot y)) A = Some (of_nat n, A')" "color_rep A' (r(n := of_nat (tot y))) [] (Suc n)"
      using color_alloc_fresh [of A r n "of_nat (tot y)"] rep n by blast
    then show ?thesis using that [of n A' "[]" "Suc n"] by simp
  next
    case (Cons b st')
    then obtain A' where "color_alloc (of_nat (tot y)) A = Some (of_nat b, A')" "color_rep A' (r(b := of_nat (tot y))) st' n"
      using color_alloc_free [of A r b st' n "of_nat (tot y)"] rep by blast
    then show ?thesis using that [of b A' st' n] color_repD(3,4) [OF rep] Cons by auto
  qed
  have b14: "b < 2 ^ 15" using b(3,5) n by simp
  have ne: "c \<noteq> b \<and> (of_nat c :: i16) \<noteq> of_nat b" if "c < n" "c \<notin> set st" for c
    using that b(8) n b14 of_nat16_eq [of c b] by auto
  have old': "\<exists>c < n'. col x = of_nat c \<and> c \<notin> set st' \<and> (r(b := of_nat (tot y))) c = of_nat (uses R x) \<and> col x \<noteq> of_nat b" if "x \<in> D" "in_use tot R x" for x
  proof -
    from old [OF that] obtain c where c: "c < n" "col x = of_nat c" "c \<notin> set st" "r c = of_nat (uses R x)" by blast
    then show ?thesis using ne [of c] b(4,7) by (intro exI [of _ c]) auto
  qed
  have "\<exists>c < n'. (col(y := of_nat b)) x = of_nat c \<and> c \<notin> set st' \<and> (r(b := of_nat (tot y))) c = of_nat (uses R x)"
    if "x \<in> insert y D" "in_use tot R x" for x
  proof (cases "x = y")
    case True
    then show ?thesis using b(3,6) y(2) by (intro exI [of _ b]) simp
  next
    case False
    then show ?thesis using old' [of x] that by auto
  qed
  moreover have "(col(y := of_nat b)) x \<noteq> (col(y := of_nat b)) z"
    if "x \<in> insert y D" "z \<in> insert y D" "in_use tot R x" "in_use tot R z" "x \<noteq> z" for x z
    using that old' [of x] old' [of z] inj [of x z] y(1) by auto
  ultimately have "ops_inv tot (insert y D) R A' (col(y := of_nat b)) (r(b := of_nat (tot y))) st' n'"
    unfolding ops_inv_def using b(2) by blast
  then show ?thesis using b(1,3-5) old' by blast
qed

lemma release_step:
  assumes inv: "ops_inv tot D (ORelease y # R) A col r st n" and y: "y \<in> D" and small: "uses (ORelease y # R) y < 2 ^ 15"
    and tot: "uses (ORelease y # R) y \<le> tot y"
  shows "\<exists>A' r' st'. color_release (col y) A = Some (True, A') \<and> ops_inv tot D R A' col r' st' n"
proof -
  have rep: "color_rep A r st n" using inv by (simp add: ops_inv_def)
  have t0: "tot y \<noteq> 0" using tot by simp
  have old: "\<exists>b < n. col x = of_nat b \<and> b \<notin> set st \<and> r b = of_nat (uses (ORelease y # R) x)" if "x \<in> D" "in_use tot (ORelease y # R) x" for x
    using inv that unfolding ops_inv_def by blast
  have inj: "col x \<noteq> col z" if "x \<in> D" "z \<in> D" "in_use tot (ORelease y # R) x" "in_use tot (ORelease y # R) z" "x \<noteq> z" for x z
    using inv that unfolding ops_inv_def by blast
  have use: "in_use tot (ORelease y # R) x" if "in_use tot R x" for x using that by (auto simp: in_use_def)
  obtain b where b: "b < n" "col y = of_nat b" "b \<notin> set st" "r b = of_nat (Suc (uses R y))"
    using old [OF y] by (auto simp: in_use_def)
  have u: "uses R y < 2 ^ 15 - 1" using small by simp
  have nz: "r b \<noteq> 0" unfolding b(4) using of_nat16_eq [of "Suc (uses R y)" 0] u by (simp del: of_nat_Suc)
  have "(1 :: i16) = of_nat (Suc 0)" by simp
  then have one: "r b = 1 \<longleftrightarrow> uses R y = 0" unfolding b(4) using of_nat16_eq [of "Suc (uses R y)" "Suc 0"] u by (simp only:) (simp del: of_nat_Suc)
  obtain A' where A': "color_release (of_nat b) A = Some (True, A')" "color_rep A' (r(b := r b - 1)) (if r b = 1 then b # st else st) n"
    using color_release_rep [OF rep b(1,3) nz] by blast
  have "\<exists>c < n. col x = of_nat c \<and> c \<notin> set (if r b = 1 then b # st else st) \<and> (r(b := r b - 1)) c = of_nat (uses R x)"
    if x: "x \<in> D" "in_use tot R x" for x
  proof (cases "x = y")
    case True
    then have "uses R y \<noteq> 0" using x(2) t0 uses_pos [of R y] by (simp add: in_use_def)
    then show ?thesis using True b one by (intro exI [of _ b]) simp
  next
    case False
    obtain c where c: "c < n" "col x = of_nat c" "c \<notin> set st" "r c = of_nat (uses R x)" using old [OF x(1) use [OF x(2)]] False by auto
    have "col x \<noteq> col y" using inj [OF x(1) y use [OF x(2)] _ False] by (simp add: in_use_def)
    then have "c \<noteq> b" using c(2) b(2) by auto
    then show ?thesis using c by (intro exI [of _ c]) auto
  qed
  moreover have "col x \<noteq> col z" if "x \<in> D" "z \<in> D" "in_use tot R x" "in_use tot R z" "x \<noteq> z" for x z
    using inj [OF that(1,2) use [OF that(3)] use [OF that(4)] that(5)] .
  ultimately have "ops_inv tot D R A' col (r(b := r b - 1)) (if r b = 1 then b # st else st) n"
    unfolding ops_inv_def using A'(2) by blast
  then show ?thesis using A'(1) b(2) by auto
qed

lemma run_ops_ok:
  "wf_ops tot D R \<Longrightarrow> ops_inv tot D R A col r st n \<Longrightarrow> n + alloc_count R \<le> 2 ^ 14 \<Longrightarrow> \<forall>x. tot x < 2 ^ 15 \<Longrightarrow> \<forall>x \<in> D. uses R x \<le> tot x \<Longrightarrow>
   \<exists>A' col' r' st' n'. run_ops (\<lambda>x. of_nat (tot x)) R A col = Some (A', col') \<and> (\<forall>x. OAlloc x \<notin> set R \<longrightarrow> col' x = col x)
     \<and> safe_ops tot col' D R \<and> color_rep A' r' st' n' \<and> n \<le> n' \<and> n' \<le> n + alloc_count R \<and> (\<forall>x. OAlloc x \<in> set R \<longrightarrow> (\<exists>b < n'. col' x = of_nat b))"
proof (induction R arbitrary: D A col r st n)
  case Nil
  then show ?case by (auto simp: ops_inv_def)
next
  case (Cons p R)
  show ?case
  proof (cases p)
    case (OAlloc y)
    have y: "y \<notin> D" "uses R y = tot y" "wf_ops tot (insert y D) R" using Cons.prems(1) OAlloc by simp_all
    have "n < 2 ^ 14" using Cons.prems(3) OAlloc by simp
    from alloc_step [OF Cons.prems(2) [unfolded OAlloc] y(1,2) this]
    obtain b A1 st1 n1 where b: "color_alloc (of_nat (tot y)) A = Some (of_nat b, A1)" "b < n1" "n \<le> n1" "n1 \<le> Suc n"
      "\<forall>x \<in> D. in_use tot R x \<longrightarrow> col x \<noteq> of_nat b" "ops_inv tot (insert y D) R A1 (col(y := of_nat b)) (r(b := of_nat (tot y))) st1 n1" by blast
    have "n1 + alloc_count R \<le> 2 ^ 14" using Cons.prems(3) OAlloc b(4) by simp
    moreover have "\<forall>x \<in> insert y D. uses R x \<le> tot x" using Cons.prems(5) OAlloc y(2) by simp
    ultimately obtain A' col' r' st' n' where IH: "run_ops (\<lambda>x. of_nat (tot x)) R A1 (col(y := of_nat b)) = Some (A', col')"
      "\<forall>x. OAlloc x \<notin> set R \<longrightarrow> col' x = (col(y := of_nat b)) x" "safe_ops tot col' (insert y D) R" "color_rep A' r' st' n'" "n1 \<le> n'" "n' \<le> n1 + alloc_count R"
      "\<forall>x. OAlloc x \<in> set R \<longrightarrow> (\<exists>b < n'. col' x = of_nat b)"
      using Cons.IH [OF y(3) b(6) _ Cons.prems(4)] by blast
    have notin: "OAlloc x \<notin> set R" if "x \<in> insert y D" for x
    proof -
      have "wf_ops tot E R \<Longrightarrow> x \<in> E \<Longrightarrow> OAlloc x \<notin> set R" for E by (induction tot E R rule: wf_ops.induct) auto
      then show ?thesis using y(3) that by blast
    qed
    have cy: "col' y = of_nat b" using spec [OF IH(2), of y] notin [of y] by simp
    have cD: "col' x = col x" if "x \<in> D" for x
    proof -
      have "OAlloc x \<notin> set R" "x \<noteq> y" using notin [of x] that y(1) by auto
      then show ?thesis using spec [OF IH(2), of x] by simp
    qed
    have safe: "safe_ops tot col' D (p # R)" using b(5) cy cD IH(3) OAlloc by simp
    have run: "run_ops (\<lambda>x. of_nat (tot x)) (p # R) A col = Some (A', col')" using b(1) IH(1) OAlloc by simp
    have keep: "\<forall>x. OAlloc x \<notin> set (p # R) \<longrightarrow> col' x = col x"
    proof (intro allI impI)
      fix x assume "OAlloc x \<notin> set (p # R)"
      then show "col' x = col x" using spec [OF IH(2), of x] OAlloc by auto
    qed
    have range: "\<forall>x. OAlloc x \<in> set (p # R) \<longrightarrow> (\<exists>b < n'. col' x = of_nat b)"
    proof (intro allI impI)
      fix x assume "OAlloc x \<in> set (p # R)"
      then have "x = y \<or> OAlloc x \<in> set R" using OAlloc by auto
      moreover have "b < n'" using b(2) IH(5) by simp
      ultimately show "\<exists>b < n'. col' x = of_nat b" using cy spec [OF IH(7), of x] by blast
    qed
    have "n \<le> n'" "n' \<le> n + alloc_count (p # R)" using b(3,4) IH(5,6) OAlloc by simp_all
    then show ?thesis using run keep safe range IH(4) by blast
  next
    case (ORelease y)
    have y: "y \<in> D" "wf_ops tot D R" using Cons.prems(1) ORelease by simp_all
    have u: "uses (ORelease y # R) y \<le> tot y" using Cons.prems(5) y(1) ORelease by blast
    then have "uses (ORelease y # R) y < 2 ^ 15" using Cons.prems(4) le_less_trans by blast
    from release_step [OF Cons.prems(2) [unfolded ORelease] y(1) this u]
    obtain A1 r1 st1 where A1: "color_release (col y) A = Some (True, A1)" "ops_inv tot D R A1 col r1 st1 n" by blast
    have "\<forall>x \<in> D. uses R x \<le> tot x" using Cons.prems(5) ORelease by (fastforce split: if_splits)
    then show ?thesis using Cons.IH [OF y(2) A1(2)] Cons.prems(3,4) ORelease A1(1) by simp
  qed
qed

end
