(* ===== verification/SC_Wires.thy ===== *)
theory SC_Wires
  imports SC_Wiring
begin

text \<open>
  What coloring does to the units of a definition: the loops of \<open>DoBufferColoring\<close> make the calls of the allocator in the
  order of the units, so that no unit finds its inputs overwritten, and computing in shared buffers is computing in separate ones.
\<close>

section \<open>Views of the units\<close>

text \<open>Outputs are named by the unit and the number of the output.\<close>

definition outp :: "FileUnitSpec list \<Rightarrow> oid \<Rightarrow> OutputSpec" where
  "outp us x = fuOutputSpec (us ! fst x) ! snd x"

definition inp :: "FileUnitSpec list \<Rightarrow> nat \<Rightarrow> nat \<Rightarrow> InputSpec" where
  "inp us j i = fuInputSpec (us ! j) ! i"

definition is_out :: "FileUnitSpec list \<Rightarrow> oid \<Rightarrow> bool" where
  "is_out us x \<longleftrightarrow> fst x < length us \<and> snd x < length (fuOutputSpec (us ! fst x))"

definition is_full :: "FileUnitSpec list \<Rightarrow> oid \<Rightarrow> bool" where
  "is_full us x \<longleftrightarrow> is_out us x \<and> osCalcRate (outp us x) = full_rate"

definition from_unit :: "InputSpec \<Rightarrow> bool" where
  "from_unit a \<longleftrightarrow> 0 \<le> sint (isFromUnitIndex a)"

definition src :: "InputSpec \<Rightarrow> oid" where
  "src a = (nat (sint (isFromUnitIndex a)), nat (sint (isFromOutputIndex a)))"

text \<open>What coloring leaves alone.\<close>

definition skel :: "FileUnitSpec \<Rightarrow> UnitDef \<times> i16 \<times> (i16 \<times> i16) list \<times> i16 list" where
  "skel u = (fuUnitDef u, fuCalcRate u, List.map (\<lambda>a. (isFromUnitIndex a, isFromOutputIndex a)) (fuInputSpec u), List.map osCalcRate (fuOutputSpec u))"

definition same_shape :: "FileUnitSpec list \<Rightarrow> FileUnitSpec list \<Rightarrow> bool" where
  "same_shape us vs \<longleftrightarrow> List.map skel us = List.map skel vs"

text \<open>
  Inputs come from outputs of earlier units. The code relies on it: an input from the unit itself or a later one would be
  looked up in the allocator at the index \<open>-1\<close>.
\<close>

definition wired :: "FileUnitSpec list \<Rightarrow> bool" where
  "wired us \<longleftrightarrow> (\<forall>j < length us. \<forall>i < length (fuInputSpec (us ! j)). from_unit (inp us j i) \<longrightarrow>
     0 \<le> sint (isFromOutputIndex (inp us j i)) \<and> is_out us (src (inp us j i)) \<and> fst (src (inp us j i)) < j)"

lemma same_shape_refl [simp]: "same_shape us us"
  by (simp add: same_shape_def)

lemma same_shape_trans: "same_shape us vs \<Longrightarrow> same_shape vs ws \<Longrightarrow> same_shape us ws"
  by (simp add: same_shape_def)

lemma same_shapeD:
  assumes "same_shape us vs"
  shows "length us = length vs"
    and "j < length us \<Longrightarrow> length (fuInputSpec (us ! j)) = length (fuInputSpec (vs ! j))"
    and "j < length us \<Longrightarrow> length (fuOutputSpec (us ! j)) = length (fuOutputSpec (vs ! j))"
    and "j < length us \<Longrightarrow> cant_alias (us ! j) = cant_alias (vs ! j)"
    and "j < length us \<Longrightarrow> i < length (fuInputSpec (us ! j)) \<Longrightarrow> from_unit (inp us j i) = from_unit (inp vs j i)"
    and "j < length us \<Longrightarrow> i < length (fuInputSpec (us ! j)) \<Longrightarrow> src (inp us j i) = src (inp vs j i)"
    and "j < length us \<Longrightarrow> i < length (fuInputSpec (us ! j)) \<Longrightarrow> isFromOutputIndex (inp us j i) = isFromOutputIndex (inp vs j i)"
    and "is_out us x = is_out vs x" and "is_full us x = is_full vs x"
proof -
  show len: "length us = length vs" using assms by (auto simp: same_shape_def dest: map_eq_imp_length_eq)
  have sk: "skel (us ! j) = skel (vs ! j)" if "j < length us" for j
    using assms that len unfolding same_shape_def by (metis nth_map)
  show li: "j < length us \<Longrightarrow> length (fuInputSpec (us ! j)) = length (fuInputSpec (vs ! j))" for j
    using sk [of j] by (auto simp: skel_def dest: map_eq_imp_length_eq)
  show lo: "j < length us \<Longrightarrow> length (fuOutputSpec (us ! j)) = length (fuOutputSpec (vs ! j))" for j
    using sk [of j] by (auto simp: skel_def dest: map_eq_imp_length_eq)
  show "j < length us \<Longrightarrow> cant_alias (us ! j) = cant_alias (vs ! j)" using sk [of j] by (simp add: skel_def cant_alias_def)
  have io: "isFromUnitIndex (inp us j i) = isFromUnitIndex (inp vs j i) \<and> isFromOutputIndex (inp us j i) = isFromOutputIndex (inp vs j i)"
    if "j < length us" "i < length (fuInputSpec (us ! j))" for j i
  proof -
    have "List.map (\<lambda>a. (isFromUnitIndex a, isFromOutputIndex a)) (fuInputSpec (us ! j)) ! i
      = List.map (\<lambda>a. (isFromUnitIndex a, isFromOutputIndex a)) (fuInputSpec (vs ! j)) ! i" using sk [OF that(1)] by (simp add: skel_def)
    then show ?thesis using that li [OF that(1)] by (simp add: inp_def)
  qed
  show "j < length us \<Longrightarrow> i < length (fuInputSpec (us ! j)) \<Longrightarrow> from_unit (inp us j i) = from_unit (inp vs j i)"
    "j < length us \<Longrightarrow> i < length (fuInputSpec (us ! j)) \<Longrightarrow> src (inp us j i) = src (inp vs j i)"
    "j < length us \<Longrightarrow> i < length (fuInputSpec (us ! j)) \<Longrightarrow> isFromOutputIndex (inp us j i) = isFromOutputIndex (inp vs j i)"
    using io by (simp_all add: from_unit_def src_def)
  show o: "is_out us x = is_out vs x" using lo len by (auto simp: is_out_def)
  have "osCalcRate (outp us x) = osCalcRate (outp vs x)" if "is_out us x"
  proof -
    have "List.map osCalcRate (fuOutputSpec (us ! fst x)) ! snd x = List.map osCalcRate (fuOutputSpec (vs ! fst x)) ! snd x"
      using sk [of "fst x"] that by (simp add: skel_def is_out_def)
    then show ?thesis using that o by (simp add: outp_def is_out_def)
  qed
  then show "is_full us x = is_full vs x" using o by (auto simp: is_full_def)
qed

lemma same_shape_wired: "same_shape us vs \<Longrightarrow> wired us \<Longrightarrow> wired vs"
  using same_shapeD [of us vs] unfolding wired_def by (metis (no_types, lifting))

text \<open>Changing an input or an output.\<close>

lemma upd_input_views:
  assumes "j < length us" "i < length (fuInputSpec (us ! j))"
  shows "outp (upd_input j i f us) x = outp us x"
    and "inp (upd_input j i f us) j' i' = (if j' = j \<and> i' = i then f (inp us j i) else inp us j' i')"
  using assms by (auto simp: upd_input_def outp_def inp_def nth_list_update)

lemma upd_output_views:
  assumes "is_out us (j, i)"
  shows "outp (upd_output j i f us) x = (if x = (j, i) then f (outp us x) else outp us x)"
    and "inp (upd_output j i f us) j' i' = inp us j' i'"
  using assms by (cases x; auto simp: upd_output_def outp_def inp_def is_out_def nth_list_update)+

lemma upd_input_shape:
  assumes "\<And>a. isFromUnitIndex (f a) = isFromUnitIndex a" "\<And>a. isFromOutputIndex (f a) = isFromOutputIndex a"
    "j < length us" "i < length (fuInputSpec (us ! j))"
  shows "same_shape us (upd_input j i f us)"
proof -
  have "skel ((us ! j)\<lparr>fuInputSpec := (fuInputSpec (us ! j))[i := f (fuInputSpec (us ! j) ! i)]\<rparr>) = skel (us ! j)"
    using assms by (simp add: skel_def map_update) (metis (no_types, lifting) list_update_id nth_map)
  then show ?thesis using assms(3) by (simp add: same_shape_def upd_input_def map_update) (metis list_update_id nth_map)
qed

lemma upd_output_shape:
  assumes "\<And>a. osCalcRate (f a) = osCalcRate a" "is_out us (j, i)"
  shows "same_shape us (upd_output j i f us)"
proof -
  have "skel ((us ! j)\<lparr>fuOutputSpec := (fuOutputSpec (us ! j))[i := f (fuOutputSpec (us ! j) ! i)]\<rparr>) = skel (us ! j)"
    using assms by (simp add: skel_def map_update is_out_def) (metis (no_types, lifting) list_update_id nth_map)
  then show ?thesis using assms(2) by (simp add: same_shape_def upd_output_def map_update is_out_def) (metis list_update_id nth_map)
qed

lemma output_of_wired:
  assumes "wired us" "j < length us" "i < length (fuInputSpec (us ! j))" "from_unit (inp us j i)"
  shows "output_of us (inp us j i) = Some (outp us (src (inp us j i)))"
proof -
  have "0 \<le> sint (isFromOutputIndex (inp us j i))" "is_out us (src (inp us j i))" "0 \<le> sint (isFromUnitIndex (inp us j i))"
    using assms by (auto simp: wired_def from_unit_def)
  then show ?thesis by (simp add: output_of_def at16_def src_def is_out_def outp_def)
qed


section \<open>The calls of the loops\<close>

definition rel_ops :: "FileUnitSpec list \<Rightarrow> nat \<Rightarrow> nat list \<Rightarrow> color_op list" where
  "rel_ops us j is = concat (List.map (\<lambda>i. if from_unit (inp us j i) \<and> is_full us (src (inp us j i)) then [ORelease (src (inp us j i))] else []) is)"

definition alloc_ops :: "FileUnitSpec list \<Rightarrow> nat \<Rightarrow> nat list \<Rightarrow> color_op list" where
  "alloc_ops us j is = concat (List.map (\<lambda>i. if is_full us (j, i) then [OAlloc (j, i)] else []) is)"

definition unit_ops :: "FileUnitSpec list \<Rightarrow> nat \<Rightarrow> color_op list" where
  "unit_ops us j =
     (let rel = rel_ops us j (rev [0..<length (fuInputSpec (us ! j))]); al = alloc_ops us j [0..<length (fuOutputSpec (us ! j))]
      in if cant_alias (us ! j) then al @ rel else rel @ al)"

definition all_ops :: "FileUnitSpec list \<Rightarrow> nat list \<Rightarrow> color_op list" where
  "all_ops us js = concat (List.map (unit_ops us) js)"

lemma ops_simps [simp]:
  "rel_ops us j [] = []" "alloc_ops us j [] = []" "all_ops us [] = []" "all_ops us (j # js) = unit_ops us j @ all_ops us js"
  "rel_ops us j (i # is) = (if from_unit (inp us j i) \<and> is_full us (src (inp us j i)) then ORelease (src (inp us j i)) # rel_ops us j is else rel_ops us j is)"
  "alloc_ops us j (i # is) = (if is_full us (j, i) then OAlloc (j, i) # alloc_ops us j is else alloc_ops us j is)"
  by (simp_all add: rel_ops_def alloc_ops_def all_ops_def)

lemma rel_ops_same: "same_shape us vs \<Longrightarrow> j < length us \<Longrightarrow> set is \<subseteq> {..<length (fuInputSpec (us ! j))} \<Longrightarrow> rel_ops us j is = rel_ops vs j is"
  by (induction "is") (simp_all add: same_shapeD)

lemma alloc_ops_same: "same_shape us vs \<Longrightarrow> alloc_ops us j is = alloc_ops vs j is"
  by (induction "is") (simp_all add: same_shapeD)

lemma unit_ops_same: "same_shape us vs \<Longrightarrow> j < length us \<Longrightarrow> unit_ops us j = unit_ops vs j"
  using rel_ops_same [of us vs j "rev [0..<length (fuInputSpec (us ! j))]"] alloc_ops_same [of us vs j]
  by (simp add: unit_ops_def same_shapeD(2,3,4) [of us vs j] atLeast0LessThan)

section \<open>Counting\<close>

definition consumers :: "FileUnitSpec list \<Rightarrow> oid \<Rightarrow> i16" where
  "consumers us x = osNumConsumers (outp us x)"

definition readers :: "FileUnitSpec list \<Rightarrow> nat \<Rightarrow> nat list \<Rightarrow> oid \<Rightarrow> nat" where
  "readers us j is x = length (List.filter (\<lambda>i. from_unit (inp us j i) \<and> src (inp us j i) = x) is)"

lemma readers_same: "same_shape us vs \<Longrightarrow> j < length us \<Longrightarrow> set is \<subseteq> {..<length (fuInputSpec (us ! j))} \<Longrightarrow> readers us j is x = readers vs j is x"
  by (induction "is") (simp_all add: readers_def same_shapeD)

lemma count_inputs_ok:
  "wired us \<Longrightarrow> j < length us \<Longrightarrow> set is \<subseteq> {..<length (fuInputSpec (us ! j))} \<Longrightarrow>
   \<exists>vs. count_inputs is j us = Some vs \<and> same_shape us vs \<and> (\<forall>x. consumers vs x = consumers us x + of_nat (readers us j is x))"
proof (induction "is" arbitrary: us)
  case (Cons i "is")
  have i: "i < length (fuInputSpec (us ! j))" using Cons.prems(3) by simp
  show ?case
  proof (cases "from_unit (inp us j i)")
    case True
    let ?x = "src (inp us j i)"
    let ?us = "upd_output (fst ?x) (snd ?x) (\<lambda>out. out\<lparr>osNumConsumers := osNumConsumers out + 1\<rparr>) us"
    have o: "is_out us (fst ?x, snd ?x)" using Cons.prems i True by (simp add: wired_def)
    have s: "same_shape us ?us" by (rule upd_output_shape [OF _ o]) simp
    have "wired ?us" "j < length ?us" "set is \<subseteq> {..<length (fuInputSpec (?us ! j))}"
      using same_shape_wired [OF s] Cons.prems same_shapeD(1,2) [OF s] by auto
    from Cons.IH [OF this] obtain vs where vs: "count_inputs is j ?us = Some vs" "same_shape ?us vs"
      "\<forall>x. consumers vs x = consumers ?us x + of_nat (readers ?us j is x)" by blast
    have "consumers ?us x = consumers us x + (if x = ?x then 1 else 0)" for x
      using upd_output_views(1) [OF o] by (simp add: consumers_def)
    moreover have "readers ?us j is x = readers us j is x" for x using readers_same [OF s] Cons.prems by simp
    ultimately have "\<forall>x. consumers vs x = consumers us x + of_nat (readers us j (i # is) x)"
      using vs(3) True by (auto simp: readers_def)
    moreover have "count_inputs (i # is) j us = Some vs"
      using vs(1) True output_of_wired [OF Cons.prems(1,2) i True] by (simp add: from_unit_def inp_def src_def Let_def)
    ultimately show ?thesis using same_shape_trans [OF s vs(2)] by blast
  next
    case False
    then show ?thesis using Cons by (simp add: from_unit_def inp_def readers_def)
  qed
qed (simp add: readers_def)

definition total_readers :: "FileUnitSpec list \<Rightarrow> nat list \<Rightarrow> oid \<Rightarrow> nat" where
  "total_readers us js x = sum_list (List.map (\<lambda>j. readers us j [0..<length (fuInputSpec (us ! j))] x) js)"

lemma total_readers_same: "same_shape us vs \<Longrightarrow> set js \<subseteq> {..<length us} \<Longrightarrow> total_readers us js x = total_readers vs js x"
proof (induction js)
  case (Cons j js)
  have "readers us j [0..<length (fuInputSpec (us ! j))] x = readers vs j [0..<length (fuInputSpec (vs ! j))] x"
    using readers_same [OF Cons.prems(1), of j "[0..<length (fuInputSpec (us ! j))]" x] same_shapeD(2) [OF Cons.prems(1), of j] Cons.prems(2)
    by (simp add: subset_eq)
  then show ?case using Cons by (simp add: total_readers_def)
qed (simp add: total_readers_def)

lemma count_consumers_ok:
  "wired us \<Longrightarrow> set js \<subseteq> {..<length us} \<Longrightarrow>
   \<exists>vs. count_consumers js us = Some vs \<and> same_shape us vs \<and> (\<forall>x. consumers vs x = consumers us x + of_nat (total_readers us js x))"
proof (induction js arbitrary: us)
  case (Cons j js)
  obtain vs where vs: "count_inputs [0..<length (fuInputSpec (us ! j))] j us = Some vs" "same_shape us vs"
    "\<forall>x. consumers vs x = consumers us x + of_nat (readers us j [0..<length (fuInputSpec (us ! j))] x)"
    using count_inputs_ok [of us j "[0..<length (fuInputSpec (us ! j))]"] Cons.prems by (auto simp: subset_eq)
  have "wired vs" "set js \<subseteq> {..<length vs}" using same_shape_wired [OF vs(2)] same_shapeD(1) [OF vs(2)] Cons.prems by auto
  from Cons.IH [OF this] obtain ws where ws: "count_consumers js vs = Some ws" "same_shape vs ws"
    "\<forall>x. consumers ws x = consumers vs x + of_nat (total_readers vs js x)" by blast
  have "total_readers vs js x = total_readers us js x" for x using total_readers_same [OF vs(2)] Cons.prems(2) by simp
  then have "\<forall>x. consumers ws x = consumers us x + of_nat (total_readers us (j # js) x)"
    using ws(3) vs(3) by (simp add: total_readers_def)
  then show ?case using vs(1) ws(1) same_shape_trans [OF vs(2) ws(2)] by simp
qed (simp add: total_readers_def)

section \<open>Releasing and allocating\<close>

definition bufs :: "FileUnitSpec list \<Rightarrow> oid \<Rightarrow> i16" where
  "bufs us x = osBufferIndex (outp us x)"

definition owire :: "FileUnitSpec list \<Rightarrow> oid \<Rightarrow> i16" where
  "owire us x = osWireIndex (outp us x)"

definition iwire :: "FileUnitSpec list \<Rightarrow> nat \<Rightarrow> nat \<Rightarrow> i16" where
  "iwire us j i = isWireIndex (inp us j i)"

definition wire_of_input :: "FileUnitSpec list \<Rightarrow> nat \<Rightarrow> nat \<Rightarrow> i16" where
  "wire_of_input us j i = (if from_unit (inp us j i) then owire us (src (inp us j i)) else isFromOutputIndex (inp us j i))"

lemma release_sim:
  "wired us \<Longrightarrow> j < length us \<Longrightarrow> set is \<subseteq> {..<length (fuInputSpec (us ! j))} \<Longrightarrow>
   run_ops k (rel_ops us j is @ S) A (bufs us) = Some res \<Longrightarrow>
   \<exists>vs B. ReleaseInputBuffers is j us A = Some (Inr (vs, B)) \<and> run_ops k S B (bufs vs) = Some res \<and> same_shape us vs \<and> outp vs = outp us
     \<and> (\<forall>j' i'. iwire vs j' i' = (if j' = j \<and> i' \<in> set is then wire_of_input us j i' else iwire us j' i'))"
proof (induction "is" arbitrary: us A)
  case (Cons i "is")
  have i: "i < length (fuInputSpec (us ! j))" using Cons.prems(3) by simp
  let ?v = "wire_of_input us j i"
  let ?us = "upd_input j i (\<lambda>inp. inp\<lparr>isWireIndex := ?v\<rparr>) us"
  have s: "same_shape us ?us" by (rule upd_input_shape [OF _ _ Cons.prems(2) i]) simp_all
  have o: "outp ?us = outp us" using upd_input_views(1) [OF Cons.prems(2) i] by blast
  then have b: "bufs ?us = bufs us" "owire ?us = owire us" by (simp_all add: bufs_def owire_def fun_eq_iff)
  have is': "set is \<subseteq> {..<length (fuInputSpec (?us ! j))}" "wired ?us" "j < length ?us"
    using same_shape_wired [OF s] same_shapeD(1,2) [OF s] Cons.prems by auto
  have wi: "wire_of_input ?us j i' = wire_of_input us j i'" for i'
    using b(2) upd_input_views(2) [OF Cons.prems(2) i] by (simp add: wire_of_input_def from_unit_def src_def)
  have iw: "iwire ?us j' i' = (if j' = j \<and> i' = i then ?v else iwire us j' i')" for j' i'
    using upd_input_views(2) [OF Cons.prems(2) i] by (simp add: iwire_def)
  have rec: "\<exists>vs B. ReleaseInputBuffers is j ?us A' = Some (Inr (vs, B)) \<and> run_ops k S B (bufs vs) = Some res \<and> same_shape us vs \<and> outp vs = outp us
     \<and> (\<forall>j' i'. iwire vs j' i' = (if j' = j \<and> i' \<in> set (i # is) then wire_of_input us j i' else iwire us j' i'))"
    if "run_ops k (rel_ops us j is @ S) A' (bufs us) = Some res" for A'
  proof -
    have "run_ops k (rel_ops ?us j is @ S) A' (bufs ?us) = Some res"
      using that rel_ops_same [OF s Cons.prems(2)] Cons.prems(3) b(1) by simp
    from Cons.IH [OF is'(2,3,1) this] show ?thesis using s o wi iw same_shape_trans [OF s] by (auto split: if_splits)
  qed
  show ?case
  proof (cases "from_unit (inp us j i)")
    case True
    note out = output_of_wired [OF Cons.prems(1,2) i True]
    have "is_out us (src (inp us j i))" using Cons.prems(1,2) i True by (simp add: wired_def)
    then have full: "osCalcRate (outp us (src (inp us j i))) = full_rate \<longleftrightarrow> is_full us (src (inp us j i))" by (simp add: is_full_def)
    have v: "osWireIndex (outp us (src (inp us j i))) = ?v" using True by (simp add: wire_of_input_def owire_def)
    show ?thesis
    proof (cases "is_full us (src (inp us j i))")
      case f: True
      then obtain A' where "color_release (bufs us (src (inp us j i))) A = Some (True, A')" "run_ops k (rel_ops us j is @ S) A' (bufs us) = Some res"
        using Cons.prems(4) True by (auto simp: bind_eq_Some_conv split: if_splits)
      then show ?thesis using rec [of A'] True f out full v by (simp add: inp_def from_unit_def bufs_def [of us] Let_def)
    next
      case f: False
      then show ?thesis using rec [of A] Cons.prems(4) True out full v by (simp add: inp_def from_unit_def Let_def)
    qed
  next
    case False
    have "upd_input j i (\<lambda>inp. inp\<lparr>isWireIndex := isFromOutputIndex inp\<rparr>) us = ?us"
      using False by (simp add: upd_input_def wire_of_input_def inp_def)
    then show ?thesis using rec [of A] Cons.prems(4) False by (simp add: inp_def from_unit_def Let_def)
  qed
qed auto

lemma alloc_sim:
  "j < length us \<Longrightarrow> a + length is = length (fuOutputSpec (us ! j)) \<Longrightarrow> is = [a..<length (fuOutputSpec (us ! j))] \<Longrightarrow>
   run_ops (consumers us) (alloc_ops us j is @ S) A (bufs us) = Some res \<Longrightarrow>
   \<exists>vs B. AllocOutputBuffers is j us A ctr = Some (vs, B, ctr + of_nat (length is)) \<and> run_ops (consumers vs) S B (bufs vs) = Some res \<and> same_shape us vs
     \<and> inp vs = inp us \<and> consumers vs = consumers us
     \<and> (\<forall>x. owire vs x = (if fst x = j \<and> snd x \<in> set is then ucast (ctr + of_nat (snd x - a)) else owire us x))"
proof (induction "is" arbitrary: us A a ctr)
  case (Cons i "is")
  have "a < length (fuOutputSpec (us ! j)) \<and> a = i \<and> [Suc a..<length (fuOutputSpec (us ! j))] = is"
    using upt_eq_Cons_conv [THEN iffD1, OF Cons.prems(3) [symmetric]] unfolding Suc_eq_plus1 .
  then have i: "i = a" "is = [Suc a..<length (fuOutputSpec (us ! j))]" "a < length (fuOutputSpec (us ! j))" by blast+
  have o: "is_out us (j, i)" using i Cons.prems(1) by (simp add: is_out_def)
  let ?us = "upd_output j i (\<lambda>out. out\<lparr>osWireIndex := ucast ctr\<rparr>) us"
  have s: "same_shape us ?us" by (rule upd_output_shape [OF _ o]) simp
  have v: "outp ?us x = (if x = (j, i) then (outp us x)\<lparr>osWireIndex := ucast ctr\<rparr> else outp us x)" for x by (rule upd_output_views(1) [OF o])
  have v': "consumers ?us = consumers us" "bufs ?us = bufs us" "inp ?us = inp us" "owire ?us = (owire us)((j, i) := ucast ctr)"
    using v upd_output_views(2) [OF o] by (auto simp: consumers_def bufs_def owire_def fun_eq_iff)
  show ?case
  proof (cases "is_full us (j, i)")
    case True
    obtain b A' where b: "color_alloc (consumers us (j, i)) A = Some (b, A')"
      "run_ops (consumers us) (alloc_ops us j is @ S) A' ((bufs us)((j, i) := b)) = Some res"
      using Cons.prems(4) True by (auto simp: bind_eq_Some_conv split: prod.splits)
    let ?vs = "upd_output j i (\<lambda>out. out\<lparr>osBufferIndex := b\<rparr>) ?us"
    have o': "is_out ?us (j, i)" using o same_shapeD(8) [OF s] by simp
    have s': "same_shape ?us ?vs" by (rule upd_output_shape [OF _ o']) simp
    note ss = same_shape_trans [OF s s']
    have w: "outp ?vs x = (if x = (j, i) then (outp ?us x)\<lparr>osBufferIndex := b\<rparr> else outp ?us x)" for x by (rule upd_output_views(1) [OF o'])
    have w': "consumers ?vs = consumers us" "bufs ?vs = (bufs us)((j, i) := b)" "inp ?vs = inp us" "owire ?vs = (owire us)((j, i) := ucast ctr)"
      using w v' upd_output_views(2) [OF o'] by (auto simp: consumers_def bufs_def owire_def fun_eq_iff)
    have len: "length (fuOutputSpec (?vs ! j)) = length (fuOutputSpec (us ! j))" "j < length ?vs"
      using same_shapeD(1,3) [OF ss] Cons.prems(1) by simp_all
    have "Suc a + length is = length (fuOutputSpec (?vs ! j))" "is = [Suc a..<length (fuOutputSpec (?vs ! j))]" using i len by simp_all
    moreover have "run_ops (consumers ?vs) (alloc_ops ?vs j is @ S) A' (bufs ?vs) = Some res"
      using b(2) w'(1,2) alloc_ops_same [OF ss] by simp
    ultimately obtain vs B where vs: "AllocOutputBuffers is j ?vs A' (ctr + 1) = Some (vs, B, ctr + 1 + of_nat (length is))"
      "run_ops (consumers vs) S B (bufs vs) = Some res" "same_shape ?vs vs" "inp vs = inp ?vs" "consumers vs = consumers ?vs"
      "\<forall>x. owire vs x = (if fst x = j \<and> snd x \<in> set is then ucast (ctr + 1 + of_nat (snd x - Suc a)) else owire ?vs x)"
      using Cons.IH [OF len(2), of "Suc a" A' "ctr + 1"] by blast
    have rate: "osCalcRate (fuOutputSpec (?us ! j) ! i) = full_rate" "osNumConsumers (fuOutputSpec (?us ! j) ! i) = consumers us (j, i)"
      using v [of "(j, i)"] True by (simp_all add: outp_def is_full_def consumers_def)
    have "owire vs x = (if fst x = j \<and> snd x \<in> set (i # is) then ucast (ctr + of_nat (snd x - a)) else owire us x)" for x
    proof -
      have "of_nat (snd x - a) = (1 + of_nat (snd x - Suc a) :: i32)" if "snd x \<in> set is"
      proof -
        have "snd x - a = Suc (snd x - Suc a)" using that i(2) by auto
        then show ?thesis by simp
      qed
      then show ?thesis using vs(6) w'(4) i(1,2) by (cases x) (auto simp: algebra_simps)
    qed
    then show ?thesis using vs(1-5) rate b(1) w' same_shape_trans [OF ss vs(3)] by (simp add: Let_def algebra_simps)
  next
    case False
    have len: "length (fuOutputSpec (?us ! j)) = length (fuOutputSpec (us ! j))" "j < length ?us"
      using same_shapeD(1,3) [OF s] Cons.prems(1) by simp_all
    have "Suc a + length is = length (fuOutputSpec (?us ! j))" "is = [Suc a..<length (fuOutputSpec (?us ! j))]" using i len by simp_all
    moreover have "run_ops (consumers ?us) (alloc_ops ?us j is @ S) A (bufs ?us) = Some res"
      using Cons.prems(4) False v'(1,2) alloc_ops_same [OF s] by simp
    ultimately obtain vs B where vs: "AllocOutputBuffers is j ?us A (ctr + 1) = Some (vs, B, ctr + 1 + of_nat (length is))"
      "run_ops (consumers vs) S B (bufs vs) = Some res" "same_shape ?us vs" "inp vs = inp ?us" "consumers vs = consumers ?us"
      "\<forall>x. owire vs x = (if fst x = j \<and> snd x \<in> set is then ucast (ctr + 1 + of_nat (snd x - Suc a)) else owire ?us x)"
      using Cons.IH [OF len(2), of "Suc a" A "ctr + 1"] by blast
    have rate: "osCalcRate (fuOutputSpec (?us ! j) ! i) \<noteq> full_rate"
      using v [of "(j, i)"] False o by (simp add: outp_def is_full_def)
    have "owire vs x = (if fst x = j \<and> snd x \<in> set (i # is) then ucast (ctr + of_nat (snd x - a)) else owire us x)" for x
    proof -
      have "of_nat (snd x - a) = (1 + of_nat (snd x - Suc a) :: i32)" if "snd x \<in> set is"
      proof -
        have "snd x - a = Suc (snd x - Suc a)" using that i(2) by auto
        then show ?thesis by simp
      qed
      then show ?thesis using vs(6) v'(4) i(1,2) by (cases x) (auto simp: algebra_simps)
    qed
    then show ?thesis using vs(1-5) rate v' same_shape_trans [OF s vs(3)] by (simp add: Let_def algebra_simps)
  qed
qed simp


section \<open>All units\<close>

lemma wire_of_input_cong:
  assumes "same_shape us vs" "wired us" "j < length us" "i < length (fuInputSpec (us ! j))" "\<And>x. fst x < j \<Longrightarrow> owire vs x = owire us x"
  shows "wire_of_input vs j i = wire_of_input us j i"
proof -
  note s = same_shapeD(5-7) [OF assms(1) assms(3,4)]
  have "fst (src (inp us j i)) < j" if "from_unit (inp us j i)" using assms(2-4) that by (simp add: wired_def)
  then show ?thesis using s assms(5) by (simp add: wire_of_input_def)
qed

lemma unit_sim:
  assumes w: "wired us" and j: "j < length us" and run: "run_ops (consumers us) (unit_ops us j @ S) A (bufs us) = Some res"
  shows "\<exists>vs B. (\<forall>js. color_units (j # js) us A ctr = color_units js vs B (ctr + of_nat (length (fuOutputSpec (us ! j)))))
    \<and> run_ops (consumers vs) S B (bufs vs) = Some res \<and> same_shape us vs \<and> consumers vs = consumers us
    \<and> (\<forall>x. owire vs x = (if fst x = j \<and> snd x < length (fuOutputSpec (us ! j)) then ucast (ctr + of_nat (snd x)) else owire us x))
    \<and> (\<forall>j' i. iwire vs j' i = (if j' = j \<and> i < length (fuInputSpec (us ! j)) then wire_of_input us j i else iwire us j' i))"
proof -
  let ?is = "rev [0..<length (fuInputSpec (us ! j))]" and ?os = "[0..<length (fuOutputSpec (us ! j))]"
  have dom: "set ?is \<subseteq> {..<length (fuInputSpec (us ! j))}" by auto
  show ?thesis
  proof (cases "cant_alias (us ! j)")
    case True
    then have "run_ops (consumers us) (alloc_ops us j ?os @ (rel_ops us j ?is @ S)) A (bufs us) = Some res"
      using run by (simp add: unit_ops_def Let_def)
    from alloc_sim [OF j _ _ this, of 0 ctr] obtain vs B where a: "AllocOutputBuffers ?os j us A ctr = Some (vs, B, ctr + of_nat (length ?os))"
      "run_ops (consumers vs) (rel_ops us j ?is @ S) B (bufs vs) = Some res" "same_shape us vs" "inp vs = inp us" "consumers vs = consumers us"
      "\<forall>x. owire vs x = (if fst x = j \<and> snd x \<in> set ?os then ucast (ctr + of_nat (snd x - 0)) else owire us x)" by auto
    have v: "wired vs" "j < length vs" "set ?is \<subseteq> {..<length (fuInputSpec (vs ! j))}" "rel_ops us j ?is = rel_ops vs j ?is"
      using same_shape_wired [OF a(3) w] same_shapeD(1,2) [OF a(3)] j dom rel_ops_same [OF a(3) j dom] by auto
    obtain ws C where b: "ReleaseInputBuffers ?is j vs B = Some (Inr (ws, C))" "run_ops (consumers vs) S C (bufs ws) = Some res"
      "same_shape vs ws" "outp ws = outp vs" "\<forall>j' i. iwire ws j' i = (if j' = j \<and> i \<in> set ?is then wire_of_input vs j i else iwire vs j' i)"
      using release_sim [OF v(1-3)] a(2) v(4) by metis
    have f1: "color_units (j # js) us A ctr = color_units js ws C (ctr + of_nat (length (fuOutputSpec (us ! j))))" for js
      using True a(1) b(1) by (simp add: Let_def)
    have f2: "consumers ws = consumers us" "owire ws = owire vs" using a(5) b(4) by (simp_all add: consumers_def owire_def fun_eq_iff)
    have f3: "run_ops (consumers ws) S C (bufs ws) = Some res" using b(2) a(5) f2(1) by simp
    have f4: "owire ws x = (if fst x = j \<and> snd x < length (fuOutputSpec (us ! j)) then ucast (ctr + of_nat (snd x)) else owire us x)" for x
      using spec [OF a(6), of x] f2(2) by simp
    have wi: "wire_of_input vs j i = wire_of_input us j i" if "i < length (fuInputSpec (us ! j))" for i
      by (rule wire_of_input_cong [OF a(3) w j that]) (use a(6) in auto)
    have "iwire vs = iwire us" using a(4) by (simp add: iwire_def fun_eq_iff)
    then have f5: "iwire ws j' i = (if j' = j \<and> i < length (fuInputSpec (us ! j)) then wire_of_input us j i else iwire us j' i)" for j' i
      using b(5) wi by simp
    show ?thesis
      by (intro exI [of _ ws] exI [of _ C] conjI allI) (rule f1 f3 same_shape_trans [OF a(3) b(3)] f2(1) f4 f5)+
  next
    case False
    then have "run_ops (consumers us) (rel_ops us j ?is @ (alloc_ops us j ?os @ S)) A (bufs us) = Some res"
      using run by (simp add: unit_ops_def Let_def)
    from release_sim [OF w j dom this] obtain vs B where b: "ReleaseInputBuffers ?is j us A = Some (Inr (vs, B))"
      "run_ops (consumers us) (alloc_ops us j ?os @ S) B (bufs vs) = Some res" "same_shape us vs" "outp vs = outp us"
      "\<forall>j' i. iwire vs j' i = (if j' = j \<and> i \<in> set ?is then wire_of_input us j i else iwire us j' i)" by blast
    have c: "consumers vs = consumers us" "owire vs = owire us" using b(4) by (simp_all add: consumers_def owire_def fun_eq_iff)
    have v: "j < length vs" "length (fuOutputSpec (vs ! j)) = length (fuOutputSpec (us ! j))" using same_shapeD(1,3) [OF b(3)] j by auto
    have "run_ops (consumers vs) (alloc_ops vs j ?os @ S) B (bufs vs) = Some res" using b(2) c(1) alloc_ops_same [OF b(3)] by simp
    moreover have "0 + length ?os = length (fuOutputSpec (vs ! j))" "?os = [0..<length (fuOutputSpec (vs ! j))]" using v(2) by simp_all
    ultimately obtain ws C where a: "AllocOutputBuffers ?os j vs B ctr = Some (ws, C, ctr + of_nat (length ?os))"
      "run_ops (consumers ws) S C (bufs ws) = Some res" "same_shape vs ws" "inp ws = inp vs" "consumers ws = consumers vs"
      "\<forall>x. owire ws x = (if fst x = j \<and> snd x \<in> set ?os then ucast (ctr + of_nat (snd x - 0)) else owire vs x)"
      using alloc_sim [OF v(1)] by blast
    have f1: "color_units (j # js) us A ctr = color_units js ws C (ctr + of_nat (length (fuOutputSpec (us ! j))))" for js
      using False a(1) b(1) v(2) by (simp add: Let_def)
    have f2: "consumers ws = consumers us" using a(5) c(1) by simp
    have f4: "owire ws x = (if fst x = j \<and> snd x < length (fuOutputSpec (us ! j)) then ucast (ctr + of_nat (snd x)) else owire us x)" for x
      using spec [OF a(6), of x] c(2) by simp
    have "iwire ws = iwire vs" using a(4) by (simp add: iwire_def fun_eq_iff)
    then have f5: "iwire ws j' i = (if j' = j \<and> i < length (fuInputSpec (us ! j)) then wire_of_input us j i else iwire us j' i)" for j' i
      using b(5) by simp
    show ?thesis
      by (intro exI [of _ ws] exI [of _ C] conjI allI) (rule f1 a(2) same_shape_trans [OF b(3) a(3)] f2 f4 f5)+
  qed
qed

text \<open>The number of the wire of an output, from the outputs of unit \<open>a\<close> on.\<close>

definition wire_off :: "FileUnitSpec list \<Rightarrow> nat \<Rightarrow> oid \<Rightarrow> nat" where
  "wire_off us a x = sum_list (List.map (\<lambda>u. length (fuOutputSpec (us ! u))) [a..<fst x]) + snd x"

lemma wire_off_same: "same_shape us vs \<Longrightarrow> is_out us x \<Longrightarrow> wire_off us a x = wire_off vs a x"
proof -
  assume s: "same_shape us vs" and o: "is_out us x"
  have "List.map (\<lambda>u. length (fuOutputSpec (us ! u))) [a..<fst x] = List.map (\<lambda>u. length (fuOutputSpec (vs ! u))) [a..<fst x]"
    by (rule map_cong [OF refl]) (use same_shapeD(3) [OF s] o in \<open>auto simp: is_out_def\<close>)
  then show ?thesis by (simp only: wire_off_def)
qed

lemma color_units_sim:
  "wired us \<Longrightarrow> js = [a..<length us] \<Longrightarrow> run_ops (consumers us) (all_ops us js) A (bufs us) = Some (B, col) \<Longrightarrow>
   \<exists>vs. color_units js us A ctr = Some (Inr (vs, B)) \<and> same_shape us vs \<and> bufs vs = col \<and> consumers vs = consumers us
    \<and> (\<forall>x. owire vs x = (if is_out us x \<and> a \<le> fst x then ucast (ctr + of_nat (wire_off us a x)) else owire us x))
    \<and> (\<forall>j i. iwire vs j i = (if a \<le> j \<and> j < length us \<and> i < length (fuInputSpec (us ! j)) then wire_of_input vs j i else iwire us j i))"
proof (induction js arbitrary: us a A ctr)
  case Nil
  have "length us \<le> a" using Nil.prems(2) [symmetric] unfolding upt_eq_Nil_conv by auto
  then show ?case using Nil.prems(3) by (auto simp: is_out_def)
next
  case (Cons j js)
  have "a < length us \<and> a = j \<and> [Suc a..<length us] = js"
    using upt_eq_Cons_conv [THEN iffD1, OF Cons.prems(2) [symmetric]] unfolding Suc_eq_plus1 .
  then have j: "a < length us" "j = a" "js = [Suc a..<length us]" by blast+
  have "run_ops (consumers us) (unit_ops us a @ all_ops us js) A (bufs us) = Some (B, col)" using Cons.prems(3) j(2) by simp
  from unit_sim [OF Cons.prems(1) j(1) this, of ctr] obtain vs C where
    u: "\<And>js. color_units (a # js) us A ctr = color_units js vs C (ctr + of_nat (length (fuOutputSpec (us ! a))))"
    "run_ops (consumers vs) (all_ops us js) C (bufs vs) = Some (B, col)" "same_shape us vs" "consumers vs = consumers us"
    "\<And>x. owire vs x = (if fst x = a \<and> snd x < length (fuOutputSpec (us ! a)) then ucast (ctr + of_nat (snd x)) else owire us x)"
    "\<And>j' i. iwire vs j' i = (if j' = a \<and> i < length (fuInputSpec (us ! a)) then wire_of_input us a i else iwire us j' i)" by blast
  have vs: "wired vs" "js = [Suc a..<length vs]" using same_shape_wired [OF u(3) Cons.prems(1)] same_shapeD(1) [OF u(3)] j(3) by simp_all
  have "all_ops us js = all_ops vs js" unfolding all_ops_def
    by (rule arg_cong [of _ _ concat], rule map_cong [OF refl]) (use unit_ops_same [OF u(3)] j(3) in auto)
  then obtain ws where w: "color_units js vs C (ctr + of_nat (length (fuOutputSpec (us ! a)))) = Some (Inr (ws, B))" "same_shape vs ws" "bufs ws = col"
    "consumers ws = consumers vs"
    "\<And>x. owire ws x = (if is_out vs x \<and> Suc a \<le> fst x then ucast (ctr + of_nat (length (fuOutputSpec (us ! a))) + of_nat (wire_off vs (Suc a) x)) else owire vs x)"
    "\<And>j i. iwire ws j i = (if Suc a \<le> j \<and> j < length vs \<and> i < length (fuInputSpec (vs ! j)) then wire_of_input ws j i else iwire vs j i)"
    using Cons.IH [OF vs, of C "ctr + of_nat (length (fuOutputSpec (us ! a)))"] u(2) by auto
  note ss = same_shape_trans [OF u(3) w(2)]
  have ow: "owire ws x = (if is_out us x \<and> a \<le> fst x then ucast (ctr + of_nat (wire_off us a x)) else owire us x)" for x
  proof (cases "is_out us x \<and> Suc a \<le> fst x")
    case True
    have "[a..<fst x] = a # [Suc a..<fst x]" using True by (simp add: upt_conv_Cons)
    then have "wire_off us a x = length (fuOutputSpec (us ! a)) + wire_off us (Suc a) x" by (simp add: wire_off_def)
    then show ?thesis using w(5) True same_shapeD(8) [OF u(3)] wire_off_same [OF u(3), of x "Suc a"] by (simp add: algebra_simps)
  next
    case False
    have ne: "owire ws x = owire vs x" using w(5) False same_shapeD(8) [OF u(3)] by auto
    show ?thesis
    proof (cases "is_out us x \<and> fst x = a")
      case True
      then show ?thesis using ne u(5) by (simp add: is_out_def wire_off_def)
    next
      case no: False
      then have "\<not> (fst x = a \<and> snd x < length (fuOutputSpec (us ! a)))" using j(1) by (auto simp: is_out_def)
      then show ?thesis using ne u(5) no False by (auto simp: is_out_def)
    qed
  qed
  have iw: "iwire ws j' i = (if a \<le> j' \<and> j' < length us \<and> i < length (fuInputSpec (us ! j')) then wire_of_input ws j' i else iwire us j' i)" for j' i
  proof (cases "j' = a \<and> i < length (fuInputSpec (us ! a))")
    case True
    have "wire_of_input ws a i = wire_of_input us a i"
      by (rule wire_of_input_cong [OF ss Cons.prems(1) j(1)]) (use True ow in auto)
    then show ?thesis using True w(6) u(6) j(1) by simp
  next
    case False
    have len: "length vs = length us" "\<And>k. k < length us \<Longrightarrow> length (fuInputSpec (vs ! k)) = length (fuInputSpec (us ! k))"
      using same_shapeD(1,2) [OF u(3)] by simp_all
    show ?thesis using False w(6) u(6) len j(1) by (cases "j' = a") auto
  qed
  show ?case using w(1,3,4) u(1,4) j(2) ss ow iw by (intro exI [of _ ws]) auto
qed

section \<open>The calls are well formed\<close>

lemma rel_ops_append: "rel_ops us j (is @ is') = rel_ops us j is @ rel_ops us j is'"
  by (simp add: rel_ops_def)

lemma uses_rel_ops: "uses (rel_ops us j is) x = (if is_full us x then readers us j is x else 0)"
  by (induction "is") (auto simp: readers_def)

lemma uses_alloc_ops [simp]: "uses (alloc_ops us j is) x = 0"
  by (induction "is") auto

lemma readers_rev: "readers us j (rev is) x = readers us j is x"
  by (simp add: readers_def flip: rev_filter)

lemma uses_unit_ops: "uses (unit_ops us j) x = (if is_full us x then readers us j [0..<length (fuInputSpec (us ! j))] x else 0)"
  by (simp add: unit_ops_def Let_def uses_append uses_rel_ops readers_rev)

lemma uses_all_ops: "uses (all_ops us js) x = (if is_full us x then total_readers us js x else 0)"
  by (induction js) (auto simp: uses_append uses_unit_ops total_readers_def)

lemma no_early_readers: "wired us \<Longrightarrow> j < length us \<Longrightarrow> j \<le> fst x \<Longrightarrow> readers us j [0..<length (fuInputSpec (us ! j))] x = 0"
  by (fastforce simp: readers_def wired_def filter_empty_conv)

lemma wf_alloc_part:
  "(\<forall>i \<in> set is. (j, i) \<notin> D) \<Longrightarrow> distinct is \<Longrightarrow> (\<forall>i \<in> set is. is_full us (j, i) \<longrightarrow> uses S (j, i) = tot (j, i)) \<Longrightarrow>
   wf_ops tot (D \<union> {x. fst x = j \<and> snd x \<in> set is \<and> is_full us x}) S \<Longrightarrow> wf_ops tot D (alloc_ops us j is @ S)"
proof (induction "is" arbitrary: D)
  case (Cons i "is")
  show ?case
  proof (cases "is_full us (j, i)")
    case True
    have "D \<union> {x. fst x = j \<and> snd x \<in> set (i # is) \<and> is_full us x} = insert (j, i) D \<union> {x. fst x = j \<and> snd x \<in> set is \<and> is_full us x}"
      using True by auto
    then have "wf_ops tot (insert (j, i) D) (alloc_ops us j is @ S)" using Cons by (intro Cons.IH) auto
    then show ?thesis using True Cons.prems by (simp add: uses_append)
  next
    case False
    have "{x. fst x = j \<and> snd x \<in> set (i # is) \<and> is_full us x} = {x. fst x = j \<and> snd x \<in> set is \<and> is_full us x}" using False by auto
    then show ?thesis using False Cons by auto
  qed
qed simp

lemma wf_rel_part:
  "(\<forall>i \<in> set is. from_unit (inp us j i) \<longrightarrow> is_full us (src (inp us j i)) \<longrightarrow> src (inp us j i) \<in> D) \<Longrightarrow> wf_ops tot D S \<Longrightarrow>
   wf_ops tot D (rel_ops us j is @ S)"
  by (induction "is") auto

definition full_below :: "FileUnitSpec list \<Rightarrow> nat \<Rightarrow> oid set" where
  "full_below us j = {x. is_full us x \<and> fst x < j}"

lemma wf_all_ops:
  "wired us \<Longrightarrow> js = [a..<length us] \<Longrightarrow> (\<And>x. a \<le> fst x \<Longrightarrow> is_full us x \<Longrightarrow> uses (all_ops us js) x = tot x) \<Longrightarrow> wf_ops tot (full_below us a) (all_ops us js)"
proof (induction js arbitrary: a)
  case (Cons j js)
  have "a < length us \<and> a = j \<and> [Suc a..<length us] = js"
    using upt_eq_Cons_conv [THEN iffD1, OF Cons.prems(2) [symmetric]] unfolding Suc_eq_plus1 .
  then have j: "a < length us" "j = a" "js = [Suc a..<length us]" by blast+
  have own: "uses (unit_ops us a) x = 0" if "a \<le> fst x" for x using no_early_readers [OF Cons.prems(1) j(1) that] by (simp add: uses_unit_ops)
  have tot: "uses (all_ops us js) x = tot x" if "a \<le> fst x" "is_full us x" for x
    using Cons.prems(3) [OF that] own [OF that(1)] j(2) by (simp add: uses_append)
  have IH: "wf_ops tot (full_below us (Suc a)) (all_ops us js)" by (rule Cons.IH [OF Cons.prems(1) j(3)]) (use tot in auto)
  let ?is = "rev [0..<length (fuInputSpec (us ! a))]" and ?os = "[0..<length (fuOutputSpec (us ! a))]"
  have below: "full_below us (Suc a) = full_below us a \<union> {x. fst x = a \<and> snd x \<in> set ?os \<and> is_full us x}"
    by (auto simp: full_below_def is_full_def is_out_def less_Suc_eq)
  have rd: "uses (rel_ops us a ?is) x = 0" if "a \<le> fst x" for x
    using no_early_readers [OF Cons.prems(1) j(1) that] by (simp add: uses_rel_ops readers_rev)
  have srcs: "\<forall>i \<in> set ?is. from_unit (inp us a i) \<longrightarrow> is_full us (src (inp us a i)) \<longrightarrow> src (inp us a i) \<in> full_below us a"
    using Cons.prems(1) j(1) by (auto simp: full_below_def wired_def)
  have fresh: "\<forall>i \<in> set ?os. (a, i) \<notin> full_below us a" by (auto simp: full_below_def)
  have al: "wf_ops tot (full_below us a) (alloc_ops us a ?os @ S)"
    if "wf_ops tot (full_below us (Suc a)) S" "\<And>i. is_full us (a, i) \<Longrightarrow> uses S (a, i) = tot (a, i)" for S
    by (rule wf_alloc_part [OF fresh]) (use that below in auto)
  have "wf_ops tot (full_below us a) (unit_ops us a @ all_ops us js)"
  proof (cases "cant_alias (us ! a)")
    case True
    have "wf_ops tot (full_below us (Suc a)) (rel_ops us a ?is @ all_ops us js)"
      by (rule wf_rel_part [OF _ IH]) (use srcs in \<open>auto simp: full_below_def\<close>)
    then have "wf_ops tot (full_below us a) (alloc_ops us a ?os @ rel_ops us a ?is @ all_ops us js)"
      by (rule al) (use tot rd in \<open>simp add: uses_append\<close>)
    then show ?thesis using True by (simp add: unit_ops_def Let_def)
  next
    case False
    have "wf_ops tot (full_below us a) (rel_ops us a ?is @ alloc_ops us a ?os @ all_ops us js)"
      by (rule wf_rel_part [OF srcs], rule al [OF IH]) (use tot in simp)
    then show ?thesis using False by (simp add: unit_ops_def Let_def)
  qed
  then show ?case using j(2) by simp
qed simp

end
