(* ===== verification/SC_Coloring.thy ===== *)
theory SC_Coloring
  imports SC_Wires
begin

text \<open>
  Coloring is safe: while an output is still to be read no other output is given its buffer.
\<close>

section \<open>No clash\<close>

text \<open>
  Buffers \<open>col\<close> for the full-rate outputs: between an output and a unit that reads it, no output of another unit nor another output
  of the same unit has its buffer, and neither has an output of the reading unit when that must not write to its inputs.
\<close>

definition no_clash :: "FileUnitSpec list \<Rightarrow> (oid \<Rightarrow> 'a) \<Rightarrow> bool" where
  "no_clash us col \<longleftrightarrow> (\<forall>j < length us. \<forall>i < length (fuInputSpec (us ! j)). from_unit (inp us j i) \<longrightarrow> is_full us (src (inp us j i)) \<longrightarrow>
     (\<forall>y. is_full us y \<longrightarrow> y \<noteq> src (inp us j i) \<longrightarrow> fst (src (inp us j i)) \<le> fst y \<longrightarrow> fst y < j \<or> fst y = j \<and> cant_alias (us ! j)
        \<longrightarrow> col y \<noteq> col (src (inp us j i))))"

definition num_outputs :: "FileUnitSpec list \<Rightarrow> nat" where
  "num_outputs us = sum_list (List.map (\<lambda>u. length (fuOutputSpec u)) us)"

definition num_inputs :: "FileUnitSpec list \<Rightarrow> nat" where
  "num_inputs us = sum_list (List.map (\<lambda>u. length (fuInputSpec u)) us)"

lemma num_same: "same_shape us vs \<Longrightarrow> num_outputs us = num_outputs vs"
proof -
  assume s: "same_shape us vs"
  have "List.map (\<lambda>u. length (fuOutputSpec u)) us = List.map (\<lambda>u. length (fuOutputSpec u)) vs"
    by (rule nth_equalityI) (use same_shapeD(1,3) [OF s] in auto)
  then show ?thesis by (simp add: num_outputs_def)
qed

lemma no_clash_shape: "same_shape us vs \<Longrightarrow> no_clash us col \<Longrightarrow> no_clash vs col"
proof -
  assume s: "same_shape us vs" and nc: "no_clash us col"
  note d = same_shapeD [OF s]
  show "no_clash vs col" unfolding no_clash_def
  proof (intro allI impI)
    fix j i y
    assume a: "j < length vs" "i < length (fuInputSpec (vs ! j))" "from_unit (inp vs j i)" "is_full vs (src (inp vs j i))" "is_full vs y"
      "y \<noteq> src (inp vs j i)" "fst (src (inp vs j i)) \<le> fst y" "fst y < j \<or> fst y = j \<and> cant_alias (vs ! j)"
    then have j: "j < length us" "i < length (fuInputSpec (us ! j))" using d(1,2) by simp_all
    show "col y \<noteq> col (src (inp vs j i))"
      using nc [unfolded no_clash_def, rule_format, OF j, of y] a d(4) [OF j(1)] d(5,6) [OF j] d(9) by simp
  qed
qed

section \<open>From the calls to the units\<close>

lemma safe_split:
  "safe_ops tot col D (P @ OAlloc y # S) \<Longrightarrow> x \<in> D \<or> OAlloc x \<in> set P \<Longrightarrow> in_use tot S x \<Longrightarrow> col x \<noteq> col y"
proof (induction P arbitrary: D)
  case (Cons p P)
  then show ?case by (cases p) auto
qed auto

lemma in_alloc_ops: "OAlloc x \<in> set (alloc_ops us j is) \<longleftrightarrow> fst x = j \<and> snd x \<in> set is \<and> is_full us x"
  by (induction "is") (cases x; auto)+

lemma in_rel_ops: "ORelease x \<in> set (rel_ops us j is) \<longleftrightarrow> is_full us x \<and> (\<exists>i \<in> set is. from_unit (inp us j i) \<and> src (inp us j i) = x)"
  by (induction "is") auto

lemma no_cross_ops: "ORelease x \<notin> set (alloc_ops us j is)" "OAlloc x \<notin> set (rel_ops us j is)"
  by (induction "is") auto

lemma in_unit_ops:
  "OAlloc x \<in> set (unit_ops us j) \<longleftrightarrow> fst x = j \<and> snd x < length (fuOutputSpec (us ! j)) \<and> is_full us x"
  "ORelease x \<in> set (unit_ops us j) \<longleftrightarrow> is_full us x \<and> (\<exists>i < length (fuInputSpec (us ! j)). from_unit (inp us j i) \<and> src (inp us j i) = x)"
  by (auto simp: unit_ops_def Let_def in_alloc_ops in_rel_ops no_cross_ops)

lemma in_all_ops: "p \<in> set (all_ops us js) \<longleftrightarrow> (\<exists>j \<in> set js. p \<in> set (unit_ops us j))"
  by (induction js) auto

lemma all_ops_append: "all_ops us (js @ ks) = all_ops us js @ all_ops us ks"
  by (simp add: all_ops_def)

lemma upt_around: "j < n \<Longrightarrow> [0..<n] = [0..<j] @ j # [Suc j..<n]"
  using upt_add_eq_append [of 0 j "n - j"] upt_conv_Cons [of j n] by simp

lemma split_units: "j < n \<Longrightarrow> all_ops us [0..<n] = all_ops us [0..<j] @ unit_ops us j @ all_ops us [Suc j..<n]"
  by (simp add: upt_around [of j n] all_ops_append del: upt_Suc)

text \<open>The calls around the allocation of an output: what comes before it and after it.\<close>

lemma around_alloc:
  assumes "is_full us y"
  shows "\<exists>P S. all_ops us [0..<length us] = P @ OAlloc y # S
    \<and> (\<forall>x. is_full us x \<longrightarrow> fst x < fst y \<or> fst x = fst y \<and> snd x < snd y \<longrightarrow> OAlloc x \<in> set P)
    \<and> (\<forall>j x. fst y < j \<and> j < length us \<or> j = fst y \<and> cant_alias (us ! j) \<longrightarrow> ORelease x \<in> set (unit_ops us j) \<longrightarrow> ORelease x \<in> set S)"
proof -
  let ?j = "fst y" and ?o = "snd y"
  have y: "?j < length us" "?o < length (fuOutputSpec (us ! ?j))" using assms by (auto simp: is_full_def is_out_def)
  let ?rel = "rel_ops us ?j (rev [0..<length (fuInputSpec (us ! ?j))])"
  let ?a1 = "alloc_ops us ?j [0..<?o]" and ?a2 = "alloc_ops us ?j [Suc ?o..<length (fuOutputSpec (us ! ?j))]"
  have "[0..<length (fuOutputSpec (us ! ?j))] = [0..<?o] @ ?o # [Suc ?o..<length (fuOutputSpec (us ! ?j))]"
    by (rule upt_around [OF y(2)])
  then have "alloc_ops us ?j [0..<length (fuOutputSpec (us ! ?j))] = alloc_ops us ?j ([0..<?o] @ ?o # [Suc ?o..<length (fuOutputSpec (us ! ?j))])" by simp
  also have "\<dots> = ?a1 @ OAlloc y # ?a2" using assms by (simp add: alloc_ops_def del: upt_Suc)
  finally have al: "alloc_ops us ?j [0..<length (fuOutputSpec (us ! ?j))] = ?a1 @ OAlloc y # ?a2" .
  obtain U V where uv: "unit_ops us ?j = U @ OAlloc y # V" "set ?a1 \<subseteq> set U" "cant_alias (us ! ?j) \<Longrightarrow> set ?rel \<subseteq> set V"
  proof (cases "cant_alias (us ! ?j)")
    case True
    then show ?thesis using that [of ?a1 "?a2 @ ?rel"] al by (simp add: unit_ops_def Let_def)
  next
    case False
    then show ?thesis using that [of "?rel @ ?a1" ?a2] al by (simp add: unit_ops_def Let_def)
  qed
  let ?P = "all_ops us [0..<?j] @ U" and ?S = "V @ all_ops us [Suc ?j..<length us]"
  have f1: "all_ops us [0..<length us] = ?P @ OAlloc y # ?S" using split_units [OF y(1)] uv(1) by simp
  have f2: "OAlloc x \<in> set ?P" if x: "is_full us x" "fst x < ?j \<or> fst x = ?j \<and> snd x < ?o" for x
  proof (cases "fst x < ?j")
    case True
    then have "OAlloc x \<in> set (unit_ops us (fst x))" using x(1) by (simp add: in_unit_ops is_full_def is_out_def)
    then show ?thesis using True by (auto simp: in_all_ops)
  next
    case False
    then have "OAlloc x \<in> set ?a1" using x by (simp add: in_alloc_ops)
    then show ?thesis using uv(2) by auto
  qed
  have f3: "ORelease x \<in> set ?S"
    if j: "?j < j \<and> j < length us \<or> j = ?j \<and> cant_alias (us ! j)" and r: "ORelease x \<in> set (unit_ops us j)" for j x
  proof (cases "j = ?j")
    case True
    then have "ORelease x \<in> set ?rel" using r by (auto simp: in_unit_ops in_rel_ops)
    then show ?thesis using uv(3) j True by auto
  next
    case False
    then show ?thesis using j r by (auto simp: in_all_ops)
  qed
  show ?thesis
    by (rule exI [of _ ?P], rule exI [of _ ?S], intro conjI allI impI) (rule f1, rule f2, assumption+, rule f3, assumption+)
qed

lemma safe_no_clash:
  assumes w: "wired us" and safe: "safe_ops tot col {} (all_ops us [0..<length us])"
    and tot: "\<And>x. is_full us x \<Longrightarrow> tot x = uses (all_ops us [0..<length us]) x"
  shows "no_clash us col"
  unfolding no_clash_def
proof (intro allI impI)
  fix j i y
  let ?x = "src (inp us j i)"
  assume j: "j < length us" and i: "i < length (fuInputSpec (us ! j))" and fr: "from_unit (inp us j i)" and full: "is_full us ?x"
    and y: "is_full us y" "y \<noteq> ?x" "fst ?x \<le> fst y" "fst y < j \<or> fst y = j \<and> cant_alias (us ! j)"
  have rel: "ORelease ?x \<in> set (unit_ops us j)" using full i fr by (auto simp: in_unit_ops)
  have "fst ?x < j" using w j i fr by (simp add: wired_def)
  then have xj: "fst ?x < j \<and> j < length us" using j by simp
  consider (before) "fst ?x < fst y \<or> fst ?x = fst y \<and> snd ?x < snd y" | (after) "fst ?x = fst y" "snd y < snd ?x"
    using y(2,3) by (metis nat_neq_iff order_le_less prod_eqI)
  then show "col y \<noteq> col ?x"
  proof cases
    case before
    obtain P S where ps: "all_ops us [0..<length us] = P @ OAlloc y # S" "OAlloc ?x \<in> set P" "ORelease ?x \<in> set S"
      using around_alloc [OF y(1)] full before rel y(4) j by metis
    then have "col ?x \<noteq> col y" using safe_split [of tot col "{}" P y S ?x] safe by (simp add: in_use_def)
    then show ?thesis by simp
  next
    case after
    obtain P S where ps: "all_ops us [0..<length us] = P @ OAlloc ?x # S" "OAlloc y \<in> set P"
      "\<forall>k z. fst ?x < k \<and> k < length us \<or> k = fst ?x \<and> cant_alias (us ! k) \<longrightarrow> ORelease z \<in> set (unit_ops us k) \<longrightarrow> ORelease z \<in> set S"
      using around_alloc [OF full] y(1) after by (metis (no_types, lifting))
    have "in_use tot S y"
    proof (cases "tot y = 0")
      case False
      then have "ORelease y \<in> set (all_ops us [0..<length us])" using tot [OF y(1)] uses_pos [of "all_ops us [0..<length us]" y] by simp
      then obtain k where k: "k < length us" "ORelease y \<in> set (unit_ops us k)" by (auto simp: in_all_ops)
      then obtain i' where "i' < length (fuInputSpec (us ! k))" "from_unit (inp us k i')" "src (inp us k i') = y" by (auto simp: in_unit_ops)
      then have "fst y < k" using w k(1) unfolding wired_def by metis
      then show ?thesis using ps(3) [rule_format, of k y] k after by (simp add: in_use_def)
    qed (simp add: in_use_def)
    then show ?thesis using safe_split [of tot col "{}" P ?x S y] safe ps(1,2) by simp
  qed
qed

end
