(* ===== verification/SC_Synths.thy ===== *)
theory SC_Synths
  imports SC_Coloring
begin

text \<open>
  Coloring as a whole: its result for every definition whose inputs come from earlier units, and the computation of the units in the
  buffers it assigns.
\<close>

section \<open>The result of coloring\<close>

lemma run_ops_cong: "(\<And>x. OAlloc x \<in> set R \<Longrightarrow> k x = k' x) \<Longrightarrow> run_ops k R A col = run_ops k' R A col"
proof (induction R arbitrary: A col)
  case (Cons p R)
  show ?case
  proof (cases p)
    case (OAlloc x)
    then show ?thesis using Cons by (auto split: bind_split)
  next
    case (ORelease x)
    then show ?thesis using Cons by (auto split: bind_split)
  qed
qed simp

lemma readers_le: "readers us j is x \<le> length is"
  by (simp add: readers_def)

lemma total_readers_le: "total_readers us [0..<length us] x \<le> num_inputs us"
proof -
  have "List.map (\<lambda>j. length (fuInputSpec (us ! j))) [0..<length us] = List.map (\<lambda>u. length (fuInputSpec u)) us"
    by (rule nth_equalityI) simp_all
  moreover have "total_readers us js x \<le> sum_list (List.map (\<lambda>j. length (fuInputSpec (us ! j))) js)" for js
    unfolding total_readers_def
    by (rule sum_list_mono, rule order_trans [OF readers_le]) simp
  ultimately show ?thesis unfolding num_inputs_def by metis
qed

lemma alloc_count_append: "alloc_count (R @ S) = alloc_count R + alloc_count S"
  by (simp add: alloc_count_def)

lemma alloc_count_parts: "alloc_count (rel_ops us j is) = 0" "alloc_count (alloc_ops us j is) \<le> length is"
  by (induction "is") auto

lemma alloc_count_le: "alloc_count (all_ops us [0..<length us]) \<le> num_outputs us"
proof -
  have "alloc_count (unit_ops us j) \<le> length (fuOutputSpec (us ! j))" for j
    using alloc_count_parts(2) [of us j "[0..<length (fuOutputSpec (us ! j))]"]
    by (simp add: unit_ops_def Let_def alloc_count_append alloc_count_parts(1))
  then have "alloc_count (all_ops us js) \<le> sum_list (List.map (\<lambda>j. length (fuOutputSpec (us ! j))) js)" for js
    by (induction js) (simp_all add: alloc_count_append add_mono)
  moreover have "List.map (\<lambda>j. length (fuOutputSpec (us ! j))) [0..<length us] = List.map (\<lambda>u. length (fuOutputSpec u)) us"
    by (rule nth_equalityI) simp_all
  ultimately show ?thesis unfolding num_outputs_def by metis
qed

text \<open>A definition as it comes from the file: nothing counted yet, and within the range of the \<open>int16\<close> fields.\<close>

definition def_ok :: "FileUnitSpec list \<Rightarrow> bool" where
  "def_ok us \<longleftrightarrow> wired us \<and> (\<forall>x. is_out us x \<longrightarrow> consumers us x = 0) \<and> num_outputs us \<le> 2 ^ 14 \<and> num_inputs us < 2 ^ 15"

definition scaled :: "i32 \<Rightarrow> FileUnitSpec list \<Rightarrow> FileUnitSpec list" where
  "scaled L us = List.map (\<lambda>u. u\<lparr>fuOutputSpec := List.map (scale_output L) (fuOutputSpec u)\<rparr>) us"

lemma scaled_shape: "same_shape us (scaled L us)"
  by (simp add: same_shape_def scaled_def skel_def scale_output_def comp_def)

lemma scaled_views:
  "is_out us x \<Longrightarrow> outp (scaled L us) x = scale_output L (outp us x)" "j < length us \<Longrightarrow> inp (scaled L us) j i = inp us j i"
  by (simp_all add: scaled_def outp_def inp_def is_out_def)

lemma coloring_result:
  assumes ok: "def_ok us"
  shows "\<exists>vs col n. (\<forall>x. is_full us x \<longrightarrow> col x < n) \<and> n \<le> num_outputs us \<and> no_clash us col \<and> same_shape us vs
    \<and> DoBufferColoring W c us = (if mRunning W \<and> mMaxWireBufs W < of_nat n then Some (Inl Too_many_wire_bufs)
        else Some (Inr (vs, of_nat n, if mRunning W then W else W\<lparr>mMaxWireBufs := max (mMaxWireBufs W) (of_nat n)\<rparr>)))
    \<and> (\<forall>x. is_full us x \<longrightarrow> bufs vs x = ucast (of_nat (col x) * wsBufLength W))
    \<and> (\<forall>x. is_out us x \<longrightarrow> owire vs x = ucast (of_nat c + of_nat (wire_off us 0 x) :: i32))
    \<and> (\<forall>j < length us. \<forall>i < length (fuInputSpec (us ! j)). iwire vs j i = wire_of_input vs j i)"
proof -
  let ?js = "[0..<length us]"
  have w: "wired us" and c0: "\<And>x. is_out us x \<Longrightarrow> consumers us x = 0" and bo: "num_outputs us \<le> 2 ^ 14" and bi: "num_inputs us < 2 ^ 15"
    using ok by (auto simp: def_ok_def)
  obtain us1 where u1: "count_consumers ?js us = Some us1" "same_shape us us1" "\<forall>x. consumers us1 x = consumers us x + of_nat (total_readers us ?js x)"
    using count_consumers_ok [OF w, of ?js] by (auto simp: atLeast0LessThan)
  have len: "length us1 = length us" and w1: "wired us1" using same_shapeD(1) [OF u1(2)] same_shape_wired [OF u1(2) w] by simp_all
  define tot where "tot = uses (all_ops us1 ?js)"
  have tr: "total_readers us1 ?js x = total_readers us ?js x" for x using total_readers_same [OF u1(2), of ?js] by (simp add: atLeast0LessThan)
  have tot: "tot x = (if is_full us x then total_readers us ?js x else 0)" for x
    unfolding tot_def uses_all_ops using tr same_shapeD(9) [OF u1(2)] by simp
  have small: "\<forall>x. tot x < 2 ^ 15" 
  proof
    fix x show "tot x < 2 ^ 15" using tot [of x] total_readers_le [of us x] bi by simp
  qed
  have below: "full_below us1 0 = {}" by (simp add: full_below_def)
  have wf: "wf_ops tot {} (all_ops us1 ?js)"
    using wf_all_ops [OF w1, of ?js 0 tot] len below by (simp add: tot_def)
  have inv: "ops_inv tot {} (all_ops us1 ?js) BufColorAllocator_new (bufs us1) (\<lambda>_. 0) [] 0"
    by (simp add: ops_inv_def color_rep_new)
  have room: "0 + alloc_count (all_ops us1 ?js) \<le> 2 ^ 14"
    using alloc_count_le [of us1] num_same [OF u1(2)] bo len by simp
  obtain A col' r st n where run: "run_ops (\<lambda>x. of_nat (tot x)) (all_ops us1 ?js) BufColorAllocator_new (bufs us1) = Some (A, col')"
    "safe_ops tot col' {} (all_ops us1 ?js)" "color_rep A r st n" "n \<le> 0 + alloc_count (all_ops us1 ?js)"
    "\<forall>x. OAlloc x \<in> set (all_ops us1 ?js) \<longrightarrow> (\<exists>b < n. col' x = of_nat b)"
    using run_ops_ok [OF wf inv room small] by auto
  have n: "n \<le> num_outputs us" using run(4) alloc_count_le [of us1] num_same [OF u1(2)] len by simp
  have alloced: "OAlloc x \<in> set (all_ops us1 ?js) \<longleftrightarrow> is_full us x" for x
    using same_shapeD(9) [OF u1(2), of x] len by (auto simp: in_all_ops in_unit_ops is_full_def is_out_def)
  have "run_ops (consumers us1) (all_ops us1 ?js) BufColorAllocator_new (bufs us1) = Some (A, col')"
  proof -
    have "consumers us1 x = of_nat (tot x)" if "OAlloc x \<in> set (all_ops us1 ?js)" for x
      using that alloced [of x] spec [OF u1(3), of x] c0 [of x] tot [of x] by (simp add: is_full_def)
    then show ?thesis using run(1) run_ops_cong by metis
  qed
  from color_units_sim [OF w1, of ?js 0, OF _ this, of "of_nat c"] len obtain vs where v: "color_units ?js us1 BufColorAllocator_new (of_nat c) = Some (Inr (vs, A))"
    "same_shape us1 vs" "bufs vs = col'" "\<forall>x. owire vs x = (if is_out us1 x \<and> 0 \<le> fst x then ucast (of_nat c + of_nat (wire_off us1 0 x) :: i32) else owire us1 x)"
    "\<forall>j i. iwire vs j i = (if 0 \<le> j \<and> j < length us1 \<and> i < length (fuInputSpec (us1 ! j)) then wire_of_input vs j i else iwire us1 j i)" by auto
  note s = same_shape_trans [OF u1(2) v(2)] and s' = same_shape_trans [OF same_shape_trans [OF u1(2) v(2)] scaled_shape [of vs "wsBufLength W"]]
  define col where "col = (\<lambda>x. nat (sint (col' x)))"
  have col: "col x < n \<and> col' x = of_nat (col x)" if full: "is_full us x" for x
  proof -
    have "OAlloc x \<in> set (all_ops us1 ?js)" using alloced full by blast
    then obtain b where "b < n" "col' x = of_nat b" using spec [OF run(5), of x] by blast
    then show ?thesis using n bo sint16 [of b] by (simp add: col_def)
  qed
  have nb: "NumBufs A = of_nat n"
    using run(3) n bo sint16 [of n] by (simp add: NumBufs_def color_rep_def scast_eq)
  have nc: "no_clash us col"
  proof -
    have "no_clash us1 col'" by (rule safe_no_clash [OF w1]) (use run(2) len in \<open>simp_all add: tot_def\<close>)
    then have "no_clash us col'" using no_clash_shape u1(2) by (metis same_shape_def)
    then show ?thesis unfolding no_clash_def using col by metis
  qed
  have bl: "bufs (scaled L vs) x = ucast (of_nat (col x) * L)" if x: "is_full us x" for x L
  proof -
    have "is_out vs x" "osCalcRate (outp vs x) = full_rate" using x same_shapeD(9) [OF s, of x] by (simp_all add: is_full_def)
    moreover have "osBufferIndex (outp vs x) = of_nat (col x)" using v(3) col [OF x] unfolding bufs_def by metis
    moreover have "(scast (of_nat (col x) :: i16) :: i32) = of_nat (col x)" using col [OF x] n bo sint16 [of "col x"] by (simp add: scast_eq)
    ultimately show ?thesis by (simp add: bufs_def scaled_views(1) scale_output_def)
  qed
  have ow: "owire (scaled L vs) x = owire vs x" if "is_out us x" for x L
    using that same_shapeD(8) [OF s, of x] by (simp add: owire_def scaled_views(1) scale_output_def)
  have iw: "iwire (scaled L vs) j i = wire_of_input (scaled L vs) j i" if j: "j < length us" "i < length (fuInputSpec (us ! j))" for j i L
  proof -
    have lv: "j < length vs" "i < length (fuInputSpec (vs ! j))" using j same_shapeD(1,2) [OF s] by simp_all
    have "iwire vs j i = wire_of_input vs j i" using v(5) j len same_shapeD(2) [OF u1(2) j(1)] by simp
    moreover have "owire (scaled L vs) (src (inp vs j i)) = owire vs (src (inp vs j i))" if "from_unit (inp vs j i)"
    proof -
      have "is_out us (src (inp us j i))" using w j same_shapeD(5) [OF s j] that by (simp add: wired_def)
      then show ?thesis using ow same_shapeD(6) [OF s j] by simp
    qed
    ultimately show ?thesis using lv by (simp add: iwire_def wire_of_input_def scaled_views(2))
  qed
  have ow0: "owire vs x = ucast (of_nat c + of_nat (wire_off us 0 x) :: i32)" if "is_out us x" for x
    using spec [OF v(4), of x] that same_shapeD(8) [OF u1(2), of x] wire_off_same [OF u1(2) that, of 0] by simp
  have "DoBufferColoring W c us = (if mRunning W \<and> mMaxWireBufs W < of_nat n then Some (Inl Too_many_wire_bufs)
        else Some (Inr (scaled (wsBufLength W) vs, of_nat n, if mRunning W then W else W\<lparr>mMaxWireBufs := max (mMaxWireBufs W) (of_nat n)\<rparr>)))"
    using u1(1) v(1) len nb by (simp add: DoBufferColoring_def scaled_def)
  then show ?thesis
    using col n nc s' bl ow ow0 iw by (intro exI [of _ "scaled (wsBufLength W) vs"] exI [of _ col] exI [of _ n] conjI) auto
qed

text \<open>
  C4: For a definition whose units read from earlier units only, coloring never leaves an array and never meets a buffer that was
  freed already. It refuses a definition only if the engine runs and the definition needs more buffers than it has; otherwise every
  full-rate output gets a buffer that no output computed between it and its last reader gets (nor one of that reader, if the reader
  must not write to its inputs), the number of buffers reported covers them, and every input gets the wire of the output it reads.
\<close>

theorem coloring_keeps_buffers_apart:
  assumes "def_ok us"
  shows "mRunning W \<and> DoBufferColoring W c us = Some (Inl Too_many_wire_bufs)
    \<or> (\<exists>vs n W' col. DoBufferColoring W c us = Some (Inr (vs, n, W')) \<and> n \<le> mMaxWireBufs W' \<and> (mRunning W \<longrightarrow> W' = W)
        \<and> unat n \<le> num_outputs us \<and> same_shape us vs \<and> no_clash us col
        \<and> (\<forall>x. is_full us x \<longrightarrow> col x < unat n \<and> osBufferIndex (outp vs x) = ucast (of_nat (col x) * wsBufLength W))
        \<and> (\<forall>j < length us. \<forall>i < length (fuInputSpec (us ! j)). isWireIndex (inp vs j i)
             = (if from_unit (inp us j i) then osWireIndex (outp vs (src (inp us j i))) else isFromOutputIndex (inp us j i))))"
proof -
  obtain vs col n where r: "\<forall>x. is_full us x \<longrightarrow> col x < n" "n \<le> num_outputs us" "no_clash us col" "same_shape us vs"
    "DoBufferColoring W c us = (if mRunning W \<and> mMaxWireBufs W < of_nat n then Some (Inl Too_many_wire_bufs)
        else Some (Inr (vs, of_nat n, if mRunning W then W else W\<lparr>mMaxWireBufs := max (mMaxWireBufs W) (of_nat n)\<rparr>)))"
    "\<forall>x. is_full us x \<longrightarrow> bufs vs x = ucast (of_nat (col x) * wsBufLength W)"
    "\<forall>j < length us. \<forall>i < length (fuInputSpec (us ! j)). iwire vs j i = wire_of_input vs j i"
    using coloring_result [OF assms, of W c] by blast
  have "num_outputs us \<le> 2 ^ 14" using assms by (simp add: def_ok_def)
  then have n: "unat (of_nat n :: u32) = n" using r(2) by (simp add: unat_of_nat take_bit_nat_eq_self)
  have wires: "isWireIndex (inp vs j i)
      = (if from_unit (inp us j i) then osWireIndex (outp vs (src (inp us j i))) else isFromOutputIndex (inp us j i))"
    if "j < length us" "i < length (fuInputSpec (us ! j))" for j i
    using r(7) [rule_format, OF that] same_shapeD(5-7) [OF r(4) that] by (simp add: iwire_def wire_of_input_def owire_def)
  show ?thesis
  proof (cases "mRunning W \<and> mMaxWireBufs W < of_nat n")
    case False
    let ?W = "if mRunning W then W else W\<lparr>mMaxWireBufs := max (mMaxWireBufs W) (of_nat n)\<rparr>"
    have "DoBufferColoring W c us = Some (Inr (vs, of_nat n, ?W))" "of_nat n \<le> mMaxWireBufs ?W" "mRunning W \<longrightarrow> ?W = W" "unat (of_nat n :: u32) \<le> num_outputs us"
      using False r(5) r(2) n by auto
    moreover have "\<forall>x. is_full us x \<longrightarrow> col x < unat (of_nat n :: u32) \<and> osBufferIndex (outp vs x) = ucast (of_nat (col x) * wsBufLength W)"
      using r(1,6) n by (simp add: bufs_def)
    ultimately show ?thesis using r(3,4) wires by blast
  qed (simp add: r(5))
qed

text \<open>
  Three units: the second one reads an output of the first and a constant, the third one reads an output of each and must not write to its inputs.
\<close>

definition demo_def :: "u32 \<Rightarrow> UnitDef" where
  "demo_def flags = \<lparr>udName = [0], udHash = 0, udAllocSize = 0, udFlags = flags\<rparr>"

definition demo_out :: OutputSpec where
  "demo_out = \<lparr>osCalcRate = 2, osWireIndex = - 1, osBufferIndex = - 1, osNumConsumers = 0\<rparr>"

definition demo_in :: "i16 \<Rightarrow> i16 \<Rightarrow> InputSpec" where
  "demo_in u i = \<lparr>isFromUnitIndex = u, isFromOutputIndex = i, isWireIndex = - 1\<rparr>"

definition demo_unit :: "u32 \<Rightarrow> InputSpec list \<Rightarrow> nat \<Rightarrow> FileUnitSpec" where
  "demo_unit flags ins outs = \<lparr>fuUnitDef = demo_def flags, fuCalcRate = 2, fuSpecialIndex = 0, fuInputSpec = ins,
     fuOutputSpec = replicate outs demo_out, fuRateInfo = Some mFullRate\<rparr>"

definition demo_units :: "FileUnitSpec list" where
  "demo_units = [demo_unit 0 [] 2, demo_unit 0 [demo_in 0 0, demo_in (- 1) 0] 1, demo_unit 1 [demo_in 1 0, demo_in 0 1] 1]"

lemma less_3_cases: "j < 3 \<longleftrightarrow> j = 0 \<or> j = 1 \<or> j = (2::nat)"
  by auto

lemma less_2_cases_iff': "j < Suc (Suc 0) \<longleftrightarrow> j = 0 \<or> j = (1::nat)"
  by auto

lemma demo_ok: "def_ok demo_units"
proof -
  have len: "length demo_units = 3" by (simp add: demo_units_def)
  have "wired demo_units"
    unfolding wired_def len less_3_cases
    by (auto simp: demo_units_def demo_unit_def demo_in_def inp_def src_def from_unit_def is_out_def less_2_cases_iff')
  moreover have "\<forall>x. is_out demo_units x \<longrightarrow> consumers demo_units x = 0"
    unfolding is_out_def len less_3_cases by (auto simp: demo_units_def demo_unit_def demo_out_def consumers_def outp_def less_2_cases_iff' nth_Cons')
  ultimately show ?thesis by (simp add: def_ok_def num_outputs_def num_inputs_def demo_units_def demo_unit_def)
qed

definition demo_space :: wire_space where
  "demo_space = \<lparr>mRunning = False, mMaxWireBufs = 0, wsBufLength = 64\<rparr>"

lemma demo_outputs: "num_outputs demo_units = 4"
  by (simp add: num_outputs_def demo_units_def demo_unit_def)

theorem coloring_keeps_buffers_apart_witness:
  "\<exists>vs n W' (col :: oid \<Rightarrow> nat). DoBufferColoring demo_space 1 demo_units = Some (Inr (vs, n, W')) \<and> unat n \<le> 4 \<and> no_clash demo_units col"
proof -
  have "\<not> mRunning demo_space" by (simp add: demo_space_def)
  then show ?thesis using coloring_keeps_buffers_apart [OF demo_ok, of demo_space 1] unfolding demo_outputs by blast
qed

section \<open>Computing in shared buffers\<close>

text \<open>
  A block of a synth: unit after unit takes its inputs from the places of the outputs it reads and leaves its outputs in their places.
  A unit that must not write to its inputs still finds them after its outputs are written. The functions of the units are a parameter.
\<close>

definition unit_inputs :: "(nat \<Rightarrow> 'v) \<Rightarrow> FileUnitSpec list \<Rightarrow> (oid \<Rightarrow> 'l) \<Rightarrow> nat \<Rightarrow> ('l \<Rightarrow> 'v) \<Rightarrow> 'v list" where
  "unit_inputs k us loc j m = List.map (\<lambda>i. if from_unit (inp us j i) then m (loc (src (inp us j i)))
     else k (nat (sint (isFromOutputIndex (inp us j i))))) [0..<length (fuInputSpec (us ! j))]"

definition store_outputs :: "(oid \<Rightarrow> 'l) \<Rightarrow> nat \<Rightarrow> 'v list \<Rightarrow> nat \<Rightarrow> ('l \<Rightarrow> 'v) \<Rightarrow> 'l \<Rightarrow> 'v" where
  "store_outputs loc j vs n m = fold (\<lambda>i m. m(loc (j, i) := vs ! i)) [0..<n] m"

fun run_units :: "(nat \<Rightarrow> 'v) \<Rightarrow> (nat \<Rightarrow> 'v list \<Rightarrow> 'v list) \<Rightarrow> FileUnitSpec list \<Rightarrow> (oid \<Rightarrow> 'l) \<Rightarrow> nat list \<Rightarrow> ('l \<Rightarrow> 'v)
    \<Rightarrow> ('v list \<times> 'v list \<times> 'v list) list" where
  "run_units k calc us loc [] m = []"
| "run_units k calc us loc (j # js) m =
     (let ins = unit_inputs k us loc j m; outs = calc j ins; m' = store_outputs loc j outs (length (fuOutputSpec (us ! j))) m
      in (ins, outs, if cant_alias (us ! j) then unit_inputs k us loc j m' else []) # run_units k calc us loc js m')"

text \<open>Shared: a full-rate output is in the buffer at its index, the others are in wires of their own.\<close>

definition shared :: "FileUnitSpec list \<Rightarrow> FileUnitSpec list \<Rightarrow> oid \<Rightarrow> oid + i16" where
  "shared us vs x = (if is_full us x then Inr (osBufferIndex (outp vs x)) else Inl x)"

lemma store_other: "(\<And>i. i < n \<Longrightarrow> loc (j, i) \<noteq> l) \<Longrightarrow> store_outputs loc j vs n m l = m l"
proof (induction n)
  case (Suc n)
  have "l \<noteq> loc (j, n)" using Suc.prems [of n] by auto
  then show ?case using Suc by (simp add: store_outputs_def)
qed (simp add: store_outputs_def)

lemma store_same: "i < n \<Longrightarrow> (\<And>i'. i' < n \<Longrightarrow> i' \<noteq> i \<Longrightarrow> loc (j, i') \<noteq> loc (j, i)) \<Longrightarrow> store_outputs loc j vs n m (loc (j, i)) = vs ! i"
proof (induction n)
  case (Suc n)
  show ?case
  proof (cases "i = n")
    case False
    then have "loc (j, i) \<noteq> loc (j, n)" using Suc.prems(2) [of n] by auto
    then show ?thesis using Suc False by (simp add: store_outputs_def)
  qed (simp add: store_outputs_def)
qed simp

definition reads :: "FileUnitSpec list \<Rightarrow> nat \<Rightarrow> oid \<Rightarrow> bool" where
  "reads us j x \<longleftrightarrow> (\<exists>i < length (fuInputSpec (us ! j)). from_unit (inp us j i) \<and> src (inp us j i) = x)"

definition apart :: "FileUnitSpec list \<Rightarrow> (oid \<Rightarrow> 'l) \<Rightarrow> bool" where
  "apart us loc \<longleftrightarrow> (\<forall>j < length us. \<forall>x. reads us j x \<longrightarrow> is_out us x \<and> fst x < j \<and>
     (\<forall>y. is_out us y \<longrightarrow> y \<noteq> x \<longrightarrow> fst x \<le> fst y \<longrightarrow> fst y < j \<or> fst y = j \<and> cant_alias (us ! j) \<longrightarrow> loc y \<noteq> loc x))"

text \<open>Two memories with the same values where they are still to be read.\<close>

definition agree :: "FileUnitSpec list \<Rightarrow> (oid \<Rightarrow> 'l) \<Rightarrow> (oid \<Rightarrow> 'k) \<Rightarrow> nat \<Rightarrow> ('l \<Rightarrow> 'v) \<Rightarrow> ('k \<Rightarrow> 'v) \<Rightarrow> bool" where
  "agree us loc loc' j m m' \<longleftrightarrow> (\<forall>x. fst x < j \<longrightarrow> (\<exists>j'. j \<le> j' \<and> j' < length us \<and> reads us j' x) \<longrightarrow> m (loc x) = m' (loc' x))"

lemma inputs_agree:
  "agree us loc loc' j m m' \<Longrightarrow> apart us loc \<Longrightarrow> j < length us \<Longrightarrow> unit_inputs k us loc j m = unit_inputs k us loc' j m'"
  unfolding unit_inputs_def
proof (rule map_cong [OF refl])
  fix i
  assume a: "agree us loc loc' j m m'" "apart us loc" "j < length us" and i: "i \<in> set [0..<length (fuInputSpec (us ! j))]"
  have "m (loc (src (inp us j i))) = m' (loc' (src (inp us j i)))" if f: "from_unit (inp us j i)"
  proof -
    have r: "reads us j (src (inp us j i))" using f i by (auto simp: reads_def)
    then have "fst (src (inp us j i)) < j" using a(2,3) unfolding apart_def by blast
    then show ?thesis using a(1,3) r unfolding agree_def by blast
  qed
  then show "(if from_unit (inp us j i) then m (loc (src (inp us j i))) else k (nat (sint (isFromOutputIndex (inp us j i)))))
    = (if from_unit (inp us j i) then m' (loc' (src (inp us j i))) else k (nat (sint (isFromOutputIndex (inp us j i)))))" by simp
qed

lemma read_kept:
  assumes ap: "apart us loc" and j: "j \<le> j'" "j' < length us" and x: "fst x < j" "reads us j' x" "j' = j \<longrightarrow> cant_alias (us ! j)"
  shows "store_outputs loc j vs (length (fuOutputSpec (us ! j))) m (loc x) = m (loc x)"
proof (rule store_other)
  fix i assume i: "i < length (fuOutputSpec (us ! j))"
  have "is_out us (j, i)" "(j, i) \<noteq> x" using i j x(1) by (auto simp: is_out_def)
  then show "loc (j, i) \<noteq> loc x" using ap [unfolded apart_def, rule_format, OF j(2) x(2)] j x by (cases "j' = j") auto
qed

lemma agree_step:
  assumes ap: "apart us loc" "apart us loc'" and a: "agree us loc loc' j m m'"
  shows "agree us loc loc' (Suc j) (store_outputs loc j vs (length (fuOutputSpec (us ! j))) m) (store_outputs loc' j vs (length (fuOutputSpec (us ! j))) m')"
  unfolding agree_def
proof (intro allI impI)
  fix x assume x: "fst x < Suc j" "\<exists>j'. Suc j \<le> j' \<and> j' < length us \<and> reads us j' x"
  then obtain j' where j': "Suc j \<le> j'" "j' < length us" "reads us j' x" by auto
  have le: "j \<le> j'" "j' \<noteq> j" using j'(1) by auto
  show "store_outputs loc j vs (length (fuOutputSpec (us ! j))) m (loc x) = store_outputs loc' j vs (length (fuOutputSpec (us ! j))) m' (loc' x)"
  proof (cases "fst x < j")
    case True
    have "m (loc x) = m' (loc' x)" using a True le j' unfolding agree_def by blast
    then show ?thesis using read_kept [OF ap(1) le(1) j'(2) True j'(3), of vs m] read_kept [OF ap(2) le(1) j'(2) True j'(3), of vs m'] le(2) by simp
  next
    case False
    then obtain i where xi: "x = (j, i)" using x(1) by (cases x) auto
    have i: "i < length (fuOutputSpec (us ! j))" using ap(1) j' xi by (auto simp: apart_def is_out_def)
    have ne: "l (j, i') \<noteq> l (j, i)" if l: "apart us l" and i': "i' < length (fuOutputSpec (us ! j))" "i' \<noteq> i" for l :: "oid \<Rightarrow> 'z" and i'
    proof -
      have "is_out us (j, i')" using i' j'(1,2) by (simp add: is_out_def)
      then show ?thesis using l [unfolded apart_def, rule_format, OF j'(2,3)] i'(2) xi j'(1) by auto
    qed
    show ?thesis unfolding xi using store_same [OF i, of loc] store_same [OF i, of loc'] ne [OF ap(1)] ne [OF ap(2)] by metis
  qed
qed

lemma runs_agree:
  "js = [j..<length us] \<Longrightarrow> apart us loc \<Longrightarrow> apart us loc' \<Longrightarrow> agree us loc loc' j m m' \<Longrightarrow> run_units k calc us loc js m = run_units k calc us loc' js m'"
proof (induction js arbitrary: j m m')
  case (Cons a js)
  have "j < length us \<and> j = a \<and> [Suc j..<length us] = js"
    using upt_eq_Cons_conv [THEN iffD1, OF Cons.prems(1) [symmetric]] unfolding Suc_eq_plus1 .
  then have j: "j < length us" "a = j" "js = [Suc j..<length us]" by blast+
  let ?n = "length (fuOutputSpec (us ! j))" and ?ins = "unit_inputs k us loc j m"
  have ins: "?ins = unit_inputs k us loc' j m'" by (rule inputs_agree [OF Cons.prems(4,2) j(1)])
  let ?m = "store_outputs loc j (calc j ?ins) ?n m" and ?m' = "store_outputs loc' j (calc j ?ins) ?n m'"
  have again: "unit_inputs k us loc j ?m = unit_inputs k us loc' j ?m'" if c: "cant_alias (us ! j)"
  proof -
    have "agree us loc loc' j ?m ?m'" unfolding agree_def
    proof (intro allI impI)
      fix x assume x: "fst x < j" "\<exists>j'. j \<le> j' \<and> j' < length us \<and> reads us j' x"
      then obtain j' where j': "j \<le> j'" "j' < length us" "reads us j' x" by auto
      have "m (loc x) = m' (loc' x)" using Cons.prems(4) x unfolding agree_def by blast
      then show "?m (loc x) = ?m' (loc' x)"
        using read_kept [OF Cons.prems(2) j'(1,2) x(1) j'(3), of "calc j ?ins" m] read_kept [OF Cons.prems(3) j'(1,2) x(1) j'(3), of "calc j ?ins" m'] c by simp
    qed
    then show ?thesis by (rule inputs_agree [OF _ Cons.prems(2) j(1)])
  qed
  show ?case unfolding j(2) run_units.simps Let_def ins [symmetric]
    using Cons.IH [OF j(3) Cons.prems(2,3) agree_step [OF Cons.prems(2-4)]] again by simp
qed simp

lemma wired_reads:
  assumes "wired us" "j < length us" "reads us j x"
  shows "is_out us x" "fst x < j"
  using assms unfolding reads_def wired_def by blast+

lemma apart_own: "wired us \<Longrightarrow> apart us (\<lambda>x. x)"
  using wired_reads unfolding apart_def by blast

lemma ucast_narrow: "(ucast (word_of_int x :: i32) :: i16) = word_of_int x"
  by transfer simp

text \<open>
  The bound on the offsets is needed: with blocks of 64 samples the offset of buffer 512 is negative, 32768 samples before the space of the buffers.
\<close>

theorem buffer_offset_wraps:
  "sint (osBufferIndex (scale_output 64 (out\<lparr>osCalcRate := full_rate, osBufferIndex := 512\<rparr>))) = - 32768"
  by (simp add: scale_output_def full_rate_def)

lemma offset_value:
  assumes "0 < sint (L :: i32)" "int n * sint L \<le> 2 ^ 15" "c < n"
  shows "sint (ucast (of_nat c * L) :: i16) = int c * sint L"
proof -
  have "int c * sint L < int n * sint L" using assms(1,3) by (simp add: mult_strict_right_mono)
  then have c: "0 \<le> int c * sint L" "int c * sint L < 2 ^ 15" using assms(1,2) by (simp, linarith)
  have "of_nat c * L = (word_of_int (int c * sint L) :: i32)" by simp
  then have "ucast (of_nat c * L) = (word_of_int (int c * sint L) :: i16)" by (simp only: ucast_narrow)
  moreover have "signed_take_bit 15 (int c * sint L) = int c * sint L" using c by (intro signed_take_bit_int_eq_self) simp_all
  ultimately show ?thesis by (simp only: sint_sbintrunc') simp
qed

lemma offset_inj:
  assumes "0 < sint (L :: i32)" "int n * sint L \<le> 2 ^ 15" "a < n" "b < n"
    and eq: "(ucast (of_nat a * L) :: i16) = ucast (of_nat b * L)"
  shows "a = b"
proof -
  have "int a * sint L = int b * sint L"
    using offset_value [OF assms(1-3)] offset_value [OF assms(1,2,4)] eq by metis
  then show ?thesis using assms(1) by simp
qed

lemma apart_shared:
  assumes w: "wired us" and nc: "no_clash us col"
    and b: "\<And>x. is_full us x \<Longrightarrow> col x < n \<and> osBufferIndex (outp vs x) = ucast (of_nat (col x) * L)"
    and L: "0 < sint (L :: i32)" "int n * sint L \<le> 2 ^ 15"
  shows "apart us (shared us vs)"
  unfolding apart_def
proof (intro allI impI conjI)
  fix j x assume j: "j < length us" and r: "reads us j x"
  show "is_out us x" "fst x < j" using wired_reads [OF w j r] .
  fix y assume y: "is_out us y" "y \<noteq> x" "fst x \<le> fst y" "fst y < j \<or> fst y = j \<and> cant_alias (us ! j)"
  obtain i where i: "i < length (fuInputSpec (us ! j))" "from_unit (inp us j i)" "src (inp us j i) = x" using r by (auto simp: reads_def)
  show "shared us vs y \<noteq> shared us vs x"
  proof (cases "is_full us x \<and> is_full us y")
    case True
    have "col y \<noteq> col x" using nc [unfolded no_clash_def, rule_format, OF j i(1,2), of y] i(3) True y by simp
    then have "osBufferIndex (outp vs y) \<noteq> osBufferIndex (outp vs x)"
      using offset_inj [OF L, of "col y" "col x"] b [of x] b [of y] True by auto
    then show ?thesis using True by (simp add: shared_def)
  next
    case False
    then show ?thesis using y(2) by (auto simp: shared_def)
  qed
qed

text \<open>
  C5: A synth computes in the buffers that coloring assigned, which its units share, what it computes with a buffer for every output:
  each unit finds the same inputs and gives the same outputs, whatever the functions of the units are and whatever was in
  the buffers before, and a unit that must not write to its inputs still finds them after it has written its outputs. The offsets of the
  buffers have to fit their 16 bits.
\<close>

theorem shared_buffers_compute_same:
  assumes "def_ok us" "DoBufferColoring W c us = Some (Inr (vs, n, W'))"
    and "0 < sint (wsBufLength W)" "uint n * sint (wsBufLength W) \<le> 2 ^ 15"
  shows "run_units k calc us (shared us vs) [0..<length us] m = run_units k calc us (\<lambda>x. x) [0..<length us] m'"
proof -
  have w: "wired us" using assms(1) by (simp add: def_ok_def)
  obtain us' col l where r: "\<forall>x. is_full us x \<longrightarrow> col x < l" "l \<le> num_outputs us" "no_clash us col"
    "DoBufferColoring W c us = (if mRunning W \<and> mMaxWireBufs W < of_nat l then Some (Inl Too_many_wire_bufs)
        else Some (Inr (us', of_nat l, if mRunning W then W else W\<lparr>mMaxWireBufs := max (mMaxWireBufs W) (of_nat l)\<rparr>)))"
    "\<forall>x. is_full us x \<longrightarrow> bufs us' x = ucast (of_nat (col x) * wsBufLength W)"
    using coloring_result [OF assms(1), of W c] by blast
  have "num_outputs us \<le> 2 ^ 14" using assms(1) by (simp add: def_ok_def)
  then have l: "unat (of_nat l :: u32) = l" using r(2) by (simp add: unat_of_nat take_bit_nat_eq_self)
  have vs: "us' = vs" "of_nat l = n" using r(4) assms(2) by (auto split: if_splits)
  then have n: "uint n = int l" using l by (metis uint_nat)
  have "apart us (shared us vs)"
    by (rule apart_shared [OF w r(3), of l vs "wsBufLength W"]) (use r(1,5) vs n assms(3,4) in \<open>auto simp: bufs_def\<close>)
  then show ?thesis by (rule runs_agree [OF refl _ apart_own [OF w]]) (simp add: agree_def)
qed

lemma demo_colored:
  "\<exists>vs W'. DoBufferColoring demo_space 1 demo_units = Some (Inr (vs, 3, W'))
     \<and> List.map (\<lambda>u. List.map osBufferIndex (fuOutputSpec u)) vs = [[0, 64], [0], [128]]"
proof -
  have "case DoBufferColoring demo_space 1 demo_units of
     Some (Inr (vs, n, W')) \<Rightarrow> n = 3 \<and> List.map (\<lambda>u. List.map osBufferIndex (fuOutputSpec u)) vs = [[0, 64], [0], [128]]
   | _ \<Rightarrow> False" by code_simp
  then show ?thesis by (auto split: option.splits sum.splits)
qed

lemma demo_run: "run_units (\<lambda>_. 1) (\<lambda>j ins. [sum_list ins + 1, 2]) demo_units (\<lambda>x. x) [0..<length demo_units] (\<lambda>_. 0)
  = [([], [1, 2], []), ([1, 1], [3, 2], []), ([3, 2], [6, 2 :: int], [3, 2])]"
  by code_simp

theorem shared_buffers_compute_same_witness:
  "\<exists>vs n W'. DoBufferColoring demo_space 1 demo_units = Some (Inr (vs, n, W'))
     \<and> List.map (\<lambda>u. List.map osBufferIndex (fuOutputSpec u)) vs = [[0, 64], [0], [128]]
     \<and> run_units (\<lambda>_. 1) (\<lambda>j ins. [sum_list ins + 1, 2]) demo_units (shared demo_units vs) [0..<length demo_units] (\<lambda>_. 7)
       = [([], [1, 2], []), ([1, 1], [3, 2], []), ([3, 2], [6, 2 :: int], [3, 2])]"
proof -
  obtain vs W' where d: "DoBufferColoring demo_space 1 demo_units = Some (Inr (vs, 3, W'))"
    "List.map (\<lambda>u. List.map osBufferIndex (fuOutputSpec u)) vs = [[0, 64], [0], [128]]"
    using demo_colored by (elim exE conjE) (rule that)
  have L: "0 < sint (wsBufLength demo_space)" "uint (3 :: u32) * sint (wsBufLength demo_space) \<le> 2 ^ 15"
    by (simp_all add: demo_space_def)
  show ?thesis
    using d shared_buffers_compute_same [OF demo_ok d(1) L, of "\<lambda>_. 1" "\<lambda>j ins. [sum_list ins + 1, 2]" "\<lambda>_. 7 :: int" "\<lambda>_. 0"] demo_run by metis
qed

end
