(* ===== verification/SC_Connect.thy ===== *)
theory SC_Connect
  imports SC_Synths
begin

text \<open>
  From the coloured definition to a synth: \<open>Graph_Ctor\<close> hooks up the units so that every input reads the wire, and the buffer,
  that the output it comes from writes.
\<close>

section \<open>Hooking up as a function\<close>

definition outs_of :: "UnitSpec \<Rightarrow> nat" where
  "outs_of s = length (usOutputSpec s)"

text \<open>The wires of the outputs, and the units that read from wires \<open>F\<close>; the first output of the first unit has wire \<open>c\<close>.\<close>

fun new_wires :: "nat \<Rightarrow> UnitSpec list \<Rightarrow> nat \<Rightarrow> Wire option list" where
  "new_wires i [] c = []"
| "new_wires i (s # ss) c = List.map (\<lambda>j. Some (out_wire i s c j None)) [0..<outs_of s] @ new_wires (Suc i) ss (c + outs_of s)"

definition new_unit :: "Wire option list \<Rightarrow> nat \<Rightarrow> UnitSpec \<Rightarrow> nat \<Rightarrow> Unit" where
  "new_unit F i s c = \<lparr>uCalcRate = usCalcRate s, uInput = usInputSpec s, uInBuf = List.map (\<lambda>ix. map_option wBuffer (F ! ix)) (usInputSpec s),
     uOutput = List.map (\<lambda>j. c + j) [0..<outs_of s], uOutBuf = List.map (\<lambda>j. wBuffer (out_wire i s c j None)) [0..<outs_of s]\<rparr>"

fun new_units :: "Wire option list \<Rightarrow> nat \<Rightarrow> UnitSpec list \<Rightarrow> nat \<Rightarrow> Unit list" where
  "new_units F i [] c = []"
| "new_units F i (s # ss) c = new_unit F i s c # new_units F (Suc i) ss (c + outs_of s)"

fun ins_below :: "nat \<Rightarrow> UnitSpec list \<Rightarrow> bool" where
  "ins_below c [] = True"
| "ins_below c (s # ss) \<longleftrightarrow> (\<forall>ix \<in> set (usInputSpec s). ix < c) \<and> ins_below (c + outs_of s) ss"

definition total_outs :: "UnitSpec list \<Rightarrow> nat" where
  "total_outs ss = sum_list (List.map outs_of ss)"

definition calculated :: "UnitSpec \<Rightarrow> bool" where
  "calculated s \<longleftrightarrow> usCalcRate s = calc_FullRate \<or> usCalcRate s = calc_BufRate"

definition calc_ixs :: "UnitSpec list \<Rightarrow> nat list" where
  "calc_ixs ss = List.filter (\<lambda>k. calculated (ss ! k)) [0..<length ss]"

lemma calc_ixs_Cons: "calc_ixs (s # ss) = (if calculated s then [0] else []) @ List.map Suc (calc_ixs ss)"
  by (simp add: calc_ixs_def upt_conv_Cons filter_map comp_def map_Suc_upt [symmetric] del: upt_Suc)

lemma those_map_Some: "(\<And>x. x \<in> set xs \<Longrightarrow> f x = Some (g x)) \<Longrightarrow> those (List.map f xs) = Some (List.map g xs)"
  by (induction xs) simp_all

lemma hook_inputs_run:
  assumes "\<forall>ix \<in> set (usInputSpec s). ix < length ws"
  shows "hook_inputs s ws u = Some (u\<lparr>uInput := usInputSpec s, uInBuf := List.map (\<lambda>ix. map_option wBuffer (ws ! ix)) (usInputSpec s)\<rparr>)"
proof -
  have "those (List.map (\<lambda>ix. map_option (map_option wBuffer) (aread ws ix)) (usInputSpec s))
    = Some (List.map (\<lambda>ix. map_option wBuffer (ws ! ix)) (usInputSpec s))"
    by (rule those_map_Some) (use assms in simp)
  then show ?thesis by (simp add: hook_inputs_def)
qed

lemma hook_outputs_run:
  "length pre = c + a \<Longrightarrow> hook_outputs i s c [a..<a + n] (pre @ replicate n None @ post) u
   = Some (pre @ List.map (\<lambda>j. Some (out_wire i s c j None)) [a..<a + n] @ post,
       u\<lparr>uOutput := uOutput u @ List.map (\<lambda>j. c + j) [a..<a + n],
         uOutBuf := uOutBuf u @ List.map (\<lambda>j. wBuffer (out_wire i s c j None)) [a..<a + n]\<rparr>)"
proof (induction n arbitrary: a pre u)
  case (Suc n)
  have js: "[a..<a + Suc n] = a # [Suc a..<Suc a + n]" using upt_conv_Cons [of a "a + Suc n"] by simp
  have ws: "aread (pre @ replicate (Suc n) None @ post) (c + a) = Some None"
    "awrite (pre @ replicate (Suc n) None @ post) (c + a) (Some w) = Some ((pre @ [Some w]) @ replicate n None @ post)" for w
    using Suc.prems [symmetric] by (simp_all add: aread_def awrite_def nth_append list_update_append)
  show ?case unfolding js using Suc.IH [of "pre @ [Some (out_wire i s c a None)]" "Suc a"] Suc.prems ws by simp
qed simp

lemma hook_units_run:
  "ins_below c ss \<Longrightarrow> length pre = c \<Longrightarrow> F = pre @ new_wires i ss c \<Longrightarrow>
   hook_units i ss c (pre @ replicate (total_outs ss) None) us calcs
   = Some (F, us @ new_units F i ss c, calcs @ List.map (\<lambda>k. i + k) (calc_ixs ss))"
proof (induction ss arbitrary: i c pre us calcs)
  case (Cons s ss)
  let ?ws = "pre @ replicate (total_outs (s # ss)) None" and ?p = "pre @ List.map (\<lambda>j. Some (out_wire i s c j None)) [0..<outs_of s]"
  have split: "?ws = pre @ replicate (outs_of s) None @ replicate (total_outs ss) None" by (simp add: total_outs_def replicate_add)
  have ins: "\<forall>ix \<in> set (usInputSpec s). ix < length ?ws" using Cons.prems(1,2) by (auto simp: less_le_trans)
  have same: "List.map (\<lambda>ix. map_option wBuffer (?ws ! ix)) (usInputSpec s) = List.map (\<lambda>ix. map_option wBuffer (F ! ix)) (usInputSpec s)"
    by (rule map_cong [OF refl]) (use Cons.prems in \<open>simp add: nth_append\<close>)
  have i1: "hook_inputs s ?ws (Unit_New s) = Some ((Unit_New s)\<lparr>uInput := usInputSpec s, uInBuf := List.map (\<lambda>ix. map_option wBuffer (F ! ix)) (usInputSpec s)\<rparr>)"
    using hook_inputs_run [OF ins] same by simp
  have o1: "hook_outputs i s c [0..<outs_of s] ?ws u = Some (?p @ replicate (total_outs ss) None,
      u\<lparr>uOutput := uOutput u @ List.map (\<lambda>j. c + j) [0..<outs_of s], uOutBuf := uOutBuf u @ List.map (\<lambda>j. wBuffer (out_wire i s c j None)) [0..<outs_of s]\<rparr>)" for u
    using hook_outputs_run [of pre c 0 i s "outs_of s" "replicate (total_outs ss) None" u] Cons.prems(2) unfolding split by simp
  have F: "F = ?p @ new_wires (Suc i) ss (c + outs_of s)" using Cons.prems(3) by simp
  have b: "ins_below (c + outs_of s) ss" "length ?p = c + outs_of s" using Cons.prems by simp_all
  show ?case
    using Cons.IH [OF b F] i1 o1
    by (simp add: calc_ixs_Cons new_unit_def Unit_New_def outs_of_def [symmetric] calculated_def comp_def)
qed (simp add: total_outs_def calc_ixs_def)

lemma total_outs_simps [simp]: "total_outs [] = 0" "total_outs (s # ss) = outs_of s + total_outs ss"
  by (simp_all add: total_outs_def)

lemma length_new_wires [simp]: "length (new_wires i ss c) = total_outs ss"
  by (induction ss arbitrary: i c) simp_all

lemma length_new_units [simp]: "length (new_units F i ss c) = length ss"
  by (induction ss arbitrary: i c) simp_all

lemma nth_new_units: "k < length ss \<Longrightarrow> new_units F i ss c ! k = new_unit F (i + k) (ss ! k) (c + total_outs (take k ss))"
  by (induction ss arbitrary: i c k) (auto simp: nth_Cons' take_Cons' add.assoc)

lemma nth_new_wires:
  "k < length ss \<Longrightarrow> j < outs_of (ss ! k) \<Longrightarrow>
   new_wires i ss c ! (total_outs (take k ss) + j) = Some (out_wire (i + k) (ss ! k) (c + total_outs (take k ss)) j None)"
proof (induction ss arbitrary: i c k)
  case (Cons s ss)
  show ?case
  proof (cases k)
    case 0
    then show ?thesis using Cons.prems by (simp add: nth_append)
  next
    case (Suc k')
    then show ?thesis using Cons.prems Cons.IH [of k' "Suc i" "c + outs_of s"] by (simp add: nth_append add.assoc)
  qed
qed simp

lemma ins_below_iff: "ins_below c ss \<longleftrightarrow> (\<forall>k < length ss. \<forall>ix \<in> set (usInputSpec (ss ! k)). ix < c + total_outs (take k ss))"
proof (induction ss arbitrary: c)
  case (Cons s ss)
  show ?case unfolding ins_below.simps Cons.IH All_less_Suc2 list.size add_0_right add_Suc_right by (simp add: add.assoc)
qed simp

section \<open>The synth of a coloured definition\<close>

text \<open>A unit specification of a definition, as \<open>Graph_Ctor\<close> reads it.\<close>

definition rate_of :: "i16 \<Rightarrow> calc_rate" where
  "rate_of r = (if r = 0 then calc_ScalarRate else if r = 1 then calc_BufRate else if r = 2 then calc_FullRate else calc_DemandRate)"

definition spec_of :: "FileUnitSpec \<Rightarrow> UnitSpec" where
  "spec_of u = \<lparr>usCalcRate = rate_of (fuCalcRate u), usInputSpec = List.map (\<lambda>a. nat (sint (isWireIndex a))) (fuInputSpec u),
     usOutputSpec = List.map (\<lambda>a. nat (sint (osBufferIndex a))) (fuOutputSpec u)\<rparr>"

lemma total_outs_take:
  assumes "same_shape us vs" "k \<le> length us"
  shows "total_outs (take k (List.map spec_of vs)) + i = wire_off us 0 (k, i)"
proof -
  have "List.map outs_of (take k (List.map spec_of vs)) = List.map (\<lambda>u. length (fuOutputSpec (us ! u))) [0..<k]"
    by (rule nth_equalityI) (use assms same_shapeD(1,3) [OF assms(1)] in \<open>auto simp: outs_of_def spec_of_def\<close>)
  then show ?thesis by (simp add: total_outs_def wire_off_def)
qed

lemma total_outs_all: "same_shape us vs \<Longrightarrow> total_outs (List.map spec_of vs) = num_outputs us"
  using num_same [of us vs] by (simp add: total_outs_def num_outputs_def outs_of_def spec_of_def comp_def)

lemma sum_list_take_less: "k < length xs \<Longrightarrow> i < (xs :: nat list) ! k \<Longrightarrow> sum_list (take k xs) + i < sum_list xs"
proof -
  assume k: "k < length xs" and i: "i < xs ! k"
  have "sum_list xs = sum_list (take k xs) + (xs ! k + sum_list (drop (Suc k) xs))"
    by (metis id_take_nth_drop k sum_list.Cons sum_list.append)
  then show ?thesis using i by simp
qed

lemma wire_off_less: "is_out us x \<Longrightarrow> wire_off us 0 x < num_outputs us"
proof -
  assume o: "is_out us x"
  have "List.map (\<lambda>u. length (fuOutputSpec (us ! u))) [0..<fst x] = take (fst x) (List.map (\<lambda>u. length (fuOutputSpec u)) us)"
    by (rule nth_equalityI) (use o in \<open>auto simp: is_out_def\<close>)
  then show ?thesis
    using sum_list_take_less [of "fst x" "List.map (\<lambda>u. length (fuOutputSpec u)) us" "snd x"] o
    by (simp add: wire_off_def num_outputs_def is_out_def)
qed

lemma wire_off_before: "is_out us x \<Longrightarrow> fst x < j \<Longrightarrow> wire_off us 0 x < wire_off us 0 (j, 0)"
proof -
  assume o: "is_out us x" and j: "fst x < j"
  have eq: "List.map (\<lambda>u. length (fuOutputSpec (us ! u))) [0..<fst x] = take (fst x) (List.map (\<lambda>u. length (fuOutputSpec (us ! u))) [0..<j])"
    by (rule nth_equalityI) (use j in auto)
  show ?thesis
    using sum_list_take_less [of "fst x" "List.map (\<lambda>u. length (fuOutputSpec (us ! u))) [0..<j]" "snd x"] o j
    unfolding wire_off_def eq by (simp add: is_out_def)
qed

text \<open>
  Constants are used within their range, the outputs of a unit have its rate, and the numbers of wires fit 16 bits.
\<close>

definition synth_ok :: "FileUnitSpec list \<Rightarrow> f32 list \<Rightarrow> bool" where
  "synth_ok us cs \<longleftrightarrow> length cs + num_outputs us \<le> 2 ^ 15
     \<and> (\<forall>j < length us. \<forall>i < length (fuInputSpec (us ! j)). \<not> from_unit (inp us j i) \<longrightarrow>
         0 \<le> sint (isFromOutputIndex (inp us j i)) \<and> sint (isFromOutputIndex (inp us j i)) < int (length cs))
     \<and> (\<forall>x. is_out us x \<longrightarrow> (osCalcRate (outp us x) = full_rate \<longleftrightarrow> fuCalcRate (us ! fst x) = full_rate))"

definition const_index :: "InputSpec \<Rightarrow> nat" where
  "const_index a = nat (sint (isFromOutputIndex a))"

lemma wire_number: "k < 2 ^ 15 \<Longrightarrow> nat (sint (ucast (of_nat k :: i32) :: i16)) = k"
  using offset_value [of 1 "2 ^ 15" k] by simp

text \<open>The wire of an input, among the constants and the outputs of the units before.\<close>

definition wire_ix :: "FileUnitSpec list \<Rightarrow> nat \<Rightarrow> InputSpec \<Rightarrow> nat" where
  "wire_ix us c a = (if from_unit a then c + wire_off us 0 (src a) else const_index a)"

lemma colored_inputs:
  assumes w: "wired us" and ok: "synth_ok us cs" and s: "same_shape us vs"
    and ow: "\<forall>x. is_out us x \<longrightarrow> owire vs x = ucast (of_nat (length cs) + of_nat (wire_off us 0 x) :: i32)"
    and iw: "\<forall>j < length us. \<forall>i < length (fuInputSpec (us ! j)). iwire vs j i = wire_of_input vs j i"
    and j: "j < length us"
  shows "usInputSpec (List.map spec_of vs ! j) = List.map (wire_ix us (length cs)) (fuInputSpec (us ! j))"
proof (rule nth_equalityI)
  have lv: "j < length vs" "length (fuInputSpec (vs ! j)) = length (fuInputSpec (us ! j))" using same_shapeD(1,2) [OF s] j by simp_all
  show "length (usInputSpec (List.map spec_of vs ! j)) = length (List.map (wire_ix us (length cs)) (fuInputSpec (us ! j)))"
    using lv by (simp add: spec_of_def)
  fix i assume "i < length (usInputSpec (List.map spec_of vs ! j))"
  then have i: "i < length (fuInputSpec (us ! j))" using lv by (simp add: spec_of_def)
  have "nat (sint (iwire vs j i)) = wire_ix us (length cs) (inp us j i)"
  proof (cases "from_unit (inp us j i)")
    case True
    have o: "is_out us (src (inp us j i))" using w j i True by (simp add: wired_def)
    have "length cs + wire_off us 0 (src (inp us j i)) < 2 ^ 15" using wire_off_less [OF o] ok by (simp add: synth_ok_def)
    then have "nat (sint (ucast (of_nat (length cs) + of_nat (wire_off us 0 (src (inp us j i))) :: i32) :: i16))
      = length cs + wire_off us 0 (src (inp us j i))" using wire_number by (metis of_nat_add)
    then show ?thesis
      using iw [rule_format, OF j i] spec [OF ow, of "src (inp us j i)"] o True same_shapeD(5,6) [OF s j i]
      by (simp add: wire_of_input_def wire_ix_def)
  next
    case False
    then show ?thesis
      using iw [rule_format, OF j i] same_shapeD(5,7) [OF s j i] by (simp add: wire_of_input_def wire_ix_def const_index_def)
  qed
  then show "usInputSpec (List.map spec_of vs ! j) ! i = List.map (wire_ix us (length cs)) (fuInputSpec (us ! j)) ! i"
    using lv i by (simp add: spec_of_def iwire_def inp_def)
qed

lemma wire_ix_before:
  assumes w: "wired us" and ok: "synth_ok us cs" and j: "j < length us" and i: "i < length (fuInputSpec (us ! j))"
  shows "wire_ix us (length cs) (inp us j i) < length cs + wire_off us 0 (j, 0)"
proof (cases "from_unit (inp us j i)")
  case True
  then have "is_out us (src (inp us j i))" "fst (src (inp us j i)) < j" using w j i by (simp_all add: wired_def)
  then show ?thesis using wire_off_before True by (simp add: wire_ix_def)
next
  case False
  then have "0 \<le> sint (isFromOutputIndex (inp us j i))" "sint (isFromOutputIndex (inp us j i)) < int (length cs)"
    using ok j i unfolding synth_ok_def by blast+
  then show ?thesis using False by (simp add: wire_ix_def const_index_def)
qed

lemma same_rate: "same_shape us vs \<Longrightarrow> j < length us \<Longrightarrow> fuCalcRate (us ! j) = fuCalcRate (vs ! j)"
proof -
  assume s: "same_shape us vs" and j: "j < length us"
  have "List.map skel us ! j = List.map skel vs ! j" using s by (simp add: same_shape_def)
  then show ?thesis using j same_shapeD(1) [OF s] by (simp add: skel_def)
qed

text \<open>The wires and units of the synth.\<close>

definition synth_wires :: "f32 list \<Rightarrow> UnitSpec list \<Rightarrow> Wire option list" where
  "synth_wires cs ss = List.map (\<lambda>i. Some (constant_wire i (cs ! i))) [0..<length cs] @ new_wires 0 ss (length cs)"

definition synth_units :: "f32 list \<Rightarrow> UnitSpec list \<Rightarrow> Unit list" where
  "synth_units cs ss = new_units (synth_wires cs ss) 0 ss (length cs)"

lemma synth_unit:
  assumes s: "same_shape us vs" and j: "j < length us"
  shows "synth_units cs (List.map spec_of vs) ! j
    = new_unit (synth_wires cs (List.map spec_of vs)) j (spec_of (vs ! j)) (length cs + wire_off us 0 (j, 0))"
    and "outs_of (spec_of (vs ! j)) = length (fuOutputSpec (us ! j))"
proof -
  have l: "length vs = length us" using same_shapeD(1) [OF s] by simp
  have "total_outs (take j (List.map spec_of vs)) = wire_off us 0 (j, 0)" using total_outs_take [OF s, of j 0] j by simp
  then show "synth_units cs (List.map spec_of vs) ! j
    = new_unit (synth_wires cs (List.map spec_of vs)) j (spec_of (vs ! j)) (length cs + wire_off us 0 (j, 0))"
    using nth_new_units [of j "List.map spec_of vs"] j l by (simp add: synth_units_def)
  show "outs_of (spec_of (vs ! j)) = length (fuOutputSpec (us ! j))" using same_shapeD(3) [OF s j] by (simp add: outs_of_def spec_of_def)
qed

lemma synth_out:
  assumes s: "same_shape us vs" and o: "is_out us x"
  shows "uOutBuf (synth_units cs (List.map spec_of vs) ! fst x) ! snd x
    = wBuffer (out_wire (fst x) (spec_of (vs ! fst x)) (length cs + wire_off us 0 (fst x, 0)) (snd x) None)"
    and "synth_wires cs (List.map spec_of vs) ! (length cs + wire_off us 0 x)
    = Some (out_wire (fst x) (spec_of (vs ! fst x)) (length cs + wire_off us 0 (fst x, 0)) (snd x) None)"
proof -
  let ?ss = "List.map spec_of vs"
  have x: "fst x < length us" "snd x < length (fuOutputSpec (us ! fst x))" using o by (simp_all add: is_out_def)
  show "uOutBuf (synth_units cs ?ss ! fst x) ! snd x
    = wBuffer (out_wire (fst x) (spec_of (vs ! fst x)) (length cs + wire_off us 0 (fst x, 0)) (snd x) None)"
    using synth_unit(1) [OF s x(1), of cs] synth_unit(2) [OF s x(1)] x(2) by (simp add: new_unit_def)
  have j: "fst x < length ?ss" "snd x < outs_of (?ss ! fst x)"
    using same_shapeD(1) [OF s] synth_unit(2) [OF s x(1)] x by simp_all
  have t: "total_outs (take (fst x) ?ss) = wire_off us 0 (fst x, 0)" using total_outs_take [OF s, of "fst x" 0] x(1) by simp
  have "wire_off us 0 x = wire_off us 0 (fst x, 0) + snd x" by (simp add: wire_off_def)
  then show "synth_wires cs ?ss ! (length cs + wire_off us 0 x)
    = Some (out_wire (fst x) (spec_of (vs ! fst x)) (length cs + wire_off us 0 (fst x, 0)) (snd x) None)"
    using nth_new_wires [OF j, of 0 "length cs"] j(1) unfolding t by (simp add: nth_append synth_wires_def)
qed

lemma synth_in:
  assumes w: "wired us" and ok: "synth_ok us cs" and s: "same_shape us vs"
    and ins: "usInputSpec (spec_of (vs ! j)) = List.map (wire_ix us (length cs)) (fuInputSpec (us ! j))"
    and j: "j < length us" "i < length (fuInputSpec (us ! j))"
  shows "uInBuf (synth_units cs (List.map spec_of vs) ! j) ! i = (if from_unit (inp us j i)
    then Some (uOutBuf (synth_units cs (List.map spec_of vs) ! fst (src (inp us j i))) ! snd (src (inp us j i)))
    else Some (WireScalar (const_index (inp us j i))))"
proof -
  let ?ss = "List.map spec_of vs"
  have v: "uInBuf (synth_units cs ?ss ! j) ! i = map_option wBuffer (synth_wires cs ?ss ! wire_ix us (length cs) (inp us j i))"
    using synth_unit(1) [OF s j(1), of cs] ins j(2) by (simp add: new_unit_def inp_def)
  show ?thesis
  proof (cases "from_unit (inp us j i)")
    case True
    then have "is_out us (src (inp us j i))" using w j by (simp add: wired_def)
    then show ?thesis using v synth_out [OF s, of "src (inp us j i)" cs] True by (simp add: wire_ix_def)
  next
    case False
    then have "0 \<le> sint (isFromOutputIndex (inp us j i))" "sint (isFromOutputIndex (inp us j i)) < int (length cs)"
      using ok j unfolding synth_ok_def by blast+
    then have "const_index (inp us j i) < length cs" by (simp add: const_index_def)
    then show ?thesis using v False by (simp add: wire_ix_def nth_append constant_wire_def synth_wires_def)
  qed
qed

lemma synth_out_buf:
  assumes s: "same_shape us vs" and ok: "synth_ok us cs" and x: "is_out us x"
    and b: "is_full us x \<Longrightarrow> sint (bufs vs x) = int (col x) * sint L" and L: "0 < sint L"
  shows "uOutBuf (synth_units cs (List.map spec_of vs) ! fst x) ! snd x
    = (if is_full us x then WireBufSpace (col x * nat (sint L)) else WireScalar (length cs + wire_off us 0 x))"
proof -
  have f: "fst x < length vs" "snd x < length (fuOutputSpec (vs ! fst x))" using x same_shapeD(8) [OF s] by (simp_all add: is_out_def)
  have full: "usCalcRate (spec_of (vs ! fst x)) = calc_FullRate \<longleftrightarrow> is_full us x"
    using spec [OF ok [unfolded synth_ok_def, THEN conjunct2, THEN conjunct2], of x] x same_rate [OF s, of "fst x"]
    by (simp add: spec_of_def rate_of_def full_rate_def is_full_def is_out_def)
  show ?thesis
  proof (cases "is_full us x")
    case True
    have "usOutputSpec (spec_of (vs ! fst x)) ! snd x = nat (sint (bufs vs x))" using f by (simp add: spec_of_def bufs_def outp_def)
    then show ?thesis using synth_out(1) [OF s x] full True b L by (simp add: out_wire_def nat_mult_distrib)
  next
    case False
    then show ?thesis using synth_out(1) [OF s x] full by (simp add: out_wire_def wire_off_def)
  qed
qed

lemma synth_hooked:
  assumes w: "wired us" and ok: "synth_ok us cs" and s: "same_shape us vs"
    and ins: "\<And>j. j < length us \<Longrightarrow> usInputSpec (spec_of (vs ! j)) = List.map (wire_ix us (length cs)) (fuInputSpec (us ! j))"
  shows "hook_units 0 (List.map spec_of vs) (length cs)
      (List.map (\<lambda>i. Some (constant_wire i (cs ! i))) [0..<length cs] @ replicate (num_outputs us) None) [] []
    = Some (synth_wires cs (List.map spec_of vs), synth_units cs (List.map spec_of vs), calc_ixs (List.map spec_of vs))"
proof -
  let ?ss = "List.map spec_of vs"
  have l: "length vs = length us" using same_shapeD(1) [OF s] by simp
  have "ins_below (length cs) ?ss" unfolding ins_below_iff length_map l
  proof (intro allI impI ballI)
    fix j ix assume j: "j < length us" "ix \<in> set (usInputSpec (?ss ! j))"
    then obtain i where i: "i < length (fuInputSpec (us ! j))" "ix = wire_ix us (length cs) (inp us j i)"
      using ins [OF j(1)] l by (auto simp: inp_def in_set_conv_nth)
    then show "ix < length cs + total_outs (take j ?ss)"
      using wire_ix_before [OF w ok j(1) i(1)] total_outs_take [OF s, of j 0] j(1) by simp
  qed
  from hook_units_run [OF this _ refl, of "List.map (\<lambda>i. Some (constant_wire i (cs ! i))) [0..<length cs]" 0 "[]" "[]"]
  show ?thesis using total_outs_all [OF s] by (simp add: synth_wires_def synth_units_def)
qed

text \<open>
  C7: \<open>Graph_Ctor\<close> hooks up the units of a coloured definition as the definition says. Every input of a unit reads the very buffer
  that the output it comes from writes, or the constant it names; an output at the full rate has a buffer of the shared space, assigned without
  clashes and below the number of buffers the definition reports, and every other output has a wire of its own.
\<close>

theorem synth_wires_connect:
  assumes "def_ok us" "synth_ok us cs" "DoBufferColoring W (length cs) us = Some (Inr (vs, n, W'))"
    and "0 < sint (wsBufLength W)" "uint n * sint (wsBufLength W) \<le> 2 ^ 15"
    and "dUnitSpecs d = List.map spec_of vs" "dConstants d = cs" "dNumWires d = length cs + num_outputs us"
  shows "\<exists>ws F units calcs col. constant_wires d = Some ws
    \<and> hook_units 0 (dUnitSpecs d) (length (dConstants d)) ws [] [] = Some (F, units, calcs) \<and> length units = length us
    \<and> (\<forall>j < length us. \<forall>i < length (fuInputSpec (us ! j)). uInBuf (units ! j) ! i
        = (if from_unit (inp us j i) then Some (uOutBuf (units ! fst (src (inp us j i))) ! snd (src (inp us j i)))
           else Some (WireScalar (const_index (inp us j i)))))
    \<and> (\<forall>i < length cs. F ! i = Some (constant_wire i (cs ! i)))
    \<and> (\<forall>x. is_out us x \<longrightarrow> uOutBuf (units ! fst x) ! snd x
        = (if is_full us x then WireBufSpace (col x * nat (sint (wsBufLength W))) else WireScalar (length cs + wire_off us 0 x)))
    \<and> no_clash us col \<and> (\<forall>x. is_full us x \<longrightarrow> col x < unat n)"
proof -
  let ?ss = "List.map spec_of vs" and ?L = "wsBufLength W"
  have w: "wired us" using assms(1) by (simp add: def_ok_def)
  obtain us' col l where r: "\<forall>x. is_full us x \<longrightarrow> col x < l" "l \<le> num_outputs us" "no_clash us col" "same_shape us us'"
    "DoBufferColoring W (length cs) us = (if mRunning W \<and> mMaxWireBufs W < of_nat l then Some (Inl Too_many_wire_bufs)
        else Some (Inr (us', of_nat l, if mRunning W then W else W\<lparr>mMaxWireBufs := max (mMaxWireBufs W) (of_nat l)\<rparr>)))"
    "\<forall>x. is_full us x \<longrightarrow> bufs us' x = ucast (of_nat (col x) * ?L)"
    "\<forall>x. is_out us x \<longrightarrow> owire us' x = ucast (of_nat (length cs) + of_nat (wire_off us 0 x) :: i32)"
    "\<forall>j < length us. \<forall>i < length (fuInputSpec (us ! j)). iwire us' j i = wire_of_input us' j i"
    using coloring_result [OF assms(1), of W "length cs"] by blast
  have vs: "us' = vs" "of_nat l = n" using r(5) assms(3) by (auto split: if_splits)
  note s = r(4) [unfolded vs(1)]
  have n: "unat n = l" using r(2) assms(1) vs(2) [symmetric] by (simp add: def_ok_def unat_of_nat take_bit_nat_eq_self)
  then have un: "int l * sint ?L \<le> 2 ^ 15" using assms(5) by (metis uint_nat)
  have ins: "usInputSpec (spec_of (vs ! j)) = List.map (wire_ix us (length cs)) (fuInputSpec (us ! j))" if "j < length us" for j
    using colored_inputs [OF w assms(2) s _ _ that] r(7,8) vs(1) that same_shapeD(1) [OF s] by simp
  have buf: "sint (bufs vs x) = int (col x) * sint ?L" if "is_full us x" for x
    using spec [OF r(6), of x] vs(1) that offset_value [OF assms(4) un, of "col x"] spec [OF r(1), of x] by simp
  have out: "uOutBuf (synth_units cs ?ss ! fst x) ! snd x
      = (if is_full us x then WireBufSpace (col x * nat (sint ?L)) else WireScalar (length cs + wire_off us 0 x))" if "is_out us x" for x
    by (rule synth_out_buf [OF s assms(2) that _ assms(4)]) (rule buf)
  show ?thesis
  proof (intro exI conjI allI impI)
    show "constant_wires d = Some (List.map (\<lambda>i. Some (constant_wire i (cs ! i))) [0..<length cs] @ replicate (num_outputs us) None)"
      using assms(7,8) by (simp add: constant_wires_def)
    show "hook_units 0 (dUnitSpecs d) (length (dConstants d))
        (List.map (\<lambda>i. Some (constant_wire i (cs ! i))) [0..<length cs] @ replicate (num_outputs us) None) [] []
      = Some (synth_wires cs ?ss, synth_units cs ?ss, calc_ixs ?ss)"
      unfolding assms(6,7) by (rule synth_hooked [OF w assms(2) s ins])
    show "length (synth_units cs ?ss) = length us" using same_shapeD(1) [OF s] by (simp add: synth_units_def)
    show "synth_wires cs ?ss ! i = Some (constant_wire i (cs ! i))" if "i < length cs" for i using that by (simp add: synth_wires_def nth_append)
  qed (use r(1,3) n synth_in [OF w assms(2) s ins] out in \<open>blast+\<close>)
qed

definition demo_graphdef :: "FileUnitSpec list \<Rightarrow> GraphDef" where
  "demo_graphdef vs = \<lparr>dName = [], dHash = 0, dNumControls = 0, dInitialControlValues = [], dNumWires = 5,
     dConstants = [440], dUnitSpecs = List.map spec_of vs, dNumCalcUnits = 3, dParamSpecs = [], dParamSpecTable = HashTable_new 4 False,
     dRefCount = 1, dOriginal = 1, dVariants = []\<rparr>"

lemma demo_synth_ok: "synth_ok demo_units [440]"
proof -
  have len: "length demo_units = 3" by (simp add: demo_units_def)
  have "0 \<le> sint (isFromOutputIndex (inp demo_units j i)) \<and> sint (isFromOutputIndex (inp demo_units j i)) < int (length [440])"
    if "j < length demo_units" "i < length (fuInputSpec (demo_units ! j))" "\<not> from_unit (inp demo_units j i)" for j i
    using that unfolding len less_3_cases
    by (auto simp: demo_units_def demo_unit_def demo_in_def inp_def from_unit_def less_2_cases_iff')
  moreover have "\<forall>x. is_out demo_units x \<longrightarrow> (osCalcRate (outp demo_units x) = full_rate \<longleftrightarrow> fuCalcRate (demo_units ! fst x) = full_rate)"
    unfolding is_out_def len less_3_cases
    by (auto simp: demo_units_def demo_unit_def demo_out_def outp_def full_rate_def less_2_cases_iff' nth_Cons')
  ultimately show ?thesis unfolding synth_ok_def demo_outputs by simp
qed

theorem synth_wires_connect_witness:
  "\<exists>vs n W' ws F units calcs. DoBufferColoring demo_space 1 demo_units = Some (Inr (vs, n, W'))
     \<and> hook_units 0 (List.map spec_of vs) 1 ws [] [] = Some (F, units, calcs)
     \<and> uInBuf (units ! 1) ! 0 = Some (uOutBuf (units ! 0) ! 0) \<and> uInBuf (units ! 2) ! 1 = Some (uOutBuf (units ! 0) ! 1)
     \<and> uInBuf (units ! 1) ! 1 = Some (WireScalar 0)"
proof -
  obtain vs W' where d: "DoBufferColoring demo_space 1 demo_units = Some (Inr (vs, 3, W'))"
    using demo_colored by (elim exE conjE) (rule that)
  have L: "0 < sint (wsBufLength demo_space)" "uint (3 :: u32) * sint (wsBufLength demo_space) \<le> 2 ^ 15"
    by (simp_all add: demo_space_def)
  have g: "dUnitSpecs (demo_graphdef vs) = List.map spec_of vs" "dConstants (demo_graphdef vs) = [440]"
    "dNumWires (demo_graphdef vs) = length ([440] :: f32 list) + num_outputs demo_units" by (simp_all add: demo_graphdef_def demo_outputs)
  have d': "DoBufferColoring demo_space (length ([440] :: f32 list)) demo_units = Some (Inr (vs, 3, W'))" using d by simp
  obtain ws F units calcs where r: "hook_units 0 (dUnitSpecs (demo_graphdef vs)) (length (dConstants (demo_graphdef vs))) ws [] [] = Some (F, units, calcs)"
    "\<forall>j < length demo_units. \<forall>i < length (fuInputSpec (demo_units ! j)). uInBuf (units ! j) ! i
        = (if from_unit (inp demo_units j i) then Some (uOutBuf (units ! fst (src (inp demo_units j i))) ! snd (src (inp demo_units j i)))
           else Some (WireScalar (const_index (inp demo_units j i))))"
    using synth_wires_connect [OF demo_ok demo_synth_ok d' L g] by (elim exE conjE) (rule that)
  have u: "1 < length demo_units" "2 < length demo_units" "0 < length (fuInputSpec (demo_units ! 1))" "1 < length (fuInputSpec (demo_units ! 1))"
    "1 < length (fuInputSpec (demo_units ! 2))" by (simp_all add: demo_units_def demo_unit_def)
  have i: "inp demo_units 1 0 = demo_in 0 0" "inp demo_units 1 1 = demo_in (- 1) 0" "inp demo_units 2 1 = demo_in 0 1"
    by (simp_all add: demo_units_def demo_unit_def inp_def)
  have "uInBuf (units ! 1) ! 0 = Some (uOutBuf (units ! 0) ! 0)" "uInBuf (units ! 2) ! 1 = Some (uOutBuf (units ! 0) ! 1)"
    "uInBuf (units ! 1) ! 1 = Some (WireScalar 0)"
    using r(2) [rule_format, OF u(1,3)] r(2) [rule_format, OF u(2,5)] r(2) [rule_format, OF u(1,4)] unfolding i
    by (simp_all add: demo_in_def from_unit_def src_def const_index_def)
  then show ?thesis using d r(1) g(1,2) by (intro exI conjI) (simp, simp, simp+)
qed

end
