(* ===== verification/SC_Reader.thy ===== *)
theory SC_Reader
  imports SC_Connect
begin

text \<open>
  Reading synth definitions (\<open>server/scsynth/SC_GraphDef.cpp\<close>, \<open>include/server/ReadWriteMacros.h\<close>, \<open>server/scsynth/SC_UnitDef.cpp\<close>).

  A buffer is the bytes from the place reached on; \<open>None\<close> is reading past its end, which the code does not notice. An exception is
  a value of type \<open>read_error\<close>. The sizes of the allocations of a synth are not modelled.
\<close>

section \<open>Numbers and names\<close>

definition readInt8 :: "u8 list \<Rightarrow> (i32 \<times> u8 list) option" where
  "readInt8 bs = (case bs of [] \<Rightarrow> None | c # bs \<Rightarrow> Some (scast c, bs))"

definition readInt16_be :: "u8 list \<Rightarrow> (i32 \<times> u8 list) option" where
  "readInt16_be bs = do {
     (c, bs) \<leftarrow> readInt8 bs;
     (d, bs) \<leftarrow> readInt8 bs;
     Some (push_bit 8 (c AND 255) OR (d AND 255), bs) }"

definition readInt32_be :: "u8 list \<Rightarrow> (i32 \<times> u8 list) option" where
  "readInt32_be bs = do {
     (a, bs) \<leftarrow> readInt8 bs;
     (b, bs) \<leftarrow> readInt8 bs;
     (c, bs) \<leftarrow> readInt8 bs;
     (d, bs) \<leftarrow> readInt8 bs;
     Some (push_bit 24 (a AND 255) OR push_bit 16 (b AND 255) OR push_bit 8 (c AND 255) OR (d AND 255), bs) }"

definition readFloat_be :: "u8 list \<Rightarrow> (f32 \<times> u8 list) option" where
  "readFloat_be bs = readInt32_be bs"

definition readData :: "u8 list \<Rightarrow> nat \<Rightarrow> (u8 list \<times> u8 list) option" where
  "readData bs inLength = (if inLength \<le> length bs then Some (take inLength bs, drop inLength bs) else None)"

text \<open>\<open>n\<close> times the same reader.\<close>

fun read_list :: "nat \<Rightarrow> (u8 list \<Rightarrow> ('a \<times> u8 list) option) \<Rightarrow> u8 list \<Rightarrow> ('a list \<times> u8 list) option" where
  "read_list 0 f bs = Some ([], bs)"
| "read_list (Suc n) f bs = do {
     (x, bs) \<leftarrow> f bs;
     (xs, bs) \<leftarrow> read_list n f bs;
     Some (x # xs, bs) }"

text \<open>What may throw, and going on when nothing was thrown.\<close>

type_synonym 'a reading = "(read_error + 'a \<times> u8 list) option"

definition and_then :: "'a reading \<Rightarrow> ('a \<Rightarrow> u8 list \<Rightarrow> 'b reading) \<Rightarrow> 'b reading" where
  "and_then r f = do { r \<leftarrow> r; (case r of Inl e \<Rightarrow> Some (Inl e) | Inr (x, bs) \<Rightarrow> f x bs) }"

text \<open>Names are arrays of eight words, \<open>kSCNameByteLen\<close> bytes, padded with zeros.\<close>

definition kSCNameByteLen :: nat where "kSCNameByteLen = 32"

definition name_words :: "u8 list \<Rightarrow> i32 list" where
  "name_words cs = le_words (cs @ replicate (kSCNameByteLen - length cs) 0)"

definition ReadName :: "u8 list \<Rightarrow> i32 list reading" where
  "ReadName buffer = do {
     (namelen, buffer) \<leftarrow> readInt8 buffer;
     if of_nat kSCNameByteLen \<le> namelen then Some (Inl Name_too_long)
     else do {
       (cs, buffer) \<leftarrow> readData buffer (unat namelen);
       Some (Inr (name_words cs, buffer)) } }"

section \<open>The parts of a definition\<close>

definition ParamSpec_Read :: "u8 list \<Rightarrow> ParamSpec reading" where
  "ParamSpec_Read buffer = and_then (ReadName buffer) (\<lambda>name buffer. do {
     (index, buffer) \<leftarrow> readInt16_be buffer;
     h \<leftarrow> Hash_str4 name;
     Some (Inr (\<lparr>psName = name, psIndex = unat index, psHash = h\<rparr>, buffer)) })"

definition InputSpec_Read :: "u8 list \<Rightarrow> (InputSpec \<times> u8 list) option" where
  "InputSpec_Read buffer = do {
     (u, buffer) \<leftarrow> readInt16_be buffer;
     (i, buffer) \<leftarrow> readInt16_be buffer;
     Some (\<lparr>isFromUnitIndex = ucast u, isFromOutputIndex = ucast i, isWireIndex = - 1\<rparr>, buffer) }"

definition OutputSpec_Read :: "u8 list \<Rightarrow> (OutputSpec \<times> u8 list) option" where
  "OutputSpec_Read buffer = do {
     (rate, buffer) \<leftarrow> readInt8 buffer;
     Some (\<lparr>osCalcRate = ucast rate, osWireIndex = - 1, osBufferIndex = - 1, osNumConsumers = 0\<rparr>, buffer) }"

text \<open>The library of units: a table of definitions by name.\<close>

definition unitdef_kv :: "(UnitDef, i32 list) reader" where
  "unitdef_kv u = Some (udHash u, udName u)"

definition AddUnitDef :: "UnitDef \<Rightarrow> UnitDef HashTable \<Rightarrow> (bool \<times> UnitDef HashTable) option" where
  "AddUnitDef inUnitDef lib = Add unitdef_kv str4eq lib inUnitDef"

definition RemoveUnitDef :: "UnitDef \<Rightarrow> UnitDef HashTable \<Rightarrow> (bool \<times> UnitDef HashTable) option" where
  "RemoveUnitDef inUnitDef lib = Remove unitdef_kv str4eq lib inUnitDef"

definition GetUnitDef :: "i32 list \<Rightarrow> UnitDef HashTable \<Rightarrow> UnitDef option option" where
  "GetUnitDef inKey lib = HashTable_Get unitdef_kv lib inKey"

text \<open>The name is a C string; what \<open>str4cpy\<close> leaves unset of the array is not read.\<close>

definition UnitDef_Create :: "u8 list \<Rightarrow> nat \<Rightarrow> u32 \<Rightarrow> UnitDef HashTable \<Rightarrow> (bool \<times> UnitDef HashTable) option" where
  "UnitDef_Create inName inAllocSize inFlags lib = do {
     n \<leftarrow> cstrlen inName;
     if kSCNameByteLen \<le> n then Some (False, lib)
     else do {
       cs \<leftarrow> str4cpy_bytes inName;
       h \<leftarrow> Hash_str4 (le_words cs);
       AddUnitDef \<lparr>udName = le_words cs, udHash = h, udAllocSize = inAllocSize, udFlags = inFlags\<rparr> lib } }"

definition UnitSpec_Read :: "UnitDef HashTable \<Rightarrow> u8 list \<Rightarrow> FileUnitSpec reading" where
  "UnitSpec_Read lib buffer = and_then (ReadName buffer) (\<lambda>name buffer. do {
     def \<leftarrow> GetUnitDef name lib;
     (case def of
        None \<Rightarrow> Some (Inl UGen_not_installed)
      | Some ud \<Rightarrow> do {
          (rate, buffer) \<leftarrow> readInt8 buffer;
          (numInputs, buffer) \<leftarrow> readInt16_be buffer;
          (numOutputs, buffer) \<leftarrow> readInt16_be buffer;
          (special, buffer) \<leftarrow> readInt16_be buffer;
          (ins, buffer) \<leftarrow> read_list (unat numInputs) InputSpec_Read buffer;
          (outs, buffer) \<leftarrow> read_list (unat numOutputs) OutputSpec_Read buffer;
          Some (Inr (\<lparr>fuUnitDef = ud, fuCalcRate = ucast rate, fuSpecialIndex = ucast special,
            fuInputSpec = ins, fuOutputSpec = outs, fuRateInfo = None\<rparr>, buffer)) }) })"

text \<open>The rate of a unit: the ones calculated in every block are at the full or the block rate; another number leaves \<open>mRateInfo\<close> unset.\<close>

definition set_rate :: "FileUnitSpec \<Rightarrow> FileUnitSpec" where
  "set_rate u = u\<lparr>fuRateInfo :=
     (if fuCalcRate u = full_rate then Some mFullRate
      else if fuCalcRate u = 0 \<or> fuCalcRate u = 1 \<or> fuCalcRate u = 3 then Some mBufRate
      else fuRateInfo u)\<rparr>"

definition calc_unit :: "FileUnitSpec \<Rightarrow> bool" where
  "calc_unit u \<longleftrightarrow> fuCalcRate u = 1 \<or> fuCalcRate u = full_rate"

record FileVariant =
  fvName :: "i32 list"
  fvHash :: i32
  fvInitialControlValues :: "f32 list"

record FileGraphDef =
  fgName :: "i32 list"
  fgHash :: i32
  fgConstants :: "f32 list"
  fgInitialControlValues :: "f32 list"
  fgParamSpecs :: "ParamSpec list"
  fgParamSpecTable :: "nat HashTable"
  fgUnitSpecs :: "FileUnitSpec list"
  fgNumCalcUnits :: nat
  fgNumWires :: nat
  fgNumWireBufs :: u32
  fgRefCount :: int
  fgVariants :: "FileVariant list"

text \<open>The table of parameters has the parameters by their place in the array.\<close>

definition spec_kv :: "ParamSpec list \<Rightarrow> (nat, i32 list) reader" where
  "spec_kv ps i = (if i < length ps then Some (psHash (ps ! i), psName (ps ! i)) else None)"

fun read_params :: "nat \<Rightarrow> ParamSpec list \<Rightarrow> nat HashTable \<Rightarrow> u8 list \<Rightarrow> (ParamSpec list \<times> nat HashTable) reading" where
  "read_params 0 ps table buffer = Some (Inr ((ps, table), buffer))"
| "read_params (Suc n) ps table buffer = and_then (ParamSpec_Read buffer) (\<lambda>p buffer. do {
     (_, table) \<leftarrow> Add (spec_kv (ps @ [p])) str4eq table (length ps);
     read_params n (ps @ [p]) table buffer })"

fun read_units :: "nat \<Rightarrow> UnitDef HashTable \<Rightarrow> u8 list \<Rightarrow> FileUnitSpec list reading" where
  "read_units 0 lib buffer = Some (Inr ([], buffer))"
| "read_units (Suc n) lib buffer = and_then (UnitSpec_Read lib buffer) (\<lambda>u buffer.
     and_then (read_units n lib buffer) (\<lambda>us buffer. Some (Inr (set_rate u # us, buffer))))"

definition GraphDef_ReadVariant :: "nat \<Rightarrow> u8 list \<Rightarrow> FileVariant reading" where
  "GraphDef_ReadVariant numControls buffer = and_then (ReadName buffer) (\<lambda>name buffer. do {
     h \<leftarrow> Hash_str4 name;
     (vs, buffer) \<leftarrow> read_list numControls readFloat_be buffer;
     Some (Inr (\<lparr>fvName = name, fvHash = h, fvInitialControlValues = vs\<rparr>, buffer)) })"

fun read_variants :: "nat \<Rightarrow> nat \<Rightarrow> u8 list \<Rightarrow> FileVariant list reading" where
  "read_variants 0 numControls buffer = Some (Inr ([], buffer))"
| "read_variants (Suc n) numControls buffer = and_then (GraphDef_ReadVariant numControls buffer) (\<lambda>v buffer.
     and_then (read_variants n numControls buffer) (\<lambda>vs buffer. Some (Inr (v # vs, buffer))))"

section \<open>Definitions and files\<close>

text \<open>Up to coloring.\<close>

definition read_graph :: "UnitDef HashTable \<Rightarrow> u8 list \<Rightarrow> FileGraphDef reading" where
  "read_graph lib buffer = and_then (ReadName buffer) (\<lambda>name buffer. do {
     h \<leftarrow> Hash_str4 name;
     (numConstants, buffer) \<leftarrow> readInt16_be buffer;
     (constants, buffer) \<leftarrow> read_list (unat numConstants) readFloat_be buffer;
     (numControls, buffer) \<leftarrow> readInt16_be buffer;
     (controls, buffer) \<leftarrow> read_list (unat numControls) readFloat_be buffer;
     (numParamSpecs, buffer) \<leftarrow> readInt16_be buffer;
     let table = HashTable_new (if numParamSpecs \<noteq> 0 then unat (NEXTPOWEROFTWO numParamSpecs) else 4) False;
     and_then (read_params (unat numParamSpecs) [] table buffer) (\<lambda>(params, table) buffer. do {
       (numUnitSpecs, buffer) \<leftarrow> readInt16_be buffer;
       and_then (read_units (unat numUnitSpecs) lib buffer) (\<lambda>us buffer.
         Some (Inr (\<lparr>fgName = name, fgHash = h, fgConstants = constants, fgInitialControlValues = controls,
           fgParamSpecs = params, fgParamSpecTable = table, fgUnitSpecs = us,
           fgNumCalcUnits = length (List.filter calc_unit us),
           fgNumWires = length constants + sum_list (List.map (\<lambda>u. length (fuOutputSpec u)) us),
           fgNumWireBufs = 0, fgRefCount = 0, fgVariants = []\<rparr>, buffer))) }) })"

text \<open>Coloring may raise the number of buffers of an engine that does not run yet; that stays when something is thrown later.\<close>

definition GraphDef_Read :: "UnitDef HashTable \<Rightarrow> i32 \<Rightarrow> wire_space \<Rightarrow> u8 list
    \<Rightarrow> (wire_space \<times> (read_error + FileGraphDef \<times> u8 list)) option" where
  "GraphDef_Read lib inVersion W buffer = do {
     r \<leftarrow> read_graph lib buffer;
     (case r of
        Inl e \<Rightarrow> Some (W, Inl e)
      | Inr (g, buffer) \<Rightarrow> do {
          c \<leftarrow> DoBufferColoring W (length (fgConstants g)) (fgUnitSpecs g);
          (case c of
             Inl e \<Rightarrow> Some (W, Inl e)
           | Inr (us, n, W) \<Rightarrow>
               (let g = g\<lparr>fgUnitSpecs := us, fgNumWireBufs := n, fgRefCount := 1\<rparr>
                in if 1 \<le> sint inVersion then do {
                     (numVariants, buffer) \<leftarrow> readInt16_be buffer;
                     v \<leftarrow> read_variants (unat numVariants) (length (fgInitialControlValues g)) buffer;
                     (case v of
                        Inl e \<Rightarrow> Some (W, Inl e)
                      | Inr (vs, buffer) \<Rightarrow> Some (W, Inr (g\<lparr>fgVariants := vs\<rparr>, buffer))) }
                   else Some (W, Inr (g, buffer)))) }) }"

text \<open>Definitions are put in front of the list.\<close>

fun read_defs :: "nat \<Rightarrow> UnitDef HashTable \<Rightarrow> i32 \<Rightarrow> wire_space \<Rightarrow> u8 list \<Rightarrow> FileGraphDef list
    \<Rightarrow> (wire_space \<times> (read_error + FileGraphDef list)) option" where
  "read_defs 0 lib version W buffer inList = Some (W, Inr inList)"
| "read_defs (Suc n) lib version W buffer inList = do {
     (W, r) \<leftarrow> GraphDef_Read lib version W buffer;
     (case r of
        Inl e \<Rightarrow> Some (W, Inl e)
      | Inr (g, buffer) \<Rightarrow> read_defs n lib version W buffer (g # inList)) }"

definition SCgf :: i32 where "SCgf = 0x53436766"

definition GraphDefLib_Read :: "UnitDef HashTable \<Rightarrow> wire_space \<Rightarrow> u8 list \<Rightarrow> FileGraphDef list
    \<Rightarrow> (wire_space \<times> (read_error + FileGraphDef list)) option" where
  "GraphDefLib_Read lib W buffer inList = do {
     (magic, buffer) \<leftarrow> readInt32_be buffer;
     if magic \<noteq> SCgf then Some (W, Inr inList)
     else do {
       (version, buffer) \<leftarrow> readInt32_be buffer;
       if 1 < sint version then Some (W, Inr inList)
       else do {
         (numDefs, buffer) \<leftarrow> readInt16_be buffer;
         read_defs (unat numDefs) lib version W buffer inList } } }"

text \<open>What is thrown is reported and the list given is returned.\<close>

definition GraphDef_Recv :: "UnitDef HashTable \<Rightarrow> wire_space \<Rightarrow> u8 list \<Rightarrow> FileGraphDef list
    \<Rightarrow> (wire_space \<times> FileGraphDef list) option" where
  "GraphDef_Recv lib W buffer inList = do {
     (W, r) \<leftarrow> GraphDefLib_Read lib W buffer inList;
     Some (W, case r of Inl e \<Rightarrow> inList | Inr gs \<Rightarrow> gs) }"

section \<open>Files and directories\<close>

text \<open>
  What the file system answers: the bytes of a file that can be read, the files a pattern stands for, the items of a directory with those to be
  skipped, and whether an item is a directory.
\<close>

record files =
  fileBytes :: "u8 list \<Rightarrow> u8 list option"
  globNames :: "u8 list \<Rightarrow> u8 list list option"
  dirItems :: "u8 list \<Rightarrow> (u8 list \<times> bool) list option"
  isDirectory :: "u8 list \<Rightarrow> bool"

definition GraphDef_Load :: "files \<Rightarrow> UnitDef HashTable \<Rightarrow> u8 list \<Rightarrow> wire_space \<Rightarrow> FileGraphDef list
    \<Rightarrow> (wire_space \<times> FileGraphDef list) option" where
  "GraphDef_Load F lib filename W inList = (case fileBytes F filename of
     None \<Rightarrow> Some (W, inList)
   | Some buffer \<Rightarrow> do {
       (W, r) \<leftarrow> GraphDefLib_Read lib W buffer inList;
       Some (W, case r of Inl e \<Rightarrow> inList | Inr gs \<Rightarrow> gs) })"

text \<open>The suffix \<open>.scsyndef\<close>; of a shorter name the bytes before it would be read.\<close>

definition scsyndef :: "u8 list" where
  "scsyndef = [46, 115, 99, 115, 121, 110, 100, 101, 102]"

definition is_scsyndef :: "u8 list \<Rightarrow> bool option" where
  "is_scsyndef filename = (if length filename < 9 then None else Some (drop (length filename - 9) filename = scsyndef))"

text \<open>Each file of a pattern is read a second time and that result dropped.\<close>

fun glob_loop :: "files \<Rightarrow> UnitDef HashTable \<Rightarrow> u8 list list \<Rightarrow> wire_space \<Rightarrow> FileGraphDef list \<Rightarrow> (wire_space \<times> FileGraphDef list) option" where
  "glob_loop F lib [] W inList = Some (W, inList)"
| "glob_loop F lib (filename # names) W inList = do {
     b \<leftarrow> is_scsyndef filename;
     (W, inList) \<leftarrow> (if b then GraphDef_Load F lib filename W inList else Some (W, inList));
     (W, _) \<leftarrow> GraphDef_Load F lib filename W inList;
     glob_loop F lib names W inList }"

definition GraphDef_LoadGlob :: "files \<Rightarrow> UnitDef HashTable \<Rightarrow> u8 list \<Rightarrow> wire_space \<Rightarrow> FileGraphDef list
    \<Rightarrow> (wire_space \<times> FileGraphDef list) option" where
  "GraphDef_LoadGlob F lib pattern W inList = (case globNames F pattern of
     None \<Rightarrow> Some (W, inList) | Some names \<Rightarrow> glob_loop F lib names W inList)"

text \<open>The items of a directory; \<open>sub\<close> loads a directory. The depth of directories is bounded by \<open>k\<close>.\<close>

fun dir_loop :: "files \<Rightarrow> UnitDef HashTable \<Rightarrow> (u8 list \<Rightarrow> wire_space \<Rightarrow> FileGraphDef list \<Rightarrow> (wire_space \<times> FileGraphDef list) option)
    \<Rightarrow> (u8 list \<times> bool) list \<Rightarrow> wire_space \<Rightarrow> FileGraphDef list \<Rightarrow> (wire_space \<times> FileGraphDef list) option" where
  "dir_loop F lib sub [] W inList = Some (W, inList)"
| "dir_loop F lib sub ((diritem, skipItem) # its) W inList =
     (if skipItem then dir_loop F lib sub its W inList
      else do {
        (W, inList) \<leftarrow> (if isDirectory F diritem then sub diritem W inList
          else do {
            b \<leftarrow> is_scsyndef diritem;
            if b then GraphDef_Load F lib diritem W inList else Some (W, inList) });
        dir_loop F lib sub its W inList })"

fun GraphDef_LoadDir :: "nat \<Rightarrow> files \<Rightarrow> UnitDef HashTable \<Rightarrow> u8 list \<Rightarrow> wire_space \<Rightarrow> FileGraphDef list
    \<Rightarrow> (wire_space \<times> FileGraphDef list) option" where
  "GraphDef_LoadDir 0 F lib dirname W inList = None"
| "GraphDef_LoadDir (Suc k) F lib dirname W inList = (case dirItems F dirname of
     None \<Rightarrow> Some (W, inList) | Some its \<Rightarrow> dir_loop F lib (GraphDef_LoadDir k F lib) its W inList)"

end
