(* ===== verification/SC_Files.thy ===== *)
theory SC_Files
  imports SC_Reader
begin

text \<open>
  The format of synth definition files, as a function from descriptions of definitions to bytes: reading a file gives the definitions
  described, and a definition that cannot be read takes those before it in the file along.
\<close>

section \<open>Descriptions and their bytes\<close>

record SrcUnit =
  suName :: "u8 list"
  suRate :: u8
  suSpecial :: i16
  suIns :: "(i16 \<times> i16) list"
  suOuts :: "u8 list"

record SrcDef =
  sdName :: "u8 list"
  sdConstants :: "f32 list"
  sdControls :: "f32 list"
  sdParams :: "(u8 list \<times> i16) list"
  sdUnits :: "SrcUnit list"
  sdVariants :: "(u8 list \<times> f32 list) list"

definition be16 :: "i16 \<Rightarrow> u8 list" where
  "be16 x = [ucast (drop_bit 8 x), ucast x]"

definition enc_name :: "u8 list \<Rightarrow> u8 list" where
  "enc_name cs = of_nat (length cs) # cs"

definition enc_list :: "('a \<Rightarrow> u8 list) \<Rightarrow> 'a list \<Rightarrow> u8 list" where
  "enc_list f xs = be16 (of_nat (length xs)) @ concat (List.map f xs)"

definition enc_param :: "u8 list \<times> i16 \<Rightarrow> u8 list" where
  "enc_param p = enc_name (fst p) @ be16 (snd p)"

definition enc_unit :: "SrcUnit \<Rightarrow> u8 list" where
  "enc_unit u = enc_name (suName u) @ [suRate u] @ be16 (of_nat (length (suIns u))) @ be16 (of_nat (length (suOuts u)))
     @ be16 (suSpecial u) @ concat (List.map (\<lambda>p. be16 (fst p) @ be16 (snd p)) (suIns u)) @ suOuts u"

definition enc_variant :: "u8 list \<times> f32 list \<Rightarrow> u8 list" where
  "enc_variant v = enc_name (fst v) @ concat (List.map be32_bytes (snd v))"

definition enc_def :: "SrcDef \<Rightarrow> u8 list" where
  "enc_def d = enc_name (sdName d) @ enc_list be32_bytes (sdConstants d) @ enc_list be32_bytes (sdControls d)
     @ enc_list enc_param (sdParams d) @ enc_list enc_unit (sdUnits d) @ enc_list enc_variant (sdVariants d)"

definition enc_file :: "SrcDef list \<Rightarrow> u8 list" where
  "enc_file ds = be32_bytes SCgf @ be32_bytes 1 @ enc_list enc_def ds"

section \<open>Reading back numbers\<close>

lemma readInt8_Cons [simp]: "readInt8 (c # bs) = Some (scast c, bs)"
  by (simp add: readInt8_def)

lemma byte_of_char: "(scast (c :: u8) :: i32) AND 255 = ucast c"
proof (rule bit_word_eqI)
  fix n assume n: "n < LENGTH(32)"
  have "bit (255 :: i32) n \<longleftrightarrow> n < 8"
    using bit_mask_iff [of 8 n, where 'a = i32] n by (simp add: mask_eq_exp_minus_1)
  moreover have "min 7 n = n" if "n < 8" using that by simp
  ultimately show "bit ((scast c :: i32) AND 255) n \<longleftrightarrow> bit (ucast c :: i32) n"
    using n by (auto simp: bit_and_iff bit_signed_iff bit_unsigned_iff dest: bit_imp_le_length)
qed

lemma readInt16_be16: "readInt16_be (be16 x @ bs) = Some (ucast x, bs)"
proof -
  have "push_bit 8 (ucast (ucast (drop_bit 8 x) :: u8) :: i32) OR ucast (ucast x :: u8) = (ucast x :: i32)"
    by (rule bit_word_eqI) (auto simp: bit_simps dest: bit_imp_le_length)
  then show ?thesis by (simp only: readInt16_be_def be16_def append_Cons append_Nil readInt8_Cons bind.simps case_prod_conv byte_of_char)
qed

lemma readInt32_bytes: "readInt32_be (be32_bytes x @ bs) = Some (x, bs)"
proof -
  have "push_bit 24 (ucast (ucast (drop_bit 24 x) :: u8) :: i32) OR push_bit 16 (ucast (ucast (drop_bit 16 x) :: u8))
    OR push_bit 8 (ucast (ucast (drop_bit 8 x) :: u8)) OR ucast (ucast x :: u8) = x"
    using be32_be32_bytes [of x] unfolding be32_def .
  then show ?thesis by (simp only: readInt32_be_def be32_bytes_def append_Cons append_Nil readInt8_Cons bind.simps case_prod_conv byte_of_char)
qed

lemma readFloat_bytes: "readFloat_be (be32_bytes x @ bs) = Some (x, bs)"
  by (simp add: readFloat_be_def readInt32_bytes)

lemma readInt16_of_nat: "n < 2 ^ 16 \<Longrightarrow> readInt16_be (be16 (of_nat n) @ bs) = Some (of_nat n, bs)"
proof -
  assume n: "n < 2 ^ 16"
  have "(ucast (of_nat n :: i16) :: i32) = of_nat n"
    using n by transfer (simp add: take_bit_int_eq_self)
  then show ?thesis by (simp add: readInt16_be16)
qed

lemma unat_of_small: "n < 2 ^ 16 \<Longrightarrow> unat (of_nat n :: i32) = n"
  by (simp add: unat_of_nat take_bit_nat_eq_self)

lemma unat_small16: "n < 2 ^ 16 \<Longrightarrow> unat (of_nat n :: i16) = n"
  by (simp add: unat_of_nat take_bit_nat_eq_self)

lemma read_list_concat:
  "(\<And>x bs. x \<in> set xs \<Longrightarrow> f (e x @ bs) = Some (g x, bs)) \<Longrightarrow> read_list (length xs) f (concat (List.map e xs) @ bs) = Some (List.map g xs, bs)"
  by (induction xs) simp_all

lemma ReadName_enc: "length cs < 32 \<Longrightarrow> ReadName (enc_name cs @ bs) = Some (Inr (name_words cs, bs))"
proof -
  assume l: "length cs < 32"
  have s: "(scast (of_nat (length cs) :: u8) :: i32) = of_nat (length cs)"
    using l by transfer (simp add: signed_take_bit_int_eq_self)
  have u: "unat (of_nat (length cs) :: i32) = length cs" using l by (simp add: unat_of_nat take_bit_nat_eq_self)
  have "\<not> of_nat kSCNameByteLen \<le> (of_nat (length cs) :: i32)" using l u by (simp add: word_le_nat_alt kSCNameByteLen_def)
  then show ?thesis unfolding ReadName_def enc_name_def append_Cons readInt8_Cons by (simp add: s u readData_def)
qed

section \<open>Names as keys\<close>

text \<open>Words up to the one whose last byte is zero, then zeros only.\<close>

fun zero_padded :: "i32 list \<Rightarrow> bool" where
  "zero_padded [] = False"
| "zero_padded (c # cs) = (if c AND kLASTCHAR = 0 then \<forall>w \<in> set cs. w = 0 else zero_padded cs)"

definition padded :: "i32 list \<Rightarrow> bool" where
  "padded k \<longleftrightarrow> length k = 8 \<and> zero_padded k"

lemma zeros_eq: "(\<forall>w \<in> set xs. w = 0) \<Longrightarrow> (\<forall>w \<in> set ys. w = 0) \<Longrightarrow> length xs = length ys \<Longrightarrow> xs = (ys :: i32 list)"
  by (metis nth_equalityI nth_mem)

lemma str4eq_zero_padded: "zero_padded a \<Longrightarrow> zero_padded b \<Longrightarrow> length a = length b \<Longrightarrow> str4eq a b = Some (a = b)"
proof (induction a arbitrary: b)
  case (Cons x xs)
  obtain y ys where b: "b = y # ys" using Cons.prems(3) by (cases b) auto
  show ?case
  proof (cases "x AND kLASTCHAR = 0")
    case True
    have "xs = ys" if "x = y" using that True Cons.prems b by (intro zeros_eq) auto
    then show ?thesis using True b by auto
  next
    case False
    show ?thesis
    proof (cases "x = y")
      case True
      then show ?thesis using False Cons.IH [of ys] Cons.prems b by simp
    qed (use b in simp)
  qed
qed simp

interpretation name_keys: key_comparer str4eq padded
  by unfold_locales (simp add: padded_def str4eq_zero_padded)

lemma Hash_zero_padded: "zero_padded k \<Longrightarrow> \<exists>h. Hash_str4 k = Some h"
proof -
  have "zero_padded k \<Longrightarrow> \<exists>r. hash_str4_loop h k = Some r" for h
    by (induction k arbitrary: h) (auto simp: Let_def split: if_splits)
  then show "zero_padded k \<Longrightarrow> \<exists>h. Hash_str4 k = Some h" by (simp add: Hash_str4_def)
qed

lemma hash4_padded: "padded k \<Longrightarrow> Hash_str4 k = Some (hash4 k)"
  using Hash_zero_padded [of k] by (auto simp: padded_def hash4_def)

definition name_ok :: "u8 list \<Rightarrow> bool" where
  "name_ok cs \<longleftrightarrow> length cs < 32 \<and> 0 \<notin> set cs"

lemma le_words_zeros: "\<forall>c \<in> set bs. c = 0 \<Longrightarrow> \<forall>w \<in> set (le_words bs). w = 0"
  by (induction bs rule: le_words.induct) (simp_all add: be32_def)

lemma zeros_replicate: "\<forall>w \<in> set (le_words (replicate m 0)). w = 0"
  by (rule le_words_zeros) simp

lemma dvd4_Suc: "4 dvd Suc (Suc (Suc (Suc n))) \<longleftrightarrow> 4 dvd n"
  by presburger

lemma zero_padded_words: "0 \<notin> set cs \<Longrightarrow> 0 < m \<Longrightarrow> 4 dvd length cs + m \<Longrightarrow> zero_padded (le_words (cs @ replicate m 0))"
proof (induction cs rule: le_words.induct, goal_cases)
  case (1 a b c d bs)
  then show ?case by (simp add: dvd4_Suc)
next
  case 2
  then have "m = Suc (Suc (Suc (Suc (m - 4))))" by (simp, presburger)
  then obtain m' where "m = Suc (Suc (Suc (Suc m')))" by blast
  then show ?case using zeros_replicate [of m'] by simp
next
  case (3 a)
  then have "m = Suc (Suc (Suc (m - 3)))" by (simp, presburger)
  then obtain m' where "m = Suc (Suc (Suc m'))" by blast
  then show ?case using zeros_replicate [of m'] by simp
next
  case (4 a b)
  then have "m = Suc (Suc (m - 2))" by (simp, presburger)
  then obtain m' where "m = Suc (Suc m')" by blast
  then show ?case using zeros_replicate [of m'] by simp
next
  case (5 a b c)
  then obtain m' where "m = Suc m'" by (cases m) auto
  then show ?case using zeros_replicate [of m'] by simp
qed

lemma length_le_words: "4 dvd length bs \<Longrightarrow> length (le_words bs) = length bs div 4"
  by (induction bs rule: le_words.induct) (simp_all add: dvd4_Suc)

lemma name_words_padded: "name_ok cs \<Longrightarrow> padded (name_words cs)"
  using zero_padded_words [of cs "32 - length cs"] length_le_words [of "cs @ replicate (32 - length cs) 0"]
  by (simp add: padded_def name_words_def name_ok_def kSCNameByteLen_def)

lemma name_hash [simp]: "name_ok cs \<Longrightarrow> Hash_str4 (name_words cs) = Some (hash4 (name_words cs))"
  using name_words_padded hash4_padded by blast

lemma ReadName_ok: "name_ok cs \<Longrightarrow> ReadName (enc_name cs @ bs) = Some (Inr (name_words cs, bs))"
  by (simp add: ReadName_enc name_ok_def)

lemma Cons_length4: "length ys = Suc (Suc (Suc (Suc n))) \<Longrightarrow> \<exists>a b c d cs. ys = a # b # c # d # cs"
  by (auto simp: length_Suc_conv)

lemma le_words_inject: "length xs = length ys \<Longrightarrow> 4 dvd length xs \<Longrightarrow> le_words xs = le_words ys \<Longrightarrow> xs = ys"
proof (induction xs arbitrary: ys rule: le_words.induct)
  case (1 a b c d bs)
  then obtain a' b' c' d' cs where ys: "ys = a' # b' # c' # d' # cs"
    using Cons_length4 [of ys "length bs"] by auto
  then show ?case using 1 by (simp add: dvd4_Suc)
qed (auto, presburger+)

lemma takeWhile_zeros: "0 \<notin> set cs \<Longrightarrow> takeWhile (\<lambda>c. c \<noteq> 0) (cs @ replicate m 0) = cs"
  by (induction cs) auto

lemma name_words_inject: "name_ok cs \<Longrightarrow> name_ok ds \<Longrightarrow> name_words cs = name_words ds \<longleftrightarrow> cs = ds"
proof
  assume ok: "name_ok cs" "name_ok ds" and eq: "name_words cs = name_words ds"
  have "cs @ replicate (32 - length cs) 0 = ds @ replicate (32 - length ds) 0"
    by (rule le_words_inject) (use ok eq in \<open>simp_all add: name_ok_def name_words_def kSCNameByteLen_def\<close>)
  then show "cs = ds" using takeWhile_zeros ok unfolding name_ok_def by metis
qed simp

section \<open>The table of parameters\<close>

lemma index_loop_cong:
  "(\<And>it. it \<in> items t \<Longrightarrow> kv it = kv' it) \<Longrightarrow> index_loop kv eqk t h k n i = index_loop kv' eqk t h k n i"
proof (induction n arbitrary: i)
  case (Suc n)
  have "kv it = kv' it" if "aread (mItems t) (unat i) = Some (Some it)" for it
  proof -
    have "Some it \<in> set (mItems t)" using that by (auto simp: aread_def in_set_conv_nth split: if_splits)
    then show ?thesis using Suc.prems by (simp add: items_def)
  qed
  then show ?case using Suc.IH [OF Suc.prems] by (auto split: bind_split option.split)
qed simp

lemma Add_cong:
  assumes "\<And>it. it \<in> items t \<Longrightarrow> kv it = kv' it" "kv p = kv' p" "mNumItems t < mMaxItems t"
  shows "Add kv eqk t p = Add kv' eqk t p"
proof -
  have "IndexFor kv eqk t h k = IndexFor kv' eqk t h k" for h k
    unfolding IndexFor_def by (rule index_loop_cong) (rule assms(1))
  then show ?thesis using assms(2,3) by (simp add: Add_def numeral_2_eq_2 Add_here_def)
qed

text \<open>A table with the first \<open>i\<close> of the parameters \<open>F\<close>.\<close>

definition param_inv :: "ParamSpec list \<Rightarrow> nat \<Rightarrow> nat \<Rightarrow> nat HashTable \<Rightarrow> bool" where
  "param_inv F m i t \<longleftrightarrow> table_inv (spec_kv F) padded m t \<and> items t = {..<i} \<and> mNumItems t = i"

definition params_ok :: "ParamSpec list \<Rightarrow> bool" where
  "params_ok F \<longleftrightarrow> (\<forall>p \<in> set F. padded (psName p) \<and> psHash p = hash4 (psName p)) \<and> distinct (List.map psName F)"

lemma add_param:
  assumes inv: "param_inv F m i t" and i: "i < length F" "i < 2 ^ (m - 1)" and ok: "params_ok F"
  shows "\<exists>t'. Add (spec_kv (take (Suc i) F)) str4eq t i = Some (True, t') \<and> param_inv F m (Suc i) t'"
proof -
  have ti: "table_inv (spec_kv F) padded m t" "items t = {..<i}" "mNumItems t = i" using inv by (simp_all add: param_inv_def)
  have room: "mNumItems t < mMaxItems t" using ti i(2) by (simp add: table_inv_def)
  have kv: "spec_kv F i = Some (psHash (F ! i), psName (F ! i))" "padded (psName (F ! i))"
    using i(1) ok by (simp_all add: spec_kv_def params_ok_def)
  have new: "\<forall>q \<in> items t. spec_kv F q \<noteq> Some (psHash (F ! i), psName (F ! i))"
  proof
    fix q assume "q \<in> items t"
    then have q: "q < i" using ti(2) by simp
    then have "psName (F ! q) \<noteq> psName (F ! i)"
      using ok i(1) nth_eq_iff_index_eq [of "List.map psName F" q i] by (simp add: params_ok_def)
    then show "spec_kv F q \<noteq> Some (psHash (F ! i), psName (F ! i))" by (simp add: spec_kv_def)
  qed
  obtain n' t' where t': "Add (spec_kv F) str4eq t i = Some (True, t')" "table_inv (spec_kv F) padded n' t'"
    "items t' = insert i (items t)" "mNumItems t' = mNumItems t + 1" "n' = m \<or> (mMaxItems t \<le> mNumItems t \<and> n' = max (Suc m) 5)"
    by (rule name_keys.Add_new [OF ti(1) kv new disjI1 [OF room]])
  have "Add (spec_kv (take (Suc i) F)) str4eq t i = Add (spec_kv F) str4eq t i"
    by (rule Add_cong [OF _ _ room]) (use ti(2) i(1) in \<open>simp_all add: spec_kv_def\<close>)
  moreover have "param_inv F m (Suc i) t'" using t' room ti(2,3) by (auto simp: param_inv_def lessThan_Suc)
  ultimately show ?thesis using t'(1) by auto
qed

lemma param_found:
  assumes "param_inv F m (length F) t" "params_ok F" "i < length F"
  shows "Get_hash (spec_kv F) str4eq t (psHash (F ! i)) (psName (F ! i)) = Some (Some i)"
proof -
  have ti: "table_inv (spec_kv F) padded m t" "items t = {..<length F}" using assms(1) by (simp_all add: param_inv_def)
  have "padded (psName (F ! i))" using assms(2,3) by (simp add: params_ok_def)
  from name_keys.Get_hash_law [OF ti(1) this] obtain r where r: "Get_hash (spec_kv F) str4eq t (psHash (F ! i)) (psName (F ! i)) = Some r"
    "\<forall>p. r = Some p \<longleftrightarrow> p \<in> items t \<and> spec_kv F p = Some (psHash (F ! i), psName (F ! i))" by blast
  moreover have "r = Some i" using r(2) ti(2) assms(3) by (simp add: spec_kv_def)
  ultimately show ?thesis by simp
qed

definition param_of :: "u8 list \<times> i16 \<Rightarrow> ParamSpec" where
  "param_of p = \<lparr>psName = name_words (fst p), psIndex = unat (snd p), psHash = hash4 (name_words (fst p))\<rparr>"

lemma unat_up: "unat (ucast (x :: i16) :: i32) = unat x"
  by transfer (simp add: take_bit_int_eq_self)

lemma ParamSpec_enc: "name_ok (fst p) \<Longrightarrow> ParamSpec_Read (enc_param p @ bs) = Some (Inr (param_of p, bs))"
  by (simp add: ParamSpec_Read_def enc_param_def ReadName_ok and_then_def readInt16_be16 param_of_def unat_up)

lemma params_ok_of:
  "\<forall>p \<in> set ps. name_ok (fst p) \<Longrightarrow> distinct (List.map fst ps) \<Longrightarrow> params_ok (List.map param_of ps)"
  by (auto simp: params_ok_def param_of_def name_words_padded distinct_map inj_on_def name_words_inject comp_def)

lemma read_params_enc:
  "param_inv F m (length ps) t \<Longrightarrow> F = ps @ List.map param_of srcs \<Longrightarrow> params_ok F \<Longrightarrow> length F \<le> 2 ^ (m - 1) \<Longrightarrow> \<forall>p \<in> set srcs. name_ok (fst p) \<Longrightarrow>
   \<exists>t'. read_params (length srcs) ps t (concat (List.map enc_param srcs) @ bs) = Some (Inr ((F, t'), bs)) \<and> param_inv F m (length F) t'"
proof (induction srcs arbitrary: ps t)
  case (Cons p srcs)
  have tk: "take (Suc (length ps)) F = ps @ [param_of p]" using Cons.prems(2) by simp
  obtain t1 where t1: "Add (spec_kv (ps @ [param_of p])) str4eq t (length ps) = Some (True, t1)" "param_inv F m (Suc (length ps)) t1"
    using add_param [OF Cons.prems(1) _ _ Cons.prems(3)] Cons.prems(2,4) unfolding tk by auto
  then show ?case using Cons.IH [of "ps @ [param_of p]" t1] Cons.prems by (simp add: ParamSpec_enc and_then_def)
qed auto

section \<open>Units\<close>

definition input_of :: "i16 \<times> i16 \<Rightarrow> InputSpec" where
  "input_of p = \<lparr>isFromUnitIndex = fst p, isFromOutputIndex = snd p, isWireIndex = - 1\<rparr>"

definition output_of_rate :: "u8 \<Rightarrow> OutputSpec" where
  "output_of_rate r = \<lparr>osCalcRate = scast r, osWireIndex = - 1, osBufferIndex = - 1, osNumConsumers = 0\<rparr>"

definition unit_of :: "UnitDef HashTable \<Rightarrow> SrcUnit \<Rightarrow> FileUnitSpec" where
  "unit_of lib u = set_rate \<lparr>fuUnitDef = the (the (GetUnitDef (name_words (suName u)) lib)), fuCalcRate = scast (suRate u),
     fuSpecialIndex = suSpecial u, fuInputSpec = List.map input_of (suIns u), fuOutputSpec = List.map output_of_rate (suOuts u), fuRateInfo = None\<rparr>"

definition installed :: "UnitDef HashTable \<Rightarrow> SrcUnit \<Rightarrow> bool" where
  "installed lib u \<longleftrightarrow> (\<exists>ud. GetUnitDef (name_words (suName u)) lib = Some (Some ud))"

definition unit_ok :: "SrcUnit \<Rightarrow> bool" where
  "unit_ok u \<longleftrightarrow> name_ok (suName u) \<and> length (suIns u) < 2 ^ 16 \<and> length (suOuts u) < 2 ^ 16"

lemma ucast16_32 [simp]: "(ucast (ucast (x :: i16) :: i32) :: i16) = x"
  by transfer simp

lemma ucast_scast8 [simp]: "(ucast (scast (c :: u8) :: i32) :: i16) = scast c"
  by transfer simp

lemma InputSpec_enc: "InputSpec_Read ((be16 (fst p) @ be16 (snd p)) @ bs) = Some (input_of p, bs)"
  by (simp add: InputSpec_Read_def readInt16_be16 input_of_def)

lemma OutputSpec_enc: "OutputSpec_Read ([r] @ bs) = Some (output_of_rate r, bs)"
  by (simp add: OutputSpec_Read_def output_of_rate_def)

lemma outs_concat: "outs = concat (List.map (\<lambda>r. [r]) outs)"
  by (induction outs) simp_all

lemma UnitSpec_enc:
  assumes "unit_ok u" "GetUnitDef (name_words (suName u)) lib = Some (Some ud)"
  shows "UnitSpec_Read lib (enc_unit u @ bs) = Some (Inr (\<lparr>fuUnitDef = ud, fuCalcRate = scast (suRate u),
     fuSpecialIndex = suSpecial u, fuInputSpec = List.map input_of (suIns u), fuOutputSpec = List.map output_of_rate (suOuts u), fuRateInfo = None\<rparr>, bs))"
proof -
  have ins: "read_list (length (suIns u)) InputSpec_Read (concat (List.map (\<lambda>p. be16 (fst p) @ be16 (snd p)) (suIns u)) @ bs')
    = Some (List.map input_of (suIns u), bs')" for bs'
    by (rule read_list_concat) (rule InputSpec_enc)
  have outs: "read_list (length (suOuts u)) OutputSpec_Read (suOuts u @ bs') = Some (List.map output_of_rate (suOuts u), bs')" for bs'
    using read_list_concat [of "suOuts u" OutputSpec_Read "\<lambda>r. [r]" output_of_rate bs'] OutputSpec_enc outs_concat [of "suOuts u"] by simp
  show ?thesis using assms
    by (simp add: UnitSpec_Read_def enc_unit_def ReadName_ok and_then_def unit_ok_def readInt16_be16 unat_up unat_small16 ins outs)
qed

lemma UnitSpec_missing:
  assumes "unit_ok u" "GetUnitDef (name_words (suName u)) lib = Some None"
  shows "UnitSpec_Read lib (enc_unit u @ bs) = Some (Inl UGen_not_installed)"
  using assms by (simp add: UnitSpec_Read_def enc_unit_def ReadName_ok and_then_def unit_ok_def)

lemma read_units_enc:
  "\<forall>u \<in> set us. unit_ok u \<and> installed lib u \<Longrightarrow>
   read_units (length us) lib (concat (List.map enc_unit us) @ bs) = Some (Inr (List.map (unit_of lib) us, bs))"
proof (induction us)
  case (Cons u us)
  obtain ud where "GetUnitDef (name_words (suName u)) lib = Some (Some ud)" using Cons.prems by (auto simp: installed_def)
  then show ?case using Cons UnitSpec_enc [of u lib ud] by (simp add: and_then_def unit_of_def)
qed simp

section \<open>Definitions\<close>

definition variant_of :: "u8 list \<times> f32 list \<Rightarrow> FileVariant" where
  "variant_of v = \<lparr>fvName = name_words (fst v), fvHash = hash4 (name_words (fst v)), fvInitialControlValues = snd v\<rparr>"

lemma read_floats: "read_list (length xs) readFloat_be (concat (List.map be32_bytes xs) @ bs) = Some (xs, bs)"
  using read_list_concat [of xs readFloat_be be32_bytes "\<lambda>x. x" bs] by (simp add: readFloat_bytes)

lemma read_variants_enc:
  "\<forall>v \<in> set vs. name_ok (fst v) \<and> length (snd v) = n \<Longrightarrow>
   read_variants (length vs) n (concat (List.map enc_variant vs) @ bs) = Some (Inr (List.map variant_of vs, bs))"
proof (induction vs)
  case (Cons v vs)
  then have "read_list n readFloat_be (concat (List.map be32_bytes (snd v)) @ bs') = Some (snd v, bs')" for bs'
    using read_floats [of "snd v"] by simp
  then show ?case using Cons by (simp add: enc_variant_def GraphDef_ReadVariant_def ReadName_ok and_then_def variant_of_def)
qed simp

definition src_ok :: "SrcDef \<Rightarrow> bool" where
  "src_ok d \<longleftrightarrow> name_ok (sdName d) \<and> length (sdConstants d) < 2 ^ 16 \<and> length (sdControls d) < 2 ^ 16
     \<and> length (sdParams d) < 2 ^ 16 \<and> (\<forall>p \<in> set (sdParams d). name_ok (fst p)) \<and> distinct (List.map fst (sdParams d))
     \<and> length (sdUnits d) < 2 ^ 16 \<and> (\<forall>u \<in> set (sdUnits d). unit_ok u)
     \<and> length (sdVariants d) < 2 ^ 16 \<and> (\<forall>v \<in> set (sdVariants d). name_ok (fst v) \<and> length (snd v) = length (sdControls d))"

lemma new_table:
  assumes "n < 2 ^ 16"
  shows "\<exists>m. param_inv F m 0 (HashTable_new (if (of_nat n :: i32) \<noteq> 0 then unat (NEXTPOWEROFTWO (of_nat n)) else 4) False) \<and> n \<le> 2 ^ (m - 1)"
proof (cases "n = 0")
  case True
  have "param_inv F 3 0 (HashTable_new 4 False)"
    using HashTable_new_inv(1) [of 3 "spec_kv F" padded False] HashTable_new_inv(2) [of 3 False] by (simp add: param_inv_def HashTable_new_def)
  then show ?thesis using True by auto
next
  case False
  have u: "unat (of_nat n :: i32) = n" by (rule unat_of_small [OF assms])
  then have nz: "(of_nat n :: i32) \<noteq> 0" using False by auto
  obtain k where k: "k \<le> 30" "unat (NEXTPOWEROFTWO (of_nat n)) = 2 ^ k" "n \<le> 2 ^ k" "2 ^ k < 2 * n"
    using NEXTPOWEROFTWO_correct [of "of_nat n"] u False assms by auto
  have "(2::nat) ^ k < 2 ^ 17" using k(4) assms by simp
  then have "k < 17" by (rule power_less_imp_less_exp [rotated]) simp
  then have "param_inv F (Suc k) 0 (HashTable_new (2 ^ k) False)"
    using HashTable_new_inv(1) [of "Suc k" "spec_kv F" padded False] HashTable_new_inv(2) [of "Suc k" False] by (simp add: param_inv_def HashTable_new_def)
  then show ?thesis using nz k by (intro exI [of _ "Suc k"]) simp
qed

definition graph_of :: "UnitDef HashTable \<Rightarrow> nat HashTable \<Rightarrow> SrcDef \<Rightarrow> FileGraphDef" where
  "graph_of lib t d = (let us = List.map (unit_of lib) (sdUnits d)
     in \<lparr>fgName = name_words (sdName d), fgHash = hash4 (name_words (sdName d)), fgConstants = sdConstants d,
          fgInitialControlValues = sdControls d, fgParamSpecs = List.map param_of (sdParams d), fgParamSpecTable = t, fgUnitSpecs = us,
          fgNumCalcUnits = length (List.filter calc_unit us), fgNumWires = length (sdConstants d) + num_outputs us,
          fgNumWireBufs = 0, fgRefCount = 0, fgVariants = []\<rparr>)"

text \<open>A definition up to its units.\<close>

definition enc_front :: "SrcDef \<Rightarrow> u8 list" where
  "enc_front d = enc_name (sdName d) @ enc_list be32_bytes (sdConstants d) @ enc_list be32_bytes (sdControls d) @ enc_list enc_param (sdParams d)"

lemma enc_def_front: "enc_def d = enc_front d @ enc_list enc_unit (sdUnits d) @ enc_list enc_variant (sdVariants d)"
  by (simp add: enc_def_def enc_front_def)

text \<open>What is read after the parameters.\<close>

definition read_back :: "UnitDef HashTable \<Rightarrow> SrcDef \<Rightarrow> nat HashTable \<Rightarrow> u8 list \<Rightarrow> FileGraphDef reading" where
  "read_back lib d t bs = do {
     (n, bs) \<leftarrow> readInt16_be bs;
     and_then (read_units (unat n) lib bs) (\<lambda>us bs. Some (Inr ((graph_of lib t d)\<lparr>fgUnitSpecs := us,
       fgNumCalcUnits := length (List.filter calc_unit us), fgNumWires := length (sdConstants d) + num_outputs us\<rparr>, bs))) }"

lemma read_front:
  assumes ok: "src_ok d"
  shows "\<exists>m t. read_graph lib (enc_front d @ bs) = read_back lib d t bs \<and> param_inv (List.map param_of (sdParams d)) m (length (sdParams d)) t"
proof -
  let ?F = "List.map param_of (sdParams d)" and ?np = "length (sdParams d)"
  let ?t0 = "HashTable_new (if (of_nat ?np :: i32) \<noteq> 0 then unat (NEXTPOWEROFTWO (of_nat ?np)) else 4) False"
  have d: "name_ok (sdName d)" "length (sdConstants d) < 2 ^ 16" "length (sdControls d) < 2 ^ 16" "?np < 2 ^ 16"
    "\<forall>p \<in> set (sdParams d). name_ok (fst p)" "distinct (List.map fst (sdParams d))" using ok by (simp_all add: src_ok_def)
  obtain m where m: "param_inv ?F m 0 ?t0" "?np \<le> 2 ^ (m - 1)" using new_table [OF d(4)] by blast
  obtain t where t: "read_params ?np [] ?t0 (concat (List.map enc_param (sdParams d)) @ bs) = Some (Inr ((?F, t), bs))" "param_inv ?F m ?np t"
    using read_params_enc [of ?F m "[]" ?t0 "sdParams d" bs] m params_ok_of [OF d(5,6)] d(5) by auto
  note rd = readInt16_of_nat [OF d(2)] readInt16_of_nat [OF d(3)] readInt16_of_nat [OF d(4)] unat_of_small [OF d(2)] unat_of_small [OF d(3)] unat_of_small [OF d(4)]
  have "read_graph lib (enc_front d @ bs) = read_back lib d t bs"
    unfolding read_graph_def enc_front_def enc_list_def append_assoc ReadName_ok [OF d(1)] and_then_def [of "Some _"] read_back_def
    by (simp add: rd read_floats t(1) name_hash [OF d(1)] graph_of_def Let_def num_outputs_def and_then_def [of "Some _"])
  then show ?thesis using t(2) by blast
qed

lemma read_graph_enc:
  assumes ok: "src_ok d" and ins: "\<forall>u \<in> set (sdUnits d). installed lib u"
  shows "\<exists>m t. read_graph lib (enc_front d @ enc_list enc_unit (sdUnits d) @ bs) = Some (Inr (graph_of lib t d, bs))
    \<and> param_inv (List.map param_of (sdParams d)) m (length (sdParams d)) t"
proof -
  obtain m t where r: "read_graph lib (enc_front d @ enc_list enc_unit (sdUnits d) @ bs) = read_back lib d t (enc_list enc_unit (sdUnits d) @ bs)"
    "param_inv (List.map param_of (sdParams d)) m (length (sdParams d)) t" using read_front [OF ok] by blast
  have n: "length (sdUnits d) < 2 ^ 16" "\<forall>u \<in> set (sdUnits d). unit_ok u \<and> installed lib u" using ok ins by (simp_all add: src_ok_def)
  have "read_back lib d t (enc_list enc_unit (sdUnits d) @ bs) = Some (Inr (graph_of lib t d, bs))"
    by (simp add: read_back_def enc_list_def readInt16_of_nat [OF n(1)] unat_of_small [OF n(1)] read_units_enc [OF n(2)] and_then_def graph_of_def Let_def)
  then show ?thesis using r by auto
qed

lemma read_units_missing:
  "\<forall>u \<in> set us. unit_ok u \<and> installed lib u \<Longrightarrow> unit_ok u \<Longrightarrow> GetUnitDef (name_words (suName u)) lib = Some None \<Longrightarrow>
   read_units (Suc (length us + k)) lib (concat (List.map enc_unit us) @ enc_unit u @ bs) = Some (Inl UGen_not_installed)"
proof (induction us)
  case Nil
  then show ?case by (simp add: UnitSpec_missing and_then_def)
next
  case (Cons v us)
  have step: "read_units (Suc n) lib (enc_unit v @ bs') = Some (Inl UGen_not_installed)"
    if "read_units n lib bs' = Some (Inl UGen_not_installed)" for n bs'
  proof -
    obtain ud where "GetUnitDef (name_words (suName v)) lib = Some (Some ud)" using Cons.prems by (auto simp: installed_def)
    then show ?thesis using that Cons.prems(1) UnitSpec_enc [of v lib ud] by (simp add: and_then_def)
  qed
  have "read_units (Suc (length us + k)) lib (concat (List.map enc_unit us) @ enc_unit u @ bs) = Some (Inl UGen_not_installed)"
    using Cons by simp
  from step [OF this] show ?case by simp
qed

lemma read_graph_missing:
  assumes ok: "src_ok d" and us: "sdUnits d = us @ u # vs" "\<forall>u \<in> set us. installed lib u" "GetUnitDef (name_words (suName u)) lib = Some None"
  shows "read_graph lib (enc_front d @ enc_list enc_unit (sdUnits d) @ bs) = Some (Inl UGen_not_installed)"
proof -
  obtain t where r: "read_graph lib (enc_front d @ enc_list enc_unit (sdUnits d) @ bs) = read_back lib d t (enc_list enc_unit (sdUnits d) @ bs)"
    using read_front [OF ok] by blast
  have n: "length (sdUnits d) < 2 ^ 16" "\<forall>u \<in> set us. unit_ok u \<and> installed lib u" "unit_ok u" using ok us by (simp_all add: src_ok_def)
  have "read_units (length (sdUnits d)) lib (concat (List.map enc_unit (sdUnits d)) @ bs) = Some (Inl UGen_not_installed)"
    using read_units_missing [OF n(2,3) us(3), of "length vs" "concat (List.map enc_unit vs) @ bs"] us(1) by simp
  then show ?thesis unfolding r by (simp add: read_back_def enc_list_def readInt16_of_nat [OF n(1)] unat_of_small [OF n(1)] and_then_def)
qed

section \<open>Files\<close>

text \<open>What is read of a definition: every part of its description, the parameters to be found by name, the units coloured.\<close>

definition described :: "UnitDef HashTable \<Rightarrow> i32 \<Rightarrow> SrcDef \<Rightarrow> FileGraphDef \<Rightarrow> bool" where
  "described lib L d g \<longleftrightarrow> fgName g = name_words (sdName d) \<and> Hash_str4 (fgName g) = Some (fgHash g)
     \<and> fgConstants g = sdConstants d \<and> fgInitialControlValues g = sdControls d
     \<and> fgParamSpecs g = List.map param_of (sdParams d)
     \<and> (\<forall>i < length (sdParams d). Get_hash (spec_kv (fgParamSpecs g)) str4eq (fgParamSpecTable g)
          (hash4 (name_words (fst (sdParams d ! i)))) (name_words (fst (sdParams d ! i))) = Some (Some i))
     \<and> (\<exists>W W'. wsBufLength W = L \<and> DoBufferColoring W (length (sdConstants d)) (List.map (unit_of lib) (sdUnits d))
          = Some (Inr (fgUnitSpecs g, fgNumWireBufs g, W')))
     \<and> fgNumCalcUnits g = length (List.filter (\<lambda>u. scast (suRate u) = (1 :: i16) \<or> scast (suRate u) = full_rate) (sdUnits d))
     \<and> fgNumWires g = length (sdConstants d) + sum_list (List.map (\<lambda>u. length (suOuts u)) (sdUnits d))
     \<and> fgRefCount g = 1 \<and> fgVariants g = List.map variant_of (sdVariants d)"

definition loadable :: "UnitDef HashTable \<Rightarrow> wire_space \<Rightarrow> SrcDef \<Rightarrow> bool" where
  "loadable lib W d \<longleftrightarrow> src_ok d \<and> (\<forall>u \<in> set (sdUnits d). installed lib u) \<and> def_ok (List.map (unit_of lib) (sdUnits d))
     \<and> (mRunning W \<longrightarrow> num_outputs (List.map (unit_of lib) (sdUnits d)) \<le> unat (mMaxWireBufs W))"

lemma coloring_succeeds:
  assumes "def_ok us" "mRunning W \<longrightarrow> num_outputs us \<le> unat (mMaxWireBufs W)"
  shows "\<exists>vs n W'. DoBufferColoring W c us = Some (Inr (vs, n, W')) \<and> mRunning W' = mRunning W \<and> wsBufLength W' = wsBufLength W
    \<and> (mRunning W \<longrightarrow> W' = W)"
proof -
  obtain vs n where r: "n \<le> num_outputs us" "DoBufferColoring W c us = (if mRunning W \<and> mMaxWireBufs W < of_nat n then Some (Inl Too_many_wire_bufs)
        else Some (Inr (vs, of_nat n, if mRunning W then W else W\<lparr>mMaxWireBufs := max (mMaxWireBufs W) (of_nat n)\<rparr>)))"
    using coloring_result [OF assms(1), of W c] by blast
  have "num_outputs us \<le> 2 ^ 14" using assms(1) by (simp add: def_ok_def)
  then have "unat (of_nat n :: u32) = n" using r(1) by (simp add: unat_of_nat take_bit_nat_eq_self)
  then have "\<not> (mRunning W \<and> mMaxWireBufs W < of_nat n)" using assms(2) r(1) by (auto simp: word_less_nat_alt)
  then show ?thesis unfolding r(2) by simp
qed

lemma graph_of_described:
  assumes ok: "src_ok d" and t: "param_inv (List.map param_of (sdParams d)) m (length (sdParams d)) t"
    and c: "DoBufferColoring W (length (sdConstants d)) (List.map (unit_of lib) (sdUnits d)) = Some (Inr (vs, n, W'))"
  shows "described lib (wsBufLength W) d ((graph_of lib t d)\<lparr>fgUnitSpecs := vs, fgNumWireBufs := n, fgRefCount := 1,
    fgVariants := List.map variant_of (sdVariants d)\<rparr>)"
proof -
  have nm: "name_ok (sdName d)" "params_ok (List.map param_of (sdParams d))" using ok params_ok_of by (simp_all add: src_ok_def)
  have found: "Get_hash (spec_kv (List.map param_of (sdParams d))) str4eq t (hash4 (name_words (fst (sdParams d ! i))))
      (name_words (fst (sdParams d ! i))) = Some (Some i)" if "i < length (sdParams d)" for i
    using param_found [of "List.map param_of (sdParams d)" m t i] t nm(2) that by (simp add: param_of_def)
  have calc: "calc_unit \<circ> unit_of lib = (\<lambda>u. scast (suRate u) = (1 :: i16) \<or> scast (suRate u) = full_rate)"
    by (rule ext) (simp add: calc_unit_def unit_of_def set_rate_def)
  have outs: "num_outputs (List.map (unit_of lib) us) = sum_list (List.map (\<lambda>u. length (suOuts u)) us)" for us
    by (simp add: num_outputs_def comp_def unit_of_def set_rate_def)
  show ?thesis unfolding described_def using found c by (auto simp: graph_of_def Let_def filter_map calc outs name_hash [OF nm(1)])
qed

lemma GraphDef_Read_enc:
  assumes l: "loadable lib W d"
  shows "\<exists>g W'. GraphDef_Read lib 1 W (enc_def d @ bs) = Some (W', Inr (g, bs)) \<and> described lib (wsBufLength W) d g
    \<and> mRunning W' = mRunning W \<and> wsBufLength W' = wsBufLength W \<and> (mRunning W \<longrightarrow> W' = W)"
proof -
  have ok: "src_ok d" "\<forall>u \<in> set (sdUnits d). installed lib u" using l by (simp_all add: loadable_def)
  let ?bs = "enc_list enc_variant (sdVariants d) @ bs"
  obtain m t where g: "read_graph lib (enc_front d @ enc_list enc_unit (sdUnits d) @ ?bs) = Some (Inr (graph_of lib t d, ?bs))"
    "param_inv (List.map param_of (sdParams d)) m (length (sdParams d)) t" using read_graph_enc [OF ok] by blast
  obtain vs n W' where c: "DoBufferColoring W (length (sdConstants d)) (List.map (unit_of lib) (sdUnits d)) = Some (Inr (vs, n, W'))"
    "mRunning W' = mRunning W" "wsBufLength W' = wsBufLength W" "mRunning W \<longrightarrow> W' = W"
    using coloring_succeeds l unfolding loadable_def by blast
  have v: "length (sdVariants d) < 2 ^ 16" "\<forall>v \<in> set (sdVariants d). name_ok (fst v) \<and> length (snd v) = length (sdControls d)"
    using ok(1) by (simp_all add: src_ok_def)
  have "GraphDef_Read lib 1 W (enc_def d @ bs) = Some (W', Inr ((graph_of lib t d)\<lparr>fgUnitSpecs := vs, fgNumWireBufs := n, fgRefCount := 1,
    fgVariants := List.map variant_of (sdVariants d)\<rparr>, bs))"
    using g(1) c(1)
    by (simp add: GraphDef_Read_def enc_def_front graph_of_def Let_def enc_list_def [of enc_variant] readInt16_of_nat [OF v(1)]
        unat_of_small [OF v(1)] read_variants_enc [OF v(2)])
  then show ?thesis using graph_of_described [OF ok(1) g(2) c(1)] c(2-4) by blast
qed

lemma loadable_same: "mRunning W' = mRunning W \<Longrightarrow> mRunning W \<longrightarrow> W' = W \<Longrightarrow> loadable lib W d \<Longrightarrow> loadable lib W' d"
  by (auto simp: loadable_def)

lemma read_defs_enc:
  "\<forall>d \<in> set ds. loadable lib W d \<Longrightarrow>
   \<exists>W' gs. read_defs (length ds + k) lib 1 W (concat (List.map enc_def ds) @ bs) inList = read_defs k lib 1 W' bs (rev gs @ inList)
     \<and> list_all2 (described lib (wsBufLength W)) ds gs
     \<and> mRunning W' = mRunning W \<and> wsBufLength W' = wsBufLength W \<and> (mRunning W \<longrightarrow> W' = W)"
proof (induction ds arbitrary: W inList)
  case Nil
  show ?case by (rule exI [of _ W], rule exI [of _ "[]"]) simp
next
  case (Cons d ds)
  obtain g W1 where g: "GraphDef_Read lib 1 W (enc_def d @ concat (List.map enc_def ds) @ bs) = Some (W1, Inr (g, concat (List.map enc_def ds) @ bs))"
    "described lib (wsBufLength W) d g" "mRunning W1 = mRunning W" "wsBufLength W1 = wsBufLength W" "mRunning W \<longrightarrow> W1 = W"
    using GraphDef_Read_enc [of lib W d "concat (List.map enc_def ds) @ bs"] Cons.prems by auto
  have "\<forall>d \<in> set ds. loadable lib W1 d" using Cons.prems loadable_same [OF g(3,5)] by simp
  from Cons.IH [OF this, of "g # inList"] obtain W' gs where
    "read_defs (length ds + k) lib 1 W1 (concat (List.map enc_def ds) @ bs) (g # inList) = read_defs k lib 1 W' bs (rev gs @ g # inList)"
    "list_all2 (described lib (wsBufLength W1)) ds gs" "mRunning W' = mRunning W1 \<and> wsBufLength W' = wsBufLength W1 \<and> (mRunning W1 \<longrightarrow> W' = W1)" by blast
  then have "read_defs (length (d # ds) + k) lib 1 W (concat (List.map enc_def (d # ds)) @ bs) inList = read_defs k lib 1 W' bs (rev (g # gs) @ inList)
    \<and> list_all2 (described lib (wsBufLength W)) (d # ds) (g # gs)
    \<and> mRunning W' = mRunning W \<and> wsBufLength W' = wsBufLength W \<and> (mRunning W \<longrightarrow> W' = W)" using g by simp
  then show ?case by blast
qed

lemma Lib_Read_enc:
  assumes "length ds < 2 ^ 16"
  shows "GraphDefLib_Read lib W (enc_file ds @ bs) inList = read_defs (length ds) lib 1 W (concat (List.map enc_def ds) @ bs) inList"
  by (simp add: GraphDefLib_Read_def enc_file_def enc_list_def readInt32_bytes readInt16_of_nat [OF assms] unat_of_small [OF assms])

text \<open>
  C8: Reading the file of a list of definitions gives these definitions, in front of the list it is given and in reverse: every name, constant,
  control, parameter, unit and variant is the one described, a parameter is found under its name, and the units are coloured. The units have to be
  installed, the inputs to come from earlier units, and the engine, if it runs, to have enough buffers.
\<close>

theorem synth_file_roundtrip:
  assumes "\<forall>d \<in> set ds. loadable lib W d" "length ds < 2 ^ 16"
  shows "\<exists>W' gs. GraphDef_Recv lib W (enc_file ds @ bs) inList = Some (W', rev gs @ inList) \<and> list_all2 (described lib (wsBufLength W)) ds gs"
proof -
  obtain W' gs where "read_defs (length ds + 0) lib 1 W (concat (List.map enc_def ds) @ bs) inList = read_defs 0 lib 1 W' bs (rev gs @ inList)"
    "list_all2 (described lib (wsBufLength W)) ds gs" using read_defs_enc [OF assms(1), of 0 bs inList] by blast
  then show ?thesis by (auto simp: GraphDef_Recv_def Lib_Read_enc [OF assms(2)])
qed

text \<open>
  C34: A definition that uses a unit that is not installed makes the whole file fail: the definitions before it in the file, though read without
  an error, are lost, and the list given is returned as it was.
\<close>

theorem missing_unit_loses_file:
  assumes "\<forall>d \<in> set ds. loadable lib W d" "length (ds @ d # es) < 2 ^ 16"
    and "src_ok d" "sdUnits d = us @ u # vs" "\<forall>u \<in> set us. installed lib u" "GetUnitDef (name_words (suName u)) lib = Some None"
  shows "\<exists>W'. GraphDef_Recv lib W (enc_file (ds @ d # es)) inList = Some (W', inList)"
proof -
  let ?bs = "enc_def d @ concat (List.map enc_def es)"
  obtain W' gs where r: "read_defs (length ds + Suc (length es)) lib 1 W (concat (List.map enc_def ds) @ ?bs) inList
    = read_defs (Suc (length es)) lib 1 W' ?bs (rev gs @ inList)" using read_defs_enc [OF assms(1), of "Suc (length es)" ?bs inList] by blast
  have "GraphDef_Read lib 1 W' ?bs = Some (W', Inl UGen_not_installed)"
    by (simp add: GraphDef_Read_def enc_def_front read_graph_missing [OF assms(3-6)])
  then have "GraphDefLib_Read lib W (enc_file (ds @ d # es)) inList = Some (W', Inl UGen_not_installed)"
    using Lib_Read_enc [OF assms(2), of lib W "[]" inList] r by simp
  then show ?thesis by (simp add: GraphDef_Recv_def)
qed

text \<open>A directory of files: all definitions of its \<open>.scsyndef\<close> files, other files and items to be skipped are passed over.\<close>

definition plain_items :: "files \<Rightarrow> (u8 list \<Rightarrow> SrcDef list) \<Rightarrow> UnitDef HashTable \<Rightarrow> wire_space \<Rightarrow> (u8 list \<times> bool) list \<Rightarrow> bool" where
  "plain_items F contents lib W its \<longleftrightarrow> (\<forall>p \<in> set its. \<not> snd p \<longrightarrow> \<not> isDirectory F (fst p) \<and> 9 \<le> length (fst p)
     \<and> (is_scsyndef (fst p) = Some True \<longrightarrow> fileBytes F (fst p) = Some (enc_file (contents (fst p)))
         \<and> length (contents (fst p)) < 2 ^ 16 \<and> (\<forall>d \<in> set (contents (fst p)). loadable lib W d)))"

definition listed :: "(u8 list \<Rightarrow> SrcDef list) \<Rightarrow> (u8 list \<times> bool) list \<Rightarrow> SrcDef list" where
  "listed contents its = concat (List.map (\<lambda>p. contents (fst p)) (List.filter (\<lambda>p. \<not> snd p \<and> is_scsyndef (fst p) = Some True) its))"

lemma load_file_enc:
  assumes "fileBytes F n = Some (enc_file ds)" "length ds < 2 ^ 16" "\<forall>d \<in> set ds. loadable lib W d"
  shows "\<exists>W' gs. GraphDef_Load F lib n W inList = Some (W', rev gs @ inList) \<and> list_all2 (described lib (wsBufLength W)) ds gs
    \<and> mRunning W' = mRunning W \<and> wsBufLength W' = wsBufLength W \<and> (mRunning W \<longrightarrow> W' = W)"
proof -
  obtain W' gs where "read_defs (length ds + 0) lib 1 W (concat (List.map enc_def ds) @ []) inList = read_defs 0 lib 1 W' [] (rev gs @ inList)"
    "list_all2 (described lib (wsBufLength W)) ds gs" "mRunning W' = mRunning W \<and> wsBufLength W' = wsBufLength W \<and> (mRunning W \<longrightarrow> W' = W)"
    using read_defs_enc [OF assms(3), of 0 "[]" inList] by blast
  then show ?thesis using assms(1) Lib_Read_enc [OF assms(2), of lib W "[]" inList] by (auto simp: GraphDef_Load_def)
qed

lemma dir_loop_enc:
  "plain_items F contents lib W its \<Longrightarrow> \<exists>W' gs. dir_loop F lib sub its W inList = Some (W', rev gs @ inList)
     \<and> list_all2 (described lib (wsBufLength W)) (listed contents its) gs"
proof (induction its arbitrary: W inList)
  case Nil
  show ?case by (rule exI [of _ W], rule exI [of _ "[]"]) (simp add: listed_def)
next
  case (Cons p its)
  obtain n s where p: "p = (n, s)" by (cases p)
  have rest: "plain_items F contents lib W its" using Cons.prems by (simp add: plain_items_def)
  show ?case
  proof (cases "\<not> s \<and> is_scsyndef n = Some True")
    case False
    have "dir_loop F lib sub (p # its) W inList = dir_loop F lib sub its W inList"
      using False Cons.prems by (auto simp: p plain_items_def is_scsyndef_def)
    moreover have "listed contents (p # its) = listed contents its" using False by (auto simp: listed_def p)
    ultimately show ?thesis using Cons.IH [OF rest, of inList] by metis
  next
    case True
    then have f: "fileBytes F n = Some (enc_file (contents n))" "length (contents n) < 2 ^ 16" "\<forall>d \<in> set (contents n). loadable lib W d" "\<not> isDirectory F n"
      using Cons.prems by (auto simp: p plain_items_def)
    obtain W1 gs where g: "GraphDef_Load F lib n W inList = Some (W1, rev gs @ inList)" "list_all2 (described lib (wsBufLength W)) (contents n) gs"
      "mRunning W1 = mRunning W" "wsBufLength W1 = wsBufLength W" "mRunning W \<longrightarrow> W1 = W" using load_file_enc [OF f(1-3)] by blast
    have "plain_items F contents lib W1 its" using rest loadable_same [OF g(3,5)] unfolding plain_items_def by blast
    from Cons.IH [OF this, of "rev gs @ inList"] obtain W' hs where
      h: "dir_loop F lib sub its W1 (rev gs @ inList) = Some (W', rev hs @ rev gs @ inList)" "list_all2 (described lib (wsBufLength W1)) (listed contents its) hs" by blast
    have "list_all2 (described lib (wsBufLength W)) (listed contents (p # its)) (gs @ hs)"
      using g(2,4) h(2) True by (simp add: listed_def p list_all2_appendI)
    moreover have "dir_loop F lib sub (p # its) W inList = Some (W', rev (gs @ hs) @ inList)" using g(1) h(1) True f(4) by (simp add: p)
    ultimately show ?thesis by blast
  qed
qed

theorem directory_loads_all:
  assumes "dirItems F dirname = Some its" "plain_items F contents lib W its"
  shows "\<exists>W' gs. GraphDef_LoadDir (Suc k) F lib dirname W inList = Some (W', rev gs @ inList)
    \<and> list_all2 (described lib (wsBufLength W)) (listed contents its) gs"
  using dir_loop_enc [OF assms(2)] assms(1) by simp

text \<open>A library of two units, and a definition with a source and an output unit.\<close>

definition demo_lib :: "UnitDef HashTable" where
  "demo_lib = (case UnitDef_Create [83, 0] 0 0 (HashTable_new 4 True) of None \<Rightarrow> HashTable_new 4 True
     | Some (_, t) \<Rightarrow> (case UnitDef_Create [79, 0] 0 1 t of None \<Rightarrow> t | Some (_, t) \<Rightarrow> t))"

definition demo_src :: SrcDef where
  "demo_src = \<lparr>sdName = [100], sdConstants = [0x43DC0000], sdControls = [1], sdParams = [([102], 0)],
     sdUnits = [\<lparr>suName = [83], suRate = 2, suSpecial = 0, suIns = [(- 1, 0)], suOuts = [2]\<rparr>,
       \<lparr>suName = [79], suRate = 2, suSpecial = 0, suIns = [(0, 0)], suOuts = []\<rparr>],
     sdVariants = [([118], [2])]\<rparr>"

definition wired_check :: "FileUnitSpec list \<Rightarrow> bool" where
  "wired_check us \<longleftrightarrow> list_all (\<lambda>j. list_all (\<lambda>a. from_unit a \<longrightarrow>
     0 \<le> sint (isFromOutputIndex a) \<and> is_out us (src a) \<and> fst (src a) < j) (fuInputSpec (us ! j))) [0..<length us]"

lemma def_ok_check:
  assumes "wired_check us" "list_all (\<lambda>u. list_all (\<lambda>out. osNumConsumers out = 0) (fuOutputSpec u)) us"
    "num_outputs us \<le> 2 ^ 14" "num_inputs us < 2 ^ 15"
  shows "def_ok us"
proof -
  have "wired us" using assms(1) by (auto simp: wired_def wired_check_def list_all_length inp_def)
  moreover have "\<forall>x. is_out us x \<longrightarrow> consumers us x = 0" using assms(2) by (auto simp: is_out_def consumers_def outp_def list_all_length)
  ultimately show ?thesis using assms(3,4) by (simp add: def_ok_def)
qed

lemma demo_installed:
  "GetUnitDef (name_words [83]) demo_lib = Some (Some \<lparr>udName = [83], udHash = hash4 [83], udAllocSize = 0, udFlags = 0\<rparr>)"
  "GetUnitDef (name_words [79]) demo_lib = Some (Some \<lparr>udName = [79], udHash = hash4 [79], udAllocSize = 0, udFlags = 1\<rparr>)"
  "GetUnitDef (name_words [88]) demo_lib = Some None"
  by code_simp+

lemma demo_def_ok: "def_ok (List.map (unit_of demo_lib) (sdUnits demo_src))"
  by (rule def_ok_check)
    (simp_all add: demo_src_def unit_of_def demo_installed set_rate_def wired_check_def input_of_def output_of_rate_def from_unit_def src_def
      is_out_def num_outputs_def num_inputs_def)

lemma demo_src_ok: "src_ok demo_src"
  by (simp add: src_ok_def demo_src_def name_ok_def unit_ok_def)

lemma demo_loadable: "loadable demo_lib demo_space demo_src"
  using demo_src_ok demo_def_ok demo_installed(1,2) by (simp add: loadable_def installed_def demo_src_def demo_space_def)

theorem synth_file_roundtrip_witness:
  "\<exists>W' gs. GraphDef_Recv demo_lib demo_space (enc_file [demo_src] @ []) [] = Some (W', rev gs @ []) \<and> list_all2 (described demo_lib (wsBufLength demo_space)) [demo_src] gs"
  by (rule synth_file_roundtrip) (simp_all add: demo_loadable)

theorem missing_unit_loses_file_witness:
  "\<exists>W'. GraphDef_Recv demo_lib demo_space (enc_file ([demo_src] @ demo_src\<lparr>sdUnits :=
     [\<lparr>suName = [88], suRate = 2, suSpecial = 0, suIns = [], suOuts = []\<rparr>]\<rparr> # [])) [] = Some (W', [])"
  by (rule missing_unit_loses_file [where us = "[]" and vs = "[]" and u = "\<lparr>suName = [88], suRate = 2, suSpecial = 0, suIns = [], suOuts = []\<rparr>"])
    (use demo_src_ok in \<open>simp_all add: demo_loadable demo_installed(3) src_ok_def name_ok_def unit_ok_def\<close>)

end
