(* ===== verification/Spec2Isabelle.thy ===== *)
theory Spec2Isabelle
  imports SC_Packet SC_Sets SC_Files
begin

text \<open>
  The SuperCollider synthesis server \<open>scsynth\<close>, as it is contained in this repository under \<open>SuperCollider\<close>: a model of its core and
  what makes it correct. All paths below are relative to \<open>SuperCollider\<close>.

  The program. Clients send OSC messages and bundles. The audio driver's thread (the engine) performs them: it looks the command up, changes
  the tree of nodes (groups and synths), the controls, busses and buffers, and calculates one block of samples after the other by walking the
  tree. Whatever may block goes to a second thread as a sequenced command of four stages, two in each thread; the threads exchange messages
  through ring buffers. Bundles with a time wait in a priority queue until the block in which they are due. Synths are made from definitions,
  which are read from files or messages and whose units share a space of wire buffers.

  How the code is modelled. State is explicit: \<open>World\<close> (theory \<open>SC_World\<close>) is \<open>struct World\<close>, \<open>HiddenWorld\<close> and the heap of nodes in one
  record; nodes, definitions and sample data are reached by addresses, which are never used again. A result \<open>None\<close> is undefined behaviour of
  the C++ code (a null or dangling pointer, an index outside of an array, memory that was never written) or, in functions with fuel, a loop that
  did not end. Errors are values (\<open>SCErr\<close>, \<open>cmd_result\<close>, \<open>read_error\<close>), exceptions of handlers and readers included. Machine integers
  are words of their width, and comparisons are signed where the code's are. Floats are their 32 bits, with the conversions of IEEE 754 where
  the code converts.

  Theories, from the bottom up.
  \<^item> \<open>SC_Prelude\<close>: machine integers, arrays, bytes and words, lemmas about \<open>option\<close> that the others share.
  \<^item> \<open>SC_Hash\<close> (\<open>Hash.h\<close>, \<open>SC_Str4\<close>), \<open>SC_Bits\<close> (\<open>clz.h\<close>, \<open>SC_RGen.h\<close>), \<open>SC_Float\<close> (conversions). The integer hashes lose no information;
    the sizes of tables are powers of two.
  \<^item> \<open>SC_HashTable\<close>, \<open>SC_Tables\<close> (\<open>HashTable.h\<close>): open addressing with the repair after a removal. The locales \<open>keyed_store\<close> and
    \<open>bounded_store\<close> say what the server relies on, a finite map; they are interpreted for the table of nodes and the tables of names, and
    \<open>key_comparer\<close> for the kinds of keys.
  \<^item> \<open>SC_MsgIter\<close> (\<open>sc_msg_iter.h\<close>) and \<open>SC_Packet\<close> (\<open>scsynthsend.h\<close>): reading and building OSC messages in place; they are inverse.
  \<^item> \<open>SC_Fifo\<close> (\<open>MsgFifo.h\<close>, \<open>SC_FIFO.h\<close>): the ring buffers as functions and as a step relation of a writer, a performer and a freer.
  \<^item> \<open>SC_World\<close> (\<open>SC_World.h\<close>, \<open>SC_HiddenWorld.h\<close>, \<open>SC_World.cpp\<close>): the state, creation of nodes, the table of nodes and the library of definitions.
  \<^item> \<open>SC_Tree\<close> (\<open>SC_Node.cpp\<close>, \<open>SC_Group.cpp\<close>): the pointer operations on the tree refine operations on lists of children.
  \<^item> \<open>SC_Node\<close>: destruction and replacement, which free exactly a subtree. \<open>SC_Graph\<close> and \<open>SC_Controls\<close> (\<open>SC_Graph.cpp\<close>): synths, the hooking up
    of their units, controls and their mappings.
  \<^item> \<open>SC_Calc\<close> (\<open>World_Run\<close>, \<open>Group_Calc\<close>, \<open>Graph_Calc\<close>, done actions): what a block calls, in which order.
  \<^item> \<open>SC_Query\<close>, \<open>SC_Notify\<close>: queries of the tree and messages to registered clients, byte for byte.
  \<^item> \<open>SC_Buffers\<close>, \<open>SC_Sequenced\<close>, \<open>SC_Stages\<close> (\<open>SC_SequencedCommand.cpp\<close>): the twenty classes of sequenced commands, their arguments and stages, the
    mirror of the buffers, files and restricted paths.
  \<^item> \<open>SC_Commands\<close>, \<open>SC_BusCmds\<close> (\<open>SC_MiscCmds.cpp\<close>): every handler of a command, from the bytes of the message. \<open>SC_Moves\<close>, \<open>SC_NewGroups\<close>,
    \<open>SC_CmdProps\<close>, \<open>SC_Lookups\<close>, \<open>SC_Sets\<close>: what they do, as operations on an abstract tree and on controls, and where they do not return.
  \<^item> \<open>SC_PriorityQueue\<close> (\<open>PriorityQueue.h\<close>), \<open>SC_Perform\<close>, \<open>SC_CmdLib\<close> (\<open>SC_Lib.cpp\<close>, \<open>SC_CoreAudio.cpp\<close>): the scheduler, the library of commands, packets;
    \<open>SC_Answers\<close>, \<open>SC_Bundles\<close>: failures are answered, bundles are performed in the block in which they are due. Of the drivers the callback
    \<open>SC_iCoreAudioDriver::Run\<close> is the one modelled.
  \<^item> \<open>SC_Color\<close>, \<open>SC_Wiring\<close>, \<open>SC_Wires\<close>, \<open>SC_Coloring\<close>, \<open>SC_Synths\<close>, \<open>SC_Connect\<close> (\<open>SC_GraphDef.cpp\<close>, \<open>SC_WireSpec.h\<close>): the coloring of wire buffers. Its loops
    are shown to make a sequence of allocations and releases (\<open>SC_Wires\<close>), such sequences to keep what is in use apart (\<open>SC_Wiring\<close>), and so
    the computation in shared buffers to be the one in separate buffers (\<open>SC_Synths\<close>); \<open>SC_Connect\<close> follows the result through \<open>Graph_Ctor\<close>.
  \<^item> \<open>SC_Reader\<close>, \<open>SC_Files\<close> (\<open>SC_GraphDef.cpp\<close>, \<open>ReadWriteMacros.h\<close>): reading definition files, with a round trip against their format.

  How components interact. Handlers call the tree, the table and the synths; they start sequenced commands, whose second and fourth
  stage run in \<open>RunThread_round\<close> and the third in \<open>engine_round\<close>. Their environment \<open>env\<close> holds what lies outside: sound files, plug-in
  commands, performing a completion message, reading definitions. \<open>World_Run\<close> takes the functions of the units as a parameter \<open>plug\<close>, as
  plug-ins are loaded at run time. The table of definitions holds \<open>GraphDef\<close>; the reader yields \<open>FileGraphDef\<close>, the same structure before its
  units are reduced to the numbers that \<open>Graph_Ctor\<close> uses (\<open>spec_of\<close> in \<open>SC_Connect\<close>).

  Fuel. Walks over the tree and loops of handlers carry a number \<open>k\<close>. Theorems that a function returns ask for a bound on it that the state
  gives: the number of nodes of the table, of rounds of a message, of bytes. One step of fuel is a call or a round of a loop, so a
  number above that bound is never used up; more fuel never changes a result. Where the code loops for ever, no fuel suffices, and that is a theorem
  (\<open>open_bracket_hangs\<close>). Probes of a hash table and the percolation of the queue have their own measures.

  Bounds. Tables of names and nodes have less than \<open>2 ^ 30\<close> slots; a definition has at most \<open>2 ^ 14\<close> outputs and less than \<open>2 ^ 15\<close> inputs, which
  is what its \<open>int16\<close> fields can count; the offsets of wire buffers have to fit 16 bits.

  Not modelled, and why: the real-time memory pool (which allocation fails is part of the state), sizes of allocations, memory barriers (a step of a ring
  buffer is atomic), sockets and the audio backends but for the callback, start and end of the server, console output, the search of directories by the operating
  system, float arithmetic of the random generator, the samples a unit generator computes (plug-ins), the language \<open>sclang\<close>, \<open>supernova\<close>,
  user interfaces, vendored libraries, and the few programs of the repository outside of \<open>SuperCollider\<close>.
\<close>

end
